(* ===== verification/Prelude.thy ===== *)
theory Prelude
  imports "HOL-Library.Word"
begin

unbundle bit_operations_syntax

section \<open>Shared types, results and automation\<close>

text \<open>
  The fixed-width integer types of the C++ sources, the ways a run of the tool can stop
  early, the result type of the operations that may stop, and the lemma collections and
  word lemmas the component theories share.
\<close>

subsection \<open>Machine integers\<close>

type_synonym u8 = "8 word"
type_synonym u16 = "16 word"
type_synonym u32 = "32 word"
type_synonym u64 = "64 word"

named_theorems wordsimps \<open>equations that read machine words as natural numbers\<close>
named_theorems frame \<open>what an operation leaves unchanged\<close>
named_theorems codec_simps \<open>reading back what was stored in memory\<close>

subsection \<open>Results\<close>

text \<open>
  Every \<open>exit(1)\<close> of the sources is a constructor of its own; the remaining constructors
  are the undefined behaviours the sources can run into (a read outside an array, a null
  pointer, an operation with no defined result).
\<close>

datatype error =
    Clusters_Not_Aligned
  | Cluster_Too_Small
  | Overhead_Too_Large
  | Fs_Too_Small
  | Not_Enough_Inodes
  | Out_Of_Bounds
  | Null_Pointer
  | Undefined_Value

type_synonym 'a result = "error + 'a"

definition bind_res :: "'a result \<Rightarrow> ('a \<Rightarrow> 'b result) \<Rightarrow> 'b result" where
  "bind_res r f = (case r of Inl e \<Rightarrow> Inl e | Inr x \<Rightarrow> f x)"

lemma bind_res_Inl [simp]: "bind_res (Inl e) f = Inl e"
  by (simp add: bind_res_def)

lemma bind_res_Inr [simp]: "bind_res (Inr x) f = f x"
  by (simp add: bind_res_def)

lemma bind_res_eq_Inr: "bind_res r f = Inr y \<longleftrightarrow> (\<exists>x. r = Inr x \<and> f x = Inr y)"
  by (cases r) auto

lemma bind_res_eq_Inl:
  "bind_res r f = Inl e \<longleftrightarrow> r = Inl e \<or> (\<exists>x. r = Inr x \<and> f x = Inl e)"
  by (cases r) auto

lemma bind_resE:
  assumes "bind_res r f = Inr y"
  obtains x where "r = Inr x" and "f x = Inr y"
  using assms by (auto simp: bind_res_eq_Inr)

lemma bind_res_cong [fundef_cong]:
  "r = r' \<Longrightarrow> (\<And>x. r' = Inr x \<Longrightarrow> f x = g x) \<Longrightarrow> bind_res r f = bind_res r' g"
  by (cases r') auto

lemma bind_res_assoc: "bind_res (bind_res r f) g = bind_res r (\<lambda>x. bind_res (f x) g)"
  by (cases r) auto

subsection \<open>Runs\<close>

text \<open>
  Loops that the sources do not bound are partial functions: \<open>None\<close> is a run that never
  ends, \<open>Some\<close> the result of one that does.
\<close>

type_synonym 'a run = "'a result option"

definition bind_run :: "'a run \<Rightarrow> ('a \<Rightarrow> 'b run) \<Rightarrow> 'b run" where
  "bind_run r f = Option.bind r (\<lambda>q. case q of Inl e \<Rightarrow> Some (Inl e) | Inr x \<Rightarrow> f x)"

lemma bind_run_simps [simp]:
  "bind_run None f = None"
  "bind_run (Some (Inl e)) f = Some (Inl e)"
  "bind_run (Some (Inr x)) f = f x"
  by (simp_all add: bind_run_def)

lemma bind_run_eq_Inr: "bind_run r f = Some (Inr y) \<longleftrightarrow> (\<exists>x. r = Some (Inr x) \<and> f x = Some (Inr y))"
proof (cases r)
  case (Some q)
  then show ?thesis by (cases q) simp_all
qed simp

lemma bind_runE:
  assumes "bind_run r f = Some (Inr y)"
  obtains x where "r = Some (Inr x)" and "f x = Some (Inr y)"
  using assms by (auto simp: bind_run_eq_Inr)

lemma bind_run_mono [partial_function_mono]:
  assumes B: "mono_option B" and C: "\<And>y. mono_option (\<lambda>f. C y f)"
  shows "mono_option (\<lambda>f. bind_run (B f) (\<lambda>y. C y f))"
  unfolding bind_run_def
proof (intro bind_mono B)
  show "mono_option (\<lambda>f. case q of Inl e \<Rightarrow> Some (Inl e) | Inr x \<Rightarrow> C x f)" for q
    by (cases q) (simp_all add: C option.const_mono)
qed

subsection \<open>Reading words as natural numbers\<close>

lemma unat_u8_bound [simp]: "unat (w :: u8) < 256"
  using unsigned_less [of w, where 'a = nat] by simp

lemma unat_u16_bound [simp]: "unat (w :: u16) < 65536"
  using unsigned_less [of w, where 'a = nat] by simp

lemma unat_u32_bound [simp]: "unat (w :: u32) < 4294967296"
  using unsigned_less [of w, where 'a = nat] by simp

lemma unat_u64_bound [simp]: "unat (w :: u64) < 18446744073709551616"
  using unsigned_less [of w, where 'a = nat] by simp

lemma unat_ucast_id [wordsimps]:
  fixes w :: "'a::len word"
  shows "LENGTH('a) \<le> LENGTH('b) \<Longrightarrow> unat (ucast w :: 'b::len word) = unat w"
  by (simp add: unsigned_ucast_eq take_bit_nat_eq_self_iff)
     (meson order_less_le_trans one_le_numeral power_increasing unsigned_less)

lemma unat_ucast_16_32 [simp]: "unat (ucast (w :: u16) :: u32) = unat w"
  by (simp add: unat_ucast_id)

lemma unat_ucast_8_32 [simp]: "unat (ucast (w :: u8) :: u32) = unat w"
  by (simp add: unat_ucast_id)

lemma unat_ucast_32_64 [simp]: "unat (ucast (w :: u32) :: u64) = unat w"
  by (simp add: unat_ucast_id)

lemma unat_ucast_8_64 [simp]: "unat (ucast (w :: u8) :: u64) = unat w"
  by (simp add: unat_ucast_id)

lemma unat_ucast_16_64 [simp]: "unat (ucast (w :: u16) :: u64) = unat w"
  by (simp add: unat_ucast_id)

lemma unat_add_no_overflow [wordsimps]:
  fixes a b :: "'a::len word"
  shows "unat a + unat b < 2 ^ LENGTH('a) \<Longrightarrow> unat (a + b) = unat a + unat b"
  by (simp add: unat_add_lem)

lemma unat_mult_no_overflow [wordsimps]:
  fixes a b :: "'a::len word"
  shows "unat a * unat b < 2 ^ LENGTH('a) \<Longrightarrow> unat (a * b) = unat a * unat b"
  by (simp add: unat_mult_lem)

lemma unat_sub_no_underflow [wordsimps]:
  fixes a b :: "'a::len word"
  shows "unat b \<le> unat a \<Longrightarrow> unat (a - b) = unat a - unat b"
  by (simp add: unat_sub word_le_nat_alt)

end
