(* ===== verification/Memory.thy ===== *)
theory Memory
  imports Prelude
begin

unbundle bit_operations_syntax

section \<open>The mapped partition as a byte memory\<close>

text \<open>
  \<open>openPartition\<close> maps the whole partition into memory and every later access goes through
  pointers into that mapping. The model is a function from addresses to bytes; addresses
  are natural numbers, 0 is the null pointer. Integers are stored little endian, as on the
  machines the tool runs on (it copies on-disk FAT structures without byte swapping).
  The locale \<open>codec\<close> is the interface of a fixed-size value in memory: what is stored is
  read back, nothing outside its bytes changes, and a read depends on its bytes only.
\<close>

type_synonym memory = "nat \<Rightarrow> u8"

subsection \<open>Little-endian integers\<close>

primrec load_le :: "nat \<Rightarrow> memory \<Rightarrow> nat \<Rightarrow> nat" where
  "load_le 0 m a = 0"
| "load_le (Suc k) m a = unat (m a) + 256 * load_le k m (Suc a)"

primrec store_le :: "nat \<Rightarrow> memory \<Rightarrow> nat \<Rightarrow> nat \<Rightarrow> memory" where
  "store_le 0 m a v = m"
| "store_le (Suc k) m a v = store_le k (m(a := word_of_nat (v mod 256))) (Suc a) (v div 256)"

lemma store_le_frame: "x \<notin> {a..<a + k} \<Longrightarrow> store_le k m a v x = m x"
  by (induction k arbitrary: m a v) auto

lemma load_le_cong: "(\<And>x. x \<in> {a..<a + k} \<Longrightarrow> m x = m' x) \<Longrightarrow> load_le k m a = load_le k m' a"
proof (induction k arbitrary: a)
  case (Suc k)
  have "m a = m' a" using Suc.prems by simp
  moreover have "load_le k m (Suc a) = load_le k m' (Suc a)"
    using Suc.prems by (intro Suc.IH) simp
  ultimately show ?case by simp
qed simp

lemma load_le_shift: "(\<And>i. i < k \<Longrightarrow> m (a + i) = m' (b + i)) \<Longrightarrow> load_le k m a = load_le k m' b"
proof (induction k arbitrary: a b)
  case (Suc k)
  have "m a = m' b" using Suc.prems [of 0] by simp
  moreover have "load_le k m (Suc a) = load_le k m' (Suc b)"
  proof (rule Suc.IH)
    show "m (Suc a + i) = m' (Suc b + i)" if "i < k" for i using Suc.prems [of "Suc i"] that by simp
  qed
  ultimately show ?case by simp
qed simp

lemma load_store_le: "load_le k (store_le k m a v) a = v mod 256 ^ k"
proof (induction k arbitrary: m a v)
  case (Suc k)
  have "store_le k (m(a := word_of_nat (v mod 256))) (Suc a) (v div 256) a = word_of_nat (v mod 256)"
    by (simp add: store_le_frame)
  moreover have "v mod (256 * 256 ^ k) = 256 * (v div 256 mod 256 ^ k) + v mod 256"
    by (rule mod_mult2_eq)
  ultimately show ?case
    by (simp add: Suc.IH unat_of_nat)
qed simp

lemma load_le_word_cong:
  "(\<And>x. x \<in> {a..<a + k} \<Longrightarrow> m x = m' x) \<Longrightarrow>
     (word_of_nat (load_le k m a) :: 'b::len word) = word_of_nat (load_le k m' a)"
  by (rule arg_cong [where f = word_of_nat], rule load_le_cong)

lemma load_le_bound: "load_le k m a < 256 ^ k"
proof (induction k arbitrary: a)
  case (Suc k)
  have "load_le k m (Suc a) < 256 ^ k" by (rule Suc.IH)
  moreover have "unat (m a) < 256" by simp
  ultimately have "unat (m a) + 256 * load_le k m (Suc a) < 256 * 256 ^ k" by linarith
  then show ?case by simp
qed simp

lemma bit_load_le: "bit (load_le k m a) i \<longleftrightarrow> i < 8 * k \<and> bit (m (a + i div 8)) (i mod 8)"
proof (induction k arbitrary: a i)
  case (Suc k)
  let ?r = "load_le k m (Suc a)"
  have disj: "\<not> bit (unat (m a)) n \<or> \<not> bit (push_bit 8 ?r) n" for n
  proof -
    have "\<not> bit (unat (m a)) n" if "8 \<le> n"
      using that bit_imp_le_length [of "m a" n] by (auto simp: bit_unsigned_iff)
    then show ?thesis by (cases "n < 8") (auto simp: bit_push_bit_iff)
  qed
  have "load_le (Suc k) m a = unat (m a) + push_bit 8 ?r"
    by (simp add: push_bit_eq_mult)
  also have "\<dots> = unat (m a) OR push_bit 8 ?r"
    by (rule disjunctive_add_eq_or) (use disj in \<open>auto simp: bit_eq_iff bit_and_iff\<close>)
  finally have eq: "bit (load_le (Suc k) m a) i
      \<longleftrightarrow> bit (m a) i \<or> (8 \<le> i \<and> bit ?r (i - 8))"
    by (simp add: bit_or_iff bit_push_bit_iff bit_unsigned_iff)
  show ?case
  proof (cases "i < 8")
    case True
    then show ?thesis unfolding eq by simp
  next
    case False
    then have d: "i div 8 = Suc ((i - 8) div 8)" "i mod 8 = (i - 8) mod 8"
      by (simp_all add: div_nat_eqI le_div_geq le_mod_geq)
    have "\<not> bit (m a) i"
      using False bit_imp_le_length [of "m a" i] by auto
    then show ?thesis unfolding eq d using False Suc.IH by auto
  qed
qed simp

subsection \<open>The interface of a fixed-size value in memory\<close>

fun store_array :: "(memory \<Rightarrow> nat \<Rightarrow> 'a \<Rightarrow> memory) \<Rightarrow> nat \<Rightarrow> memory \<Rightarrow> nat \<Rightarrow> 'a list \<Rightarrow> memory" where
  "store_array st n m a [] = m"
| "store_array st n m a (v # vs) = store_array st n (st m a v) (a + n) vs"

fun load_array :: "(memory \<Rightarrow> nat \<Rightarrow> 'a) \<Rightarrow> nat \<Rightarrow> memory \<Rightarrow> nat \<Rightarrow> nat \<Rightarrow> 'a list" where
  "load_array ld n m a 0 = []"
| "load_array ld n m a (Suc k) = ld m a # load_array ld n m (a + n) k"

lemma store_array_append:
  "store_array st n m a (vs @ ws) = store_array st n (store_array st n m a vs) (a + n * length vs) ws"
  by (induction vs arbitrary: m a) (simp_all add: algebra_simps)

lemma length_load_array [simp]: "length (load_array ld n m a k) = k"
  by (induction k arbitrary: a) auto

lemma load_array_map: "load_array ld n m a k = map (\<lambda>i. ld m (a + n * i)) [0..<k]"
  by (induction k arbitrary: a) (simp_all add: map_upt_Suc algebra_simps del: upt_Suc)

lemma nth_load_array: "i < k \<Longrightarrow> load_array ld n m a k ! i = ld m (a + n * i)"
  by (induction k arbitrary: a i) (auto simp: nth_Cons' algebra_simps)

locale codec =
  fixes len :: nat
    and load :: "memory \<Rightarrow> nat \<Rightarrow> 'a"
    and store :: "memory \<Rightarrow> nat \<Rightarrow> 'a \<Rightarrow> memory"
  assumes load_store: "load (store m a v) a = v"
    and store_frame: "x \<notin> {a..<a + len} \<Longrightarrow> store m a v x = m x"
    and load_cong: "(\<And>x. x \<in> {a..<a + len} \<Longrightarrow> m x = m' x) \<Longrightarrow> load m a = load m' a"
begin

lemma load_store_other:
  assumes "\<And>x. x \<in> {b..<b + len} \<Longrightarrow> x \<notin> {a..<a + len}"
  shows "load (store m a v) b = load m b"
  by (rule load_cong) (rule store_frame, rule assms)

lemma load_store_disjoint:
  assumes "b + len \<le> a \<or> a + len \<le> b"
  shows "load (store m a v) b = load m b"
  by (rule load_store_other) (use assms in auto)

lemma load_upd: "x \<notin> {a..<a + len} \<Longrightarrow> load (m(x := y)) a = load m a"
  by (rule load_cong) auto

lemma store_array_frame:
  "x \<notin> {a..<a + len * length vs} \<Longrightarrow> store_array store len m a vs x = m x"
  by (induction vs arbitrary: m a) (auto simp: store_frame)

lemma load_array_cong:
  "(\<And>x. x \<in> {a..<a + len * k} \<Longrightarrow> m x = m' x) \<Longrightarrow> load_array load len m a k = load_array load len m' a k"
proof (induction k arbitrary: a)
  case (Suc k)
  have "load m a = load m' a" by (rule load_cong) (use Suc.prems in auto)
  moreover have "load_array load len m (a + len) k = load_array load len m' (a + len) k"
    by (rule Suc.IH) (use Suc.prems in auto)
  ultimately show ?case by simp
qed simp

lemma load_store_array: "load_array load len (store_array store len m a vs) a (length vs) = vs"
proof (induction vs arbitrary: m a)
  case (Cons v vs)
  have "load (store_array store len (store m a v) (a + len) vs) a = load (store m a v) a"
    by (rule load_cong) (rule store_array_frame, auto)
  with Cons show ?case by (simp add: load_store)
qed simp

lemma load_other_store:
  assumes "\<And>x. x \<notin> F \<Longrightarrow> m' x = m x" and "F \<inter> {a..<a + len} = {}"
  shows "load m' a = load m a"
  by (rule load_cong) (use assms in blast)

end

subsection \<open>Machine integers in memory\<close>

definition load_u16 :: "memory \<Rightarrow> nat \<Rightarrow> u16" where
  "load_u16 m a = word_of_nat (load_le 2 m a)"

definition store_u16 :: "memory \<Rightarrow> nat \<Rightarrow> u16 \<Rightarrow> memory" where
  "store_u16 m a v = store_le 2 m a (unat v)"

definition load_u32 :: "memory \<Rightarrow> nat \<Rightarrow> u32" where
  "load_u32 m a = word_of_nat (load_le 4 m a)"

definition store_u32 :: "memory \<Rightarrow> nat \<Rightarrow> u32 \<Rightarrow> memory" where
  "store_u32 m a v = store_le 4 m a (unat v)"

definition load_u64 :: "memory \<Rightarrow> nat \<Rightarrow> u64" where
  "load_u64 m a = word_of_nat (load_le 8 m a)"

definition store_u64 :: "memory \<Rightarrow> nat \<Rightarrow> u64 \<Rightarrow> memory" where
  "store_u64 m a v = store_le 8 m a (unat v)"

definition load_u8 :: "memory \<Rightarrow> nat \<Rightarrow> u8" where
  "load_u8 m a = m a"

definition store_u8 :: "memory \<Rightarrow> nat \<Rightarrow> u8 \<Rightarrow> memory" where
  "store_u8 m a v = m(a := v)"

interpretation u8: codec 1 load_u8 store_u8
  by unfold_locales (auto simp: load_u8_def store_u8_def)

interpretation u16: codec 2 load_u16 store_u16
  by unfold_locales
    (simp add: load_u16_def store_u16_def load_store_le, simp add: store_u16_def store_le_frame,
     unfold load_u16_def, rule load_le_word_cong)

interpretation u32: codec 4 load_u32 store_u32
  by unfold_locales
    (simp add: load_u32_def store_u32_def load_store_le, simp add: store_u32_def store_le_frame,
     unfold load_u32_def, rule load_le_word_cong)

interpretation u64: codec 8 load_u64 store_u64
  by unfold_locales
    (simp add: load_u64_def store_u64_def load_store_le, simp add: store_u64_def store_le_frame,
     unfold load_u64_def, rule load_le_word_cong)

lemmas loads_stores [codec_simps] =
  u8.load_store u16.load_store u32.load_store u64.load_store

lemmas stores_frame [frame] =
  u8.store_frame u16.store_frame u32.store_frame u64.store_frame

text \<open>A load is not affected by a store of another width to other bytes.\<close>

lemma load_u16_store_u32:
  "b + 2 \<le> a \<or> a + 4 \<le> b \<Longrightarrow> load_u16 (store_u32 m a v) b = load_u16 m b"
  by (rule u16.load_cong, rule u32.store_frame) auto

lemma load_u16_store_u64:
  "b + 2 \<le> a \<or> a + 8 \<le> b \<Longrightarrow> load_u16 (store_u64 m a v) b = load_u16 m b"
  by (rule u16.load_cong, rule u64.store_frame) auto

lemma load_u32_store_u16:
  "b + 4 \<le> a \<or> a + 2 \<le> b \<Longrightarrow> load_u32 (store_u16 m a v) b = load_u32 m b"
  by (rule u32.load_cong, rule u16.store_frame) auto

lemma load_u32_store_u64:
  "b + 4 \<le> a \<or> a + 8 \<le> b \<Longrightarrow> load_u32 (store_u64 m a v) b = load_u32 m b"
  by (rule u32.load_cong, rule u64.store_frame) auto

lemma load_u64_store_u16:
  "b + 8 \<le> a \<or> a + 2 \<le> b \<Longrightarrow> load_u64 (store_u16 m a v) b = load_u64 m b"
  by (rule u64.load_cong, rule u16.store_frame) auto

lemma load_u64_store_u32:
  "b + 8 \<le> a \<or> a + 4 \<le> b \<Longrightarrow> load_u64 (store_u32 m a v) b = load_u64 m b"
  by (rule u64.load_cong, rule u32.store_frame) auto

lemmas loads_stores_disjoint [codec_simps] =
  u16.load_store_disjoint u32.load_store_disjoint u64.load_store_disjoint
  load_u16_store_u32 load_u16_store_u64 load_u32_store_u16
  load_u32_store_u64 load_u64_store_u16 load_u64_store_u32

lemma load_u16_eq:
  "m' a = m b \<Longrightarrow> m' (Suc a) = m (Suc b) \<Longrightarrow> load_u16 m' a = load_u16 m b"
  by (simp add: load_u16_def numeral_2_eq_2)

lemma bit_load_u32:
  assumes "i < 32" shows "bit (load_u32 m a) i \<longleftrightarrow> bit (m (a + i div 8)) (i mod 8)"
  using assms by (simp add: load_u32_def bit_of_nat_iff bit_load_le)

lemma bit_store_u32:
  assumes "j < 4" "b < 8"
  shows "bit (store_u32 m a v (a + j)) b \<longleftrightarrow> bit v (8 * j + b)"
proof -
  have "bit (load_u32 (store_u32 m a v) a) (8 * j + b) \<longleftrightarrow> bit (store_u32 m a v (a + j)) b"
    using assms by (subst bit_load_u32) auto
  then show ?thesis by (simp add: u32.load_store)
qed

subsection \<open>memcpy and memset\<close>

definition mem_copy :: "memory \<Rightarrow> nat \<Rightarrow> nat \<Rightarrow> nat \<Rightarrow> memory" where
  "mem_copy m dst src n = (\<lambda>x. if dst \<le> x \<and> x < dst + n then m (src + (x - dst)) else m x)"

definition mem_fill :: "memory \<Rightarrow> nat \<Rightarrow> u8 \<Rightarrow> nat \<Rightarrow> memory" where
  "mem_fill m dst v n = (\<lambda>x. if dst \<le> x \<and> x < dst + n then v else m x)"

definition load_bytes :: "memory \<Rightarrow> nat \<Rightarrow> nat \<Rightarrow> u8 list" where
  "load_bytes m a n = map m [a..<a + n]"

fun store_bytes :: "memory \<Rightarrow> nat \<Rightarrow> u8 list \<Rightarrow> memory" where
  "store_bytes m a [] = m"
| "store_bytes m a (b # bs) = store_bytes (m(a := b)) (Suc a) bs"

lemma mem_copy_frame [frame]: "x \<notin> {dst..<dst + n} \<Longrightarrow> mem_copy m dst src n x = m x"
  by (auto simp: mem_copy_def)

lemma mem_copy_at [simp]: "i < n \<Longrightarrow> mem_copy m dst src n (dst + i) = m (src + i)"
  by (simp add: mem_copy_def)

lemma mem_fill_frame [frame]: "x \<notin> {dst..<dst + n} \<Longrightarrow> mem_fill m dst v n x = m x"
  by (auto simp: mem_fill_def)

lemma mem_fill_at [simp]: "i < n \<Longrightarrow> mem_fill m dst v n (dst + i) = v"
  by (simp add: mem_fill_def)

lemma store_bytes_frame [frame]:
  "x \<notin> {a..<a + length bs} \<Longrightarrow> store_bytes m a bs x = m x"
  by (induction bs arbitrary: m a) auto

lemma length_load_bytes [simp]: "length (load_bytes m a n) = n"
  by (simp add: load_bytes_def)

lemma load_bytes_cong:
  "(\<And>x. x \<in> {a..<a + n} \<Longrightarrow> m x = m' x) \<Longrightarrow> load_bytes m a n = load_bytes m' a n"
  by (simp add: load_bytes_def)

lemma load_store_bytes: "load_bytes (store_bytes m a bs) a (length bs) = bs"
proof (induction bs arbitrary: m a)
  case (Cons b bs)
  have "store_bytes (m(a := b)) (Suc a) bs a = b"
    by (simp add: store_bytes_frame)
  moreover have "[a..<a + length (b # bs)] = a # [Suc a..<Suc a + length bs]"
    by (simp add: upt_conv_Cons del: upt_Suc)
  moreover have "map (store_bytes (m(a := b)) (Suc a) bs) [Suc a..<Suc a + length bs] = bs"
    using Cons.IH unfolding load_bytes_def .
  ultimately show ?case
    by (simp only: load_bytes_def store_bytes.simps list.map)
qed (simp add: load_bytes_def)

lemma load_bytes_copy: "load_bytes (mem_copy m dst src n) dst n = load_bytes m src n"
  by (rule nth_equalityI) (simp_all add: load_bytes_def)

end
