(* ===== verification/Util.thy ===== *)
theory Util
  imports Memory
begin

unbundle bit_operations_syntax

section \<open>util.h and util.cpp\<close>

text \<open>
  Rounding up a division, 64-bit and 32-bit values split over a low and a high field,
  and the two ways of setting bits of an on-disk bitmap. The C++ overloads of
  \<open>from_lo_hi\<close>, \<open>set_lo_hi\<close>, \<open>incr_lo_hi\<close> and \<open>decr_lo_hi\<close> are told apart by the widths
  of their low and high parts; a function that sets two reference parameters returns the
  pair of their new values.
\<close>

subsection \<open>Arithmetic\<close>

fun clz_from :: "nat \<Rightarrow> u32 \<Rightarrow> nat" where
  "clz_from 0 w = 0"
| "clz_from (Suc i) w = (if bit w i then 0 else Suc (clz_from i w))"

text \<open>\<open>__builtin_clz\<close> has no defined result on 0.\<close>

definition log2 :: "u32 \<Rightarrow> u32 result" where
  "log2 v = (if v = 0 then Inl Undefined_Value
             else Inr (word_of_nat (4 * 8) - word_of_nat (clz_from 32 v) - 1))"

definition min_u32 :: "u32 \<Rightarrow> u32 \<Rightarrow> u32" where
  "min_u32 a b = (if a < b then a else b)"

text \<open>The two instances of the template \<open>ceildiv\<close> that the sources use.\<close>

definition ceildiv_u32 :: "u32 \<Rightarrow> u32 \<Rightarrow> u32" where
  "ceildiv_u32 a b = (a + b - 1) div b"

definition ceildiv_u64 :: "u64 \<Rightarrow> u64 \<Rightarrow> u32" where
  "ceildiv_u64 a b = ucast ((a + b - 1) div b)"

subsection \<open>Values split over two fields\<close>

definition from_lo_hi_32 :: "u32 \<Rightarrow> u32 \<Rightarrow> u64" where
  "from_lo_hi_32 lo hi = push_bit 32 (ucast hi) OR ucast lo"

definition from_lo_hi_16 :: "u16 \<Rightarrow> u16 \<Rightarrow> u32" where
  "from_lo_hi_16 lo hi = push_bit 16 (ucast hi) OR ucast lo"

definition set_lo_hi_32_16 :: "u64 \<Rightarrow> u32 \<times> u16" where
  "set_lo_hi_32_16 v = (ucast (v AND 0xFFFFFFFF), ucast (drop_bit 32 v))"

definition set_lo_hi_32_32 :: "u64 \<Rightarrow> u32 \<times> u32" where
  "set_lo_hi_32_32 v = (ucast (v AND 0xFFFFFFFF), ucast (drop_bit 32 v))"

definition set_lo_hi_16_16 :: "u32 \<Rightarrow> u16 \<times> u16" where
  "set_lo_hi_16_16 v = (ucast (v AND 0xFFFF), ucast (drop_bit 16 v))"

definition incr_lo_hi_16_16 :: "u16 \<times> u16 \<Rightarrow> u32 \<Rightarrow> u16 \<times> u16" where
  "incr_lo_hi_16_16 = (\<lambda>(lo, hi) diff. set_lo_hi_16_16 (from_lo_hi_16 lo hi + diff))"

definition incr_lo_hi_32_16 :: "u32 \<times> u16 \<Rightarrow> u64 \<Rightarrow> u32 \<times> u16" where
  "incr_lo_hi_32_16 = (\<lambda>(lo, hi) diff. set_lo_hi_32_16 (from_lo_hi_32 lo (ucast hi) + diff))"

definition incr_lo_hi_32_32 :: "u32 \<times> u32 \<Rightarrow> u64 \<Rightarrow> u32 \<times> u32" where
  "incr_lo_hi_32_32 = (\<lambda>(lo, hi) diff. set_lo_hi_32_32 (from_lo_hi_32 lo hi + diff))"

definition decr_lo_hi_16_16 :: "u16 \<times> u16 \<Rightarrow> u32 \<Rightarrow> u16 \<times> u16" where
  "decr_lo_hi_16_16 = (\<lambda>(lo, hi) diff. set_lo_hi_16_16 (from_lo_hi_16 lo hi - diff))"

lemma mask_16: "(0xFFFF :: 'a::len word) = mask 16"
  by (simp add: mask_eq_exp_minus_1)

lemma mask_32: "(0xFFFFFFFF :: 'a::len word) = mask 32"
  by (simp add: mask_eq_exp_minus_1)

lemmas lo_hi_defs =
  from_lo_hi_16_def from_lo_hi_32_def set_lo_hi_16_16_def set_lo_hi_32_16_def
  set_lo_hi_32_32_def mask_16 mask_32

lemma from_set_lo_hi_16_16 [simp]:
  "from_lo_hi_16 (fst (set_lo_hi_16_16 v)) (snd (set_lo_hi_16_16 v)) = v"
  unfolding lo_hi_defs prod.sel by (rule bit_word_eqI) (auto simp: bit_simps)

lemma from_set_lo_hi_32_32 [simp]:
  "from_lo_hi_32 (fst (set_lo_hi_32_32 v)) (snd (set_lo_hi_32_32 v)) = v"
  unfolding lo_hi_defs prod.sel by (rule bit_word_eqI) (auto simp: bit_simps)

lemma from_set_lo_hi_32_16:
  "from_lo_hi_32 (fst (set_lo_hi_32_16 v)) (ucast (snd (set_lo_hi_32_16 v))) = take_bit 48 v"
  unfolding lo_hi_defs prod.sel by (rule bit_word_eqI) (auto simp: bit_simps)

lemma set_from_lo_hi_16_16 [simp]: "set_lo_hi_16_16 (from_lo_hi_16 lo hi) = (lo, hi)"
  unfolding lo_hi_defs prod.inject
  by (intro conjI; rule bit_word_eqI) (auto simp: bit_simps dest: bit_imp_le_length)

lemma set_from_lo_hi_32_32 [simp]: "set_lo_hi_32_32 (from_lo_hi_32 lo hi) = (lo, hi)"
  unfolding lo_hi_defs prod.inject
  by (intro conjI; rule bit_word_eqI) (auto simp: bit_simps dest: bit_imp_le_length)

lemma or_push_bit_nat:
  assumes "(a :: nat) < 2 ^ n" shows "push_bit n b OR a = b * 2 ^ n + a"
proof -
  from assms have a: "take_bit n a = a"
    by (simp add: take_bit_nat_eq_self)
  have "push_bit n b AND take_bit n a = 0"
    by (rule bit_eqI) (auto simp: bit_simps)
  with a have "push_bit n b AND a = 0" by simp
  then show ?thesis
    by (simp add: disjunctive_add_eq_or [symmetric] push_bit_eq_mult)
qed

lemma unat_from_lo_hi_16: "unat (from_lo_hi_16 lo hi) = unat hi * 65536 + unat lo"
proof -
  have "unat (from_lo_hi_16 lo hi) = take_bit 32 (push_bit 16 (unat hi)) OR unat lo"
    by (simp add: from_lo_hi_16_def unsigned_or_eq unsigned_push_bit_eq)
  also have "take_bit 32 (push_bit 16 (unat hi)) = push_bit 16 (unat hi)"
    by (simp add: take_bit_nat_eq_self_iff push_bit_eq_mult)
  finally show ?thesis
    using or_push_bit_nat [of "unat lo" 16 "unat hi"] by simp
qed

lemma unat_from_lo_hi_32: "unat (from_lo_hi_32 lo hi) = unat hi * 4294967296 + unat lo"
proof -
  have "unat (from_lo_hi_32 lo hi) = take_bit 64 (push_bit 32 (unat hi)) OR unat lo"
    by (simp add: from_lo_hi_32_def unsigned_or_eq unsigned_push_bit_eq)
  also have "take_bit 64 (push_bit 32 (unat hi)) = push_bit 32 (unat hi)"
    by (simp add: take_bit_nat_eq_self_iff push_bit_eq_mult)
  finally show ?thesis
    using or_push_bit_nat [of "unat lo" 32 "unat hi"] by simp
qed

lemma from_incr_lo_hi_16_16:
  "incr_lo_hi_16_16 p d = p' \<Longrightarrow>
     from_lo_hi_16 (fst p') (snd p') = from_lo_hi_16 (fst p) (snd p) + d"
  by (auto simp: incr_lo_hi_16_16_def split: prod.splits)

lemma from_decr_lo_hi_16_16:
  "decr_lo_hi_16_16 p d = p' \<Longrightarrow>
     from_lo_hi_16 (fst p') (snd p') = from_lo_hi_16 (fst p) (snd p) - d"
  by (auto simp: decr_lo_hi_16_16_def split: prod.splits)

lemma from_incr_lo_hi_32_32:
  "incr_lo_hi_32_32 p d = p' \<Longrightarrow>
     from_lo_hi_32 (fst p') (snd p') = from_lo_hi_32 (fst p) (snd p) + d"
  by (auto simp: incr_lo_hi_32_32_def split: prod.splits)

lemma from_incr_lo_hi_32_16:
  "incr_lo_hi_32_16 p d = p' \<Longrightarrow>
     from_lo_hi_32 (fst p') (ucast (snd p'))
       = take_bit 48 (from_lo_hi_32 (fst p) (ucast (snd p)) + d)"
  by (auto simp: incr_lo_hi_32_16_def from_set_lo_hi_32_16 split: prod.splits)

subsection \<open>log2 is the integer logarithm\<close>

lemma clz_from_le: "clz_from n w \<le> n"
  by (induction n) auto

lemma clz_from_high_bits: "n - clz_from n w \<le> i \<Longrightarrow> i < n \<Longrightarrow> \<not> bit w i"
proof (induction n arbitrary: i)
  case (Suc n)
  then show ?case
    using clz_from_le [of n w] by (cases "i = n") (auto split: if_splits simp: Suc_diff_le)
qed simp

lemma clz_from_top_bit: "clz_from n w < n \<Longrightarrow> bit w (n - clz_from n w - 1)"
  by (induction n) (auto split: if_splits)

lemma log2_bounds:
  assumes "log2 v = Inr r"
  shows "2 ^ unat r \<le> unat v \<and> unat v < 2 ^ (unat r + 1)"
proof -
  let ?c = "clz_from 32 v"
  from assms have v: "v \<noteq> 0" and r: "r = word_of_nat 32 - word_of_nat ?c - 1"
    by (auto simp: log2_def split: if_splits)
  have "?c \<noteq> 32"
  proof
    assume "?c = 32"
    then have "\<not> bit v i" if "i < 32" for i
      using clz_from_high_bits [of 32 v i] that by simp
    then have "v = 0" by (intro bit_word_eqI) simp
    with v show False by simp
  qed
  with clz_from_le [of 32 v] have c: "?c < 32" by simp
  have ur: "unat r = 31 - ?c"
  proof -
    have "r = word_of_nat (31 - ?c)"
      using c by (simp add: r of_nat_diff)
    moreover have "31 - ?c < 2 ^ LENGTH(32)" by simp
    ultimately show ?thesis by (simp only: unat_of_nat mod_less)
  qed
  have top: "bit v (unat r)"
    using clz_from_top_bit [of 32 v] c ur by simp
  have high: "\<not> bit v i" if "unat r < i" for i
  proof (cases "i < 32")
    case True
    then show ?thesis using clz_from_high_bits [of 32 v i] that c ur by simp
  next
    case False
    then show ?thesis using bit_imp_le_length [of v i] by auto
  qed
  have "unat v = take_bit (unat r + 1) (unat v)"
    by (rule bit_eqI, simp add: bit_simps less_Suc_eq_le) (meson high not_less)
  then have lt: "unat v < 2 ^ (unat r + 1)"
    by (metis take_bit_nat_less_exp)
  have "bit (unat v) (unat r)" using top by (simp add: bit_unsigned_iff)
  then have "2 ^ unat r \<le> unat v"
    by (metis bit_take_bit_iff less_irrefl not_le take_bit_nat_eq_self_iff)
  with lt show ?thesis by simp
qed

subsection \<open>Bitmaps\<close>

definition bitmap_set_bit :: "memory \<Rightarrow> nat \<Rightarrow> u32 \<Rightarrow> memory" where
  "bitmap_set_bit m bitmap bit_num =
     (let a = bitmap + unat (bit_num div 8)
      in m(a := m a OR push_bit (unat (bit_num mod 8)) 1))"

definition fill_lsbs :: "u32 \<Rightarrow> u32" where
  "fill_lsbs len = push_bit (unat len) 1 - 1"

function fill_segments :: "memory \<Rightarrow> nat \<Rightarrow> nat \<Rightarrow> memory \<times> nat" where
  "fill_segments m p e =
     (if p < e then fill_segments (store_u32 m p (- 1)) (p + 4) e else (m, p))"
  by pat_completeness auto
termination
  by (relation "measure (\<lambda>(m, p, e). e - p)") auto

declare fill_segments.simps [simp del]

definition bitmap_set_bits :: "memory \<Rightarrow> nat \<Rightarrow> u32 \<Rightarrow> u32 \<Rightarrow> memory" where
  "bitmap_set_bits m bitmap b e =
     (let segment_length = 32;
          begin_ptr = bitmap + 4 * unat (b div segment_length);
          end_ptr = bitmap + 4 * unat (e div segment_length)
      in if begin_ptr < end_ptr then
           (let m1 = store_u32 m begin_ptr
                       (load_u32 m begin_ptr OR NOT (fill_lsbs (b mod segment_length)));
                (m2, p) = fill_segments m1 (begin_ptr + 4) end_ptr
            in store_u32 m2 p (load_u32 m2 p OR fill_lsbs (e mod segment_length)))
         else if begin_ptr = end_ptr then
           store_u32 m begin_ptr
             (load_u32 m begin_ptr OR
               (NOT (fill_lsbs (b mod segment_length)) AND fill_lsbs (e mod segment_length)))
         else m)"

text \<open>
  The loop that the sources keep as a comment above the optimised version: set the bits
  one by one.
\<close>

definition bitmap_set_bits_reference :: "memory \<Rightarrow> nat \<Rightarrow> u32 \<Rightarrow> u32 \<Rightarrow> memory" where
  "bitmap_set_bits_reference m bitmap b e =
     foldl (\<lambda>m i. bitmap_set_bit m bitmap (word_of_nat i)) m [unat b..<unat e]"

text \<open>The interface of a set of bits that operations only ever add to.\<close>

locale bitset =
  fixes valid :: "'m \<Rightarrow> nat \<Rightarrow> bool"
    and test :: "'m \<Rightarrow> nat \<Rightarrow> bool"
    and mark :: "'m \<Rightarrow> nat \<Rightarrow> 'm"
  assumes test_mark: "valid m i \<Longrightarrow> test (mark m i) j \<longleftrightarrow> j = i \<or> test m j"
    and valid_mark: "valid m i \<Longrightarrow> valid (mark m i) j \<longleftrightarrow> valid m j"
begin

lemma valid_foldl: "list_all (valid m) is \<Longrightarrow> valid (foldl mark m is) j \<longleftrightarrow> valid m j"
  by (induction "is" arbitrary: m) (auto simp: valid_mark list_all_iff)

lemma test_foldl: "list_all (valid m) is \<Longrightarrow> test (foldl mark m is) j \<longleftrightarrow> j \<in> set is \<or> test m j"
proof (induction "is" arbitrary: m)
  case (Cons i "is")
  then have "list_all (valid (mark m i)) is" by (auto simp: list_all_iff valid_mark)
  then show ?case using Cons by (auto simp: test_mark)
qed simp

end

definition bitmap_bit :: "memory \<Rightarrow> nat \<Rightarrow> nat \<Rightarrow> bool" where
  "bitmap_bit m bitmap n = bit (m (bitmap + n div 8)) (n mod 8)"

lemma bitmap_bit_mod: "i < 8 \<Longrightarrow> bitmap_bit m bm (8 * k + i) = bit (m (bm + k)) i"
  by (simp add: bitmap_bit_def)

lemma bitmap_ext:
  assumes low: "\<And>x. x < bm \<Longrightarrow> m x = m' x"
    and bits: "\<And>n. bitmap_bit m bm n = bitmap_bit m' bm n"
  shows "m = m'"
proof
  fix x
  show "m x = m' x"
  proof (cases "x < bm")
    case False
    then obtain k where x: "x = bm + k" using le_Suc_ex not_less by blast
    show ?thesis
    proof (rule bit_word_eqI)
      fix i assume "i < LENGTH(8)"
      then have "i < 8" by simp
      then show "bit (m x) i = bit (m' x) i"
        using bits [of "8 * k + i"] by (simp only: x bitmap_bit_mod)
    qed
  qed (rule low)
qed

lemma unat_bit_num: "unat ((n :: u32) div 8) = unat n div 8" "unat (n mod 8) = unat n mod 8"
  by (simp_all add: unat_div unat_mod)

lemma bitmap_set_bit_frame [frame]:
  "x \<noteq> bm + unat n div 8 \<Longrightarrow> bitmap_set_bit m bm n x = m x"
  by (simp add: bitmap_set_bit_def Let_def unat_bit_num)

lemma div_mod_8_eq: "(i :: nat) div 8 = j div 8 \<Longrightarrow> i mod 8 = j mod 8 \<Longrightarrow> i = j"
  by (metis mult_div_mod_eq)

lemma bitmap_bit_set_bit:
  "bitmap_bit (bitmap_set_bit m bm n) bm j \<longleftrightarrow> j = unat n \<or> bitmap_bit m bm j"
proof -
  have "bit (push_bit (unat n mod 8) (1 :: u8)) (j mod 8) \<longleftrightarrow> j mod 8 = unat n mod 8"
    by (auto simp: bit_simps)
  then show ?thesis
    by (auto simp: bitmap_set_bit_def Let_def bitmap_bit_def unat_bit_num bit_or_iff
        dest: div_mod_8_eq)
qed

interpretation disk_bitmap: bitset "\<lambda>m i. i < 2 ^ 32" "\<lambda>m. bitmap_bit m bm"
    "\<lambda>m i. bitmap_set_bit m bm (word_of_nat i)" for bm
  by unfold_locales (simp_all add: bitmap_bit_set_bit unat_of_nat)

subsection \<open>The segment-wise bitmap update equals the bit-wise one\<close>

lemma fill_lsbs_mask: "unat n < 32 \<Longrightarrow> fill_lsbs n = mask (unat n)"
  by (simp add: fill_lsbs_def mask_eq_exp_minus_1)

lemma bit_fill_lsbs: "i < 32 \<Longrightarrow> bit (fill_lsbs (n mod 32)) i \<longleftrightarrow> i < unat n mod 32"
  by (subst fill_lsbs_mask) (simp_all add: unat_mod bit_simps)

lemma segment_div_mod:
  "((32 :: nat) * s + i) div 8 = 4 * s + i div 8" "(32 * s + i) mod 8 = i mod 8"
proof -
  have "32 * s + i = i + 8 * (4 * s)" by simp
  then show "(32 * s + i) div 8 = 4 * s + i div 8" "(32 * s + i) mod 8 = i mod 8"
    by (metis add.commute div_mult_self2 zero_neq_numeral, metis mod_mult_self2)
qed

lemma bitmap_bit_load_u32:
  "i < 32 \<Longrightarrow> bit (load_u32 m (bm + 4 * s)) i = bitmap_bit m bm (32 * s + i)"
  by (simp add: bit_load_u32 bitmap_bit_def segment_div_mod add.assoc)

lemma bitmap_bit_store_u32:
  "bitmap_bit (store_u32 m (bm + 4 * s) v) bm n
     \<longleftrightarrow> (if n div 32 = s then bit v (n mod 32) else bitmap_bit m bm n)"
proof (cases "n div 32 = s")
  case True
  define i where "i = n mod 32"
  have n: "n = 32 * s + i"
    using True mult_div_mod_eq [of 32 n] by (simp add: i_def)
  have d: "bm + n div 8 = bm + 4 * s + i div 8" "n mod 8 = i mod 8"
    by (simp_all only: n segment_div_mod add.assoc)
  have "i div 8 < 4" by (auto simp: i_def)
  then have "bit (store_u32 m (bm + 4 * s) v (bm + 4 * s + i div 8)) (i mod 8) = bit v (8 * (i div 8) + i mod 8)"
    by (rule bit_store_u32) simp
  then have "bitmap_bit (store_u32 m (bm + 4 * s) v) bm n = bit v i"
    by (simp only: bitmap_bit_def d mult_div_mod_eq)
  with True show ?thesis by (simp add: i_def)
next
  case False
  then have "n div 8 div 4 \<noteq> s" by (simp add: div_mult2_eq [symmetric])
  then have "bm + n div 8 \<notin> {bm + 4 * s..<bm + 4 * s + 4}" by auto
  with False show ?thesis by (simp add: bitmap_bit_def u32.store_frame)
qed

lemma le_div_mod_iff:
  fixes k :: nat
  shows "b \<le> n \<longleftrightarrow> b div k < n div k \<or> b div k = n div k \<and> b mod k \<le> n mod k"
proof (cases "b div k = n div k")
  case True
  then have "b \<le> n \<longleftrightarrow> b mod k \<le> n mod k"
    by (metis add_le_cancel_left mult_div_mod_eq)
  with True show ?thesis by simp
next
  case False
  then show ?thesis
    by (metis div_le_mono le_antisym le_eq_less_or_eq nle_le)
qed

lemma unat_segment: "unat ((n :: u32) div 32) = unat n div 32" "unat (n mod 32) = unat n mod 32"
  by (simp_all add: unat_div unat_mod)

lemma fill_segments_bits:
  "s \<le> t \<Longrightarrow> fill_segments m (bm + 4 * s) (bm + 4 * t) = (m', p) \<Longrightarrow>
     p = bm + 4 * t \<and>
     bitmap_bit m' bm n = (bitmap_bit m bm n \<or> s \<le> n div 32 \<and> n div 32 < t) \<and>
     (\<forall>x < bm. m' x = m x)"
proof (induction "t - s" arbitrary: s m)
  case 0
  then show ?case by (auto simp: fill_segments.simps [of m])
next
  case (Suc d)
  let ?m = "store_u32 m (bm + 4 * s) (- 1)"
  have lt: "s < t" using Suc.hyps(2) by simp
  have rest: "fill_segments ?m (bm + 4 * Suc s) (bm + 4 * t) = (m', p)"
    using Suc.prems(2) lt by (simp add: fill_segments.simps [of m] add.commute [of 4] add.assoc)
  have IH: "p = bm + 4 * t \<and>
     bitmap_bit m' bm n = (bitmap_bit ?m bm n \<or> Suc s \<le> n div 32 \<and> n div 32 < t) \<and>
     (\<forall>x < bm. m' x = ?m x)"
    by (rule Suc.hyps(1) [OF _ _ rest]) (use lt Suc.hyps(2) in simp_all)
  have "bitmap_bit ?m bm n = (n div 32 = s \<or> bitmap_bit m bm n)"
    by (simp add: bitmap_bit_store_u32)
  moreover have "\<forall>x < bm. ?m x = m x" by (simp add: u32.store_frame)
  ultimately show ?case using IH Suc.hyps(2) by auto
qed

lemma bitmap_bit_or_segment:
  "bitmap_bit (store_u32 m (bm + 4 * s) (load_u32 m (bm + 4 * s) OR v)) bm n
     \<longleftrightarrow> bitmap_bit m bm n \<or> n div 32 = s \<and> bit v (n mod 32)"
  by (auto simp: bitmap_bit_store_u32 bit_or_iff bitmap_bit_load_u32)

lemma bit_not_fill_lsbs:
  "i < 32 \<Longrightarrow> bit (NOT (fill_lsbs (n mod 32))) i \<longleftrightarrow> unat n mod 32 \<le> i"
  by (simp add: bit_not_iff bit_fill_lsbs not_less)

lemma segment_interval:
  fixes n b e :: nat
  assumes "b div 32 < e div 32"
  shows "(n div 32 = b div 32 \<and> b mod 32 \<le> n mod 32 \<or>
          Suc (b div 32) \<le> n div 32 \<and> n div 32 < e div 32 \<or>
          n div 32 = e div 32 \<and> n mod 32 < e mod 32) \<longleftrightarrow> b \<le> n \<and> n < e"
  using assms le_div_mod_iff [of b n 32] le_div_mod_iff [of e n 32] by linarith

lemma same_segment_interval:
  fixes n b e :: nat
  assumes "b div 32 = e div 32"
  shows "(n div 32 = b div 32 \<and> b mod 32 \<le> n mod 32 \<and> n mod 32 < e mod 32) \<longleftrightarrow> b \<le> n \<and> n < e"
  using assms le_div_mod_iff [of b n 32] le_div_mod_iff [of e n 32] by linarith

lemma bitmap_set_bits_bits:
  "bitmap_bit (bitmap_set_bits m bm b e) bm n
     \<longleftrightarrow> bitmap_bit m bm n \<or> unat b \<le> n \<and> n < unat e"
  (is "?l \<longleftrightarrow> ?r")
proof (cases "unat b div 32 < unat e div 32")
  case True
  let ?p = "bm + 4 * (unat b div 32)" and ?q = "bm + 4 * (unat e div 32)"
  let ?m1 = "store_u32 m ?p (load_u32 m ?p OR NOT (fill_lsbs (b mod 32)))"
  obtain m2 p where m2: "fill_segments ?m1 (bm + 4 * Suc (unat b div 32)) ?q = (m2, p)"
    by fastforce
  have 2: "p = ?q"
    "bitmap_bit m2 bm n = (bitmap_bit ?m1 bm n \<or> Suc (unat b div 32) \<le> n div 32 \<and> n div 32 < unat e div 32)"
    using fill_segments_bits [OF _ m2] True by auto
  have "bitmap_set_bits m bm b e = store_u32 m2 ?q (load_u32 m2 ?q OR fill_lsbs (e mod 32))"
    using True m2 2(1) by (simp add: bitmap_set_bits_def Let_def unat_segment add.commute [of 4] add.assoc)
  then have "?l \<longleftrightarrow> bitmap_bit m bm n \<or>
      (n div 32 = unat b div 32 \<and> unat b mod 32 \<le> n mod 32 \<or>
       Suc (unat b div 32) \<le> n div 32 \<and> n div 32 < unat e div 32 \<or>
       n div 32 = unat e div 32 \<and> n mod 32 < unat e mod 32)"
    by (auto simp: bitmap_bit_or_segment 2(2) bit_fill_lsbs bit_not_fill_lsbs)
  then show ?thesis using segment_interval [OF True] by simp
next
  case False
  then show ?thesis
    using same_segment_interval [of "unat b" "unat e" n]
    by (cases "unat b div 32 = unat e div 32")
      (auto simp: bitmap_set_bits_def Let_def unat_segment bitmap_bit_or_segment bit_and_iff
        bit_fill_lsbs bit_not_fill_lsbs dest: div_le_mono [of "unat b" "unat e" 32])
qed

lemma bitmap_set_bits_low: "x < bm \<Longrightarrow> bitmap_set_bits m bm b e x = m x"
proof (cases "unat b div 32 < unat e div 32")
  case True
  assume x: "x < bm"
  let ?p = "bm + 4 * (unat b div 32)" and ?q = "bm + 4 * (unat e div 32)"
  let ?m1 = "store_u32 m ?p (load_u32 m ?p OR NOT (fill_lsbs (b mod 32)))"
  obtain m2 p where m2: "fill_segments ?m1 (bm + 4 * Suc (unat b div 32)) ?q = (m2, p)"
    by fastforce
  have 2: "p = ?q" "m2 x = ?m1 x"
    using fill_segments_bits [OF _ m2] True x by auto
  have "bitmap_set_bits m bm b e = store_u32 m2 ?q (load_u32 m2 ?q OR fill_lsbs (e mod 32))"
    using True m2 2(1) by (simp add: bitmap_set_bits_def Let_def unat_segment add.commute [of 4] add.assoc)
  with x 2(2) show ?thesis by (simp add: u32.store_frame)
next
  case False
  assume "x < bm"
  with False show ?thesis
    by (auto simp: bitmap_set_bits_def Let_def unat_segment u32.store_frame)
qed

lemma bitmap_set_bits_frame [frame]:
  assumes "x \<notin> {bm + unat b div 8..<bm + (unat e + 7) div 8}"
  shows "bitmap_set_bits m bm b e x = m x"
proof (cases "x < bm")
  case False
  then obtain k where x: "x = bm + k" using le_Suc_ex not_less by blast
  show ?thesis
  proof (rule bit_word_eqI)
    fix i assume "i < LENGTH(8)"
    then have i: "i < 8" by simp
    have "\<not> (unat b \<le> 8 * k + i \<and> 8 * k + i < unat e)"
      using assms x i by auto
    then show "bit (bitmap_set_bits m bm b e x) i = bit (m x) i"
      using bitmap_set_bits_bits [of m bm b e "8 * k + i"] i by (auto simp: x bitmap_bit_mod)
  qed
qed (rule bitmap_set_bits_low)

lemma bitmap_set_bits_reference_low:
  "x < bm \<Longrightarrow> bitmap_set_bits_reference m bm b e x = m x"
proof -
  assume "x < bm"
  then have "foldl (\<lambda>m i. bitmap_set_bit m bm (word_of_nat i)) m is x = m x" for "is"
    by (induction "is" arbitrary: m) (simp_all add: bitmap_set_bit_frame)
  then show ?thesis by (simp add: bitmap_set_bits_reference_def)
qed

lemma bitmap_set_bits_reference_bits:
  "bitmap_bit (bitmap_set_bits_reference m bm b e) bm n
     \<longleftrightarrow> bitmap_bit m bm n \<or> unat b \<le> n \<and> n < unat e"
proof -
  have "list_all (\<lambda>i. i < 2 ^ 32) [unat b..<unat e]"
    using unat_u32_bound [of e] by (auto simp: list_all_iff intro: less_trans)
  then show ?thesis
    unfolding bitmap_set_bits_reference_def
    by (subst disk_bitmap.test_foldl) auto
qed

text \<open>
  C27. The segment-wise \<open>bitmap_set_bits\<close> computes exactly the memory that the bit-by-bit
  loop kept in its comment computes, for every memory, bitmap address and pair of bounds
  (an empty or reversed range changes nothing).
\<close>

theorem bitmap_set_bits_eq_reference:
  "bitmap_set_bits m bm b e = bitmap_set_bits_reference m bm b e"
  by (rule bitmap_ext [of bm])
    (simp_all add: bitmap_set_bits_low bitmap_set_bits_reference_low
      bitmap_set_bits_bits bitmap_set_bits_reference_bits)

text \<open>
  \<open>log2\<close> returns the position of the highest set bit of every non-zero value: the value
  lies between that power of two and the next.
\<close>

theorem log2_correct:
  "log2 v = Inr r \<Longrightarrow> 2 ^ unat r \<le> unat v \<and> unat v < 2 ^ (unat r + 1)"
  by (rule log2_bounds)

theorem log2_correct_witness: "2 ^ unat (12 :: u32) \<le> unat (4096 :: u32) \<and> unat (4096 :: u32) < 2 ^ (unat (12 :: u32) + 1)"
  by (rule log2_correct [of 4096 12]) code_simp

text \<open>
  Incrementing or decrementing a value split over two fields is addition or
  subtraction of the joined value: the carry reaches the high half (48-bit values wrap
  at 48 bits), and splitting loses nothing.
\<close>

theorem lo_hi_arithmetic:
  "from_lo_hi_16 (fst (incr_lo_hi_16_16 p d)) (snd (incr_lo_hi_16_16 p d))
     = from_lo_hi_16 (fst p) (snd p) + d
   \<and> from_lo_hi_16 (fst (decr_lo_hi_16_16 p d)) (snd (decr_lo_hi_16_16 p d))
     = from_lo_hi_16 (fst p) (snd p) - d
   \<and> from_lo_hi_32 (fst (incr_lo_hi_32_32 q e)) (snd (incr_lo_hi_32_32 q e))
     = from_lo_hi_32 (fst q) (snd q) + e
   \<and> from_lo_hi_32 (fst (incr_lo_hi_32_16 r e)) (ucast (snd (incr_lo_hi_32_16 r e)))
     = take_bit 48 (from_lo_hi_32 (fst r) (ucast (snd r)) + e)"
  by (simp only: from_incr_lo_hi_16_16 [OF refl] from_decr_lo_hi_16_16 [OF refl]
      from_incr_lo_hi_32_32 [OF refl] from_incr_lo_hi_32_16 [OF refl])

end
