(* ===== verification/Fat.thy ===== *)
theory Fat
  imports Util
begin

unbundle bit_operations_syntax

section \<open>fat.h and fat.cpp: the FAT side of the conversion\<close>

text \<open>
  The boot sector and the geometry derived from it, cluster and block numbers, the file
  allocation table, directory entries, names and time stamps. The global variables
  \<open>boot_sector\<close> and \<open>meta_info\<close> of the sources are the two fields of the record
  \<open>fat_globals\<close>; pointers into the mapped partition are addresses of \<open>Memory\<close>.
\<close>

subsection \<open>Constants and structs of fat.h\<close>

definition FAT_START_INDEX :: u32 where "FAT_START_INDEX = 2"
definition CLUSTER_ENTRY_MASK :: u32 where "CLUSTER_ENTRY_MASK = 0x0FFFFFFF"
definition FREE_CLUSTER :: u32 where "FREE_CLUSTER = 0"
definition FAT_END_OF_CHAIN :: u32 where "FAT_END_OF_CHAIN = 0x0FFFFFF8"
definition LFN_ENTRY_LENGTH :: nat where "LFN_ENTRY_LENGTH = 13"

record boot_sector =
  bs_jump_instruction :: "u8 list"
  bs_oem_name :: "u8 list"
  bs_bytes_per_sector :: u16
  bs_sectors_per_cluster :: u8
  bs_sectors_before_fat :: u16
  bs_fat_count :: u8
  bs_dir_entries :: u16
  bs_sector_count :: u16
  bs_media_descriptor :: u8
  bs_unused2 :: u16
  bs_sectors_per_disk_track :: u16
  bs_disk_heads :: u16
  bs_hidden_sectors_before_partition :: u32
  bs_total_sectors2 :: u32
  bs_sectors_per_fat :: u32
  bs_drive_description_flags :: u16
  bs_version :: u16
  bs_root_cluster_no :: u32
  bs_fs_info_sector_no :: u16
  bs_backup_boot_sector_no :: u16
  bs_reserved :: "u8 list"
  bs_physical_drive_no :: u8
  bs_reserved2 :: u8
  bs_ext_boot_signature :: u8
  bs_volume_id :: u32
  bs_volume_label :: "u8 list"
  bs_fs_type :: u64

record fat_extent =
  fe_logical_start :: u32
  fe_length :: u16
  fe_physical_start :: u32

record meta_info =
  mi_fs_start :: nat
  mi_fat_start :: nat
  mi_fat_entries :: u16
  mi_cluster_size :: u32
  mi_dentries_per_cluster :: u32
  mi_sectors_before_data :: u32
  mi_data_start :: nat

record fat_dentry =
  fd_short_name :: "u8 list"
  fd_short_extension :: "u8 list"
  fd_attrs :: u8
  fd_short_name_case :: u8
  fd_create_time_10_ms :: u8
  fd_create_time :: u16
  fd_create_date :: u16
  fd_access_date :: u16
  fd_first_cluster_high :: u16
  fd_mod_time :: u16
  fd_mod_date :: u16
  fd_first_cluster_low :: u16
  fd_file_size :: u32

definition sizeof_fat_dentry :: nat where "sizeof_fat_dentry = 32"
definition sizeof_fat_extent :: nat where "sizeof_fat_extent = 12"

record fat_globals =
  boot_sector :: boot_sector
  meta_info :: meta_info

subsection \<open>The structs in memory\<close>

text \<open>\<open>boot_sector\<close> is packed; the other structs have their natural alignment.\<close>

definition load_boot_sector :: "memory \<Rightarrow> nat \<Rightarrow> boot_sector" where
  "load_boot_sector m a = \<lparr>
     bs_jump_instruction = load_bytes m a 3,
     bs_oem_name = load_bytes m (a + 3) 8,
     bs_bytes_per_sector = load_u16 m (a + 11),
     bs_sectors_per_cluster = load_u8 m (a + 13),
     bs_sectors_before_fat = load_u16 m (a + 14),
     bs_fat_count = load_u8 m (a + 16),
     bs_dir_entries = load_u16 m (a + 17),
     bs_sector_count = load_u16 m (a + 19),
     bs_media_descriptor = load_u8 m (a + 21),
     bs_unused2 = load_u16 m (a + 22),
     bs_sectors_per_disk_track = load_u16 m (a + 24),
     bs_disk_heads = load_u16 m (a + 26),
     bs_hidden_sectors_before_partition = load_u32 m (a + 28),
     bs_total_sectors2 = load_u32 m (a + 32),
     bs_sectors_per_fat = load_u32 m (a + 36),
     bs_drive_description_flags = load_u16 m (a + 40),
     bs_version = load_u16 m (a + 42),
     bs_root_cluster_no = load_u32 m (a + 44),
     bs_fs_info_sector_no = load_u16 m (a + 48),
     bs_backup_boot_sector_no = load_u16 m (a + 50),
     bs_reserved = load_bytes m (a + 52) 12,
     bs_physical_drive_no = load_u8 m (a + 64),
     bs_reserved2 = load_u8 m (a + 65),
     bs_ext_boot_signature = load_u8 m (a + 66),
     bs_volume_id = load_u32 m (a + 67),
     bs_volume_label = load_bytes m (a + 71) 11,
     bs_fs_type = load_u64 m (a + 82) \<rparr>"

definition load_fat_dentry :: "memory \<Rightarrow> nat \<Rightarrow> fat_dentry" where
  "load_fat_dentry m a = \<lparr>
     fd_short_name = load_bytes m a 8,
     fd_short_extension = load_bytes m (a + 8) 3,
     fd_attrs = load_u8 m (a + 11),
     fd_short_name_case = load_u8 m (a + 12),
     fd_create_time_10_ms = load_u8 m (a + 13),
     fd_create_time = load_u16 m (a + 14),
     fd_create_date = load_u16 m (a + 16),
     fd_access_date = load_u16 m (a + 18),
     fd_first_cluster_high = load_u16 m (a + 20),
     fd_mod_time = load_u16 m (a + 22),
     fd_mod_date = load_u16 m (a + 24),
     fd_first_cluster_low = load_u16 m (a + 26),
     fd_file_size = load_u32 m (a + 28) \<rparr>"

definition load_fat_extent :: "memory \<Rightarrow> nat \<Rightarrow> fat_extent" where
  "load_fat_extent m a = \<lparr>
     fe_logical_start = load_u32 m a,
     fe_length = load_u16 m (a + 4),
     fe_physical_start = load_u32 m (a + 8) \<rparr>"

text \<open>The two padding bytes of \<open>fat_extent\<close> are left as they are.\<close>

definition store_fat_extent :: "memory \<Rightarrow> nat \<Rightarrow> fat_extent \<Rightarrow> memory" where
  "store_fat_extent m a e =
     store_u32 (store_u16 (store_u32 m a (fe_logical_start e)) (a + 4) (fe_length e))
       (a + 8) (fe_physical_start e)"

interpretation fat_extent_codec: codec 12 load_fat_extent store_fat_extent
proof
  show "load_fat_extent (store_fat_extent m a v) a = v" for m a v
    by (simp add: load_fat_extent_def store_fat_extent_def codec_simps)
  show "x \<notin> {a..<a + 12} \<Longrightarrow> store_fat_extent m a v x = m x" for m a v x
    by (auto simp: store_fat_extent_def u32.store_frame u16.store_frame)
  show "(\<And>x. x \<in> {a..<a + 12} \<Longrightarrow> m x = m' x) \<Longrightarrow> load_fat_extent m a = load_fat_extent m' a" for m a m'
    unfolding load_fat_extent_def
    using u32.load_cong [of a m m'] u32.load_cong [of "a + 8" m m'] u16.load_cong [of "a + 4" m m']
    by simp
qed

lemmas fat_extent_loads [codec_simps] = fat_extent_codec.load_store
lemmas fat_extent_frame [frame] = fat_extent_codec.store_frame

subsection \<open>Clusters, blocks and the file allocation table\<close>

definition read_boot_sector :: "memory \<Rightarrow> nat \<Rightarrow> fat_globals \<Rightarrow> fat_globals" where
  "read_boot_sector m fs g = g\<lparr>boot_sector := load_boot_sector m fs\<rparr>"

text \<open>
  The arithmetic follows C: \<open>uint8_t\<close> and \<open>uint16_t\<close> operands are promoted to \<open>int\<close>
  (whose overflow is undefined), an \<open>int\<close> meeting a \<open>uint32_t\<close> becomes \<open>uint32_t\<close>
  (which wraps), and dividing by a zero \<open>sectors_per_cluster\<close> is undefined.
\<close>

definition set_meta_info :: "nat \<Rightarrow> fat_globals \<Rightarrow> fat_globals result" where
  "set_meta_info fs g =
     (let bs = boot_sector g;
          fat_offset = unat (bs_sectors_before_fat bs) * unat (bs_bytes_per_sector bs);
          spc = (ucast (bs_sectors_per_cluster bs) :: u32);
          cluster_size = spc * ucast (bs_bytes_per_sector bs);
          sectors_before_data = ucast (bs_sectors_before_fat bs)
            + bs_sectors_per_fat bs * ucast (bs_fat_count bs)
      in if 2 ^ 31 \<le> fat_offset \<or> spc = 0 then Inl Undefined_Value
         else if sectors_before_data mod spc \<noteq> 0 then Inl Clusters_Not_Aligned
         else Inr (g\<lparr>meta_info := \<lparr>
           mi_fs_start = fs,
           mi_fat_start = fs + fat_offset,
           mi_fat_entries = ucast (bs_sectors_per_fat bs div spc),
           mi_cluster_size = cluster_size,
           mi_dentries_per_cluster = cluster_size div word_of_nat sizeof_fat_dentry,
           mi_sectors_before_data = sectors_before_data,
           mi_data_start = fs + unat (sectors_before_data * ucast (bs_bytes_per_sector bs))\<rparr>\<rparr>))"

text \<open>The first data block, as both conversions below compute it.\<close>

definition first_data_block :: "fat_globals \<Rightarrow> u32" where
  "first_data_block g =
     mi_sectors_before_data (meta_info g) div ucast (bs_sectors_per_cluster (boot_sector g))"

definition fat_cl_to_e4blk :: "fat_globals \<Rightarrow> u32 \<Rightarrow> u64" where
  "fat_cl_to_e4blk g cluster_no = ucast ((cluster_no - FAT_START_INDEX) + first_data_block g)"

text \<open>The difference is taken in 64 bits and read as a signed value.\<close>

definition e4blk_to_fat_cl :: "fat_globals \<Rightarrow> u64 \<Rightarrow> u32" where
  "e4blk_to_fat_cl g block_no =
     (let cluster_no = block_no + ucast FAT_START_INDEX - ucast (first_data_block g)
      in if sint cluster_no < sint (ucast FAT_START_INDEX :: u64) then 0 else ucast cluster_no)"

definition fat_entry :: "fat_globals \<Rightarrow> u32 \<Rightarrow> nat" where
  "fat_entry g cluster_no = mi_fat_start (meta_info g) + 4 * unat cluster_no"

definition cluster_start :: "fat_globals \<Rightarrow> u32 \<Rightarrow> nat" where
  "cluster_start g cluster_no =
     mi_data_start (meta_info g)
       + unat (ucast (cluster_no - FAT_START_INDEX) * ucast (mi_cluster_size (meta_info g)) :: u64)"

definition is_free_cluster :: "u32 \<Rightarrow> bool" where
  "is_free_cluster cluster_entry \<longleftrightarrow> cluster_entry AND CLUSTER_ENTRY_MASK = FREE_CLUSTER"

definition sector_count :: "fat_globals \<Rightarrow> u32" where
  "sector_count g = (if bs_sector_count (boot_sector g) = 0 then bs_total_sectors2 (boot_sector g)
                     else ucast (bs_sector_count (boot_sector g)))"

definition data_cluster_count :: "fat_globals \<Rightarrow> u32" where
  "data_cluster_count g =
     (sector_count g - mi_sectors_before_data (meta_info g))
       div ucast (bs_sectors_per_cluster (boot_sector g)) + FAT_START_INDEX"

subsection \<open>Directory entries\<close>

text \<open>A directory entry is given by a pointer to its 32 bytes.\<close>

definition file_cluster_no :: "memory \<Rightarrow> nat \<Rightarrow> u32" where
  "file_cluster_no m p =
     (let low = fd_first_cluster_low (load_fat_dentry m p);
          high = push_bit 16 (ucast (fd_first_cluster_high (load_fat_dentry m p))) :: u32
      in high OR ucast low)"

definition is_dir :: "memory \<Rightarrow> nat \<Rightarrow> bool" where
  "is_dir m p \<longleftrightarrow> fd_attrs (load_fat_dentry m p) AND 0x10 \<noteq> 0"

definition is_lfn :: "memory \<Rightarrow> nat \<Rightarrow> bool" where
  "is_lfn m p \<longleftrightarrow> fd_attrs (load_fat_dentry m p) AND 0x0F \<noteq> 0"

definition is_invalid :: "memory \<Rightarrow> nat \<Rightarrow> bool" where
  "is_invalid m p \<longleftrightarrow> m p = 0xE5"

definition is_dir_table_end :: "memory \<Rightarrow> nat \<Rightarrow> bool" where
  "is_dir_table_end m p \<longleftrightarrow> p = 0 \<or> m p = 0x00"

definition is_dot_dir :: "memory \<Rightarrow> nat \<Rightarrow> bool" where
  "is_dot_dir m p \<longleftrightarrow> m p = 0x2E"

definition is_last_lfn_entry :: "memory \<Rightarrow> nat \<Rightarrow> bool" where
  "is_last_lfn_entry m p \<longleftrightarrow> m p AND 0x40 \<noteq> 0"

definition has_lower_name :: "memory \<Rightarrow> nat \<Rightarrow> bool" where
  "has_lower_name m p \<longleftrightarrow> fd_short_name_case (load_fat_dentry m p) AND 0x8 \<noteq> 0"

definition has_lower_extension :: "memory \<Rightarrow> nat \<Rightarrow> bool" where
  "has_lower_extension m p \<longleftrightarrow> fd_short_name_case (load_fat_dentry m p) AND 0x10 \<noteq> 0"

definition has_extension :: "memory \<Rightarrow> nat \<Rightarrow> bool" where
  "has_extension m p \<longleftrightarrow> m (p + 8) \<noteq> 0x20"

definition lfn_entry_sequence_no :: "memory \<Rightarrow> nat \<Rightarrow> u8" where
  "lfn_entry_sequence_no m p = m p AND 0x1F"

text \<open>
  \<open>fat_time_to_unix\<close> fills a \<open>struct tm\<close> and hands it to the C library's \<open>mktime\<close>, whose
  result depends on the time zone of the machine: \<open>mktime\<close> is a parameter.
\<close>

record tm =
  tm_year :: int
  tm_mon :: int
  tm_mday :: int
  tm_hour :: int
  tm_min :: int
  tm_sec :: int

definition fat_time_fields :: "u16 \<Rightarrow> u16 \<Rightarrow> tm" where
  "fat_time_fields date time = \<lparr>
     tm_year = uint (drop_bit 9 (date AND 0xFE00)) + 80,
     tm_mon = uint (drop_bit 5 (date AND 0x1E0)) - 1,
     tm_mday = uint (date AND 0x1F),
     tm_hour = uint (drop_bit 11 (time AND 0xF800)),
     tm_min = uint (drop_bit 5 (time AND 0x7E0)),
     tm_sec = uint (time AND 0x1F) * 2 \<rparr>"

definition fat_time_to_unix :: "(tm \<Rightarrow> int) \<Rightarrow> u16 \<Rightarrow> u16 \<Rightarrow> u32" where
  "fat_time_to_unix mktime date time = word_of_int (mktime (fat_time_fields date time))"

subsection \<open>Names\<close>

definition lfn_cpy :: "memory \<Rightarrow> nat \<Rightarrow> nat \<Rightarrow> memory" where
  "lfn_cpy m dest src =
     (let m1 = mem_copy m dest (src + 1) (5 * 2);
          m2 = mem_copy m1 (dest + 5 * 2) (src + 14) (6 * 2)
      in mem_copy m2 (dest + 11 * 2) (src + 28) (2 * 2))"

text \<open>\<open>tolower\<close> in the C locale.\<close>

definition tolower :: "u8 \<Rightarrow> u8" where
  "tolower c = (if 0x41 \<le> c \<and> c \<le> 0x5A then c + 0x20 else c)"

text \<open>The loop of \<open>read_short_name\<close> over the characters of the name or the extension.\<close>

function copy_name_chars ::
  "bool \<Rightarrow> memory \<Rightarrow> nat \<Rightarrow> nat \<Rightarrow> nat \<Rightarrow> nat \<Rightarrow> memory \<times> nat" where
  "copy_name_chars lower m n i limit name =
     (if i < limit \<and> m (n + i) \<noteq> 0x20
      then copy_name_chars lower
             (store_u16 m name (ucast (if lower then tolower (m (n + i)) else m (n + i))))
             n (i + 1) limit (name + 2)
      else (m, name))"
  by pat_completeness auto
termination
  by (relation "measure (\<lambda>(lower, m, n, i, limit, name). limit - i)") auto

declare copy_name_chars.simps [simp del]

definition read_short_name :: "memory \<Rightarrow> nat \<Rightarrow> nat \<Rightarrow> memory" where
  "read_short_name m p name =
     (let lower_name = has_lower_name m p;
          lower_extension = has_lower_extension m p;
          (m1, name1) = copy_name_chars lower_name m p 0 8 name;
          (m2, name2) =
            (if has_extension m1 p
             then copy_name_chars lower_extension (store_u16 m1 name1 0x2E) (p + 8) 0 3 (name1 + 2)
             else (m1, name1))
      in store_u16 m2 name2 0)"

text \<open>
  The search for the last character of the volume label that is not a space. It has no
  lower bound: on a label of spaces it reads in front of the array.
\<close>

fun label_end :: "u8 list \<Rightarrow> nat \<Rightarrow> nat result" where
  "label_end label i =
     (if length label \<le> i then Inl Out_Of_Bounds
      else if label ! i = 0x20
      then (case i of 0 \<Rightarrow> Inl Out_Of_Bounds | Suc j \<Rightarrow> label_end label j)
      else Inr i)"

declare label_end.simps [simp del]

text \<open>The bytes that \<open>read_volume_label\<close> writes to its output, from the first one on.\<close>

definition read_volume_label :: "fat_globals \<Rightarrow> u8 list result" where
  "read_volume_label g =
     (if bs_ext_boot_signature (boot_sector g) = 0x28 then Inr [0]
      else bind_res (label_end (bs_volume_label (boot_sector g)) 10)
             (\<lambda>i. Inr (take (i + 1) (bs_volume_label (boot_sector g)) @ [0])))"

subsection \<open>Cluster and block numbers\<close>

lemma sint_word_of_int_small:
  fixes k :: int
  assumes "- (2 ^ 63) \<le> k" "k < 2 ^ 63"
  shows "sint (word_of_int k :: u64) = k"
  using assms by (simp add: int_word_sint)

lemma e4blk_to_fat_cl_int:
  assumes "unat b < 2 ^ 62"
  shows "e4blk_to_fat_cl g b =
    (if unat b < unat (first_data_block g) then 0
     else word_of_nat (unat b + 2 - unat (first_data_block g)))"
proof -
  let ?k = "first_data_block g"
  let ?x = "b + ucast FAT_START_INDEX - ucast ?k"
  have x: "?x = word_of_int (int (unat b) + 2 - int (unat ?k))"
    by (simp add: FAT_START_INDEX_def)
  have s: "sint ?x = int (unat b) + 2 - int (unat ?k)"
  proof -
    have "unat b < 4611686018427387904" using assms by simp
    then have "- 9223372036854775808 \<le> int (unat b) + 2 - int (unat ?k)"
      and "int (unat b) + 2 - int (unat ?k) < 9223372036854775808"
      using unat_u32_bound [of ?k] by linarith+
    then have "- (2 ^ 63) \<le> int (unat b) + 2 - int (unat ?k)"
      "int (unat b) + 2 - int (unat ?k) < 2 ^ 63" by simp_all
    then show ?thesis unfolding x by (rule sint_word_of_int_small)
  qed
  have two: "sint (ucast FAT_START_INDEX :: u64) = 2"
    by (simp add: FAT_START_INDEX_def)
  have "e4blk_to_fat_cl g b = (if int (unat b) + 2 - int (unat ?k) < 2 then 0 else ucast ?x)"
    by (simp only: e4blk_to_fat_cl_def Let_def s two)
  moreover have "int (unat b) + 2 - int (unat ?k) < 2 \<longleftrightarrow> unat b < unat ?k" by linarith
  moreover have "(ucast ?x :: u32) = word_of_nat (unat b + 2 - unat ?k)" if "\<not> unat b < unat ?k"
  proof -
    have "(ucast ?x :: u32) = word_of_int (int (unat b) + 2 - int (unat ?k))"
      unfolding x by (rule ucast_down_wi) (simp add: is_down)
    also have "int (unat b) + 2 - int (unat ?k) = int (unat b + 2 - unat ?k)"
      using that by linarith
    finally show ?thesis by (simp only: of_int_of_nat_eq)
  qed
  ultimately show ?thesis by presburger
qed

lemma unat_fat_cl_to_e4blk:
  assumes "2 \<le> unat c" "unat c - 2 + unat (first_data_block g) < 2 ^ 32"
  shows "unat (fat_cl_to_e4blk g c) = unat c - 2 + unat (first_data_block g)"
proof -
  have "unat (c - FAT_START_INDEX) = unat c - 2"
    using assms(1) by (simp add: FAT_START_INDEX_def unat_sub_no_underflow)
  with assms(2) show ?thesis
    by (simp add: fat_cl_to_e4blk_def unat_add_no_overflow)
qed

subsection \<open>Time stamps\<close>

lemma drop_bit_u16_and_mask:
  "n + k = 16 \<Longrightarrow> drop_bit n (w :: u16) AND mask k = drop_bit n w"
  by (rule bit_word_eqI) (auto simp: bit_simps dest: bit_imp_le_length)

lemma fat_time_bits:
  "drop_bit 9 ((w :: u16) AND 0xFE00) = drop_bit 9 w"
  "drop_bit 11 (w AND 0xF800) = drop_bit 11 w"
  "drop_bit 5 (w AND 0x1E0) = take_bit 4 (drop_bit 5 w)"
  "drop_bit 5 (w AND 0x7E0) = take_bit 6 (drop_bit 5 w)"
  "w AND 0x1F = take_bit 5 w"
  using drop_bit_u16_and_mask [of 9 7 w] drop_bit_u16_and_mask [of 11 5 w]
  by (simp_all add: drop_bit_and take_bit_eq_mask mask_eq_exp_minus_1)

lemma uint_drop_bit_u16:
  "uint (drop_bit 9 (w :: u16)) = uint w div 512" "uint (drop_bit 11 w) = uint w div 2048"
  "uint (drop_bit 5 w) = uint w div 32"
  by (simp_all add: drop_bit_eq_div uint_div_distrib)

lemma uint_take_bit_u16: "k \<le> 16 \<Longrightarrow> uint (take_bit k (w :: u16)) = uint w mod 2 ^ k"
  by (simp add: unsigned_take_bit_eq) (simp add: take_bit_eq_mod)

lemma fat_time_fields_int:
  "fat_time_fields date time = \<lparr>
     tm_year = uint date div 512 + 80, tm_mon = uint date div 32 mod 16 - 1,
     tm_mday = uint date mod 32, tm_hour = uint time div 2048,
     tm_min = uint time div 32 mod 64, tm_sec = uint time mod 32 * 2 \<rparr>"
  unfolding fat_time_fields_def fat_time_bits
  by (simp only: uint_drop_bit_u16 uint_take_bit_u16) simp

lemma uint_word_of_int_u16: "0 \<le> k \<Longrightarrow> k < 65536 \<Longrightarrow> uint (word_of_int k :: u16) = k"
  by (simp only: uint_word_of_int) simp

text \<open>Three fields packed at the positions of a FAT date or time.\<close>

lemma packed_fields:
  fixes a b c p q :: int
  assumes "0 \<le> b" "b < p" "0 \<le> c" "c < q"
  shows "(a * (p * q) + b * q + c) div (p * q) = a"
    and "(a * (p * q) + b * q + c) div q mod p = b"
    and "(a * (p * q) + b * q + c) mod q = c"
proof -
  have lt: "b * q + c < p * q"
  proof -
    have "b * q + c < (b + 1) * q" using assms by (simp add: algebra_simps)
    also have "\<dots> \<le> p * q" using assms by (intro mult_right_mono) auto
    finally show ?thesis .
  qed
  have "0 \<le> b * q + c" using assms by auto
  then show "(a * (p * q) + b * q + c) div (p * q) = a"
    by (intro int_div_pos_eq [where r = "b * q + c"]) (use lt in \<open>auto simp: algebra_simps\<close>)
  have "(a * (p * q) + b * q + c) div q = a * p + b"
    by (rule int_div_pos_eq [where r = c]) (use assms in \<open>auto simp: algebra_simps\<close>)
  moreover have "(a * p + b) mod p = b"
    by (rule int_mod_pos_eq [where q = a]) (use assms in \<open>auto simp: algebra_simps\<close>)
  ultimately show "(a * (p * q) + b * q + c) div q mod p = b" by simp
  show "(a * (p * q) + b * q + c) mod q = c"
    by (rule int_mod_pos_eq [where q = "a * p + b"]) (use assms in \<open>auto simp: algebra_simps\<close>)
qed

text \<open>
  \<open>fat_time_to_unix\<close> hands \<open>mktime\<close> exactly the calendar date and time that a FAT time
  stamp encodes: for every year from 1980 to 2107, month, day, hour, minute and even
  second, the decoded fields are those packed into the two 16-bit values.
\<close>

theorem fat_time_to_unix_decodes:
  assumes "0 \<le> y" "y \<le> 127" "1 \<le> mo" "mo \<le> 12" "1 \<le> d" "d \<le> 31"
    and "0 \<le> h" "h \<le> 23" "0 \<le> mi" "mi \<le> 59" "0 \<le> s" "s \<le> 29"
  shows "fat_time_to_unix mktime (word_of_int (y * 512 + mo * 32 + d))
           (word_of_int (h * 2048 + mi * 32 + s))
         = word_of_int (mktime \<lparr>tm_year = 1980 + y - 1900, tm_mon = mo - 1, tm_mday = d,
                                tm_hour = h, tm_min = mi, tm_sec = 2 * s\<rparr>)"
proof -
  have u: "uint (word_of_int (y * 512 + mo * 32 + d) :: u16) = y * 512 + mo * 32 + d"
    by (rule uint_word_of_int_u16) (use assms(1-6) in linarith)+
  have v: "uint (word_of_int (h * 2048 + mi * 32 + s) :: u16) = h * 2048 + mi * 32 + s"
    by (rule uint_word_of_int_u16) (use assms(7-12) in linarith)+
  have date: "(y * 512 + mo * 32 + d) div 512 = y" "(y * 512 + mo * 32 + d) div 32 mod 16 = mo"
    "(y * 512 + mo * 32 + d) mod 32 = d"
    using packed_fields [of mo 16 d 32 y] assms(3-6) by simp_all
  have time: "(h * 2048 + mi * 32 + s) div 2048 = h" "(h * 2048 + mi * 32 + s) div 32 mod 64 = mi"
    "(h * 2048 + mi * 32 + s) mod 32 = s"
    using packed_fields [of mi 64 s 32 h] assms(9-12) by simp_all
  show ?thesis
    unfolding fat_time_to_unix_def fat_time_fields_int u v date time
    by (simp add: mult.commute [of 2] add.commute [of 80])
qed

theorem fat_time_to_unix_decodes_witness:
  "fat_time_to_unix (\<lambda>t. tm_year t) 0x4E21 0x6000 = 119"
  using fat_time_to_unix_decodes [of 39 1 1 12 0 0 "\<lambda>t. tm_year t"] by simp

subsection \<open>The volume label\<close>

text \<open>A label without its trailing spaces.\<close>

definition trim_label :: "u8 list \<Rightarrow> u8 list" where
  "trim_label label = rev (dropWhile (\<lambda>c. c = 0x20) (rev label))"

lemma label_end_trim:
  "i < length label \<Longrightarrow>
   bind_res (label_end label i) (\<lambda>k. Inr (take (k + 1) label @ [0]))
     = (if trim_label (take (i + 1) label) = [] then Inl Out_Of_Bounds
        else Inr (trim_label (take (i + 1) label) @ [0]))"
proof (induction i)
  case 0
  then show ?case
    by (cases label) (auto simp: label_end.simps [of _ 0] trim_label_def)
next
  case (Suc i)
  have "take (Suc i + 1) label = take (i + 1) label @ [label ! Suc i]"
    using Suc.prems by (simp add: take_Suc_conv_app_nth)
  then show ?case
    using Suc by (auto simp: label_end.simps [of label "Suc i"] trim_label_def)
qed

text \<open>
  C38. \<open>read_volume_label\<close> returns the label without its trailing spaces and terminated by a
  zero byte, unless the extended boot signature 0x28 announces that there is no label;
  on a label of eleven spaces it reads in front of the label array instead of returning
  the empty string.
\<close>

theorem read_volume_label_trims:
  assumes "length (bs_volume_label (boot_sector g)) = 11"
  shows "read_volume_label g =
    (if bs_ext_boot_signature (boot_sector g) = 0x28 then Inr [0]
     else if bs_volume_label (boot_sector g) = replicate 11 0x20 then Inl Out_Of_Bounds
     else Inr (trim_label (bs_volume_label (boot_sector g)) @ [0]))"
proof -
  let ?l = "bs_volume_label (boot_sector g)"
  have "trim_label ?l = [] \<longleftrightarrow> (\<forall>x \<in> set ?l. x = 0x20)"
    by (simp add: trim_label_def dropWhile_eq_Nil_conv)
  also have "\<dots> \<longleftrightarrow> ?l = replicate 11 0x20"
    using replicate_length_same [where xs = ?l and x = "0x20"] unfolding assms
    by (metis in_set_replicate)
  finally have "trim_label ?l = [] \<longleftrightarrow> ?l = replicate 11 0x20" .
  moreover have "take (10 + 1) ?l = ?l" "10 < length ?l" using assms by simp_all
  ultimately show ?thesis
    using label_end_trim [of 10 ?l] by (simp only: read_volume_label_def)
qed

subsection \<open>Names\<close>

definition short_name_field :: "bool \<Rightarrow> u8 list \<Rightarrow> u16 list" where
  "short_name_field lower cs =
     map (\<lambda>c. ucast (if lower then tolower c else c)) (takeWhile (\<lambda>c. c \<noteq> 0x20) cs)"

text \<open>The name an 8.3 directory entry stands for, as the sources compute it.\<close>

definition short_name_spec :: "memory \<Rightarrow> nat \<Rightarrow> u16 list" where
  "short_name_spec m p =
     short_name_field (has_lower_name m p) (fd_short_name (load_fat_dentry m p))
     @ (if has_extension m p
        then 0x2E # short_name_field (has_lower_extension m p) (fd_short_extension (load_fat_dentry m p))
        else [])"

lemma copy_name_chars_spec:
  assumes "i \<le> limit" and "{n..<n + limit} \<inter> {name..<name + 2 * (limit - i)} = {}"
  shows "copy_name_chars lower m n i limit name =
    (let ws = short_name_field lower (map m [n + i..<n + limit])
     in (store_array store_u16 2 m name ws, name + 2 * length ws))"
  using assms
proof (induction "limit - i" arbitrary: m i name)
  case 0
  then show ?case by (simp add: copy_name_chars.simps [of lower m] short_name_field_def)
next
  case (Suc k)
  have up: "[n + i..<n + limit] = (n + i) # [n + Suc i..<n + limit]"
    using Suc.hyps(2) by (simp add: upt_conv_Cons)
  show ?case
  proof (cases "m (n + i) = 0x20")
    case True
    then show ?thesis
      by (simp add: copy_name_chars.simps [of lower m] short_name_field_def up)
  next
    case False
    let ?w = "ucast (if lower then tolower (m (n + i)) else m (n + i)) :: u16"
    let ?m = "store_u16 m name ?w"
    have sub: "{name..<name + 2} \<subseteq> {name..<name + 2 * (limit - i)}"
      "{name + 2..<name + 2 + 2 * (limit - Suc i)} \<subseteq> {name..<name + 2 * (limit - i)}"
      using Suc.hyps(2) by auto
    have "x \<notin> {name..<name + 2}" if "x \<in> {n..<n + limit}" for x
      using that Suc.prems(2) sub(1) by blast
    then have same: "map ?m [n + Suc i..<n + limit] = map m [n + Suc i..<n + limit]"
      by (intro map_cong refl u16.store_frame) simp
    have IH: "copy_name_chars lower ?m n (Suc i) limit (name + 2) =
      (let ws = short_name_field lower (map ?m [n + Suc i..<n + limit])
       in (store_array store_u16 2 ?m (name + 2) ws, name + 2 + 2 * length ws))"
      using Suc.hyps(2) Suc.prems(2) sub(2) by (intro Suc.hyps(1)) auto
    have "copy_name_chars lower m n i limit name = copy_name_chars lower ?m n (Suc i) limit (name + 2)"
    proof -
      have "i < limit" using Suc.hyps(2) by simp
      with False show ?thesis by (simp add: copy_name_chars.simps [of lower m])
    qed
    moreover have "short_name_field lower (map m [n + i..<n + limit])
        = ?w # short_name_field lower (map m [n + Suc i..<n + limit])"
      using False by (simp add: up short_name_field_def)
    ultimately show ?thesis using IH unfolding same by (simp add: Let_def)
  qed
qed

lemma short_name_field_cong:
  "(\<And>x. x \<in> {a..<a + k} \<Longrightarrow> m x = m' x) \<Longrightarrow>
     short_name_field lower (map m [a..<a + k]) = short_name_field lower (map m' [a..<a + k])"
  by (rule arg_cong [where f = "short_name_field lower"]) simp

lemma length_short_name_field: "length (short_name_field lower cs) \<le> length cs"
  by (simp add: short_name_field_def length_takeWhile_le)

lemma read_short_name_spec:
  assumes "{p..<p + 32} \<inter> {name..<name + 26} = {}"
  shows "read_short_name m p name = store_array store_u16 2 m name (short_name_spec m p @ [0])
    \<and> length (short_name_spec m p @ [0]) \<le> LFN_ENTRY_LENGTH
    \<and> (\<forall>x. x \<notin> {name..<name + 26} \<longrightarrow> read_short_name m p name x = m x)"
proof -
  let ?low = "has_lower_name m p" and ?lowx = "has_lower_extension m p"
  define ws where "ws = short_name_field ?low (map m [p..<p + 8])"
  define xs where "xs = short_name_field ?lowx (map m [p + 8..<p + 8 + 3])"
  have ws8: "length ws \<le> 8" and xs3: "length xs \<le> 3"
    using length_short_name_field [of ?low "map m [p..<p + 8]"]
      length_short_name_field [of ?lowx "map m [p + 8..<p + 8 + 3]"]
    by (simp_all add: ws_def xs_def)
  let ?m1 = "store_array store_u16 2 m name ws"
  have c1: "copy_name_chars ?low m p 0 8 name = (?m1, name + 2 * length ws)"
    using assms by (subst copy_name_chars_spec) (auto simp: ws_def Let_def)
  have m1: "?m1 x = m x" if "x \<in> {p..<p + 32}" for x
    by (rule u16.store_array_frame) (use that assms ws8 in auto)
  have ext: "has_extension ?m1 p = has_extension m p"
    by (simp add: has_extension_def m1)
  have spec: "short_name_spec m p = ws @ (if has_extension m p then 0x2E # xs else [])"
    by (simp add: short_name_spec_def ws_def xs_def load_fat_dentry_def load_bytes_def)
  have eq: "read_short_name m p name = store_array store_u16 2 m name (short_name_spec m p @ [0])"
  proof (cases "has_extension m p")
    case False
    then show ?thesis
      by (simp add: read_short_name_def c1 ext spec store_array_append)
  next
    case True
    let ?m2 = "store_u16 ?m1 (name + 2 * length ws) 0x2E"
    have m2: "?m2 x = m x" if "x \<in> {p..<p + 32}" for x
      using that m1 [OF that] assms ws8 by (subst u16.store_frame) auto
    have "short_name_field ?lowx (map ?m2 [p + 8..<p + 8 + 3]) = xs"
      unfolding xs_def by (rule short_name_field_cong) (rule m2, auto)
    moreover have "{p + 8..<p + 8 + 3} \<inter> {name + 2 * length ws + 2..<name + 2 * length ws + 2 + 2 * (3 - 0)} = {}"
      using assms ws8 by auto
    ultimately have c2: "copy_name_chars ?lowx ?m2 (p + 8) 0 3 (name + 2 * length ws + 2)
        = (store_array store_u16 2 ?m2 (name + 2 * length ws + 2) xs,
           name + 2 * length ws + 2 + 2 * length xs)"
      using copy_name_chars_spec [of 0 3 "p + 8" "name + 2 * length ws + 2" ?lowx ?m2] by (simp add: Let_def)
    show ?thesis
      using True c2 by (simp add: read_short_name_def c1 ext spec store_array_append algebra_simps)
  qed
  have len: "length (short_name_spec m p @ [0]) \<le> LFN_ENTRY_LENGTH"
    using ws8 xs3 by (simp add: spec LFN_ENTRY_LENGTH_def)
  have "read_short_name m p name x = m x" if "x \<notin> {name..<name + 26}" for x
    unfolding eq by (rule u16.store_array_frame) (use that len in \<open>auto simp: LFN_ENTRY_LENGTH_def\<close>)
  with eq len show ?thesis by blast
qed

text \<open>
  C36. For an 8.3 directory entry and a destination that do not overlap,
  \<open>read_short_name\<close> writes exactly the name, lowered as the case bits say, a dot and the
  extension when there is one, and a terminating zero; together at most the 13 code units
  that one name segment holds, and no other byte of memory changes.
\<close>

theorem read_short_name_correct:
  assumes "{p..<p + 32} \<inter> {name..<name + 26} = {}"
  shows "read_short_name m p name = store_array store_u16 2 m name (short_name_spec m p @ [0])
    \<and> length (short_name_spec m p @ [0]) \<le> LFN_ENTRY_LENGTH
    \<and> (\<forall>x. x \<notin> {name..<name + 26} \<longrightarrow> read_short_name m p name x = m x)"
  using assms by (rule read_short_name_spec)

text \<open>The thirteen code units of a long-name entry.\<close>

definition lfn_units :: "memory \<Rightarrow> nat \<Rightarrow> u16 list" where
  "lfn_units m src =
     map (\<lambda>k. load_u16 m (src + k)) [1, 3, 5, 7, 9, 14, 16, 18, 20, 22, 24, 28, 30]"

lemma lfn_cpy_bytes:
  assumes "{src..<src + 32} \<inter> {dest..<dest + 26} = {}" and "i < 26"
  shows "lfn_cpy m dest src (dest + i) =
    m (src + (if i < 10 then 1 + i else if i < 22 then 4 + i else 6 + i))"
  using assms
  by (auto simp: lfn_cpy_def Let_def mem_copy_def disjoint_iff add_ac)

text \<open>
  \<open>lfn_cpy\<close> gathers the three runs of code units of a long-name directory entry, in
  order, into one segment of 13 code units, and changes no other byte.
\<close>

theorem lfn_cpy_correct:
  assumes "{src..<src + 32} \<inter> {dest..<dest + 26} = {}"
  shows "load_array load_u16 2 (lfn_cpy m dest src) dest LFN_ENTRY_LENGTH = lfn_units m src
    \<and> (\<forall>x. x \<notin> {dest..<dest + 26} \<longrightarrow> lfn_cpy m dest src x = m x)"
proof -
  have "load_u16 (lfn_cpy m dest src) (dest + i) =
      load_u16 m (src + (if i < 10 then 1 + i else if i < 22 then 4 + i else 6 + i))"
    if "i < 26" "even i" for i
  proof (rule load_u16_eq)
    have "i \<noteq> 9" "i \<noteq> 21" "i \<noteq> 25" using that by auto
    then show "lfn_cpy m dest src (Suc (dest + i)) =
        m (Suc (src + (if i < 10 then 1 + i else if i < 22 then 4 + i else 6 + i)))"
      using lfn_cpy_bytes [OF assms, of "Suc i" m] that by (auto simp: add_ac)
  qed (use lfn_cpy_bytes [OF assms, of i m] that in simp)
  note unit = this
  let ?off = "\<lambda>i. if 2 * i < 10 then 1 + 2 * i else if 2 * i < 22 then 4 + 2 * i else 6 + 2 * i"
  have off: "map ?off [0..<13] = [1, 3, 5, 7, 9, 14, 16, 18, 20, 22, 24, 28, 30 :: nat]"
    by (simp add: upt_rec)
  have "load_array load_u16 2 (lfn_cpy m dest src) dest LFN_ENTRY_LENGTH
      = map (\<lambda>i. load_u16 (lfn_cpy m dest src) (dest + 2 * i)) [0..<13]"
    by (simp only: load_array_map LFN_ENTRY_LENGTH_def)
  also have "\<dots> = map (\<lambda>i. load_u16 m (src + ?off i)) [0..<13]"
  proof (rule map_cong [OF refl])
    fix i assume "i \<in> set [0..<13 :: nat]"
    then have "2 * i < 26" "even (2 * i)" by auto
    then show "load_u16 (lfn_cpy m dest src) (dest + 2 * i) = load_u16 m (src + ?off i)"
      by (rule unit)
  qed
  also have "\<dots> = map (\<lambda>k. load_u16 m (src + k)) (map ?off [0..<13])"
    unfolding map_map o_def by (rule refl)
  also have "\<dots> = lfn_units m src"
    unfolding off lfn_units_def by (rule refl)
  finally have "load_array load_u16 2 (lfn_cpy m dest src) dest LFN_ENTRY_LENGTH = lfn_units m src" .
  moreover have "lfn_cpy m dest src x = m x" if "x \<notin> {dest..<dest + 26}" for x
  proof -
    have outside: "x \<notin> {dest..<dest + 5 * 2}" "x \<notin> {dest + 5 * 2..<dest + 5 * 2 + 6 * 2}"
      "x \<notin> {dest + 11 * 2..<dest + 11 * 2 + 2 * 2}"
      using that by auto
    show ?thesis
      unfolding lfn_cpy_def Let_def by (simp only: outside [THEN mem_copy_frame])
  qed
  ultimately show ?thesis by blast
qed


subsection \<open>Geometry\<close>

lemma set_meta_info_okD:
  assumes "set_meta_info fs g0 = Inr g"
  defines "bs \<equiv> boot_sector g"
  shows "boot_sector g = boot_sector g0" and "mi_fs_start (meta_info g) = fs"
    and "unat (bs_sectors_per_cluster bs) \<noteq> 0"
    and "unat (mi_cluster_size (meta_info g)) = unat (bs_sectors_per_cluster bs) * unat (bs_bytes_per_sector bs)"
    and "unat (mi_sectors_before_data (meta_info g)) = unat (first_data_block g) * unat (bs_sectors_per_cluster bs)"
    and "mi_data_start (meta_info g) = fs + unat (mi_sectors_before_data (meta_info g) * ucast (bs_bytes_per_sector bs))"
proof -
  let ?spc = "ucast (bs_sectors_per_cluster bs) :: u32"
  let ?sbd = "mi_sectors_before_data (meta_info g)"
  show g: "boot_sector g = boot_sector g0" and "mi_fs_start (meta_info g) = fs"
    using assms(1) by (auto simp: set_meta_info_def Let_def split: if_splits)
  show "mi_data_start (meta_info g) = fs + unat (?sbd * ucast (bs_bytes_per_sector bs))"
    using assms(1) g by (auto simp: bs_def set_meta_info_def Let_def split: if_splits)
  have nz: "?spc \<noteq> 0" and al: "?sbd mod ?spc = 0"
    and cs: "mi_cluster_size (meta_info g) = ?spc * ucast (bs_bytes_per_sector bs)"
    using assms(1) g
    by (auto simp: bs_def set_meta_info_def Let_def split: if_splits del: mod_0_imp_dvd)
  from nz show "unat (bs_sectors_per_cluster bs) \<noteq> 0" by (metis unat_ucast_8_32 unat_0_iff)
  have "unat (bs_sectors_per_cluster bs) * unat (bs_bytes_per_sector bs) \<le> 256 * 65536"
    by (rule mult_le_mono [OF less_imp_le [OF unat_u8_bound] less_imp_le [OF unat_u16_bound]])
  then show "unat (mi_cluster_size (meta_info g)) = unat (bs_sectors_per_cluster bs) * unat (bs_bytes_per_sector bs)"
    by (simp add: cs unat_mult_no_overflow)
  have "unat (?sbd mod ?spc) = 0" unfolding al by (simp only: unat_0)
  then have "unat ?sbd mod unat ?spc = 0" by (simp only: unat_mod)
  then have "unat ?sbd = unat ?sbd div unat ?spc * unat ?spc"
    using div_mult_mod_eq [of "unat ?sbd" "unat ?spc"] by linarith
  then show "unat ?sbd = unat (first_data_block g) * unat (bs_sectors_per_cluster bs)"
    by (simp add: first_data_block_def bs_def unat_div)
qed

text \<open>
  After \<open>set_meta_info\<close> has accepted the geometry, the address of every data cluster is
  the address of the block it is converted to, counted in clusters from the start of the
  partition: converting in place moves no data. (The FAT area is assumed to end below
  4 GiB and the block number to fit 32 bits.)
\<close>

theorem cluster_start_is_block_address:
  assumes "set_meta_info fs g0 = Inr g"
    and "unat (mi_sectors_before_data (meta_info g)) * unat (bs_bytes_per_sector (boot_sector g)) < 2 ^ 32"
    and "2 \<le> unat c" and "unat c - 2 + unat (first_data_block g) < 2 ^ 32"
  shows "cluster_start g c = fs + unat (fat_cl_to_e4blk g c) * unat (mi_cluster_size (meta_info g))"
proof -
  note ok = set_meta_info_okD [OF assms(1)]
  let ?cs = "unat (mi_cluster_size (meta_info g))"
  have ds: "mi_data_start (meta_info g) = fs + unat (first_data_block g) * ?cs"
    using assms(2) by (simp add: ok unat_mult_no_overflow)
  have c: "unat (c - FAT_START_INDEX) = unat c - 2"
    using assms(3) by (simp add: FAT_START_INDEX_def unat_sub_no_underflow)
  have "(unat c - 2) * ?cs \<le> 4294967295 * 4294967295"
    using unat_u32_bound [of c] unat_u32_bound [of "mi_cluster_size (meta_info g)"]
    by (intro mult_le_mono) linarith+
  then have "unat (ucast (c - FAT_START_INDEX) * ucast (mi_cluster_size (meta_info g)) :: u64)
      = (unat c - 2) * ?cs"
    by (subst unat_mult_no_overflow) (simp_all add: c)
  then show ?thesis
    by (simp add: cluster_start_def ds unat_fat_cl_to_e4blk [OF assms(3,4)] algebra_simps)
qed

text \<open>
  \<open>is_lfn\<close> accepts a directory entry as soon as one of its read-only, hidden, system
  and volume-label attribute bits is set, although only all four together mark a
  long-name entry: a read-only file with an 8.3 name only is taken for one.
\<close>

theorem is_lfn_any_attribute:
  "is_lfn m p \<longleftrightarrow> (\<exists>i \<in> {0, 1, 2, 3}. bit (m (p + 11)) i)"
proof -
  have "(w :: u8) AND 0x0F \<noteq> 0 \<longleftrightarrow> (\<exists>i < 4. bit w i)" for w
  proof -
    have and4: "w AND 0x0F = take_bit 4 w" by (simp add: take_bit_eq_mask mask_eq_exp_minus_1)
    have "w AND 0x0F \<noteq> 0 \<longleftrightarrow> (\<exists>n<8. n < 4 \<and> bit w n)"
      unfolding and4 by (auto simp: bit_eq_iff bit_simps)
    also have "\<dots> \<longleftrightarrow> (\<exists>i < 4. bit w i)" by (rule iff_exI) auto
    finally show ?thesis .
  qed
  moreover have "(\<exists>i < 4. P i) \<longleftrightarrow> (\<exists>i \<in> {0, 1, 2, 3}. P i)" for P :: "nat \<Rightarrow> bool"
    by (auto simp: less_Suc_eq numeral_eq_Suc)
  ultimately show ?thesis
    by (simp only: is_lfn_def load_fat_dentry_def fat_dentry.select_convs load_u8_def)
qed

subsection \<open>A concrete geometry\<close>

text \<open>
  The geometry of a partition formatted with \<open>mkfs.fat -F 32 -s 8 -S 512\<close>, mapped at
  address 65536; it instantiates the theorems in the witnesses.
\<close>

definition sample_boot_sector :: boot_sector where
  "sample_boot_sector = \<lparr>
     bs_jump_instruction = [0xEB, 0x58, 0x90], bs_oem_name = replicate 8 0x20,
     bs_bytes_per_sector = 512, bs_sectors_per_cluster = 8, bs_sectors_before_fat = 32,
     bs_fat_count = 2, bs_dir_entries = 0, bs_sector_count = 0, bs_media_descriptor = 0xF8,
     bs_unused2 = 0, bs_sectors_per_disk_track = 32, bs_disk_heads = 64,
     bs_hidden_sectors_before_partition = 0, bs_total_sectors2 = 528448,
     bs_sectors_per_fat = 516, bs_drive_description_flags = 0, bs_version = 0,
     bs_root_cluster_no = 2, bs_fs_info_sector_no = 1, bs_backup_boot_sector_no = 6,
     bs_reserved = replicate 12 0, bs_physical_drive_no = 0x80, bs_reserved2 = 0,
     bs_ext_boot_signature = 0x29, bs_volume_id = 0x12345678,
     bs_volume_label = [0x44, 0x41, 0x54, 0x41, 0x20, 0x20, 0x20, 0x20, 0x20, 0x20, 0x20],
     bs_fs_type = 0 \<rparr>"

definition sample_globals :: fat_globals where
  "sample_globals = \<lparr> boot_sector = sample_boot_sector, meta_info = \<lparr>
     mi_fs_start = 65536, mi_fat_start = 65536 + 16384, mi_fat_entries = 64,
     mi_cluster_size = 4096, mi_dentries_per_cluster = 128, mi_sectors_before_data = 1064,
     mi_data_start = 65536 + 544768 \<rparr> \<rparr>"

lemma replicate_sample:
  "replicate 3 x = [x, x, x]" "replicate 8 x = [x, x, x, x, x, x, x, x]"
  "replicate 11 x = [x, x, x, x, x, x, x, x, x, x, x]"
  by (simp_all add: numeral_eq_Suc)

lemma sample_set_meta_info: "set_meta_info 65536 sample_globals = Inr sample_globals"
  by (simp add: set_meta_info_def sample_globals_def sample_boot_sector_def sizeof_fat_dentry_def)

lemma sample_first_data_block: "first_data_block sample_globals = 133"
  by (simp add: first_data_block_def sample_globals_def sample_boot_sector_def)

theorem cluster_start_is_block_address_witness:
  "cluster_start sample_globals 100
     = 65536 + unat (fat_cl_to_e4blk sample_globals 100) * 4096"
  using cluster_start_is_block_address [OF sample_set_meta_info, of 100]
  by (simp add: sample_first_data_block) (simp add: sample_globals_def sample_boot_sector_def)

theorem read_volume_label_trims_witness:
  "read_volume_label sample_globals = Inr [0x44, 0x41, 0x54, 0x41, 0]"
  using read_volume_label_trims [of sample_globals]
  by (simp add: sample_globals_def sample_boot_sector_def trim_label_def replicate_sample)

theorem read_short_name_correct_witness:
  "read_short_name (\<lambda>_. 0x41) 100 200
     = store_array store_u16 2 (\<lambda>_. 0x41) 200 (replicate 8 0x41 @ [0x2E] @ replicate 3 0x41 @ [0])"
proof -
  have "short_name_spec (\<lambda>_. 0x41) 100 = replicate 8 0x41 @ [0x2E] @ replicate 3 0x41"
    by (simp add: short_name_spec_def short_name_field_def load_fat_dentry_def load_bytes_def
        load_u8_def has_lower_name_def has_lower_extension_def has_extension_def upt_rec
        replicate_sample)
  then show ?thesis using read_short_name_correct [of 100 200 "\<lambda>_. 0x41"] by simp
qed

theorem lfn_cpy_correct_witness:
  "load_array load_u16 2 (lfn_cpy (\<lambda>a. word_of_nat a) 200 100) 200 LFN_ENTRY_LENGTH
     = lfn_units (\<lambda>a. word_of_nat a) 100"
  using lfn_cpy_correct [of 100 200 "\<lambda>a. word_of_nat a"] by simp

theorem is_lfn_any_attribute_witness: "is_lfn (\<lambda>_. 0x21) 0"
  using is_lfn_any_attribute [of "\<lambda>_. 0x21" 0] by simp

end
