(* ===== verification/Ext4_Super.thy ===== *)
theory Ext4_Super
  imports Fat
begin

unbundle bit_operations_syntax

section \<open>ext4.h, ext4.cpp and the layout part of ext4_bg.cpp\<close>

text \<open>
  The ext4 superblock that the tool builds, the block-group arithmetic that depends on it
  alone, \<open>init_ext4_sb\<close>, and \<open>create_block_group_meta_extents\<close>, which turns the block
  groups' metadata areas into cluster ranges the allocator must leave alone.
\<close>

subsection \<open>Constants\<close>

definition EXT4_ROOT_INODE :: u32 where "EXT4_ROOT_INODE = 2"
definition EXT4_LOST_FOUND_INODE :: u32 where "EXT4_LOST_FOUND_INODE = 11"
definition EXT4_FIRST_NON_RSV_INODE :: u32 where "EXT4_FIRST_NON_RSV_INODE = 11"
definition EXT4_MAGIC :: u16 where "EXT4_MAGIC = 0xEF53"
definition EXT4_STATE_CLEANLY_UNMOUNTED :: u16 where "EXT4_STATE_CLEANLY_UNMOUNTED = 0x0001"
definition EXT4_DYNAMIC_REV :: u32 where "EXT4_DYNAMIC_REV = 1"
definition EXT4_BLOCK_SIZE_MIN_LOG2 :: u32 where "EXT4_BLOCK_SIZE_MIN_LOG2 = 10"
definition EXT4_64BIT_DESC_SIZE :: u16 where "EXT4_64BIT_DESC_SIZE = 64"
definition EXT4_ERRORS_DEFAULT :: u16 where "EXT4_ERRORS_DEFAULT = 1"
definition EXT4_FEATURE_COMPAT_SPARSE_SUPER2 :: u32 where
  "EXT4_FEATURE_COMPAT_SPARSE_SUPER2 = 0x0200"
definition EXT4_FEATURE_INCOMPAT_EXTENTS :: u32 where "EXT4_FEATURE_INCOMPAT_EXTENTS = 0x0040"
definition EXT4_FEATURE_INCOMPAT_64BIT :: u32 where "EXT4_FEATURE_INCOMPAT_64BIT = 0x0080"
definition EXT4_INODE_RATIO :: u32 where "EXT4_INODE_RATIO = 16384"
definition EXT4_INODE_SIZE :: u16 where "EXT4_INODE_SIZE = 256"
definition EXT4_MAX_BLOCKS_PER_GROUP :: u32 where
  "EXT4_MAX_BLOCKS_PER_GROUP = push_bit 16 1 - 8"

lemmas ext4_constants =
  EXT4_ROOT_INODE_def EXT4_LOST_FOUND_INODE_def EXT4_FIRST_NON_RSV_INODE_def EXT4_MAGIC_def
  EXT4_STATE_CLEANLY_UNMOUNTED_def EXT4_DYNAMIC_REV_def EXT4_BLOCK_SIZE_MIN_LOG2_def
  EXT4_64BIT_DESC_SIZE_def EXT4_ERRORS_DEFAULT_def EXT4_FEATURE_COMPAT_SPARSE_SUPER2_def
  EXT4_FEATURE_INCOMPAT_EXTENTS_def EXT4_FEATURE_INCOMPAT_64BIT_def EXT4_INODE_RATIO_def
  EXT4_INODE_SIZE_def EXT4_MAX_BLOCKS_PER_GROUP_def

subsection \<open>The superblock\<close>

text \<open>
  The fields of \<open>ext4_super_block\<close> that the tool reads or writes. \<open>init_ext4_sb\<close> sets the
  whole struct to zero first and no code ever writes the remaining fields, so they are
  zero bytes on disk and are left out of the record.
\<close>

record ext4_super_block =
  s_inodes_count :: u32
  s_blocks_count_lo :: u32
  s_free_blocks_count_lo :: u32
  s_free_inodes_count :: u32
  s_first_data_block :: u32
  s_log_block_size :: u32
  s_log_cluster_size :: u32
  s_blocks_per_group :: u32
  s_clusters_per_group :: u32
  s_inodes_per_group :: u32
  s_max_mnt_count :: u16
  s_magic :: u16
  s_state :: u16
  s_errors :: u16
  s_rev_level :: u32
  s_first_ino :: u32
  s_inode_size :: u16
  s_block_group_nr :: u16
  s_feature_compat :: u32
  s_feature_incompat :: u32
  s_uuid :: "u8 list"
  s_volume_name :: "u8 list"
  s_reserved_gdt_blocks :: u16
  s_desc_size :: u16
  s_mkfs_time :: u32
  s_blocks_count_hi :: u32
  s_free_blocks_count_hi :: u32
  s_backup_bg0 :: u32
  s_backup_bg1 :: u32

definition zero_super_block :: ext4_super_block where
  "zero_super_block = \<lparr>
     s_inodes_count = 0, s_blocks_count_lo = 0, s_free_blocks_count_lo = 0,
     s_free_inodes_count = 0, s_first_data_block = 0, s_log_block_size = 0,
     s_log_cluster_size = 0, s_blocks_per_group = 0, s_clusters_per_group = 0,
     s_inodes_per_group = 0, s_max_mnt_count = 0, s_magic = 0, s_state = 0, s_errors = 0,
     s_rev_level = 0, s_first_ino = 0, s_inode_size = 0, s_block_group_nr = 0,
     s_feature_compat = 0, s_feature_incompat = 0, s_uuid = replicate 16 0,
     s_volume_name = replicate 16 0, s_reserved_gdt_blocks = 0, s_desc_size = 0,
     s_mkfs_time = 0, s_blocks_count_hi = 0, s_free_blocks_count_hi = 0,
     s_backup_bg0 = 0, s_backup_bg1 = 0 \<rparr>"

definition block_size :: "ext4_super_block \<Rightarrow> u32" where
  "block_size sb = push_bit (unat (s_log_block_size sb + EXT4_BLOCK_SIZE_MIN_LOG2)) 1"

text \<open>The address of a block: \<open>meta_info.fs_start + block_no * block_size()\<close>.\<close>

definition block_start :: "fat_globals \<Rightarrow> ext4_super_block \<Rightarrow> u64 \<Rightarrow> nat" where
  "block_start g sb block_no =
     mi_fs_start (meta_info g) + unat (block_no * ucast (block_size sb))"

definition block_count :: "ext4_super_block \<Rightarrow> u64" where
  "block_count sb = from_lo_hi_32 (s_blocks_count_lo sb) (s_blocks_count_hi sb)"

subsection \<open>Block groups\<close>

definition block_group_count :: "ext4_super_block \<Rightarrow> u32" where
  "block_group_count sb =
     (let count = from_lo_hi_32 (s_blocks_count_lo sb) (s_blocks_count_hi sb)
      in ceildiv_u64 count (ucast (s_blocks_per_group sb)))"

definition gdt_block_count :: "ext4_super_block \<Rightarrow> u32" where
  "gdt_block_count sb =
     ceildiv_u32 (block_group_count sb) (block_size sb div ucast (s_desc_size sb))"

definition block_group_start :: "ext4_super_block \<Rightarrow> u32 \<Rightarrow> u64" where
  "block_group_start sb num = ucast (s_blocks_per_group sb * num + s_first_data_block sb)"

definition block_group_block_count :: "ext4_super_block \<Rightarrow> u32 \<Rightarrow> u32" where
  "block_group_block_count sb num =
     (let start = block_group_start sb num;
          blocks_total = from_lo_hi_32 (s_blocks_count_lo sb) (s_blocks_count_hi sb)
      in min_u32 (s_blocks_per_group sb) (ucast (blocks_total - start)))"

definition inode_table_blocks :: "ext4_super_block \<Rightarrow> u32" where
  "inode_table_blocks sb =
     ceildiv_u32 (s_inodes_per_group sb * ucast (s_inode_size sb)) (block_size sb)"

definition block_group_has_sb_copy :: "ext4_super_block \<Rightarrow> u32 \<Rightarrow> bool" where
  "block_group_has_sb_copy sb bg_num \<longleftrightarrow>
     bg_num = 0 \<or> bg_num = s_backup_bg0 sb \<or> bg_num = s_backup_bg1 sb"

text \<open>The overload of \<open>block_group_overhead\<close> that takes a truth value.\<close>

definition block_group_overhead_copy :: "ext4_super_block \<Rightarrow> bool \<Rightarrow> u32" where
  "block_group_overhead_copy sb has_sb_copy =
     (if has_sb_copy
      then 3 + gdt_block_count sb + ucast (s_reserved_gdt_blocks sb) + inode_table_blocks sb
      else 2 + inode_table_blocks sb)"

text \<open>The overload of \<open>block_group_overhead\<close> that takes a group number.\<close>

definition block_group_overhead :: "ext4_super_block \<Rightarrow> u32 \<Rightarrow> u32" where
  "block_group_overhead sb bg_num =
     block_group_overhead_copy sb (block_group_has_sb_copy sb bg_num)"

subsection \<open>init_ext4_sb\<close>

text \<open>
  The current time and the generated UUID come from the C library and from libuuid: they
  are the parameters \<open>now\<close> and \<open>uuid\<close>. The array \<open>s_backup_bgs\<close> is two fields.
\<close>

definition set_blocks_count :: "ext4_super_block \<Rightarrow> u64 \<Rightarrow> ext4_super_block" where
  "set_blocks_count sb v =
     (let (lo, hi) = set_lo_hi_32_32 v in sb\<lparr>s_blocks_count_lo := lo, s_blocks_count_hi := hi\<rparr>)"

definition sb_constant_fields ::
  "u32 \<Rightarrow> u8 list \<Rightarrow> u8 list \<Rightarrow> ext4_super_block" where
  "sb_constant_fields now uuid label = zero_super_block\<lparr>
     s_magic := EXT4_MAGIC,
     s_state := EXT4_STATE_CLEANLY_UNMOUNTED,
     s_feature_compat := EXT4_FEATURE_COMPAT_SPARSE_SUPER2,
     s_feature_incompat := EXT4_FEATURE_INCOMPAT_64BIT OR EXT4_FEATURE_INCOMPAT_EXTENTS,
     s_desc_size := EXT4_64BIT_DESC_SIZE,
     s_inode_size := EXT4_INODE_SIZE,
     s_rev_level := EXT4_DYNAMIC_REV,
     s_errors := EXT4_ERRORS_DEFAULT,
     s_first_ino := EXT4_FIRST_NON_RSV_INODE,
     s_max_mnt_count := 0xFFFF,
     s_mkfs_time := now,
     s_uuid := uuid,
     s_volume_name := label @ drop (length label) (s_volume_name zero_super_block)\<rparr>"

definition sb_block_fields ::
  "u32 \<Rightarrow> u32 \<Rightarrow> u64 \<Rightarrow> ext4_super_block \<Rightarrow> ext4_super_block" where
  "sb_block_fields bytes_per_block log_size count sb0 =
     (let sb1 = sb0\<lparr>
            s_log_block_size := log_size - EXT4_BLOCK_SIZE_MIN_LOG2,
            s_first_data_block := (if bytes_per_block = 1024 then 1 else 0),
            s_blocks_per_group := min_u32 (bytes_per_block * 8) EXT4_MAX_BLOCKS_PER_GROUP\<rparr>;
          sb2 = set_blocks_count sb1 count
      in sb2\<lparr>s_log_cluster_size := s_log_block_size sb2,
             s_clusters_per_group := s_blocks_per_group sb2\<rparr>)"

text \<open>The statement under the comment about the last block group stores the same count again.\<close>

definition sb_check_last_group :: "u64 \<Rightarrow> ext4_super_block \<Rightarrow> ext4_super_block" where
  "sb_check_last_group count sb =
     (if count mod ucast (s_blocks_per_group sb) < ucast (block_group_overhead_copy sb True + 50)
      then set_blocks_count sb count else sb)"

definition sb_backup_groups :: "ext4_super_block \<Rightarrow> ext4_super_block" where
  "sb_backup_groups sb =
     (let bg_count = block_group_count sb
      in if 1 < bg_count
         then (let sb' = sb\<lparr>s_backup_bg0 := 1\<rparr>
               in if 2 < bg_count then sb'\<lparr>s_backup_bg1 := block_group_count sb' - 1\<rparr> else sb')
         else sb)"

definition sb_inode_fields :: "u32 \<Rightarrow> ext4_super_block \<Rightarrow> ext4_super_block" where
  "sb_inode_fields bytes_per_block sb =
     (let sb' = sb\<lparr>s_inodes_per_group := min_u32
            (s_blocks_per_group sb * bytes_per_block div EXT4_INODE_RATIO)
            (bytes_per_block * 8)\<rparr>
      in sb'\<lparr>s_inodes_count := s_inodes_per_group sb' * block_group_count sb'\<rparr>)"

definition init_ext4_sb ::
  "u32 \<Rightarrow> u8 list \<Rightarrow> fat_globals \<Rightarrow> ext4_super_block result" where
  "init_ext4_sb now uuid g =
     (let bs = boot_sector g;
          bytes_per_block = (ucast (bs_bytes_per_sector bs) * ucast (bs_sectors_per_cluster bs) :: u32);
          partition_bytes = (ucast (bs_bytes_per_sector bs) * ucast (sector_count g) :: u64)
      in if bytes_per_block < 1024 then Inl Cluster_Too_Small
         else
           bind_res (read_volume_label g) (\<lambda>label.
           bind_res (log2 bytes_per_block) (\<lambda>log_size.
             let count = partition_bytes div ucast bytes_per_block;
                 sb1 = sb_block_fields bytes_per_block log_size count (sb_constant_fields now uuid label);
                 sb2 = sb_check_last_group count sb1;
                 sb3 = sb_backup_groups sb2
             in Inr (sb_inode_fields bytes_per_block sb3))))"

subsection \<open>create_block_group_meta_extents\<close>

text \<open>The extent of one block group, as the loop body computes it.\<close>

definition block_group_meta_extent ::
  "fat_globals \<Rightarrow> ext4_super_block \<Rightarrow> u32 \<Rightarrow> fat_extent result" where
  "block_group_meta_extent g sb i =
     (let bg_overhead = block_group_overhead sb i;
          bg_start = block_group_start sb i;
          start_cluster = e4blk_to_fat_cl g bg_start
      in if 0xFFFF < bg_overhead then Inl Overhead_Too_Large
         else if start_cluster \<noteq> 0 then
           Inr \<lparr>fe_logical_start = 0, fe_length = ucast bg_overhead, fe_physical_start = start_cluster\<rparr>
         else
           (let end_cluster = e4blk_to_fat_cl g (bg_start + ucast bg_overhead)
            in if end_cluster \<noteq> 0 then
                 Inr \<lparr>fe_logical_start = 0, fe_length = ucast (end_cluster - FAT_START_INDEX),
                      fe_physical_start = FAT_START_INDEX\<rparr>
               else Inr \<lparr>fe_logical_start = 0, fe_length = 0, fe_physical_start = 0\<rparr>))"

fun block_group_meta_extents ::
  "fat_globals \<Rightarrow> ext4_super_block \<Rightarrow> nat list \<Rightarrow> fat_extent list result" where
  "block_group_meta_extents g sb [] = Inr []"
| "block_group_meta_extents g sb (i # is) =
     bind_res (block_group_meta_extent g sb (word_of_nat i)) (\<lambda>e.
     bind_res (block_group_meta_extents g sb is) (\<lambda>es. Inr (e # es)))"

definition create_block_group_meta_extents ::
  "fat_globals \<Rightarrow> ext4_super_block \<Rightarrow> u32 \<Rightarrow> fat_extent list result" where
  "create_block_group_meta_extents g sb bg_count =
     bind_res (block_group_meta_extents g sb [0..<unat bg_count]) (\<lambda>es.
       Inr (es @ [\<lparr>fe_logical_start = 0, fe_length = 1, fe_physical_start = data_cluster_count g\<rparr>]))"

subsection \<open>The layout in natural numbers\<close>

lemma block_count_set_blocks_count [simp]: "block_count (set_blocks_count sb v) = v"
  by (simp add: block_count_def set_blocks_count_def split_beta)

lemma set_blocks_count_same:
  "s_blocks_count_lo sb = fst (set_lo_hi_32_32 v) \<Longrightarrow> s_blocks_count_hi sb = snd (set_lo_hi_32_32 v)
    \<Longrightarrow> set_blocks_count sb v = sb"
  by (simp add: set_blocks_count_def split_beta)

lemma unat_block_group_count:
  assumes "0 < unat (s_blocks_per_group sb)" and "unat (block_count sb) < 2 ^ 32"
  shows "unat (block_group_count sb) =
    (unat (block_count sb) + unat (s_blocks_per_group sb) - 1) div unat (s_blocks_per_group sb)"
proof -
  let ?c = "block_count sb" and ?p = "s_blocks_per_group sb"
  have "unat ?c + unat ?p < 18446744073709551616"
    using assms(2) [simplified] unat_u32_bound [of ?p] by linarith
  then have s: "unat (?c + ucast ?p) = unat ?c + unat ?p"
    by (subst unat_add_no_overflow) simp_all
  have "unat (?c + ucast ?p - 1) = unat ?c + unat ?p - 1"
    using assms(1) by (subst unat_sub_no_underflow) (simp_all add: s)
  then have d: "unat ((?c + ucast ?p - 1) div ucast ?p) = (unat ?c + unat ?p - 1) div unat ?p"
    by (simp add: unat_div)
  have "(unat ?c + unat ?p - 1) div unat ?p < 2 ^ 32"
  proof (cases "unat ?p = 1")
    case True
    then show ?thesis using assms(2) by simp
  next
    case False
    then have "2 \<le> unat ?p" using assms(1) by simp
    then have "(unat ?c + unat ?p - 1) div unat ?p \<le> (unat ?c + unat ?p - 1) div 2"
      by (rule div_le_mono2 [OF zero_less_numeral])
    also have "\<dots> < 4294967296"
      using assms(2) [simplified] unat_u32_bound [of ?p] by linarith
    finally show ?thesis by simp
  qed
  then show ?thesis
    by (simp add: block_group_count_def block_count_def [symmetric] ceildiv_u64_def Let_def
        unsigned_ucast_eq d take_bit_nat_eq_self)
qed

lemma unat_block_group_start:
  assumes "unat (s_blocks_per_group sb) * unat i + unat (s_first_data_block sb) < 2 ^ 32"
  shows "unat (block_group_start sb i) =
    unat (s_blocks_per_group sb) * unat i + unat (s_first_data_block sb)"
proof -
  have "unat (s_blocks_per_group sb * i) = unat (s_blocks_per_group sb) * unat i"
    using assms by (subst unat_mult_no_overflow) simp_all
  then show ?thesis
    using assms by (simp add: block_group_start_def unat_add_no_overflow)
qed

lemma unat_block_group_block_count:
  assumes "unat (block_group_start sb i) \<le> unat (block_count sb)" and "unat (block_count sb) < 2 ^ 32"
  shows "unat (block_group_block_count sb i) =
    min (unat (s_blocks_per_group sb)) (unat (block_count sb) - unat (block_group_start sb i))"
proof -
  have "unat (ucast (block_count sb - block_group_start sb i) :: u32)
      = unat (block_count sb) - unat (block_group_start sb i)"
    using assms by (simp add: unsigned_ucast_eq unat_sub_no_underflow take_bit_nat_eq_self)
  then show ?thesis
    by (simp add: block_group_block_count_def block_count_def [symmetric] Let_def min_u32_def
        word_less_nat_alt min_def)
qed

text \<open>
  C33. The block groups tile the file system: every block from the first data block up to
  the block count lies in exactly one block group below \<open>block_group_count\<close>, the group
  that starts at or before it and whose \<open>block_group_block_count\<close> reaches past it.
\<close>

theorem block_groups_tile:
  assumes "0 < unat (s_blocks_per_group sb)"
    and "unat (block_count sb) + unat (s_blocks_per_group sb) + unat (s_first_data_block sb) < 2 ^ 32"
    and "unat (s_first_data_block sb) \<le> b" and "b < unat (block_count sb)"
  shows "\<exists>!i. i < block_group_count sb \<and> unat (block_group_start sb i) \<le> b
    \<and> b < unat (block_group_start sb i) + unat (block_group_block_count sb i)"
proof -
  let ?p = "unat (s_blocks_per_group sb)" and ?f = "unat (s_first_data_block sb)"
  let ?n = "unat (block_count sb)"
  have cnt: "unat (block_group_count sb) = (?n + ?p - 1) div ?p"
    using assms by (intro unat_block_group_count) simp_all
  have start: "unat (block_group_start sb i) = ?p * unat i + ?f" if "i < block_group_count sb" for i
  proof (rule unat_block_group_start)
    have "unat i * ?p \<le> (?n + ?p - 1) div ?p * ?p"
      using that cnt by (intro mult_le_mono1) (simp add: word_less_nat_alt)
    also have "\<dots> \<le> ?n + ?p - 1" by simp
    finally show "?p * unat i + ?f < 2 ^ 32" using assms(2) by (simp add: mult.commute)
  qed
  have inside: "unat (block_group_start sb i) \<le> b
      \<and> b < unat (block_group_start sb i) + unat (block_group_block_count sb i)
      \<longleftrightarrow> unat i = (b - ?f) div ?p" if i: "i < block_group_count sb" for i
  proof -
    have "?p * unat i + ?f \<le> b \<and> b < ?p * unat i + ?f + ?p \<longleftrightarrow> unat i = (b - ?f) div ?p"
    proof
      assume "?p * unat i + ?f \<le> b \<and> b < ?p * unat i + ?f + ?p"
      then have "?p * unat i \<le> b - ?f \<and> b - ?f < ?p * Suc (unat i)" by simp linarith
      then show "unat i = (b - ?f) div ?p" by (intro div_nat_eqI [symmetric]) (simp_all add: mult.commute)
    next
      assume e: "unat i = (b - ?f) div ?p"
      have "?p * unat i \<le> b - ?f" unfolding e by (rule times_div_less_eq_dividend)
      moreover have "b - ?f < ?p + ?p * unat i"
        unfolding e using assms(1) by (rule dividend_less_times_div)
      ultimately show "?p * unat i + ?f \<le> b \<and> b < ?p * unat i + ?f + ?p"
        using assms(3) by linarith
    qed
    moreover have "unat (block_group_block_count sb i) = min ?p (?n - (?p * unat i + ?f))"
      if "?p * unat i + ?f \<le> b"
      using that assms start [OF i] by (subst unat_block_group_block_count) simp_all
    ultimately show ?thesis using start [OF i] assms(4) by (auto simp: min_def split: if_splits)
  qed
  define i where "i = (word_of_nat ((b - ?f) div ?p) :: u32)"
  have "(b - ?f) div ?p \<le> b div ?p" by (intro div_le_mono) simp
  moreover have "b div ?p < (?n + ?p - 1) div ?p"
  proof -
    have "b + ?p \<le> ?n + ?p - 1" using assms(4) by simp
    then have "(b + ?p) div ?p \<le> (?n + ?p - 1) div ?p" by (rule div_le_mono)
    moreover have "(b + ?p) div ?p = b div ?p + 1"
      using assms(1) by (intro div_add_self2) linarith
    ultimately show ?thesis by linarith
  qed
  ultimately have q: "(b - ?f) div ?p < unat (block_group_count sb)" using cnt by linarith
  have "(b - ?f) div ?p < 2 ^ LENGTH(32)"
    using less_trans [OF q unat_u32_bound] by simp
  then have i: "unat i = (b - ?f) div ?p"
    unfolding i_def by (simp only: unat_of_nat mod_less)
  show ?thesis
  proof (rule ex1I [of _ i])
    show "i < block_group_count sb \<and> unat (block_group_start sb i) \<le> b
        \<and> b < unat (block_group_start sb i) + unat (block_group_block_count sb i)"
      using i q inside [of i] by (simp add: word_less_nat_alt)
  next
    fix j assume "j < block_group_count sb \<and> unat (block_group_start sb j) \<le> b
        \<and> b < unat (block_group_start sb j) + unat (block_group_block_count sb j)"
    then have "unat j = unat i" using inside [of j] i by simp
    then show "j = i" by (rule unsigned_word_eqI)
  qed
qed

subsection \<open>The blocked extents are the metadata areas\<close>

definition extent_covers :: "fat_extent \<Rightarrow> nat \<Rightarrow> bool" where
  "extent_covers e c \<longleftrightarrow>
     unat (fe_physical_start e) \<le> c \<and> c < unat (fe_physical_start e) + unat (fe_length e)"

lemma unat_e4blk_to_fat_cl:
  assumes "unat b + 2 < 2 ^ 32"
  shows "unat (e4blk_to_fat_cl g b) =
    (if unat b < unat (first_data_block g) then 0 else unat b + 2 - unat (first_data_block g))"
proof -
  have "unat b + 2 - unat (first_data_block g) < 2 ^ LENGTH(32)" using assms by simp
  then have "unat (word_of_nat (unat b + 2 - unat (first_data_block g)) :: u32)
      = unat b + 2 - unat (first_data_block g)"
    by (simp only: unat_of_nat mod_less)
  moreover have "unat b < 2 ^ 62" using assms by simp
  ultimately show ?thesis by (simp only: e4blk_to_fat_cl_int unsigned_0 split: if_split) blast
qed

lemma block_group_meta_extent_cases:
  assumes e: "block_group_meta_extent g sb i = Inr e"
    and b: "unat (block_group_start sb i) + unat (block_group_overhead sb i) + 2 < 2 ^ 32"
  defines "s \<equiv> unat (block_group_start sb i)" and "n \<equiv> unat (block_group_overhead sb i)"
    and "d \<equiv> unat (first_data_block g)"
  shows "n \<le> 0xFFFF \<and> fe_logical_start e = 0 \<and>
    (if d \<le> s then unat (fe_physical_start e) = s + 2 - d \<and> unat (fe_length e) = n
     else if d \<le> s + n then unat (fe_physical_start e) = 2 \<and> unat (fe_length e) = s + n - d
     else fe_physical_start e = 0 \<and> fe_length e = 0)"
proof -
  let ?o = "block_group_overhead sb i" and ?s = "block_group_start sb i"
  have small: "n \<le> 0xFFFF"
    using e by (auto simp: block_group_meta_extent_def n_def Let_def word_le_nat_alt not_less
        split: if_splits)
  have su: "unat (?s + ucast ?o) = s + n"
    using b by (simp add: unat_add_no_overflow s_def n_def)
  have "unat (e4blk_to_fat_cl g ?s) = (if s < d then 0 else s + 2 - d)"
    using b unfolding s_def d_def by (intro unat_e4blk_to_fat_cl) simp
  then have st: "unat (e4blk_to_fat_cl g ?s) = (if s < d then 0 else s + 2 - d)"
    and st0: "e4blk_to_fat_cl g ?s = 0 \<longleftrightarrow> s < d"
    by (auto simp: unat_eq_zero [symmetric])
  have "unat (e4blk_to_fat_cl g (?s + ucast ?o)) = (if s + n < d then 0 else s + n + 2 - d)"
    using b unat_e4blk_to_fat_cl [of "?s + ucast ?o" g] by (simp add: su d_def s_def n_def)
  then have en: "unat (e4blk_to_fat_cl g (?s + ucast ?o)) = (if s + n < d then 0 else s + n + 2 - d)"
    and en0: "e4blk_to_fat_cl g (?s + ucast ?o) = 0 \<longleftrightarrow> s + n < d"
    by (auto simp: unat_eq_zero [symmetric])
  have u16: "unat (ucast (w :: u32) :: u16) = unat w" if "unat w < 65536" for w
    using that by (simp add: unsigned_ucast_eq take_bit_nat_eq_self)
  have len: "unat (ucast (e4blk_to_fat_cl g (?s + ucast ?o) - FAT_START_INDEX) :: u16) = s + n - d"
    if "\<not> s + n < d" "s < d"
  proof -
    have "unat (e4blk_to_fat_cl g (?s + ucast ?o) - FAT_START_INDEX) = s + n - d"
      using that en by (subst unat_sub_no_underflow) (simp_all add: FAT_START_INDEX_def)
    then show ?thesis using u16 [of "e4blk_to_fat_cl g (?s + ucast ?o) - FAT_START_INDEX"] small that by simp
  qed
  have "\<not> 0xFFFF < ?o" using small by (simp add: word_less_nat_alt n_def)
  then show ?thesis
    using e small st st0 en0 len u16 [of ?o] n_def
    by (auto simp: block_group_meta_extent_def Let_def FAT_START_INDEX_def split: if_splits)
qed

lemma meta_extent_covers_iff:
  assumes "block_group_meta_extent g sb i = Inr e"
    and "unat (block_group_start sb i) + unat (block_group_overhead sb i) + 2 < 2 ^ 32"
    and "2 \<le> unat c" and "unat c - 2 + unat (first_data_block g) < 2 ^ 32"
  shows "extent_covers e (unat c) \<longleftrightarrow>
    unat (block_group_start sb i) \<le> unat (fat_cl_to_e4blk g c)
    \<and> unat (fat_cl_to_e4blk g c) < unat (block_group_start sb i) + unat (block_group_overhead sb i)"
  using block_group_meta_extent_cases [OF assms(1,2)] assms(3)
  unfolding extent_covers_def unat_fat_cl_to_e4blk [OF assms(3,4)]
  by (auto split: if_splits)

text \<open>
  The extent reserved for a block group covers exactly the clusters whose blocks hold
  the group's metadata, whether the group starts in front of the data area, across its
  start, or inside it.
\<close>

theorem block_group_meta_extent_covers:
  assumes "block_group_meta_extent g sb i = Inr e"
    and "unat (block_group_start sb i) + unat (block_group_overhead sb i) + 2 < 2 ^ 32"
    and "2 \<le> unat c" and "unat c - 2 + unat (first_data_block g) < 2 ^ 32"
  shows "extent_covers e (unat c) \<longleftrightarrow>
    unat (block_group_start sb i) \<le> unat (fat_cl_to_e4blk g c)
    \<and> unat (fat_cl_to_e4blk g c) < unat (block_group_start sb i) + unat (block_group_overhead sb i)"
  by (rule meta_extent_covers_iff [OF assms])

lemma block_group_meta_extents_nth:
  "block_group_meta_extents g sb is = Inr es \<Longrightarrow>
    length es = length is \<and> (\<forall>k < length is. block_group_meta_extent g sb (word_of_nat (is ! k)) = Inr (es ! k))"
proof (induction "is" arbitrary: es)
  case (Cons i "is")
  then obtain e es' where *: "block_group_meta_extent g sb (word_of_nat i) = Inr e"
    "block_group_meta_extents g sb is = Inr es'" "es = e # es'"
    by (auto elim!: bind_resE)
  show ?case using * Cons.IH [OF *(2)] by (auto simp: nth_Cons' less_Suc_eq_0_disj)
qed simp

lemma create_block_group_meta_extents_nth:
  assumes "create_block_group_meta_extents g sb n = Inr es"
  shows "length es = unat n + 1
    \<and> es ! unat n = \<lparr>fe_logical_start = 0, fe_length = 1, fe_physical_start = data_cluster_count g\<rparr>
    \<and> (\<forall>i < n. block_group_meta_extent g sb i = Inr (es ! unat i))"
proof -
  obtain fs where fs: "block_group_meta_extents g sb [0..<unat n] = Inr fs"
    and es: "es = fs @ [\<lparr>fe_logical_start = 0, fe_length = 1, fe_physical_start = data_cluster_count g\<rparr>]"
    using assms by (auto simp: create_block_group_meta_extents_def elim!: bind_resE)
  from block_group_meta_extents_nth [OF fs] have len: "length fs = unat n"
    and nth: "\<And>k. k < unat n \<Longrightarrow> block_group_meta_extent g sb (word_of_nat k) = Inr (fs ! k)"
    by auto
  have "block_group_meta_extent g sb i = Inr (fs ! unat i)" if "i < n" for i
  proof -
    have "(word_of_nat (unat i) :: u32) = i" by simp
    with nth [of "unat i"] that show ?thesis by (simp only: word_less_nat_alt)
  qed
  then show ?thesis
    using len es by (simp add: nth_append word_less_nat_alt)
qed

text \<open>
  C26. The list of blocked extents has one extent per block group and a terminator just
  past the last data cluster, and a data cluster is in one of the group extents exactly
  when its block is in some group's metadata area: the allocator is told to stay away
  from all of the metadata and from nothing else.
\<close>

theorem meta_extents_reserve_metadata:
  assumes "create_block_group_meta_extents g sb n = Inr es"
    and "\<And>i. i < n \<Longrightarrow> unat (block_group_start sb i) + unat (block_group_overhead sb i) + 2 < 2 ^ 32"
    and "2 \<le> unat c" and "unat c - 2 + unat (first_data_block g) < 2 ^ 32"
  shows "length es = unat n + 1 \<and> fe_physical_start (last es) = data_cluster_count g
    \<and> ((\<exists>k < unat n. extent_covers (es ! k) (unat c)) \<longleftrightarrow>
        (\<exists>i < n. unat (block_group_start sb i) \<le> unat (fat_cl_to_e4blk g c)
          \<and> unat (fat_cl_to_e4blk g c) < unat (block_group_start sb i) + unat (block_group_overhead sb i)))"
proof -
  from create_block_group_meta_extents_nth [OF assms(1)]
  have len: "length es = unat n + 1"
    and last: "fe_physical_start (es ! unat n) = data_cluster_count g"
    and nth: "\<And>i. i < n \<Longrightarrow> block_group_meta_extent g sb i = Inr (es ! unat i)" by auto
  have iff: "extent_covers (es ! unat i) (unat c) \<longleftrightarrow>
      unat (block_group_start sb i) \<le> unat (fat_cl_to_e4blk g c)
      \<and> unat (fat_cl_to_e4blk g c) < unat (block_group_start sb i) + unat (block_group_overhead sb i)"
    if "i < n" for i
    using meta_extent_covers_iff [OF nth assms(2-4), of i] that by blast
  have word: "(\<exists>k < unat n. P k) \<longleftrightarrow> (\<exists>i < n. P (unat i))" for P
  proof
    assume "\<exists>k < unat n. P k"
    then obtain k where k: "k < unat n" "P k" by blast
    then have "k < 2 ^ LENGTH(32)" using less_trans [OF k(1) unat_u32_bound] by simp
    then have "unat (word_of_nat k :: u32) = k" by (simp only: unat_of_nat mod_less)
    with k show "\<exists>i < n. P (unat i)" by (metis word_less_nat_alt)
  qed (auto simp: word_less_nat_alt)
  have "last es = es ! unat n" using len by (subst last_conv_nth) auto
  then show ?thesis using len last iff by (auto simp: word)
qed

definition extent_end :: "fat_extent \<Rightarrow> nat" where
  "extent_end e = unat (fe_physical_start e) + unat (fe_length e)"

definition extents_ascending :: "fat_extent list \<Rightarrow> bool" where
  "extents_ascending es \<longleftrightarrow> sorted_wrt (\<lambda>a b. extent_end a \<le> unat (fe_physical_start b)) es"

text \<open>
  The layout the allocator relies on: no metadata area is larger than its block group,
  and the last one ends inside the data area.
\<close>

definition layout_fits :: "fat_globals \<Rightarrow> ext4_super_block \<Rightarrow> u32 \<Rightarrow> bool" where
  "layout_fits g sb n \<longleftrightarrow>
     unat (s_blocks_per_group sb) * unat n + unat (s_first_data_block sb) + 2 < 2 ^ 32 \<and>
     (\<forall>i < n. unat (block_group_overhead sb i) \<le> unat (s_blocks_per_group sb)
       \<and> unat (block_group_start sb i) + unat (block_group_overhead sb i) + 2
          \<le> unat (first_data_block g) + unat (data_cluster_count g))"

lemma layout_fits_start:
  assumes "layout_fits g sb n" and "i < n"
  shows "unat (block_group_start sb i) = unat (s_blocks_per_group sb) * unat i + unat (s_first_data_block sb)"
    and "unat (s_blocks_per_group sb) * (unat i + 1) + unat (s_first_data_block sb) + 2 < 2 ^ 32"
proof -
  have "unat (s_blocks_per_group sb) * (unat i + 1) \<le> unat (s_blocks_per_group sb) * unat n"
    using assms(2) by (intro mult_le_mono2) (simp add: word_less_nat_alt)
  then show *: "unat (s_blocks_per_group sb) * (unat i + 1) + unat (s_first_data_block sb) + 2 < 2 ^ 32"
    using assms(1) by (simp add: layout_fits_def)
  then show "unat (block_group_start sb i) = unat (s_blocks_per_group sb) * unat i + unat (s_first_data_block sb)"
    by (intro unat_block_group_start) simp
qed

lemma create_block_group_meta_extents_ascending:
  assumes es: "create_block_group_meta_extents g sb n = Inr es" and fits: "layout_fits g sb n"
  shows "extents_ascending es"
proof -
  let ?p = "unat (s_blocks_per_group sb)" and ?d = "unat (first_data_block g)"
  let ?s = "\<lambda>i. unat (block_group_start sb i)" and ?o = "\<lambda>i. unat (block_group_overhead sb i)"
  from create_block_group_meta_extents_nth [OF es]
  have len: "length es = unat n + 1"
    and final: "fe_physical_start (es ! unat n) = data_cluster_count g"
    and nth: "\<And>i. i < n \<Longrightarrow> block_group_meta_extent g sb i = Inr (es ! unat i)" by auto
  have over: "?o i \<le> ?p" and last: "?s i + ?o i + 2 \<le> ?d + unat (data_cluster_count g)" if "i < n" for i
    using fits that by (auto simp: layout_fits_def)
  have bound: "?s i + ?o i + 2 < 2 ^ 32" if "i < n" for i
    using layout_fits_start [OF fits that] over [OF that] by simp
  note ext = block_group_meta_extent_cases [OF nth bound]
  have "extent_end (es ! k) \<le> unat (fe_physical_start (es ! j))" if "k < j" "j < length es" for k j
  proof -
    define i where "i = (word_of_nat k :: u32)"
    have "k < unat n" using that len by simp
    then have "k < 2 ^ LENGTH(32)" using less_trans [OF _ unat_u32_bound] by fastforce
    then have ik: "unat i = k" unfolding i_def by (simp only: unat_of_nat mod_less)
    with \<open>k < unat n\<close> have i: "i < n" by (simp add: word_less_nat_alt)
    have ek: "extent_end (es ! k) \<le> ?s i + ?o i + 2 - ?d"
      using ext [OF i i] by (auto simp: extent_end_def ik split: if_splits)
    have ez: "extent_end (es ! k) = 0" if "?s i + ?o i < ?d"
      using ext [OF i i] that by (auto simp: extent_end_def ik split: if_splits)
    show ?thesis
    proof (cases "j = unat n")
      case True
      then show ?thesis using ek last [OF i] final by simp
    next
      case False
      define h where "h = (word_of_nat j :: u32)"
      have jn: "j < unat n" using False that len by simp
      then have "j < 2 ^ LENGTH(32)" using less_trans [OF _ unat_u32_bound] by fastforce
      then have hj: "unat h = j" unfolding h_def by (simp only: unat_of_nat mod_less)
      with jn have h: "h < n" by (simp add: word_less_nat_alt)
      have "?p * (k + 1) \<le> ?p * j" using that by (intro mult_le_mono2) simp
      then have "?s i + ?o i \<le> ?s h"
        using over [OF i] layout_fits_start(1) [OF fits i] layout_fits_start(1) [OF fits h] ik hj by simp
      then show ?thesis
        using ek ez ext [OF h h] by (cases "?s i + ?o i < ?d") (auto simp: hj split: if_splits)
    qed
  qed
  then show ?thesis by (simp add: extents_ascending_def sorted_wrt_iff_nth_less)
qed

subsection \<open>What init_ext4_sb establishes\<close>

definition bytes_per_block :: "boot_sector \<Rightarrow> u32" where
  "bytes_per_block bs = ucast (bs_bytes_per_sector bs) * ucast (bs_sectors_per_cluster bs)"

definition partition_blocks :: "fat_globals \<Rightarrow> u64" where
  "partition_blocks g =
     ucast (bs_bytes_per_sector (boot_sector g)) * ucast (sector_count g)
       div ucast (bytes_per_block (boot_sector g))"

lemma set_blocks_count_select [simp]:
  "s_log_block_size (set_blocks_count sb v) = s_log_block_size sb"
  "s_first_data_block (set_blocks_count sb v) = s_first_data_block sb"
  "s_blocks_per_group (set_blocks_count sb v) = s_blocks_per_group sb"
  "s_desc_size (set_blocks_count sb v) = s_desc_size sb"
  "s_inode_size (set_blocks_count sb v) = s_inode_size sb"
  "s_inodes_per_group (set_blocks_count sb v) = s_inodes_per_group sb"
  "s_reserved_gdt_blocks (set_blocks_count sb v) = s_reserved_gdt_blocks sb"
  "s_backup_bg0 (set_blocks_count sb v) = s_backup_bg0 sb"
  "s_backup_bg1 (set_blocks_count sb v) = s_backup_bg1 sb"
  by (simp_all add: set_blocks_count_def split_beta)

lemma block_count_updates [simp]:
  "block_count (sb\<lparr>s_backup_bg0 := a\<rparr>) = block_count sb"
  "block_count (sb\<lparr>s_backup_bg1 := b\<rparr>) = block_count sb"
  "block_count (sb\<lparr>s_inodes_per_group := c\<rparr>) = block_count sb"
  "block_count (sb\<lparr>s_inodes_count := d\<rparr>) = block_count sb"
  "block_count (sb\<lparr>s_log_cluster_size := e\<rparr>) = block_count sb"
  "block_count (sb\<lparr>s_clusters_per_group := f\<rparr>) = block_count sb"
  by (simp_all add: block_count_def)

lemma block_group_count_block_count:
  "block_group_count sb = ceildiv_u64 (block_count sb) (ucast (s_blocks_per_group sb))"
  by (simp add: block_group_count_def block_count_def)

lemma sb_check_last_group_noop:
  "block_count sb = count \<Longrightarrow> block_count (sb_check_last_group count sb) = count
    \<and> s_log_block_size (sb_check_last_group count sb) = s_log_block_size sb
    \<and> s_first_data_block (sb_check_last_group count sb) = s_first_data_block sb
    \<and> s_blocks_per_group (sb_check_last_group count sb) = s_blocks_per_group sb
    \<and> s_desc_size (sb_check_last_group count sb) = s_desc_size sb
    \<and> s_inode_size (sb_check_last_group count sb) = s_inode_size sb
    \<and> s_reserved_gdt_blocks (sb_check_last_group count sb) = s_reserved_gdt_blocks sb
    \<and> s_backup_bg0 (sb_check_last_group count sb) = s_backup_bg0 sb
    \<and> s_backup_bg1 (sb_check_last_group count sb) = s_backup_bg1 sb"
  by (simp add: sb_check_last_group_def)

lemma sb_backup_groups_select:
  "block_count (sb_backup_groups sb) = block_count sb"
  "s_log_block_size (sb_backup_groups sb) = s_log_block_size sb"
  "s_first_data_block (sb_backup_groups sb) = s_first_data_block sb"
  "s_blocks_per_group (sb_backup_groups sb) = s_blocks_per_group sb"
  "s_desc_size (sb_backup_groups sb) = s_desc_size sb"
  "s_inode_size (sb_backup_groups sb) = s_inode_size sb"
  "s_reserved_gdt_blocks (sb_backup_groups sb) = s_reserved_gdt_blocks sb"
  "s_backup_bg0 (sb_backup_groups sb) = (if 1 < block_group_count sb then 1 else s_backup_bg0 sb)"
  "s_backup_bg1 (sb_backup_groups sb) =
     (if 2 < block_group_count sb then block_group_count sb - 1 else s_backup_bg1 sb)"
  by (auto simp: sb_backup_groups_def Let_def block_group_count_block_count word_less_nat_alt)

lemma init_ext4_sb_fields:
  assumes "init_ext4_sb now uuid g = Inr sb"
  defines "bs \<equiv> boot_sector g"
  shows "1024 \<le> bytes_per_block bs
    \<and> (\<exists>r. log2 (bytes_per_block bs) = Inr r \<and> s_log_block_size sb = r - EXT4_BLOCK_SIZE_MIN_LOG2)
    \<and> block_count sb = partition_blocks g
    \<and> s_blocks_per_group sb = min_u32 (bytes_per_block bs * 8) EXT4_MAX_BLOCKS_PER_GROUP
    \<and> s_first_data_block sb = (if bytes_per_block bs = 1024 then 1 else 0)
    \<and> s_desc_size sb = EXT4_64BIT_DESC_SIZE \<and> s_inode_size sb = EXT4_INODE_SIZE
    \<and> s_reserved_gdt_blocks sb = 0
    \<and> s_inodes_per_group sb = min_u32 (s_blocks_per_group sb * bytes_per_block bs div EXT4_INODE_RATIO)
        (bytes_per_block bs * 8)
    \<and> s_inodes_count sb = s_inodes_per_group sb * block_group_count sb
    \<and> s_backup_bg0 sb = (if 1 < block_group_count sb then 1 else 0)
    \<and> s_backup_bg1 sb = (if 2 < block_group_count sb then block_group_count sb - 1 else 0)"
proof -
  let ?b = "bytes_per_block bs" and ?n = "partition_blocks g"
  from assms(1) obtain label r where min: "1024 \<le> ?b" and r: "log2 ?b = Inr r"
    and sb: "sb = sb_inode_fields ?b (sb_backup_groups (sb_check_last_group ?n
      (sb_block_fields ?b r ?n (sb_constant_fields now uuid label))))"
    by (auto simp: init_ext4_sb_def Let_def bs_def bytes_per_block_def [symmetric]
        partition_blocks_def [symmetric] elim!: bind_resE split: if_splits)
  define sb1 where "sb1 = sb_block_fields ?b r ?n (sb_constant_fields now uuid label)"
  have sb1: "block_count sb1 = ?n" "s_log_block_size sb1 = r - EXT4_BLOCK_SIZE_MIN_LOG2"
    "s_blocks_per_group sb1 = min_u32 (?b * 8) EXT4_MAX_BLOCKS_PER_GROUP"
    "s_first_data_block sb1 = (if ?b = 1024 then 1 else 0)"
    "s_desc_size sb1 = EXT4_64BIT_DESC_SIZE" "s_inode_size sb1 = EXT4_INODE_SIZE"
    "s_reserved_gdt_blocks sb1 = 0" "s_backup_bg0 sb1 = 0" "s_backup_bg1 sb1 = 0"
    by (simp_all add: sb1_def sb_block_fields_def Let_def sb_constant_fields_def zero_super_block_def)
  note sb2 = sb_check_last_group_noop [OF sb1(1)]
  define sb3 where "sb3 = sb_backup_groups (sb_check_last_group ?n sb1)"
  note sb3 = sb_backup_groups_select [of "sb_check_last_group ?n sb1", folded sb3_def]
  have "sb = sb_inode_fields ?b sb3" by (simp add: sb sb3_def sb1_def)
  then show ?thesis
    using min r sb1 sb2 sb3
    by (simp add: sb_inode_fields_def Let_def block_group_count_block_count)
qed

lemma init_ext4_sb_geometry_spec:
  assumes "init_ext4_sb now uuid g = Inr sb" and "bytes_per_block (boot_sector g) = push_bit k 1"
    and "k < 32"
  shows "block_size sb = bytes_per_block (boot_sector g) \<and> block_count sb = partition_blocks g
    \<and> (2 < block_group_count sb \<longrightarrow>
        block_group_has_sb_copy sb 0 \<and> block_group_has_sb_copy sb 1
        \<and> block_group_has_sb_copy sb (block_group_count sb - 1))"
proof -
  let ?b = "bytes_per_block (boot_sector g)"
  note f = init_ext4_sb_fields [OF assms(1)]
  from f obtain r where r: "log2 ?b = Inr r" and lg: "s_log_block_size sb = r - EXT4_BLOCK_SIZE_MIN_LOG2"
    by blast
  have "(2::nat) ^ k < 2 ^ 32" using assms(3) by (intro power_strict_increasing) simp_all
  then have ub: "unat ?b = 2 ^ k"
    by (simp only: assms(2) unsigned_push_bit_eq unsigned_1 push_bit_nat_eq mult_1 len_num1 len_bit0)
      (simp add: take_bit_nat_eq_self assms(3))
  from log2_bounds [OF r] have "(2::nat) ^ unat r \<le> 2 ^ k" and "(2::nat) ^ k < 2 ^ (unat r + 1)"
    by (simp_all only: ub)
  then have "unat r \<le> k" and "k < unat r + 1"
    by (simp_all only: power_increasing_iff power_strict_increasing_iff rel_simps)
  then have "unat r = k" by linarith
  then have "block_size sb = ?b" using assms(2) by (simp add: block_size_def lg)
  then show ?thesis using f by (auto simp: block_group_has_sb_copy_def word_less_nat_alt)
qed

text \<open>
  C34. \<open>init_ext4_sb\<close> turns every cluster into one block: for a cluster size that is a power
  of two the block size is the cluster size, the block count is the number of whole
  clusters of the partition, also when the last block group is shorter than the comment
  in the source wants it to be, and the second backup is in the last group.
\<close>

theorem init_ext4_sb_geometry:
  assumes "init_ext4_sb now uuid g = Inr sb" and "bytes_per_block (boot_sector g) = push_bit k 1"
    and "k < 32"
  shows "block_size sb = bytes_per_block (boot_sector g) \<and> block_count sb = partition_blocks g
    \<and> (2 < block_group_count sb \<longrightarrow>
        block_group_has_sb_copy sb 0 \<and> block_group_has_sb_copy sb 1
        \<and> block_group_has_sb_copy sb (block_group_count sb - 1))"
  by (rule init_ext4_sb_geometry_spec [OF assms])

subsection \<open>A sample file system\<close>

text \<open>The superblock built for the sample partition: 66056 blocks of 4096 bytes in three groups.\<close>

definition sample_uuid :: "u8 list" where
  "sample_uuid = replicate 16 0"

definition sample_super_block :: ext4_super_block where
  "sample_super_block = \<lparr>
     s_inodes_count = 24576, s_blocks_count_lo = 66056, s_free_blocks_count_lo = 0,
     s_free_inodes_count = 0, s_first_data_block = 0, s_log_block_size = 2,
     s_log_cluster_size = 2, s_blocks_per_group = 32768, s_clusters_per_group = 32768,
     s_inodes_per_group = 8192, s_max_mnt_count = 0xFFFF, s_magic = 0xEF53, s_state = 1, s_errors = 1,
     s_rev_level = 1, s_first_ino = 11, s_inode_size = 256, s_block_group_nr = 0,
     s_feature_compat = 0x200, s_feature_incompat = 0xC0, s_uuid = sample_uuid,
     s_volume_name = [0x44, 0x41, 0x54, 0x41, 0, 0, 0, 0, 0, 0, 0, 0, 0, 0, 0, 0],
     s_reserved_gdt_blocks = 0, s_desc_size = 64,
     s_mkfs_time = 1000, s_blocks_count_hi = 0, s_free_blocks_count_hi = 0,
     s_backup_bg0 = 1, s_backup_bg1 = 2 \<rparr>"

lemmas sample_defs = sample_super_block_def sample_globals_def sample_boot_sector_def

lemmas layout_defs =
  block_count_def block_size_def block_group_count_def gdt_block_count_def block_group_start_def
  block_group_block_count_def inode_table_blocks_def block_group_has_sb_copy_def
  block_group_overhead_copy_def block_group_overhead_def ceildiv_u32_def ceildiv_u64_def min_u32_def
  from_lo_hi_32_def

lemma sample_volume_label: "read_volume_label sample_globals = Inr [0x44, 0x41, 0x54, 0x41, 0]"
  by (simp add: read_volume_label_def sample_defs label_end.simps)

lemma sample_log2: "log2 4096 = Inr 12"
  by code_simp

lemma sample_init_ext4_sb: "init_ext4_sb 1000 sample_uuid sample_globals = Inr sample_super_block"
proof -
  have b: "ucast (bs_bytes_per_sector (boot_sector sample_globals))
      * ucast (bs_sectors_per_cluster (boot_sector sample_globals)) = (4096 :: u32)"
    and n: "ucast (bs_bytes_per_sector (boot_sector sample_globals)) * ucast (sector_count sample_globals)
      div 4096 = (66056 :: u64)"
    by (simp_all add: sample_globals_def sample_boot_sector_def sector_count_def)
  show ?thesis
    by (simp add: init_ext4_sb_def Let_def b n sample_volume_label sample_log2)
      (simp add: sb_inode_fields_def sb_backup_groups_def sb_check_last_group_def sb_block_fields_def
        sb_constant_fields_def zero_super_block_def sample_super_block_def Let_def layout_defs
        set_blocks_count_def set_lo_hi_32_32_def ext4_constants replicate_sample)
qed

lemma sample_layout:
  "block_group_count sample_super_block = 3" "block_size sample_super_block = 4096"
  "data_cluster_count sample_globals = 65925"
  "block_group_overhead sample_super_block 0 = 516" "block_group_overhead sample_super_block 1 = 516"
  "block_group_overhead sample_super_block 2 = 516"
  "block_group_start sample_super_block 0 = 0" "block_group_start sample_super_block 1 = 32768"
  "block_group_start sample_super_block 2 = 65536" "inode_table_blocks sample_super_block = 512"
  by (simp_all add: layout_defs data_cluster_count_def sector_count_def sample_defs ext4_constants Let_def
      FAT_START_INDEX_def)

lemma less_three_cases: "(i :: u32) < 3 \<Longrightarrow> i = 0 \<or> i = 1 \<or> i = 2"
proof -
  assume "i < 3"
  then have "unat i < 3" by (simp add: word_less_nat_alt)
  then have "unat i = unat (0 :: u32) \<or> unat i = unat (1 :: u32) \<or> unat i = unat (2 :: u32)" by auto
  then show ?thesis by (simp only: word_unat_eq_iff)
qed

lemma sample_layout_fits: "layout_fits sample_globals sample_super_block 3"
proof -
  have "unat (block_group_overhead sample_super_block i) \<le> 32768
      \<and> unat (block_group_start sample_super_block i) + unat (block_group_overhead sample_super_block i) + 2
        \<le> unat (first_data_block sample_globals) + unat (data_cluster_count sample_globals)"
    if "i < 3" for i
    using less_three_cases [OF that] by (auto simp: sample_layout sample_first_data_block)
  then show ?thesis
    by (simp add: layout_fits_def) (simp add: sample_super_block_def)
qed

definition sample_meta_extents :: "fat_extent list" where
  "sample_meta_extents = [
     \<lparr>fe_logical_start = 0, fe_length = 383, fe_physical_start = 2\<rparr>,
     \<lparr>fe_logical_start = 0, fe_length = 516, fe_physical_start = 32637\<rparr>,
     \<lparr>fe_logical_start = 0, fe_length = 516, fe_physical_start = 65405\<rparr>,
     \<lparr>fe_logical_start = 0, fe_length = 1, fe_physical_start = 65925\<rparr>]"

lemma sample_create_meta_extents:
  "create_block_group_meta_extents sample_globals sample_super_block 3 = Inr sample_meta_extents"
  by (simp add: create_block_group_meta_extents_def block_group_meta_extent_def sample_layout upt_rec
      e4blk_to_fat_cl_def sample_first_data_block sample_meta_extents_def FAT_START_INDEX_def)

theorem block_groups_tile_witness:
  "\<exists>!i. i < 3 \<and> unat (block_group_start sample_super_block i) \<le> 40000
    \<and> 40000 < unat (block_group_start sample_super_block i)
        + unat (block_group_block_count sample_super_block i)"
proof -
  have "unat (block_count sample_super_block) = 66056" "unat (s_blocks_per_group sample_super_block) = 32768"
    "unat (s_first_data_block sample_super_block) = 0"
    by (simp_all add: layout_defs sample_super_block_def)
  then show ?thesis using block_groups_tile [of sample_super_block 40000] by (simp add: sample_layout)
qed

theorem block_group_meta_extent_covers_witness:
  "extent_covers \<lparr>fe_logical_start = 0, fe_length = 516, fe_physical_start = 32637\<rparr> (unat (32637 :: u32)) \<longleftrightarrow>
    unat (block_group_start sample_super_block 1) \<le> unat (fat_cl_to_e4blk sample_globals 32637)
    \<and> unat (fat_cl_to_e4blk sample_globals 32637)
      < unat (block_group_start sample_super_block 1) + unat (block_group_overhead sample_super_block 1)"
proof (rule block_group_meta_extent_covers)
  show "block_group_meta_extent sample_globals sample_super_block 1
      = Inr \<lparr>fe_logical_start = 0, fe_length = 516, fe_physical_start = 32637\<rparr>"
    by (simp add: block_group_meta_extent_def sample_layout e4blk_to_fat_cl_def sample_first_data_block
        FAT_START_INDEX_def)
qed (simp_all add: sample_layout sample_first_data_block)

theorem meta_extents_reserve_metadata_witness:
  "length sample_meta_extents = unat (3 :: u32) + 1
    \<and> fe_physical_start (last sample_meta_extents) = data_cluster_count sample_globals
    \<and> ((\<exists>k < unat (3 :: u32). extent_covers (sample_meta_extents ! k) (unat (32637 :: u32))) \<longleftrightarrow>
        (\<exists>i < 3. unat (block_group_start sample_super_block i) \<le> unat (fat_cl_to_e4blk sample_globals 32637)
          \<and> unat (fat_cl_to_e4blk sample_globals 32637)
            < unat (block_group_start sample_super_block i) + unat (block_group_overhead sample_super_block i)))"
  by (rule meta_extents_reserve_metadata [OF sample_create_meta_extents])
    (auto simp: sample_layout sample_first_data_block dest!: less_three_cases)

theorem init_ext4_sb_geometry_witness:
  "block_size sample_super_block = 4096 \<and> block_count sample_super_block = partition_blocks sample_globals
    \<and> block_group_has_sb_copy sample_super_block 2"
proof -
  have "bytes_per_block (boot_sector sample_globals) = push_bit 12 1"
    by (simp add: bytes_per_block_def sample_defs)
  from init_ext4_sb_geometry [OF sample_init_ext4_sb this] show ?thesis
    by (simp add: sample_layout)
qed

end
