(* ===== verification/Extent_Allocator.thy ===== *)
theory Extent_Allocator
  imports Ext4_Super
begin

unbundle bit_operations_syntax

section \<open>extent-allocator.h and extent-allocator.cpp\<close>

text \<open>
  The allocator hands out free clusters in ascending order while it steps over the blocked
  extents (the metadata areas of the future ext4 block groups). Its global variables
  \<open>allocator\<close> and \<open>allocation_bitmap\<close> are the record \<open>alloc_state\<close>; the pointer
  \<open>blocked_extent_current\<close> is an index into \<open>blocked_extents\<close>, whose entry at
  \<open>blocked_extent_count\<close> is the terminator behind the last data cluster. Array accesses
  outside the arrays are \<open>Out_Of_Bounds\<close>, the exit of a full file system is \<open>Fs_Too_Small\<close>.
\<close>

record extent_allocator =
  index_in_fat :: u32
  blocked_extent_count :: u32
  blocked_extents :: "fat_extent list"
  blocked_extent_current :: nat

record alloc_state =
  allocator :: extent_allocator
  allocation_bitmap :: "u8 list"

subsection \<open>The allocation bitmap\<close>

definition mark_cluster :: "u8 list \<Rightarrow> nat \<Rightarrow> u8 list" where
  "mark_cluster bm c = bm[c div 8 := bm ! (c div 8) OR push_bit (c mod 8) 1]"

definition set_used :: "u32 \<Rightarrow> alloc_state \<Rightarrow> alloc_state result" where
  "set_used cluster_no s =
     (let byte = cluster_no div 8; bm = allocation_bitmap s
      in if unat byte < length bm
         then Inr (s\<lparr>allocation_bitmap := bm[unat byte := bm ! unat byte OR push_bit (unat (cluster_no mod 8)) 1]\<rparr>)
         else Inl Out_Of_Bounds)"

definition is_free :: "u32 \<Rightarrow> alloc_state \<Rightarrow> bool result" where
  "is_free cluster_no s =
     (let byte = cluster_no div 8; bm = allocation_bitmap s
      in if unat byte < length bm
         then Inr (\<not> (1 AND drop_bit (unat (cluster_no mod 8)) (bm ! unat byte) \<noteq> 0))
         else Inl Out_Of_Bounds)"

fun for_clusters :: "(u32 \<Rightarrow> alloc_state \<Rightarrow> alloc_state result) \<Rightarrow> nat list \<Rightarrow> alloc_state \<Rightarrow> alloc_state result" where
  "for_clusters f [] s = Inr s"
| "for_clusters f (c # cs) s = bind_res (f (word_of_nat c) s) (for_clusters f cs)"

definition create_allocation_bitmap :: "fat_globals \<Rightarrow> memory \<Rightarrow> alloc_state \<Rightarrow> alloc_state result" where
  "create_allocation_bitmap g m s =
     (let bitmap_size = (data_cluster_count g - 1) div 8 + 1;
          s0 = s\<lparr>allocation_bitmap := replicate (unat bitmap_size) 0\<rparr>
      in bind_res (for_clusters set_used [0..<unat FAT_START_INDEX] s0)
           (for_clusters
              (\<lambda>c s. if \<not> is_free_cluster (load_u32 m (fat_entry g c)) then set_used c s else Inr s)
              [unat FAT_START_INDEX..<unat (data_cluster_count g)]))"

subsection \<open>init_extent_allocator\<close>

text \<open>The C library's \<open>qsort\<close> with this comparison function, as a stable insertion sort.\<close>

definition extent_sort_compare :: "fat_extent \<Rightarrow> fat_extent \<Rightarrow> int" where
  "extent_sort_compare eA eB = sint (fe_physical_start eA - fe_physical_start eB)"

fun insert_by :: "('a \<Rightarrow> 'a \<Rightarrow> int) \<Rightarrow> 'a \<Rightarrow> 'a list \<Rightarrow> 'a list" where
  "insert_by cmp x [] = [x]"
| "insert_by cmp x (y # ys) = (if 0 < cmp x y then y # insert_by cmp x ys else x # y # ys)"

definition qsort :: "('a \<Rightarrow> 'a \<Rightarrow> int) \<Rightarrow> 'a list \<Rightarrow> 'a list" where
  "qsort cmp xs = foldr (insert_by cmp) xs []"

definition init_extent_allocator ::
  "fat_globals \<Rightarrow> memory \<Rightarrow> fat_extent list \<Rightarrow> u32 \<Rightarrow> alloc_state \<Rightarrow> alloc_state result" where
  "init_extent_allocator g m blocked count s =
     bind_res (create_allocation_bitmap g m s) (\<lambda>s1.
       Inr (s1\<lparr>allocator := \<lparr>
         index_in_fat = 0,
         blocked_extent_count = count,
         blocked_extents = qsort extent_sort_compare (take (unat count) blocked) @ drop (unat count) blocked,
         blocked_extent_current = 0\<rparr>\<rparr>))"

subsection \<open>allocate_extent\<close>

definition fs_is_full :: "alloc_state \<Rightarrow> bool" where
  "fs_is_full s \<longleftrightarrow> unat (blocked_extent_count (allocator s)) < blocked_extent_current (allocator s)"

definition can_be_used :: "alloc_state \<Rightarrow> (bool \<times> alloc_state) result" where
  "can_be_used s =
     (let s1 = s\<lparr>allocator := (allocator s)\<lparr>index_in_fat := index_in_fat (allocator s) + 1\<rparr>\<rparr>;
          cur = blocked_extent_current (allocator s1)
      in if length (blocked_extents (allocator s1)) \<le> cur then Inl Out_Of_Bounds
         else
           (let e = blocked_extents (allocator s1) ! cur
            in if index_in_fat (allocator s1) < fe_physical_start e
               then bind_res (is_free (index_in_fat (allocator s1)) s1) (\<lambda>b. Inr (b, s1))
               else
                 (let s2 = s1\<lparr>allocator := (allocator s1)\<lparr>
                        index_in_fat := fe_physical_start e + ucast (fe_length e),
                        blocked_extent_current := cur + 1\<rparr>\<rparr>
                  in if fs_is_full s2 then Inl Fs_Too_Small else Inr (False, s2))))"

text \<open>
  Every call of \<open>can_be_used\<close> either moves to the next blocked extent or increments the
  index below the start of the current one, so both loops of \<open>allocate_extent\<close> end.
\<close>

definition alloc_measure :: "alloc_state \<Rightarrow> nat \<times> nat" where
  "alloc_measure s =
     (length (blocked_extents (allocator s)) - blocked_extent_current (allocator s),
      2 ^ 32 - unat (index_in_fat (allocator s) + 1))"

lemma can_be_used_decreases:
  assumes "can_be_used s = Inr (b, s')"
  shows "(alloc_measure s', alloc_measure s) \<in> less_than <*lex*> less_than"
proof -
  let ?i = "index_in_fat (allocator s) + 1"
  have "4294967296 - unat (?i + 1) < 4294967296 - unat ?i" if "?i < p" for p :: u32
  proof -
    have "unat ?i < unat p" using that by (simp add: word_less_nat_alt)
    then have "unat ?i + 1 < 4294967296"
      using unat_u32_bound [of p] by linarith
    then have "unat (?i + 1) = unat ?i + 1" using unat_add_no_overflow [of ?i 1] by simp
    with \<open>unat ?i + 1 < 4294967296\<close> show ?thesis by linarith
  qed
  then show ?thesis
    using assms by (auto simp: can_be_used_def alloc_measure_def Let_def elim!: bind_resE split: if_splits)
qed

function skip_unusable :: "alloc_state \<Rightarrow> alloc_state result" where
  "skip_unusable s =
     bind_res (can_be_used s) (\<lambda>r. if fst r then Inr (snd r) else skip_unusable (snd r))"
  by pat_completeness auto
termination
  by (relation "inv_image (less_than <*lex*> less_than) alloc_measure")
     (auto dest: can_be_used_decreases)

declare skip_unusable.simps [simp del]

lemma set_used_measure: "set_used c s = Inr s' \<Longrightarrow> alloc_measure s' = alloc_measure s"
  by (auto simp: set_used_def Let_def alloc_measure_def split: if_splits)

function extend_extent ::
  "u16 \<Rightarrow> fat_extent \<Rightarrow> alloc_state \<Rightarrow> (fat_extent \<times> alloc_state) result" where
  "extend_extent max_length e s =
     (if fe_length e < max_length
      then bind_res (can_be_used s) (\<lambda>r.
             if fst r
             then bind_res (set_used (index_in_fat (allocator (snd r))) (snd r)) (\<lambda>s2.
                    extend_extent max_length
                      (e\<lparr>fe_length := ucast (index_in_fat (allocator (snd r)) - fe_physical_start e + 1)\<rparr>) s2)
             else Inr (e, snd r))
      else Inr (e, s))"
  by pat_completeness auto
termination
  by (relation "inv_image (less_than <*lex*> less_than) (\<lambda>(n, e, s). alloc_measure s)")
     (auto simp del: in_lex_prod dest!: can_be_used_decreases set_used_measure)

declare extend_extent.simps [simp del]

definition allocate_extent :: "u16 \<Rightarrow> alloc_state \<Rightarrow> (fat_extent \<times> alloc_state) result" where
  "allocate_extent max_length s =
     bind_res (skip_unusable s) (\<lambda>s1.
       let i = index_in_fat (allocator s1);
           e = \<lparr>fe_logical_start = 0, fe_length = 1, fe_physical_start = i\<rparr>
       in bind_res (set_used i s1) (extend_extent max_length e))"

subsection \<open>Looking up blocked extents\<close>

text \<open>
  The binary search may run forever on more than \<open>2 ^ 31\<close> extents, where \<open>begin+end\<close>
  wraps: not returning is \<open>None\<close>.
\<close>

partial_function (option) search_blocked_extent ::
  "fat_extent list \<Rightarrow> u32 \<Rightarrow> u32 \<Rightarrow> u32 \<Rightarrow> u32 result option" where
  "search_blocked_extent es physical_address begin0 end0 =
     (if begin0 < end0 then
        (let mid = (begin0 + end0) div 2
         in if length es \<le> unat mid then Some (Inl Out_Of_Bounds)
            else if fe_physical_start (es ! unat mid) + ucast (fe_length (es ! unat mid)) < physical_address
            then search_blocked_extent es physical_address (mid + 1) end0
            else search_blocked_extent es physical_address begin0 mid)
      else Some (Inr begin0))"

definition find_first_blocked_extent :: "u32 \<Rightarrow> alloc_state \<Rightarrow> u32 result option" where
  "find_first_blocked_extent physical_address s =
     search_blocked_extent (blocked_extents (allocator s)) physical_address 0
       (blocked_extent_count (allocator s))"

text \<open>The updated \<open>i\<close> and the extent the returned pointer points to, if any.\<close>

definition find_next_blocked_extent ::
  "u32 \<Rightarrow> u32 \<Rightarrow> alloc_state \<Rightarrow> (u32 \<times> fat_extent option) result" where
  "find_next_blocked_extent i physical_end s =
     (if blocked_extent_count (allocator s) \<le> i then Inr (i, None)
      else if length (blocked_extents (allocator s)) \<le> unat i then Inl Out_Of_Bounds
      else
        (let blocked_extent = blocked_extents (allocator s) ! unat i
         in if physical_end < fe_physical_start blocked_extent then Inr (i + 1, None)
            else Inr (i + 1, Some blocked_extent)))"

subsection \<open>The bitmap operations on bits\<close>

definition cluster_free :: "alloc_state \<Rightarrow> nat \<Rightarrow> bool" where
  "cluster_free s c \<longleftrightarrow> c < 8 * length (allocation_bitmap s)
     \<and> \<not> bit (allocation_bitmap s ! (c div 8)) (c mod 8)"

lemma div_8_less: "c < 8 * n \<longleftrightarrow> c div 8 < (n :: nat)"
  by (simp add: div_less_iff_less_mult mult.commute)

interpretation alloc_bitmap: bitset "\<lambda>bm c. c < 8 * length bm" "\<lambda>bm c. bit (bm ! (c div 8)) (c mod 8)"
    mark_cluster
proof
  fix bm :: "u8 list" and i j
  assume i: "i < 8 * length bm"
  show "bit (mark_cluster bm i ! (j div 8)) (j mod 8) \<longleftrightarrow> j = i \<or> bit (bm ! (j div 8)) (j mod 8)"
  proof (cases "j div 8 = i div 8")
    case True
    then have "j mod 8 = i mod 8 \<longleftrightarrow> j = i" using div_mult_mod_eq [of j 8] div_mult_mod_eq [of i 8] by metis
    moreover have "j mod 8 < 8" by simp
    ultimately show ?thesis
      using i by (auto simp: mark_cluster_def True div_8_less bit_simps)
  next
    case False
    then show ?thesis by (auto simp: mark_cluster_def nth_list_update)
  qed
qed (simp add: mark_cluster_def)

lemma length_mark_cluster [simp]: "length (mark_cluster bm c) = length bm"
  by (simp add: mark_cluster_def)

lemma set_used_eq:
  "set_used c s = (if unat c < 8 * length (allocation_bitmap s)
     then Inr (s\<lparr>allocation_bitmap := mark_cluster (allocation_bitmap s) (unat c)\<rparr>) else Inl Out_Of_Bounds)"
  by (simp add: set_used_def Let_def div_8_less mark_cluster_def unat_div unat_mod)

lemma is_free_eq:
  "is_free c s = (if unat c < 8 * length (allocation_bitmap s)
     then Inr (cluster_free s (unat c)) else Inl Out_Of_Bounds)"
  by (simp add: is_free_def Let_def cluster_free_def div_8_less unat_div unat_mod one_and_eq
      bit_iff_odd_drop_bit odd_iff_mod_2_eq_one)

lemma cluster_free_mark:
  "c < 8 * length (allocation_bitmap s) \<Longrightarrow>
    cluster_free (s\<lparr>allocation_bitmap := mark_cluster (allocation_bitmap s) c\<rparr>) d
      \<longleftrightarrow> cluster_free s d \<and> d \<noteq> c"
  by (auto simp: cluster_free_def alloc_bitmap.test_mark)

subsection \<open>create_allocation_bitmap records the FAT\<close>

lemma for_clusters_set_used:
  assumes "\<And>c. c \<in> set cs \<Longrightarrow> c < 8 * length (allocation_bitmap s) \<and> c < 2 ^ 32"
    and "\<And>c s. f c s = (if P c then set_used c s else Inr s)"
  shows "for_clusters f cs s =
    Inr (s\<lparr>allocation_bitmap := foldl mark_cluster (allocation_bitmap s) (filter (\<lambda>c. P (word_of_nat c)) cs)\<rparr>)"
  using assms(1)
proof (induction cs arbitrary: s)
  case (Cons c cs)
  have "c < 2 ^ LENGTH(32)" using Cons.prems [of c] by simp
  then have "unat (word_of_nat c :: u32) = c" by (simp only: unat_of_nat mod_less)
  then have "f (word_of_nat c) s = Inr (if P (word_of_nat c)
      then s\<lparr>allocation_bitmap := mark_cluster (allocation_bitmap s) c\<rparr> else s)"
    using Cons.prems [of c] by (simp add: assms(2) set_used_eq)
  then show ?case using Cons.prems by (auto simp: Cons.IH)
qed simp

lemma create_allocation_bitmap_free:
  assumes two_le: "2 \<le> unat (data_cluster_count g)"
  shows "\<exists>s'. create_allocation_bitmap g m s = Inr s'
    \<and> (\<forall>c. cluster_free s' c \<and> c < unat (data_cluster_count g) \<longleftrightarrow>
        2 \<le> c \<and> c < unat (data_cluster_count g) \<and> is_free_cluster (load_u32 m (fat_entry g (word_of_nat c))))
    \<and> unat (data_cluster_count g) \<le> 8 * length (allocation_bitmap s')
    \<and> allocator s' = allocator s"
proof -
  let ?d = "unat (data_cluster_count g)"
  have size: "unat ((data_cluster_count g - 1) div 8 + 1) = (?d - 1) div 8 + 1"
  proof -
    have "unat (data_cluster_count g - 1) = ?d - 1"
      using two_le by (subst unat_sub_no_underflow) simp_all
    then have q: "unat ((data_cluster_count g - 1) div 8) = (?d - 1) div 8" by (simp add: unat_div)
    have "(?d - 1) div 8 \<le> ?d" by simp
    moreover have "(?d - 1) div 8 < 4294967295" using unat_u32_bound [of "data_cluster_count g"] by linarith
    ultimately show ?thesis using q by (subst unat_add_no_overflow) simp_all
  qed
  define bm0 where "bm0 = replicate ((?d - 1) div 8 + 1) (0 :: u8)"
  have len: "?d \<le> 8 * length bm0" using two_le by (simp add: bm0_def)
  have zero: "\<not> bit (bm0 ! (c div 8)) (c mod 8)" if "c < ?d" for c
  proof -
    have "c div 8 < length bm0" using that len by (simp add: div_8_less [symmetric])
    then have "bm0 ! (c div 8) = 0" unfolding bm0_def by (simp only: nth_replicate length_replicate)
    then show ?thesis by simp
  qed
  define s0 where "s0 = s\<lparr>allocation_bitmap := bm0\<rparr>"
  define P where "P = (\<lambda>c. \<not> is_free_cluster (load_u32 m (fat_entry g c)))"
  have small: "c < 2 ^ 32" if "c < ?d" for c using less_trans [OF that unat_u32_bound] by simp
  have two: "unat FAT_START_INDEX = 2" by (simp add: FAT_START_INDEX_def)
  have first: "for_clusters set_used [0..<2] s0 =
      Inr (s0\<lparr>allocation_bitmap := foldl mark_cluster bm0 [0..<2]\<rparr>)"
    using len two_le for_clusters_set_used [of "[0..<2]" s0 set_used "\<lambda>_. True"]
    by (simp add: s0_def)
  have lenf: "length (foldl mark_cluster bm cs) = length bm" for bm cs
    by (induction cs arbitrary: bm) simp_all
  define bm1 where "bm1 = foldl mark_cluster bm0 [0..<2]"
  define cs where "cs = filter (\<lambda>c. P (word_of_nat c)) [2..<?d]"
  have "for_clusters (\<lambda>c s. if P c then set_used c s else Inr s) [2..<?d] (s0\<lparr>allocation_bitmap := bm1\<rparr>)
      = Inr (s0\<lparr>allocation_bitmap := foldl mark_cluster bm1 cs\<rparr>)"
    using len small
      for_clusters_set_used [of "[2..<?d]" "s0\<lparr>allocation_bitmap := bm1\<rparr>" "\<lambda>c s. if P c then set_used c s else Inr s" P]
    by (auto simp: s0_def cs_def bm1_def lenf)
  with first have s': "create_allocation_bitmap g m s = Inr (s0\<lparr>allocation_bitmap := foldl mark_cluster bm1 cs\<rparr>)"
    by (simp add: create_allocation_bitmap_def Let_def size two s0_def bm0_def bm1_def P_def)
  have l: "list_all (\<lambda>c. c < 8 * length bm1) cs" "list_all (\<lambda>c. c < 8 * length bm0) [0..<2]"
    using len two_le by (auto simp: list_all_iff cs_def bm1_def lenf)
  have b1: "bit (bm1 ! (c div 8)) (c mod 8) \<longleftrightarrow> c \<in> set [0..<2] \<or> bit (bm0 ! (c div 8)) (c mod 8)" for c
    unfolding bm1_def by (rule alloc_bitmap.test_foldl [OF l(2)])
  have b2: "bit (foldl mark_cluster bm1 cs ! (c div 8)) (c mod 8)
      \<longleftrightarrow> c \<in> set cs \<or> bit (bm1 ! (c div 8)) (c mod 8)" for c
    by (rule alloc_bitmap.test_foldl [OF l(1)])
  have setcs: "c \<in> set cs \<longleftrightarrow> 2 \<le> c \<and> c < ?d \<and> P (word_of_nat c)" for c
    by (auto simp: cs_def)
  have lenb: "length (foldl mark_cluster bm1 cs) = length bm0" by (simp add: bm1_def lenf)
  have bits: "cluster_free (s0\<lparr>allocation_bitmap := foldl mark_cluster bm1 cs\<rparr>) c \<and> c < ?d \<longleftrightarrow>
      2 \<le> c \<and> c < ?d \<and> is_free_cluster (load_u32 m (fat_entry g (word_of_nat c)))" for c
    using len zero [of c] by (auto simp: cluster_free_def lenb b1 b2 setcs P_def)
  show ?thesis
    by (intro exI conjI allI, rule s', rule bits) (use len in \<open>simp_all add: s0_def lenb\<close>)
qed

subsection \<open>The allocator invariant and one step\<close>

definition index :: "alloc_state \<Rightarrow> nat" where
  "index s = unat (index_in_fat (allocator s))"

definition blocked_start :: "alloc_state \<Rightarrow> nat \<Rightarrow> nat" where
  "blocked_start s k = unat (fe_physical_start (blocked_extents (allocator s) ! k))"

definition blocked_end :: "alloc_state \<Rightarrow> nat \<Rightarrow> nat" where
  "blocked_end s k = extent_end (blocked_extents (allocator s) ! k)"

definition extent_count :: "alloc_state \<Rightarrow> nat" where
  "extent_count s = unat (blocked_extent_count (allocator s))"

text \<open>
  The blocked extents are in ascending order and within the bitmap, those before the
  current one end at or before the index, and the current one starts at or after it.
\<close>

definition alloc_wf :: "alloc_state \<Rightarrow> bool" where
  "alloc_wf s \<longleftrightarrow>
     length (blocked_extents (allocator s)) = extent_count s + 1
     \<and> blocked_extent_current (allocator s) \<le> extent_count s
     \<and> extents_ascending (blocked_extents (allocator s))
     \<and> list_all (\<lambda>e. unat (fe_physical_start e) \<le> 8 * length (allocation_bitmap s)
                   \<and> unat (fe_physical_start e) + 1 < 2 ^ 32) (blocked_extents (allocator s))
     \<and> list_all (\<lambda>e. extent_end e \<le> index s)
         (take (blocked_extent_current (allocator s)) (blocked_extents (allocator s)))
     \<and> index s \<le> blocked_start s (blocked_extent_current (allocator s))"

text \<open>
  The clusters the allocator can still return: free, behind the index, in front of the
  terminator, and neither in a blocked extent nor the cluster right behind one, which the
  increment in \<open>can_be_used\<close> steps over.
\<close>

definition stepped_over :: "alloc_state \<Rightarrow> nat \<Rightarrow> bool" where
  "stepped_over s c \<longleftrightarrow> list_ex (\<lambda>e. unat (fe_physical_start e) \<le> c \<and> c \<le> extent_end e)
     (take (extent_count s) (blocked_extents (allocator s)))"

definition usable :: "alloc_state \<Rightarrow> nat \<Rightarrow> bool" where
  "usable s c \<longleftrightarrow> index s < c \<and> c < blocked_start s (extent_count s)
     \<and> cluster_free s c \<and> \<not> stepped_over s c"

text \<open>From one allocator state to a later one.\<close>

definition same_setup :: "alloc_state \<Rightarrow> alloc_state \<Rightarrow> bool" where
  "same_setup s s' \<longleftrightarrow> blocked_extents (allocator s') = blocked_extents (allocator s)
     \<and> blocked_extent_count (allocator s') = blocked_extent_count (allocator s)
     \<and> length (allocation_bitmap s') = length (allocation_bitmap s)"

lemma same_setup_refl [simp]: "same_setup s s"
  and same_setup_trans: "same_setup s s' \<Longrightarrow> same_setup s' s'' \<Longrightarrow> same_setup s s''"
  by (simp_all add: same_setup_def)

lemma same_setup_blocked:
  assumes "same_setup s s'"
  shows "blocked_start s' k = blocked_start s k" "blocked_end s' k = blocked_end s k"
    "extent_count s' = extent_count s" "stepped_over s' c = stepped_over s c"
  using assms by (simp_all add: same_setup_def blocked_start_def blocked_end_def extent_count_def
      stepped_over_def)

lemma alloc_wf_extents:
  assumes "alloc_wf s" and "k \<le> extent_count s"
  shows "blocked_start s k \<le> 8 * length (allocation_bitmap s)" "blocked_start s k + 1 < 2 ^ 32"
    and "j < k \<Longrightarrow> blocked_end s j \<le> blocked_start s k"
  using assms
  by (auto simp: alloc_wf_def blocked_start_def blocked_end_def extents_ascending_def
      list_all_length sorted_wrt_iff_nth_less)

lemma alloc_wf_current:
  assumes "alloc_wf s"
  defines "k \<equiv> blocked_extent_current (allocator s)"
  shows "k \<le> extent_count s" "length (blocked_extents (allocator s)) = extent_count s + 1"
    "index s \<le> blocked_start s k" "j < k \<Longrightarrow> blocked_end s j \<le> index s"
  using assms by (auto simp: alloc_wf_def list_all_length blocked_end_def)

lemma stepped_over_iff:
  assumes "alloc_wf s"
  shows "stepped_over s c \<longleftrightarrow> (\<exists>k < extent_count s. blocked_start s k \<le> c \<and> c \<le> blocked_end s k)"
  using alloc_wf_current(2) [OF assms]
  by (auto simp: stepped_over_def list_ex_length blocked_start_def blocked_end_def)

lemma blocked_start_le_end: "blocked_start s k \<le> blocked_end s k"
  by (simp add: blocked_start_def blocked_end_def extent_end_def)

text \<open>What a move of the index from \<open>s\<close> to \<open>s'\<close> keeps: no usable cluster is jumped over.\<close>

definition moved :: "alloc_state \<Rightarrow> alloc_state \<Rightarrow> bool" where
  "moved s s' \<longleftrightarrow> alloc_wf s' \<and> same_setup s s' \<and> allocation_bitmap s' = allocation_bitmap s
     \<and> index s \<le> index s' \<and> (\<forall>c. usable s c \<longrightarrow> index s' \<le> c)"

lemma moved_usable: "moved s s' \<Longrightarrow> usable s' c \<longleftrightarrow> usable s c \<and> index s' < c"
  using same_setup_blocked [of s s']
  by (auto simp: moved_def usable_def cluster_free_def)

lemma can_be_used_free:
  assumes wf: "alloc_wf s" and lt: "index s + 1 < blocked_start s (blocked_extent_current (allocator s))"
  defines "s1 \<equiv> s\<lparr>allocator := (allocator s)\<lparr>index_in_fat := index_in_fat (allocator s) + 1\<rparr>\<rparr>"
  shows "can_be_used s = Inr (cluster_free s (index s + 1), s1) \<and> moved s s1 \<and> index s1 = index s + 1
    \<and> (cluster_free s (index s + 1) \<longleftrightarrow> usable s (index s1))"
proof -
  let ?k = "blocked_extent_current (allocator s)"
  note cur = alloc_wf_current [OF wf] and ext = alloc_wf_extents [OF wf]
  have "index s + 1 < 4294967296" using lt ext(2) [OF cur(1)] by simp
  then have i1: "unat (index_in_fat (allocator s) + 1) = index s + 1"
    by (subst unat_add_no_overflow) (simp_all add: index_def)
  then have i: "index s1 = index s + 1" by (simp add: index_def s1_def)
  have inb: "index s + 1 < 8 * length (allocation_bitmap s)" using lt ext(1) [OF cur(1)] by linarith
  have can: "can_be_used s = Inr (cluster_free s (index s + 1), s1)"
  proof -
    have "\<not> length (blocked_extents (allocator s)) \<le> ?k" using cur(1,2) by simp
    moreover have "index_in_fat (allocator s) + 1 < fe_physical_start (blocked_extents (allocator s) ! ?k)"
      using lt by (simp add: word_less_nat_alt i1 blocked_start_def)
    ultimately show ?thesis
      using inb by (simp add: can_be_used_def Let_def is_free_eq i1 s1_def cluster_free_def)
  qed
  have same: "same_setup s s1" by (simp add: same_setup_def s1_def)
  have "list_all (\<lambda>e. extent_end e \<le> index s1) (take ?k (blocked_extents (allocator s)))"
    using cur(1,2,4) i by (fastforce simp: list_all_length blocked_end_def)
  then have "alloc_wf s1"
    using wf lt i unfolding alloc_wf_def by (simp add: s1_def extent_count_def blocked_start_def)
  moreover have "stepped_over s (index s + 1) = False"
  proof -
    have "\<not> (blocked_start s k \<le> index s + 1 \<and> index s + 1 \<le> blocked_end s k)" if "k < extent_count s" for k
    proof (cases "k < ?k")
      case True
      then show ?thesis using cur(4) [of k] by simp
    next
      case False
      then have "blocked_start s ?k \<le> blocked_start s k"
        using that ext(3) [of k ?k] blocked_start_le_end [of s ?k] by (cases "k = ?k") auto
      then show ?thesis using lt by simp
    qed
    then show ?thesis by (auto simp: stepped_over_iff [OF wf])
  qed
  moreover have "blocked_start s ?k \<le> blocked_start s (extent_count s)"
    using cur(1) ext(3) [of "extent_count s" ?k] blocked_start_le_end [of s ?k]
    by (cases "?k = extent_count s") auto
  ultimately show ?thesis
    using can same i lt by (auto simp: moved_def usable_def s1_def)
qed

lemma can_be_used_blocked:
  assumes wf: "alloc_wf s" and ge: "blocked_start s (blocked_extent_current (allocator s)) \<le> index s + 1"
    and more: "blocked_extent_current (allocator s) < extent_count s"
  shows "\<exists>s1. can_be_used s = Inr (False, s1) \<and> moved s s1
    \<and> index s1 = blocked_end s (blocked_extent_current (allocator s)) \<and> \<not> usable s (index s1)"
proof -
  let ?k = "blocked_extent_current (allocator s)"
  let ?e = "blocked_extents (allocator s) ! ?k"
  define s1 where "s1 = s\<lparr>allocator := (allocator s)\<lparr>
    index_in_fat := fe_physical_start ?e + ucast (fe_length ?e), blocked_extent_current := ?k + 1\<rparr>\<rparr>"
  note cur = alloc_wf_current [OF wf] and ext = alloc_wf_extents [OF wf]
  have next_start: "blocked_end s ?k \<le> blocked_start s (?k + 1)" using more ext(3) [of "?k + 1" ?k] by simp
  then have "blocked_end s ?k < 4294967296" using ext(2) [of "?k + 1"] more by simp
  then have i: "index s1 = blocked_end s ?k"
    by (simp add: index_def s1_def blocked_end_def extent_end_def unat_add_no_overflow)
  have "\<not> index_in_fat (allocator s) + 1 < fe_physical_start ?e"
  proof -
    have "unat (index_in_fat (allocator s) + 1) = index s + 1"
      using ext(2) [OF cur(1)] cur(3) by (subst unat_add_no_overflow) (simp_all add: index_def)
    then show ?thesis using ge by (simp add: word_less_nat_alt blocked_start_def)
  qed
  then have can: "can_be_used s = Inr (False, s1)"
    using more cur(2) by (simp add: can_be_used_def Let_def s1_def fs_is_full_def extent_count_def)
  have "list_all (\<lambda>e. extent_end e \<le> index s1) (take (?k + 1) (blocked_extents (allocator s)))"
  proof -
    have "blocked_end s j \<le> index s1" if "j < ?k + 1" for j
      using that cur(3) cur(4) [of j] blocked_start_le_end [of s ?k] i by (cases "j = ?k") auto
    then show ?thesis using cur(2) by (auto simp: list_all_length blocked_end_def)
  qed
  then have wf1: "alloc_wf s1"
    using wf next_start i more unfolding alloc_wf_def
    by (simp add: s1_def extent_count_def blocked_start_def)
  have over: "\<not> usable s c" if "blocked_start s ?k \<le> c" "c \<le> blocked_end s ?k" for c
    using that more by (auto simp: usable_def stepped_over_iff [OF wf])
  have "index s1 \<le> c" if "usable s c" for c
  proof -
    have "blocked_start s ?k \<le> c" using that ge by (simp add: usable_def)
    then show ?thesis using over [of c] that i by linarith
  qed
  moreover have "index s \<le> index s1" using i cur(3) blocked_start_le_end [of s ?k] by linarith
  ultimately show ?thesis
    using can wf1 i over [of "blocked_end s ?k"] blocked_start_le_end [of s ?k]
    by (auto simp: moved_def same_setup_def s1_def)
qed

lemma can_be_used_full:
  assumes wf: "alloc_wf s" and ge: "blocked_start s (blocked_extent_current (allocator s)) \<le> index s + 1"
    and last: "blocked_extent_current (allocator s) = extent_count s"
  shows "can_be_used s = Inl Fs_Too_Small \<and> \<not> usable s c"
proof -
  note cur = alloc_wf_current [OF wf] and ext = alloc_wf_extents [OF wf]
  have "unat (index_in_fat (allocator s) + 1) = index s + 1"
    using ext(2) [OF cur(1)] cur(3) by (subst unat_add_no_overflow) (simp_all add: index_def)
  then have "\<not> index_in_fat (allocator s) + 1
      < fe_physical_start (blocked_extents (allocator s) ! blocked_extent_current (allocator s))"
    using ge by (simp add: word_less_nat_alt blocked_start_def)
  then show ?thesis
    using last ge cur(2)
    by (auto simp: can_be_used_def Let_def fs_is_full_def extent_count_def usable_def)
qed

lemma can_be_used_step:
  assumes "alloc_wf s"
  shows "(\<exists>b s1. can_be_used s = Inr (b, s1) \<and> moved s s1 \<and> (b \<longleftrightarrow> usable s (index s1))
      \<and> (b \<longrightarrow> index s1 = index s + 1))
    \<or> can_be_used s = Inl Fs_Too_Small \<and> (\<forall>c. \<not> usable s c)"
proof -
  let ?k = "blocked_extent_current (allocator s)"
  consider "index s + 1 < blocked_start s ?k"
    | "blocked_start s ?k \<le> index s + 1" "?k < extent_count s"
    | "blocked_start s ?k \<le> index s + 1" "?k = extent_count s"
    using alloc_wf_current(1) [OF assms] by linarith
  then show ?thesis
  proof cases
    case 1
    then show ?thesis using can_be_used_free [OF assms 1] by auto
  next
    case 2
    then show ?thesis using can_be_used_blocked [OF assms 2] by blast
  next
    case 3
    then show ?thesis using can_be_used_full [OF assms 3] by blast
  qed
qed

lemma moved_trans:
  assumes "moved s s'" and "moved s' s''" and "\<not> usable s (index s')"
  shows "moved s s''"
proof -
  have "index s'' \<le> c" if c: "usable s c" for c
  proof -
    have "index s' \<le> c" using assms(1) c by (simp add: moved_def)
    moreover have "c \<noteq> index s'" using assms(3) c by blast
    ultimately have "usable s' c" using c by (simp add: moved_usable [OF assms(1)])
    then show ?thesis using assms(2) by (simp add: moved_def)
  qed
  then show ?thesis
    using assms by (auto simp: moved_def intro: same_setup_trans)
qed

text \<open>The search stops at the lowest usable cluster, and exits only when there is none.\<close>

lemma skip_unusable_spec:
  "alloc_wf s \<Longrightarrow>
     (\<exists>s'. skip_unusable s = Inr s' \<and> moved s s' \<and> usable s (index s'))
     \<or> skip_unusable s = Inl Fs_Too_Small \<and> (\<forall>c. \<not> usable s c)"
proof (induction s rule: skip_unusable.induct)
  case (1 s)
  show ?case
  proof (cases "can_be_used s")
    case (Inl e)
    then show ?thesis using can_be_used_step [OF 1(2)] by (simp add: skip_unusable.simps [of s])
  next
    case (Inr r)
    obtain b s1 where r: "r = (b, s1)" by (cases r)
    have m: "moved s s1" and b: "b \<longleftrightarrow> usable s (index s1)"
      using can_be_used_step [OF 1(2)] Inr r by auto
    show ?thesis
    proof (cases b)
      case True
      then show ?thesis using Inr r m b by (simp add: skip_unusable.simps [of s])
    next
      case False
      have eq: "skip_unusable s = skip_unusable s1"
        using Inr r False by (simp add: skip_unusable.simps [of s])
      have "alloc_wf s1" using m by (simp add: moved_def)
      from 1(1) [OF Inr] r False this
      have "(\<exists>s'. skip_unusable s1 = Inr s' \<and> moved s1 s' \<and> usable s1 (index s'))
          \<or> skip_unusable s1 = Inl Fs_Too_Small \<and> (\<forall>c. \<not> usable s1 c)" by simp
      then show ?thesis
      proof (elim disjE exE conjE)
        fix s' assume "skip_unusable s1 = Inr s'" "moved s1 s'" "usable s1 (index s')"
        then show ?thesis
          using eq moved_trans [OF m, of s'] b False by (auto simp: moved_usable [OF m])
      next
        assume none: "skip_unusable s1 = Inl Fs_Too_Small" "\<forall>c. \<not> usable s1 c"
        have "\<not> usable s c" for c
        proof
          assume c: "usable s c"
          then have "index s1 \<le> c" using m by (simp add: moved_def)
          moreover have "c \<noteq> index s1" using c b False by blast
          ultimately have "usable s1 c" using c by (simp add: moved_usable [OF m])
          with none(2) show False by blast
        qed
        then show ?thesis using eq none(1) by simp
      qed
    qed
  qed
qed

subsection \<open>The extension loop\<close>

text \<open>
  The state after an extent that starts at \<open>p\<close> has been taken out of \<open>s\<close>: exactly its
  clusters have become used and all of them were usable.
\<close>

definition extent_clusters :: "fat_extent \<Rightarrow> nat set" where
  "extent_clusters e = {unat (fe_physical_start e)..<extent_end e}"

definition taken :: "alloc_state \<Rightarrow> fat_extent \<Rightarrow> alloc_state \<Rightarrow> bool" where
  "taken s e s' \<longleftrightarrow> alloc_wf s' \<and> same_setup s s' \<and> index s < unat (fe_physical_start e)
     \<and> extent_end e \<le> index s' + 1
     \<and> (\<forall>c \<in> extent_clusters e. usable s c)
     \<and> (\<forall>c. cluster_free s' c \<longleftrightarrow> cluster_free s c \<and> c \<notin> extent_clusters e)"

lemma set_used_spec:
  assumes "alloc_wf s" and "index s < 8 * length (allocation_bitmap s)"
  shows "\<exists>s'. set_used (index_in_fat (allocator s)) s = Inr s' \<and> alloc_wf s' \<and> same_setup s s'
    \<and> index s' = index s \<and> (\<forall>c. cluster_free s' c \<longleftrightarrow> cluster_free s c \<and> c \<noteq> index s)"
proof -
  let ?s = "s\<lparr>allocation_bitmap := mark_cluster (allocation_bitmap s) (index s)\<rparr>"
  have "set_used (index_in_fat (allocator s)) s = Inr ?s"
    using assms(2) by (simp add: set_used_eq index_def)
  moreover have "alloc_wf ?s"
    using assms(1) by (simp add: alloc_wf_def extent_count_def index_def blocked_start_def)
  moreover have "cluster_free ?s c \<longleftrightarrow> cluster_free s c \<and> c \<noteq> index s" for c
    using cluster_free_mark [OF assms(2)] .
  ultimately show ?thesis by (auto simp: same_setup_def index_def)
qed

lemma usable_in_bitmap: "usable s c \<Longrightarrow> c < 8 * length (allocation_bitmap s)"
  by (simp add: usable_def cluster_free_def)

text \<open>Taking the next cluster right behind an extent extends it.\<close>

lemma taken_extend:
  assumes t: "taken s e s1" and m: "moved s1 s2" and u: "usable s1 (index s2)"
    and i: "index s1 + 1 = extent_end e" "index s2 = index s1 + 1"
    and s3: "alloc_wf s3" "same_setup s2 s3" "index s3 = index s2"
      "\<forall>c. cluster_free s3 c \<longleftrightarrow> cluster_free s2 c \<and> c \<noteq> index s2"
    and e': "fe_physical_start e' = fe_physical_start e" "unat (fe_length e') = unat (fe_length e) + 1"
  shows "taken s e' s3"
proof -
  have clusters: "extent_clusters e' = insert (index s2) (extent_clusters e)"
    using e' i by (auto simp: extent_clusters_def extent_end_def)
  have same: "same_setup s s2" "cluster_free s2 c = cluster_free s1 c" for c
    using t m by (auto simp: taken_def moved_def cluster_free_def intro: same_setup_trans)
  have "index s < index s2"
  proof -
    have "index s < unat (fe_physical_start e)" using t by (simp add: taken_def)
    then show ?thesis using i by (simp add: extent_end_def)
  qed
  then have "usable s (index s2)"
    using t u same_setup_blocked [of s s1] by (auto simp: taken_def usable_def)
  then show ?thesis
    using t s3 same e' i clusters same_setup_trans [OF same(1) s3(2)]
    by (auto simp: taken_def extent_end_def)
qed

lemma taken_moved: "taken s e s1 \<Longrightarrow> moved s1 s2 \<Longrightarrow> taken s e s2"
  by (auto simp: taken_def moved_def cluster_free_def intro: same_setup_trans)

lemma extended_length:
  assumes "unat i = unat (fe_physical_start e) + unat (fe_length e)" and "unat (fe_length e) < 65535"
  shows "unat (ucast (i - fe_physical_start e + 1 :: u32) :: u16) = unat (fe_length e) + 1"
proof -
  have "unat (i - fe_physical_start e) = unat (fe_length e)"
    using assms(1) by (simp add: unat_sub_no_underflow)
  then have "unat (i - fe_physical_start e + 1) = unat (fe_length e) + 1"
    using assms(2) by (subst unat_add_no_overflow) simp_all
  then show ?thesis using assms(2) by (simp add: unsigned_ucast_eq take_bit_nat_eq_self)
qed

lemma extend_extent_spec:
  "taken s e s1 \<Longrightarrow> index s1 + 1 = extent_end e \<Longrightarrow>
     (\<exists>e' s'. extend_extent n e s1 = Inr (e', s') \<and> taken s e' s'
        \<and> fe_physical_start e' = fe_physical_start e \<and> fe_logical_start e' = fe_logical_start e
        \<and> unat (fe_length e) \<le> unat (fe_length e') \<and> unat (fe_length e') \<le> max (unat (fe_length e)) (unat n))
     \<or> extend_extent n e s1 = Inl Fs_Too_Small"
proof (induction n e s1 rule: extend_extent.induct)
  case (1 n e s1)
  show ?case
  proof (cases "fe_length e < n")
    case False
    then show ?thesis using 1(2) by (auto simp: extend_extent.simps [of n e s1])
  next
    case True
    have wf: "alloc_wf s1" using 1(2) by (simp add: taken_def)
    show ?thesis
    proof (cases "can_be_used s1")
      case (Inl err)
      then show ?thesis using can_be_used_step [OF wf] True by (simp add: extend_extent.simps [of n e s1])
    next
      case (Inr r)
      obtain b s2 where r: "r = (b, s2)" by (cases r)
      have m: "moved s1 s2" and b: "b \<longleftrightarrow> usable s1 (index s2)" and i: "b \<Longrightarrow> index s2 = index s1 + 1"
        using can_be_used_step [OF wf] Inr r by auto
      show ?thesis
      proof (cases b)
        case False
        then have "extend_extent n e s1 = Inr (e, s2)"
          using Inr r True by (simp add: extend_extent.simps [of n e s1])
        then show ?thesis using taken_moved [OF 1(2) m] by auto
      next
        case b': True
        have "index s2 < 8 * length (allocation_bitmap s2)"
          using usable_in_bitmap b b' m by (fastforce simp: moved_def)
        then obtain s3 where s3: "set_used (index_in_fat (allocator s2)) s2 = Inr s3" "alloc_wf s3"
          "same_setup s2 s3" "index s3 = index s2"
          "\<forall>c. cluster_free s3 c \<longleftrightarrow> cluster_free s2 c \<and> c \<noteq> index s2"
          using set_used_spec [of s2] m by (auto simp: moved_def)
        define e' where "e' = e\<lparr>fe_length := ucast (index_in_fat (allocator s2) - fe_physical_start e + 1)\<rparr>"
        have "unat (fe_length e) < unat n" using True by (simp add: word_less_nat_alt)
        then have short: "unat (fe_length e) < 65535" using unat_u16_bound [of n] by linarith
        have pos: "unat (index_in_fat (allocator s2)) = unat (fe_physical_start e) + unat (fe_length e)"
          using i [OF b'] 1(3) by (simp add: index_def extent_end_def)
        have len: "unat (fe_length e') = unat (fe_length e) + 1"
          using extended_length [OF pos short] by (simp add: e'_def)
        have start: "fe_physical_start e' = fe_physical_start e" "fe_logical_start e' = fe_logical_start e"
          by (simp_all add: e'_def)
        have t: "taken s e' s3"
          using taken_extend [OF 1(2) m _ _ _ s3(2-5) start(1) len] b b' i 1(3) by simp
        have end': "index s3 + 1 = extent_end e'"
          using s3(4) i [OF b'] 1(3) len start by (simp add: extent_end_def)
        have eq: "extend_extent n e s1 = extend_extent n e' s3"
          using Inr r b' True s3(1) by (simp add: extend_extent.simps [of n e s1] e'_def)
        have "fst r" and "set_used (index_in_fat (allocator (snd r))) (snd r) = Inr s3"
          using r b' s3(1) by simp_all
        from 1(1) [OF True Inr this] r t end'
        show ?thesis
          unfolding eq using len start \<open>unat (fe_length e) < unat n\<close>
          by (auto simp: e'_def)
      qed
    qed
  qed
qed

subsection \<open>The allocator's contract\<close>

lemma allocate_extent_spec:
  assumes wf: "alloc_wf s"
  shows "(\<exists>e s'. allocate_extent n s = Inr (e, s') \<and> taken s e s' \<and> fe_logical_start e = 0
      \<and> 1 \<le> unat (fe_length e) \<and> unat (fe_length e) \<le> max 1 (unat n)
      \<and> (\<forall>c. usable s c \<longrightarrow> unat (fe_physical_start e) \<le> c))
    \<or> allocate_extent n s = Inl Fs_Too_Small"
proof (cases "skip_unusable s")
  case (Inl err)
  then show ?thesis using skip_unusable_spec [OF wf] by (auto simp: allocate_extent_def)
next
  case (Inr s1)
  have m: "moved s s1" and u: "usable s (index s1)" using skip_unusable_spec [OF wf] Inr by auto
  have "index s1 < 8 * length (allocation_bitmap s1)" using usable_in_bitmap [OF u] m by (simp add: moved_def)
  then obtain s2 where s2: "set_used (index_in_fat (allocator s1)) s1 = Inr s2" "alloc_wf s2"
    "same_setup s1 s2" "index s2 = index s1" "\<forall>c. cluster_free s2 c \<longleftrightarrow> cluster_free s1 c \<and> c \<noteq> index s1"
    using set_used_spec [of s1] m by (auto simp: moved_def)
  define e where "e = \<lparr>fe_logical_start = 0, fe_length = 1, fe_physical_start = index_in_fat (allocator s1)\<rparr>"
  have e: "unat (fe_physical_start e) = index s1" "unat (fe_length e) = 1" "extent_end e = index s1 + 1"
    by (simp_all add: e_def index_def extent_end_def)
  then have "extent_clusters e = {index s1}" by (auto simp: extent_clusters_def)
  moreover have "index s < index s1" using u by (simp add: usable_def)
  ultimately have t: "taken s e s2"
    using m u s2 e by (auto simp: taken_def moved_def cluster_free_def intro: same_setup_trans)
  have "allocate_extent n s = extend_extent n e s2"
    using Inr s2(1) by (simp add: allocate_extent_def Let_def e_def)
  moreover have "index s1 \<le> c" if "usable s c" for c using m that by (simp add: moved_def)
  ultimately show ?thesis
    using extend_extent_spec [OF t, of n] s2(4) e by (auto simp: e_def)
qed

text \<open>
  The interface the writers of data rely on: an allocation returns at least one and at
  most \<open>max 1 n\<close> clusters, all free before and none free after, and frees nothing.
\<close>

locale cluster_source =
  fixes alloc :: "u16 \<Rightarrow> 's \<Rightarrow> (fat_extent \<times> 's) result"
    and ok :: "'s \<Rightarrow> bool"
    and free :: "'s \<Rightarrow> nat \<Rightarrow> bool"
  assumes alloc_ok: "ok s \<Longrightarrow> alloc n s = Inr (e, s') \<Longrightarrow> ok s'"
    and alloc_was_free: "ok s \<Longrightarrow> alloc n s = Inr (e, s') \<Longrightarrow> c \<in> extent_clusters e \<Longrightarrow> free s c"
    and alloc_takes: "ok s \<Longrightarrow> alloc n s = Inr (e, s') \<Longrightarrow> free s' c \<longleftrightarrow> free s c \<and> c \<notin> extent_clusters e"
    and alloc_length: "ok s \<Longrightarrow> alloc n s = Inr (e, s') \<Longrightarrow>
      1 \<le> unat (fe_length e) \<and> unat (fe_length e) \<le> max 1 (unat n)"

fun alloc_all :: "(u16 \<Rightarrow> 's \<Rightarrow> (fat_extent \<times> 's) result) \<Rightarrow> u16 list \<Rightarrow> 's \<Rightarrow> (fat_extent list \<times> 's) result" where
  "alloc_all alloc [] s = Inr ([], s)"
| "alloc_all alloc (n # ns) s =
     bind_res (alloc n s) (\<lambda>r. bind_res (alloc_all alloc ns (snd r)) (\<lambda>q. Inr (fst r # fst q, snd q)))"

context cluster_source
begin

lemma alloc_all_ok: "ok s \<Longrightarrow> alloc_all alloc ns s = Inr (es, s') \<Longrightarrow> ok s'"
  by (induction ns arbitrary: s es) (auto elim!: bind_resE dest: alloc_ok)

lemma alloc_all_free:
  "ok s \<Longrightarrow> alloc_all alloc ns s = Inr (es, s') \<Longrightarrow>
     (\<forall>e \<in> set es. \<forall>c \<in> extent_clusters e. free s c)
     \<and> (free s' c \<longleftrightarrow> free s c \<and> (\<forall>e \<in> set es. c \<notin> extent_clusters e))"
proof (induction ns arbitrary: s es)
  case (Cons n ns)
  then obtain e s1 es' where e: "alloc n s = Inr (e, s1)"
    and r: "alloc_all alloc ns s1 = Inr (es', s')" "es = e # es'"
    by (auto elim!: bind_resE)
  then show ?case
    using Cons.IH [OF alloc_ok [OF Cons.prems(1) e] r(1)] alloc_was_free [OF Cons.prems(1) e]
      alloc_takes [OF Cons.prems(1) e] by auto
qed simp

lemma alloc_all_disjoint:
  "ok s \<Longrightarrow> alloc_all alloc ns s = Inr (es, s') \<Longrightarrow>
     sorted_wrt (\<lambda>a b. extent_clusters a \<inter> extent_clusters b = {}) es"
proof (induction ns arbitrary: s es)
  case (Cons n ns)
  then obtain e s1 es' where e: "alloc n s = Inr (e, s1)"
    and r: "alloc_all alloc ns s1 = Inr (es', s')" "es = e # es'"
    by (auto elim!: bind_resE)
  have ok: "ok s1" by (rule alloc_ok [OF Cons.prems(1) e])
  have "extent_clusters e \<inter> extent_clusters b = {}" if "b \<in> set es'" for b
    using alloc_all_free [OF ok r(1)] alloc_takes [OF Cons.prems(1) e] that by auto
  then show ?case using Cons.IH [OF ok r(1)] r(2) by simp
qed simp

end

interpretation clusters: cluster_source allocate_extent alloc_wf cluster_free
proof
  fix s n e s' c
  assume wf: "alloc_wf s" and r: "allocate_extent n s = Inr (e, s')"
  from allocate_extent_spec [OF wf, of n] r
  have t: "taken s e s'" and len: "1 \<le> unat (fe_length e) \<and> unat (fe_length e) \<le> max 1 (unat n)" by auto
  show "alloc_wf s'" using t by (simp add: taken_def)
  show "cluster_free s' c \<longleftrightarrow> cluster_free s c \<and> c \<notin> extent_clusters e" using t by (simp add: taken_def)
  show "1 \<le> unat (fe_length e) \<and> unat (fe_length e) \<le> max 1 (unat n)" by (rule len)
  assume "c \<in> extent_clusters e"
  then show "cluster_free s c" using t by (simp add: taken_def usable_def)
qed

text \<open>
  C5. In a well-formed state \<open>allocate_extent\<close> returns an extent of one to \<open>max_length\<close>
  contiguous clusters that starts at the lowest usable cluster; every cluster of it was
  free, lies behind the last position and outside all metadata areas, is marked used
  afterwards, no other cluster changes, and the state stays well-formed.
\<close>

theorem allocate_extent_contract:
  assumes "alloc_wf s" and "allocate_extent n s = Inr (e, s')"
  shows "alloc_wf s' \<and> 1 \<le> unat (fe_length e) \<and> unat (fe_length e) \<le> max 1 (unat n)
    \<and> (\<forall>c. usable s c \<longrightarrow> unat (fe_physical_start e) \<le> c)
    \<and> (\<forall>c \<in> extent_clusters e. cluster_free s c \<and> index s < c
        \<and> (\<forall>k < extent_count s. \<not> (blocked_start s k \<le> c \<and> c < blocked_end s k)))
    \<and> (\<forall>c. cluster_free s' c \<longleftrightarrow> cluster_free s c \<and> c \<notin> extent_clusters e)"
  using allocate_extent_spec [OF assms(1), of n] assms(2)
  by (fastforce simp: taken_def usable_def stepped_over_iff [OF assms(1)])

lemma allocate_one_iff:
  assumes "alloc_wf s"
  shows "(\<exists>e s'. allocate_extent 1 s = Inr (e, s')) \<longleftrightarrow> (\<exists>c. usable s c)"
proof (cases "skip_unusable s")
  case (Inl err)
  then show ?thesis using skip_unusable_spec [OF assms] by (auto simp: allocate_extent_def)
next
  case (Inr s1)
  have u: "usable s (index s1)" and m: "moved s s1" using skip_unusable_spec [OF assms] Inr by auto
  have "index s1 < 8 * length (allocation_bitmap s1)" using usable_in_bitmap [OF u] m by (simp add: moved_def)
  then obtain s2 where "set_used (index_in_fat (allocator s1)) s1 = Inr s2"
    using set_used_spec [of s1] m by (auto simp: moved_def)
  then show ?thesis using Inr u by (auto simp: allocate_extent_def Let_def extend_extent.simps)
qed

text \<open>
  C32. \<open>allocate_extent\<close> never reads outside its arrays: the only way it fails is the exit
  for a file system that is too small, and a request for a single cluster fails in that
  way exactly when no usable cluster is left.
\<close>

theorem allocate_extent_fails_only_when_full:
  assumes "alloc_wf s"
  shows "(\<forall>err. allocate_extent n s = Inl err \<longrightarrow> err = Fs_Too_Small)
    \<and> ((\<exists>e s'. allocate_extent 1 s = Inr (e, s')) \<longleftrightarrow> (\<exists>c. usable s c))"
  using allocate_extent_spec [OF assms, of n] allocate_one_iff [OF assms] by auto

text \<open>
  A sequence of allocations returns pairwise disjoint extents whose clusters were all
  free at its beginning.
\<close>

theorem allocations_are_disjoint:
  assumes "alloc_wf s" and "alloc_all allocate_extent ns s = Inr (es, s')"
  shows "sorted_wrt (\<lambda>a b. extent_clusters a \<inter> extent_clusters b = {}) es
    \<and> (\<forall>e \<in> set es. \<forall>c \<in> extent_clusters e. cluster_free s c \<and> \<not> cluster_free s' c)"
  using clusters.alloc_all_disjoint [OF assms] clusters.alloc_all_free [OF assms] by blast

text \<open>
  C39. The increment in \<open>can_be_used\<close> also steps over the cluster right behind each blocked
  extent: the allocator never returns it, free or not.
\<close>

theorem cluster_behind_blocked_extent_skipped:
  assumes "alloc_wf s" and "k < extent_count s" and "allocate_extent n s = Inr (e, s')"
  shows "blocked_end s k \<notin> extent_clusters e"
  using allocate_extent_spec [OF assms(1), of n] assms(2,3) blocked_start_le_end [of s k]
  by (auto simp: taken_def usable_def stepped_over_iff [OF assms(1)])

text \<open>
  C40. Extending an extent can end the program although a cluster has been found: when the
  last cluster in front of the terminator is free, a request for one cluster returns it
  and a request for more exits.
\<close>

theorem allocate_extent_exits_while_extending:
  assumes wf: "alloc_wf s" and last: "blocked_extent_current (allocator s) = extent_count s"
    and i: "index s + 2 = blocked_start s (extent_count s)" and free: "cluster_free s (index s + 1)"
    and n: "1 < n"
  shows "allocate_extent n s = Inl Fs_Too_Small \<and> (\<exists>e s'. allocate_extent 1 s = Inr (e, s'))"
proof -
  define s1 where "s1 = s\<lparr>allocator := (allocator s)\<lparr>index_in_fat := index_in_fat (allocator s) + 1\<rparr>\<rparr>"
  have c: "can_be_used s = Inr (True, s1)" "moved s s1" "index s1 = index s + 1"
    using can_be_used_free [OF wf] last i free by (simp_all add: s1_def)
  then have skip: "skip_unusable s = Inr s1" by (simp add: skip_unusable.simps [of s])
  have "index s1 < 8 * length (allocation_bitmap s1)" using free c by (simp add: moved_def cluster_free_def)
  then obtain s2 where s2: "set_used (index_in_fat (allocator s1)) s1 = Inr s2" "alloc_wf s2"
    "same_setup s1 s2" "index s2 = index s1"
    using set_used_spec [of s1] c(2) by (auto simp: moved_def)
  have "blocked_extent_current (allocator s2) = extent_count s2"
  proof -
    have "blocked_extent_current (allocator s2) = blocked_extent_current (allocator s1)"
      using s2(1) by (auto simp: set_used_eq split: if_splits)
    then show ?thesis using last same_setup_blocked [OF s2(3)] by (simp add: s1_def extent_count_def)
  qed
  moreover have "blocked_start s2 (extent_count s2) \<le> index s2 + 1"
    using i c s2 same_setup_blocked [OF s2(3)] same_setup_blocked [of s s1] by (simp add: moved_def)
  ultimately have "can_be_used s2 = Inl Fs_Too_Small"
    using can_be_used_full [OF s2(2)] by simp
  then show ?thesis
    using n skip s2(1) by (simp add: allocate_extent_def Let_def extend_extent.simps)
qed

subsection \<open>init_extent_allocator establishes the invariant\<close>

lemma sint_word_of_int_u32:
  fixes k :: int
  assumes "- 2147483648 \<le> k" "k < 2147483648"
  shows "sint (word_of_int k :: u32) = k"
  using assms by (simp add: int_word_sint)

lemma extent_sort_compare_ascending:
  assumes "unat (fe_physical_start a) \<le> unat (fe_physical_start b)" and "unat (fe_physical_start b) < 2 ^ 31"
  shows "\<not> 0 < extent_sort_compare a b"
proof -
  let ?a = "unat (fe_physical_start a)" and ?b = "unat (fe_physical_start b)"
  have "fe_physical_start a - fe_physical_start b = word_of_int (int ?a - int ?b)" by simp
  moreover have "sint (word_of_int (int ?a - int ?b) :: u32) = int ?a - int ?b"
    using assms(1) assms(2) [simplified] by (intro sint_word_of_int_u32) linarith+
  ultimately have "extent_sort_compare a b = int ?a - int ?b"
    by (simp only: extent_sort_compare_def)
  then show ?thesis using assms(1) by linarith
qed

lemma qsort_ascending:
  "extents_ascending es \<Longrightarrow> list_all (\<lambda>e. unat (fe_physical_start e) < 2 ^ 31) es \<Longrightarrow>
     qsort extent_sort_compare es = es"
proof (induction es)
  case (Cons e es)
  then have "qsort extent_sort_compare es = es" by (simp add: extents_ascending_def)
  then show ?case
    using Cons.prems extent_sort_compare_ascending [of e "hd es"]
    by (cases es) (auto simp: qsort_def extents_ascending_def extent_end_def)
qed (simp add: qsort_def)

lemma extents_ascending_take: "extents_ascending es \<Longrightarrow> extents_ascending (take n es)"
  by (simp add: extents_ascending_def sorted_wrt_take)

lemma extents_ascending_le_last:
  assumes "extents_ascending es" and "e \<in> set es"
  shows "unat (fe_physical_start e) \<le> unat (fe_physical_start (last es))"
proof -
  obtain i where i: "i < length es" "e = es ! i" using assms(2) by (auto simp: in_set_conv_nth)
  show ?thesis
  proof (cases "i = length es - 1")
    case True
    then show ?thesis using i by (subst last_conv_nth) auto
  next
    case False
    then have "extent_end (es ! i) \<le> unat (fe_physical_start (es ! (length es - 1)))"
      using assms(1) i by (auto simp: extents_ascending_def sorted_wrt_iff_nth_less)
    moreover have "es \<noteq> []" using i(1) by auto
    ultimately show ?thesis using i by (subst last_conv_nth) (auto simp: extent_end_def)
  qed
qed

lemma init_extent_allocator_spec:
  assumes "create_block_group_meta_extents g sb n = Inr es" and "layout_fits g sb n"
    and "2 \<le> unat (data_cluster_count g)" and "unat (data_cluster_count g) < 2 ^ 31"
  shows "\<exists>s'. init_extent_allocator g m es n s = Inr s' \<and> alloc_wf s'
    \<and> blocked_extents (allocator s') = es \<and> blocked_start s' (extent_count s') = unat (data_cluster_count g)
    \<and> (\<forall>c < unat (data_cluster_count g). cluster_free s' c \<longleftrightarrow>
         2 \<le> c \<and> is_free_cluster (load_u32 m (fat_entry g (word_of_nat c))))"
proof -
  let ?d = "unat (data_cluster_count g)"
  from create_block_group_meta_extents_nth [OF assms(1)]
  have len: "length es = unat n + 1" and final: "fe_physical_start (es ! unat n) = data_cluster_count g" by auto
  note asc = create_block_group_meta_extents_ascending [OF assms(1,2)]
  have "last es = es ! unat n" using len by (subst last_conv_nth) auto
  then have le: "unat (fe_physical_start e) \<le> ?d" if "e \<in> set es" for e
    using extents_ascending_le_last [OF asc that] final by simp
  have "list_all (\<lambda>e. unat (fe_physical_start e) < 2 ^ 31) (take (unat n) es)"
    using le assms(4) by (fastforce simp: list_all_iff dest: in_set_takeD)
  then have sorted: "qsort extent_sort_compare (take (unat n) es) @ drop (unat n) es = es"
    using qsort_ascending [OF extents_ascending_take [OF asc, of "unat n"]] by simp
  obtain s1 where s1: "create_allocation_bitmap g m s = Inr s1"
    "\<forall>c. cluster_free s1 c \<and> c < ?d \<longleftrightarrow>
      2 \<le> c \<and> c < ?d \<and> is_free_cluster (load_u32 m (fat_entry g (word_of_nat c)))"
    "?d \<le> 8 * length (allocation_bitmap s1)"
    using create_allocation_bitmap_free [OF assms(3), of m s] by auto
  define s' where "s' = s1\<lparr>allocator := \<lparr>index_in_fat = 0, blocked_extent_count = n,
    blocked_extents = es, blocked_extent_current = 0\<rparr>\<rparr>"
  have "init_extent_allocator g m es n s = Inr s'"
    by (simp add: init_extent_allocator_def s1(1) sorted s'_def)
  moreover have "unat (fe_physical_start e) \<le> 8 * length (allocation_bitmap s1)
      \<and> unat (fe_physical_start e) + 1 < 2 ^ 32" if "e \<in> set es" for e
    using le [OF that] s1(3) assms(4) by simp
  then have "alloc_wf s'"
    using len asc by (simp add: alloc_wf_def s'_def extent_count_def index_def list_all_iff)
  moreover have "blocked_start s' (extent_count s') = ?d"
    using final by (simp add: blocked_start_def extent_count_def s'_def)
  moreover have "cluster_free s' c = cluster_free s1 c" for c by (simp add: cluster_free_def s'_def)
  ultimately show ?thesis using s1(2) by (auto simp: s'_def)
qed

text \<open>
  C25. \<open>init_extent_allocator\<close> on the metadata extents always succeeds and leaves a
  well-formed allocator: a cluster of the data area is free in the bitmap exactly when its
  FAT entry is free, and the blocked extents are the metadata areas.
\<close>

theorem init_extent_allocator_wf:
  assumes "create_block_group_meta_extents g sb n = Inr es" and "layout_fits g sb n"
    and "2 \<le> unat (data_cluster_count g)" and "unat (data_cluster_count g) < 2 ^ 31"
  shows "\<exists>s'. init_extent_allocator g m es n s = Inr s' \<and> alloc_wf s'
    \<and> blocked_extents (allocator s') = es \<and> blocked_start s' (extent_count s') = unat (data_cluster_count g)
    \<and> (\<forall>c < unat (data_cluster_count g). cluster_free s' c \<longleftrightarrow>
         2 \<le> c \<and> is_free_cluster (load_u32 m (fat_entry g (word_of_nat c))))"
  by (rule init_extent_allocator_spec [OF assms])

subsection \<open>The binary search\<close>

lemma search_blocked_extent_correct:
  assumes asc: "extents_ascending es" and len: "n < length es" "n < 2 ^ 31"
    and fit: "list_all (\<lambda>e. extent_end e < 2 ^ 32) (take n es)"
    and inv: "lo \<le> hi" "unat hi \<le> n" "\<And>k. k < unat lo \<Longrightarrow> extent_end (es ! k) < unat a"
      "\<And>k. unat hi \<le> k \<Longrightarrow> k < n \<Longrightarrow> unat a \<le> extent_end (es ! k)"
  shows "\<exists>i. search_blocked_extent es a lo hi = Some (Inr i) \<and> unat i \<le> n
    \<and> (\<forall>k < unat i. extent_end (es ! k) < unat a) \<and> (\<forall>k. unat i \<le> k \<and> k < n \<longrightarrow> unat a \<le> extent_end (es ! k))"
  using inv
proof (induction "unat hi - unat lo" arbitrary: lo hi rule: less_induct)
  case less
  show ?case
  proof (cases "lo < hi")
    case False
    then have "lo = hi" using less.prems(1) by simp
    then show ?thesis
      using less.prems by (subst search_blocked_extent.simps) auto
  next
    case True
    let ?m = "(lo + hi) div 2"
    have lh: "unat lo < unat hi" using True by (simp add: word_less_nat_alt)
    then have "unat (lo + hi) = unat lo + unat hi"
      using less.prems(2) len(2) by (subst unat_add_no_overflow) simp_all
    then have m: "unat ?m = (unat lo + unat hi) div 2" by (simp add: unat_div)
    then have mid: "unat lo \<le> unat ?m" "unat ?m < unat hi" using lh by linarith+
    have mn: "unat ?m < n" using mid less.prems(2) by simp
    have "extent_end (es ! unat ?m) < 4294967296" using fit mn len(1) by (auto simp: list_all_length)
    then have test: "fe_physical_start (es ! unat ?m) + ucast (fe_length (es ! unat ?m)) < a
        \<longleftrightarrow> extent_end (es ! unat ?m) < unat a"
      by (simp add: word_less_nat_alt extent_end_def unat_add_no_overflow)
    have mono: "extent_end (es ! j) \<le> extent_end (es ! k)" if "j \<le> k" "k < length es" for j k
    proof (cases "j = k")
      case False
      then have "extent_end (es ! j) \<le> unat (fe_physical_start (es ! k))"
        using asc that by (simp add: extents_ascending_def sorted_wrt_iff_nth_less)
      then show ?thesis by (simp add: extent_end_def)
    qed simp
    show ?thesis
    proof (cases "extent_end (es ! unat ?m) < unat a")
      case True
      have m1: "unat (?m + 1) = unat ?m + 1"
        using mn len(2) by (subst unat_add_no_overflow) simp_all
      have "extent_end (es ! k) < unat a" if "k < unat (?m + 1)" for k
        using mono [of k "unat ?m"] True that mn len(1) m1 by simp
      moreover have "?m + 1 \<le> hi" using mid m1 by (simp add: word_le_nat_alt)
      moreover have "unat hi - unat (?m + 1) < unat hi - unat lo" using mid m1 by linarith
      ultimately have "\<exists>i. search_blocked_extent es a (?m + 1) hi = Some (Inr i) \<and> unat i \<le> n
          \<and> (\<forall>k < unat i. extent_end (es ! k) < unat a)
          \<and> (\<forall>k. unat i \<le> k \<and> k < n \<longrightarrow> unat a \<le> extent_end (es ! k))"
        using less.hyps less.prems(2,4) by blast
      then show ?thesis
        using \<open>lo < hi\<close> True test mn len(1) by (subst search_blocked_extent.simps) (simp add: Let_def)
    next
      case False
      have "unat a \<le> extent_end (es ! k)" if "unat ?m \<le> k" "k < n" for k
        using mono [of "unat ?m" k] False that len(1) by simp
      moreover have "lo \<le> ?m" using mid by (simp add: word_le_nat_alt)
      moreover have "unat ?m - unat lo < unat hi - unat lo" using mid by linarith
      ultimately have "\<exists>i. search_blocked_extent es a lo ?m = Some (Inr i) \<and> unat i \<le> n
          \<and> (\<forall>k < unat i. extent_end (es ! k) < unat a)
          \<and> (\<forall>k. unat i \<le> k \<and> k < n \<longrightarrow> unat a \<le> extent_end (es ! k))"
        by (intro less.hyps) (use less.prems(3) mn in simp_all)
      then show ?thesis
        using \<open>lo < hi\<close> False test mn len(1) by (subst search_blocked_extent.simps) (simp add: Let_def)
    qed
  qed
qed

text \<open>
  C35. On well-formed blocked extents the binary search of \<open>find_first_blocked_extent\<close>
  returns, without leaving the array, and its result is the number of blocked extents that
  end in front of the address, as a linear search would count them.
\<close>

theorem find_first_blocked_extent_linear:
  assumes wf: "alloc_wf s" and small: "extent_count s < 2 ^ 31"
  shows "\<exists>i. find_first_blocked_extent a s = Some (Inr i)
    \<and> unat i = length (takeWhile (\<lambda>e. extent_end e < unat a) (take (extent_count s) (blocked_extents (allocator s))))"
proof -
  let ?es = "blocked_extents (allocator s)" and ?n = "extent_count s"
  have len: "?n < length ?es" and asc: "extents_ascending ?es" using wf by (simp_all add: alloc_wf_def)
  have "extent_end (?es ! k) < 2 ^ 32" if "k < ?n" for k
    using alloc_wf_extents(2) [OF wf, of "k + 1"] alloc_wf_extents(3) [OF wf, of "k + 1" k] that
    by (simp add: blocked_end_def)
  then have "list_all (\<lambda>e. extent_end e < 2 ^ 32) (take ?n ?es)"
    using len by (simp add: list_all_length)
  from search_blocked_extent_correct [OF asc len small this, of 0 "blocked_extent_count (allocator s)" a]
  obtain i where i: "find_first_blocked_extent a s = Some (Inr i)" "unat i \<le> ?n"
    "\<forall>k < unat i. extent_end (?es ! k) < unat a"
    "\<forall>k. unat i \<le> k \<and> k < ?n \<longrightarrow> unat a \<le> extent_end (?es ! k)"
    by (auto simp: find_first_blocked_extent_def extent_count_def)
  have "takeWhile (\<lambda>e. extent_end e < unat a) (take ?n ?es) = take (unat i) (take ?n ?es)"
    using i len by (intro takeWhile_eq_take_P_nth) (auto simp: not_less)
  then show ?thesis using i(1,2) len by auto
qed

subsection \<open>A sample allocator\<close>

text \<open>24 clusters, the first two reserved, with metadata in the clusters 2 to 4 and 10 to 11.\<close>

definition sample_alloc :: alloc_state where
  "sample_alloc = \<lparr>allocator = \<lparr>
     index_in_fat = 0, blocked_extent_count = 2,
     blocked_extents = [
       \<lparr>fe_logical_start = 0, fe_length = 3, fe_physical_start = 2\<rparr>,
       \<lparr>fe_logical_start = 0, fe_length = 2, fe_physical_start = 10\<rparr>,
       \<lparr>fe_logical_start = 0, fe_length = 1, fe_physical_start = 24\<rparr>],
     blocked_extent_current = 0\<rparr>, allocation_bitmap = [0x03, 0, 0]\<rparr>"

definition sample_alloc_after :: alloc_state where
  "sample_alloc_after = \<lparr>allocator = (allocator sample_alloc)\<lparr>
     index_in_fat := 9, blocked_extent_current := 1\<rparr>, allocation_bitmap = [0xC3, 0x03, 0]\<rparr>"

lemma sample_alloc_wf: "alloc_wf sample_alloc"
  by (simp add: alloc_wf_def sample_alloc_def extent_count_def index_def blocked_start_def
      extents_ascending_def extent_end_def)

lemma sample_alloc_extents:
  "extent_count sample_alloc = 2" "blocked_start sample_alloc 0 = 2" "blocked_end sample_alloc 0 = 5"
  "blocked_start sample_alloc 1 = 10" "blocked_end sample_alloc 1 = 12"
  by (simp_all add: sample_alloc_def extent_count_def blocked_start_def blocked_end_def extent_end_def)

lemma sample_allocate:
  "allocate_extent 4 sample_alloc =
     Inr (\<lparr>fe_logical_start = 0, fe_length = 4, fe_physical_start = 6\<rparr>, sample_alloc_after)"
  by code_simp

theorem allocate_extent_contract_witness:
  "alloc_wf sample_alloc_after \<and> \<not> (blocked_start sample_alloc 1 \<le> 9 \<and> 9 < blocked_end sample_alloc 1)
    \<and> \<not> cluster_free sample_alloc_after 9"
proof -
  have "9 \<in> extent_clusters \<lparr>fe_logical_start = 0, fe_length = 4, fe_physical_start = 6\<rparr>"
    by (simp add: extent_clusters_def extent_end_def)
  then show ?thesis
    using allocate_extent_contract [OF sample_alloc_wf sample_allocate] by (simp add: sample_alloc_extents)
qed

theorem allocate_extent_fails_only_when_full_witness:
  "\<exists>e s'. allocate_extent 1 sample_alloc = Inr (e, s')"
proof -
  have "usable sample_alloc 6"
    by (simp add: usable_def stepped_over_def cluster_free_def sample_alloc_def index_def
        blocked_start_def extent_count_def extent_end_def)
  then show ?thesis using allocate_extent_fails_only_when_full [OF sample_alloc_wf, of 1] by blast
qed

theorem allocations_are_disjoint_witness:
  "\<not> cluster_free sample_alloc_after 6"
proof -
  have "alloc_all allocate_extent [4] sample_alloc =
      Inr ([\<lparr>fe_logical_start = 0, fe_length = 4, fe_physical_start = 6\<rparr>], sample_alloc_after)"
    by (simp add: sample_allocate)
  from allocations_are_disjoint [OF sample_alloc_wf this] show ?thesis
    by (simp add: extent_clusters_def extent_end_def)
qed

theorem cluster_behind_blocked_extent_skipped_witness:
  "blocked_end sample_alloc 0
     \<notin> extent_clusters \<lparr>fe_logical_start = 0, fe_length = 4, fe_physical_start = 6\<rparr>"
  by (rule cluster_behind_blocked_extent_skipped [OF sample_alloc_wf _ sample_allocate])
    (simp add: sample_alloc_extents)

theorem find_first_blocked_extent_linear_witness:
  "\<exists>i. find_first_blocked_extent 7 sample_alloc = Some (Inr i) \<and> unat i = 1"
  using find_first_blocked_extent_linear [OF sample_alloc_wf, of 7]
  by (simp add: sample_alloc_extents) (simp add: sample_alloc_def extent_end_def)

theorem init_extent_allocator_wf_witness:
  "\<exists>s'. init_extent_allocator sample_globals (\<lambda>_. 0) sample_meta_extents 3 sample_alloc = Inr s' \<and> alloc_wf s'"
  using init_extent_allocator_wf [OF sample_create_meta_extents sample_layout_fits,
      where m = "\<lambda>_. 0" and s = sample_alloc] by (auto simp: sample_layout(3))

definition sample_alloc_last :: alloc_state where
  "sample_alloc_last = \<lparr>allocator = (allocator sample_alloc)\<lparr>
     index_in_fat := 22, blocked_extent_current := 2\<rparr>, allocation_bitmap = [0xFF, 0xFF, 0x3F]\<rparr>"

theorem allocate_extent_exits_while_extending_witness:
  "allocate_extent 2 sample_alloc_last = Inl Fs_Too_Small"
proof -
  have "alloc_wf sample_alloc_last"
    by (simp add: alloc_wf_def sample_alloc_last_def sample_alloc_def extent_count_def index_def
        blocked_start_def extents_ascending_def extent_end_def)
  then show ?thesis
    using allocate_extent_exits_while_extending [of sample_alloc_last 2]
    by (simp add: sample_alloc_last_def sample_alloc_def extent_count_def index_def
        blocked_start_def cluster_free_def)
qed

end
