(* ===== verification/Stream_Archiver.thy ===== *)
theory Stream_Archiver
  imports Extent_Allocator
begin

section \<open>stream-archiver.h and stream-archiver.cpp\<close>

text \<open>
  The stream archiver keeps the metadata read from the FAT side in free clusters of the
  partition itself: a list of pages linked by their first eight bytes, in which segments
  follow each other, each a header with the number of its elements and then the elements.
  A writer inserts elements and ends a segment with \<open>cutStreamArchiver\<close>, which stores the
  count in the segment's header and starts the next one; a copy of the writer's
  \<open>StreamArchiver\<close> from an earlier time reads the elements back. Pointers are addresses,
  0 is \<open>NULL\<close>; following a null pointer is \<open>Null_Pointer\<close>.
\<close>

record io_state =
  mem :: memory
  alloc :: alloc_state

record stream =
  st_page :: nat
  st_offset :: u64
  st_index :: u64
  st_header :: nat

definition sizeof_page :: u64 where "sizeof_page = 8"
definition sizeof_header :: u64 where "sizeof_header = 8"

subsection \<open>The operations\<close>

definition allocatePage :: "fat_globals \<Rightarrow> 'a io_state_scheme \<Rightarrow> (nat \<times> 'a io_state_scheme) result" where
  "allocatePage g s =
     bind_res (allocate_extent 1 (alloc s)) (\<lambda>r.
       let cluster_no = fe_physical_start (fst r)
       in Inr (cluster_start g cluster_no, s\<lparr>alloc := snd r\<rparr>))"

text \<open>
  The second half of \<open>iterateStreamArchiver\<close>, which is also the whole of it when
  \<open>elementCount\<close> is 0, as in the recursive call.
\<close>

definition iterate_advance ::
  "fat_globals \<Rightarrow> u64 \<Rightarrow> bool \<Rightarrow> u64 \<Rightarrow> stream \<Rightarrow> 'a io_state_scheme
    \<Rightarrow> (nat \<times> stream \<times> 'a io_state_scheme) result" where
  "iterate_advance g pageSize ins elementLength st s =
     (if pageSize < st_offset st + elementLength
      then bind_res
        (if ins
         then bind_res (allocatePage g s) (\<lambda>r.
                let page = fst r; s1 = snd r
                in if st_page st = 0 then Inl Null_Pointer
                   else Inr (st\<lparr>st_page := page\<rparr>,
                     s1\<lparr>mem := store_u64 (store_u64 (mem s1) (st_page st) (word_of_nat page)) page 0\<rparr>))
         else if st_page st = 0 then Inl Null_Pointer
         else Inr (st\<lparr>st_page := unat (load_u64 (mem s) (st_page st))\<rparr>, s))
        (\<lambda>(st1, s1). if st_page st1 = 0 then Inl Null_Pointer
           else Inr (st_page st1 + unat sizeof_page, st1\<lparr>st_offset := sizeof_page + elementLength\<rparr>, s1))
      else if st_page st = 0 then Inl Null_Pointer
      else Inr (st_page st + unat (st_offset st), st\<lparr>st_offset := st_offset st + elementLength\<rparr>, s))"

definition iterateStreamArchiver ::
  "fat_globals \<Rightarrow> u64 \<Rightarrow> bool \<Rightarrow> u64 \<Rightarrow> u64 \<Rightarrow> stream \<Rightarrow> 'a io_state_scheme
    \<Rightarrow> (nat \<times> stream \<times> 'a io_state_scheme) result" where
  "iterateStreamArchiver g pageSize ins elementLength elementCount st s =
     (let st1 = st\<lparr>st_index := st_index st + elementCount\<rparr>
      in if \<not> ins \<and> 0 < elementCount
         then if st_header st1 = 0 then Inl Null_Pointer
              else if load_u64 (mem s) (st_header st1) < st_index st1
              then bind_res (iterate_advance g pageSize ins sizeof_header (st1\<lparr>st_index := 0\<rparr>) s)
                     (\<lambda>(h, st2, s2). Inr (0, st2\<lparr>st_header := h\<rparr>, s2))
              else iterate_advance g pageSize ins elementLength st1 s
         else iterate_advance g pageSize ins elementLength st1 s)"

definition cutStreamArchiver ::
  "fat_globals \<Rightarrow> u64 \<Rightarrow> stream \<Rightarrow> 'a io_state_scheme \<Rightarrow> (stream \<times> 'a io_state_scheme) result" where
  "cutStreamArchiver g pageSize st s =
     bind_res
       (if st_header st \<noteq> 0 \<and> st_page st \<noteq> 0
        then Inr (st, s\<lparr>mem := store_u64 (mem s) (st_header st) (st_index st)\<rparr>)
        else bind_res (allocatePage g s) (\<lambda>(page, s1).
               Inr (st\<lparr>st_page := page, st_offset := sizeof_page\<rparr>,
                    s1\<lparr>mem := store_u64 (mem s1) page 0\<rparr>)))
       (\<lambda>(st1, s1).
          bind_res (iterateStreamArchiver g pageSize True sizeof_header 0 (st1\<lparr>st_index := 0\<rparr>) s1)
            (\<lambda>(h, st2, s2). Inr (st2\<lparr>st_header := h\<rparr>, s2)))"

text \<open>\<open>getNext\<close> for a type of the given size.\<close>

definition getNext ::
  "fat_globals \<Rightarrow> u64 \<Rightarrow> u64 \<Rightarrow> stream \<Rightarrow> 'a io_state_scheme \<Rightarrow> (nat \<times> stream \<times> 'a io_state_scheme) result" where
  "getNext g pageSize sizeof_T st s = iterateStreamArchiver g pageSize False sizeof_T 1 st s"

text \<open>\<open>init_stream_archiver\<close> of metadata_reader.cpp; the global \<open>pageSize\<close> is the argument.\<close>

definition init_stream_archiver ::
  "fat_globals \<Rightarrow> u32 \<Rightarrow> 'a io_state_scheme \<Rightarrow> (stream \<times> 'a io_state_scheme) result" where
  "init_stream_archiver g clusterSize s =
     cutStreamArchiver g (ucast clusterSize)
       \<lparr>st_page = 0, st_offset = 0, st_index = 0, st_header = 0\<rparr> s"

subsection \<open>Clients\<close>

text \<open>
  A client that writes a segment inserts the elements, fills the returned memory, and cuts;
  one that reads a segment calls \<open>getNext\<close> until it returns \<open>NULL\<close>, as the loops of
  tree_builder.cpp, ext4_dentry.cpp and ext4_extent.cpp do. The reader's loop is a partial
  function: whether it returns is part of the theorems.
\<close>

fun write_elements ::
  "fat_globals \<Rightarrow> u64 \<Rightarrow> u64 \<Rightarrow> u8 list list \<Rightarrow> stream \<Rightarrow> 'a io_state_scheme
    \<Rightarrow> (stream \<times> 'a io_state_scheme) result" where
  "write_elements g ps n [] st s = Inr (st, s)"
| "write_elements g ps n (x # xs) st s =
     bind_res (iterateStreamArchiver g ps True n 1 st s) (\<lambda>(a, st1, s1).
       write_elements g ps n xs st1 (s1\<lparr>mem := store_bytes (mem s1) a x\<rparr>))"

definition write_segment ::
  "fat_globals \<Rightarrow> u64 \<Rightarrow> u64 \<Rightarrow> u8 list list \<Rightarrow> stream \<Rightarrow> 'a io_state_scheme
    \<Rightarrow> (stream \<times> 'a io_state_scheme) result" where
  "write_segment g ps n xs st s =
     bind_res (write_elements g ps n xs st s) (\<lambda>(st1, s1). cutStreamArchiver g ps st1 s1)"

partial_function (option) read_segment ::
  "fat_globals \<Rightarrow> u64 \<Rightarrow> u64 \<Rightarrow> stream \<Rightarrow> 'a io_state_scheme \<Rightarrow> (u8 list list \<times> stream) result option" where
  "read_segment g ps n st s =
     (case getNext g ps n st s of
        Inl e \<Rightarrow> Some (Inl e)
      | Inr r \<Rightarrow>
          if fst r = 0 then Some (Inr ([], fst (snd r)))
          else Option.bind (read_segment g ps n (fst (snd r)) s) (\<lambda>q.
                 Some (bind_res q (\<lambda>(xs, st'). Inr (load_bytes (mem s) (fst r) (unat n) # xs, st')))))"

fun write_segments ::
  "fat_globals \<Rightarrow> u64 \<Rightarrow> (u64 \<times> u8 list list) list \<Rightarrow> stream \<Rightarrow> 'a io_state_scheme
    \<Rightarrow> (stream \<times> 'a io_state_scheme) result" where
  "write_segments g ps [] st s = Inr (st, s)"
| "write_segments g ps ((n, xs) # segs) st s =
     bind_res (write_segment g ps n xs st s) (\<lambda>(st1, s1). write_segments g ps segs st1 s1)"

fun read_segments ::
  "fat_globals \<Rightarrow> u64 \<Rightarrow> u64 list \<Rightarrow> stream \<Rightarrow> 'a io_state_scheme \<Rightarrow> (u8 list list list \<times> stream) result option" where
  "read_segments g ps [] st s = Some (Inr ([], st))"
| "read_segments g ps (n # ns) st s =
     Option.bind (read_segment g ps n st s) (\<lambda>r. case r of
        Inl e \<Rightarrow> Some (Inl e)
      | Inr (xs, st1) \<Rightarrow> Option.bind (read_segments g ps ns st1 s) (\<lambda>q.
          Some (bind_res q (\<lambda>(xss, st2). Inr (xs # xss, st2)))))"

subsection \<open>Pages\<close>

text \<open>The page size is the cluster size and every cluster has an address below \<open>2 ^ 64\<close>.\<close>

definition page_geometry :: "fat_globals \<Rightarrow> u64 \<Rightarrow> bool" where
  "page_geometry g ps \<longleftrightarrow> ps = ucast (mi_cluster_size (meta_info g)) \<and> 16 \<le> unat ps
     \<and> 0 < mi_data_start (meta_info g) \<and> mi_data_start (meta_info g) + 2 ^ 32 * unat ps < 2 ^ 64"

definition page_region :: "fat_globals \<Rightarrow> u64 \<Rightarrow> u32 \<Rightarrow> nat set" where
  "page_region g ps c = {cluster_start g c..<cluster_start g c + unat ps}"

lemma cluster_start_nat:
  assumes "2 \<le> unat c"
  shows "cluster_start g c = mi_data_start (meta_info g) + (unat c - 2) * unat (mi_cluster_size (meta_info g))"
proof -
  have c: "unat (c - FAT_START_INDEX) = unat c - 2"
    using assms by (simp add: FAT_START_INDEX_def unat_sub_no_underflow)
  have "(unat c - 2) * unat (mi_cluster_size (meta_info g)) \<le> 4294967295 * 4294967295"
    using unat_u32_bound [of c] unat_u32_bound [of "mi_cluster_size (meta_info g)"]
    by (intro mult_le_mono) linarith+
  then have "unat (ucast (c - FAT_START_INDEX) * ucast (mi_cluster_size (meta_info g)) :: u64)
      = (unat c - 2) * unat (mi_cluster_size (meta_info g))"
    by (subst unat_mult_no_overflow) (simp_all add: c)
  then show ?thesis by (simp add: cluster_start_def)
qed

lemma page_geometry_size: "page_geometry g ps \<Longrightarrow> unat (mi_cluster_size (meta_info g)) = unat ps"
  by (simp add: page_geometry_def)

lemma page_geometry_small: "page_geometry g ps \<Longrightarrow> unat ps < 4294967296"
  using unat_u32_bound [of "mi_cluster_size (meta_info g)"] by (simp add: page_geometry_def)

lemma page_regions_disjoint:
  assumes "page_geometry g ps" and "2 \<le> unat c" "2 \<le> unat d" and "c \<noteq> d"
  shows "page_region g ps c \<inter> page_region g ps d = {}"
proof -
  have less: "cluster_start g c + unat ps \<le> cluster_start g d"
    if "2 \<le> unat c" "unat c < unat d" for c d
  proof -
    have "(unat c - 2 + 1) * unat ps \<le> (unat d - 2) * unat ps"
      using that by (intro mult_le_mono1) linarith
    then show ?thesis
      using that by (simp add: cluster_start_nat page_geometry_size [OF assms(1)])
  qed
  have "unat c < unat d \<or> unat d < unat c"
    using assms(4) by (meson linorder_neqE_nat unsigned_word_eqI)
  then show ?thesis
    using less [of c d] less [of d c] assms(2,3) by (auto simp: page_region_def)
qed

lemma page_address:
  assumes "page_geometry g ps" and "2 \<le> unat c"
  shows "0 < cluster_start g c" and "cluster_start g c + unat ps < 2 ^ 64"
proof -
  have "unat c - 2 + 1 \<le> 4294967296" using unat_u32_bound [of c] assms(2) by linarith
  then have "unat c - 2 + 1 \<le> 2 ^ 32" by simp
  then have "(unat c - 2 + 1) * unat ps \<le> 2 ^ 32 * unat ps" by (rule mult_le_mono1)
  moreover have "mi_data_start (meta_info g) + 2 ^ 32 * unat ps < 2 ^ 64"
    using assms(1) unfolding page_geometry_def by blast
  moreover have "cluster_start g c + unat ps = mi_data_start (meta_info g) + (unat c - 2 + 1) * unat ps"
    by (simp only: cluster_start_nat [OF assms(2)] page_geometry_size [OF assms(1)]) algebra
  ultimately show "cluster_start g c + unat ps < 2 ^ 64" by linarith
  show "0 < cluster_start g c"
    using assms by (simp add: cluster_start_nat page_geometry_def)
qed

subsection \<open>The invariant of a writer\<close>

text \<open>
  A writer's page is the cluster \<open>c\<close>; \<open>old\<close> are the bytes of the pages it has filled before.
  None of them is in a free cluster, so a new page never overlaps them.
\<close>

definition stream_inv ::
  "fat_globals \<Rightarrow> u64 \<Rightarrow> nat set \<Rightarrow> u32 \<Rightarrow> stream \<Rightarrow> 'a io_state_scheme \<Rightarrow> bool" where
  "stream_inv g ps old c st s \<longleftrightarrow>
     page_geometry g ps \<and> alloc_wf (alloc s)
     \<and> \<not> cluster_free (alloc s) 0 \<and> \<not> cluster_free (alloc s) 1
     \<and> 2 \<le> unat c \<and> \<not> cluster_free (alloc s) (unat c)
     \<and> st_page st = cluster_start g c \<and> 8 \<le> unat (st_offset st) \<and> unat (st_offset st) \<le> unat ps
     \<and> old \<inter> page_region g ps c = {}
     \<and> (\<forall>d. 2 \<le> unat d \<longrightarrow> cluster_free (alloc s) (unat d) \<longrightarrow> old \<inter> page_region g ps d = {})"

definition used_bytes :: "nat set \<Rightarrow> stream \<Rightarrow> nat set" where
  "used_bytes old st = old \<union> {st_page st + 8..<st_page st + unat (st_offset st)}"

definition agree_on :: "nat set \<Rightarrow> memory \<Rightarrow> memory \<Rightarrow> bool" where
  "agree_on A m m' \<longleftrightarrow> (\<forall>x \<in> A. m x = m' x)"

lemma agree_on_mono: "agree_on A m m' \<Longrightarrow> B \<subseteq> A \<Longrightarrow> agree_on B m m'"
  by (auto simp: agree_on_def)

lemma agree_on_trans: "agree_on A m m' \<Longrightarrow> agree_on A m' m'' \<Longrightarrow> agree_on A m m''"
  by (simp add: agree_on_def)

lemma agree_on_sym: "agree_on A m m' \<Longrightarrow> agree_on A m' m"
  by (simp add: agree_on_def)

lemma agree_on_load_u64: "agree_on A m m' \<Longrightarrow> {a..<a + 8} \<subseteq> A \<Longrightarrow> load_u64 m a = load_u64 m' a"
  by (rule u64.load_cong) (auto simp: agree_on_def)

lemma agree_on_load_bytes: "agree_on A m m' \<Longrightarrow> {a..<a + n} \<subseteq> A \<Longrightarrow> load_bytes m a n = load_bytes m' a n"
  by (rule load_bytes_cong) (auto simp: agree_on_def)

lemma allocatePage_spec:
  assumes "alloc_wf (alloc s)" and "\<not> cluster_free (alloc s) 0" "\<not> cluster_free (alloc s) 1"
    and "allocatePage g s = Inr (p, s1)"
  shows "\<exists>d. 2 \<le> unat d \<and> p = cluster_start g d \<and> cluster_free (alloc s) (unat d)
    \<and> mem s1 = mem s \<and> alloc_wf (alloc s1) \<and> same_setup (alloc s) (alloc s1)
    \<and> (\<forall>c. cluster_free (alloc s1) c \<longleftrightarrow> cluster_free (alloc s) c \<and> c \<noteq> unat d)"
proof -
  from assms(4) obtain e a1 where e: "allocate_extent 1 (alloc s) = Inr (e, a1)"
    and p: "p = cluster_start g (fe_physical_start e)" and s1: "s1 = s\<lparr>alloc := a1\<rparr>"
    by (auto simp: allocatePage_def Let_def elim!: bind_resE)
  let ?d = "fe_physical_start e"
  have "unat (fe_length e) = 1" using clusters.alloc_length [OF assms(1) e] by simp
  then have cl: "extent_clusters e = {unat ?d}" by (auto simp: extent_clusters_def extent_end_def)
  have free: "cluster_free (alloc s) (unat ?d)" using clusters.alloc_was_free [OF assms(1) e] cl by simp
  have "unat ?d \<noteq> 0" "unat ?d \<noteq> 1" using free assms(2,3) by metis+
  then have "2 \<le> unat ?d" by linarith
  moreover have "same_setup (alloc s) a1"
    using allocate_extent_spec [OF assms(1), of 1] e by (auto simp: taken_def)
  ultimately show ?thesis
    using free p s1 cl clusters.alloc_ok [OF assms(1) e] clusters.alloc_takes [OF assms(1) e] by auto
qed

text \<open>
  Bytes that belong to no page of the stream and to no free cluster: whatever the stream
  does, it leaves them alone.
\<close>

definition outside_stream ::
  "fat_globals \<Rightarrow> u64 \<Rightarrow> nat set \<Rightarrow> u32 \<Rightarrow> alloc_state \<Rightarrow> nat set \<Rightarrow> bool" where
  "outside_stream g ps old c a X \<longleftrightarrow> X \<inter> old = {} \<and> X \<inter> page_region g ps c = {}
     \<and> (\<forall>d. 2 \<le> unat d \<longrightarrow> cluster_free a (unat d) \<longrightarrow> X \<inter> page_region g ps d = {})"

text \<open>
  The writer's step: it returns fresh bytes, keeps every byte used so far, and a reader of
  any memory that agrees with the result on the newly used bytes moves the same way.
\<close>

lemma iterate_advance_insert:
  fixes s :: "'a io_state_scheme"
  assumes inv: "stream_inv g ps old c st s" and len: "unat n + 8 \<le> unat ps"
    and adv: "iterate_advance g ps True n st s = Inr (a, st', s')"
  shows "\<exists>old' c'. stream_inv g ps old' c' st' s' \<and> a \<noteq> 0
    \<and> used_bytes old st \<subseteq> used_bytes old' st'
    \<and> {a..<a + unat n} \<subseteq> used_bytes old' st' - used_bytes old st
    \<and> agree_on (used_bytes old st) (mem s) (mem s')
    \<and> st_header st' = st_header st \<and> st_index st' = st_index st \<and> same_setup (alloc s) (alloc s')
    \<and> (\<forall>X. outside_stream g ps old c (alloc s) X \<longrightarrow> outside_stream g ps old' c' (alloc s') X
         \<and> agree_on X (mem s) (mem s') \<and> {a..<a + unat n} \<inter> X = {})
    \<and> (\<forall>r :: 'a io_state_scheme. agree_on (used_bytes old' st' - used_bytes old st - {a..<a + unat n}) (mem s') (mem r) \<longrightarrow>
         iterate_advance g ps False n st r = Inr (a, st', r))"
proof -
  have geo: "page_geometry g ps" and c: "2 \<le> unat c" "st_page st = cluster_start g c"
    and off: "8 \<le> unat (st_offset st)" "unat (st_offset st) \<le> unat ps"
    using inv by (auto simp: stream_inv_def)
  have ps: "unat ps < 4294967296" by (rule page_geometry_small [OF geo])
  have page: "st_page st \<noteq> 0" using page_address(1) [OF geo c(1)] c(2) by simp
  have sum: "unat (st_offset st + n) = unat (st_offset st) + unat n"
    using off(2) len ps by (subst unat_add_no_overflow) simp_all
  show ?thesis
  proof (cases "ps < st_offset st + n")
    case False
    then have fits: "unat (st_offset st) + unat n \<le> unat ps"
      by (simp add: not_less word_le_nat_alt sum)
    have r: "a = st_page st + unat (st_offset st)" "st' = st\<lparr>st_offset := st_offset st + n\<rparr>" "s' = s"
      using adv False page by (auto simp: iterate_advance_def)
    have "stream_inv g ps old c st' s'" using inv fits off by (simp add: stream_inv_def r sum)
    moreover have "{a..<a + unat n} \<subseteq> page_region g ps c"
      using fits off by (auto simp: page_region_def r c(2))
    then have "{a..<a + unat n} \<inter> X = {}" if "outside_stream g ps old c (alloc s) X" for X
      using that by (auto simp: outside_stream_def)
    moreover have "{a..<a + unat n} \<subseteq> used_bytes old st' - used_bytes old st"
    proof
      fix x assume x: "x \<in> {a..<a + unat n}"
      then have "x \<in> page_region g ps c" using fits off by (auto simp: page_region_def r c(2))
      then have "x \<notin> old" using inv by (auto simp: stream_inv_def)
      then show "x \<in> used_bytes old st' - used_bytes old st"
        using x off by (auto simp: used_bytes_def r sum)
    qed
    moreover have "used_bytes old st \<subseteq> used_bytes old st'" by (auto simp: used_bytes_def r sum)
    moreover have "iterate_advance g ps False n st r = Inr (a, st', r)" for r :: "'a io_state_scheme"
      using False page by (simp add: iterate_advance_def r)
    ultimately show ?thesis using page r by (auto simp: agree_on_def)
  next
    case True
    from adv True obtain p s1 where p: "allocatePage g s = Inr (p, s1)"
      and s': "s' = s1\<lparr>mem := store_u64 (store_u64 (mem s1) (st_page st) (word_of_nat p)) p 0\<rparr>"
      and st': "st' = st\<lparr>st_page := p, st_offset := sizeof_page + n\<rparr>"
      and a: "a = p + unat sizeof_page"
      by (auto simp: iterate_advance_def Let_def elim!: bind_resE split: if_splits)
    obtain d where d: "2 \<le> unat d" "p = cluster_start g d" "cluster_free (alloc s) (unat d)"
      "mem s1 = mem s" "alloc_wf (alloc s1)"
      "same_setup (alloc s) (alloc s1)"
      "\<And>c. cluster_free (alloc s1) c \<longleftrightarrow> cluster_free (alloc s) c \<and> c \<noteq> unat d"
      using allocatePage_spec [OF _ _ _ p] inv by (auto simp: stream_inv_def)
    have cd: "c \<noteq> d" using inv d(3) by (auto simp: stream_inv_def)
    have disj: "page_region g ps c \<inter> page_region g ps d = {}"
      by (rule page_regions_disjoint [OF geo c(1) d(1) cd])
    define old' where "old' = old \<union> page_region g ps c"
    have sz: "unat sizeof_page = 8" by (simp add: sizeof_page_def)
    have off': "unat (sizeof_page + n) = 8 + unat n"
      using len ps by (subst unat_add_no_overflow) (simp_all add: sz)
    have used': "used_bytes old' st' = old' \<union> {p + 8..<p + 8 + unat n}"
      by (simp add: used_bytes_def st' off' add.assoc)
    have new: "{p + 8..<p + 8 + unat n} \<subseteq> page_region g ps d"
      using len by (auto simp: page_region_def d(2))
    have olds: "used_bytes old st \<subseteq> old'"
      using off by (auto simp: used_bytes_def old'_def page_region_def c(2))
    have oldd: "old' \<inter> page_region g ps d = {}"
      using inv d(1,3) disj by (auto simp: old'_def stream_inv_def)
    have "stream_inv g ps old' d st' s'"
    proof -
      have "old' \<inter> page_region g ps e = {}" if "2 \<le> unat e" "cluster_free (alloc s1) (unat e)" for e
      proof -
        have "cluster_free (alloc s) (unat e)" using that(2) d(7) by blast
        moreover from this have "c \<noteq> e" using inv by (auto simp: stream_inv_def)
        ultimately show ?thesis
          using inv that(1) page_regions_disjoint [OF geo c(1) that(1)] by (auto simp: old'_def stream_inv_def)
      qed
      then show ?thesis
        using inv d oldd len by (auto simp: stream_inv_def st' s' off')
    qed
    moreover have "{a..<a + unat n} \<subseteq> used_bytes old' st' - used_bytes old st"
      using new oldd olds by (auto simp: used' a sz)
    moreover have next_bytes: "{st_page st..<st_page st + 8} \<inter> used_bytes old st = {}"
    proof -
      have "{st_page st..<st_page st + 8} \<subseteq> page_region g ps c"
        using off by (auto simp: page_region_def c(2))
      then show ?thesis using inv by (auto simp: used_bytes_def stream_inv_def)
    qed
    moreover have "agree_on (used_bytes old st) (mem s) (mem s')"
    proof -
      have "{p..<p + 8} \<subseteq> page_region g ps d" using off by (auto simp: page_region_def d(2))
      then have "x \<notin> {p..<p + 8}" if "x \<in> used_bytes old st" for x using oldd olds that by blast
      moreover have "x \<notin> {st_page st..<st_page st + 8}" if "x \<in> used_bytes old st" for x
        using next_bytes that by blast
      ultimately show ?thesis unfolding agree_on_def s' by (simp add: d(4) u64.store_frame)
    qed
    moreover have "iterate_advance g ps False n st r = Inr (a, st', r)"
      if ag: "agree_on (used_bytes old' st' - used_bytes old st - {a..<a + unat n}) (mem s') (mem r)" for r :: "'a io_state_scheme"
    proof -
      have "{st_page st..<st_page st + 8} \<subseteq> old'"
        using off by (auto simp: old'_def page_region_def c(2))
      moreover have "{a..<a + unat n} \<subseteq> page_region g ps d"
        using len by (auto simp: page_region_def d(2) a sz)
      ultimately have "{st_page st..<st_page st + 8} \<subseteq> used_bytes old' st' - used_bytes old st - {a..<a + unat n}"
        using next_bytes oldd unfolding used' by blast
      then have "load_u64 (mem r) (st_page st) = load_u64 (mem s') (st_page st)"
        using agree_on_load_u64 [OF ag] by simp
      also have "\<dots> = word_of_nat p"
      proof -
        have "{st_page st..<st_page st + 8} \<inter> {p..<p + 8} = {}"
        proof -
          have "{p..<p + 8} \<subseteq> page_region g ps d" using off by (auto simp: page_region_def d(2))
          moreover have "{st_page st..<st_page st + 8} \<subseteq> page_region g ps c"
            using off by (auto simp: page_region_def c(2))
          ultimately show ?thesis using disj by blast
        qed
        then have "st_page st + 8 \<le> p \<or> p + 8 \<le> st_page st"
          by simp linarith
        then have "load_u64 (mem s') (st_page st) = load_u64 (store_u64 (mem s1) (st_page st) (word_of_nat p)) (st_page st)"
          by (simp add: s' u64.load_store_disjoint)
        then show ?thesis by (simp add: u64.load_store)
      qed
      finally have next_page: "unat (load_u64 (mem r) (st_page st)) = p"
      proof -
        assume "load_u64 (mem r) (st_page st) = word_of_nat p"
        moreover have "p < 2 ^ LENGTH(64)" using page_address(2) [OF geo d(1)] d(2) by simp
        ultimately show ?thesis by (simp only: unat_of_nat mod_less)
      qed
      moreover have "p \<noteq> 0" using page_address(1) [OF geo d(1)] d(2) by simp
      ultimately show ?thesis using True page by (simp add: iterate_advance_def st' a)
    qed
    moreover have "outside_stream g ps old' d (alloc s') X \<and> agree_on X (mem s) (mem s')
        \<and> {a..<a + unat n} \<inter> X = {}" if X: "outside_stream g ps old c (alloc s) X" for X
    proof -
      have dX: "X \<inter> page_region g ps d = {}" and cX: "X \<inter> page_region g ps c = {}"
        using X d(1,3) by (auto simp: outside_stream_def)
      have "{p..<p + 8} \<subseteq> page_region g ps d" "{st_page st..<st_page st + 8} \<subseteq> page_region g ps c"
        using off by (auto simp: page_region_def d(2) c(2))
      then have "x \<notin> {p..<p + 8}" "x \<notin> {st_page st..<st_page st + 8}" if "x \<in> X" for x
        using that dX cX by blast+
      then have "agree_on X (mem s) (mem s')"
        unfolding agree_on_def s' by (simp add: d(4) u64.store_frame)
      moreover have "outside_stream g ps old' d (alloc s') X"
        using X dX cX d(7) by (auto simp: outside_stream_def old'_def s')
      moreover have "{a..<a + unat n} \<inter> X = {}" using new dX by (auto simp: a sz)
      ultimately show ?thesis by blast
    qed
    moreover have "used_bytes old st \<subseteq> used_bytes old' st'" using olds by (auto simp: used')
    moreover have "a \<noteq> 0" by (simp add: a sz)
    ultimately show ?thesis using d(6) by (auto simp: st' s' intro!: exI [of _ old'] exI [of _ d])
  qed
qed

lemma iterate_advance_insert_total:
  assumes "stream_inv g ps old c st s" and "iterate_advance g ps True n st s = Inl err"
  shows "err = Fs_Too_Small"
proof -
  have wf: "alloc_wf (alloc s)" and free: "\<not> cluster_free (alloc s) 0" "\<not> cluster_free (alloc s) 1"
    and geo: "page_geometry g ps" and c: "2 \<le> unat c" "st_page st = cluster_start g c"
    using assms(1) by (auto simp: stream_inv_def)
  have page: "st_page st \<noteq> 0" using page_address(1) [OF geo c(1)] c(2) by simp
  have new: "p \<noteq> 0" if "allocatePage g s = Inr (p, s1)" for p s1
    using allocatePage_spec [OF wf free that] page_address(1) [OF geo] by auto
  have "err = Fs_Too_Small" if "allocatePage g s = Inl err"
    using that allocate_extent_spec [OF wf, of 1]
    by (auto simp: allocatePage_def bind_res_eq_Inl Let_def)
  then show ?thesis
    using assms(2) page new
    by (auto simp: iterate_advance_def Let_def bind_res_eq_Inl bind_res_eq_Inr split: if_splits)
qed

subsection \<open>What is written is read back\<close>

lemma stream_inv_frame [simp]:
  "stream_inv g ps old c (st\<lparr>st_index := i\<rparr>) s = stream_inv g ps old c st s"
  "stream_inv g ps old c (st\<lparr>st_header := h\<rparr>) s = stream_inv g ps old c st s"
  "stream_inv g ps old c st (s\<lparr>mem := m\<rparr>) = stream_inv g ps old c st s"
  by (simp_all add: stream_inv_def)

lemma used_bytes_frame [simp]:
  "used_bytes old (st\<lparr>st_index := i\<rparr>) = used_bytes old st"
  "used_bytes old (st\<lparr>st_header := h\<rparr>) = used_bytes old st"
  by (simp_all add: used_bytes_def)

lemma write_elements_spec:
  fixes s :: "'a io_state_scheme"
  assumes "stream_inv g ps old c st s" and len: "unat n + 8 \<le> unat ps"
    and "list_all (\<lambda>x. length x = unat n) xs"
    and "write_elements g ps n xs st s = Inr (st', s')"
  shows "\<exists>old' c'. stream_inv g ps old' c' st' s' \<and> used_bytes old st \<subseteq> used_bytes old' st'
    \<and> agree_on (used_bytes old st) (mem s) (mem s')
    \<and> st_header st' = st_header st \<and> st_index st' = st_index st + word_of_nat (length xs)
    \<and> (\<forall>(r :: 'a io_state_scheme) ys st''.
         agree_on (used_bytes old' st' - used_bytes old st) (mem s') (mem r) \<longrightarrow> st_header st \<noteq> 0 \<longrightarrow>
         unat (st_index st) + length xs \<le> unat (load_u64 (mem r) (st_header st)) \<longrightarrow>
         read_segment g ps n st' r = Some (Inr (ys, st'')) \<longrightarrow>
         read_segment g ps n st r = Some (Inr (xs @ ys, st'')))"
  using assms(1,3,4)
proof (induction xs arbitrary: old c st s)
  case Nil
  then show ?case by (auto simp: agree_on_def)
next
  case (Cons x xs)
  let ?st = "st\<lparr>st_index := st_index st + 1\<rparr>"
  obtain a st1 s1 where it: "iterate_advance g ps True n ?st s = Inr (a, st1, s1)"
    and rest: "write_elements g ps n xs st1 (s1\<lparr>mem := store_bytes (mem s1) a x\<rparr>) = Inr (st', s')"
    using Cons.prems(3) by (auto simp: iterateStreamArchiver_def elim!: bind_resE)
  have x: "length x = unat n" and xs: "list_all (\<lambda>x. length x = unat n) xs" using Cons.prems(2) by auto
  have inv: "stream_inv g ps old c ?st s" using Cons.prems(1) by simp
  obtain old1 c1 where adv: "stream_inv g ps old1 c1 st1 s1" "a \<noteq> 0"
    "used_bytes old st \<subseteq> used_bytes old1 st1"
    "{a..<a + unat n} \<subseteq> used_bytes old1 st1 - used_bytes old st"
    "agree_on (used_bytes old st) (mem s) (mem s1)"
    "st_header st1 = st_header st" "st_index st1 = st_index st + 1"
    "\<And>r :: 'a io_state_scheme. agree_on (used_bytes old1 st1 - used_bytes old st - {a..<a + unat n}) (mem s1) (mem r)
       \<Longrightarrow> iterate_advance g ps False n ?st r = Inr (a, st1, r)"
    using iterate_advance_insert [OF inv len it] by auto
  define m1 where "m1 = store_bytes (mem s1) a x"
  have m1: "agree_on (- {a..<a + unat n}) (mem s1) m1"
    by (auto simp: agree_on_def m1_def store_bytes_frame x)
  from Cons.IH [OF _ xs rest, of old1 c1] adv(1)
  obtain old' c' where IH: "stream_inv g ps old' c' st' s'" "used_bytes old1 st1 \<subseteq> used_bytes old' st'"
    "agree_on (used_bytes old1 st1) m1 (mem s')"
    "st_header st' = st_header st1" "st_index st' = st_index st1 + word_of_nat (length xs)"
    "\<And>(r :: 'a io_state_scheme) ys st''. agree_on (used_bytes old' st' - used_bytes old1 st1) (mem s') (mem r)
       \<Longrightarrow> st_header st1 \<noteq> 0 \<Longrightarrow> unat (st_index st1) + length xs \<le> unat (load_u64 (mem r) (st_header st1))
       \<Longrightarrow> read_segment g ps n st' r = Some (Inr (ys, st''))
       \<Longrightarrow> read_segment g ps n st1 r = Some (Inr (xs @ ys, st''))"
    unfolding m1_def by auto
  have "agree_on (used_bytes old st) (mem s) (mem s')"
  proof -
    have "agree_on (used_bytes old st) (mem s1) m1"
      using m1 adv(4) by (auto simp: agree_on_def)
    then show ?thesis
      using adv(3,5) IH(3) by (meson agree_on_mono agree_on_trans)
  qed
  moreover have "read_segment g ps n st r = Some (Inr ((x # xs) @ ys, st''))"
    if ag: "agree_on (used_bytes old' st' - used_bytes old st) (mem s') (mem r)" and h: "st_header st \<noteq> 0"
      and cnt: "unat (st_index st) + length (x # xs) \<le> unat (load_u64 (mem r) (st_header st))"
      and fin: "read_segment g ps n st' r = Some (Inr (ys, st''))" for r :: "'a io_state_scheme" and ys st''
  proof -
    have "unat (st_index st) + 1 < 18446744073709551616"
      using cnt [unfolded list.size] unat_u64_bound [of "load_u64 (mem r) (st_header st)"] by linarith
    then have i1: "unat (st_index st + 1) = unat (st_index st) + 1"
      by (subst unat_add_no_overflow) simp_all
    have "agree_on (used_bytes old' st' - used_bytes old1 st1) (mem s') (mem r)"
      using ag adv(3) by (rule_tac agree_on_mono) auto
    then have tl: "read_segment g ps n st1 r = Some (Inr (xs @ ys, st''))"
      using IH(6) [of r ys st''] h cnt fin by (simp add: adv(6,7) i1)
    have "agree_on (used_bytes old1 st1 - used_bytes old st) (mem s') (mem r)"
      using ag IH(2) by (rule_tac agree_on_mono) auto
    then have near: "agree_on (used_bytes old1 st1 - used_bytes old st) m1 (mem r)"
      using IH(3) by (auto simp: agree_on_def)
    then have "agree_on (used_bytes old1 st1 - used_bytes old st - {a..<a + unat n}) (mem s1) (mem r)"
      using m1 by (auto simp: agree_on_def)
    then have step: "iterate_advance g ps False n ?st r = Inr (a, st1, r)" by (rule adv(8))
    have "load_bytes (mem r) a (unat n) = load_bytes m1 a (unat n)"
      using agree_on_load_bytes [OF agree_on_mono [OF near adv(4)]] by simp
    also have "\<dots> = x" using load_store_bytes [of "mem s1" a x] by (simp add: m1_def x)
    finally have payload: "load_bytes (mem r) a (unat n) = x" .
    have "\<not> load_u64 (mem r) (st_header st) < st_index st + 1"
      using cnt by (simp add: word_less_nat_alt i1)
    then have "getNext g ps n st r = Inr (a, st1, r)"
      using h step by (simp add: getNext_def iterateStreamArchiver_def)
    then show ?thesis
      using adv(2) tl payload by (subst read_segment.simps) simp
  qed
  ultimately show ?case
    using IH(1,2,4,5) adv(3,6,7) by (intro exI [of _ old'] exI [of _ c']) (auto simp: algebra_simps)
qed

text \<open>
  Between two segments the writer stands behind a fresh header; everything it used except
  that header is stable until the segment is cut.
\<close>

definition writer_at ::
  "fat_globals \<Rightarrow> u64 \<Rightarrow> nat set \<Rightarrow> u32 \<Rightarrow> stream \<Rightarrow> 'a io_state_scheme \<Rightarrow> bool" where
  "writer_at g ps old c st s \<longleftrightarrow> stream_inv g ps old c st s \<and> st_header st \<noteq> 0 \<and> st_index st = 0
     \<and> {st_header st..<st_header st + 8} \<subseteq> used_bytes old st"

definition stable_bytes :: "nat set \<Rightarrow> stream \<Rightarrow> nat set" where
  "stable_bytes old st = used_bytes old st - {st_header st..<st_header st + 8}"

lemma start_segment:
  fixes s :: "'a io_state_scheme"
  assumes inv: "stream_inv g ps old c st s"
    and it: "iterate_advance g ps True sizeof_header (st\<lparr>st_index := 0\<rparr>) s = Inr (h, st1, s')"
  defines "st' \<equiv> st1\<lparr>st_header := h\<rparr>"
  shows "\<exists>old' c'. writer_at g ps old' c' st' s' \<and> used_bytes old st \<subseteq> stable_bytes old' st'
    \<and> agree_on (used_bytes old st) (mem s) (mem s')
    \<and> same_setup (alloc s) (alloc s')
    \<and> (\<forall>X. outside_stream g ps old c (alloc s) X \<longrightarrow>
         outside_stream g ps old' c' (alloc s') X \<and> agree_on X (mem s) (mem s'))
    \<and> (\<forall>r :: 'a io_state_scheme. agree_on (stable_bytes old' st' - used_bytes old st) (mem s') (mem r) \<longrightarrow>
         iterate_advance g ps False sizeof_header (st\<lparr>st_index := 0\<rparr>) r = Inr (h, st1, r))"
proof -
  have sz: "unat sizeof_header = 8" by (simp add: sizeof_header_def)
  have inv0: "stream_inv g ps old c (st\<lparr>st_index := 0\<rparr>) s" using inv by simp
  have "16 \<le> unat ps" using inv unfolding stream_inv_def page_geometry_def by blast
  then have "unat sizeof_header + 8 \<le> unat ps" by (simp add: sz)
  from iterate_advance_insert [OF inv0 this it]
  obtain old' c' where adv: "stream_inv g ps old' c' st1 s'" "h \<noteq> 0"
    "used_bytes old st \<subseteq> used_bytes old' st1" "{h..<h + 8} \<subseteq> used_bytes old' st1 - used_bytes old st"
    "agree_on (used_bytes old st) (mem s) (mem s')" "st_index st1 = 0"
    "same_setup (alloc s) (alloc s')"
    "\<forall>X. outside_stream g ps old c (alloc s) X \<longrightarrow>
       outside_stream g ps old' c' (alloc s') X \<and> agree_on X (mem s) (mem s')"
    "\<And>r :: 'a io_state_scheme. agree_on (used_bytes old' st1 - used_bytes old st - {h..<h + 8}) (mem s') (mem r)
       \<Longrightarrow> iterate_advance g ps False sizeof_header (st\<lparr>st_index := 0\<rparr>) r = Inr (h, st1, r)"
    unfolding sz by auto
  have "writer_at g ps old' c' st' s'" using adv by (auto simp: writer_at_def st'_def)
  moreover have "used_bytes old st \<subseteq> stable_bytes old' st'"
    using adv(3,4) by (auto simp: stable_bytes_def st'_def)
  moreover have "iterate_advance g ps False sizeof_header (st\<lparr>st_index := 0\<rparr>) r = Inr (h, st1, r)"
    if "agree_on (stable_bytes old' st' - used_bytes old st) (mem s') (mem r)" for r :: "'a io_state_scheme"
    using that by (intro adv(9)) (auto simp: stable_bytes_def st'_def agree_on_def)
  ultimately show ?thesis using adv(5,7,8) by blast
qed

lemma cutStreamArchiver_spec:
  fixes s :: "'a io_state_scheme"
  assumes inv: "stream_inv g ps old c st s"
    and h: "st_header st \<noteq> 0" "{st_header st..<st_header st + 8} \<subseteq> used_bytes old st"
    and cut: "cutStreamArchiver g ps st s = Inr (st', s')" and i: "unat (st_index st) + 1 < 2 ^ 64"
  shows "\<exists>old' c'. writer_at g ps old' c' st' s' \<and> used_bytes old st \<subseteq> stable_bytes old' st'
    \<and> agree_on (stable_bytes old st) (mem s) (mem s')
    \<and> load_u64 (mem s') (st_header st) = st_index st
    \<and> same_setup (alloc s) (alloc s')
    \<and> (\<forall>X. outside_stream g ps old c (alloc s) X \<longrightarrow>
         outside_stream g ps old' c' (alloc s') X \<and> agree_on X (mem s) (mem s'))
    \<and> (\<forall>(r :: 'a io_state_scheme) n. agree_on (stable_bytes old' st' - stable_bytes old st) (mem s') (mem r) \<longrightarrow>
         read_segment g ps n st r = Some (Inr ([], st')))"
proof -
  let ?h = "st_header st"
  let ?s1 = "s\<lparr>mem := store_u64 (mem s) ?h (st_index st)\<rparr>"
  have "st_page st \<noteq> 0" using inv page_address(1) [of g ps c] by (auto simp: stream_inv_def)
  then obtain h' st1 where it: "iterate_advance g ps True sizeof_header (st\<lparr>st_index := 0\<rparr>) ?s1 = Inr (h', st1, s')"
    and st': "st' = st1\<lparr>st_header := h'\<rparr>"
    using cut h(1) by (auto simp: cutStreamArchiver_def iterateStreamArchiver_def elim!: bind_resE)
  have "stream_inv g ps old c st ?s1" using inv by simp
  from start_segment [OF this it]
  obtain old' c' where seg: "writer_at g ps old' c' st' s'" "used_bytes old st \<subseteq> stable_bytes old' st'"
    "agree_on (used_bytes old st) (mem ?s1) (mem s')" "same_setup (alloc ?s1) (alloc s')"
    "\<forall>X. outside_stream g ps old c (alloc ?s1) X \<longrightarrow>
       outside_stream g ps old' c' (alloc s') X \<and> agree_on X (mem ?s1) (mem s')"
    "\<And>r :: 'a io_state_scheme. agree_on (stable_bytes old' st' - used_bytes old st) (mem s') (mem r) \<Longrightarrow>
         iterate_advance g ps False sizeof_header (st\<lparr>st_index := 0\<rparr>) r = Inr (h', st1, r)"
    unfolding st' by blast
  have cnt: "load_u64 (mem s') ?h = st_index st"
    using agree_on_load_u64 [OF seg(3) h(2)] by (simp add: u64.load_store)
  have "agree_on (stable_bytes old st) (mem s) (mem ?s1)"
    by (auto simp: agree_on_def stable_bytes_def u64.store_frame)
  moreover have "agree_on (stable_bytes old st) (mem ?s1) (mem s')"
    using seg(3) by (rule agree_on_mono) (auto simp: stable_bytes_def)
  ultimately have frame: "agree_on (stable_bytes old st) (mem s) (mem s')" by (rule agree_on_trans)
  have "read_segment g ps n st r = Some (Inr ([], st'))"
    if ag: "agree_on (stable_bytes old' st' - stable_bytes old st) (mem s') (mem r)" for r :: "'a io_state_scheme" and n
  proof -
    have "{?h..<?h + 8} \<subseteq> stable_bytes old' st' - stable_bytes old st"
      using h(2) seg(2) by (auto simp: stable_bytes_def [of old])
    then have "load_u64 (mem r) ?h = st_index st" using agree_on_load_u64 [OF ag] cnt by simp
    moreover have "unat (st_index st + 1) = unat (st_index st) + 1"
      using i by (subst unat_add_no_overflow) simp_all
    then have "st_index st < st_index st + 1" by (simp add: word_less_nat_alt)
    moreover have "iterate_advance g ps False sizeof_header (st\<lparr>st_index := 0\<rparr>) r = Inr (h', st1, r)"
      using ag by (intro seg(6)) (auto simp: agree_on_def stable_bytes_def [of old])
    ultimately have "getNext g ps n st r = Inr (0, st', r)"
      using h(1) by (simp add: getNext_def iterateStreamArchiver_def st')
    then show ?thesis by (subst read_segment.simps) simp
  qed
  moreover have "outside_stream g ps old' c' (alloc s') X \<and> agree_on X (mem s) (mem s')"
    if X: "outside_stream g ps old c (alloc s) X" for X
  proof -
    have "used_bytes old st \<subseteq> old \<union> page_region g ps c"
      using inv by (auto simp: used_bytes_def page_region_def stream_inv_def)
    then have "X \<inter> {?h..<?h + 8} = {}" using h(2) X unfolding outside_stream_def by blast
    then have "x \<notin> {?h..<?h + 8}" if "x \<in> X" for x using that by blast
    then have "agree_on X (mem s) (mem ?s1)" unfolding agree_on_def by (simp add: u64.store_frame)
    then show ?thesis using seg(5) X agree_on_trans by fastforce
  qed
  moreover have "same_setup (alloc s) (alloc s')" using seg(4) by simp
  ultimately show ?thesis using seg(1,2) frame cnt by blast
qed

lemma write_segment_spec:
  fixes s :: "'a io_state_scheme"
  assumes w: "writer_at g ps old c st s" and len: "unat n + 8 \<le> unat ps"
    and xs: "list_all (\<lambda>x. length x = unat n) xs" "length xs + 1 < 2 ^ 64"
    and run: "write_segment g ps n xs st s = Inr (st', s')"
  shows "\<exists>old' c'. writer_at g ps old' c' st' s' \<and> stable_bytes old st \<subseteq> stable_bytes old' st'
    \<and> agree_on (stable_bytes old st) (mem s) (mem s')
    \<and> (\<forall>r :: 'a io_state_scheme. agree_on (stable_bytes old' st') (mem s') (mem r) \<longrightarrow>
         read_segment g ps n st r = Some (Inr (xs, st')))"
proof -
  let ?h = "st_header st"
  from run obtain st1 s1 where el: "write_elements g ps n xs st s = Inr (st1, s1)"
    and cut: "cutStreamArchiver g ps st1 s1 = Inr (st', s')"
    by (auto simp: write_segment_def elim!: bind_resE)
  have h: "?h \<noteq> 0" "{?h..<?h + 8} \<subseteq> used_bytes old st" "st_index st = 0" and inv: "stream_inv g ps old c st s"
    using w by (auto simp: writer_at_def)
  from write_elements_spec [OF inv len xs(1) el] h(1,3)
  obtain old1 c1 where e: "stream_inv g ps old1 c1 st1 s1" "used_bytes old st \<subseteq> used_bytes old1 st1"
    "agree_on (used_bytes old st) (mem s) (mem s1)" "st_header st1 = ?h"
    "st_index st1 = word_of_nat (length xs)"
    "\<And>(r :: 'a io_state_scheme) ys st''. agree_on (used_bytes old1 st1 - used_bytes old st) (mem s1) (mem r) \<Longrightarrow>
         length xs \<le> unat (load_u64 (mem r) ?h) \<Longrightarrow>
         read_segment g ps n st1 r = Some (Inr (ys, st'')) \<Longrightarrow>
         read_segment g ps n st r = Some (Inr (xs @ ys, st''))"
    by auto
  have "length xs < 2 ^ LENGTH(64)" using xs(2) by simp
  then have i1: "unat (st_index st1) = length xs" unfolding e(5) by (simp only: unat_of_nat mod_less)
  have h1: "{?h..<?h + 8} \<subseteq> used_bytes old1 st1" using h(2) e(2) by blast
  from cutStreamArchiver_spec [OF e(1) _ _ cut] h(1) h1 i1 xs(2)
  obtain old' c' where k: "writer_at g ps old' c' st' s'" "used_bytes old1 st1 \<subseteq> stable_bytes old' st'"
    "agree_on (stable_bytes old1 st1) (mem s1) (mem s')" "load_u64 (mem s') ?h = st_index st1"
    "\<And>(r :: 'a io_state_scheme) n. agree_on (stable_bytes old' st' - stable_bytes old1 st1) (mem s') (mem r) \<Longrightarrow>
         read_segment g ps n st1 r = Some (Inr ([], st'))"
    by (auto simp: e(4))
  have sub: "stable_bytes old st \<subseteq> stable_bytes old1 st1" using e(2) by (auto simp: stable_bytes_def e(4))
  have "agree_on (stable_bytes old st) (mem s) (mem s1)"
    using e(3) by (rule agree_on_mono) (auto simp: stable_bytes_def)
  then have frame: "agree_on (stable_bytes old st) (mem s) (mem s')"
    using agree_on_trans agree_on_mono [OF k(3) sub] by blast
  have "read_segment g ps n st r = Some (Inr (xs, st'))"
    if ag: "agree_on (stable_bytes old' st') (mem s') (mem r)" for r :: "'a io_state_scheme"
  proof -
    have "used_bytes old1 st1 - used_bytes old st \<subseteq> stable_bytes old1 st1"
      using h(2) by (auto simp: stable_bytes_def e(4))
    then have "agree_on (used_bytes old1 st1 - used_bytes old st) (mem s1) (mem s')"
      by (rule agree_on_mono [OF k(3)])
    moreover have "agree_on (used_bytes old1 st1 - used_bytes old st) (mem s') (mem r)"
      using k(2) by (intro agree_on_mono [OF ag]) blast
    ultimately have "agree_on (used_bytes old1 st1 - used_bytes old st) (mem s1) (mem r)"
      by (rule agree_on_trans)
    moreover have "load_u64 (mem r) ?h = st_index st1"
      using agree_on_load_u64 [OF ag] h1 k(2,4) by (metis order_trans)
    then have "length xs \<le> unat (load_u64 (mem r) ?h)" by (simp add: i1)
    moreover have "read_segment g ps n st1 r = Some (Inr ([], st'))"
      using ag by (intro k(5)) (auto simp: agree_on_def)
    ultimately show ?thesis using e(6) [of r "[]" st'] by simp
  qed
  moreover have "stable_bytes old st \<subseteq> stable_bytes old' st'"
    using sub k(2) by (auto simp: stable_bytes_def)
  ultimately show ?thesis using k(1) frame by blast
qed

lemma write_segments_spec:
  fixes s :: "'a io_state_scheme"
  assumes "writer_at g ps old c st s"
    and "list_all (\<lambda>(n, xs). unat n + 8 \<le> unat ps \<and> list_all (\<lambda>x. length x = unat n) xs
           \<and> length xs + 1 < 2 ^ 64) segs"
    and "write_segments g ps segs st s = Inr (st', s')"
  shows "\<exists>old' c'. writer_at g ps old' c' st' s' \<and> stable_bytes old st \<subseteq> stable_bytes old' st'
    \<and> agree_on (stable_bytes old st) (mem s) (mem s')
    \<and> (\<forall>r :: 'a io_state_scheme. agree_on (stable_bytes old' st') (mem s') (mem r) \<longrightarrow>
         read_segments g ps (map fst segs) st r = Some (Inr (map snd segs, st')))"
  using assms
proof (induction segs arbitrary: old c st s)
  case Nil
  then show ?case by (auto simp: agree_on_def)
next
  case (Cons seg segs)
  obtain n xs where seg: "seg = (n, xs)" by (cases seg)
  from Cons.prems(3) obtain st1 s1 where w: "write_segment g ps n xs st s = Inr (st1, s1)"
    and rest: "write_segments g ps segs st1 s1 = Inr (st', s')"
    by (auto simp: seg elim!: bind_resE)
  from write_segment_spec [OF Cons.prems(1) _ _ _ w] Cons.prems(2)
  obtain old1 c1 where a: "writer_at g ps old1 c1 st1 s1" "stable_bytes old st \<subseteq> stable_bytes old1 st1"
    "agree_on (stable_bytes old st) (mem s) (mem s1)"
    "\<And>r :: 'a io_state_scheme. agree_on (stable_bytes old1 st1) (mem s1) (mem r) \<Longrightarrow>
         read_segment g ps n st r = Some (Inr (xs, st1))"
    by (auto simp: seg)
  from Cons.IH [OF a(1) _ rest] Cons.prems(2)
  obtain old' c' where b: "writer_at g ps old' c' st' s'" "stable_bytes old1 st1 \<subseteq> stable_bytes old' st'"
    "agree_on (stable_bytes old1 st1) (mem s1) (mem s')"
    "\<And>r :: 'a io_state_scheme. agree_on (stable_bytes old' st') (mem s') (mem r) \<Longrightarrow>
         read_segments g ps (map fst segs) st1 r = Some (Inr (map snd segs, st'))"
    by auto
  have "read_segments g ps (map fst (seg # segs)) st r = Some (Inr (map snd (seg # segs), st'))"
    if r: "agree_on (stable_bytes old' st') (mem s') (mem r)" for r :: "'a io_state_scheme"
  proof -
    have "agree_on (stable_bytes old1 st1) (mem s1) (mem r)"
      using agree_on_trans [OF b(3) agree_on_mono [OF r b(2)]] .
    then show ?thesis using a(4) [of r] b(4) [OF r] by (simp add: seg)
  qed
  moreover have "agree_on (stable_bytes old st) (mem s) (mem s')"
    using agree_on_trans [OF a(3) agree_on_mono [OF b(3) a(2)]] .
  ultimately show ?case using b(1) a(2) b(2) by blast
qed

lemma init_stream_archiver_spec:
  fixes s :: "'a io_state_scheme"
  assumes geo: "page_geometry g (ucast cs)" and wf: "alloc_wf (alloc s)"
    and free: "\<not> cluster_free (alloc s) 0" "\<not> cluster_free (alloc s) 1"
    and run: "init_stream_archiver g cs s = Inr (st, s')"
  shows "\<exists>old c. writer_at g (ucast cs) old c st s'"
proof -
  let ?ps = "ucast cs :: u64"
  define st0 where "st0 = \<lparr>st_page = 0, st_offset = 0, st_index = 0, st_header = 0\<rparr>"
  obtain p s1 h st1 where p: "allocatePage g s = Inr (p, s1)"
    and it: "iterate_advance g ?ps True sizeof_header (st0\<lparr>st_page := p, st_offset := sizeof_page\<rparr>)
      (s1\<lparr>mem := store_u64 (mem s1) p 0\<rparr>) = Inr (h, st1, s')"
    and st: "st = st1\<lparr>st_header := h\<rparr>"
    using run by (auto simp: init_stream_archiver_def cutStreamArchiver_def iterateStreamArchiver_def
        st0_def elim!: bind_resE)
  from allocatePage_spec [OF wf free p]
  obtain d where d: "2 \<le> unat d" "p = cluster_start g d" "alloc_wf (alloc s1)"
    "\<And>c. cluster_free (alloc s1) c \<longleftrightarrow> cluster_free (alloc s) c \<and> c \<noteq> unat d" by blast
  have "16 \<le> unat ?ps" using geo unfolding page_geometry_def by blast
  then have "stream_inv g ?ps {} d (st0\<lparr>st_page := p, st_offset := sizeof_page\<rparr>)
      (s1\<lparr>mem := store_u64 (mem s1) p 0\<rparr>)"
    using geo free d by (simp add: stream_inv_def sizeof_page_def)
  from start_segment [OF this] it st show ?thesis by (auto simp: st0_def)
qed

text \<open>
  C4. The stream archiver returns what was written: whatever segments are written after
  \<open>init_stream_archiver\<close>, a copy of the stream taken right after it reads the same segments
  back, element by element, gets \<open>NULL\<close> at the end of each, and finishes where the writer
  stands; the pages this takes never overlap, however they are linked.
\<close>

theorem stream_archiver_roundtrip:
  fixes s :: "'a io_state_scheme"
  assumes "page_geometry g (ucast cs)" and "alloc_wf (alloc s)"
    and "\<not> cluster_free (alloc s) 0" and "\<not> cluster_free (alloc s) 1"
    and "init_stream_archiver g cs s = Inr (st, s1)"
    and "list_all (\<lambda>(n, xs). unat n + 8 \<le> unat cs \<and> list_all (\<lambda>x. length x = unat n) xs
           \<and> length xs + 1 < 2 ^ 64) segs"
    and "write_segments g (ucast cs) segs st s1 = Inr (st', s')"
  shows "read_segments g (ucast cs) (map fst segs) st s' = Some (Inr (map snd segs, st'))"
proof -
  from init_stream_archiver_spec [OF assms(1-5)] obtain old c where
    w: "writer_at g (ucast cs) old c st s1" by blast
  have "unat (ucast cs :: u64) = unat cs" by simp
  with write_segments_spec [OF w _ assms(7)] assms(6)
  show ?thesis by (auto simp: agree_on_def)
qed

text \<open>
  C37. A writer in a well-formed state only fails by running out of clusters: inserting an
  element never follows a null pointer and never leaves the allocation bitmap.
\<close>

theorem stream_insert_fails_only_when_full:
  assumes "stream_inv g ps old c st s" and "iterateStreamArchiver g ps True n k st s = Inl err"
  shows "err = Fs_Too_Small"
  using iterate_advance_insert_total [of g ps old c "st\<lparr>st_index := st_index st + k\<rparr>" s n err] assms
  by (simp add: iterateStreamArchiver_def)

subsection \<open>A sample stream\<close>

text \<open>Pages of 32 bytes, so that the sample crosses page boundaries.\<close>

definition sample_pages :: fat_globals where
  "sample_pages = sample_globals\<lparr>meta_info := (meta_info sample_globals)\<lparr>mi_cluster_size := 32\<rparr>\<rparr>"

definition sample_io :: io_state where
  "sample_io = \<lparr>mem = (\<lambda>_. 0), alloc = sample_alloc\<rparr>"

definition sample_segments :: "(u64 \<times> u8 list list) list" where
  "sample_segments = [(4, [[1, 2, 3, 4]]),
     (12, [[1, 1, 1, 1, 1, 1, 1, 1, 1, 1, 1, 1], [2, 2, 2, 2, 2, 2, 2, 2, 2, 2, 2, 2]]), (4, [])]"

lemma sample_page_geometry: "page_geometry sample_pages (ucast (32 :: u32))"
  by (simp add: page_geometry_def sample_pages_def sample_globals_def)

lemma sample_alloc_reserved: "\<not> cluster_free sample_alloc 0" "\<not> cluster_free sample_alloc 1"
  by (simp_all add: cluster_free_def sample_alloc_def)

definition sample_alloc_at :: "u32 \<Rightarrow> u8 list \<Rightarrow> alloc_state" where
  "sample_alloc_at i bm = \<lparr>allocator = (allocator sample_alloc)\<lparr>
     index_in_fat := i, blocked_extent_current := 1\<rparr>, allocation_bitmap = bm\<rparr>"

lemma sample_allocate_pages:
  "allocate_extent 1 sample_alloc =
     Inr (\<lparr>fe_logical_start = 0, fe_length = 1, fe_physical_start = 6\<rparr>, sample_alloc_at 6 [0x43, 0, 0])"
  "allocate_extent 1 (sample_alloc_at 6 [0x43, 0, 0]) =
     Inr (\<lparr>fe_logical_start = 0, fe_length = 1, fe_physical_start = 7\<rparr>, sample_alloc_at 7 [0xC3, 0, 0])"
  "allocate_extent 1 (sample_alloc_at 7 [0xC3, 0, 0]) =
     Inr (\<lparr>fe_logical_start = 0, fe_length = 1, fe_physical_start = 8\<rparr>, sample_alloc_at 8 [0xC3, 1, 0])"
  by code_simp+

lemma sample_page_addresses:
  "cluster_start sample_pages 6 = 610432" "cluster_start sample_pages 7 = 610464"
  "cluster_start sample_pages 8 = 610496"
  by (simp_all add: cluster_start_def sample_pages_def sample_globals_def FAT_START_INDEX_def)

lemma sample_stream_runs:
  "\<exists>st s1 st' s'. init_stream_archiver sample_pages 32 sample_io = Inr (st, s1)
    \<and> write_segments sample_pages (ucast (32 :: u32)) sample_segments st s1 = Inr (st', s')"
proof -
  have "\<exists>st' s'. bind_res (init_stream_archiver sample_pages 32 sample_io)
    (\<lambda>(st, s1). write_segments sample_pages (ucast (32 :: u32)) sample_segments st s1) = Inr (st', s')"
    by (simp add: init_stream_archiver_def cutStreamArchiver_def allocatePage_def Let_def sample_io_def
        sample_allocate_pages sample_page_addresses iterateStreamArchiver_def iterate_advance_def
        sizeof_page_def sizeof_header_def sample_segments_def write_segment_def)
  then show ?thesis by (auto elim!: bind_resE)
qed

theorem stream_archiver_roundtrip_witness:
  "\<exists>st (s' :: io_state) st'. read_segments sample_pages (ucast (32 :: u32)) [4, 12, 4] st s' =
     Some (Inr (map snd sample_segments, st'))"
proof -
  obtain st s1 st' s' where run: "init_stream_archiver sample_pages 32 sample_io = Inr (st, s1)"
    "write_segments sample_pages (ucast (32 :: u32)) sample_segments st s1 = Inr (st', s')"
    using sample_stream_runs by blast
  have "read_segments sample_pages (ucast (32 :: u32)) (map fst sample_segments) st s' =
      Some (Inr (map snd sample_segments, st'))"
    by (rule stream_archiver_roundtrip [OF sample_page_geometry _ _ _ run(1) _ run(2)])
      (use sample_alloc_reserved in \<open>simp_all add: sample_io_def sample_alloc_wf sample_segments_def\<close>)
  then show ?thesis by (auto simp: sample_segments_def)
qed

definition sample_full :: io_state where
  "sample_full = \<lparr>mem = (\<lambda>_. 0), alloc = \<lparr>allocator = (allocator sample_alloc)\<lparr>
     index_in_fat := 23, blocked_extent_current := 2\<rparr>, allocation_bitmap = [0xFF, 0xFF, 0xFF]\<rparr>\<rparr>"

definition sample_full_stream :: stream where
  "sample_full_stream = \<lparr>st_page = 610432, st_offset = 32, st_index = 0, st_header = 610440\<rparr>"

theorem stream_insert_fails_only_when_full_witness:
  "\<exists>err. iterateStreamArchiver sample_pages (ucast (32 :: u32)) True 4 1 sample_full_stream sample_full = Inl err
     \<and> err = Fs_Too_Small"
proof -
  have wf: "alloc_wf (alloc sample_full)"
    by (simp add: alloc_wf_def sample_full_def sample_alloc_def extent_count_def index_def
        blocked_start_def extents_ascending_def extent_end_def)
  have free: "\<not> cluster_free (alloc sample_full) d" if "d < 24" for d
  proof -
    have "d div 8 < 3" using that by linarith
    then have "d div 8 = 0 \<or> d div 8 = 1 \<or> d div 8 = 2" by linarith
    then have "allocation_bitmap (alloc sample_full) ! (d div 8) = mask 8"
      by (elim disjE) (simp_all add: sample_full_def mask_eq_exp_minus_1)
    then show ?thesis by (simp add: cluster_free_def bit_mask_iff)
  qed
  then have none: "\<not> cluster_free (alloc sample_full) d" for d
    by (cases "d < 24") (auto simp: cluster_free_def sample_full_def)
  have inv: "stream_inv sample_pages (ucast (32 :: u32)) {} 6 sample_full_stream sample_full"
    using wf none sample_page_geometry by (simp add: stream_inv_def sample_full_stream_def sample_page_addresses)
  have "allocate_extent 1 (alloc sample_full) = Inl Fs_Too_Small"
    by code_simp
  then have "iterateStreamArchiver sample_pages (ucast (32 :: u32)) True 4 1 sample_full_stream sample_full
      = Inl Fs_Too_Small"
    by (simp add: iterateStreamArchiver_def iterate_advance_def allocatePage_def sample_full_stream_def)
  then show ?thesis using stream_insert_fails_only_when_full [OF inv] by blast
qed

end
