(* ===== verification/Extent_Iterator.thy ===== *)
theory Extent_Iterator
  imports Stream_Archiver
begin

section \<open>extent_iterator.h and extent_iterator.cpp\<close>

text \<open>
  An iterator over the clusters of the extents of one stream segment. It points to the
  \<open>StreamArchiver\<close> it was made for, a local variable that nothing else uses after that, so
  the record holds the stream itself; \<open>it_current_extent\<close> is a pointer into a page.
\<close>

record extent_iterator =
  it_current_extent :: nat
  it_current_cluster :: u32
  it_extent_stream :: stream

definition init_iterator ::
  "fat_globals \<Rightarrow> u64 \<Rightarrow> stream \<Rightarrow> 'a io_state_scheme \<Rightarrow> extent_iterator result" where
  "init_iterator g pageSize st s =
     bind_res (getNext g pageSize (word_of_nat sizeof_fat_extent) st s) (\<lambda>(a, st1, _).
       Inr \<lparr>it_current_extent = a, it_current_cluster = 0, it_extent_stream = st1\<rparr>)"

partial_function (option) next_cluster_no ::
  "fat_globals \<Rightarrow> u64 \<Rightarrow> extent_iterator \<Rightarrow> 'a io_state_scheme \<Rightarrow> (u32 \<times> extent_iterator) run" where
  "next_cluster_no g pageSize it s =
     (if it_current_extent it = 0 then Some (Inr (0, it))
      else
        (let e = load_fat_extent (mem s) (it_current_extent it)
         in if ucast (fe_length e) \<le> it_current_cluster it
            then bind_run (Some (init_iterator g pageSize (it_extent_stream it) s))
                   (\<lambda>it1. next_cluster_no g pageSize it1 s)
            else Some (Inr (fe_physical_start e + it_current_cluster it,
                            it\<lparr>it_current_cluster := it_current_cluster it + 1\<rparr>))))"

subsection \<open>The clusters of a segment of extents\<close>

text \<open>
  \<open>extent_segment\<close>: reading \<open>fat_extent\<close>s from the stream returns these extents and then
  \<open>NULL\<close>, as \<open>stream_archiver_roundtrip\<close> shows for a segment that was written.
\<close>

inductive extent_segment ::
  "fat_globals \<Rightarrow> u64 \<Rightarrow> 'a io_state_scheme \<Rightarrow> stream \<Rightarrow> fat_extent list \<Rightarrow> bool"
  for g ps s where
  segment_end: "getNext g ps (word_of_nat sizeof_fat_extent) st s = Inr (0, st', s)
    \<Longrightarrow> extent_segment g ps s st []"
| segment_extent: "getNext g ps (word_of_nat sizeof_fat_extent) st s = Inr (a, st', s) \<Longrightarrow> a \<noteq> 0
    \<Longrightarrow> extent_segment g ps s st' es
    \<Longrightarrow> extent_segment g ps s st (load_fat_extent (mem s) a # es)"

inductive_cases extent_segment_NilE: "extent_segment g ps s st []"
inductive_cases extent_segment_ConsE: "extent_segment g ps s st (e # es)"

definition extent_cluster_list :: "fat_extent \<Rightarrow> u32 list" where
  "extent_cluster_list e = map (\<lambda>i. fe_physical_start e + word_of_nat i) [0..<unat (fe_length e)]"

definition clusters_of :: "fat_extent list \<Rightarrow> u32 list" where
  "clusters_of es = concat (map extent_cluster_list es)"

lemma clusters_of_simps [simp]:
  "clusters_of [] = []" "clusters_of (e # es) = extent_cluster_list e @ clusters_of es"
  by (simp_all add: clusters_of_def)

text \<open>The clusters an iterator has still ahead of it.\<close>

inductive clusters_ahead ::
  "fat_globals \<Rightarrow> u64 \<Rightarrow> 'a io_state_scheme \<Rightarrow> extent_iterator \<Rightarrow> u32 list \<Rightarrow> bool"
  for g ps s where
  ahead_done: "it_current_extent it = 0 \<Longrightarrow> clusters_ahead g ps s it []"
| ahead_more: "it_current_extent it \<noteq> 0 \<Longrightarrow> extent_segment g ps s (it_extent_stream it) es
    \<Longrightarrow> clusters_ahead g ps s it
          (drop (unat (it_current_cluster it)) (extent_cluster_list (load_fat_extent (mem s) (it_current_extent it)))
           @ clusters_of es)"

lemma init_iterator_ahead:
  assumes "extent_segment g ps s st es"
  shows "\<exists>it. init_iterator g ps st s = Inr it \<and> clusters_ahead g ps s it (clusters_of es)"
  using assms
proof cases
  case (segment_end st')
  then show ?thesis by (auto simp: init_iterator_def intro: ahead_done)
next
  case (segment_extent a st' es')
  let ?it = "\<lparr>it_current_extent = a, it_current_cluster = 0, it_extent_stream = st'\<rparr>"
  have "clusters_ahead g ps s ?it (drop (unat (it_current_cluster ?it))
      (extent_cluster_list (load_fat_extent (mem s) (it_current_extent ?it))) @ clusters_of es')"
    using segment_extent by (intro ahead_more) simp_all
  then show ?thesis using segment_extent by (simp add: init_iterator_def)
qed

lemma next_in_extent:
  assumes "it_current_extent it \<noteq> 0"
    and "unat (it_current_cluster it) < unat (fe_length (load_fat_extent (mem s) (it_current_extent it)))"
    and "extent_segment g ps s (it_extent_stream it) es"
    and "cs = drop (unat (it_current_cluster it)) (extent_cluster_list (load_fat_extent (mem s) (it_current_extent it)))
      @ clusters_of es"
  shows "\<exists>it'. next_cluster_no g ps it s = Some (Inr (if cs = [] then 0 else hd cs, it'))
     \<and> clusters_ahead g ps s it' (tl cs)"
proof -
  let ?e = "load_fat_extent (mem s) (it_current_extent it)" and ?i = "unat (it_current_cluster it)"
  let ?it = "it\<lparr>it_current_cluster := it_current_cluster it + 1\<rparr>"
  have lt: "\<not> ucast (fe_length ?e) \<le> it_current_cluster it" using assms(2) by (simp add: word_le_nat_alt)
  have "?i + 1 < 4294967296" using assms(2) unat_u16_bound [of "fe_length ?e"] by linarith
  then have i1: "unat (it_current_cluster it + 1) = ?i + 1" by (subst unat_add_no_overflow) simp_all
  have "drop ?i (extent_cluster_list ?e) =
      (fe_physical_start ?e + it_current_cluster it) # drop (?i + 1) (extent_cluster_list ?e)"
    using assms(2) by (subst Cons_nth_drop_Suc [symmetric]) (simp_all add: extent_cluster_list_def)
  then have cs: "cs = (fe_physical_start ?e + it_current_cluster it)
      # drop (unat (it_current_cluster ?it)) (extent_cluster_list (load_fat_extent (mem s) (it_current_extent ?it)))
      @ clusters_of es"
    using assms(4) by (simp add: i1)
  have "clusters_ahead g ps s ?it (tl cs)"
    unfolding cs list.sel using assms(1,3) by (intro ahead_more) simp_all
  moreover have "next_cluster_no g ps it s = Some (Inr (hd cs, ?it))"
    using assms(1) lt by (subst next_cluster_no.simps) (simp add: Let_def cs)
  ultimately show ?thesis by (simp add: cs)
qed

lemma next_cluster_no_ahead:
  "extent_segment g ps s (it_extent_stream it) es \<Longrightarrow> it_current_extent it \<noteq> 0 \<Longrightarrow>
   cs = drop (unat (it_current_cluster it)) (extent_cluster_list (load_fat_extent (mem s) (it_current_extent it)))
      @ clusters_of es \<Longrightarrow>
   \<exists>it'. next_cluster_no g ps it s = Some (Inr (if cs = [] then 0 else hd cs, it'))
     \<and> clusters_ahead g ps s it' (tl cs)"
proof (induction es arbitrary: it)
  case Nil
  let ?e = "load_fat_extent (mem s) (it_current_extent it)"
  show ?case
  proof (cases "unat (it_current_cluster it) < unat (fe_length ?e)")
    case True
    then show ?thesis using next_in_extent Nil.prems by blast
  next
    case False
    then have ge: "ucast (fe_length ?e) \<le> it_current_cluster it" by (simp add: word_le_nat_alt)
    have "cs = []" using False Nil.prems(3) by (simp add: extent_cluster_list_def)
    moreover obtain it1 where "init_iterator g ps (it_extent_stream it) s = Inr it1" "it_current_extent it1 = 0"
      using Nil.prems(1) by (auto simp: init_iterator_def elim!: extent_segment_NilE)
    moreover from this have "next_cluster_no g ps it1 s = Some (Inr (0, it1))"
      by (subst next_cluster_no.simps) simp
    ultimately show ?thesis
      using ge Nil.prems(2) by (subst next_cluster_no.simps) (auto simp: Let_def intro: ahead_done)
  qed
next
  case (Cons e es)
  let ?e = "load_fat_extent (mem s) (it_current_extent it)"
  show ?case
  proof (cases "unat (it_current_cluster it) < unat (fe_length ?e)")
    case True
    then show ?thesis using next_in_extent Cons.prems by blast
  next
    case False
    then have ge: "ucast (fe_length ?e) \<le> it_current_cluster it" by (simp add: word_le_nat_alt)
    have cs: "cs = clusters_of (e # es)" using False Cons.prems(3) by (simp add: extent_cluster_list_def)
    obtain a st' where a: "getNext g ps (word_of_nat sizeof_fat_extent) (it_extent_stream it) s = Inr (a, st', s)"
      "a \<noteq> 0" "extent_segment g ps s st' es" "load_fat_extent (mem s) a = e"
      using Cons.prems(1) by (auto elim!: extent_segment_ConsE)
    let ?it = "\<lparr>it_current_extent = a, it_current_cluster = 0, it_extent_stream = st'\<rparr>"
    have "next_cluster_no g ps it s = next_cluster_no g ps ?it s"
      using ge Cons.prems(2) a by (subst next_cluster_no.simps) (simp add: Let_def init_iterator_def)
    then show ?thesis using Cons.IH [of ?it] a cs by simp
  qed
qed

text \<open>
  C29. Each call of \<open>next_cluster_no\<close> returns the next cluster of the extents that lie ahead,
  and 0 once there is none, also across zero-length extents; it always returns.
\<close>

theorem next_cluster_no_correct:
  assumes "clusters_ahead g ps s it cs"
  shows "\<exists>it'. next_cluster_no g ps it s = Some (Inr (if cs = [] then 0 else hd cs, it'))
    \<and> clusters_ahead g ps s it' (tl cs)"
  using assms
proof cases
  case ahead_done
  then show ?thesis
    by (subst next_cluster_no.simps) (auto intro: clusters_ahead.ahead_done)
next
  case (ahead_more es)
  then show ?thesis using next_cluster_no_ahead by blast
qed

theorem next_cluster_no_correct_witness:
  "\<exists>it'. next_cluster_no sample_pages (ucast (32 :: u32))
      \<lparr>it_current_extent = 610452, it_current_cluster = 1, it_extent_stream =
         \<lparr>st_page = 610432, st_offset = 32, st_index = 1, st_header = 610440\<rparr>\<rparr>
      \<lparr>mem = store_u64 (store_fat_extent (store_u64 (\<lambda>_. 0) 610440 1) 610452
           \<lparr>fe_logical_start = 0, fe_length = 3, fe_physical_start = 70\<rparr>) 610432 610464, alloc = sample_alloc\<rparr>
    = Some (Inr (71, it'))"
proof -
  let ?st = "\<lparr>st_page = 610432, st_offset = 32, st_index = 1, st_header = 610440\<rparr>"
  let ?m = "store_u64 (store_fat_extent (store_u64 (\<lambda>_. 0) 610440 1) 610452
    \<lparr>fe_logical_start = 0, fe_length = 3, fe_physical_start = 70\<rparr>) 610432 610464"
  let ?s = "\<lparr>mem = ?m, alloc = sample_alloc\<rparr>"
  let ?it = "\<lparr>it_current_extent = 610452, it_current_cluster = 1, it_extent_stream = ?st\<rparr>"
  have e: "load_fat_extent ?m 610452 = \<lparr>fe_logical_start = 0, fe_length = 3, fe_physical_start = 70\<rparr>"
  proof -
    have "load_fat_extent ?m 610452 = load_fat_extent (store_fat_extent (store_u64 (\<lambda>_. 0) 610440 1) 610452
        \<lparr>fe_logical_start = 0, fe_length = 3, fe_physical_start = 70\<rparr>) 610452"
      by (rule fat_extent_codec.load_cong) (simp add: u64.store_frame)
    then show ?thesis by (simp add: fat_extent_codec.load_store)
  qed
  have h: "load_u64 ?m 610440 = 1"
  proof -
    have "load_u64 ?m 610440 = load_u64 (store_u64 (\<lambda>_. 0) 610440 1) 610440"
      by (rule u64.load_cong) (simp add: u64.store_frame fat_extent_codec.store_frame)
    then show ?thesis by (simp add: u64.load_store)
  qed
  have "extent_segment sample_pages (ucast (32 :: u32)) ?s ?st []"
    by (rule segment_end) (simp add: getNext_def iterateStreamArchiver_def h iterate_advance_def u64.load_store
      sizeof_header_def)
  then have "clusters_ahead sample_pages (ucast (32 :: u32)) ?s ?it
      (drop (unat (it_current_cluster ?it)) (extent_cluster_list (load_fat_extent (mem ?s) (it_current_extent ?it)))
        @ clusters_of [])"
    by (intro ahead_more) simp_all
  from next_cluster_no_correct [OF this] show ?thesis
    by (auto simp: e extent_cluster_list_def upt_rec)
qed

end
