(* ===== verification/Metadata_Reader.thy ===== *)
theory Metadata_Reader
  imports Extent_Iterator
begin

section \<open>metadata_reader.cpp\<close>

text \<open>
  Reading the FAT side: the entries of a directory, the cluster chains of its files, and
  the recursive traversal that writes all of it to the stream. Chains become extents of at
  most 32768 clusters; where an extent meets a blocked extent it is cut into fragments, and
  the blocked fragments are copied to newly allocated clusters. The write stream, passed by
  pointer in the sources, is an argument and a result; \<open>s\<close> is the memory and the allocator.
  The parameters \<open>cluster_no\<close> and \<open>is_dir_flag\<close> that only reach the visualizer are left out.
\<close>

definition EXT4_MAX_INIT_EXTENT_LEN :: u16 where "EXT4_MAX_INIT_EXTENT_LEN = 32768"

subsection \<open>The entries of a directory\<close>

record cluster_read_state =
  rs_iterator :: extent_iterator
  rs_cluster_dentry :: u32
  rs_current_cluster :: nat

definition init_read_state ::
  "fat_globals \<Rightarrow> u64 \<Rightarrow> extent_iterator \<Rightarrow> 'a io_state_scheme \<Rightarrow> cluster_read_state run" where
  "init_read_state g ps it s =
     bind_run (next_cluster_no g ps it s) (\<lambda>(cluster_no, it1).
       Some (Inr \<lparr>rs_iterator = it1, rs_cluster_dentry = 0,
         rs_current_cluster = (if cluster_no \<noteq> 0 then cluster_start g cluster_no else 0)\<rparr>))"

partial_function (option) next_dentry ::
  "fat_globals \<Rightarrow> u64 \<Rightarrow> cluster_read_state \<Rightarrow> 'a io_state_scheme \<Rightarrow> (nat \<times> cluster_read_state) run" where
  "next_dentry g ps state s =
     bind_run
       (if mi_dentries_per_cluster (meta_info g) \<le> rs_cluster_dentry state
        then init_read_state g ps (rs_iterator state) s else Some (Inr state))
       (\<lambda>state1.
          if rs_current_cluster state1 = 0 then Some (Inr (0, state1))
          else
            (let ret = rs_current_cluster state1 + sizeof_fat_dentry * unat (rs_cluster_dentry state1);
                 state2 = state1\<lparr>rs_cluster_dentry := rs_cluster_dentry state1 + 1\<rparr>
             in if is_invalid (mem s) ret \<or> is_dot_dir (mem s) ret then next_dentry g ps state2 s
                else Some (Inr (ret, state2))))"

subsection \<open>Reserving space in the write stream\<close>

fun reserve_pointers ::
  "fat_globals \<Rightarrow> u64 \<Rightarrow> nat \<Rightarrow> stream \<Rightarrow> 'a io_state_scheme \<Rightarrow> (nat list \<times> stream \<times> 'a io_state_scheme) result" where
  "reserve_pointers g ps 0 w s = Inr ([], w, s)"
| "reserve_pointers g ps (Suc n) w s =
     bind_res (iterateStreamArchiver g ps True (word_of_nat (LFN_ENTRY_LENGTH * 2)) 1 w s) (\<lambda>(p, w1, s1).
     bind_res (reserve_pointers g ps n w1 s1) (\<lambda>(pts, w2, s2). Inr (p # pts, w2, s2)))"

definition reserve_name ::
  "fat_globals \<Rightarrow> u64 \<Rightarrow> nat \<Rightarrow> stream \<Rightarrow> 'a io_state_scheme \<Rightarrow> (nat list \<times> stream \<times> 'a io_state_scheme) result" where
  "reserve_name g ps count w s =
     bind_res (reserve_pointers g ps count w s) (\<lambda>(pts, w1, s1).
     bind_res (cutStreamArchiver g ps w1 s1) (\<lambda>(w2, s2). Inr (pts, w2, s2)))"

definition reserve_dentry ::
  "fat_globals \<Rightarrow> u64 \<Rightarrow> stream \<Rightarrow> 'a io_state_scheme \<Rightarrow> (nat \<times> stream \<times> 'a io_state_scheme) result" where
  "reserve_dentry g ps w s =
     bind_res (iterateStreamArchiver g ps True (word_of_nat sizeof_fat_dentry) 1 w s) (\<lambda>(p, w1, s1).
     bind_res (cutStreamArchiver g ps w1 s1) (\<lambda>(w2, s2). Inr (p, w2, s2)))"

definition reserve_extent ::
  "fat_globals \<Rightarrow> u64 \<Rightarrow> stream \<Rightarrow> 'a io_state_scheme \<Rightarrow> (nat \<times> stream \<times> 'a io_state_scheme) result" where
  "reserve_extent g ps w s = iterateStreamArchiver g ps True (word_of_nat sizeof_fat_extent) 1 w s"

definition reserve_children_count ::
  "fat_globals \<Rightarrow> u64 \<Rightarrow> stream \<Rightarrow> 'a io_state_scheme \<Rightarrow> (nat \<times> stream \<times> 'a io_state_scheme) result" where
  "reserve_children_count g ps w s =
     bind_res (iterateStreamArchiver g ps True 4 1 w s) (\<lambda>(p, w1, s1).
     bind_res (cutStreamArchiver g ps w1 s1) (\<lambda>(w2, s2). Inr (p, w2, s2)))"

text \<open>\<open>*reserve_extent(write_stream) = fragment\<close>\<close>

definition write_extent ::
  "fat_globals \<Rightarrow> u64 \<Rightarrow> fat_extent \<Rightarrow> stream \<Rightarrow> 'a io_state_scheme \<Rightarrow> (stream \<times> 'a io_state_scheme) result" where
  "write_extent g ps fragment w s =
     bind_res (reserve_extent g ps w s) (\<lambda>(p, w1, s1).
       Inr (w1, s1\<lparr>mem := store_fat_extent (mem s1) p fragment\<rparr>))"

subsection \<open>Moving blocked fragments away\<close>

text \<open>The loop of \<open>resettle_extent\<close> from the index \<open>i\<close> on.\<close>

partial_function (option) resettle_from ::
  "fat_globals \<Rightarrow> u64 \<Rightarrow> fat_extent \<Rightarrow> u16 \<Rightarrow> stream \<Rightarrow> 'a io_state_scheme
    \<Rightarrow> (stream \<times> 'a io_state_scheme) run" where
  "resettle_from g ps input_extent i w s =
     (if i < fe_length input_extent
      then bind_run (Some (allocate_extent (fe_length input_extent - i) (alloc s))) (\<lambda>r.
             let fragment = (fst r)\<lparr>fe_logical_start := fe_logical_start input_extent + ucast i\<rparr>
             in bind_run (Some (write_extent g ps fragment w (s\<lparr>alloc := snd r\<rparr>))) (\<lambda>q.
                  resettle_from g ps input_extent (i + fe_length fragment) (fst q)
                    ((snd q)\<lparr>mem := mem_copy (mem (snd q))
                       (cluster_start g (fe_physical_start fragment))
                       (cluster_start g (fe_physical_start input_extent + ucast i))
                       (unat (ucast (fe_length fragment) * mi_cluster_size (meta_info g)))\<rparr>)))
      else Some (Inr (w, s)))"

definition resettle_extent ::
  "fat_globals \<Rightarrow> u64 \<Rightarrow> fat_extent \<Rightarrow> stream \<Rightarrow> 'a io_state_scheme \<Rightarrow> (stream \<times> 'a io_state_scheme) run" where
  "resettle_extent g ps input_extent w s = resettle_from g ps input_extent 0 w s"

text \<open>
  One round of the loop of \<open>find_blocked_extent_fragments\<close> up to the visualizer: from the
  start of the fragment, \<open>i\<close> and \<open>blocked_extent\<close> (\<open>None\<close> for \<open>NULL\<close>) it computes whether
  the fragment is blocked, the fragment, and the three variables for the next round.
\<close>

type_synonym fragment_vars = "u32 \<times> u32 \<times> fat_extent option"

definition next_fragment ::
  "alloc_state \<Rightarrow> fat_extent \<Rightarrow> fragment_vars \<Rightarrow> (bool \<times> fat_extent \<times> fragment_vars) result" where
  "next_fragment a input_extent vars =
     (case vars of (fragment_physical_start, i, blocked_extent) \<Rightarrow>
       let input_physical_end = fe_physical_start input_extent + ucast (fe_length input_extent);
           is_blocked = (case blocked_extent of None \<Rightarrow> False
                         | Some b \<Rightarrow> fe_physical_start b \<le> fragment_physical_start)
       in bind_res
            (case blocked_extent of
               None \<Rightarrow> Inr (input_physical_end, i, None)
             | Some b \<Rightarrow>
                 if is_blocked
                 then (let blocked_physical_end = fe_physical_start b + ucast (fe_length b);
                           fragment_physical_end =
                             (if blocked_physical_end < input_physical_end then blocked_physical_end
                              else input_physical_end)
                       in bind_res (find_next_blocked_extent i input_physical_end a) (\<lambda>(i', b').
                            Inr (fragment_physical_end, i', b')))
                 else Inr (fe_physical_start b, i, blocked_extent))
            (\<lambda>(fragment_physical_end, i', b').
               Inr (is_blocked,
                    \<lparr>fe_logical_start = fe_logical_start input_extent
                       + (fragment_physical_start - fe_physical_start input_extent),
                     fe_length = ucast (fragment_physical_end - fragment_physical_start),
                     fe_physical_start = fragment_physical_start\<rparr>,
                    (fragment_physical_end, i', b'))))"

partial_function (option) write_fragments ::
  "fat_globals \<Rightarrow> u64 \<Rightarrow> fat_extent \<Rightarrow> fragment_vars \<Rightarrow> stream \<Rightarrow> 'a io_state_scheme
    \<Rightarrow> (stream \<times> 'a io_state_scheme) run" where
  "write_fragments g ps input_extent vars w s =
     (if fst vars < fe_physical_start input_extent + ucast (fe_length input_extent)
      then bind_run (Some (next_fragment (alloc s) input_extent vars)) (\<lambda>r.
             bind_run
               (if fst r then resettle_extent g ps (fst (snd r)) w s
                else Some (write_extent g ps (fst (snd r)) w s))
               (\<lambda>q. write_fragments g ps input_extent (snd (snd r)) (fst q) (snd q)))
      else Some (Inr (w, s)))"

definition fragment_start ::
  "alloc_state \<Rightarrow> fat_extent \<Rightarrow> fragment_vars run" where
  "fragment_start a input_extent =
     (let input_physical_end = fe_physical_start input_extent + ucast (fe_length input_extent)
      in bind_run (find_first_blocked_extent (fe_physical_start input_extent) a) (\<lambda>i.
           Some (bind_res (find_next_blocked_extent i input_physical_end a) (\<lambda>(i', b').
             Inr (fe_physical_start input_extent, i', b')))))"

definition find_blocked_extent_fragments ::
  "fat_globals \<Rightarrow> u64 \<Rightarrow> fat_extent \<Rightarrow> stream \<Rightarrow> 'a io_state_scheme \<Rightarrow> (stream \<times> 'a io_state_scheme) run" where
  "find_blocked_extent_fragments g ps input_extent w s =
     bind_run (fragment_start (alloc s) input_extent) (\<lambda>vars. write_fragments g ps input_extent vars w s)"

subsection \<open>Cluster chains\<close>

text \<open>
  One round of the loop of \<open>aggregate_extents\<close>: the extent that is complete, if any, and,
  unless the chain ends, the extent to go on with (the next FAT entry is read after that).
\<close>

definition aggregate_step :: "fat_extent \<Rightarrow> u32 \<Rightarrow> fat_extent option \<times> fat_extent option" where
  "aggregate_step current_extent next_no =
     (let is_end = FAT_END_OF_CHAIN \<le> next_no;
          is_consecutive = next_no = fe_physical_start current_extent + ucast (fe_length current_extent);
          has_max_length = fe_length current_extent = EXT4_MAX_INIT_EXTENT_LEN
      in if is_end \<or> \<not> is_consecutive \<or> has_max_length
         then (Some current_extent,
               if is_end then None
               else Some \<lparr>fe_logical_start = fe_logical_start current_extent + ucast (fe_length current_extent),
                          fe_length = 1, fe_physical_start = next_no\<rparr>)
         else (None, Some (current_extent\<lparr>fe_length := fe_length current_extent + 1\<rparr>)))"

partial_function (option) aggregate_loop ::
  "fat_globals \<Rightarrow> u64 \<Rightarrow> fat_extent \<Rightarrow> u32 \<Rightarrow> stream \<Rightarrow> 'a io_state_scheme
    \<Rightarrow> (stream \<times> 'a io_state_scheme) run" where
  "aggregate_loop g ps current_extent next_no w s =
     bind_run
       (case fst (aggregate_step current_extent next_no) of
          None \<Rightarrow> Some (Inr (w, s))
        | Some e \<Rightarrow> find_blocked_extent_fragments g ps e w s)
       (\<lambda>q. case snd (aggregate_step current_extent next_no) of
              None \<Rightarrow> Some (Inr q)
            | Some e \<Rightarrow> aggregate_loop g ps e (load_u32 (mem (snd q)) (fat_entry g next_no)) (fst q) (snd q))"

definition aggregate_extents ::
  "fat_globals \<Rightarrow> u64 \<Rightarrow> u32 \<Rightarrow> stream \<Rightarrow> 'a io_state_scheme \<Rightarrow> (stream \<times> 'a io_state_scheme) run" where
  "aggregate_extents g ps cluster_no w s =
     bind_run
       (if cluster_no \<noteq> 0
        then aggregate_loop g ps \<lparr>fe_logical_start = 0, fe_length = 1, fe_physical_start = cluster_no\<rparr>
               (load_u32 (mem s) (fat_entry g cluster_no)) w s
        else Some (Inr (w, s)))
       (\<lambda>q. Some (cutStreamArchiver g ps (fst q) (snd q)))"

subsection \<open>The traversal\<close>

fun read_lfn ::
  "fat_globals \<Rightarrow> u64 \<Rightarrow> nat list \<Rightarrow> nat \<Rightarrow> nat \<Rightarrow> cluster_read_state \<Rightarrow> 'a io_state_scheme
    \<Rightarrow> (nat \<times> cluster_read_state \<times> 'a io_state_scheme) run" where
  "read_lfn g ps name 0 entry state s = Some (Inr (entry, state, s))"
| "read_lfn g ps name (Suc i) entry state s =
     (if entry = 0 then Some (Inl Null_Pointer)
      else
        (let s1 = s\<lparr>mem := lfn_cpy (mem s) (name ! i) entry\<rparr>
         in bind_run (next_dentry g ps state s1) (\<lambda>(entry1, state1).
              read_lfn g ps name i entry1 state1 s1)))"

text \<open>
  The beginning of \<open>traverse\<close>: the pointer to the children count, the first directory entry
  and the reading state.
\<close>

definition traverse_start ::
  "fat_globals \<Rightarrow> u64 \<Rightarrow> stream \<Rightarrow> stream \<Rightarrow> 'a io_state_scheme
    \<Rightarrow> (nat \<times> nat \<times> cluster_read_state \<times> stream \<times> 'a io_state_scheme) run" where
  "traverse_start g ps dir_extent_stream w s =
     bind_run (Some (reserve_children_count g ps w s)) (\<lambda>(children_count, w1, s1).
       let s2 = s1\<lparr>mem := store_u32 (mem s1) children_count 0\<rparr>
       in bind_run (Some (init_iterator g ps dir_extent_stream s2)) (\<lambda>it.
          bind_run (init_read_state g ps it s2) (\<lambda>state.
          bind_run (next_dentry g ps state s2) (\<lambda>(current_dentry, state1).
            Some (Inr (children_count, current_dentry, state1, w1, s2))))))"

text \<open>The body of the loop up to the copy of the directory entry.\<close>

definition read_dentry ::
  "fat_globals \<Rightarrow> u64 \<Rightarrow> nat \<Rightarrow> cluster_read_state \<Rightarrow> stream \<Rightarrow> 'a io_state_scheme
    \<Rightarrow> (nat \<times> cluster_read_state \<times> stream \<times> 'a io_state_scheme) run" where
  "read_dentry g ps current_dentry state w s =
     bind_run (Some (reserve_dentry g ps w s)) (\<lambda>(dentry, w1, s1).
     bind_run
       (if is_lfn (mem s1) current_dentry
        then (let lfn_entry_count = unat (lfn_entry_sequence_no (mem s1) current_dentry)
              in bind_run (Some (reserve_name g ps lfn_entry_count w1 s1)) (\<lambda>(name, w2, s2).
                 bind_run (read_lfn g ps name lfn_entry_count current_dentry state s2)
                   (\<lambda>(current, state1, s3). Some (Inr (current, state1, w2, s3)))))
        else bind_run (Some (reserve_name g ps 1 w1 s1)) (\<lambda>(name, w2, s2).
               Some (Inr (current_dentry, state, w2,
                 s2\<lparr>mem := read_short_name (mem s2) current_dentry (name ! 0)\<rparr>))))
       (\<lambda>(current, state1, w2, s2).
          if current = 0 then Some (Inl Null_Pointer)
          else Some (Inr (current, state1, w2,
                 s2\<lparr>mem := mem_copy (mem s2) dentry current sizeof_fat_dentry\<rparr>))))"

partial_function (option) traverse_loop ::
  "fat_globals \<Rightarrow> u64 \<Rightarrow> nat \<Rightarrow> nat \<Rightarrow> cluster_read_state \<Rightarrow> stream \<Rightarrow> 'a io_state_scheme
    \<Rightarrow> (stream \<times> 'a io_state_scheme) run" where
  "traverse_loop g ps children_count current_dentry state w s =
     (if is_dir_table_end (mem s) current_dentry then Some (Inr (w, s))
      else
        bind_run (read_dentry g ps current_dentry state w s) (\<lambda>r.
          let current = fst r; state1 = fst (snd r); w1 = fst (snd (snd r)); s1 = snd (snd (snd r));
              cluster_no = file_cluster_no (mem s1) current;
              is_dir_flag = is_dir (mem s1) current
          in bind_run (aggregate_extents g ps cluster_no w1 s1) (\<lambda>q.
             bind_run
               (if is_dir_flag
                then bind_run (traverse_start g ps w1 (fst q) (snd q)) (\<lambda>t.
                       traverse_loop g ps (fst t) (fst (snd t)) (fst (snd (snd t)))
                         (fst (snd (snd (snd t)))) (snd (snd (snd (snd t)))))
                else Some (bind_res (reserve_children_count g ps (fst q) (snd q)) (\<lambda>t.
                       Inr (fst (snd t), (snd (snd t))\<lparr>mem := store_u32 (mem (snd (snd t))) (fst t) (- 1)\<rparr>))))
               (\<lambda>t.
                  let s2 = (snd t)\<lparr>mem := store_u32 (mem (snd t)) children_count
                             (load_u32 (mem (snd t)) children_count + 1)\<rparr>
                  in bind_run (next_dentry g ps state1 s2) (\<lambda>d.
                       traverse_loop g ps children_count (fst d) (snd d) (fst t) s2)))))"

definition traverse ::
  "fat_globals \<Rightarrow> u64 \<Rightarrow> stream \<Rightarrow> stream \<Rightarrow> 'a io_state_scheme \<Rightarrow> (stream \<times> 'a io_state_scheme) run" where
  "traverse g ps dir_extent_stream w s =
     bind_run (traverse_start g ps dir_extent_stream w s) (\<lambda>t.
       traverse_loop g ps (fst t) (fst (snd t)) (fst (snd (snd t)))
         (fst (snd (snd (snd t)))) (snd (snd (snd (snd t)))))"

subsection \<open>The fragments of an extent\<close>

text \<open>The sequence of fragments that the loop of \<open>find_blocked_extent_fragments\<close> goes through.\<close>

partial_function (option) fragments ::
  "alloc_state \<Rightarrow> fat_extent \<Rightarrow> fragment_vars \<Rightarrow> (bool \<times> fat_extent) list run" where
  "fragments a input_extent vars =
     (if fst vars < fe_physical_start input_extent + ucast (fe_length input_extent)
      then bind_run (Some (next_fragment a input_extent vars)) (\<lambda>r.
             bind_run (fragments a input_extent (snd (snd r))) (\<lambda>fs.
               Some (Inr ((fst r, fst (snd r)) # fs))))
      else Some (Inr []))"

definition blocked_cluster :: "alloc_state \<Rightarrow> nat \<Rightarrow> bool" where
  "blocked_cluster a c \<longleftrightarrow> list_ex (\<lambda>e. unat (fe_physical_start e) \<le> c \<and> c < extent_end e)
     (take (extent_count a) (blocked_extents (allocator a)))"

text \<open>
  The fragments tile the input extent from the cluster \<open>q\<close> on, each with the logical number
  that belongs to its start, and each is entirely blocked or entirely unblocked; an
  unblocked one is not empty.
\<close>

fun fragments_tile :: "alloc_state \<Rightarrow> fat_extent \<Rightarrow> nat \<Rightarrow> (bool \<times> fat_extent) list \<Rightarrow> bool" where
  "fragments_tile a e q [] \<longleftrightarrow> q = extent_end e"
| "fragments_tile a e q ((b, f) # fs) \<longleftrightarrow>
     unat (fe_physical_start f) = q
     \<and> fe_logical_start f = fe_logical_start e + (fe_physical_start f - fe_physical_start e)
     \<and> list_all (\<lambda>c. blocked_cluster a c \<longleftrightarrow> b) [q..<extent_end f]
     \<and> (\<not> b \<longrightarrow> fe_length f \<noteq> 0)
     \<and> fragments_tile a e (extent_end f) fs"

lemma blocked_cluster_iff:
  assumes "alloc_wf a"
  shows "blocked_cluster a c \<longleftrightarrow> (\<exists>k < extent_count a. blocked_start a k \<le> c \<and> c < blocked_end a k)"
  using alloc_wf_current(2) [OF assms]
  by (auto simp: blocked_cluster_def list_ex_length blocked_start_def blocked_end_def)

lemma find_next_blocked_extent_spec:
  assumes wf: "alloc_wf a" and small: "extent_count a < 2 ^ 31" and j: "unat i \<le> extent_count a"
  shows "(unat i < extent_count a \<and> blocked_start a (unat i) \<le> unat pe
      \<and> find_next_blocked_extent i pe a = Inr (i + 1, Some (blocked_extents (allocator a) ! unat i))
      \<and> unat (i + 1) = unat i + 1)
    \<or> ((\<forall>k < extent_count a. unat i \<le> k \<longrightarrow> unat pe < blocked_start a k)
      \<and> (\<exists>i'. find_next_blocked_extent i pe a = Inr (i', None)))"
proof (cases "unat i < extent_count a")
  case False
  then show ?thesis
    using j by (auto simp: find_next_blocked_extent_def word_le_nat_alt extent_count_def)
next
  case True
  have i1: "unat (i + 1) = unat i + 1"
    using True small by (subst unat_add_no_overflow) simp_all
  have len: "unat i < length (blocked_extents (allocator a))"
    using True alloc_wf_current(2) [OF wf] by simp
  have rest: "blocked_start a (unat i) \<le> blocked_start a k" if "unat i \<le> k" "k < extent_count a" for k
    using alloc_wf_extents(3) [OF wf, of k "unat i"] blocked_start_le_end [of a "unat i"] that
    by (cases "k = unat i") auto
  have ni: "\<not> blocked_extent_count (allocator a) \<le> i" using True by (simp add: word_le_nat_alt extent_count_def)
  show ?thesis
  proof (cases "blocked_start a (unat i) \<le> unat pe")
    case True
    then have "\<not> pe < fe_physical_start (blocked_extents (allocator a) ! unat i)"
      by (simp add: word_less_nat_alt blocked_start_def)
    then show ?thesis
      using True \<open>unat i < extent_count a\<close> ni len i1 by (simp add: find_next_blocked_extent_def)
  next
    case False
    then have "pe < fe_physical_start (blocked_extents (allocator a) ! unat i)"
      by (simp add: word_less_nat_alt blocked_start_def)
    then show ?thesis
      using False ni len rest by (fastforce simp: find_next_blocked_extent_def)
  qed
qed

text \<open>
  The loop's invariant: no blocked extent before the index \<open>j\<close> reaches behind the fragment's
  start, the one at \<open>j\<close> (if the pointer is not \<open>NULL\<close>) does not end before it, and without
  one every later blocked extent begins behind the input.
\<close>

definition fragment_inv :: "alloc_state \<Rightarrow> nat \<Rightarrow> nat \<Rightarrow> fragment_vars \<Rightarrow> bool" where
  "fragment_inv a pe j vars \<longleftrightarrow>
     (\<forall>k < extent_count a. k < j \<longrightarrow> blocked_end a k \<le> unat (fst vars))
     \<and> (case snd (snd vars) of
          None \<Rightarrow> (\<forall>k < extent_count a. j \<le> k \<longrightarrow> pe \<le> blocked_start a k)
        | Some b \<Rightarrow> j < extent_count a \<and> b = blocked_extents (allocator a) ! j
            \<and> unat (fst (snd vars)) = j + 1 \<and> blocked_start a j \<le> pe
            \<and> unat (fst vars) \<le> blocked_end a j)"

lemma fragment_inv_next:
  assumes wf: "alloc_wf a" and small: "extent_count a < 2 ^ 31" and j: "unat i \<le> extent_count a"
    and before: "\<forall>k < extent_count a. k < unat i \<longrightarrow> blocked_end a k \<le> unat q"
    and behind: "unat i < extent_count a \<Longrightarrow> unat q \<le> blocked_end a (unat i)"
  shows "\<exists>i' b'. find_next_blocked_extent i pe a = Inr (i', b') \<and> fragment_inv a (unat pe) (unat i) (q, i', b')"
  using find_next_blocked_extent_spec [OF wf small j, of pe] before behind
  by (auto simp: fragment_inv_def less_imp_le)

lemma fragment_length:
  fixes q f :: u32
  assumes "unat q \<le> unat f" and "unat f \<le> unat q + unat n" and "unat n < 65536"
  shows "unat (ucast (f - q) :: u16) = unat f - unat q"
proof -
  have "unat (f - q) = unat f - unat q" using assms(1) by (simp add: unat_sub_no_underflow)
  moreover have "unat f - unat q < 65536" using assms by linarith
  ultimately show ?thesis by (simp add: unsigned_ucast_eq take_bit_nat_eq_self)
qed

text \<open>One round: the fragment it produces, and what the invariant says of the next one.\<close>

lemma next_fragment_round:
  assumes wf: "alloc_wf a" and small: "extent_count a < 2 ^ 31" and e: "extent_end e < 2 ^ 32"
    and q: "unat (fe_physical_start e) \<le> unat q" "unat q < extent_end e"
    and inv: "fragment_inv a (extent_end e) j (q, i, b)"
  shows "\<exists>bl f vars'. next_fragment a e (q, i, b) = Inr (bl, f, vars')
    \<and> unat (fe_physical_start f) = unat q
    \<and> fe_logical_start f = fe_logical_start e + (fe_physical_start f - fe_physical_start e)
    \<and> (\<forall>c. unat q \<le> c \<longrightarrow> c < extent_end f \<longrightarrow> (blocked_cluster a c \<longleftrightarrow> bl))
    \<and> (\<not> bl \<longrightarrow> fe_length f \<noteq> 0)
    \<and> unat (fst vars') = extent_end f \<and> unat q \<le> extent_end f \<and> extent_end f \<le> extent_end e
    \<and> (extent_end f < extent_end e \<longrightarrow>
         (\<exists>j'. fragment_inv a (extent_end e) j' vars' \<and>
            (if bl then j < j' else j' = j \<and> b \<noteq> None \<and> blocked_start a j \<le> extent_end f)))
    \<and> (bl \<longleftrightarrow> b \<noteq> None \<and> blocked_start a j \<le> unat q)"
proof -
  let ?P = "extent_end e" and ?pe = "fe_physical_start e + ucast (fe_length e)"
  have "?P < 4294967296" using e by simp
  then have pe: "unat ?pe = ?P" by (simp add: extent_end_def unat_add_no_overflow)
  have n: "unat (fe_length e) < 65536" by simp
  have frag: "unat (ucast (w - q) :: u16) = unat w - unat q" if "unat q \<le> unat w" "unat w \<le> ?P" for w :: u32
    using fragment_length [of q w "fe_length e"] that q n by (simp add: extent_end_def)
  note blocked = blocked_cluster_iff [OF wf]
  have before: "blocked_end a k \<le> unat q" if "k < extent_count a" "k < j" for k
    using inv that by (simp add: fragment_inv_def)
  have ascending: "blocked_start a k \<le> blocked_start a l" if "k \<le> l" "l < extent_count a" for k l
    using alloc_wf_extents(3) [OF wf, of l k] blocked_start_le_end [of a k] that by (cases "k = l") auto
  show ?thesis
  proof (cases b)
    case None
    define f where "f = \<lparr>fe_logical_start = fe_logical_start e + (q - fe_physical_start e),
      fe_length = ucast (?pe - q), fe_physical_start = q\<rparr>"
    have f: "extent_end f = ?P" "fe_physical_start f = q"
      using frag [of ?pe] q pe by (simp_all add: f_def extent_end_def)
    have after: "?P \<le> blocked_start a k" if "k < extent_count a" "j \<le> k" for k
      using inv that by (simp add: fragment_inv_def None)
    have "\<not> blocked_cluster a c" if "unat q \<le> c" "c < ?P" for c
      using before after that by (force simp: blocked not_less)
    moreover have "fe_length f \<noteq> 0" using f q by (auto simp: extent_end_def)
    moreover have "next_fragment a e (q, i, b) = Inr (False, f, (?pe, i, None))"
      by (simp add: next_fragment_def None Let_def f_def)
    ultimately show ?thesis using f q pe None by (auto simp: f_def)
  next
    case (Some x)
    have jn: "j < extent_count a" and x: "x = blocked_extents (allocator a) ! j"
      and i: "unat i = j + 1" and sj: "blocked_start a j \<le> ?P" and ej: "unat q \<le> blocked_end a j"
      using inv by (auto simp: fragment_inv_def Some)
    have xs: "unat (fe_physical_start x) = blocked_start a j" by (simp add: x blocked_start_def)
    show ?thesis
    proof (cases "blocked_start a j \<le> unat q")
      case False
      define f where "f = \<lparr>fe_logical_start = fe_logical_start e + (q - fe_physical_start e),
        fe_length = ucast (fe_physical_start x - q), fe_physical_start = q\<rparr>"
      have f: "extent_end f = blocked_start a j" "fe_physical_start f = q"
        using frag [of "fe_physical_start x"] False xs sj by (simp_all add: f_def extent_end_def)
      have "\<not> blocked_cluster a c" if c: "unat q \<le> c" "c < blocked_start a j" for c
      proof -
        have "\<not> (blocked_start a k \<le> c \<and> c < blocked_end a k)" if "k < extent_count a" for k
          using before [of k] ascending [of j k] c that by (cases "k < j") auto
        then show ?thesis by (auto simp: blocked)
      qed
      moreover have "fe_length f \<noteq> 0" using f False by (auto simp: extent_end_def)
      moreover have "next_fragment a e (q, i, b) = Inr (False, f, (fe_physical_start x, i, b))"
        using False xs by (simp add: next_fragment_def Some Let_def f_def word_le_nat_alt)
      moreover have "blocked_end a k \<le> blocked_start a j" if "k < j" for k
        using before [of k] that jn False by linarith
      then have "fragment_inv a ?P j (fe_physical_start x, i, b)"
        using jn x i sj xs blocked_start_le_end [of a j] by (auto simp: fragment_inv_def Some)
      ultimately show ?thesis
        using f xs sj False Some by (auto simp: f_def)
    next
      case True
      let ?be = "fe_physical_start x + ucast (fe_length x)"
      have "blocked_end a j < 4294967296"
        using alloc_wf_extents(2) [OF wf, of "j + 1"] alloc_wf_extents(3) [OF wf, of "j + 1" j] jn by simp
      then have be: "unat ?be = blocked_end a j"
        by (simp add: x blocked_end_def extent_end_def unat_add_no_overflow)
      define w where "w = (if ?be < ?pe then ?be else ?pe)"
      have w: "unat w = min (blocked_end a j) ?P"
        by (simp add: w_def be pe word_less_nat_alt min_def)
      define f where "f = \<lparr>fe_logical_start = fe_logical_start e + (q - fe_physical_start e),
        fe_length = ucast (w - q), fe_physical_start = q\<rparr>"
      have f: "extent_end f = unat w" "fe_physical_start f = q"
        using frag [of w] ej q w by (simp_all add: f_def extent_end_def)
      have "unat w < blocked_end a j \<or> unat w = blocked_end a j" using w by auto
      have bl: "blocked_cluster a c" if "unat q \<le> c" "c < unat w" for c
        using True jn that w by (auto simp: blocked intro!: exI [of _ j])
      have ile: "unat i \<le> extent_count a" using jn i by simp
      have find: "\<exists>i' b'. find_next_blocked_extent i ?pe a = Inr (i', b')
        \<and> (unat w = blocked_end a j \<longrightarrow> fragment_inv a ?P (j + 1) (w, i', b'))"
      proof (cases "unat w = blocked_end a j")
        case True
        have "blocked_end a k \<le> unat w" if "k < j + 1" for k
          using before [of k] ej jn True that by (cases "k = j") auto
        moreover have "unat w \<le> blocked_end a (j + 1)" if "j + 1 < extent_count a"
          using alloc_wf_extents(3) [OF wf, of "j + 1" j] blocked_start_le_end [of a "j + 1"] that True by simp
        ultimately show ?thesis
          using fragment_inv_next [OF wf small ile, of w ?pe] i by (auto simp: pe)
      next
        case False
        then show ?thesis using find_next_blocked_extent_spec [OF wf small ile, of ?pe] by auto
      qed
      then obtain i' b' where fnd: "find_next_blocked_extent i ?pe a = Inr (i', b')"
        "unat w = blocked_end a j \<longrightarrow> fragment_inv a ?P (j + 1) (w, i', b')" by blast
      have "next_fragment a e (q, i, b) = Inr (True, f, (w, i', b'))"
        using True xs fnd(1) by (simp add: next_fragment_def Some Let_def f_def w_def word_le_nat_alt)
      moreover have "unat w < ?P \<longrightarrow> unat w = blocked_end a j" using w by auto
      moreover have "unat q \<le> unat w" "unat w \<le> ?P" using w ej q by auto
      ultimately show ?thesis using f bl fnd(2) True Some by (auto simp: f_def)
    qed
  qed
qed

lemma fragments_from:
  assumes wf: "alloc_wf a" and small: "extent_count a < 2 ^ 31" and e: "extent_end e < 2 ^ 32"
  shows "unat (fe_physical_start e) \<le> unat (fst vars) \<Longrightarrow> unat (fst vars) \<le> extent_end e \<Longrightarrow>
    (unat (fst vars) < extent_end e \<Longrightarrow> fragment_inv a (extent_end e) j vars) \<Longrightarrow>
    \<exists>fs. fragments a e vars = Some (Inr fs) \<and> fragments_tile a e (unat (fst vars)) fs"
proof (induction "2 * (extent_count a - j) + (if blocked_start a j \<le> unat (fst vars) then 0 else 1)"
    arbitrary: j vars rule: less_induct)
  case less
  have "extent_end e < 4294967296" using e by simp
  then have pe: "unat (fe_physical_start e + ucast (fe_length e)) = extent_end e"
    by (simp add: extent_end_def unat_add_no_overflow)
  obtain q i b where vars: "vars = (q, i, b)" by (cases vars)
  show ?case
  proof (cases "unat q < extent_end e")
    case False
    then show ?thesis
      using less.prems(2) pe
      by (subst fragments.simps) (simp add: vars word_less_nat_alt)
  next
    case True
    have inv: "fragment_inv a (extent_end e) j (q, i, b)" using less.prems(3) True by (simp add: vars)
    have pq: "unat (fe_physical_start e) \<le> unat q" using less.prems(1) by (simp add: vars)
    obtain bl f vars' where r: "next_fragment a e (q, i, b) = Inr (bl, f, vars')"
      "unat (fe_physical_start f) = unat q"
      "fe_logical_start f = fe_logical_start e + (fe_physical_start f - fe_physical_start e)"
      "\<forall>c. unat q \<le> c \<longrightarrow> c < extent_end f \<longrightarrow> (blocked_cluster a c \<longleftrightarrow> bl)"
      "\<not> bl \<longrightarrow> fe_length f \<noteq> 0"
      "unat (fst vars') = extent_end f" "unat q \<le> extent_end f" "extent_end f \<le> extent_end e"
      "extent_end f < extent_end e \<longrightarrow> (\<exists>j'. fragment_inv a (extent_end e) j' vars' \<and>
         (if bl then j < j' else j' = j \<and> b \<noteq> None \<and> blocked_start a j \<le> extent_end f))"
      "bl \<longleftrightarrow> b \<noteq> None \<and> blocked_start a j \<le> unat q"
      using next_fragment_round [OF wf small e pq True inv] by (elim exE conjE) (rule that)
    have "\<exists>fs. fragments a e vars' = Some (Inr fs) \<and> fragments_tile a e (unat (fst vars')) fs"
    proof (cases "extent_end f < extent_end e")
      case False
      then have "unat (fst vars') = extent_end e" using r(6,8) by simp
      then show ?thesis using pe by (subst fragments.simps) (simp add: word_less_nat_alt)
    next
      case f: True
      then obtain j' where j': "fragment_inv a (extent_end e) j' vars'"
        "if bl then j < j' else j' = j \<and> b \<noteq> None \<and> blocked_start a j \<le> extent_end f"
        using r(9) by blast
      have "2 * (extent_count a - j') + (if blocked_start a j' \<le> unat (fst vars') then 0 else 1)
          < 2 * (extent_count a - j) + (if blocked_start a j \<le> unat (fst vars) then 0 else 1)"
      proof (cases bl)
        case True
        then have "b \<noteq> None" using r(10) by simp
        then have "j < extent_count a" using inv by (auto simp: fragment_inv_def)
        moreover have "j < j'" using True j'(2) by simp
        ultimately have "2 * (extent_count a - j') + 2 \<le> 2 * (extent_count a - j)" by linarith
        then show ?thesis by simp
      next
        case False
        then have j: "j' = j" "b \<noteq> None" "blocked_start a j \<le> extent_end f" using j'(2) by simp_all
        then have "\<not> blocked_start a j \<le> unat q" using r(10) False by blast
        then show ?thesis using j(3) by (simp only: j(1) vars fst_conv r(6) if_True if_False)
      qed
      then show ?thesis
      proof (rule less.hyps)
        show "unat (fe_physical_start e) \<le> unat (fst vars')"
          unfolding r(6) by (rule order_trans [OF pq r(7)])
        show "unat (fst vars') \<le> extent_end e" unfolding r(6) by (rule r(8))
        show "fragment_inv a (extent_end e) j' vars'" by (rule j'(1))
      qed
    qed
    then obtain fs where fs: "fragments a e vars' = Some (Inr fs)" "fragments_tile a e (extent_end f) fs"
      using r(6) by auto
    have "fragments a e vars = Some (Inr ((bl, f) # fs))"
      using True pe r(1) fs(1) by (subst fragments.simps) (simp add: vars word_less_nat_alt)
    moreover have "fragments_tile a e (unat (fst vars)) ((bl, f) # fs)"
      using r(2-5) fs(2) by (auto simp: vars list_all_iff)
    ultimately show ?thesis by blast
  qed
qed

lemma extent_fragments_tile:
  assumes wf: "alloc_wf a" and small: "extent_count a < 2 ^ 31" and e: "extent_end e < 2 ^ 32"
  shows "\<exists>fs. bind_run (fragment_start a e) (fragments a e) = Some (Inr fs)
    \<and> fragments_tile a e (unat (fe_physical_start e)) fs"
proof -
  have len: "extent_count a < length (blocked_extents (allocator a))"
    using alloc_wf_current(2) [OF wf] by simp
  have "extent_end (blocked_extents (allocator a) ! k) < 2 ^ 32" if "k < extent_count a" for k
    using alloc_wf_extents(2) [OF wf, of "k + 1"] alloc_wf_extents(3) [OF wf, of "k + 1" k] that
    by (simp add: blocked_end_def)
  then have fit: "list_all (\<lambda>e. extent_end e < 2 ^ 32) (take (extent_count a) (blocked_extents (allocator a)))"
    using len by (simp add: list_all_length)
  have asc: "extents_ascending (blocked_extents (allocator a))" using wf by (simp add: alloc_wf_def)
  let ?p = "fe_physical_start e" and ?pe = "fe_physical_start e + ucast (fe_length e)"
  have "extent_end e < 4294967296" using e by simp
  then have pe: "unat ?pe = extent_end e" by (simp add: extent_end_def unat_add_no_overflow)
  from search_blocked_extent_correct [OF asc len small fit, of 0 "blocked_extent_count (allocator a)" ?p]
  obtain i where i: "find_first_blocked_extent ?p a = Some (Inr i)" "unat i \<le> extent_count a"
    "\<forall>k < unat i. blocked_end a k < unat ?p" "\<forall>k. unat i \<le> k \<and> k < extent_count a \<longrightarrow> unat ?p \<le> blocked_end a k"
    by (auto simp: find_first_blocked_extent_def extent_count_def blocked_end_def)
  from fragment_inv_next [OF wf small i(2), of ?p ?pe] i(3,4)
  obtain i' b' where n: "find_next_blocked_extent i ?pe a = Inr (i', b')"
    "fragment_inv a (unat ?pe) (unat i) (?p, i', b')" by (auto simp: less_imp_le)
  have "fragment_start a e = Some (Inr (?p, i', b'))"
    by (simp add: fragment_start_def i(1) n(1))
  moreover have "unat ?p \<le> extent_end e" by (simp add: extent_end_def)
  ultimately show ?thesis
    using fragments_from [OF wf small e, of "(?p, i', b')" "unat i"] n(2) by (simp add: pe)
qed

text \<open>
  C30. \<open>find_blocked_extent_fragments\<close> cuts an extent into fragments that tile it without gap
  or overlap, keep the logical numbers, and are each entirely inside or entirely outside the
  metadata areas; the loop ends, never leaves the array of blocked extents, and no fragment
  that stays in place is empty.
\<close>

theorem blocked_extent_fragments_tile:
  assumes wf: "alloc_wf a" and small: "extent_count a < 2 ^ 31" and e: "extent_end e < 2 ^ 32"
  shows "\<exists>fs. bind_run (fragment_start a e) (fragments a e) = Some (Inr fs)
    \<and> fragments_tile a e (unat (fe_physical_start e)) fs"
  using assms by (rule extent_fragments_tile)

theorem blocked_extent_fragments_tile_witness:
  "\<exists>fs. bind_run (fragment_start sample_alloc \<lparr>fe_logical_start = 0, fe_length = 8, fe_physical_start = 8\<rparr>)
      (fragments sample_alloc \<lparr>fe_logical_start = 0, fe_length = 8, fe_physical_start = 8\<rparr>) = Some (Inr fs)
    \<and> fragments_tile sample_alloc \<lparr>fe_logical_start = 0, fe_length = 8, fe_physical_start = 8\<rparr> 8 fs"
  using blocked_extent_fragments_tile [OF sample_alloc_wf,
      of "\<lparr>fe_logical_start = 0, fe_length = 8, fe_physical_start = 8\<rparr>"]
  by (simp add: sample_alloc_extents extent_end_def)

subsection \<open>The extents of a cluster chain\<close>

text \<open>
  The extents \<open>aggregate_extents\<close> hands on, for a file allocation table that does not change
  meanwhile (it lies in front of the data area, where nothing is written).
\<close>

partial_function (option) chain_extents :: "(u32 \<Rightarrow> u32) \<Rightarrow> fat_extent \<Rightarrow> u32 \<Rightarrow> fat_extent list option" where
  "chain_extents fat current_extent next_no =
     (let r = aggregate_step current_extent next_no; done = (case fst r of None \<Rightarrow> [] | Some e \<Rightarrow> [e])
      in case snd r of
           None \<Rightarrow> Some done
         | Some e \<Rightarrow> Option.bind (chain_extents fat e (fat next_no)) (\<lambda>es. Some (done @ es)))"

text \<open>A chain in the file allocation table from its first cluster to an end mark.\<close>

fun fat_chain :: "(u32 \<Rightarrow> u32) \<Rightarrow> u32 list \<Rightarrow> bool" where
  "fat_chain fat [] \<longleftrightarrow> False"
| "fat_chain fat [c] \<longleftrightarrow> FAT_END_OF_CHAIN \<le> fat c"
| "fat_chain fat (c # d # cs) \<longleftrightarrow> fat c = d \<and> d < FAT_END_OF_CHAIN \<and> fat_chain fat (d # cs)"

fun logical_numbers :: "u32 \<Rightarrow> fat_extent list \<Rightarrow> bool" where
  "logical_numbers n [] \<longleftrightarrow> True"
| "logical_numbers n (e # es) \<longleftrightarrow> fe_logical_start e = n \<and> logical_numbers (n + ucast (fe_length e)) es"

definition extent_lengths :: "fat_extent list \<Rightarrow> bool" where
  "extent_lengths es \<longleftrightarrow> list_all (\<lambda>e. 0 < unat (fe_length e) \<and> unat (fe_length e) \<le> 32768) es"

lemma extent_cluster_list_grow:
  assumes "unat (fe_length e) < 65535"
  shows "unat (fe_length e + 1) = unat (fe_length e) + 1"
    and "extent_cluster_list (e\<lparr>fe_length := fe_length e + 1\<rparr>)
      = extent_cluster_list e @ [fe_physical_start e + ucast (fe_length e)]"
proof -
  show l: "unat (fe_length e + 1) = unat (fe_length e) + 1"
    using assms by (subst unat_add_no_overflow) simp_all
  show "extent_cluster_list (e\<lparr>fe_length := fe_length e + 1\<rparr>)
      = extent_cluster_list e @ [fe_physical_start e + ucast (fe_length e)]"
    by (simp add: extent_cluster_list_def l)
qed

lemma chain_extents_spec:
  "fat_chain fat (c # cs) \<Longrightarrow> 0 < unat (fe_length e) \<Longrightarrow> unat (fe_length e) \<le> 32768 \<Longrightarrow>
   \<exists>es. chain_extents fat e (fat c) = Some es \<and> clusters_of es = extent_cluster_list e @ cs
     \<and> logical_numbers (fe_logical_start e) es \<and> extent_lengths es"
proof (induction cs arbitrary: c e)
  case Nil
  then show ?case
    by (subst chain_extents.simps) (simp add: aggregate_step_def Let_def extent_lengths_def)
next
  case (Cons d cs)
  then have d: "fat c = d" "\<not> FAT_END_OF_CHAIN \<le> d" and ch: "fat_chain fat (d # cs)" by auto
  let ?cons = "d = fe_physical_start e + ucast (fe_length e)" and ?max = "fe_length e = EXT4_MAX_INIT_EXTENT_LEN"
  have max: "?max \<longleftrightarrow> unat (fe_length e) = 32768"
    by (simp add: EXT4_MAX_INIT_EXTENT_LEN_def word_unat_eq_iff)
  show ?case
  proof (cases "?cons \<and> \<not> ?max")
    case True
    let ?e = "e\<lparr>fe_length := fe_length e + 1\<rparr>"
    have lt: "unat (fe_length e) < 65535" using Cons.prems(3) by simp
    have "unat (fe_length e) \<noteq> 32768" using True max by simp
    then have "0 < unat (fe_length ?e)" "unat (fe_length ?e) \<le> 32768"
      using Cons.prems(3) extent_cluster_list_grow(1) [OF lt] by simp_all
    from Cons.IH [OF ch this] obtain es where es: "chain_extents fat ?e (fat d) = Some es"
      "clusters_of es = extent_cluster_list ?e @ cs" "logical_numbers (fe_logical_start e) es"
      "extent_lengths es" by auto
    have "aggregate_step e d = (None, Some ?e)"
      using True d(2) by (simp add: aggregate_step_def Let_def)
    then have "chain_extents fat e (fat c) = Some es"
      by (subst chain_extents.simps) (simp add: d(1) es(1))
    then show ?thesis using es True extent_cluster_list_grow(2) [OF lt] by simp
  next
    case False
    let ?e = "\<lparr>fe_logical_start = fe_logical_start e + ucast (fe_length e), fe_length = 1, fe_physical_start = d\<rparr>"
    have one: "extent_cluster_list ?e = [d]" by (simp add: extent_cluster_list_def)
    have "0 < unat (fe_length ?e)" "unat (fe_length ?e) \<le> 32768" by simp_all
    from Cons.IH [OF ch this] obtain es where es: "chain_extents fat ?e (fat d) = Some es"
      "clusters_of es = d # cs" "logical_numbers (fe_logical_start e + ucast (fe_length e)) es"
      "extent_lengths es" by (auto simp: one)
    have "aggregate_step e d = (Some e, Some ?e)"
      using False d(2) by (auto simp: aggregate_step_def Let_def)
    then have "chain_extents fat e (fat c) = Some (e # es)"
      by (subst chain_extents.simps) (simp add: d(1) es(1))
    then show ?thesis using es Cons.prems(2,3) by (simp add: extent_lengths_def)
  qed
qed

text \<open>
  \<open>aggregate_extents\<close> turns a cluster chain that ends into extents of one to 32768
  clusters whose clusters, in order, are exactly the chain, numbered from 0 without gaps.
\<close>

theorem aggregate_extents_covers_chain:
  assumes "fat_chain fat (c # cs)"
  shows "\<exists>es. chain_extents fat \<lparr>fe_logical_start = 0, fe_length = 1, fe_physical_start = c\<rparr> (fat c) = Some es
    \<and> clusters_of es = c # cs \<and> logical_numbers 0 es \<and> extent_lengths es"
  using chain_extents_spec [OF assms, of "\<lparr>fe_logical_start = 0, fe_length = 1, fe_physical_start = c\<rparr>"]
  by (simp add: extent_cluster_list_def)

theorem aggregate_extents_covers_chain_witness:
  "\<exists>es. chain_extents (\<lambda>c. if c = 12 then 0x0FFFFFFF else if c = 6 then 11 else c + 1)
      \<lparr>fe_logical_start = 0, fe_length = 1, fe_physical_start = 5\<rparr> 6 = Some es \<and> clusters_of es = [5, 6, 11, 12]"
  using aggregate_extents_covers_chain [of "\<lambda>c. if c = 12 then 0x0FFFFFFF else if c = 6 then 11 else c + 1"
      5 "[6, 11, 12]"] by (auto simp: FAT_END_OF_CHAIN_def)

lemma chain_extents_ends:
  "chain_extents fat e n = Some es \<Longrightarrow> \<exists>k. FAT_END_OF_CHAIN \<le> (fat ^^ k) n"
proof (erule chain_extents.raw_induct [rotated, where P = "\<lambda>fat e n es. \<exists>k. FAT_END_OF_CHAIN \<le> (fat ^^ k) n"])
  fix rec :: "(u32 \<Rightarrow> u32) \<Rightarrow> fat_extent \<Rightarrow> u32 \<Rightarrow> fat_extent list option"
    and fat :: "u32 \<Rightarrow> u32" and e n es
  assume IH: "\<And>fat e n es. rec fat e n = Some es \<Longrightarrow> \<exists>k. FAT_END_OF_CHAIN \<le> (fat ^^ k) n"
    and body: "(let r = aggregate_step e n; done = (case fst r of None \<Rightarrow> [] | Some e \<Rightarrow> [e])
      in case snd r of None \<Rightarrow> Some done
         | Some e \<Rightarrow> Option.bind (rec fat e (fat n)) (\<lambda>es. Some (done @ es))) = Some es"
  show "\<exists>k. FAT_END_OF_CHAIN \<le> (fat ^^ k) n"
  proof (cases "snd (aggregate_step e n)")
    case None
    then have "FAT_END_OF_CHAIN \<le> n"
      by (auto simp: aggregate_step_def Let_def split: if_splits)
    then show ?thesis by (intro exI [of _ 0]) simp
  next
    case (Some e')
    then obtain es' where "rec fat e' (fat n) = Some es'"
      using body by (auto simp: Let_def bind_eq_Some_conv)
    from IH [OF this] obtain k where "FAT_END_OF_CHAIN \<le> (fat ^^ k) (fat n)" by blast
    then show ?thesis by (intro exI [of _ "Suc k"]) (simp add: funpow_Suc_right del: funpow.simps)
  qed
qed

lemma chain_extents_returns:
  "FAT_END_OF_CHAIN \<le> (fat ^^ k) n \<Longrightarrow> \<exists>es. chain_extents fat e n = Some es"
proof (induction k arbitrary: n e)
  case 0
  then show ?case by (subst chain_extents.simps) (simp add: aggregate_step_def Let_def)
next
  case (Suc k)
  then have IH: "\<exists>es. chain_extents fat e' (fat n) = Some es" for e'
    by (simp add: funpow_Suc_right del: funpow.simps)
  show ?case
  proof (cases "snd (aggregate_step e n)")
    case None
    then show ?thesis by (subst chain_extents.simps) (simp add: Let_def)
  next
    case (Some e')
    then show ?thesis using IH [of e'] by (subst chain_extents.simps) (auto simp: Let_def)
  qed
qed


end
