(* ===== verification/Resettling.thy ===== *)
theory Resettling
  imports Metadata_Reader
begin

section \<open>Resettling keeps the data\<close>

text \<open>
  What \<open>resettle_extent\<close> of metadata_reader.cpp promises: the clusters of a blocked fragment
  are copied to newly allocated clusters, the extents of the copy are written to the stream,
  and neither the allocation nor the growing stream overwrites the data that is still to be
  copied, the copies made so far or anything else outside the stream.
\<close>

subsection \<open>The bytes of an extent\<close>

text \<open>The bytes of an extent's clusters.\<close>

definition extent_bytes :: "fat_globals \<Rightarrow> fat_extent \<Rightarrow> nat set" where
  "extent_bytes g e = {cluster_start g (fe_physical_start e)
     ..<cluster_start g (fe_physical_start e) + unat (fe_length e) * unat (mi_cluster_size (meta_info g))}"

definition extent_content :: "fat_globals \<Rightarrow> memory \<Rightarrow> fat_extent \<Rightarrow> u8 list" where
  "extent_content g m e = load_bytes m (cluster_start g (fe_physical_start e))
     (unat (fe_length e) * unat (mi_cluster_size (meta_info g)))"

lemma extent_content_cong: "agree_on (extent_bytes g e) m m' \<Longrightarrow> extent_content g m e = extent_content g m' e"
  unfolding extent_content_def by (rule agree_on_load_bytes) (auto simp: extent_bytes_def)

lemma load_bytes_append: "load_bytes m a (n + k) = load_bytes m a n @ load_bytes m (a + n) k"
  by (simp only: load_bytes_def add.assoc [symmetric] upt_add_eq_append [OF le_add1] map_append)

lemma extent_bytes_clusters:
  assumes geo: "page_geometry g ps" and e: "2 \<le> unat (fe_physical_start e)" "extent_end e \<le> 2 ^ 32"
    and x: "x \<in> extent_bytes g e"
  shows "\<exists>c. unat c \<in> extent_clusters e \<and> x \<in> page_region g ps c"
proof -
  let ?p = "fe_physical_start e" and ?z = "unat ps"
  have z: "unat (mi_cluster_size (meta_info g)) = ?z" by (rule page_geometry_size [OF geo])
  have z0: "0 < ?z" using geo unfolding page_geometry_def by linarith
  define k where "k = (x - cluster_start g ?p) div ?z"
  define c where "c = (word_of_nat (unat ?p + k) :: u32)"
  have x': "cluster_start g ?p \<le> x" "x - cluster_start g ?p < unat (fe_length e) * ?z"
    using x by (auto simp: extent_bytes_def z)
  then have k: "k < unat (fe_length e)" unfolding k_def using z0 by (simp add: div_less_iff_less_mult)
  then have "unat ?p + k < 2 ^ LENGTH(32)" using e(2) by (simp add: extent_end_def)
  then have c: "unat c = unat ?p + k" unfolding c_def by (simp only: unat_of_nat mod_less)
  have "cluster_start g c = cluster_start g ?p + k * ?z"
  proof -
    have "unat c - 2 = unat ?p - 2 + k" "2 \<le> unat c" using e(1) c by linarith+
    then show ?thesis by (simp only: cluster_start_nat e(1) z distrib_right add.assoc)
  qed
  moreover have "k * ?z \<le> x - cluster_start g ?p" "x - cluster_start g ?p < k * ?z + ?z"
    unfolding k_def using z0 dividend_less_div_times [OF z0] by (simp_all add: add.commute)
  ultimately have "cluster_start g c \<le> x" "x < cluster_start g c + ?z" using x'(1) by linarith+
  then have "x \<in> page_region g ps c" unfolding page_region_def by simp
  moreover have "unat c \<in> extent_clusters e" using c k by (simp add: extent_clusters_def extent_end_def)
  ultimately show ?thesis by blast
qed

subsection \<open>Extents written to the stream\<close>

text \<open>
  \<open>extent_segment\<close> for all states of a set at once, with the stream behind the segment: the reader
  moves the same way in each of the states. So the memory may change while the segment is read.
\<close>

inductive stable_segment ::
  "fat_globals \<Rightarrow> u64 \<Rightarrow> 'a io_state_scheme set \<Rightarrow> stream \<Rightarrow> fat_extent list \<Rightarrow> stream \<Rightarrow> bool"
  for g ps R where
  stable_end: "\<forall>r \<in> R. getNext g ps (word_of_nat sizeof_fat_extent) st r = Inr (0, st', r)
    \<Longrightarrow> stable_segment g ps R st [] st'"
| stable_extent: "\<forall>r \<in> R. getNext g ps (word_of_nat sizeof_fat_extent) st r = Inr (a, st', r)
      \<and> load_fat_extent (mem r) a = f \<Longrightarrow> a \<noteq> 0
    \<Longrightarrow> stable_segment g ps R st' es st'' \<Longrightarrow> stable_segment g ps R st (f # es) st''"

inductive_cases stable_segment_NilE: "stable_segment g ps R st [] st'"
inductive_cases stable_segment_ConsE: "stable_segment g ps R st (f # es) st''"

lemma stable_segment_mono: "stable_segment g ps R st es st'' \<Longrightarrow> S \<subseteq> R \<Longrightarrow> stable_segment g ps S st es st''"
proof (induction rule: stable_segment.induct)
  case (stable_end st st')
  then show ?case by (intro stable_segment.stable_end [of S g ps st st']) blast
next
  case (stable_extent st a st' f es st'')
  then show ?case by (intro stable_segment.stable_extent [of S g ps st a st' f es st'']) blast+
qed

lemma stable_segment_extent:
  "stable_segment g ps R st es st'' \<Longrightarrow> r \<in> R \<Longrightarrow> extent_segment g ps r st es"
proof (induction rule: stable_segment.induct)
  case (stable_end st st')
  then show ?case by (intro segment_end) blast
next
  case (stable_extent st a st' f es st'')
  then have "getNext g ps (word_of_nat sizeof_fat_extent) st r = Inr (a, st', r)" "load_fat_extent (mem r) a = f"
    by blast+
  then show ?case using segment_extent [of g ps st r a st' es] stable_extent by simp
qed

text \<open>
  \<open>emits\<close>: from the writer \<open>w\<close> in the state \<open>s\<close> to \<open>w'\<close> in \<open>s'\<close> the extents \<open>fs\<close> have been
  inserted into the stream. What the stream held before is kept, nothing outside of it has
  changed, and a reader that stands where \<open>w\<close> stood reads \<open>fs\<close> and goes on where \<open>w'\<close> stands.
\<close>

definition emits ::
  "fat_globals \<Rightarrow> u64 \<Rightarrow> nat set \<Rightarrow> u32 \<Rightarrow> stream \<Rightarrow> 'a io_state_scheme \<Rightarrow> fat_extent list
    \<Rightarrow> nat set \<Rightarrow> u32 \<Rightarrow> stream \<Rightarrow> 'a io_state_scheme \<Rightarrow> bool" where
  "emits g ps old c w s fs old' c' w' s' \<longleftrightarrow>
     stream_inv g ps old' c' w' s' \<and> used_bytes old w \<subseteq> used_bytes old' w'
     \<and> agree_on (used_bytes old w) (mem s) (mem s')
     \<and> st_header w' = st_header w \<and> st_index w' = st_index w + word_of_nat (length fs)
     \<and> same_setup (alloc s) (alloc s')
     \<and> (\<forall>X. outside_stream g ps old c (alloc s) X \<longrightarrow>
          outside_stream g ps old' c' (alloc s') X \<and> agree_on X (mem s) (mem s'))
     \<and> (\<forall>(R :: 'a io_state_scheme set) es v. R \<noteq> {} \<longrightarrow> st_header w \<noteq> 0 \<longrightarrow>
          (\<forall>r \<in> R. agree_on (used_bytes old' w' - used_bytes old w) (mem s') (mem r)
             \<and> unat (st_index w) + length fs \<le> unat (load_u64 (mem r) (st_header w))) \<longrightarrow>
          stable_segment g ps R w' es v \<longrightarrow> stable_segment g ps R w (fs @ es) v)"

lemma emits_reader:
  fixes s s' :: "'a io_state_scheme" and R :: "'a io_state_scheme set"
  assumes "emits g ps old c w s fs old' c' w' s'" and "R \<noteq> {}" "st_header w \<noteq> 0"
    and "\<And>r. r \<in> R \<Longrightarrow> agree_on (used_bytes old' w' - used_bytes old w) (mem s') (mem r)"
    and "\<And>r. r \<in> R \<Longrightarrow> unat (st_index w) + length fs \<le> unat (load_u64 (mem r) (st_header w))"
    and "stable_segment g ps R w' es v"
  shows "stable_segment g ps R w (fs @ es) v"
proof -
  have R: "\<forall>(R :: 'a io_state_scheme set) es v. R \<noteq> {} \<longrightarrow> st_header w \<noteq> 0 \<longrightarrow>
      (\<forall>r \<in> R. agree_on (used_bytes old' w' - used_bytes old w) (mem s') (mem r)
         \<and> unat (st_index w) + length fs \<le> unat (load_u64 (mem r) (st_header w))) \<longrightarrow>
      stable_segment g ps R w' es v \<longrightarrow> stable_segment g ps R w (fs @ es) v"
    using assms(1) unfolding emits_def by (elim conjE)
  show ?thesis by (rule R [rule_format, OF assms(2,3)]) (simp_all add: assms(4-6))
qed

lemma emits_inv: "emits g ps old c w s fs old' c' w' s' \<Longrightarrow> stream_inv g ps old' c' w' s'"
  and emits_setup: "emits g ps old c w s fs old' c' w' s' \<Longrightarrow> same_setup (alloc s) (alloc s')"
  and emits_outside: "emits g ps old c w s fs old' c' w' s' \<Longrightarrow> outside_stream g ps old c (alloc s) X
    \<Longrightarrow> outside_stream g ps old' c' (alloc s') X"
  and emits_frame: "emits g ps old c w s fs old' c' w' s' \<Longrightarrow> outside_stream g ps old c (alloc s) X
    \<Longrightarrow> agree_on X (mem s) (mem s')"
  and emits_header: "emits g ps old c w s fs old' c' w' s' \<Longrightarrow> st_header w' = st_header w"
  and emits_used: "emits g ps old c w s fs old' c' w' s' \<Longrightarrow> used_bytes old w \<subseteq> used_bytes old' w'"
  and emits_kept: "emits g ps old c w s fs old' c' w' s' \<Longrightarrow> agree_on (used_bytes old w) (mem s) (mem s')"
  by (simp_all add: emits_def)

lemma emits_refl: "stream_inv g ps old c w s \<Longrightarrow> emits g ps old c w s [] old c w s"
  by (simp add: emits_def agree_on_def)

lemma emits_trans:
  fixes s s1 s2 :: "'a io_state_scheme"
  assumes E1: "emits g ps old c w s fs old1 c1 w1 s1" and E2: "emits g ps old1 c1 w1 s1 gs old2 c2 w2 s2"
  shows "emits g ps old c w s (fs @ gs) old2 c2 w2 s2"
proof -
  have read: "stable_segment g ps R w ((fs @ gs) @ es) v"
    if ne: "R \<noteq> {}" and h: "st_header w \<noteq> 0"
      and R: "\<forall>r \<in> R. agree_on (used_bytes old2 w2 - used_bytes old w) (mem s2) (mem r)
        \<and> unat (st_index w) + length (fs @ gs) \<le> unat (load_u64 (mem r) (st_header w))"
      and rest: "stable_segment g ps R w2 es v" for R :: "'a io_state_scheme set" and es v
  proof -
    obtain r where "r \<in> R" using ne by blast
    then have "unat (st_index w) + length (fs @ gs) \<le> unat (load_u64 (mem r) (st_header w))" using R by blast
    then have "unat (st_index w) + length fs < 18446744073709551616"
      using unat_u64_bound [of "load_u64 (mem r) (st_header w)"] unfolding length_append by linarith
    moreover from this have "length fs < 2 ^ LENGTH(64)" by simp
    then have "unat (word_of_nat (length fs) :: u64) = length fs" by (simp only: unat_of_nat mod_less)
    ultimately have i1: "unat (st_index w1) = unat (st_index w) + length fs"
      using E1 by (simp add: emits_def unat_add_no_overflow)
    have h1: "st_header w1 = st_header w" by (rule emits_header [OF E1])
    have tl: "stable_segment g ps R w1 (gs @ es) v"
    proof (rule emits_reader [OF E2 ne _ _ _ rest])
      show "agree_on (used_bytes old2 w2 - used_bytes old1 w1) (mem s2) (mem r)" if "r \<in> R" for r
        using R that emits_used [OF E1] by (blast intro: agree_on_mono)
      show "unat (st_index w1) + length gs \<le> unat (load_u64 (mem r) (st_header w1))" if "r \<in> R" for r
        using R that by (simp add: h1 i1 add.assoc)
    qed (simp add: h1 h)
    have "stable_segment g ps R w (fs @ gs @ es) v"
    proof (rule emits_reader [OF E1 ne h _ _ tl])
      fix r assume r: "r \<in> R"
      have "agree_on (used_bytes old1 w1 - used_bytes old w) (mem s2) (mem r)"
        using R r emits_used [OF E2] by (blast intro: agree_on_mono)
      then show "agree_on (used_bytes old1 w1 - used_bytes old w) (mem s1) (mem r)"
        using emits_kept [OF E2] by (auto simp: agree_on_def)
      show "unat (st_index w) + length fs \<le> unat (load_u64 (mem r) (st_header w))" using R r by fastforce
    qed
    then show ?thesis by simp
  qed
  moreover have "agree_on (used_bytes old w) (mem s) (mem s2)"
    using emits_kept [OF E1] agree_on_mono [OF emits_kept [OF E2] emits_used [OF E1]] agree_on_trans by blast
  moreover have "\<forall>X. outside_stream g ps old c (alloc s) X \<longrightarrow>
      outside_stream g ps old2 c2 (alloc s2) X \<and> agree_on X (mem s) (mem s2)"
    using emits_outside [OF E1] emits_outside [OF E2] emits_frame [OF E1] emits_frame [OF E2] agree_on_trans by blast
  moreover have "same_setup (alloc s) (alloc s2)"
    using emits_setup [OF E1] emits_setup [OF E2] same_setup_trans by blast
  moreover have "used_bytes old w \<subseteq> used_bytes old2 w2" using emits_used [OF E1] emits_used [OF E2] by blast
  moreover have "st_index w2 = st_index w + word_of_nat (length (fs @ gs))"
    using E1 E2 by (simp add: emits_def add.assoc)
  ultimately show ?thesis
    using emits_inv [OF E2] emits_header [OF E1] emits_header [OF E2] by (simp add: emits_def)
qed

lemma used_bytes_subset: "stream_inv g ps old c w s \<Longrightarrow> used_bytes old w \<subseteq> old \<union> page_region g ps c"
  by (auto simp: used_bytes_def page_region_def stream_inv_def)

text \<open>Data may be written in between, to bytes that the stream does not touch.\<close>

lemma emits_then_data:
  fixes s s1 :: "'a io_state_scheme"
  assumes E: "emits g ps old c w s fs old1 c1 w1 s1" and B: "outside_stream g ps old1 c1 (alloc s1) B"
    and m: "agree_on (- B) (mem s1) m"
    and disj: "\<And>X. outside_stream g ps old c (alloc s) X \<Longrightarrow> X \<inter> B = {}"
  shows "emits g ps old c w s fs old1 c1 w1 (s1\<lparr>mem := m\<rparr>)"
proof -
  have out: "used_bytes old1 w1 \<inter> B = {}"
    using used_bytes_subset [OF emits_inv [OF E]] B unfolding outside_stream_def by blast
  then have "agree_on (used_bytes old1 w1) (mem s1) m" by (intro agree_on_mono [OF m]) blast
  moreover have "agree_on X (mem s1) m" if "outside_stream g ps old c (alloc s) X" for X
    using disj [OF that] by (intro agree_on_mono [OF m]) blast
  ultimately show ?thesis
    using E unfolding emits_def
    by (auto simp: agree_on_def subset_eq)
qed

lemma emits_extent:
  fixes s :: "'a io_state_scheme"
  assumes inv: "stream_inv g ps old c w s" and ps: "20 \<le> unat ps"
  shows "(\<exists>w' s' old' c'. write_extent g ps f w s = Inr (w', s') \<and> emits g ps old c w s [f] old' c' w' s')
    \<or> write_extent g ps f w s = Inl Fs_Too_Small"
proof -
  let ?n = "word_of_nat sizeof_fat_extent :: u64" and ?w = "w\<lparr>st_index := st_index w + 1\<rparr>"
  have n: "unat ?n = 12" by (simp add: sizeof_fat_extent_def)
  have inv': "stream_inv g ps old c ?w s" using inv by simp
  have it: "write_extent g ps f w s = bind_res (iterate_advance g ps True ?n ?w s) (\<lambda>(p, w1, s1).
      Inr (w1, s1\<lparr>mem := store_fat_extent (mem s1) p f\<rparr>))"
    by (simp add: write_extent_def reserve_extent_def iterateStreamArchiver_def)
  show ?thesis
  proof (cases "iterate_advance g ps True ?n ?w s")
    case (Inl err)
    then show ?thesis using iterate_advance_insert_total [OF inv' Inl] it by simp
  next
    case (Inr r)
    obtain p w1 s1 where r: "r = (p, w1, s1)" by (cases r)
    define s2 where "s2 = s1\<lparr>mem := store_fat_extent (mem s1) p f\<rparr>"
    have "unat ?n + 8 \<le> unat ps" using ps by (simp only: n)
    from iterate_advance_insert [OF inv' this Inr [unfolded r], unfolded n]
    obtain old' c' where a: "stream_inv g ps old' c' w1 s1" "p \<noteq> 0"
      "used_bytes old w \<subseteq> used_bytes old' w1" "{p..<p + 12} \<subseteq> used_bytes old' w1 - used_bytes old w"
      "agree_on (used_bytes old w) (mem s) (mem s1)" "st_header w1 = st_header w" "st_index w1 = st_index w + 1"
      "same_setup (alloc s) (alloc s1)"
      "\<And>X. outside_stream g ps old c (alloc s) X \<Longrightarrow> outside_stream g ps old' c' (alloc s1) X
         \<and> agree_on X (mem s) (mem s1) \<and> {p..<p + 12} \<inter> X = {}"
      "\<And>r :: 'a io_state_scheme. agree_on (used_bytes old' w1 - used_bytes old w - {p..<p + 12}) (mem s1) (mem r)
         \<Longrightarrow> iterate_advance g ps False ?n ?w r = Inr (p, w1, r)"
      by auto
    have m: "agree_on (- {p..<p + 12}) (mem s1) (mem s2)"
      unfolding agree_on_def s2_def by (simp add: fat_extent_codec.store_frame)
    have keep: "agree_on (used_bytes old w) (mem s) (mem s2)"
    proof -
      have "agree_on (used_bytes old w) (mem s1) (mem s2)" using a(4) by (intro agree_on_mono [OF m]) blast
      then show ?thesis using a(5) agree_on_trans by blast
    qed
    have frame: "agree_on X (mem s) (mem s2)" if X: "outside_stream g ps old c (alloc s) X" for X
    proof -
      have "agree_on X (mem s1) (mem s2)" using a(9) [OF X] by (intro agree_on_mono [OF m]) blast
      then show ?thesis using a(9) [OF X] agree_on_trans by blast
    qed
    have "stable_segment g ps R w ([f] @ es) v"
      if ne: "R \<noteq> {}" and h: "st_header w \<noteq> 0"
        and R: "\<forall>r \<in> R. agree_on (used_bytes old' w1 - used_bytes old w) (mem s2) (mem r)
          \<and> unat (st_index w) + length [f] \<le> unat (load_u64 (mem r) (st_header w))"
        and rest: "stable_segment g ps R w1 es v" for R :: "'a io_state_scheme set" and es v
    proof -
      have "getNext g ps ?n w r = Inr (p, w1, r) \<and> load_fat_extent (mem r) p = f" if r: "r \<in> R" for r
      proof
        have ag: "agree_on (used_bytes old' w1 - used_bytes old w) (mem s2) (mem r)"
          and cnt: "unat (st_index w) + 1 \<le> unat (load_u64 (mem r) (st_header w))" using R r by auto
        have "unat (st_index w) + 1 < 18446744073709551616"
          using cnt unat_u64_bound [of "load_u64 (mem r) (st_header w)"] by linarith
        then have "unat (st_index w + 1) = unat (st_index w) + 1" by (subst unat_add_no_overflow) simp_all
        then have "\<not> load_u64 (mem r) (st_header w) < st_index w + 1" using cnt by (simp add: word_less_nat_alt)
        moreover have "iterate_advance g ps False ?n ?w r = Inr (p, w1, r)"
          using ag m by (intro a(10)) (auto simp: agree_on_def)
        ultimately show "getNext g ps ?n w r = Inr (p, w1, r)"
          using h by (simp add: getNext_def iterateStreamArchiver_def)
        have "load_fat_extent (mem r) p = load_fat_extent (mem s2) p"
          using a(4) ag by (intro fat_extent_codec.load_cong) (auto simp: agree_on_def)
        then show "load_fat_extent (mem r) p = f" by (simp add: s2_def fat_extent_codec.load_store)
      qed
      then have "stable_segment g ps R w (f # es) v" using a(2) rest by (intro stable_extent [where a = p and st' = w1]) blast+
      then show ?thesis by simp
    qed
    then have "emits g ps old c w s [f] old' c' w1 s2"
      using a(1,3,6-8) keep frame a(9) by (simp add: emits_def s2_def)
    moreover have "write_extent g ps f w s = Inr (w1, s2)" using it Inr by (simp add: r s2_def)
    ultimately show ?thesis by blast
  qed
qed

subsection \<open>Extents that hold data\<close>

text \<open>An extent of data clusters that does not run beyond the 32-bit cluster numbers.\<close>

definition sound_extent :: "fat_extent \<Rightarrow> bool" where
  "sound_extent f \<longleftrightarrow> fe_length f \<noteq> 0 \<and> 2 \<le> unat (fe_physical_start f) \<and> extent_end f \<le> 2 ^ 32"

text \<open>
  The extents \<open>fs\<close> have consecutive logical numbers from \<open>n\<close> to \<open>n'\<close>, and their clusters,
  which the stream will not touch, hold the bytes \<open>bs\<close>.
\<close>

definition holds_data ::
  "fat_globals \<Rightarrow> u64 \<Rightarrow> nat set \<Rightarrow> u32 \<Rightarrow> 'a io_state_scheme \<Rightarrow> u32 \<Rightarrow> fat_extent list \<Rightarrow> u32 \<Rightarrow> u8 list \<Rightarrow> bool" where
  "holds_data g ps old c s n fs n' bs \<longleftrightarrow>
     logical_numbers n fs \<and> n' = n + (\<Sum>f\<leftarrow>fs. ucast (fe_length f))
     \<and> list_all (\<lambda>f. sound_extent f \<and> outside_stream g ps old c (alloc s) (extent_bytes g f)) fs
     \<and> concat (map (extent_content g (mem s)) fs) = bs"

lemma logical_numbers_append:
  "logical_numbers n (fs @ gs) \<longleftrightarrow> logical_numbers n fs \<and> logical_numbers (n + (\<Sum>f\<leftarrow>fs. ucast (fe_length f))) gs"
  by (induction fs arbitrary: n) (simp_all add: add.assoc)

lemma holds_data_append:
  "holds_data g ps old c s n fs n1 bs \<Longrightarrow> holds_data g ps old c s n1 gs n2 ds \<Longrightarrow>
   holds_data g ps old c s n (fs @ gs) n2 (bs @ ds)"
  by (simp add: holds_data_def logical_numbers_append add.assoc)

lemma holds_data_move:
  assumes H: "holds_data g ps old c s n fs n' bs"
    and F: "\<And>X. outside_stream g ps old c (alloc s) X \<Longrightarrow>
      outside_stream g ps old' c' (alloc s') X \<and> agree_on X (mem s) (mem s')"
  shows "holds_data g ps old' c' s' n fs n' bs"
proof -
  have out: "outside_stream g ps old c (alloc s) (extent_bytes g f)" if "f \<in> set fs" for f
    using H that by (simp add: holds_data_def list_all_iff)
  have "extent_content g (mem s') f = extent_content g (mem s) f" if "f \<in> set fs" for f
    using extent_content_cong F [OF out [OF that]] by metis
  then have "concat (map (extent_content g (mem s')) fs) = concat (map (extent_content g (mem s)) fs)"
    by (intro arg_cong [of _ _ concat] map_cong) simp_all
  moreover have "outside_stream g ps old' c' (alloc s') (extent_bytes g f)" if "f \<in> set fs" for f
    using F [OF out [OF that]] by blast
  ultimately show ?thesis using H unfolding holds_data_def list_all_iff by blast
qed

lemma holds_data_keep:
  "holds_data g ps old c s n fs n' bs \<Longrightarrow> emits g ps old c w s es old' c' w' s' \<Longrightarrow>
   holds_data g ps old' c' s' n fs n' bs"
  by (erule holds_data_move) (blast intro: emits_outside emits_frame)

text \<open>
  \<open>writes_data\<close>: a run that starts at \<open>w\<close> in \<open>s\<close> either ends because the file system is full
  or has inserted extents that hold the bytes \<open>bs\<close>; such runs compose.
\<close>

definition writes_data ::
  "(stream \<times> 'a io_state_scheme) run \<Rightarrow> fat_globals \<Rightarrow> u64 \<Rightarrow> nat set \<Rightarrow> u32 \<Rightarrow> stream \<Rightarrow> 'a io_state_scheme
    \<Rightarrow> u32 \<Rightarrow> u32 \<Rightarrow> u8 list \<Rightarrow> bool" where
  "writes_data R g ps old c w s n n' bs \<longleftrightarrow> R = Some (Inl Fs_Too_Small) \<or>
     (\<exists>w' s' old' c' fs. R = Some (Inr (w', s')) \<and> emits g ps old c w s fs old' c' w' s'
        \<and> holds_data g ps old' c' s' n fs n' bs)"

lemma writes_data_done: "stream_inv g ps old c w s \<Longrightarrow> writes_data (Some (Inr (w, s))) g ps old c w s n n []"
  using emits_refl [of g ps old c w s] unfolding writes_data_def holds_data_def
  by (intro disjI2 exI [of _ w] exI [of _ s] exI [of _ old] exI [of _ c] exI [of _ "[]"]) simp

lemma writes_data_bind:
  assumes R: "writes_data R g ps old c w s n n1 bs"
    and K: "\<And>w1 s1 old1 c1 fs. R = Some (Inr (w1, s1)) \<Longrightarrow> emits g ps old c w s fs old1 c1 w1 s1 \<Longrightarrow>
        writes_data (k (w1, s1)) g ps old1 c1 w1 s1 n1 n2 ds"
  shows "writes_data (bind_run R k) g ps old c w s n n2 (bs @ ds)"
proof -
  consider "R = Some (Inl Fs_Too_Small)"
    | w1 s1 old1 c1 fs where "R = Some (Inr (w1, s1))" "emits g ps old c w s fs old1 c1 w1 s1"
      "holds_data g ps old1 c1 s1 n fs n1 bs"
    using R by (auto simp: writes_data_def)
  then show ?thesis
  proof cases
    case 1
    then show ?thesis by (simp add: writes_data_def)
  next
    case 2
    from K [OF 2(1,2)] consider "k (w1, s1) = Some (Inl Fs_Too_Small)"
      | w2 s2 old2 c2 gs where "k (w1, s1) = Some (Inr (w2, s2))" "emits g ps old1 c1 w1 s1 gs old2 c2 w2 s2"
        "holds_data g ps old2 c2 s2 n1 gs n2 ds"
      by (auto simp: writes_data_def)
    then show ?thesis
    proof cases
      case 1
      then show ?thesis using 2(1) by (simp add: writes_data_def)
    next
      case k: 2
      have "emits g ps old c w s (fs @ gs) old2 c2 w2 s2" by (rule emits_trans [OF 2(2) k(2)])
      moreover have "holds_data g ps old2 c2 s2 n (fs @ gs) n2 (bs @ ds)"
        by (rule holds_data_append [OF holds_data_keep [OF 2(3) k(2)] k(3)])
      ultimately show ?thesis using 2(1) k(1) by (auto simp: writes_data_def)
    qed
  qed
qed

text \<open>An extent that stays in place.\<close>

lemma writes_data_extent:
  fixes s :: "'a io_state_scheme"
  assumes "stream_inv g ps old c w s" and "20 \<le> unat ps" and "sound_extent f"
    and out: "outside_stream g ps old c (alloc s) (extent_bytes g f)"
  shows "writes_data (Some (write_extent g ps f w s)) g ps old c w s (fe_logical_start f)
    (fe_logical_start f + ucast (fe_length f)) (extent_content g (mem s) f)"
proof -
  from emits_extent [OF assms(1,2), of f]
  consider "write_extent g ps f w s = Inl Fs_Too_Small"
    | w' s' old' c' where "write_extent g ps f w s = Inr (w', s')" "emits g ps old c w s [f] old' c' w' s'"
    by blast
  then show ?thesis
  proof cases
    case 2
    have "holds_data g ps old c s (fe_logical_start f) [f] (fe_logical_start f + ucast (fe_length f))
        (extent_content g (mem s) f)"
      using assms(3) out by (simp add: holds_data_def)
    from holds_data_keep [OF this 2(2)] show ?thesis using 2 by (auto simp: writes_data_def)
  qed (simp add: writes_data_def)
qed

subsection \<open>Resettling a fragment\<close>

definition tail_extent :: "fat_extent \<Rightarrow> u16 \<Rightarrow> fat_extent" where
  "tail_extent e i = \<lparr>fe_logical_start = fe_logical_start e + ucast i, fe_length = fe_length e - i,
     fe_physical_start = fe_physical_start e + ucast i\<rparr>"

lemma outside_stream_mono: "outside_stream g ps old c a X \<Longrightarrow> Y \<subseteq> X \<Longrightarrow> outside_stream g ps old c a Y"
  unfolding outside_stream_def by blast

lemma cluster_start_add:
  assumes "2 \<le> unat p" and "unat p + k < 2 ^ 32"
  shows "unat (p + word_of_nat k) = unat p + k"
    and "cluster_start g (p + word_of_nat k) = cluster_start g p + k * unat (mi_cluster_size (meta_info g))"
proof -
  have "k < 2 ^ LENGTH(32)" using assms(2) by simp
  then have k: "unat (word_of_nat k :: u32) = k" by (simp only: unat_of_nat mod_less)
  then show u: "unat (p + word_of_nat k) = unat p + k"
    using assms(2) by (subst unat_add_no_overflow) simp_all
  have "unat (p + word_of_nat k) - 2 = unat p - 2 + k" "2 \<le> unat (p + word_of_nat k)"
    unfolding u using assms(1) by linarith+
  then show "cluster_start g (p + word_of_nat k) = cluster_start g p + k * unat (mi_cluster_size (meta_info g))"
    by (simp only: cluster_start_nat assms(1) distrib_right add.assoc)
qed

text \<open>Taking an extent out of the allocator, seen from the stream.\<close>

lemma allocate_for_stream:
  assumes inv: "stream_inv g ps old c w s" and al: "allocate_extent n (alloc s) = Inr (e, a1)"
    and n: "n \<noteq> 0"
  shows "stream_inv g ps old c w (s\<lparr>alloc := a1\<rparr>) \<and> same_setup (alloc s) a1
    \<and> 2 \<le> unat (fe_physical_start e) \<and> extent_end e \<le> 2 ^ 32
    \<and> 0 < unat (fe_length e) \<and> unat (fe_length e) \<le> unat n
    \<and> outside_stream g ps old c a1 (extent_bytes g e)
    \<and> (\<forall>X. outside_stream g ps old c (alloc s) X \<longrightarrow>
         outside_stream g ps old c a1 X \<and> X \<inter> extent_bytes g e = {})"
proof -
  have geo: "page_geometry g ps" and wf: "alloc_wf (alloc s)" and c: "2 \<le> unat c" "\<not> cluster_free (alloc s) (unat c)"
    using inv by (auto simp: stream_inv_def)
  have "1 \<le> unat n" using n by (simp add: Suc_le_eq unat_gt_0)
  with allocate_extent_spec [OF wf, of n] al
  have t: "taken (alloc s) e a1" and len: "0 < unat (fe_length e)" "unat (fe_length e) \<le> unat n" by auto
  have wf1: "alloc_wf a1" and same: "same_setup (alloc s) a1"
    and free: "\<And>d. cluster_free a1 d \<longleftrightarrow> cluster_free (alloc s) d \<and> d \<notin> extent_clusters e"
    and us: "\<And>d. d \<in> extent_clusters e \<Longrightarrow> usable (alloc s) d"
    using t by (auto simp: taken_def)
  have first: "unat (fe_physical_start e) \<in> extent_clusters e"
    using len by (simp add: extent_clusters_def extent_end_def)
  have "cluster_free (alloc s) (unat (fe_physical_start e))" using us [OF first] by (simp add: usable_def)
  then have "unat (fe_physical_start e) \<noteq> 0" "unat (fe_physical_start e) \<noteq> 1"
    using inv unfolding stream_inv_def by metis+
  then have two: "2 \<le> unat (fe_physical_start e)" by linarith
  have "extent_end e - 1 \<in> extent_clusters e"
    using len by (auto simp: extent_clusters_def extent_end_def)
  from us [OF this] have "extent_end e - 1 < blocked_start (alloc s) (extent_count (alloc s))"
    by (simp add: usable_def)
  then have fin: "extent_end e \<le> 2 ^ 32" using alloc_wf_extents(2) [OF wf order_refl] by linarith
  have shrink: "outside_stream g ps old c a1 X" if "outside_stream g ps old c (alloc s) X" for X
    using that free by (auto simp: outside_stream_def)
  have region: "\<exists>d. 2 \<le> unat d \<and> cluster_free (alloc s) (unat d) \<and> \<not> cluster_free a1 (unat d) \<and> x \<in> page_region g ps d"
    if x: "x \<in> extent_bytes g e" for x
  proof -
    obtain d where d: "unat d \<in> extent_clusters e" "x \<in> page_region g ps d"
      using extent_bytes_clusters [OF geo two fin x] by blast
    then have "2 \<le> unat d" using two by (simp add: extent_clusters_def)
    moreover have "cluster_free (alloc s) (unat d)" using us [OF d(1)] by (simp add: usable_def)
    ultimately show ?thesis using d free by blast
  qed
  have disj: "X \<inter> extent_bytes g e = {}" if X: "outside_stream g ps old c (alloc s) X" for X
    using region X unfolding outside_stream_def by blast
  have "x \<notin> old \<and> x \<notin> page_region g ps c \<and> (\<forall>d. 2 \<le> unat d \<longrightarrow> cluster_free a1 (unat d) \<longrightarrow> x \<notin> page_region g ps d)"
    if x: "x \<in> extent_bytes g e" for x
  proof -
    obtain d where d: "2 \<le> unat d" "cluster_free (alloc s) (unat d)" "\<not> cluster_free a1 (unat d)" "x \<in> page_region g ps d"
      using region [OF x] by blast
    have "x \<notin> page_region g ps d'" if "2 \<le> unat d'" "d' \<noteq> d" for d'
      using page_regions_disjoint [OF geo that(1) d(1) that(2)] d(4) by blast
    moreover have "x \<notin> old" using inv d by (auto simp: stream_inv_def)
    moreover have "c \<noteq> d" using c d(2) by blast
    ultimately show ?thesis using c(1) d(3) by metis
  qed
  then have out: "outside_stream g ps old c a1 (extent_bytes g e)" unfolding outside_stream_def by blast
  have "stream_inv g ps old c w (s\<lparr>alloc := a1\<rparr>)"
    using inv wf1 free by (auto simp: stream_inv_def)
  then show ?thesis using same two fin len out shrink disj by blast
qed

text \<open>One round of the loop.\<close>

lemma resettle_round:
  fixes s :: "'a io_state_scheme"
  assumes inv: "stream_inv g ps old c w s" and ps: "20 \<le> unat ps" and small: "unat ps \<le> 65536"
    and e: "2 \<le> unat (fe_physical_start e)" "extent_end e < 2 ^ 32"
    and i: "i < fe_length e"
    and al: "allocate_extent (fe_length e - i) (alloc s) = Inr (f0, a1)"
    and f: "f = f0\<lparr>fe_logical_start := fe_logical_start e + ucast i\<rparr>"
    and wr: "write_extent g ps f w (s\<lparr>alloc := a1\<rparr>) = Inr (w1, s1)"
    and s2: "s2 = s1\<lparr>mem := mem_copy (mem s1) (cluster_start g (fe_physical_start f))
        (cluster_start g (fe_physical_start e + ucast i))
        (unat (ucast (fe_length f) * mi_cluster_size (meta_info g)))\<rparr>"
    and out: "outside_stream g ps old c (alloc s) (extent_bytes g (tail_extent e i))"
  shows "\<exists>old' c'. emits g ps old c w s [f] old' c' w1 s2
    \<and> outside_stream g ps old' c' (alloc s2) (extent_bytes g f)
    \<and> sound_extent f \<and> 0 < unat (fe_length f) \<and> unat (i + fe_length f) = unat i + unat (fe_length f)
    \<and> i + fe_length f \<le> fe_length e
    \<and> outside_stream g ps old c (alloc s) (extent_bytes g (tail_extent e (i + fe_length f)))
    \<and> extent_content g (mem s) (tail_extent e i) =
        extent_content g (mem s2) f @ extent_content g (mem s) (tail_extent e (i + fe_length f))"
proof -
  let ?z = "unat (mi_cluster_size (meta_info g))" and ?l = "unat (fe_length f)"
  let ?B = "extent_bytes g f" and ?src = "cluster_start g (fe_physical_start e + ucast i)"
  have "unat i < unat (fe_length e)" using i by (simp add: word_less_nat_alt)
  then have n: "fe_length e - i \<noteq> 0" "unat (fe_length e - i) = unat (fe_length e) - unat i"
    by (auto simp: unat_sub_no_underflow)
  have fs: "fe_length f = fe_length f0" "fe_physical_start f = fe_physical_start f0"
    "extent_bytes g f = extent_bytes g f0"
    by (simp_all add: f extent_bytes_def)
  from allocate_for_stream [OF inv al n(1)] have A:
    "stream_inv g ps old c w (s\<lparr>alloc := a1\<rparr>)" "same_setup (alloc s) a1" "0 < ?l" "?l \<le> unat (fe_length e) - unat i"
    "outside_stream g ps old c a1 ?B"
    "\<And>X. outside_stream g ps old c (alloc s) X \<Longrightarrow> outside_stream g ps old c a1 X \<and> X \<inter> ?B = {}"
    "2 \<le> unat (fe_physical_start f)" "extent_end f \<le> 2 ^ 32"
    by (auto simp: fs n(2) extent_end_def)
  have sound: "sound_extent f" using A(3,7,8) by (simp add: sound_extent_def unat_gt_0)
  have "emits g ps old c w s [] old c w (s\<lparr>alloc := a1\<rparr>)"
    using A(1,2,6) by (simp add: emits_def agree_on_def)
  moreover from emits_extent [OF A(1) ps, of f] wr obtain old' c'
    where W: "emits g ps old c w (s\<lparr>alloc := a1\<rparr>) [f] old' c' w1 s1" by auto
  ultimately have E: "emits g ps old c w s [f] old' c' w1 s1" using emits_trans by fastforce
  have geo: "page_geometry g ps" using inv by (simp add: stream_inv_def)
  have z: "?z \<le> 65536" using small page_geometry_size [OF geo] by simp
  have size: "unat (ucast (fe_length f) * mi_cluster_size (meta_info g)) = ?l * ?z"
  proof -
    have "?l * ?z \<le> 65535 * 65536" using z unat_u16_bound [of "fe_length f"] by (intro mult_le_mono) linarith+
    then show ?thesis by (subst unat_mult_no_overflow) simp_all
  qed
  have il: "unat i + ?l \<le> unat (fe_length e)" using A(4) \<open>unat i < unat (fe_length e)\<close> by linarith
  have "unat i + ?l < 65536" using il unat_u16_bound [of "fe_length e"] by linarith
  then have sum: "unat (i + fe_length f) = unat i + ?l" by (intro unat_add_no_overflow) simp
  then have le: "i + fe_length f \<le> fe_length e" using il by (simp add: word_le_nat_alt)
  have start: "cluster_start g (fe_physical_start (tail_extent e j)) =
      cluster_start g (fe_physical_start e) + unat j * ?z" if "j \<le> fe_length e" for j
  proof -
    have "unat (fe_physical_start e) + unat j < 2 ^ 32"
      using that e(2) by (simp add: extent_end_def word_le_nat_alt)
    from cluster_start_add(2) [OF e(1) this] show ?thesis by (simp add: tail_extent_def unsigned_ucast_eq)
  qed
  have tail: "extent_content g m (tail_extent e j) = load_bytes m
      (cluster_start g (fe_physical_start e) + unat j * ?z) ((unat (fe_length e) - unat j) * ?z)"
    if "j \<le> fe_length e" for j m
    using that start [OF that]
    by (simp add: extent_content_def tail_extent_def unat_sub_no_underflow word_le_nat_alt)
  have split: "extent_content g (mem s) (tail_extent e i) = load_bytes (mem s) ?src (?l * ?z)
      @ extent_content g (mem s) (tail_extent e (i + fe_length f))"
  proof -
    have "unat (fe_length e) - unat i = ?l + (unat (fe_length e) - (unat i + ?l))" using il by linarith
    then have "(unat (fe_length e) - unat i) * ?z = ?l * ?z + (unat (fe_length e) - (unat i + ?l)) * ?z"
      by (metis distrib_right)
    moreover have "?src = cluster_start g (fe_physical_start e) + unat i * ?z"
      using start [of i] i by (simp add: tail_extent_def)
    ultimately show ?thesis
      using i le by (simp add: tail sum load_bytes_append distrib_right add.assoc)
  qed
  have outB: "outside_stream g ps old' c' (alloc s1) ?B" using emits_outside [OF W] A(5) by simp
  have "agree_on (- ?B) (mem s1) (mem s2)"
    by (auto simp: agree_on_def s2 extent_bytes_def size intro!: mem_copy_frame [symmetric])
  from emits_then_data [OF E outB this] A(6) have E2: "emits g ps old c w s [f] old' c' w1 s2"
    by (simp add: s2)
  have "load_bytes (mem s) ?src (?l * ?z) = load_bytes (mem s1) ?src (?l * ?z)"
  proof (rule agree_on_load_bytes)
    show "agree_on (extent_bytes g (tail_extent e i)) (mem s) (mem s1)" by (rule emits_frame [OF E out])
    have "?l * ?z \<le> (unat (fe_length e) - unat i) * ?z" using A(4) by (rule mult_le_mono1)
    then show "{?src..<?src + ?l * ?z} \<subseteq> extent_bytes g (tail_extent e i)"
      by (auto simp: extent_bytes_def tail_extent_def n(2))
  qed
  also have "\<dots> = extent_content g (mem s2) f"
    by (simp add: s2 extent_content_def size load_bytes_copy)
  finally have copy: "load_bytes (mem s) ?src (?l * ?z) = extent_content g (mem s2) f" .
  have bytes: "extent_bytes g (tail_extent e j) = {cluster_start g (fe_physical_start e) + unat j * ?z
      ..<cluster_start g (fe_physical_start e) + unat (fe_length e) * ?z}" if "j \<le> fe_length e" for j
  proof -
    have j: "unat j \<le> unat (fe_length e)" using that by (simp add: word_le_nat_alt)
    then have "unat j * ?z + (unat (fe_length e) - unat j) * ?z = unat (fe_length e) * ?z"
      by (metis distrib_right le_add_diff_inverse)
    moreover have "unat (fe_length (tail_extent e j)) = unat (fe_length e) - unat j"
      using j by (simp add: tail_extent_def unat_sub_no_underflow)
    ultimately show ?thesis by (simp only: extent_bytes_def start [OF that] add.assoc)
  qed
  have "unat i * ?z \<le> (unat i + ?l) * ?z" by (rule mult_le_mono1) simp
  then have "extent_bytes g (tail_extent e (i + fe_length f)) \<subseteq> extent_bytes g (tail_extent e i)"
    using i le by (auto simp: bytes sum)
  then have rest: "outside_stream g ps old c (alloc s) (extent_bytes g (tail_extent e (i + fe_length f)))"
    by (rule outside_stream_mono [OF out])
  have "outside_stream g ps old' c' (alloc s2) ?B" using outB by (simp add: s2)
  then show ?thesis using E2 sound A(3) sum le rest split unfolding copy by blast
qed

text \<open>The loop from the index \<open>i\<close> on, by induction on the clusters that are left.\<close>

lemma resettle_from_writes:
  fixes s :: "'a io_state_scheme"
  assumes "stream_inv g ps old c w s" and ps: "20 \<le> unat ps" and small: "unat ps \<le> 65536"
    and e: "2 \<le> unat (fe_physical_start e)" "extent_end e < 2 ^ 32"
    and "i \<le> fe_length e" and "outside_stream g ps old c (alloc s) (extent_bytes g (tail_extent e i))"
  shows "writes_data (resettle_from g ps e i w s) g ps old c w s (fe_logical_start e + ucast i)
    (fe_logical_start e + ucast (fe_length e)) (extent_content g (mem s) (tail_extent e i))"
  using assms(1,6,7)
proof (induction "unat (fe_length e) - unat i" arbitrary: i w s old c rule: less_induct)
  case less
  show ?case
  proof (cases "i < fe_length e")
    case False
    then have i: "i = fe_length e" using less.prems(2) by simp
    then have "resettle_from g ps e i w s = Some (Inr (w, s))" by (simp add: resettle_from.simps)
    moreover have "extent_content g (mem s) (tail_extent e i) = []"
      by (simp add: i extent_content_def tail_extent_def load_bytes_def)
    ultimately show ?thesis using writes_data_done [OF less.prems(1)] i by simp
  next
    case True
    then have n: "fe_length e - i \<noteq> 0" by simp
    show ?thesis
    proof (cases "allocate_extent (fe_length e - i) (alloc s)")
      case (Inl err)
      have "alloc_wf (alloc s)" using less.prems(1) by (simp add: stream_inv_def)
      from allocate_extent_spec [OF this, of "fe_length e - i"] Inl have "err = Fs_Too_Small" by auto
      then show ?thesis using True Inl by (subst resettle_from.simps) (simp add: writes_data_def)
    next
      case (Inr r)
      obtain f0 a1 where r: "r = (f0, a1)" by (cases r)
      define f where f: "f = f0\<lparr>fe_logical_start := fe_logical_start e + ucast i\<rparr>"
      have inv1: "stream_inv g ps old c w (s\<lparr>alloc := a1\<rparr>)"
        using allocate_for_stream [OF less.prems(1) Inr [unfolded r] n] by blast
      show ?thesis
      proof (cases "write_extent g ps f w (s\<lparr>alloc := a1\<rparr>)")
        case W: (Inl err)
        then have "err = Fs_Too_Small" using emits_extent [OF inv1 ps, of f] by auto
        then show ?thesis using True Inr W by (subst resettle_from.simps) (simp add: r f writes_data_def)
      next
        case W: (Inr q)
        obtain w1 s1 where q: "q = (w1, s1)" by (cases q)
        define s2 where s2: "s2 = s1\<lparr>mem := mem_copy (mem s1) (cluster_start g (fe_physical_start f))
          (cluster_start g (fe_physical_start e + ucast i))
          (unat (ucast (fe_length f) * mi_cluster_size (meta_info g)))\<rparr>"
        let ?j = "i + fe_length f" and ?n = "fe_logical_start e"
        have step: "resettle_from g ps e i w s =
            bind_run (Some (Inr (w1, s2))) (\<lambda>q. resettle_from g ps e ?j (fst q) (snd q))"
          using True Inr W by (subst resettle_from.simps) (simp add: r f q s2 Let_def)
        from resettle_round [OF less.prems(1) ps small e True Inr [unfolded r] f W [unfolded q] s2 less.prems(3)]
        obtain old1 c1 where R: "emits g ps old c w s [f] old1 c1 w1 s2"
          "outside_stream g ps old1 c1 (alloc s2) (extent_bytes g f)" "0 < unat (fe_length f)"
          "unat ?j = unat i + unat (fe_length f)" "?j \<le> fe_length e"
          "outside_stream g ps old c (alloc s) (extent_bytes g (tail_extent e ?j))"
          "extent_content g (mem s) (tail_extent e i) =
             extent_content g (mem s2) f @ extent_content g (mem s) (tail_extent e ?j)" "sound_extent f"
          by (elim exE conjE) (rule that)
        have j: "(ucast ?j :: u32) = ucast i + ucast (fe_length f)"
        proof (rule unsigned_word_eqI)
          have "unat i + unat (fe_length f) < 4294967296"
            using unat_u16_bound [of i] unat_u16_bound [of "fe_length f"] by linarith
          then show "unat (ucast ?j :: u32) = unat (ucast i + ucast (fe_length f) :: u32)"
            by (subst unat_add_no_overflow) (simp_all only: unat_ucast_16_32 R(4), simp)
        qed
        have start_f: "fe_logical_start f = ?n + ucast i" by (simp add: f)
        have "holds_data g ps old1 c1 s2 (?n + ucast i) [f] (?n + ucast ?j) (extent_content g (mem s2) f)"
          using R(2,8) by (simp add: holds_data_def start_f j add.assoc)
        then have one: "writes_data (Some (Inr (w1, s2))) g ps old c w s (?n + ucast i) (?n + ucast ?j)
            (extent_content g (mem s2) f)"
          using R(1) by (auto simp: writes_data_def)
        show ?thesis
          unfolding step R(7)
        proof (rule writes_data_bind [OF one])
          fix w' s' old' c' fs
          assume "Some (Inr (w1, s2)) = Some (Inr (w', s'))" and E: "emits g ps old c w s fs old' c' w' s'"
          then have eq: "w' = w1" "s' = s2" by simp_all
          have "unat i < unat (fe_length e)" using True by (simp add: word_less_nat_alt)
          then have "unat (fe_length e) - unat ?j < unat (fe_length e) - unat i" using R(3,4) by linarith
          from less.hyps [OF this emits_inv [OF E] R(5) emits_outside [OF E R(6)]]
          show "writes_data (resettle_from g ps e ?j (fst (w', s')) (snd (w', s'))) g ps old' c' w' s' (?n + ucast ?j)
              (?n + ucast (fe_length e)) (extent_content g (mem s) (tail_extent e ?j))"
            using extent_content_cong [OF emits_frame [OF E R(6)]] by simp
        qed
      qed
    qed
  qed
qed

lemma resettle_extent_writes:
  fixes s :: "'a io_state_scheme"
  assumes "stream_inv g ps old c w s" and "20 \<le> unat ps" "unat ps \<le> 65536"
    and "2 \<le> unat (fe_physical_start e)" "extent_end e < 2 ^ 32"
    and "outside_stream g ps old c (alloc s) (extent_bytes g e)"
  shows "writes_data (resettle_extent g ps e w s) g ps old c w s (fe_logical_start e)
    (fe_logical_start e + ucast (fe_length e)) (extent_content g (mem s) e)"
proof -
  have e: "tail_extent e 0 = e" by (simp add: tail_extent_def)
  show ?thesis using resettle_from_writes [OF assms(1-5), of 0] assms(6) by (simp add: e resettle_extent_def)
qed

end
