(* ===== verification/File_Extents.thy ===== *)
theory File_Extents
  imports Resettling
begin

section \<open>The extents of a file keep its data\<close>

text \<open>
  What \<open>find_blocked_extent_fragments\<close> and \<open>aggregate_extents\<close> of metadata_reader.cpp promise
  together: the segment they write for a cluster chain holds extents with consecutive logical
  numbers whose clusters contain the bytes of the chain's clusters, in order, wherever the
  blocked parts have been moved to.
\<close>

subsection \<open>Runs of clusters\<close>

definition data_bytes :: "fat_globals \<Rightarrow> u32 \<Rightarrow> nat \<Rightarrow> nat set" where
  "data_bytes g p k = {cluster_start g p..<cluster_start g p + k * unat (mi_cluster_size (meta_info g))}"

definition data_content :: "fat_globals \<Rightarrow> memory \<Rightarrow> u32 \<Rightarrow> nat \<Rightarrow> u8 list" where
  "data_content g m p k = load_bytes m (cluster_start g p) (k * unat (mi_cluster_size (meta_info g)))"

lemma data_content_cong: "agree_on (data_bytes g p k) m m' \<Longrightarrow> data_content g m p k = data_content g m' p k"
  unfolding data_content_def by (rule agree_on_load_bytes) (auto simp: data_bytes_def)

lemma extent_as_data:
  "extent_bytes g e = data_bytes g (fe_physical_start e) (unat (fe_length e))"
  "extent_content g m e = data_content g m (fe_physical_start e) (unat (fe_length e))"
  by (simp_all add: extent_bytes_def extent_content_def data_bytes_def data_content_def)

lemma data_content_0 [simp]: "data_content g m p 0 = []"
  by (simp add: data_content_def load_bytes_def)

lemma data_split:
  assumes "2 \<le> unat p" and "unat p + j < 2 ^ 32" and "unat q = unat p + j"
  shows "data_content g m p (j + k) = data_content g m p j @ data_content g m q k"
    and "data_bytes g p (j + k) = data_bytes g p j \<union> data_bytes g q k"
proof -
  have "q = p + word_of_nat j"
    using cluster_start_add(1) [OF assms(1,2)] assms(3) by (simp add: word_unat_eq_iff)
  then have start: "cluster_start g q = cluster_start g p + j * unat (mi_cluster_size (meta_info g))"
    using cluster_start_add(2) [OF assms(1,2)] by simp
  show "data_content g m p (j + k) = data_content g m p j @ data_content g m q k"
    by (simp add: data_content_def start distrib_right load_bytes_append)
  show "data_bytes g p (j + k) = data_bytes g p j \<union> data_bytes g q k"
    by (auto simp: data_bytes_def start distrib_right)
qed

lemma outside_stream_Un:
  "outside_stream g ps old c a (X \<union> Y) \<longleftrightarrow> outside_stream g ps old c a X \<and> outside_stream g ps old c a Y"
  unfolding outside_stream_def by blast

subsection \<open>Fragments\<close>

text \<open>The fragments depend on the blocked extents only, which no allocation changes.\<close>

lemma same_setup_extents:
  "same_setup a a' \<Longrightarrow> blocked_extents (allocator a') = blocked_extents (allocator a)"
  "same_setup a a' \<Longrightarrow> blocked_extent_count (allocator a') = blocked_extent_count (allocator a)"
  by (simp_all add: same_setup_def)

lemma find_next_setup: "same_setup a a' \<Longrightarrow> find_next_blocked_extent i pe a' = find_next_blocked_extent i pe a"
  by (simp add: find_next_blocked_extent_def same_setup_extents)

lemma next_fragment_setup:
  assumes "same_setup a a'"
  shows "next_fragment a' e vars = next_fragment a e vars"
  unfolding next_fragment_def find_next_setup [OF assms] by (rule refl)

lemma fragment_start_setup: "same_setup a a' \<Longrightarrow> fragment_start a' e = fragment_start a e"
  by (simp add: fragment_start_def find_next_setup [of a a'] find_first_blocked_extent_def same_setup_extents)

lemma next_fragment_start: "next_fragment a e vars = Inr (b, f, vars') \<Longrightarrow> fe_physical_start f = fst vars"
  by (auto simp: next_fragment_def Let_def split: prod.splits option.splits if_splits elim!: bind_resE)

lemma fragments_NilD: "fragments a e vars = Some (Inr []) \<Longrightarrow>
    \<not> fst vars < fe_physical_start e + ucast (fe_length e)"
  by (subst (asm) fragments.simps) (auto simp: bind_run_eq_Inr split: if_splits)

lemma fragments_ConsE:
  assumes "fragments a e vars = Some (Inr ((b, f) # fs))"
  obtains vars' where "fst vars < fe_physical_start e + ucast (fe_length e)"
    and "next_fragment a e vars = Inr (b, f, vars')" and "fragments a e vars' = Some (Inr fs)"
  using assms by (subst (asm) fragments.simps) (auto split: if_splits elim!: bind_runE)

lemma fragments_tile_le: "fragments_tile a e q fs \<Longrightarrow> q \<le> extent_end e"
  by (induction a e q fs rule: fragments_tile.induct) (auto simp: extent_end_def)

lemma write_fragments_writes:
  fixes s :: "'a io_state_scheme"
  assumes ps: "20 \<le> unat ps" "unat ps \<le> 65536"
    and e: "2 \<le> unat (fe_physical_start e)" "extent_end e < 2 ^ 32"
  shows "stream_inv g ps old c w s \<Longrightarrow> same_setup a (alloc s) \<Longrightarrow> fragments a e vars = Some (Inr fs) \<Longrightarrow>
    fragments_tile a e (unat p) fs \<Longrightarrow> unat (fe_physical_start e) \<le> unat p \<Longrightarrow>
    outside_stream g ps old c (alloc s) (data_bytes g p (extent_end e - unat p)) \<Longrightarrow>
    writes_data (write_fragments g ps e vars w s) g ps old c w s
      (fe_logical_start e + (p - fe_physical_start e)) (fe_logical_start e + ucast (fe_length e))
      (data_content g (mem s) p (extent_end e - unat p))"
proof (induction fs arbitrary: old c w s vars p)
  case Nil
  then have "unat p = extent_end e" by simp
  then have "unat (p - fe_physical_start e) = unat (fe_length e)"
    using Nil.prems(5) by (simp add: unat_sub_no_underflow extent_end_def)
  then have "p - fe_physical_start e = ucast (fe_length e)" by (simp add: word_unat_eq_iff)
  moreover have "write_fragments g ps e vars w s = Some (Inr (w, s))"
    using fragments_NilD [OF Nil.prems(3)] by (simp add: write_fragments.simps)
  ultimately show ?case
    using writes_data_done [OF Nil.prems(1)] \<open>unat p = extent_end e\<close> by simp
next
  case (Cons bf fs)
  obtain b f where bf: "bf = (b, f)" by (cases bf)
  obtain vars' where v: "fst vars < fe_physical_start e + ucast (fe_length e)"
    "next_fragment a e vars = Inr (b, f, vars')" "fragments a e vars' = Some (Inr fs)"
    using Cons.prems(3) unfolding bf by (rule fragments_ConsE)
  have p: "fe_physical_start f = p" using Cons.prems(4) by (simp add: bf word_unat_eq_iff)
  have t: "fe_physical_start f = p" "fe_logical_start f = fe_logical_start e + (p - fe_physical_start e)"
    "\<not> b \<longrightarrow> fe_length f \<noteq> 0" "fragments_tile a e (extent_end f) fs"
    using Cons.prems(4) by (auto simp: bf p)
  have le: "extent_end f \<le> extent_end e" by (rule fragments_tile_le [OF t(4)])
  define p' where "p' = p + ucast (fe_length f)"
  have f: "extent_end f = unat p + unat (fe_length f)" by (simp add: extent_end_def t(1))
  have p': "unat p' = extent_end f"
    unfolding p'_def using le e(2) by (subst unat_add_no_overflow) (simp_all add: f)
  have two: "2 \<le> unat p" using Cons.prems(5) e(1) by linarith
  have split: "extent_end e - unat p = unat (fe_length f) + (extent_end e - unat p')"
    using le p' f by linarith
  have fin: "unat p + unat (fe_length f) < 2 ^ 32" using le e(2) f by linarith
  have q: "unat p' = unat p + unat (fe_length f)" using p' f by simp
  have out: "outside_stream g ps old c (alloc s) (extent_bytes g f)"
    "outside_stream g ps old c (alloc s) (data_bytes g p' (extent_end e - unat p'))"
    using Cons.prems(6) by (simp_all add: split data_split(2) [OF two fin q] outside_stream_Un extent_as_data t(1))
  have first: "writes_data (if b then resettle_extent g ps f w s else Some (write_extent g ps f w s)) g ps old c w s
      (fe_logical_start f) (fe_logical_start f + ucast (fe_length f)) (extent_content g (mem s) f)"
  proof (cases b)
    case True
    have "2 \<le> unat (fe_physical_start f)" "extent_end f < 2 ^ 32" using two t(1) fin f by simp_all
    then show ?thesis using resettle_extent_writes [OF Cons.prems(1) ps _ _ out(1)] True by simp
  next
    case False
    then have "sound_extent f" using t(3) two t(1) fin f by (simp add: sound_extent_def)
    then show ?thesis using writes_data_extent [OF Cons.prems(1) ps(1) _ out(1)] False by simp
  qed
  have run: "write_fragments g ps e vars w s =
      bind_run (if b then resettle_extent g ps f w s else Some (write_extent g ps f w s))
        (\<lambda>q. write_fragments g ps e vars' (fst q) (snd q))"
    using v next_fragment_setup [OF Cons.prems(2)] by (subst write_fragments.simps) simp
  have n: "fe_logical_start f + ucast (fe_length f) = fe_logical_start e + (p' - fe_physical_start e)"
    by (simp add: t(2) p'_def algebra_simps)
  have content: "data_content g (mem s) p (extent_end e - unat p) =
      extent_content g (mem s) f @ data_content g (mem s) p' (extent_end e - unat p')"
    by (simp add: split data_split(1) [OF two fin q] extent_as_data t(1))
  show ?case
    unfolding run content t(2) [symmetric]
  proof (rule writes_data_bind [OF first])
    fix w1 s1 old1 c1 gs
    assume "(if b then resettle_extent g ps f w s else Some (write_extent g ps f w s)) = Some (Inr (w1, s1))"
      and E: "emits g ps old c w s gs old1 c1 w1 s1"
    have "same_setup a (alloc s1)" using Cons.prems(2) emits_setup [OF E] same_setup_trans by blast
    moreover have "unat (fe_physical_start e) \<le> unat p'" using Cons.prems(5) p' f by linarith
    ultimately show "writes_data (write_fragments g ps e vars' (fst (w1, s1)) (snd (w1, s1))) g ps old1 c1 w1 s1
        (fe_logical_start f + ucast (fe_length f)) (fe_logical_start e + ucast (fe_length e))
        (data_content g (mem s) p' (extent_end e - unat p'))"
      using Cons.IH [OF emits_inv [OF E] _ v(3) _ _ emits_outside [OF E out(2)]] t(4) p'
        data_content_cong [OF emits_frame [OF E out(2)]]
      by (simp add: n)
  qed
qed

lemma find_blocked_extent_fragments_writes:
  fixes s :: "'a io_state_scheme"
  assumes inv: "stream_inv g ps old c w s" and ps: "20 \<le> unat ps" "unat ps \<le> 65536"
    and small: "extent_count (alloc s) < 2 ^ 31"
    and e: "2 \<le> unat (fe_physical_start e)" "extent_end e < 2 ^ 32"
    and out: "outside_stream g ps old c (alloc s) (extent_bytes g e)"
  shows "writes_data (find_blocked_extent_fragments g ps e w s) g ps old c w s (fe_logical_start e)
    (fe_logical_start e + ucast (fe_length e)) (extent_content g (mem s) e)"
proof -
  have wf: "alloc_wf (alloc s)" using inv by (simp add: stream_inv_def)
  obtain fs vars where f: "fragment_start (alloc s) e = Some (Inr vars)"
    "fragments (alloc s) e vars = Some (Inr fs)" "fragments_tile (alloc s) e (unat (fe_physical_start e)) fs"
    using extent_fragments_tile [OF wf small e(2)] by (auto elim!: bind_runE)
  have "extent_end e - unat (fe_physical_start e) = unat (fe_length e)" by (simp add: extent_end_def)
  then show ?thesis
    using write_fragments_writes [OF ps e inv _ f(2,3)] out f(1)
    by (simp add: find_blocked_extent_fragments_def extent_as_data)
qed

subsection \<open>Cluster chains\<close>

text \<open>
  The clusters that \<open>fat_chain\<close> lists, with their FAT entries: what must lie outside the stream.
\<close>

definition fat_of :: "fat_globals \<Rightarrow> memory \<Rightarrow> u32 \<Rightarrow> u32" where
  "fat_of g m c = load_u32 m (fat_entry g c)"

definition chain_outside ::
  "fat_globals \<Rightarrow> u64 \<Rightarrow> nat set \<Rightarrow> u32 \<Rightarrow> alloc_state \<Rightarrow> u32 list \<Rightarrow> bool" where
  "chain_outside g ps old c a cs \<longleftrightarrow> list_all (\<lambda>x. 2 \<le> unat x
     \<and> outside_stream g ps old c a (data_bytes g x 1)
     \<and> outside_stream g ps old c a {fat_entry g x..<fat_entry g x + 4}) cs"

definition chain_content :: "fat_globals \<Rightarrow> memory \<Rightarrow> u32 list \<Rightarrow> u8 list" where
  "chain_content g m cs = concat (map (\<lambda>x. data_content g m x 1) cs)"

lemma chain_keep:
  assumes E: "emits g ps old c w s fs old' c' w' s'" and out: "chain_outside g ps old c (alloc s) cs"
  shows "chain_outside g ps old' c' (alloc s') cs" and "chain_content g (mem s') cs = chain_content g (mem s) cs"
    and "x \<in> set cs \<Longrightarrow> fat_of g (mem s') x = fat_of g (mem s) x"
proof -
  show "chain_outside g ps old' c' (alloc s') cs"
    using out emits_outside [OF E] by (auto simp: chain_outside_def list_all_iff)
  have "data_content g (mem s) x 1 = data_content g (mem s') x 1" if "x \<in> set cs" for x
    using out that by (intro data_content_cong emits_frame [OF E]) (simp add: chain_outside_def list_all_iff)
  then show "chain_content g (mem s') cs = chain_content g (mem s) cs"
    unfolding chain_content_def by (intro arg_cong [of _ _ concat] map_cong) simp_all
  show "fat_of g (mem s') x = fat_of g (mem s) x" if "x \<in> set cs"
  proof -
    have "outside_stream g ps old c (alloc s) {fat_entry g x..<fat_entry g x + 4}"
      using out that by (simp add: chain_outside_def list_all_iff)
    from emits_frame [OF E this] show ?thesis
      unfolding fat_of_def by (intro u32.load_cong) (simp add: agree_on_def)
  qed
qed

lemma fat_chain_cong: "(\<And>x. x \<in> set cs \<Longrightarrow> fat x = fat' x) \<Longrightarrow> fat_chain fat cs = fat_chain fat' cs"
  by (induction fat cs rule: fat_chain.induct) auto

lemma aggregate_step_cases:
  assumes "unat (fe_length e) \<le> 32768" and "d < FAT_END_OF_CHAIN"
  obtains (grow) "d = fe_physical_start e + ucast (fe_length e)" "unat (fe_length e) < 32768"
      "aggregate_step e d = (None, Some (e\<lparr>fe_length := fe_length e + 1\<rparr>))"
    | (next_extent) "aggregate_step e d = (Some e, Some \<lparr>fe_logical_start = fe_logical_start e + ucast (fe_length e),
        fe_length = 1, fe_physical_start = d\<rparr>)"
proof (cases "d = fe_physical_start e + ucast (fe_length e) \<and> fe_length e \<noteq> EXT4_MAX_INIT_EXTENT_LEN")
  case True
  then have "unat (fe_length e) \<noteq> 32768" by (auto simp: EXT4_MAX_INIT_EXTENT_LEN_def word_unat_eq_iff)
  then show thesis using True assms by (intro grow) (auto simp: aggregate_step_def Let_def)
next
  case False
  then show thesis using assms by (intro next_extent) (auto simp: aggregate_step_def Let_def)
qed

text \<open>What the next FAT entry is while the clusters \<open>cs\<close> are still to come.\<close>

definition chain_next :: "(u32 \<Rightarrow> u32) \<Rightarrow> u32 list \<Rightarrow> u32 \<Rightarrow> bool" where
  "chain_next fat cs d \<longleftrightarrow> (case cs of [] \<Rightarrow> FAT_END_OF_CHAIN \<le> d
     | x # xs \<Rightarrow> d = x \<and> d < FAT_END_OF_CHAIN \<and> fat_chain fat cs)"

lemma fat_chain_next: "fat_chain fat (c # cs) \<longleftrightarrow> chain_next fat cs (fat c)"
  by (cases cs) (auto simp: chain_next_def)

lemma chain_next_keep:
  assumes "emits g ps old c w s fs old' c' w' s'" and "chain_outside g ps old c (alloc s) cs"
  shows "chain_next (fat_of g (mem s')) cs d = chain_next (fat_of g (mem s)) cs d"
  using fat_chain_cong [of cs "fat_of g (mem s')" "fat_of g (mem s)"] chain_keep(3) [OF assms]
  by (auto simp: chain_next_def split: list.splits)

lemma aggregate_loop_writes:
  fixes s :: "'a io_state_scheme"
  assumes ps: "20 \<le> unat ps" "unat ps \<le> 65536"
  shows "stream_inv g ps old c w s \<Longrightarrow> extent_count (alloc s) < 2 ^ 31 \<Longrightarrow>
    0 < unat (fe_length e) \<Longrightarrow> unat (fe_length e) \<le> 32768 \<Longrightarrow>
    2 \<le> unat (fe_physical_start e) \<Longrightarrow> extent_end e < 2 ^ 32 \<Longrightarrow>
    outside_stream g ps old c (alloc s) (extent_bytes g e) \<Longrightarrow> chain_outside g ps old c (alloc s) cs \<Longrightarrow>
    chain_next (fat_of g (mem s)) cs d \<Longrightarrow>
    writes_data (aggregate_loop g ps e d w s) g ps old c w s (fe_logical_start e)
      (fe_logical_start e + ucast (fe_length e) + word_of_nat (length cs))
      (extent_content g (mem s) e @ chain_content g (mem s) cs)"
proof (induction cs arbitrary: old c w s e d)
  case Nil
  then have step: "aggregate_step e d = (Some e, None)"
    by (simp add: chain_next_def aggregate_step_def Let_def)
  have run: "aggregate_loop g ps e d w s = bind_run (find_blocked_extent_fragments g ps e w s) (\<lambda>q. Some (Inr q))"
    by (subst aggregate_loop.simps) (simp add: step)
  have "writes_data (bind_run (find_blocked_extent_fragments g ps e w s) (\<lambda>q. Some (Inr q))) g ps old c w s
      (fe_logical_start e) (fe_logical_start e + ucast (fe_length e)) (extent_content g (mem s) e @ [])"
    by (rule writes_data_bind [OF find_blocked_extent_fragments_writes [OF Nil.prems(1) ps Nil.prems(2,5,6,7)]])
      (rule writes_data_done [OF emits_inv])
  then show ?case by (simp add: run chain_content_def)
next
  case (Cons x xs)
  have d: "d = x" "x < FAT_END_OF_CHAIN" "chain_next (fat_of g (mem s)) xs (fat_of g (mem s) x)"
    using Cons.prems(9) by (auto simp: chain_next_def [of _ "x # xs"] fat_chain_next)
  have x: "unat x < 268435448"
    using d(2) by (simp add: FAT_END_OF_CHAIN_def word_less_nat_alt)
  have out: "2 \<le> unat x" "outside_stream g ps old c (alloc s) (data_bytes g x 1)"
    "chain_outside g ps old c (alloc s) xs"
    using Cons.prems(8) by (simp_all add: chain_outside_def)
  have content: "chain_content g (mem s) (x # xs) = data_content g (mem s) x 1 @ chain_content g (mem s) xs"
    by (simp add: chain_content_def)
  show ?case
  proof (cases rule: aggregate_step_cases [OF Cons.prems(4) d(2)])
    case 1
    note grow = 1
    let ?e = "e\<lparr>fe_length := fe_length e + 1\<rparr>"
    have len: "unat (fe_length e + 1) = unat (fe_length e) + 1"
      using grow(2) by (subst unat_add_no_overflow) simp_all
    have sum: "extent_end e < 4294967296" using Cons.prems(6) by simp
    then have q: "unat x = unat (fe_physical_start e) + unat (fe_length e)"
      by (simp add: grow(1) unat_add_no_overflow extent_end_def)
    have fin: "unat (fe_physical_start e) + unat (fe_length e) < 2 ^ 32" using sum by (simp add: extent_end_def)
    note ext = data_split(1) [OF Cons.prems(5) fin q, of g _ 1] data_split(2) [OF Cons.prems(5) fin q, of g 1]
    have bytes: "outside_stream g ps old c (alloc s) (extent_bytes g ?e)"
      using Cons.prems(7) out(2) by (simp add: extent_as_data len ext(2) [simplified] outside_stream_Un)
    have "extent_end ?e = unat x + 1" by (simp add: extent_end_def len q)
    then have end_e: "extent_end ?e < 2 ^ 32" using x by simp
    have run: "aggregate_loop g ps e d w s = aggregate_loop g ps ?e (fat_of g (mem s) x) w s"
      using grow(3) by (subst aggregate_loop.simps) (simp add: d(1) fat_of_def)
    have ec: "extent_content g (mem s) ?e = extent_content g (mem s) e @ data_content g (mem s) x 1"
      by (simp add: extent_as_data len ext(1) [simplified])
    have n: "(ucast (fe_length e + 1) :: u32) = ucast (fe_length e) + 1"
      using grow(2) by (simp add: word_unat_eq_iff len unat_add_no_overflow)
    have lens: "0 < unat (fe_length ?e)" "unat (fe_length ?e) \<le> 32768" "2 \<le> unat (fe_physical_start ?e)"
      using len grow(2) Cons.prems(5) by simp_all
    have sum_n: "fe_logical_start ?e + ucast (fe_length ?e) + word_of_nat (length xs) =
        fe_logical_start e + ucast (fe_length e) + word_of_nat (length (x # xs))"
      by (simp add: n)
    from Cons.IH [OF Cons.prems(1,2) lens end_e bytes out(3) d(3)] show ?thesis
      unfolding run content sum_n ec append.assoc by simp
  next
    case 2
    note next_extent = 2
    let ?e = "\<lparr>fe_logical_start = fe_logical_start e + ucast (fe_length e), fe_length = 1, fe_physical_start = x\<rparr>"
    have run: "aggregate_loop g ps e d w s = bind_run (find_blocked_extent_fragments g ps e w s)
        (\<lambda>q. aggregate_loop g ps ?e (fat_of g (mem (snd q)) x) (fst q) (snd q))"
      using next_extent by (subst aggregate_loop.simps) (simp add: d(1) fat_of_def)
    have e: "extent_bytes g ?e = data_bytes g x 1" "extent_content g m ?e = data_content g m x 1" for m
      by (simp_all add: extent_as_data)
    show ?thesis
      unfolding run content
    proof (rule writes_data_bind [OF find_blocked_extent_fragments_writes [OF Cons.prems(1) ps Cons.prems(2,5,6,7)]])
      fix w1 s1 old1 c1 fs
      assume E: "emits g ps old c w s fs old1 c1 w1 s1"
      have cnt: "extent_count (alloc s1) < 2 ^ 31"
        using Cons.prems(2) emits_setup [OF E] by (simp add: same_setup_def extent_count_def)
      have bytes: "outside_stream g ps old1 c1 (alloc s1) (extent_bytes g ?e)"
        unfolding e by (rule emits_outside [OF E out(2)])
      have eq: "fat_of g (mem s1) x = fat_of g (mem s) x" using chain_keep(3) [OF E Cons.prems(8)] by simp
      have ch: "chain_next (fat_of g (mem s1)) xs (fat_of g (mem s1) x)"
        unfolding eq chain_next_keep [OF E out(3)] by (rule d(3))
      have "extent_end ?e < 2 ^ 32" using x by (simp add: extent_end_def)
      from Cons.IH [OF emits_inv [OF E] cnt _ _ _ this bytes chain_keep(1) [OF E out(3)] ch]
      show "writes_data (aggregate_loop g ps ?e (fat_of g (mem (snd (w1, s1))) x) (fst (w1, s1)) (snd (w1, s1)))
          g ps old1 c1 w1 s1 (fe_logical_start e + ucast (fe_length e))
          (fe_logical_start e + ucast (fe_length e) + word_of_nat (length (x # xs)))
          (data_content g (mem s) x 1 @ chain_content g (mem s) xs)"
        using out(1) chain_keep(2) [OF E out(3)] data_content_cong [OF emits_frame [OF E out(2)]]
        by (simp add: e ac_simps)
    qed
  qed
qed

subsection \<open>From segment to segment\<close>

text \<open>
  From the writer \<open>w\<close> at the start of a segment to \<open>w'\<close> at the start of a later one: what the stream
  held stays, apart from \<open>D\<close>, and so does what is outside of it.
\<close>

definition extends ::
  "fat_globals \<Rightarrow> u64 \<Rightarrow> nat set \<Rightarrow> nat set \<Rightarrow> u32 \<Rightarrow> stream \<Rightarrow> 'a io_state_scheme
    \<Rightarrow> nat set \<Rightarrow> u32 \<Rightarrow> stream \<Rightarrow> 'a io_state_scheme \<Rightarrow> bool" where
  "extends g ps D old c w s old' c' w' s' \<longleftrightarrow>
     writer_at g ps old' c' w' s' \<and> stable_bytes old w \<subseteq> stable_bytes old' w'
     \<and> agree_on (stable_bytes old w - D) (mem s) (mem s') \<and> same_setup (alloc s) (alloc s')
     \<and> (\<forall>X. outside_stream g ps old c (alloc s) X \<longrightarrow>
          outside_stream g ps old' c' (alloc s') X \<and> agree_on X (mem s) (mem s'))"

lemma extendsD:
  assumes "extends g ps D old c w s old' c' w' s'"
  shows "writer_at g ps old' c' w' s'" "stable_bytes old w \<subseteq> stable_bytes old' w'"
    "agree_on (stable_bytes old w - D) (mem s) (mem s')" "same_setup (alloc s) (alloc s')"
    "outside_stream g ps old c (alloc s) X \<Longrightarrow> outside_stream g ps old' c' (alloc s') X"
    "outside_stream g ps old c (alloc s) X \<Longrightarrow> agree_on X (mem s) (mem s')"
  using assms unfolding extends_def by simp_all

lemma extends_refl: "writer_at g ps old c w s \<Longrightarrow> extends g ps D old c w s old c w s"
  by (simp add: extends_def agree_on_def)

lemma extends_trans:
  assumes "extends g ps D old c w s old1 c1 w1 s1" and "extends g ps E old1 c1 w1 s1 old2 c2 w2 s2"
    and "E \<inter> stable_bytes old w \<subseteq> D"
  shows "extends g ps D old c w s old2 c2 w2 s2"
proof -
  note D1 = extendsD [OF assms(1)] and D2 = extendsD [OF assms(2)]
  have "agree_on (stable_bytes old w - D) (mem s1) (mem s2)"
    using D1(2) assms(3) by (intro agree_on_mono [OF D2(3)]) auto
  then have "agree_on (stable_bytes old w - D) (mem s) (mem s2)" using D1(3) agree_on_trans by blast
  moreover have "same_setup (alloc s) (alloc s2)" using D1(4) D2(4) same_setup_trans by blast
  moreover have "stable_bytes old w \<subseteq> stable_bytes old2 w2" using D1(2) D2(2) by blast
  moreover have "outside_stream g ps old2 c2 (alloc s2) X \<and> agree_on X (mem s) (mem s2)"
    if "outside_stream g ps old c (alloc s) X" for X
    using D1(5,6) [OF that] D2(5,6) agree_on_trans by blast
  ultimately show ?thesis using D2(1) unfolding extends_def by blast
qed

text \<open>What the stream has gained between the two.\<close>

definition new_bytes :: "nat set \<Rightarrow> stream \<Rightarrow> nat set \<Rightarrow> stream \<Rightarrow> nat set" where
  "new_bytes old w old' w' = stable_bytes old' w' - stable_bytes old w"

subsection \<open>The segment of a file\<close>

lemma iterate_advance_read: "iterate_advance g ps False n w r = Inr (a, w', r') \<Longrightarrow> r' = r"
  by (auto simp: iterate_advance_def split: if_splits elim!: bind_resE)

lemma getNext_read: "getNext g ps n w r = Inr (a, w', r') \<Longrightarrow> r' = r"
  unfolding getNext_def iterateStreamArchiver_def Let_def
  by (auto split: if_splits elim!: bind_resE dest: iterate_advance_read)

lemma read_segment_Nil_getNext:
  assumes "read_segment g ps n w r = Some (Inr ([], w'))"
  shows "getNext g ps n w r = Inr (0, w', r)"
proof (cases "getNext g ps n w r")
  case (Inr q)
  obtain a w1 r1 where q: "q = (a, w1, r1)" by (cases q)
  then have "r1 = r" using getNext_read Inr by blast
  then show ?thesis
    using assms Inr unfolding q
    by (subst (asm) read_segment.simps) (auto simp: bind_eq_Some_conv bind_res_eq_Inr split: if_splits)
qed (use assms in \<open>subst (asm) read_segment.simps, simp\<close>)

lemma cutStreamArchiver_total:
  assumes inv: "stream_inv g ps old c w s" and h: "st_header w \<noteq> 0"
    and cut: "cutStreamArchiver g ps w s = Inl err"
  shows "err = Fs_Too_Small"
proof -
  let ?s = "s\<lparr>mem := store_u64 (mem s) (st_header w) (st_index w)\<rparr>"
  have "st_page w \<noteq> 0" using inv page_address(1) [of g ps c] by (auto simp: stream_inv_def)
  then have it: "bind_res (iterate_advance g ps True sizeof_header (w\<lparr>st_index := 0\<rparr>) ?s)
      (\<lambda>(h, st2, s2). Inr (st2\<lparr>st_header := h\<rparr>, s2)) = Inl err"
    using cut h by (simp add: cutStreamArchiver_def iterateStreamArchiver_def)
  have "stream_inv g ps old c (w\<lparr>st_index := 0\<rparr>) ?s" using inv by simp
  from iterate_advance_insert_total [OF this] it show ?thesis
    by (cases "iterate_advance g ps True sizeof_header (w\<lparr>st_index := 0\<rparr>) ?s") auto
qed

text \<open>Every extent holds at least one cluster, so that there are no more extents than clusters.\<close>

lemma holds_data_length:
  assumes H: "holds_data g ps old c s n fs n' bs" and z: "0 < unat (mi_cluster_size (meta_info g))"
    and bs: "length bs = k * unat (mi_cluster_size (meta_info g))"
  shows "length fs \<le> k"
proof -
  let ?z = "unat (mi_cluster_size (meta_info g))"
  have "length fs * ?z \<le> length (concat (map (extent_content g (mem s)) fs))"
    using H unfolding holds_data_def
  proof (elim conjE)
    assume "list_all (\<lambda>f. sound_extent f \<and> outside_stream g ps old c (alloc s) (extent_bytes g f)) fs"
    then show ?thesis
    proof (induction fs)
      case (Cons f fs)
      then have "1 \<le> unat (fe_length f)" by (simp add: Suc_le_eq unat_gt_0 sound_extent_def)
      then have "1 * ?z \<le> unat (fe_length f) * ?z" by (rule mult_le_mono1)
      moreover have "length fs * ?z \<le> length (concat (map (extent_content g (mem s)) fs))" using Cons by simp
      moreover have "length (concat (map (extent_content g (mem s)) (f # fs))) =
          unat (fe_length f) * ?z + length (concat (map (extent_content g (mem s)) fs))"
        by (simp add: extent_content_def)
      moreover have "length (f # fs) * ?z = 1 * ?z + length fs * ?z" by simp
      ultimately show ?case by linarith
    qed simp
  qed
  then have "length fs * ?z \<le> k * ?z" using H bs by (simp add: holds_data_def)
  then show ?thesis using z by simp
qed

lemma length_chain_content: "length (chain_content g m cs) = length cs * unat (mi_cluster_size (meta_info g))"
  by (induction cs) (simp_all add: chain_content_def data_content_def)

text \<open>A file's chain; cluster number 0 stands for an empty file.\<close>

definition file_chain :: "fat_globals \<Rightarrow> memory \<Rightarrow> u32 \<Rightarrow> u32 list \<Rightarrow> bool" where
  "file_chain g m cluster_no cs \<longleftrightarrow>
     (if cluster_no = 0 then cs = [] else cs \<noteq> [] \<and> hd cs = cluster_no \<and> fat_chain (fat_of g m) cs)"

lemma aggregate_writes:
  fixes s :: "'a io_state_scheme"
  assumes ps: "20 \<le> unat ps" "unat ps \<le> 65536" and inv: "stream_inv g ps old c w s"
    and small: "extent_count (alloc s) < 2 ^ 31"
    and ch: "file_chain g (mem s) cl cs" and out: "chain_outside g ps old c (alloc s) cs"
    and top: "list_all (\<lambda>x. unat x < 2 ^ 28) cs"
  shows "writes_data (if cl \<noteq> 0
        then aggregate_loop g ps \<lparr>fe_logical_start = 0, fe_length = 1, fe_physical_start = cl\<rparr>
               (load_u32 (mem s) (fat_entry g cl)) w s
        else Some (Inr (w, s))) g ps old c w s 0 (word_of_nat (length cs)) (chain_content g (mem s) cs)"
proof (cases "cl = 0")
  case True
  then show ?thesis using ch writes_data_done [OF inv, of 0] by (simp add: file_chain_def chain_content_def)
next
  case False
  then obtain xs where cs: "cs = cl # xs" "chain_next (fat_of g (mem s)) xs (fat_of g (mem s) cl)"
    using ch by (cases cs) (auto simp: file_chain_def fat_chain_next)
  let ?e = "\<lparr>fe_logical_start = 0, fe_length = 1, fe_physical_start = cl\<rparr>"
  have o: "2 \<le> unat (fe_physical_start ?e)" "outside_stream g ps old c (alloc s) (extent_bytes g ?e)"
    "chain_outside g ps old c (alloc s) xs"
    using out by (simp_all add: cs(1) chain_outside_def extent_as_data)
  have "extent_end ?e < 2 ^ 32" using top by (simp add: cs(1) extent_end_def)
  from aggregate_loop_writes [OF ps inv small _ _ o(1) this o(2,3) cs(2)] False show ?thesis
    by (simp add: cs(1) fat_of_def chain_content_def extent_as_data)
qed

lemma aggregate_extents_spec:
  fixes s :: "'a io_state_scheme"
  assumes ps: "20 \<le> unat ps" "unat ps \<le> 65536" and w: "writer_at g ps old c w s"
    and small: "extent_count (alloc s) < 2 ^ 31"
    and ch: "file_chain g (mem s) cl cs" and out: "chain_outside g ps old c (alloc s) cs"
    and top: "list_all (\<lambda>x. unat x < 2 ^ 28) cs" and len: "length cs < 2 ^ 32"
  shows "aggregate_extents g ps cl w s = Some (Inl Fs_Too_Small) \<or>
    (\<exists>w' s' old' c' fs. aggregate_extents g ps cl w s = Some (Inr (w', s'))
      \<and> extends g ps {} old c w s old' c' w' s'
      \<and> stable_segment g ps {r :: 'a io_state_scheme. agree_on (new_bytes old w old' w') (mem s') (mem r)} w fs w'
      \<and> holds_data g ps old' c' s' 0 fs (word_of_nat (length cs)) (chain_content g (mem s) cs))"
proof -
  have inv: "stream_inv g ps old c w s" and h: "st_header w \<noteq> 0" "st_index w = 0"
    "{st_header w..<st_header w + 8} \<subseteq> used_bytes old w"
    using w by (simp_all add: writer_at_def)
  define R where "R = (if cl \<noteq> 0
      then aggregate_loop g ps \<lparr>fe_logical_start = 0, fe_length = 1, fe_physical_start = cl\<rparr>
             (load_u32 (mem s) (fat_entry g cl)) w s
      else Some (Inr (w, s)))"
  have run: "aggregate_extents g ps cl w s = bind_run R (\<lambda>q. Some (cutStreamArchiver g ps (fst q) (snd q)))"
    by (simp add: aggregate_extents_def R_def)
  consider (full) "R = Some (Inl Fs_Too_Small)"
    | (ok) w1 s1 old1 c1 fs where "R = Some (Inr (w1, s1))" "emits g ps old c w s fs old1 c1 w1 s1"
      "holds_data g ps old1 c1 s1 0 fs (word_of_nat (length cs)) (chain_content g (mem s) cs)"
    using aggregate_writes [OF ps inv small ch out top] unfolding R_def [symmetric] writes_data_def by blast
  then show ?thesis
  proof cases
    case full
    then show ?thesis by (simp add: run)
  next
    case ok
    note E = ok(2)
    have geo: "page_geometry g ps" using inv by (simp add: stream_inv_def)
    have "0 < unat (mi_cluster_size (meta_info g))" using ps(1) page_geometry_size [OF geo] by simp
    from holds_data_length [OF ok(3) this length_chain_content]
    have n: "length fs < 4294967296" using len by simp
    then have "length fs < 2 ^ LENGTH(64)" by simp
    then have i1: "unat (st_index w1) = length fs"
      using E h(2) unfolding emits_def by (simp only: unat_of_nat mod_less add_0)
    have h1: "st_header w1 = st_header w" by (rule emits_header [OF E])
    have hw: "{st_header w1..<st_header w1 + 8} \<subseteq> used_bytes old1 w1" using h(3) emits_used [OF E] h1 by simp
    show ?thesis
    proof (cases "cutStreamArchiver g ps w1 s1")
      case (Inl err)
      then show ?thesis using cutStreamArchiver_total [OF emits_inv [OF E]] h1 h(1) ok(1) run by simp
    next
      case (Inr q)
      obtain w' s' where q: "q = (w', s')" by (cases q)
      have "unat (st_index w1) + 1 < 2 ^ 64" using n i1 by simp
      from cutStreamArchiver_spec [OF emits_inv [OF E] _ hw Inr [unfolded q] this] h1 h(1)
      obtain old' c' where k: "writer_at g ps old' c' w' s'" "used_bytes old1 w1 \<subseteq> stable_bytes old' w'"
        "agree_on (stable_bytes old1 w1) (mem s1) (mem s')" "load_u64 (mem s') (st_header w1) = st_index w1"
        "same_setup (alloc s1) (alloc s')"
        "\<And>X. outside_stream g ps old1 c1 (alloc s1) X \<Longrightarrow>
           outside_stream g ps old' c' (alloc s') X \<and> agree_on X (mem s1) (mem s')"
        "\<And>(r :: 'a io_state_scheme) n. agree_on (stable_bytes old' w' - stable_bytes old1 w1) (mem s') (mem r) \<Longrightarrow>
           read_segment g ps n w1 r = Some (Inr ([], w'))"
        by auto
      let ?R = "{r :: 'a io_state_scheme. agree_on (new_bytes old w old' w') (mem s') (mem r)}"
      have s01: "stable_bytes old w \<subseteq> stable_bytes old1 w1"
        using emits_used [OF E] by (auto simp: stable_bytes_def h1)
      have fresh: "used_bytes old1 w1 - used_bytes old w \<subseteq> new_bytes old w old' w'"
        "{st_header w..<st_header w + 8} \<subseteq> new_bytes old w old' w'"
        "stable_bytes old' w' - stable_bytes old1 w1 \<subseteq> new_bytes old w old' w'"
        using k(2) h(3) hw h1 s01 by (auto simp: new_bytes_def stable_bytes_def [of old])
      have fin: "stable_segment g ps ?R w1 [] w'"
      proof (rule stable_end, rule ballI)
        fix r assume "r \<in> ?R"
        then have "agree_on (stable_bytes old' w' - stable_bytes old1 w1) (mem s') (mem r)"
          using agree_on_mono [OF _ fresh(3)] by simp
        then show "getNext g ps (word_of_nat sizeof_fat_extent) w1 r = Inr (0, w', r)"
          by (rule read_segment_Nil_getNext [OF k(7)])
      qed
      have sub: "used_bytes old1 w1 - used_bytes old w \<subseteq> stable_bytes old1 w1"
        using h(3) by (auto simp: stable_bytes_def h1)
      have "stable_segment g ps ?R w (fs @ []) w'"
      proof (rule emits_reader [OF E _ h(1) _ _ fin])
        have "s' \<in> ?R" by (simp add: agree_on_def)
        then show "?R \<noteq> {}" by blast
      next
        fix r assume "r \<in> ?R"
        then have ag: "agree_on (new_bytes old w old' w') (mem s') (mem r)" by simp
        have "agree_on (used_bytes old1 w1 - used_bytes old w) (mem s1) (mem s')"
          by (rule agree_on_mono [OF k(3) sub])
        then show "agree_on (used_bytes old1 w1 - used_bytes old w) (mem s1) (mem r)"
          using agree_on_mono [OF ag fresh(1)] by (rule agree_on_trans)
        have "load_u64 (mem r) (st_header w) = st_index w1"
          using agree_on_load_u64 [OF ag fresh(2)] k(4) h1 by simp
        then show "unat (st_index w) + length fs \<le> unat (load_u64 (mem r) (st_header w))" using i1 h(2) by simp
      qed
      then have read: "stable_segment g ps ?R w fs w'" by simp
      have H: "holds_data g ps old' c' s' 0 fs (word_of_nat (length cs)) (chain_content g (mem s) cs)"
        using ok(3) k(6) by (rule holds_data_move)
      have frame: "outside_stream g ps old' c' (alloc s') X \<and> agree_on X (mem s) (mem s')"
        if "outside_stream g ps old c (alloc s) X" for X
        using emits_outside [OF E that] emits_frame [OF E that] k(6) agree_on_trans by blast
      have "agree_on (stable_bytes old w) (mem s) (mem s1)"
        by (rule agree_on_mono [OF emits_kept [OF E]]) (auto simp: stable_bytes_def)
      then have "agree_on (stable_bytes old w - {}) (mem s) (mem s')"
        using agree_on_mono [OF k(3) s01] by (auto simp: agree_on_def)
      moreover have "stable_bytes old w \<subseteq> stable_bytes old' w'"
        using emits_used [OF E] k(2) by (auto simp: stable_bytes_def [of old])
      moreover have "same_setup (alloc s) (alloc s')" using emits_setup [OF E] k(5) same_setup_trans by blast
      ultimately have "extends g ps {} old c w s old' c' w' s'"
        using k(1) frame unfolding extends_def by blast
      then show ?thesis using ok(1) Inr q run read H by (intro disjI2 exI conjI) auto
    qed
  qed
qed


subsection \<open>A sample\<close>

text \<open>
  The file of the clusters 2 and 3, which lie in a blocked extent; the stream's first page is
  cluster 6.
\<close>

definition sample_file_memory :: memory where
  "sample_file_memory = store_u32 (store_u32 (\<lambda>a. if a < 610336 then 5 else 7)
     (fat_entry sample_pages 2) 3) (fat_entry sample_pages 3) 0x0FFFFFFF"

definition sample_file :: io_state where
  "sample_file = \<lparr>mem = sample_file_memory, alloc = sample_alloc_at 6 [0x5F, 0, 0]\<rparr>"

definition sample_file_stream :: stream where
  "sample_file_stream = \<lparr>st_page = 610432, st_offset = 16, st_index = 0, st_header = 610440\<rparr>"

lemma sample_file_allocations:
  "allocate_extent 2 (sample_alloc_at 6 [0x5F, 0, 0]) =
     Inr (\<lparr>fe_logical_start = 0, fe_length = 2, fe_physical_start = 7\<rparr>, sample_alloc_at 8 [0xDF, 1, 0])"
  "allocate_extent 1 (sample_alloc_at 8 [0xDF, 1, 0]) =
     Inr (\<lparr>fe_logical_start = 0, fe_length = 1, fe_physical_start = 9\<rparr>, sample_alloc_at 9 [0xDF, 3, 0])"
  by code_simp+

lemma sample_file_start:
  "fragment_start (sample_alloc_at 6 [0x5F, 0, 0]) \<lparr>fe_logical_start = 0, fe_length = 2, fe_physical_start = 2\<rparr>
     = Some (Inr (2, 1, Some \<lparr>fe_logical_start = 0, fe_length = 3, fe_physical_start = 2\<rparr>))"
  "next_fragment (sample_alloc_at 6 [0x5F, 0, 0]) \<lparr>fe_logical_start = 0, fe_length = 2, fe_physical_start = 2\<rparr>
     (2, 1, Some \<lparr>fe_logical_start = 0, fe_length = 3, fe_physical_start = 2\<rparr>)
     = Inr (True, \<lparr>fe_logical_start = 0, fe_length = 2, fe_physical_start = 2\<rparr>, 4, 2, None)"
  by (simp_all add: fragment_start_def find_first_blocked_extent_def search_blocked_extent.simps
      find_next_blocked_extent_def sample_alloc_at_def sample_alloc_def next_fragment_def Let_def word_le_nat_alt)

lemma sample_file_fat:
  "load_u32 sample_file_memory (fat_entry sample_pages 2) = 3"
  "load_u32 sample_file_memory (fat_entry sample_pages 3) = 0x0FFFFFFF"
proof -
  have e: "fat_entry sample_pages 2 = 81928" "fat_entry sample_pages 3 = 81932"
    by (simp_all add: fat_entry_def sample_pages_def sample_globals_def)
  show "load_u32 sample_file_memory (fat_entry sample_pages 3) = 0x0FFFFFFF"
    by (simp add: sample_file_memory_def u32.load_store)
  show "load_u32 sample_file_memory (fat_entry sample_pages 2) = 3"
    unfolding sample_file_memory_def e
    by (subst u32.load_store_disjoint) (simp_all add: u32.load_store)
qed

lemma sample_file_addresses:
  "cluster_start sample_pages 2 = 610304" "cluster_start sample_pages 3 = 610336" "cluster_start sample_pages 9 = 610528"
  by (simp_all add: cluster_start_def sample_pages_def sample_globals_def FAT_START_INDEX_def)

lemma sample_file_runs:
  "\<exists>w' s'. aggregate_extents sample_pages (ucast (32 :: u32)) 2 sample_file_stream sample_file = Some (Inr (w', s'))"
  by (simp add: aggregate_extents_def sample_file_def sample_file_fat aggregate_loop.simps aggregate_step_def
      FAT_END_OF_CHAIN_def EXT4_MAX_INIT_EXTENT_LEN_def find_blocked_extent_fragments_def sample_file_start
      write_fragments.simps resettle_extent_def resettle_from.simps sample_file_allocations write_extent_def
      reserve_extent_def iterateStreamArchiver_def iterate_advance_def sample_file_stream_def sizeof_fat_extent_def
      cutStreamArchiver_def allocatePage_def sizeof_header_def sample_file_addresses Let_def)


end
