(* ===== verification/Directory_Reading.thy ===== *)
theory Directory_Reading
  imports File_Extents
begin

section \<open>Reading a directory\<close>

text \<open>
  What \<open>next_dentry\<close> of metadata_reader.cpp promises: called again and again it goes through the
  entries of a directory's clusters in order and leaves out the deleted ones and the dot
  directories. The clusters are those of the extents that the stream holds for the directory. The
  facts are stated for all states of a set at once, since the traversal changes the memory
  between the calls, but not the bytes that are read.
\<close>

subsection \<open>The clusters ahead\<close>

definition stable_clusters ::
  "fat_globals \<Rightarrow> u64 \<Rightarrow> 'a io_state_scheme set \<Rightarrow> extent_iterator \<Rightarrow> u32 list \<Rightarrow> bool" where
  "stable_clusters g ps R it cs \<longleftrightarrow>
     (if it_current_extent it = 0 then cs = []
      else \<exists>e es v. (\<forall>r \<in> R. load_fat_extent (mem r) (it_current_extent it) = e)
        \<and> stable_segment g ps R (it_extent_stream it) es v
        \<and> cs = drop (unat (it_current_cluster it)) (extent_cluster_list e) @ clusters_of es)"

lemma stable_clusters_mono: "stable_clusters g ps R it cs \<Longrightarrow> S \<subseteq> R \<Longrightarrow> stable_clusters g ps S it cs"
proof (cases "it_current_extent it = 0")
  case False
  assume cl: "stable_clusters g ps R it cs" and S: "S \<subseteq> R"
  obtain e es v where "\<forall>r \<in> R. load_fat_extent (mem r) (it_current_extent it) = e"
    "stable_segment g ps R (it_extent_stream it) es v" "cs = drop (unat (it_current_cluster it)) (extent_cluster_list e) @ clusters_of es"
    using cl False by (auto simp: stable_clusters_def)
  moreover from this have "stable_segment g ps S (it_extent_stream it) es v" using S by (blast intro: stable_segment_mono)
  ultimately show ?thesis using False S unfolding stable_clusters_def by auto
qed (simp add: stable_clusters_def)

lemma stable_init_iterator:
  assumes "stable_segment g ps R st es v"
  shows "\<exists>it. (\<forall>r \<in> R. init_iterator g ps st r = Inr it) \<and> stable_clusters g ps R it (clusters_of es)"
  using assms
proof cases
  case stable_end
  then show ?thesis
    by (intro exI [of _ "\<lparr>it_current_extent = 0, it_current_cluster = 0, it_extent_stream = v\<rparr>"])
       (simp add: init_iterator_def stable_clusters_def)
next
  case (stable_extent a st' f es')
  then show ?thesis
    by (intro exI [of _ "\<lparr>it_current_extent = a, it_current_cluster = 0, it_extent_stream = st'\<rparr>"])
       (auto simp: init_iterator_def stable_clusters_def)
qed

lemma stable_next_in_extent:
  assumes it: "it_current_extent it \<noteq> 0" and e: "\<forall>r \<in> R. load_fat_extent (mem r) (it_current_extent it) = e"
    and lt: "unat (it_current_cluster it) < unat (fe_length e)"
    and seg: "stable_segment g ps R (it_extent_stream it) es v"
    and cs: "cs = drop (unat (it_current_cluster it)) (extent_cluster_list e) @ clusters_of es"
  shows "\<exists>it'. (\<forall>r \<in> R. next_cluster_no g ps it r = Some (Inr (hd cs, it'))) \<and> cs \<noteq> []
     \<and> stable_clusters g ps R it' (tl cs)"
proof -
  let ?i = "unat (it_current_cluster it)" and ?it = "it\<lparr>it_current_cluster := it_current_cluster it + 1\<rparr>"
  have ge: "\<not> ucast (fe_length e) \<le> it_current_cluster it" using lt by (simp add: word_le_nat_alt)
  have "?i + 1 < 4294967296" using lt unat_u16_bound [of "fe_length e"] by linarith
  then have i1: "unat (it_current_cluster it + 1) = ?i + 1" by (subst unat_add_no_overflow) simp_all
  have "drop ?i (extent_cluster_list e) = (fe_physical_start e + it_current_cluster it) # drop (?i + 1) (extent_cluster_list e)"
    using lt by (subst Cons_nth_drop_Suc [symmetric]) (simp_all add: extent_cluster_list_def)
  then have c: "cs = (fe_physical_start e + it_current_cluster it)
      # drop (unat (it_current_cluster ?it)) (extent_cluster_list e) @ clusters_of es"
    using cs by (simp add: i1)
  have "stable_clusters g ps R ?it (tl cs)"
    unfolding c list.sel stable_clusters_def using it e seg by auto
  moreover have "next_cluster_no g ps it r = Some (Inr (hd cs, ?it))" if "r \<in> R" for r
    using it ge e that by (subst next_cluster_no.simps) (simp add: Let_def c)
  ultimately show ?thesis using c by blast
qed

lemma stable_next_cluster_no:
  assumes "stable_clusters g ps R it cs"
  shows "\<exists>it'. (\<forall>r \<in> R. next_cluster_no g ps it r = Some (Inr (if cs = [] then 0 else hd cs, it')))
     \<and> stable_clusters g ps R it' (tl cs)"
proof (cases "it_current_extent it = 0")
  case True
  then show ?thesis
    using assms by (intro exI [of _ it]) (auto simp: stable_clusters_def next_cluster_no.simps)
next
  case False
  then obtain e es v where "\<forall>r \<in> R. load_fat_extent (mem r) (it_current_extent it) = e"
    "stable_segment g ps R (it_extent_stream it) es v"
    "cs = drop (unat (it_current_cluster it)) (extent_cluster_list e) @ clusters_of es"
    using assms by (auto simp: stable_clusters_def)
  then show ?thesis using False
  proof (induction es arbitrary: it e)
    case Nil
    show ?case
    proof (cases "unat (it_current_cluster it) < unat (fe_length e)")
      case True
      then show ?thesis using stable_next_in_extent [OF Nil.prems(4,1) True Nil.prems(2,3)] by auto
    next
      case False
      then have ge: "ucast (fe_length e) \<le> it_current_cluster it" by (simp add: word_le_nat_alt)
      have cs: "cs = []" using False Nil.prems(3) by (simp add: extent_cluster_list_def)
      have v: "\<forall>r \<in> R. getNext g ps (word_of_nat sizeof_fat_extent) (it_extent_stream it) r = Inr (0, v, r)"
        using Nil.prems(2) by (rule stable_segment_NilE) blast
      let ?it = "\<lparr>it_current_extent = 0, it_current_cluster = 0, it_extent_stream = v\<rparr>"
      have "next_cluster_no g ps it r = Some (Inr (0, ?it))" if "r \<in> R" for r
        using Nil.prems(1,4) ge v that
        by (subst next_cluster_no.simps, subst next_cluster_no.simps) (simp add: Let_def init_iterator_def)
      then show ?thesis using cs by (intro exI [of _ ?it]) (simp add: stable_clusters_def)
    qed
  next
    case (Cons f es)
    show ?case
    proof (cases "unat (it_current_cluster it) < unat (fe_length e)")
      case True
      then show ?thesis using stable_next_in_extent [OF Cons.prems(4,1) True Cons.prems(2,3)] by auto
    next
      case False
      then have ge: "ucast (fe_length e) \<le> it_current_cluster it" by (simp add: word_le_nat_alt)
      have cs: "cs = clusters_of (f # es)" using False Cons.prems(3) by (simp add: extent_cluster_list_def)
      obtain a st' where a: "\<forall>r \<in> R. getNext g ps (word_of_nat sizeof_fat_extent) (it_extent_stream it) r = Inr (a, st', r)
          \<and> load_fat_extent (mem r) a = f" "a \<noteq> 0" "stable_segment g ps R st' es v"
        using Cons.prems(2) by (rule stable_segment_ConsE) blast
      let ?it = "\<lparr>it_current_extent = a, it_current_cluster = 0, it_extent_stream = st'\<rparr>"
      have "next_cluster_no g ps it r = next_cluster_no g ps ?it r" if "r \<in> R" for r
        using ge Cons.prems(1,4) a that by (subst next_cluster_no.simps) (simp add: Let_def init_iterator_def)
      then show ?thesis using Cons.IH [of ?it f] a cs by simp
    qed
  qed
qed

subsection \<open>The slots ahead\<close>

text \<open>The addresses of the 32-byte slots of a list of clusters, and those that \<open>next_dentry\<close> leaves out.\<close>

definition cluster_slots :: "fat_globals \<Rightarrow> nat \<Rightarrow> nat \<Rightarrow> nat list" where
  "cluster_slots g a i = map (\<lambda>i. a + sizeof_fat_dentry * i) [i..<unat (mi_dentries_per_cluster (meta_info g))]"

definition dir_slots :: "fat_globals \<Rightarrow> u32 list \<Rightarrow> nat list" where
  "dir_slots g cs = concat (map (\<lambda>c. cluster_slots g (cluster_start g c) 0) cs)"

definition skipped :: "memory \<Rightarrow> nat \<Rightarrow> bool" where
  "skipped m p \<longleftrightarrow> is_invalid m p \<or> is_dot_dir m p"

definition slots_ahead ::
  "fat_globals \<Rightarrow> u64 \<Rightarrow> 'a io_state_scheme set \<Rightarrow> cluster_read_state \<Rightarrow> nat list \<Rightarrow> bool" where
  "slots_ahead g ps R state xs \<longleftrightarrow> 0 < unat (mi_dentries_per_cluster (meta_info g)) \<and>
     (if rs_current_cluster state = 0 then rs_cluster_dentry state = 0 \<and> xs = []
      else \<exists>cs. stable_clusters g ps R (rs_iterator state) cs \<and> (\<forall>c \<in> set cs. c \<noteq> 0 \<and> cluster_start g c \<noteq> 0)
        \<and> xs = cluster_slots g (rs_current_cluster state) (unat (rs_cluster_dentry state)) @ dir_slots g cs)"

lemma slots_ahead_mono: "slots_ahead g ps R state xs \<Longrightarrow> S \<subseteq> R \<Longrightarrow> slots_ahead g ps S state xs"
  unfolding slots_ahead_def by (auto split: if_splits dest: stable_clusters_mono)

lemma stable_init_read_state:
  assumes cl: "stable_clusters g ps R it cs" and cs: "\<forall>c \<in> set cs. c \<noteq> 0 \<and> cluster_start g c \<noteq> 0"
    and n: "0 < unat (mi_dentries_per_cluster (meta_info g))"
  shows "\<exists>state. (\<forall>r \<in> R. init_read_state g ps it r = Some (Inr state)) \<and> slots_ahead g ps R state (dir_slots g cs)
     \<and> rs_cluster_dentry state = 0"
proof -
  obtain it' where it': "\<forall>r \<in> R. next_cluster_no g ps it r = Some (Inr (if cs = [] then 0 else hd cs, it'))"
    "stable_clusters g ps R it' (tl cs)"
    using stable_next_cluster_no [OF cl] by blast
  let ?state = "\<lparr>rs_iterator = it', rs_cluster_dentry = 0,
    rs_current_cluster = (if cs = [] then 0 else cluster_start g (hd cs))\<rparr>"
  have "init_read_state g ps it r = Some (Inr ?state)" if "r \<in> R" for r
    using it'(1) that cs by (cases cs) (simp_all add: init_read_state_def)
  moreover have "slots_ahead g ps R ?state (dir_slots g cs)"
    using it'(2) cs n by (cases cs) (auto simp: slots_ahead_def dir_slots_def)
  ultimately show ?thesis by (intro exI [of _ ?state]) simp
qed

text \<open>A state at the end of a cluster is as good as one at the start of the next.\<close>

lemma next_dentry_refill:
  assumes "slots_ahead g ps R state xs"
  shows "\<exists>state1. (\<forall>r \<in> R. next_dentry g ps state r = next_dentry g ps state1 r) \<and> slots_ahead g ps R state1 xs
     \<and> rs_cluster_dentry state1 < mi_dentries_per_cluster (meta_info g)"
proof (cases "rs_cluster_dentry state < mi_dentries_per_cluster (meta_info g)")
  case False
  then have full: "mi_dentries_per_cluster (meta_info g) \<le> rs_cluster_dentry state" by (simp add: not_less)
  have n: "0 < unat (mi_dentries_per_cluster (meta_info g))" using assms by (simp add: slots_ahead_def)
  then have "rs_cluster_dentry state \<noteq> 0" using full by (auto simp: word_le_nat_alt)
  then obtain cs where cs: "stable_clusters g ps R (rs_iterator state) cs" "\<forall>c \<in> set cs. c \<noteq> 0 \<and> cluster_start g c \<noteq> 0"
    "xs = cluster_slots g (rs_current_cluster state) (unat (rs_cluster_dentry state)) @ dir_slots g cs"
    using assms by (auto simp: slots_ahead_def split: if_splits)
  have "cluster_slots g (rs_current_cluster state) (unat (rs_cluster_dentry state)) = []"
    using full by (simp add: cluster_slots_def word_le_nat_alt)
  then have xs: "xs = dir_slots g cs" using cs(3) by simp
  obtain state1 where s1: "\<forall>r \<in> R. init_read_state g ps (rs_iterator state) r = Some (Inr state1)"
    "slots_ahead g ps R state1 (dir_slots g cs)" "rs_cluster_dentry state1 = 0"
    using stable_init_read_state [OF cs(1,2) n] by blast
  have lt: "rs_cluster_dentry state1 < mi_dentries_per_cluster (meta_info g)" using n s1(3) by (simp add: word_less_nat_alt)
  then have nf: "\<not> mi_dentries_per_cluster (meta_info g) \<le> rs_cluster_dentry state1" by (simp add: not_le)
  have "next_dentry g ps state r = next_dentry g ps state1 r" if "r \<in> R" for r
    using s1(1) that full nf
    by (subst next_dentry.simps, subst (2) next_dentry.simps) simp
  then show ?thesis using s1(2) lt by (simp add: xs) blast
qed (use assms in blast)

lemma next_dentry_spec:
  assumes "slots_ahead g ps R state xs" and "\<forall>r \<in> R. \<forall>x \<in> set xs. skipped (mem r) x = sk x"
  shows "\<exists>state'. (\<forall>r \<in> R. next_dentry g ps state r =
      Some (Inr (case dropWhile sk xs of [] \<Rightarrow> 0 | x # _ \<Rightarrow> x, state')))
    \<and> slots_ahead g ps R state' (tl (dropWhile sk xs))"
  using assms
proof (induction xs arbitrary: state)
  case Nil
  obtain state1 where s1: "\<forall>r \<in> R. next_dentry g ps state r = next_dentry g ps state1 r" "slots_ahead g ps R state1 []"
    "rs_cluster_dentry state1 < mi_dentries_per_cluster (meta_info g)"
    using next_dentry_refill [OF Nil.prems(1)] by blast
  have "rs_current_cluster state1 = 0"
    using s1(2,3) by (auto simp: slots_ahead_def cluster_slots_def word_less_nat_alt split: if_splits)
  moreover have "\<not> mi_dentries_per_cluster (meta_info g) \<le> rs_cluster_dentry state1" using s1(3) by (simp add: not_le)
  ultimately have "next_dentry g ps state1 r = Some (Inr (0, state1))" for r :: "'a io_state_scheme"
    by (subst next_dentry.simps) simp
  then show ?case using s1(1,2) by auto
next
  case (Cons x xs)
  obtain state1 where s1: "\<forall>r \<in> R. next_dentry g ps state r = next_dentry g ps state1 r" "slots_ahead g ps R state1 (x # xs)"
    "rs_cluster_dentry state1 < mi_dentries_per_cluster (meta_info g)"
    using next_dentry_refill [OF Cons.prems(1)] by blast
  let ?a = "rs_current_cluster state1" and ?i = "unat (rs_cluster_dentry state1)"
  let ?state2 = "state1\<lparr>rs_cluster_dentry := rs_cluster_dentry state1 + 1\<rparr>"
  obtain cs where cs: "?a \<noteq> 0" "stable_clusters g ps R (rs_iterator state1) cs" "\<forall>c \<in> set cs. c \<noteq> 0 \<and> cluster_start g c \<noteq> 0"
    "x # xs = cluster_slots g ?a ?i @ dir_slots g cs"
    using s1(2) by (auto simp: slots_ahead_def split: if_splits)
  have lt: "?i < unat (mi_dentries_per_cluster (meta_info g))" using s1(3) by (simp add: word_less_nat_alt)
  then have "?i + 1 < 4294967296" using unat_u32_bound [of "mi_dentries_per_cluster (meta_info g)"] by linarith
  then have i1: "unat (rs_cluster_dentry state1 + 1) = ?i + 1" by (subst unat_add_no_overflow) simp_all
  have "cluster_slots g ?a ?i = (?a + sizeof_fat_dentry * ?i) # cluster_slots g ?a (?i + 1)"
    using lt by (simp add: cluster_slots_def upt_conv_Cons)
  then have x: "x = ?a + sizeof_fat_dentry * ?i" and xs: "xs = cluster_slots g ?a (?i + 1) @ dir_slots g cs"
    using cs(4) by simp_all
  have ahead: "slots_ahead g ps R ?state2 xs"
    using s1(2) cs(1-3) by (auto simp: slots_ahead_def i1 xs)
  have step: "next_dentry g ps state r =
      (if sk x then next_dentry g ps ?state2 r else Some (Inr (x, ?state2)))" if "r \<in> R" for r
  proof -
    have "\<not> mi_dentries_per_cluster (meta_info g) \<le> rs_cluster_dentry state1" using s1(3) by (simp add: not_le)
    moreover have "is_invalid (mem r) x \<or> is_dot_dir (mem r) x \<longleftrightarrow> sk x" using Cons.prems(2) that by (simp add: skipped_def)
    ultimately have "next_dentry g ps state1 r =
        (if sk x then next_dentry g ps ?state2 r else Some (Inr (x, ?state2)))"
      using cs(1) by (subst next_dentry.simps) (simp add: x [symmetric])
    then show ?thesis using s1(1) that by simp
  qed
  show ?case
  proof (cases "sk x")
    case True
    then show ?thesis using Cons.IH [OF ahead] Cons.prems(2) step by simp
  next
    case False
    then show ?thesis using ahead step by (intro exI [of _ ?state2]) simp
  qed
qed

subsection \<open>The entries that are seen\<close>

text \<open>\<open>vs\<close> are the addresses of the entries that the following calls of \<open>next_dentry\<close> return.\<close>

definition visible_ahead ::
  "fat_globals \<Rightarrow> u64 \<Rightarrow> 'a io_state_scheme set \<Rightarrow> cluster_read_state \<Rightarrow> nat list \<Rightarrow> bool" where
  "visible_ahead g ps R state vs \<longleftrightarrow> (\<exists>xs sk. slots_ahead g ps R state xs
     \<and> (\<forall>r \<in> R. \<forall>x \<in> set xs. skipped (mem r) x = sk x) \<and> vs = filter (\<lambda>x. \<not> sk x) xs)"

definition first_or_null :: "nat list \<Rightarrow> nat" where
  "first_or_null vs = (case vs of [] \<Rightarrow> 0 | v # _ \<Rightarrow> v)"

lemma first_or_null_simps [simp]: "first_or_null [] = 0" "first_or_null (v # vs) = v"
  by (simp_all add: first_or_null_def)

lemma filter_not_dropWhile:
  "filter (\<lambda>x. \<not> P x) xs = (case dropWhile P xs of [] \<Rightarrow> [] | y # ys \<Rightarrow> y # filter (\<lambda>x. \<not> P x) ys)"
  by (induction xs) auto

lemma visible_ahead_mono: "visible_ahead g ps R state vs \<Longrightarrow> S \<subseteq> R \<Longrightarrow> visible_ahead g ps S state vs"
  unfolding visible_ahead_def by (blast intro: slots_ahead_mono)

lemma next_visible:
  assumes "visible_ahead g ps R state vs"
  shows "\<exists>state'. (\<forall>r \<in> R. next_dentry g ps state r = Some (Inr (first_or_null vs, state')))
    \<and> visible_ahead g ps R state' (tl vs)"
proof -
  obtain xs sk where xs: "slots_ahead g ps R state xs" "\<forall>r \<in> R. \<forall>x \<in> set xs. skipped (mem r) x = sk x"
    "vs = filter (\<lambda>x. \<not> sk x) xs"
    using assms unfolding visible_ahead_def by blast
  obtain state' where state': "\<forall>r \<in> R. next_dentry g ps state r =
      Some (Inr (case dropWhile sk xs of [] \<Rightarrow> 0 | x # _ \<Rightarrow> x, state'))"
    "slots_ahead g ps R state' (tl (dropWhile sk xs))"
    using next_dentry_spec [OF xs(1,2)] by blast
  have vs: "vs = (case dropWhile sk xs of [] \<Rightarrow> [] | y # ys \<Rightarrow> y # filter (\<lambda>x. \<not> sk x) ys)"
    unfolding xs(3) by (rule filter_not_dropWhile)
  have cases: "tl (case ds of [] \<Rightarrow> [] | y # ys \<Rightarrow> y # filter p ys) = filter p (tl ds)"
    "first_or_null (case ds of [] \<Rightarrow> [] | y # ys \<Rightarrow> y # filter p ys) = (case ds of [] \<Rightarrow> 0 | x # _ \<Rightarrow> x)" for ds p
    by (cases ds; simp)+
  have tl: "tl vs = filter (\<lambda>x. \<not> sk x) (tl (dropWhile sk xs))"
    unfolding vs by (rule cases(1))
  have hd: "first_or_null vs = (case dropWhile sk xs of [] \<Rightarrow> 0 | x # _ \<Rightarrow> x)"
    unfolding vs by (rule cases(2))
  have "set (tl (dropWhile sk xs)) \<subseteq> set xs"
    using list.set_sel(2) set_dropWhileD by (metis subsetI tl_Nil)
  then have "\<forall>r \<in> R. \<forall>x \<in> set (tl (dropWhile sk xs)). skipped (mem r) x = sk x" using xs(2) by blast
  then have "visible_ahead g ps R state' (tl vs)" using state'(2) tl unfolding visible_ahead_def by blast
  then show ?thesis using state'(1) unfolding hd by blast
qed

text \<open>The loop over a whole directory, as \<open>traverse\<close> runs it.\<close>

partial_function (option) all_dentries ::
  "fat_globals \<Rightarrow> u64 \<Rightarrow> cluster_read_state \<Rightarrow> 'a io_state_scheme \<Rightarrow> nat list run" where
  "all_dentries g ps state s =
     bind_run (next_dentry g ps state s) (\<lambda>d.
       if fst d = 0 then Some (Inr [])
       else bind_run (all_dentries g ps (snd d) s) (\<lambda>ds. Some (Inr (fst d # ds))))"

definition read_directory :: "fat_globals \<Rightarrow> u64 \<Rightarrow> stream \<Rightarrow> 'a io_state_scheme \<Rightarrow> nat list run" where
  "read_directory g ps dir_extent_stream s =
     bind_run (Some (init_iterator g ps dir_extent_stream s)) (\<lambda>it.
     bind_run (init_read_state g ps it s) (\<lambda>state. all_dentries g ps state s))"

lemma all_dentries_visible:
  "visible_ahead g ps {s} state vs \<Longrightarrow> 0 \<notin> set vs \<Longrightarrow> all_dentries g ps state s = Some (Inr vs)"
proof (induction vs arbitrary: state)
  case Nil
  then show ?case using next_visible [OF Nil.prems(1)] by (subst all_dentries.simps) auto
next
  case (Cons v vs)
  then show ?case using next_visible [OF Cons.prems(1)] by (subst all_dentries.simps) auto
qed

lemma extent_segment_stable: "extent_segment g ps s st es \<Longrightarrow> \<exists>v. stable_segment g ps {s} st es v"
proof (induction rule: extent_segment.induct)
  case (segment_end st st')
  then show ?case by (intro exI [of _ st'] stable_end) simp
next
  case (segment_extent st a st' es)
  then obtain v where "stable_segment g ps {s} st' es v" by blast
  then show ?case using segment_extent by (intro exI [of _ v] stable_extent [of _ _ _ _ a st']) simp_all
qed

text \<open>
  C28. Reading a directory whose extents are in the stream always ends and returns, in order, the
  addresses of exactly those 32-byte slots of the directory's clusters that are not deleted and
  whose names do not begin with a dot.
\<close>

theorem next_dentry_correct:
  assumes seg: "extent_segment g ps s st es" and n: "0 < unat (mi_dentries_per_cluster (meta_info g))"
    and cs: "\<forall>c \<in> set (clusters_of es). c \<noteq> 0 \<and> cluster_start g c \<noteq> 0"
  shows "read_directory g ps st s = Some (Inr (filter (\<lambda>p. \<not> skipped (mem s) p) (dir_slots g (clusters_of es))))"
proof -
  obtain v where "stable_segment g ps {s} st es v" using extent_segment_stable [OF seg] by blast
  from stable_init_iterator [OF this] obtain it where
    it: "init_iterator g ps st s = Inr it" "stable_clusters g ps {s} it (clusters_of es)" by auto
  from stable_init_read_state [OF it(2) cs n] obtain state where
    state: "init_read_state g ps it s = Some (Inr state)" "slots_ahead g ps {s} state (dir_slots g (clusters_of es))"
    by auto
  have "visible_ahead g ps {s} state (filter (\<lambda>p. \<not> skipped (mem s) p) (dir_slots g (clusters_of es)))"
    using state(2) unfolding visible_ahead_def
    by (intro exI [of _ "dir_slots g (clusters_of es)"] exI [of _ "skipped (mem s)"]) simp
  moreover have "0 \<notin> set (filter (\<lambda>p. \<not> skipped (mem s) p) (dir_slots g (clusters_of es)))"
    using cs by (auto simp: dir_slots_def cluster_slots_def)
  ultimately have "all_dentries g ps state s =
      Some (Inr (filter (\<lambda>p. \<not> skipped (mem s) p) (dir_slots g (clusters_of es))))"
    by (rule all_dentries_visible)
  then show ?thesis by (simp add: read_directory_def it(1) state(1))
qed

definition sample_dir_globals :: fat_globals where
  "sample_dir_globals = sample_pages\<lparr>meta_info := (meta_info sample_pages)\<lparr>mi_dentries_per_cluster := 1\<rparr>\<rparr>"

lemma sample_dir_cluster_start: "cluster_start sample_dir_globals c = cluster_start sample_pages c"
  by (simp add: cluster_start_def sample_dir_globals_def)

theorem next_dentry_correct_witness:
  "read_directory sample_dir_globals (ucast (32 :: u32)) \<lparr>st_page = 610432, st_offset = 20, st_index = 0, st_header = 610440\<rparr>
      \<lparr>mem = (store_u64 (store_fat_extent (store_u64 (\<lambda>_. 0) 610440 1) 610452
           \<lparr>fe_logical_start = 0, fe_length = 3, fe_physical_start = 70\<rparr>) 610432 610464)(612512 := 0xE5),
       alloc = sample_alloc\<rparr>
    = Some (Inr [612480, 612544])"
proof -
  let ?e = "\<lparr>fe_logical_start = 0, fe_length = 3, fe_physical_start = 70\<rparr>"
  define m0 where "m0 = store_fat_extent (store_u64 (\<lambda>_. 0) 610440 1) 610452 ?e"
  define m where "m = (store_u64 m0 610432 610464)(612512 := 0xE5)"
  let ?st = "\<lparr>st_page = 610432, st_offset = 20, st_index = 0, st_header = 610440\<rparr>"
  let ?s = "\<lparr>mem = m, alloc = sample_alloc\<rparr>" and ?ps = "ucast (32 :: u32) :: u64" and ?g = sample_dir_globals
  have e: "load_fat_extent m 610452 = ?e"
  proof -
    have "load_fat_extent m 610452 = load_fat_extent m0 610452"
      by (rule fat_extent_codec.load_cong) (simp add: m_def u64.store_frame)
    then show ?thesis by (simp add: m0_def fat_extent_codec.load_store)
  qed
  have h: "load_u64 m 610440 = 1"
  proof -
    have "load_u64 m 610440 = load_u64 (store_u64 (\<lambda>_. 0) 610440 1) 610440"
      by (rule u64.load_cong) (simp add: m_def m0_def fat_extent_codec.store_frame u64.store_frame)
    then show ?thesis by (simp add: u64.load_store)
  qed
  have n: "load_u64 m 610432 = 610464"
  proof -
    have "load_u64 m 610432 = load_u64 (store_u64 m0 610432 610464) 610432"
      by (rule u64.load_cong) (simp add: m_def)
    then show ?thesis by (simp add: u64.load_store)
  qed
  have b: "m 612480 = 0" "m 612512 = 0xE5" "m 612544 = 0"
    by (simp_all add: m_def m0_def fat_extent_codec.store_frame u64.store_frame)
  let ?st' = "\<lparr>st_page = 610432, st_offset = 32, st_index = 1, st_header = 610440\<rparr>"
  have r1: "getNext ?g ?ps (word_of_nat sizeof_fat_extent) ?st ?s = Inr (610452, ?st', ?s)"
    by (simp add: getNext_def iterateStreamArchiver_def h iterate_advance_def sizeof_fat_extent_def)
  have "\<exists>v. getNext ?g ?ps (word_of_nat sizeof_fat_extent) ?st' ?s = Inr (0, v, ?s)"
    by (simp add: getNext_def iterateStreamArchiver_def h n iterate_advance_def sizeof_header_def)
  then have "extent_segment ?g ?ps ?s ?st' []" using segment_end by blast
  then have seg: "extent_segment ?g ?ps ?s ?st [?e]"
    using segment_extent [OF r1, of "[]"] e by simp
  have d: "mi_dentries_per_cluster (meta_info ?g) = 1" by (simp add: sample_dir_globals_def)
  have c: "clusters_of [?e] = [70, 71, 72]" by (simp add: extent_cluster_list_def upt_rec)
  have starts: "cluster_start ?g 70 = 612480" "cluster_start ?g 71 = 612512" "cluster_start ?g 72 = 612544"
    unfolding sample_dir_cluster_start
    by (simp_all add: cluster_start_def sample_pages_def sample_globals_def FAT_START_INDEX_def)
  have slots: "dir_slots ?g [70, 71, 72] = [612480, 612512, 612544]"
    by (simp add: dir_slots_def cluster_slots_def d starts)
  have "\<forall>c \<in> set (clusters_of [?e]). c \<noteq> 0 \<and> cluster_start ?g c \<noteq> 0"
    unfolding c by (simp add: starts)
  from next_dentry_correct [OF seg _ this] show ?thesis
    unfolding c slots m_def [symmetric] m0_def [symmetric] by (simp add: d skipped_def is_invalid_def is_dot_dir_def b)
qed

end
