(* ===== verification/Directory_Trees.thy ===== *)
theory Directory_Trees
  imports Directory_Reading
begin

section \<open>The directory tree of the FAT\<close>

text \<open>
  What the FAT side holds, as a value: the entries of a directory are parsed from the bytes of
  its clusters, independently of the loops of metadata_reader.cpp, and a tree of files and
  directories is described by its entries, names and cluster chains.
\<close>

subsection \<open>Directory entries as bytes\<close>

text \<open>An entry depends on its 32 bytes only, wherever they are.\<close>

definition image :: "u8 list \<Rightarrow> memory" where
  "image d = (\<lambda>a. if a < length d then d ! a else 0)"

lemma load_entry_cong:
  assumes "\<And>i. i < 32 \<Longrightarrow> m (p + i) = m' (q + i)"
  shows "load_fat_dentry m p = load_fat_dentry m' q" and "lfn_units m p = lfn_units m' q"
proof -
  have le: "load_le n m (p + k) = load_le n m' (q + k)" if "k + n \<le> 32" for k n
  proof (rule load_le_shift)
    fix i assume "i < n"
    then show "m (p + k + i) = m' (q + k + i)" using assms [of "k + i"] that by (simp add: add.assoc)
  qed
  have u16: "load_u16 m (p + k) = load_u16 m' (q + k)" if "k + 2 \<le> 32" for k
    using le [OF that] by (simp add: load_u16_def)
  have "load_u32 m (p + 28) = load_u32 m' (q + 28)" using le [of 28 4] by (simp add: load_u32_def)
  moreover have "load_bytes m p 8 = load_bytes m' q 8" "load_bytes m (p + 8) 3 = load_bytes m' (q + 8) 3"
    using assms by (auto simp: load_bytes_def add.assoc intro!: nth_equalityI)
  ultimately show "load_fat_dentry m p = load_fat_dentry m' q"
    using assms by (simp add: load_fat_dentry_def u16 load_u8_def)
  show "lfn_units m p = lfn_units m' q" using u16 [of 1] by (simp add: lfn_units_def u16)
qed

lemma entry_cong:
  assumes "\<And>i. i < 32 \<Longrightarrow> m (p + i) = m' (q + i)"
  shows "is_lfn m p = is_lfn m' q" and "is_dir m p = is_dir m' q"
    and "file_cluster_no m p = file_cluster_no m' q"
    and "lfn_entry_sequence_no m p = lfn_entry_sequence_no m' q"
    and "short_name_spec m p = short_name_spec m' q"
  using load_entry_cong [of m p m' q, OF assms] assms [of 0] assms [of 8]
  by (simp_all add: is_lfn_def is_dir_def file_cluster_no_def lfn_entry_sequence_no_def short_name_spec_def
      has_lower_name_def has_lower_extension_def has_extension_def)

lemma image_entry: "i < 32 \<Longrightarrow> m (p + i) = image (load_bytes m p 32) (0 + i)"
  by (simp add: image_def load_bytes_def)

lemmas entry_image = entry_cong [of m p "image (load_bytes m p 32)" 0, OF image_entry]
  load_entry_cong(2) [of m p "image (load_bytes m p 32)" 0, OF image_entry] for m p

lemma hd_load_bytes: "0 < n \<Longrightarrow> hd (load_bytes m p n) = m p"
  by (simp add: load_bytes_def hd_map)

subsection \<open>The entries of a directory\<close>

text \<open>
  A directory as the list of its 32-byte slots: deleted slots and those whose name begins with a
  dot are not seen, and the rest is cut into the long-name slots of an entry, as many as the
  sequence number of the first one says and the last part of the name first, and the entry itself.
  There is no value if the slots end inside of an entry.
\<close>

definition slots_of :: "u8 list \<Rightarrow> u8 list list" where
  "slots_of bs = map (\<lambda>i. take 32 (drop (32 * i) bs)) [0..<length bs div 32]"

definition seen :: "u8 list \<Rightarrow> bool" where
  "seen x \<longleftrightarrow> hd x \<noteq> 0xE5 \<and> hd x \<noteq> 0x2E"

definition name_slots :: "u8 list \<Rightarrow> nat" where
  "name_slots x = (if is_lfn (image x) 0 then unat (lfn_entry_sequence_no (image x) 0) else 0)"

definition entry_names :: "u8 list list \<Rightarrow> u16 list list" where
  "entry_names xs =
     (if is_lfn (image (hd xs)) 0 then rev (map (\<lambda>y. lfn_units (image y) 0) (take (name_slots (hd xs)) xs))
      else [short_name_spec (image (hd xs)) 0 @ [0]])"

fun dir_entries :: "u8 list list \<Rightarrow> (u16 list list \<times> u8 list) list option" where
  "dir_entries [] = Some []"
| "dir_entries (x # xs) =
     (if hd x = 0 then Some []
      else if length xs < name_slots x then None
      else map_option (Cons (entry_names (x # xs), (x # xs) ! name_slots x)) (dir_entries (drop (name_slots x) xs)))"

lemma dir_entries_NilD: "dir_entries xs = Some [] \<Longrightarrow> xs = [] \<or> hd (hd xs) = 0"
  by (cases xs) (auto split: if_splits)

lemma dir_entries_ConsE:
  assumes "dir_entries ys = Some (e # es)"
  obtains x xs where "ys = x # xs" and "hd x \<noteq> 0" and "name_slots x \<le> length xs"
    and "e = (entry_names ys, ys ! name_slots x)" and "dir_entries (drop (name_slots x) xs) = Some es"
  using assms by (cases ys) (auto split: if_splits)

subsection \<open>Trees\<close>

text \<open>
  A file or directory: the bytes of its entry, the parts of its name, its cluster chain, and the
  children of a directory.
\<close>

datatype fat_node = Fat_Node (node_entry: "u8 list") (node_names: "u16 list list") (node_chain: "u32 list")
  (node_children: "fat_node list option")

definition lists_children :: "fat_globals \<Rightarrow> memory \<Rightarrow> u32 list \<Rightarrow> fat_node list \<Rightarrow> bool" where
  "lists_children g m cs nodes \<longleftrightarrow>
     dir_entries (filter seen (slots_of (chain_content g m cs))) = Some (map (\<lambda>n. (node_names n, node_entry n)) nodes)"

fun tree_on_disk :: "fat_globals \<Rightarrow> memory \<Rightarrow> fat_node \<Rightarrow> bool" where
  "tree_on_disk g m (Fat_Node d ns cs ch) \<longleftrightarrow> file_chain g m (file_cluster_no (image d) 0) cs
     \<and> (case ch of None \<Rightarrow> \<not> is_dir (image d) 0
        | Some nodes \<Rightarrow> is_dir (image d) 0 \<and> lists_children g m cs nodes \<and> (\<forall>n \<in> set nodes. tree_on_disk g m n))"

fun all_chains :: "(u32 list \<Rightarrow> bool) \<Rightarrow> fat_node \<Rightarrow> bool" where
  "all_chains P (Fat_Node d ns cs ch) \<longleftrightarrow> P cs
     \<and> (case ch of None \<Rightarrow> True | Some nodes \<Rightarrow> \<forall>n \<in> set nodes. all_chains P n)"

text \<open>A chain of at most \<open>2 ^ 32\<close> data clusters, whose data and FAT entries are in \<open>X\<close>.\<close>

definition chain_within :: "fat_globals \<Rightarrow> nat set \<Rightarrow> u32 list \<Rightarrow> bool" where
  "chain_within g X cs \<longleftrightarrow> length cs < 2 ^ 32 \<and> list_all (\<lambda>x. 2 \<le> unat x \<and> unat x < 2 ^ 28
     \<and> data_bytes g x 1 \<subseteq> X \<and> {fat_entry g x..<fat_entry g x + 4} \<subseteq> X) cs"

lemma chain_within_outside:
  "chain_within g X cs \<Longrightarrow> outside_stream g ps old c a X \<Longrightarrow> chain_outside g ps old c a cs"
  by (auto simp: chain_within_def chain_outside_def list_all_iff intro: outside_stream_mono)

lemma chain_within_cong:
  assumes "chain_within g X cs" and "agree_on X m m'"
  shows "chain_content g m cs = chain_content g m' cs" and "file_chain g m cl cs = file_chain g m' cl cs"
proof -
  have "data_content g m x 1 = data_content g m' x 1" if "x \<in> set cs" for x
    using assms that by (intro data_content_cong) (auto simp: chain_within_def list_all_iff intro: agree_on_mono)
  then show "chain_content g m cs = chain_content g m' cs"
    unfolding chain_content_def by (intro arg_cong [of _ _ concat] map_cong) simp_all
  have "fat_of g m x = fat_of g m' x" if "x \<in> set cs" for x
  proof -
    have "{fat_entry g x..<fat_entry g x + 4} \<subseteq> X" using assms(1) that by (simp add: chain_within_def list_all_iff)
    then show ?thesis
      using assms(2) unfolding fat_of_def by (intro u32.load_cong) (auto simp: agree_on_def)
  qed
  then show "file_chain g m cl cs = file_chain g m' cl cs"
    by (simp add: file_chain_def cong: fat_chain_cong)
qed

subsection \<open>The slots of a directory's extents\<close>

lemma slots_of_append:
  assumes "length xs mod 32 = 0"
  shows "slots_of (xs @ ys) = slots_of xs @ slots_of ys"
proof -
  obtain n where n: "length xs = 32 * n" using assms by (metis mult_div_mod_eq add.right_neutral)
  have "length (xs @ ys) div 32 = n + length ys div 32" by (simp add: n)
  moreover have "[0..<n + k] = [0..<n] @ map (\<lambda>i. n + i) [0..<k]" for k
    by (induction k) simp_all
  moreover have "take 32 (drop (32 * i) (xs @ ys)) = take 32 (drop (32 * i) xs)" if "i < n" for i
  proof -
    have "32 \<le> length (drop (32 * i) xs)" using that by (simp add: n)
    moreover have "drop (32 * i) (xs @ ys) = drop (32 * i) xs @ ys" using that by (simp add: n)
    ultimately show ?thesis by simp
  qed
  moreover have "drop (32 * (n + i)) (xs @ ys) = drop (32 * i) ys" for i
    by (simp add: n distrib_left)
  ultimately show ?thesis by (simp add: slots_of_def n)
qed

lemma slots_of_concat:
  "(\<And>xs. xs \<in> set xss \<Longrightarrow> length xs mod 32 = 0) \<Longrightarrow> slots_of (concat xss) = concat (map slots_of xss)"
proof (induction xss)
  case Nil
  then show ?case by (simp add: slots_of_def)
next
  case (Cons xs xss)
  then show ?case by (simp add: slots_of_append)
qed

lemma slots_of_load: "slots_of (load_bytes m a (32 * n)) = map (\<lambda>i. load_bytes m (a + 32 * i) 32) [0..<n]"
proof -
  have "take 32 (drop (32 * i) (load_bytes m a (32 * n))) = load_bytes m (a + 32 * i) 32" if "i < n" for i
    using that by (simp add: load_bytes_def take_map drop_map drop_upt take_upt)
  then show ?thesis by (simp add: slots_of_def)
qed

lemma data_content_clusters:
  "2 \<le> unat p \<Longrightarrow> unat p + k \<le> 2 ^ 32 \<Longrightarrow>
    data_content g m p k = concat (map (\<lambda>i. data_content g m (p + word_of_nat i) 1) [0..<k])"
proof (induction k)
  case (Suc k)
  have k: "unat p + k < 2 ^ 32" using Suc.prems(2) by simp
  then show ?case
    using Suc data_split(1) [OF Suc.prems(1) k cluster_start_add(1) [OF Suc.prems(1) k], of g m 1] by simp
qed simp

lemma extent_content_clusters:
  assumes "sound_extent f"
  shows "extent_content g m f = concat (map (\<lambda>c. data_content g m c 1) (extent_cluster_list f))"
  using data_content_clusters [of "fe_physical_start f" "unat (fe_length f)" g m] assms
  by (simp add: extent_as_data extent_cluster_list_def sound_extent_def extent_end_def o_def)

lemma dir_slots_content:
  assumes n: "32 * unat (mi_dentries_per_cluster (meta_info g)) = unat (mi_cluster_size (meta_info g))"
    and fs: "list_all sound_extent fs"
  shows "map (\<lambda>p. load_bytes m p 32) (dir_slots g (clusters_of fs)) = slots_of (concat (map (extent_content g m) fs))"
proof -
  let ?n = "unat (mi_dentries_per_cluster (meta_info g))"
  have cl: "map (\<lambda>p. load_bytes m p 32) (cluster_slots g (cluster_start g c) 0) = slots_of (data_content g m c 1)" for c
    by (simp add: cluster_slots_def data_content_def n [symmetric] slots_of_load sizeof_fat_dentry_def o_def)
  have "concat (map (extent_content g m) fs) = concat (map (\<lambda>c. data_content g m c 1) (clusters_of fs))"
    using fs by (induction fs) (simp_all add: extent_content_clusters)
  also have "slots_of \<dots> = concat (map (\<lambda>c. slots_of (data_content g m c 1)) (clusters_of fs))"
    by (subst slots_of_concat) (auto simp: data_content_def n [symmetric] o_def)
  finally show ?thesis by (simp add: dir_slots_def map_concat o_def cl)
qed

lemma clusters_of_sound:
  assumes fs: "list_all sound_extent fs" and c: "c \<in> set (clusters_of fs)"
  obtains f j where "f \<in> set fs" and "j < unat (fe_length f)" and "2 \<le> unat c"
    and "cluster_start g c = cluster_start g (fe_physical_start f) + j * unat (mi_cluster_size (meta_info g))"
proof -
  obtain f j where f: "f \<in> set fs" "j < unat (fe_length f)" "c = fe_physical_start f + word_of_nat j"
    using c by (auto simp: clusters_of_def extent_cluster_list_def)
  have s: "2 \<le> unat (fe_physical_start f)" "unat (fe_physical_start f) + j < 2 ^ 32"
    using fs f by (auto simp: list_all_iff sound_extent_def extent_end_def)
  show thesis
    using that [OF f(1,2)] s(1) cluster_start_add [OF s] f(3) by simp
qed

lemma dir_slot_bytes:
  assumes n: "32 * unat (mi_dentries_per_cluster (meta_info g)) = unat (mi_cluster_size (meta_info g))"
    and fs: "list_all sound_extent fs" and p: "p \<in> set (dir_slots g (clusters_of fs))"
  shows "{p..<p + 32} \<subseteq> (\<Union>f \<in> set fs. extent_bytes g f)"
proof -
  let ?n = "unat (mi_dentries_per_cluster (meta_info g))"
  obtain c i where c: "c \<in> set (clusters_of fs)" "i < ?n" "p = cluster_start g c + 32 * i"
    using p by (auto simp: dir_slots_def cluster_slots_def sizeof_fat_dentry_def)
  obtain f j where f: "f \<in> set fs" "j < unat (fe_length f)"
    "cluster_start g c = cluster_start g (fe_physical_start f) + j * unat (mi_cluster_size (meta_info g))"
    using clusters_of_sound [OF fs c(1)] by blast
  let ?a = "cluster_start g (fe_physical_start f)"
  have "(j + 1) * (32 * ?n) \<le> unat (fe_length f) * (32 * ?n)" using f(2) by (intro mult_le_mono1) simp
  moreover have "p = ?a + j * (32 * ?n) + 32 * i" using c(3) f(3) n by simp
  moreover have "32 * i + 32 \<le> 32 * ?n" using c(2) by simp
  ultimately have "?a \<le> p" "p + 32 \<le> ?a + unat (fe_length f) * (32 * ?n)" by (simp_all add: algebra_simps)
  then have "{p..<p + 32} \<subseteq> extent_bytes g f" by (auto simp: extent_bytes_def n)
  then show ?thesis using f(1) by blast
qed

lemma map_filter_seen:
  "map (\<lambda>p. load_bytes m p 32) (filter (\<lambda>p. \<not> skipped m p) xs) = filter seen (map (\<lambda>p. load_bytes m p 32) xs)"
  by (induction xs) (simp_all add: seen_def skipped_def is_invalid_def is_dot_dir_def hd_load_bytes)

text \<open>Opening a directory whose extents the stream holds.\<close>

lemma open_directory:
  assumes geo: "page_geometry g ps"
    and n: "32 * unat (mi_dentries_per_cluster (meta_info g)) = unat (mi_cluster_size (meta_info g))"
    and seg: "stable_segment g ps R st fs v" and fs: "list_all sound_extent fs"
    and R: "\<And>r. r \<in> R \<Longrightarrow> agree_on (\<Union>f \<in> set fs. extent_bytes g f) m (mem r)"
  shows "\<exists>it state vs. (\<forall>r \<in> R. init_iterator g ps st r = Inr it) \<and> (\<forall>r \<in> R. init_read_state g ps it r = Some (Inr state))
    \<and> visible_ahead g ps R state vs
    \<and> map (\<lambda>p. load_bytes m p 32) vs = filter seen (slots_of (concat (map (extent_content g m) fs)))
    \<and> (\<forall>v \<in> set vs. v \<noteq> 0 \<and> {v..<v + 32} \<subseteq> (\<Union>f \<in> set fs. extent_bytes g f))"
proof -
  have z: "unat (mi_cluster_size (meta_info g)) = unat ps" "16 \<le> unat ps"
    using page_geometry_size [OF geo] geo by (auto simp: page_geometry_def)
  then have dpc: "0 < unat (mi_dentries_per_cluster (meta_info g))" using n by linarith
  have cs: "\<forall>c \<in> set (clusters_of fs). c \<noteq> 0 \<and> cluster_start g c \<noteq> 0"
  proof
    fix c assume "c \<in> set (clusters_of fs)"
    then have "2 \<le> unat c" by (rule clusters_of_sound [OF fs])
    then show "c \<noteq> 0 \<and> cluster_start g c \<noteq> 0" using page_address(1) [OF geo] by auto
  qed
  obtain it where it: "\<forall>r \<in> R. init_iterator g ps st r = Inr it" "stable_clusters g ps R it (clusters_of fs)"
    using stable_init_iterator [OF seg] by blast
  obtain state where state: "\<forall>r \<in> R. init_read_state g ps it r = Some (Inr state)"
    "slots_ahead g ps R state (dir_slots g (clusters_of fs))"
    using stable_init_read_state [OF it(2) cs dpc] by blast
  let ?xs = "dir_slots g (clusters_of fs)" and ?Y = "\<Union>f \<in> set fs. extent_bytes g f"
  have bytes: "{p..<p + 32} \<subseteq> ?Y" if "p \<in> set ?xs" for p by (rule dir_slot_bytes [OF n fs that])
  have "skipped (mem r) p = skipped m p" if "r \<in> R" "p \<in> set ?xs" for r p
  proof -
    have "p \<in> {p..<p + 32}" by simp
    then have "p \<in> ?Y" using bytes [OF that(2)] by (rule rev_subsetD)
    then have "m p = mem r p" using R [OF that(1)] by (simp only: agree_on_def)
    then show ?thesis by (simp add: skipped_def is_invalid_def is_dot_dir_def)
  qed
  then have "visible_ahead g ps R state (filter (\<lambda>p. \<not> skipped m p) ?xs)"
    using state(2) unfolding visible_ahead_def
    by (intro exI [of _ ?xs] exI [of _ "skipped m"]) simp
  moreover have "v \<noteq> 0" if "v \<in> set ?xs" for v
    using that cs by (auto simp: dir_slots_def cluster_slots_def)
  ultimately show ?thesis
    using it(1) state(1) bytes map_filter_seen [of m ?xs] dir_slots_content [OF n fs, of m]
    by (intro exI [of _ it] exI [of _ state] exI [of _ "filter (\<lambda>p. \<not> skipped m p) ?xs"]) simp
qed

end
