(* ===== verification/Stream_Segments.thy ===== *)
theory Stream_Segments
  imports File_Extents
begin

section \<open>Segments that are filled in later\<close>

text \<open>
  The traversal of metadata_reader.cpp reserves the cells of a segment in the stream, ends the
  segment, and fills the cells in later. The theory separates what the reader needs to find its
  way, the links of the pages and the headers of the segments, from the contents of the cells.
\<close>

definition cells :: "nat \<Rightarrow> nat list \<Rightarrow> nat set" where
  "cells n as = (\<Union>a \<in> set as. {a..<a + n})"

lemma cells_simps [simp]:
  "cells n [] = {}" "cells n (a # as) = {a..<a + n} \<union> cells n as" "cells n (as @ bs) = cells n as \<union> cells n bs"
  by (auto simp: cells_def)

lemma in_cells: "a \<in> set as \<Longrightarrow> {a..<a + n} \<subseteq> cells n as"
  by (auto simp: cells_def)

text \<open>The cells of a list do not overlap.\<close>

fun cells_apart :: "nat \<Rightarrow> nat list \<Rightarrow> bool" where
  "cells_apart n [] = True"
| "cells_apart n (a # as) = ({a..<a + n} \<inter> cells n as = {} \<and> cells_apart n as)"

lemma cells_apart_append [simp]:
  "cells_apart n (as @ bs) \<longleftrightarrow> cells_apart n as \<and> cells_apart n bs \<and> cells n as \<inter> cells n bs = {}"
  by (induction as) auto

subsection \<open>Reading the cells of a segment\<close>

inductive segment_cells ::
  "fat_globals \<Rightarrow> u64 \<Rightarrow> 'a io_state_scheme set \<Rightarrow> u64 \<Rightarrow> stream \<Rightarrow> nat list \<Rightarrow> stream \<Rightarrow> bool"
  for g ps R n where
  cells_end: "\<forall>r \<in> R. getNext g ps n st r = Inr (0, st', r) \<Longrightarrow> segment_cells g ps R n st [] st'"
| cells_more: "\<forall>r \<in> R. getNext g ps n st r = Inr (a, st', r) \<Longrightarrow> a \<noteq> 0
    \<Longrightarrow> segment_cells g ps R n st' as st'' \<Longrightarrow> segment_cells g ps R n st (a # as) st''"

inductive_cases segment_cells_NilE: "segment_cells g ps R n st [] st'"
inductive_cases segment_cells_ConsE: "segment_cells g ps R n st (a # as) st'"

lemma segment_cells_mono: "segment_cells g ps R n st as st'' \<Longrightarrow> S \<subseteq> R \<Longrightarrow> segment_cells g ps S n st as st''"
proof (induction rule: segment_cells.induct)
  case (cells_end st st')
  then show ?case by (intro segment_cells.cells_end) blast
next
  case (cells_more st a st' as st'')
  then show ?case by (intro segment_cells.cells_more [of S g ps n st a st' as st'']) blast+
qed

subsection \<open>Reserving cells\<close>

text \<open>
  From the writer \<open>w\<close> in the state \<open>s\<close> to \<open>w'\<close> in \<open>s'\<close> cells of \<open>n\<close> bytes have been reserved at the
  addresses \<open>as\<close>: nothing that the stream held has changed, and whatever the cells contain, a
  reader that stands where \<open>w\<close> stood finds them and goes on where \<open>w'\<close> stands.
\<close>

definition reserves ::
  "fat_globals \<Rightarrow> u64 \<Rightarrow> u64 \<Rightarrow> nat set \<Rightarrow> u32 \<Rightarrow> stream \<Rightarrow> 'a io_state_scheme \<Rightarrow> nat list
    \<Rightarrow> nat set \<Rightarrow> u32 \<Rightarrow> stream \<Rightarrow> 'a io_state_scheme \<Rightarrow> bool" where
  "reserves g ps n old c w s as old' c' w' s' \<longleftrightarrow>
     stream_inv g ps old' c' w' s' \<and> used_bytes old w \<subseteq> used_bytes old' w'
     \<and> cells (unat n) as \<subseteq> used_bytes old' w' - used_bytes old w \<and> cells_apart (unat n) as
     \<and> agree_on (used_bytes old w) (mem s) (mem s')
     \<and> st_header w' = st_header w \<and> st_index w' = st_index w + word_of_nat (length as)
     \<and> same_setup (alloc s) (alloc s')
     \<and> (\<forall>X. outside_stream g ps old c (alloc s) X \<longrightarrow>
          outside_stream g ps old' c' (alloc s') X \<and> agree_on X (mem s) (mem s'))
     \<and> (\<forall>(R :: 'a io_state_scheme set) bs v. R \<noteq> {} \<longrightarrow> st_header w \<noteq> 0 \<longrightarrow>
          (\<forall>r \<in> R. agree_on (used_bytes old' w' - used_bytes old w - cells (unat n) as) (mem s') (mem r)
             \<and> unat (st_index w) + length as \<le> unat (load_u64 (mem r) (st_header w))) \<longrightarrow>
          segment_cells g ps R n w' bs v \<longrightarrow> segment_cells g ps R n w (as @ bs) v)"

lemma reservesD:
  assumes "reserves g ps n old c w s as old' c' w' s'"
  shows "stream_inv g ps old' c' w' s'" "used_bytes old w \<subseteq> used_bytes old' w'"
    "cells (unat n) as \<subseteq> used_bytes old' w' - used_bytes old w" "cells_apart (unat n) as"
    "agree_on (used_bytes old w) (mem s) (mem s')"
    "st_header w' = st_header w" "st_index w' = st_index w + word_of_nat (length as)" "same_setup (alloc s) (alloc s')"
    "outside_stream g ps old c (alloc s) X \<Longrightarrow> outside_stream g ps old' c' (alloc s') X \<and> agree_on X (mem s) (mem s')"
  using assms unfolding reserves_def by simp_all

lemma reserves_reader:
  fixes s s' :: "'a io_state_scheme" and R :: "'a io_state_scheme set"
  assumes "reserves g ps n old c w s as old' c' w' s'" and "R \<noteq> {}" "st_header w \<noteq> 0"
    and "\<And>r. r \<in> R \<Longrightarrow> agree_on (used_bytes old' w' - used_bytes old w - cells (unat n) as) (mem s') (mem r)"
    and "\<And>r. r \<in> R \<Longrightarrow> unat (st_index w) + length as \<le> unat (load_u64 (mem r) (st_header w))"
    and "segment_cells g ps R n w' bs v"
  shows "segment_cells g ps R n w (as @ bs) v"
proof -
  have R: "\<forall>(R :: 'a io_state_scheme set) bs v. R \<noteq> {} \<longrightarrow> st_header w \<noteq> 0 \<longrightarrow>
      (\<forall>r \<in> R. agree_on (used_bytes old' w' - used_bytes old w - cells (unat n) as) (mem s') (mem r)
         \<and> unat (st_index w) + length as \<le> unat (load_u64 (mem r) (st_header w))) \<longrightarrow>
      segment_cells g ps R n w' bs v \<longrightarrow> segment_cells g ps R n w (as @ bs) v"
    using assms(1) unfolding reserves_def by (elim conjE)
  show ?thesis by (rule R [rule_format, OF assms(2,3)]) (simp_all add: assms(4-6))
qed

lemma reserves_refl: "stream_inv g ps old c w s \<Longrightarrow> reserves g ps n old c w s [] old c w s"
  by (simp add: reserves_def agree_on_def)

lemma reserves_trans:
  fixes s s1 s2 :: "'a io_state_scheme"
  assumes E1: "reserves g ps n old c w s as old1 c1 w1 s1" and E2: "reserves g ps n old1 c1 w1 s1 bs old2 c2 w2 s2"
  shows "reserves g ps n old c w s (as @ bs) old2 c2 w2 s2"
proof -
  note D1 = reservesD [OF E1] and D2 = reservesD [OF E2]
  have read: "segment_cells g ps R n w ((as @ bs) @ ds) v"
    if ne: "R \<noteq> {}" and h: "st_header w \<noteq> 0"
      and R: "\<forall>r \<in> R. agree_on (used_bytes old2 w2 - used_bytes old w - cells (unat n) (as @ bs)) (mem s2) (mem r)
        \<and> unat (st_index w) + length (as @ bs) \<le> unat (load_u64 (mem r) (st_header w))"
      and rest: "segment_cells g ps R n w2 ds v" for R :: "'a io_state_scheme set" and ds v
  proof -
    obtain r where "r \<in> R" using ne by blast
    then have "unat (st_index w) + length (as @ bs) \<le> unat (load_u64 (mem r) (st_header w))" using R by blast
    then have "unat (st_index w) + length as < 18446744073709551616"
      using unat_u64_bound [of "load_u64 (mem r) (st_header w)"] unfolding length_append by linarith
    moreover from this have "length as < 2 ^ LENGTH(64)" by simp
    then have "unat (word_of_nat (length as) :: u64) = length as" by (simp only: unat_of_nat mod_less)
    ultimately have i1: "unat (st_index w1) = unat (st_index w) + length as"
      using D1(7) by (simp add: unat_add_no_overflow)
    have tl: "segment_cells g ps R n w1 (bs @ ds) v"
    proof (rule reserves_reader [OF E2 ne _ _ _ rest])
      show "agree_on (used_bytes old2 w2 - used_bytes old1 w1 - cells (unat n) bs) (mem s2) (mem r)" if "r \<in> R" for r
      proof (rule agree_on_mono)
        show "agree_on (used_bytes old2 w2 - used_bytes old w - cells (unat n) (as @ bs)) (mem s2) (mem r)" using R that by blast
      qed (use D1(2,3) in auto)
      show "unat (st_index w1) + length bs \<le> unat (load_u64 (mem r) (st_header w1))" if "r \<in> R" for r
        using R that by (simp add: D1(6) i1 add.assoc)
    qed (simp add: D1(6) h)
    have "segment_cells g ps R n w (as @ bs @ ds) v"
    proof (rule reserves_reader [OF E1 ne h _ _ tl])
      fix r assume r: "r \<in> R"
      have "agree_on (used_bytes old1 w1 - used_bytes old w - cells (unat n) as) (mem s2) (mem r)"
      proof (rule agree_on_mono)
        show "agree_on (used_bytes old2 w2 - used_bytes old w - cells (unat n) (as @ bs)) (mem s2) (mem r)" using R r by blast
      qed (use D2(2,3) in auto)
      then show "agree_on (used_bytes old1 w1 - used_bytes old w - cells (unat n) as) (mem s1) (mem r)"
        using D2(5) by (auto simp: agree_on_def)
      show "unat (st_index w) + length as \<le> unat (load_u64 (mem r) (st_header w))" using R r by fastforce
    qed
    then show ?thesis by simp
  qed
  have "agree_on (used_bytes old w) (mem s) (mem s2)"
    using D1(5) agree_on_mono [OF D2(5) D1(2)] agree_on_trans by blast
  moreover have "\<forall>X. outside_stream g ps old c (alloc s) X \<longrightarrow>
      outside_stream g ps old2 c2 (alloc s2) X \<and> agree_on X (mem s) (mem s2)"
    using D1(9) D2(9) agree_on_trans by blast
  moreover have "same_setup (alloc s) (alloc s2)" using D1(8) D2(8) same_setup_trans by blast
  moreover have "cells (unat n) (as @ bs) \<subseteq> used_bytes old2 w2 - used_bytes old w"
    "cells_apart (unat n) (as @ bs)" using D1(2-4) D2(2-4) by auto
  moreover have "used_bytes old w \<subseteq> used_bytes old2 w2" using D1(2) D2(2) by blast
  moreover have "st_index w2 = st_index w + word_of_nat (length (as @ bs))" using D1(7) D2(7) by (simp add: add.assoc)
  ultimately show ?thesis
    using read D2(1) D1(6) D2(6) by (simp add: reserves_def)
qed

lemma reserves_one:
  fixes s :: "'a io_state_scheme"
  assumes inv: "stream_inv g ps old c w s" and len: "unat n + 8 \<le> unat ps"
  shows "(\<exists>a w' s' old' c'. iterateStreamArchiver g ps True n 1 w s = Inr (a, w', s') \<and> a \<noteq> 0
      \<and> reserves g ps n old c w s [a] old' c' w' s')
    \<or> iterateStreamArchiver g ps True n 1 w s = Inl Fs_Too_Small"
proof -
  let ?w = "w\<lparr>st_index := st_index w + 1\<rparr>"
  have inv': "stream_inv g ps old c ?w s" using inv by simp
  have it: "iterateStreamArchiver g ps True n 1 w s = iterate_advance g ps True n ?w s"
    by (simp add: iterateStreamArchiver_def)
  show ?thesis
  proof (cases "iterate_advance g ps True n ?w s")
    case (Inl err)
    then show ?thesis using iterate_advance_insert_total [OF inv' Inl] it by simp
  next
    case (Inr q)
    obtain a w1 s1 where q: "q = (a, w1, s1)" by (cases q)
    from iterate_advance_insert [OF inv' len Inr [unfolded q]]
    obtain old' c' where i: "stream_inv g ps old' c' w1 s1" "a \<noteq> 0"
      "used_bytes old w \<subseteq> used_bytes old' w1" "{a..<a + unat n} \<subseteq> used_bytes old' w1 - used_bytes old w"
      "agree_on (used_bytes old w) (mem s) (mem s1)" "st_header w1 = st_header w" "st_index w1 = st_index w + 1"
      "same_setup (alloc s) (alloc s1)"
      "\<And>X. outside_stream g ps old c (alloc s) X \<Longrightarrow> outside_stream g ps old' c' (alloc s1) X
         \<and> agree_on X (mem s) (mem s1) \<and> {a..<a + unat n} \<inter> X = {}"
      "\<And>r :: 'a io_state_scheme. agree_on (used_bytes old' w1 - used_bytes old w - {a..<a + unat n}) (mem s1) (mem r)
         \<Longrightarrow> iterate_advance g ps False n ?w r = Inr (a, w1, r)"
      by auto
    have "segment_cells g ps R n w ([a] @ bs) v"
      if h: "st_header w \<noteq> 0" and R: "\<forall>r \<in> R. agree_on (used_bytes old' w1 - used_bytes old w - cells (unat n) [a]) (mem s1) (mem r)
          \<and> unat (st_index w) + length [a] \<le> unat (load_u64 (mem r) (st_header w))"
        and rest: "segment_cells g ps R n w1 bs v" for R :: "'a io_state_scheme set" and bs v
    proof -
      have "getNext g ps n w r = Inr (a, w1, r)" if r: "r \<in> R" for r
      proof -
        have ag: "agree_on (used_bytes old' w1 - used_bytes old w - {a..<a + unat n}) (mem s1) (mem r)"
          and cnt: "unat (st_index w) + 1 \<le> unat (load_u64 (mem r) (st_header w))" using R r by auto
        have "unat (st_index w) + 1 < 18446744073709551616"
          using cnt unat_u64_bound [of "load_u64 (mem r) (st_header w)"] by linarith
        then have "unat (st_index w + 1) = unat (st_index w) + 1" by (subst unat_add_no_overflow) simp_all
        then have "\<not> load_u64 (mem r) (st_header w) < st_index w + 1" using cnt by (simp add: word_less_nat_alt)
        then show ?thesis using h i(10) [OF ag] by (simp add: getNext_def iterateStreamArchiver_def)
      qed
      then have "segment_cells g ps R n w (a # bs) v" using i(2) rest by (intro cells_more [where a = a and st' = w1]) blast+
      then show ?thesis by simp
    qed
    then have "reserves g ps n old c w s [a] old' c' w1 s1"
      using i(1,3-9) by (simp add: reserves_def)
    then show ?thesis using it Inr q i(2) by auto
  qed
qed

subsection \<open>Finished segments\<close>

text \<open>The segment of the reserved cells, when it is ended.\<close>

definition finished ::
  "fat_globals \<Rightarrow> u64 \<Rightarrow> u64 \<Rightarrow> nat set \<Rightarrow> u32 \<Rightarrow> stream \<Rightarrow> 'a io_state_scheme \<Rightarrow> nat list
    \<Rightarrow> nat set \<Rightarrow> u32 \<Rightarrow> stream \<Rightarrow> 'a io_state_scheme \<Rightarrow> bool" where
  "finished g ps n old c w s as old' c' w' s' \<longleftrightarrow> extends g ps {} old c w s old' c' w' s'
    \<and> cells (unat n) as \<subseteq> new_bytes old w old' w' \<and> cells_apart (unat n) as
    \<and> segment_cells g ps {r :: 'a io_state_scheme. agree_on (new_bytes old w old' w' - cells (unat n) as) (mem s') (mem r)} n w as w'"

lemma finish_segment:
  fixes s :: "'a io_state_scheme"
  assumes W: "writer_at g ps old c w s" and E: "reserves g ps n old c w s as old1 c1 w1 s1"
    and len: "length as + 1 < 2 ^ 64" and cut: "cutStreamArchiver g ps w1 s1 = Inr (w', s')"
  shows "\<exists>old' c'. finished g ps n old c w s as old' c' w' s'"
proof -
  note D = reservesD [OF E]
  have h: "st_header w \<noteq> 0" "st_index w = 0" "{st_header w..<st_header w + 8} \<subseteq> used_bytes old w"
    using W by (simp_all add: writer_at_def)
  have "length as < 2 ^ LENGTH(64)" using len by simp
  then have i1: "unat (st_index w1) = length as" using D(7) h(2) by (simp only: unat_of_nat mod_less add_0)
  have hw: "{st_header w1..<st_header w1 + 8} \<subseteq> used_bytes old1 w1" using h(3) D(2,6) by auto
  have "st_header w1 \<noteq> 0" "unat (st_index w1) + 1 < 2 ^ 64" using h(1) D(6) i1 len by simp_all
  from cutStreamArchiver_spec [OF D(1) this(1) hw cut this(2)]
  obtain old' c' where k: "writer_at g ps old' c' w' s'" "used_bytes old1 w1 \<subseteq> stable_bytes old' w'"
    "agree_on (stable_bytes old1 w1) (mem s1) (mem s')" "load_u64 (mem s') (st_header w1) = st_index w1"
    "same_setup (alloc s1) (alloc s')"
    "\<And>X. outside_stream g ps old1 c1 (alloc s1) X \<Longrightarrow> outside_stream g ps old' c' (alloc s') X \<and> agree_on X (mem s1) (mem s')"
    "\<And>(r :: 'a io_state_scheme) n. agree_on (stable_bytes old' w' - stable_bytes old1 w1) (mem s') (mem r) \<Longrightarrow>
       read_segment g ps n w1 r = Some (Inr ([], w'))"
    by auto
  have s01: "stable_bytes old w \<subseteq> stable_bytes old1 w1" using D(2,6) by (auto simp: stable_bytes_def)
  have s1: "stable_bytes old1 w1 \<subseteq> stable_bytes old' w'" using k(2) by (auto simp: stable_bytes_def [of old1])
  have "agree_on (stable_bytes old w) (mem s) (mem s1)" by (rule agree_on_mono [OF D(5)]) (auto simp: stable_bytes_def)
  then have ag: "agree_on (stable_bytes old w - {}) (mem s) (mem s')"
    using agree_on_mono [OF k(3) s01] by (auto simp: agree_on_def)
  have ext: "extends g ps {} old c w s old' c' w' s'"
    unfolding extends_def
  proof (intro conjI allI impI)
    show "writer_at g ps old' c' w' s'" "stable_bytes old w \<subseteq> stable_bytes old' w'" using k(1) s01 s1 by auto
    show "agree_on (stable_bytes old w - {}) (mem s) (mem s')" by (rule ag)
    show "same_setup (alloc s) (alloc s')" using D(8) k(5) same_setup_trans by blast
    fix X assume X: "outside_stream g ps old c (alloc s) X"
    show "outside_stream g ps old' c' (alloc s') X" using D(9) [OF X] k(6) by blast
    show "agree_on X (mem s) (mem s')" using D(9) [OF X] k(6) agree_on_trans by blast
  qed
  let ?H = "{st_header w..<st_header w + 8}"
  have sub: "cells (unat n) as \<subseteq> used_bytes old1 w1 - used_bytes old w" by (rule D(3))
  have cn: "cells (unat n) as \<subseteq> new_bytes old w old' w'"
    using sub k(2) by (auto simp: new_bytes_def stable_bytes_def [of old])
  let ?R = "{r :: 'a io_state_scheme. agree_on (new_bytes old w old' w' - cells (unat n) as) (mem s') (mem r)}"
  have c1: "cells (unat n) as \<subseteq> stable_bytes old1 w1" using sub h(3) by (auto simp: stable_bytes_def D(6))
  have fin: "segment_cells g ps ?R n w1 [] w'"
  proof (rule cells_end, rule ballI)
    fix r assume "r \<in> ?R"
    then have "agree_on (stable_bytes old' w' - stable_bytes old1 w1) (mem s') (mem r)"
      using s01 c1 by (auto intro: agree_on_mono simp: new_bytes_def)
    then show "getNext g ps n w1 r = Inr (0, w', r)" by (rule read_segment_Nil_getNext [OF k(7)])
  qed
  have "segment_cells g ps ?R n w (as @ []) w'"
  proof (rule reserves_reader [OF E _ h(1) _ _ fin])
    show "?R \<noteq> {}" by (auto simp: agree_on_def intro: exI [of _ s'])
  next
    fix r assume r: "r \<in> ?R"
    have "used_bytes old1 w1 - used_bytes old w - cells (unat n) as \<subseteq> stable_bytes old1 w1"
      using h(3) by (auto simp: stable_bytes_def D(6))
    then have "agree_on (used_bytes old1 w1 - used_bytes old w - cells (unat n) as) (mem s1) (mem s')"
      by (rule agree_on_mono [OF k(3)])
    moreover have "used_bytes old1 w1 - used_bytes old w - cells (unat n) as \<subseteq> new_bytes old w old' w' - cells (unat n) as"
      using k(2) by (auto simp: new_bytes_def stable_bytes_def [of old])
    then have "agree_on (used_bytes old1 w1 - used_bytes old w - cells (unat n) as) (mem s') (mem r)"
      using r agree_on_mono by blast
    ultimately show "agree_on (used_bytes old1 w1 - used_bytes old w - cells (unat n) as) (mem s1) (mem r)"
      by (rule agree_on_trans)
    have "?H \<subseteq> new_bytes old w old' w' - cells (unat n) as"
      using h(3) sub k(2) D(2) by (auto simp: new_bytes_def stable_bytes_def [of old])
    then have "load_u64 (mem r) (st_header w) = load_u64 (mem s') (st_header w)"
      using r by (intro agree_on_load_u64 [OF agree_on_sym]) auto
    then show "unat (st_index w) + length as \<le> unat (load_u64 (mem r) (st_header w))"
      using k(4) i1 h(2) D(6) by simp
  qed
  then have "segment_cells g ps ?R n w as w'" by simp
  then show ?thesis using ext cn D(4) unfolding finished_def by blast
qed

text \<open>A segment of one cell, as for a directory entry and for the number of children.\<close>

definition reserve_cell ::
  "fat_globals \<Rightarrow> u64 \<Rightarrow> u64 \<Rightarrow> stream \<Rightarrow> 'a io_state_scheme \<Rightarrow> (nat \<times> stream \<times> 'a io_state_scheme) result" where
  "reserve_cell g ps n w s =
     bind_res (iterateStreamArchiver g ps True n 1 w s) (\<lambda>(p, w1, s1).
     bind_res (cutStreamArchiver g ps w1 s1) (\<lambda>(w2, s2). Inr (p, w2, s2)))"

lemma reserve_as_cell:
  "reserve_dentry g ps = reserve_cell g ps (word_of_nat sizeof_fat_dentry)"
  "reserve_children_count g ps = reserve_cell g ps 4"
  by (simp_all add: fun_eq_iff reserve_dentry_def reserve_children_count_def reserve_cell_def)

lemma reserve_cell_spec:
  fixes s :: "'a io_state_scheme"
  assumes W: "writer_at g ps old c w s" and len: "unat n + 8 \<le> unat ps"
  shows "(\<exists>p w' s' old' c'. reserve_cell g ps n w s = Inr (p, w', s') \<and> p \<noteq> 0 \<and> finished g ps n old c w s [p] old' c' w' s')
    \<or> reserve_cell g ps n w s = Inl Fs_Too_Small"
proof -
  have inv: "stream_inv g ps old c w s" and h: "st_header w \<noteq> 0" using W by (simp_all add: writer_at_def)
  from reserves_one [OF inv len] show ?thesis
  proof (elim disjE exE conjE)
    fix p w1 s1 old1 c1
    assume it: "iterateStreamArchiver g ps True n 1 w s = Inr (p, w1, s1)" "p \<noteq> 0" "reserves g ps n old c w s [p] old1 c1 w1 s1"
    show ?thesis
    proof (cases "cutStreamArchiver g ps w1 s1")
      case (Inl err)
      then show ?thesis
        using cutStreamArchiver_total [OF reservesD(1) [OF it(3)] _ Inl] h reservesD(6) [OF it(3)] it(1)
        by (simp add: reserve_cell_def)
    next
      case (Inr q)
      obtain w' s' where q: "q = (w', s')" by (cases q)
      show ?thesis
        using finish_segment [OF W it(3) _ Inr [unfolded q]] it(1,2) Inr by (auto simp: reserve_cell_def q)
    qed
  qed (simp add: reserve_cell_def)
qed

lemma reserve_pointers_spec:
  fixes s :: "'a io_state_scheme"
  assumes "stream_inv g ps old c w s" and len: "34 \<le> unat ps"
  shows "(\<exists>as w' s' old' c'. reserve_pointers g ps k w s = Inr (as, w', s') \<and> length as = k \<and> 0 \<notin> set as
      \<and> reserves g ps 26 old c w s as old' c' w' s')
    \<or> reserve_pointers g ps k w s = Inl Fs_Too_Small"
  using assms(1)
proof (induction k arbitrary: old c w s)
  case 0
  then show ?case using reserves_refl by fastforce
next
  case (Suc k)
  have "unat (26 :: u64) + 8 \<le> unat ps" using len by simp
  from reserves_one [OF Suc.prems this] show ?case
  proof (elim disjE exE conjE)
    fix p w1 s1 old1 c1
    assume it: "iterateStreamArchiver g ps True 26 1 w s = Inr (p, w1, s1)" "p \<noteq> 0" "reserves g ps 26 old c w s [p] old1 c1 w1 s1"
    from Suc.IH [OF reservesD(1) [OF it(3)]] show ?thesis
    proof (elim disjE exE conjE)
      fix as w' s' old' c'
      assume r: "reserve_pointers g ps k w1 s1 = Inr (as, w', s')" "length as = k" "0 \<notin> set as"
        "reserves g ps 26 old1 c1 w1 s1 as old' c' w' s'"
      have "reserves g ps 26 old c w s (p # as) old' c' w' s'" using reserves_trans [OF it(3) r(4)] by simp
      then show ?thesis using it(1,2) r(1-3) by (intro disjI1 exI [of _ "p # as"]) (auto simp: LFN_ENTRY_LENGTH_def)
    qed (use it(1) in \<open>simp add: LFN_ENTRY_LENGTH_def\<close>)
  qed (simp add: LFN_ENTRY_LENGTH_def)
qed

lemma reserve_name_spec:
  fixes s :: "'a io_state_scheme"
  assumes W: "writer_at g ps old c w s" and len: "34 \<le> unat ps" and k: "k < 2 ^ 32"
  shows "(\<exists>as w' s' old' c'. reserve_name g ps k w s = Inr (as, w', s') \<and> length as = k \<and> 0 \<notin> set as
      \<and> finished g ps 26 old c w s as old' c' w' s')
    \<or> reserve_name g ps k w s = Inl Fs_Too_Small"
proof -
  have inv: "stream_inv g ps old c w s" and h: "st_header w \<noteq> 0" using W by (simp_all add: writer_at_def)
  from reserve_pointers_spec [OF inv len, of k] show ?thesis
  proof (elim disjE exE conjE)
    fix as w1 s1 old1 c1
    assume it: "reserve_pointers g ps k w s = Inr (as, w1, s1)" "length as = k" "0 \<notin> set as"
      "reserves g ps 26 old c w s as old1 c1 w1 s1"
    show ?thesis
    proof (cases "cutStreamArchiver g ps w1 s1")
      case (Inl err)
      then show ?thesis
        using cutStreamArchiver_total [OF reservesD(1) [OF it(4)] _ Inl] h reservesD(6) [OF it(4)] it(1)
        by (simp add: reserve_name_def)
    next
      case (Inr q)
      obtain w' s' where q: "q = (w', s')" by (cases q)
      have "length as + 1 < 2 ^ 64" using it(2) k by simp
      from finish_segment [OF W it(4) this Inr [unfolded q]] show ?thesis
        using it(1-3) Inr by (auto simp: reserve_name_def q)
    qed
  qed (simp add: reserve_name_def)
qed

end
