(* ===== verification/Stream_Trees.thy ===== *)
theory Stream_Trees
  imports Stream_Segments Directory_Trees
begin

section \<open>Directory trees in the stream\<close>

text \<open>
  What a reader of the stream has to find for a tree of the FAT, and what one round of the loop
  of \<open>traverse\<close> does until the entry and its name are in the stream.
\<close>

subsection \<open>Filling cells\<close>

lemma writer_outside:
  "writer_at g ps old c w s \<Longrightarrow> outside_stream g ps old c a X \<Longrightarrow> stable_bytes old w \<inter> X = {}"
  using used_bytes_subset [of g ps old c w s] unfolding writer_at_def outside_stream_def stable_bytes_def by blast

lemma extends_fill:
  fixes s s' :: "'a io_state_scheme"
  assumes E: "extends g ps D old c w s old' c' w' s'" and B: "B \<subseteq> stable_bytes old' w'"
    and D: "B \<inter> (stable_bytes old w - D) = {}" and m: "agree_on (- B) (mem s') m"
  shows "extends g ps D old c w s old' c' w' (s'\<lparr>mem := m\<rparr>)"
proof -
  note D' = extendsD [OF E]
  have "agree_on (stable_bytes old w - D) (mem s') m" using D by (intro agree_on_mono [OF m]) blast
  then have "agree_on (stable_bytes old w - D) (mem s) m" using D'(3) agree_on_trans by blast
  moreover have "outside_stream g ps old' c' (alloc s') X \<and> agree_on X (mem s) m"
    if X: "outside_stream g ps old c (alloc s) X" for X
  proof -
    have "B \<inter> X = {}" using writer_outside [OF D'(1) D'(5) [OF X]] B by blast
    then have "agree_on X (mem s') m" by (intro agree_on_mono [OF m]) blast
    then show ?thesis using D'(5,6) [OF X] agree_on_trans by blast
  qed
  moreover have "writer_at g ps old' c' w' (s'\<lparr>mem := m\<rparr>)" using D'(1) by (simp add: writer_at_def stream_inv_def)
  ultimately show ?thesis using D'(2,4) unfolding extends_def by simp
qed

lemma extends_weaken: "extends g ps D old c w s old' c' w' s' \<Longrightarrow> D \<subseteq> D' \<Longrightarrow> extends g ps D' old c w s old' c' w' s'"
  unfolding extends_def by (blast intro: agree_on_mono)

lemma finishedD:
  fixes s' :: "'a io_state_scheme"
  assumes "finished g ps n old c w s as old' c' w' s'"
  shows "extends g ps {} old c w s old' c' w' s'" "cells (unat n) as \<subseteq> new_bytes old w old' w'"
    "cells_apart (unat n) as"
    "segment_cells g ps {r :: 'a io_state_scheme. agree_on (new_bytes old w old' w' - cells (unat n) as) (mem s') (mem r)} n w as w'"
  using assms unfolding finished_def by simp_all

text \<open>The states in which nothing has happened to what the stream gained between \<open>w\<close> and \<open>w'\<close>.\<close>

definition later :: "nat set \<Rightarrow> stream \<Rightarrow> nat set \<Rightarrow> stream \<Rightarrow> 'a io_state_scheme \<Rightarrow> 'a io_state_scheme set" where
  "later old w old' w' s' = {r. agree_on (new_bytes old w old' w') (mem s') (mem r)}"

lemma laterD: "r \<in> later old w old' w' s' \<Longrightarrow> B \<subseteq> new_bytes old w old' w' \<Longrightarrow> agree_on B (mem s') (mem r)"
  by (auto simp: later_def intro: agree_on_mono)

lemma later_first:
  fixes s1 s2 :: "'a io_state_scheme"
  assumes E: "extends g ps D old1 c1 w1 s1 old2 c2 w2 s2" and D: "D \<inter> new_bytes old w old1 w1 = {}"
  shows "later old w old2 w2 s2 \<subseteq> later old w old1 w1 s1"
proof
  fix r assume r: "r \<in> later old w old2 w2 s2"
  have "new_bytes old w old1 w1 \<subseteq> new_bytes old w old2 w2" using extendsD(2) [OF E] by (auto simp: new_bytes_def)
  then have "agree_on (new_bytes old w old1 w1) (mem s2) (mem r)" by (rule laterD [OF r])
  moreover have "agree_on (new_bytes old w old1 w1) (mem s1) (mem s2)"
    using D by (intro agree_on_mono [OF extendsD(3) [OF E]]) (auto simp: new_bytes_def)
  ultimately show "r \<in> later old w old1 w1 s1" unfolding later_def using agree_on_trans by blast
qed

lemma later_second:
  "stable_bytes old w \<subseteq> stable_bytes old1 w1 \<Longrightarrow> later old w old2 w2 s2 \<subseteq> later old1 w1 old2 w2 s2"
  by (auto simp: later_def new_bytes_def intro: agree_on_mono)

lemma finished_cells:
  fixes s1 s2 :: "'a io_state_scheme" and R :: "'a io_state_scheme set"
  assumes F: "finished g ps n old c w s as old1 c1 w1 s1"
    and keep: "agree_on (new_bytes old w old1 w1 - cells (unat n) as) (mem s1) (mem s2)"
    and R: "\<And>r. r \<in> R \<Longrightarrow> agree_on (new_bytes old w old1 w1) (mem s2) (mem r)"
  shows "segment_cells g ps R n w as w1"
proof (rule segment_cells_mono [OF finishedD(4) [OF F]], rule subsetI, rule CollectI)
  fix r assume "r \<in> R"
  then have "agree_on (new_bytes old w old1 w1 - cells (unat n) as) (mem s2) (mem r)"
    using R by (blast intro: agree_on_mono)
  then show "agree_on (new_bytes old w old1 w1 - cells (unat n) as) (mem s1) (mem r)"
    by (rule agree_on_trans [OF keep])
qed

subsection \<open>What a reader finds\<close>

definition name_at :: "memory \<Rightarrow> nat \<Rightarrow> u16 list \<Rightarrow> bool" where
  "name_at m a us \<longleftrightarrow> load_array load_u16 2 m a (length us) = us"

lemma name_at_cong:
  assumes "agree_on {a..<a + 26} m m'" and "length us \<le> 13"
  shows "name_at m a us = name_at m' a us"
proof -
  have "load_array load_u16 2 m a (length us) = load_array load_u16 2 m' a (length us)"
    using assms by (intro u16.load_array_cong) (auto simp: agree_on_def)
  then show ?thesis by (simp add: name_at_def)
qed

text \<open>
  The segments of an entry: the copy of its 32 bytes, the parts of its name, and the extents of
  its chain, of which \<open>H\<close> holds; and the segment with the number of children.
\<close>

definition entry_in ::
  "fat_globals \<Rightarrow> u64 \<Rightarrow> 'a io_state_scheme set \<Rightarrow> (fat_extent list \<Rightarrow> u32 list \<Rightarrow> bool) \<Rightarrow> stream
    \<Rightarrow> u8 list \<Rightarrow> u16 list list \<Rightarrow> u32 list \<Rightarrow> stream \<Rightarrow> bool" where
  "entry_in g ps R H st d ns cs st' \<longleftrightarrow> (\<exists>a st1 as st2 fs.
     segment_cells g ps R 32 st [a] st1 \<and> (\<forall>r \<in> R. load_bytes (mem r) a 32 = d)
     \<and> segment_cells g ps R 26 st1 as st2 \<and> (\<forall>r \<in> R. list_all2 (name_at (mem r)) as ns)
     \<and> stable_segment g ps R st2 fs st' \<and> H fs cs)"

definition count_in :: "fat_globals \<Rightarrow> u64 \<Rightarrow> 'a io_state_scheme set \<Rightarrow> stream \<Rightarrow> u32 \<Rightarrow> stream \<Rightarrow> bool" where
  "count_in g ps R st k st' \<longleftrightarrow> (\<exists>b. segment_cells g ps R 4 st [b] st' \<and> (\<forall>r \<in> R. load_u32 (mem r) b = k))"

text \<open>A tree: \<open>- 1\<close> children for a file, and the children of a directory behind their number.\<close>

inductive node_in ::
  "fat_globals \<Rightarrow> u64 \<Rightarrow> 'a io_state_scheme set \<Rightarrow> (fat_extent list \<Rightarrow> u32 list \<Rightarrow> bool) \<Rightarrow> stream \<Rightarrow> fat_node \<Rightarrow> stream \<Rightarrow> bool"
and nodes_in ::
  "fat_globals \<Rightarrow> u64 \<Rightarrow> 'a io_state_scheme set \<Rightarrow> (fat_extent list \<Rightarrow> u32 list \<Rightarrow> bool) \<Rightarrow> stream \<Rightarrow> fat_node list \<Rightarrow> stream \<Rightarrow> bool"
  for g ps R H where
  file_in: "entry_in g ps R H st d ns cs st1 \<Longrightarrow> count_in g ps R st1 (- 1) st2
    \<Longrightarrow> node_in g ps R H st (Fat_Node d ns cs None) st2"
| dir_in: "entry_in g ps R H st d ns cs st1 \<Longrightarrow> count_in g ps R st1 (word_of_nat (length nodes)) st2
    \<Longrightarrow> nodes_in g ps R H st2 nodes st3 \<Longrightarrow> node_in g ps R H st (Fat_Node d ns cs (Some nodes)) st3"
| no_nodes: "nodes_in g ps R H st [] st"
| more_nodes: "node_in g ps R H st n st1 \<Longrightarrow> nodes_in g ps R H st1 nodes st2 \<Longrightarrow> nodes_in g ps R H st (n # nodes) st2"

definition children_in ::
  "fat_globals \<Rightarrow> u64 \<Rightarrow> 'a io_state_scheme set \<Rightarrow> (fat_extent list \<Rightarrow> u32 list \<Rightarrow> bool) \<Rightarrow> stream \<Rightarrow> fat_node list option \<Rightarrow> stream \<Rightarrow> bool" where
  "children_in g ps R H st ch st' \<longleftrightarrow>
     (case ch of None \<Rightarrow> count_in g ps R st (- 1) st'
      | Some nodes \<Rightarrow> \<exists>st1. count_in g ps R st (word_of_nat (length nodes)) st1 \<and> nodes_in g ps R H st1 nodes st')"

text \<open>The extents and the children of the root.\<close>

definition tree_in_stream ::
  "fat_globals \<Rightarrow> u64 \<Rightarrow> 'a io_state_scheme set \<Rightarrow> (fat_extent list \<Rightarrow> u32 list \<Rightarrow> bool) \<Rightarrow> stream
    \<Rightarrow> u32 list \<Rightarrow> fat_node list \<Rightarrow> stream \<Rightarrow> bool" where
  "tree_in_stream g ps R H st cs nodes st' \<longleftrightarrow>
     (\<exists>fs st1. stable_segment g ps R st fs st1 \<and> H fs cs \<and> children_in g ps R H st1 (Some nodes) st')"

lemma entry_in_mono:
  assumes "entry_in g ps R H st d ns cs st'" and "S \<subseteq> R" and "\<And>fs cs. H fs cs \<Longrightarrow> H' fs cs"
  shows "entry_in g ps S H' st d ns cs st'"
proof -
  obtain a st1 as st2 fs where "segment_cells g ps R 32 st [a] st1" "\<forall>r \<in> R. load_bytes (mem r) a 32 = d"
    "segment_cells g ps R 26 st1 as st2" "\<forall>r \<in> R. list_all2 (name_at (mem r)) as ns"
    "stable_segment g ps R st2 fs st'" "H fs cs"
    using assms(1) unfolding entry_in_def by blast
  then have "segment_cells g ps S 32 st [a] st1 \<and> (\<forall>r \<in> S. load_bytes (mem r) a 32 = d)
     \<and> segment_cells g ps S 26 st1 as st2 \<and> (\<forall>r \<in> S. list_all2 (name_at (mem r)) as ns)
     \<and> stable_segment g ps S st2 fs st' \<and> H' fs cs"
    using assms(2) assms(3) [of fs cs] segment_cells_mono [OF _ assms(2)] stable_segment_mono [OF _ assms(2)]
    by (intro conjI) (simp_all add: subset_eq)
  then show ?thesis unfolding entry_in_def by blast
qed

lemma count_in_mono: "count_in g ps R st k st' \<Longrightarrow> S \<subseteq> R \<Longrightarrow> count_in g ps S st k st'"
  unfolding count_in_def by (blast intro: segment_cells_mono)

lemma nodes_in_mono:
  assumes sub: "S \<subseteq> R" and H: "\<And>fs cs. H fs cs \<Longrightarrow> H' fs cs"
  shows "node_in g ps R H st n st' \<Longrightarrow> node_in g ps S H' st n st'"
    and "nodes_in g ps R H st nodes st' \<Longrightarrow> nodes_in g ps S H' st nodes st'"
proof (induction rule: node_in_nodes_in.inducts)
  case (file_in st d ns cs st1 st2)
  show ?case
    by (rule node_in_nodes_in.file_in [OF entry_in_mono [OF file_in(1) sub H] count_in_mono [OF file_in(2) sub]])
next
  case (dir_in st d ns cs st1 nodes st2 st3)
  show ?case
    by (rule node_in_nodes_in.dir_in [OF entry_in_mono [OF dir_in(1) sub H] count_in_mono [OF dir_in(2) sub] dir_in(4)])
next
  case (no_nodes st)
  show ?case by (rule node_in_nodes_in.no_nodes)
next
  case (more_nodes st n st1 nodes st2)
  show ?case by (rule node_in_nodes_in.more_nodes [OF more_nodes(2,4)])
qed

subsection \<open>An open directory\<close>

text \<open>
  The writer stands at \<open>w\<close>; the FAT's chains and their data are in \<open>X\<close>, where memory is still as in
  \<open>mx\<close>; and the reading of the open directory depends on the bytes \<open>Q\<close> only, which are in finished
  parts of the stream or outside of it, and where memory is still as in \<open>mq\<close>.
\<close>

definition traversing ::
  "fat_globals \<Rightarrow> u64 \<Rightarrow> nat set \<Rightarrow> memory \<Rightarrow> nat set \<Rightarrow> memory \<Rightarrow> nat set \<Rightarrow> u32 \<Rightarrow> stream \<Rightarrow> 'a io_state_scheme \<Rightarrow> bool" where
  "traversing g ps X mx Q mq old c w s \<longleftrightarrow> writer_at g ps old c w s \<and> extent_count (alloc s) < 2 ^ 31
     \<and> outside_stream g ps old c (alloc s) X \<and> agree_on X mx (mem s)
     \<and> (\<exists>Y. outside_stream g ps old c (alloc s) Y \<and> Q \<subseteq> stable_bytes old w \<union> Y) \<and> agree_on Q mq (mem s)"

lemma traversingD:
  assumes "traversing g ps X mx Q mq old c w s"
  shows "writer_at g ps old c w s" "extent_count (alloc s) < 2 ^ 31" "outside_stream g ps old c (alloc s) X"
    "agree_on X mx (mem s)" "agree_on Q mq (mem s)"
  using assms unfolding traversing_def by simp_all

lemma traversing_extends:
  fixes s s' :: "'a io_state_scheme"
  assumes O: "traversing g ps X mx Q mq old c w s" and E: "extends g ps D old c w s old' c' w' s'" and D: "D \<inter> Q = {}"
  shows "traversing g ps X mx Q mq old' c' w' s'" and "Q \<inter> new_bytes old w old' w' = {}"
proof -
  note E' = extendsD [OF E] and O' = traversingD [OF O]
  obtain Y where Y: "outside_stream g ps old c (alloc s) Y" "Q \<subseteq> stable_bytes old w \<union> Y"
    using O unfolding traversing_def by blast
  have "agree_on Y (mem s) (mem s')" by (rule E'(6) [OF Y(1)])
  then have "agree_on Q (mem s) (mem s')" using E'(3) Y(2) D unfolding agree_on_def by blast
  then have q: "agree_on Q mq (mem s')" using O'(5) agree_on_trans by blast
  have x: "agree_on X mx (mem s')" using O'(4) E'(6) [OF O'(3)] agree_on_trans by blast
  have cnt: "extent_count (alloc s') < 2 ^ 31" using O'(2) E'(4) by (simp add: same_setup_def extent_count_def)
  have "Q \<subseteq> stable_bytes old' w' \<union> Y" using Y(2) E'(2) by blast
  then show "traversing g ps X mx Q mq old' c' w' s'"
    using E'(1) cnt E'(5) [OF O'(3)] x E'(5) [OF Y(1)] q unfolding traversing_def by blast
  show "Q \<inter> new_bytes old w old' w' = {}"
    using writer_outside [OF E'(1) E'(5) [OF Y(1)]] Y(2) unfolding new_bytes_def by blast
qed

abbreviation reading :: "nat set \<Rightarrow> memory \<Rightarrow> 'a io_state_scheme set" where
  "reading Q mq \<equiv> {r. agree_on Q mq (mem r)}"

subsection \<open>Names\<close>

lemma cells_apart_nth:
  assumes "cells_apart n as" and "i < length as"
  shows "{as ! i..<as ! i + n} \<inter> cells n (take i as) = {}"
proof -
  have "as = take i as @ as ! i # drop (Suc i) as" using assms(2) by (rule id_take_nth_drop)
  then have "cells_apart n (take i as @ as ! i # drop (Suc i) as)" using assms(1) by metis
  then show ?thesis by (auto simp: cells_def)
qed

lemma read_lfn_spec:
  fixes s :: "'a io_state_scheme"
  assumes "visible_ahead g ps (reading Q mq :: 'a io_state_scheme set) state (tl us)" "i \<le> length us" "i \<le> length as"
    and "agree_on Q mq (mem s)" and "\<forall>u \<in> set us. u \<noteq> 0 \<and> {u..<u + 32} \<subseteq> Q"
    and cells: "cells 26 as \<inter> Q = {}" "cells_apart 26 as"
  shows "\<exists>state' m. read_lfn g ps as i (first_or_null us) state s = Some (Inr (first_or_null (drop i us), state', s\<lparr>mem := m\<rparr>))
    \<and> visible_ahead g ps (reading Q mq :: 'a io_state_scheme set) state' (tl (drop i us))
    \<and> agree_on (- cells 26 (take i as)) (mem s) m
    \<and> (\<forall>j < i. name_at m (as ! j) (lfn_units mq (us ! (i - 1 - j))))"
  using assms(1-5)
proof (induction i arbitrary: us state s)
  case 0
  then show ?case by (auto simp: agree_on_def intro!: exI [of _ "mem s"])
next
  case (Suc i)
  obtain u us' where us: "us = u # us'" using Suc.prems(2) by (cases us) auto
  let ?a = "as ! i" and ?s1 = "s\<lparr>mem := lfn_cpy (mem s) (as ! i) u\<rparr>"
  have i: "i < length as" using Suc.prems(3) by simp
  have a: "{?a..<?a + 26} \<subseteq> cells 26 as" by (rule in_cells) (simp add: i)
  have u: "u \<noteq> 0" "{u..<u + 32} \<subseteq> Q" using Suc.prems(5) us by simp_all
  have "{u..<u + 32} \<inter> {?a..<?a + 26} = {}" using u(2) a cells(1) by blast
  from lfn_cpy_correct [OF this, of "mem s"]
  have L: "load_array load_u16 2 (mem ?s1) ?a 13 = lfn_units (mem s) u" "agree_on (- {?a..<?a + 26}) (mem s) (mem ?s1)"
    by (simp_all add: LFN_ENTRY_LENGTH_def agree_on_def)
  have units: "lfn_units (mem s) u = lfn_units mq u"
  proof (rule load_entry_cong(2))
    fix k :: nat assume "k < 32"
    then have "u + k \<in> Q" using u(2) by (auto simp: subset_eq)
    then show "mem s (u + k) = mq (u + k)" using Suc.prems(4) by (simp add: agree_on_def)
  qed
  have "agree_on Q (mem s) (mem ?s1)" using a cells(1) by (intro agree_on_mono [OF L(2)]) blast
  then have q: "agree_on Q mq (mem ?s1)" using Suc.prems(4) agree_on_trans by blast
  obtain state1 where n: "next_dentry g ps state ?s1 = Some (Inr (first_or_null us', state1))"
    "visible_ahead g ps (reading Q mq :: 'a io_state_scheme set) state1 (tl us')"
    using next_visible [OF Suc.prems(1)] q us by auto
  from Suc.IH [OF n(2) _ _ q] Suc.prems(2,3,5) obtain state' m where IH:
    "read_lfn g ps as i (first_or_null us') state1 ?s1 = Some (Inr (first_or_null (drop i us'), state', ?s1\<lparr>mem := m\<rparr>))"
    "visible_ahead g ps (reading Q mq :: 'a io_state_scheme set) state' (tl (drop i us'))"
    "agree_on (- cells 26 (take i as)) (mem ?s1) m"
    "\<forall>j < i. name_at m (as ! j) (lfn_units mq (us' ! (i - 1 - j)))"
    by (auto simp: us)
  have "read_lfn g ps as (Suc i) (first_or_null us) state s = Some (Inr (first_or_null (drop (Suc i) us), state', s\<lparr>mem := m\<rparr>))"
    using u(1) n(1) IH(1) by (simp add: us Let_def)
  moreover have "agree_on (- cells 26 (take (Suc i) as)) (mem s) m"
    using L(2) IH(3) i by (auto simp: agree_on_def take_Suc_conv_app_nth)
  moreover have "name_at m (as ! j) (lfn_units mq (us ! (Suc i - 1 - j)))" if "j < Suc i" for j
  proof (cases "j = i")
    case True
    have "agree_on {?a..<?a + 26} (mem ?s1) m"
      using cells_apart_nth [OF cells(2) i] by (intro agree_on_mono [OF IH(3)]) blast
    moreover have "length (lfn_units mq u) = 13" by (simp add: lfn_units_def)
    moreover from this have "name_at (mem ?s1) ?a (lfn_units mq u)" using L(1) by (simp add: name_at_def units)
    ultimately show ?thesis using True us name_at_cong by simp
  next
    case False
    then have "Suc i - 1 - j = Suc (i - 1 - j)" using that by linarith
    then show ?thesis using IH(4) False that us by simp
  qed
  ultimately show ?case using IH(2) us by auto
qed

lemma length_entry_names: "us \<in> set (entry_names xs) \<Longrightarrow> length us \<le> 13"
  using read_short_name_spec [of 0 32]
  by (auto simp: entry_names_def lfn_units_def LFN_ENTRY_LENGTH_def split: if_splits)

lemma slot_agrees:
  assumes "agree_on Q mq m" and "{v..<v + 32} \<subseteq> Q" and "i < 32"
  shows "m (v + i) = mq (v + i)"
proof -
  have "v + i \<in> Q" using assms(2,3) by (auto simp: subset_eq)
  then show ?thesis using assms(1) by (simp add: agree_on_def)
qed

text \<open>The part of the loop body that stores the name.\<close>

definition store_name ::
  "fat_globals \<Rightarrow> u64 \<Rightarrow> nat \<Rightarrow> cluster_read_state \<Rightarrow> stream \<Rightarrow> 'a io_state_scheme
    \<Rightarrow> (nat \<times> cluster_read_state \<times> stream \<times> 'a io_state_scheme) run" where
  "store_name g ps current_dentry state w1 s1 =
     (if is_lfn (mem s1) current_dentry
      then (let lfn_entry_count = unat (lfn_entry_sequence_no (mem s1) current_dentry)
            in bind_run (Some (reserve_name g ps lfn_entry_count w1 s1)) (\<lambda>(name, w2, s2).
               bind_run (read_lfn g ps name lfn_entry_count current_dentry state s2)
                 (\<lambda>(current, state1, s3). Some (Inr (current, state1, w2, s3)))))
      else bind_run (Some (reserve_name g ps 1 w1 s1)) (\<lambda>(name, w2, s2).
             Some (Inr (current_dentry, state, w2,
               s2\<lparr>mem := read_short_name (mem s2) current_dentry (name ! 0)\<rparr>))))"

lemma read_dentry_store_name:
  "read_dentry g ps current_dentry state w s =
     bind_run (Some (reserve_cell g ps 32 w s)) (\<lambda>(dentry, w1, s1).
     bind_run (store_name g ps current_dentry state w1 s1) (\<lambda>(current, state1, w2, s2).
          if current = 0 then Some (Inl Null_Pointer)
          else Some (Inr (current, state1, w2, s2\<lparr>mem := mem_copy (mem s2) dentry current 32\<rparr>))))"
  unfolding read_dentry_def store_name_def reserve_as_cell sizeof_fat_dentry_def by simp

lemma store_name_spec:
  fixes s :: "'a io_state_scheme"
  assumes O: "traversing g ps X mx Q mq old c w s" and ps: "40 \<le> unat ps"
    and vis: "visible_ahead g ps (reading Q mq :: 'a io_state_scheme set) state (tl vs)"
    and vs: "vs \<noteq> []" "\<forall>v \<in> set vs. v \<noteq> 0 \<and> {v..<v + 32} \<subseteq> Q"
    and k: "k = name_slots (load_bytes mq (hd vs) 32)" "k < length vs"
  shows "store_name g ps (hd vs) state w s = Some (Inl Fs_Too_Small) \<or>
    (\<exists>state' w' s' old' c' as m. store_name g ps (hd vs) state w s = Some (Inr (vs ! k, state', w', s'\<lparr>mem := m\<rparr>))
      \<and> visible_ahead g ps (reading Q mq :: 'a io_state_scheme set) state' (drop k (tl vs))
      \<and> finished g ps 26 old c w s as old' c' w' s' \<and> agree_on (- cells 26 as) (mem s') m
      \<and> list_all2 (name_at m) as (entry_names (map (\<lambda>p. load_bytes mq p 32) vs)))"
proof -
  let ?v = "hd vs" and ?L = "\<lambda>p. load_bytes mq p 32"
  have v: "?v \<noteq> 0" "{?v..<?v + 32} \<subseteq> Q" using vs by simp_all
  have W: "writer_at g ps old c w s" and q: "agree_on Q mq (mem s)" using traversingD [OF O] by simp_all
  have fields: "is_lfn (mem s) ?v = is_lfn (image (?L ?v)) 0"
    "lfn_entry_sequence_no (mem s) ?v = lfn_entry_sequence_no (image (?L ?v)) 0"
    using entry_cong(1,4) [of "mem s" ?v mq ?v, OF slot_agrees [OF q v(2)]] entry_image(1,4) [of mq ?v] by simp_all
  have hd: "hd (map ?L vs) = ?L ?v" using vs(1) by (rule hd_map)
  have len: "34 \<le> unat ps" using ps by simp
  show ?thesis
  proof (cases "is_lfn (mem s) ?v")
    case True
    then have kk: "unat (lfn_entry_sequence_no (mem s) ?v) = k" using k(1) fields by (simp add: name_slots_def)
    have "k < 256" using kk unat_u8_bound by metis
    then have "k < 2 ^ 32" by simp
    from reserve_name_spec [OF W len this] show ?thesis
    proof (elim disjE exE conjE)
      fix as w' s' old' c'
      assume r: "reserve_name g ps k w s = Inr (as, w', s')" "length as = k" "finished g ps 26 old c w s as old' c' w' s'"
      note F = finishedD [OF r(3), simplified]
      have O': "traversing g ps X mx Q mq old' c' w' s'" "Q \<inter> new_bytes old w old' w' = {}"
        using traversing_extends [OF O F(1)] by simp_all
      have "cells 26 as \<inter> Q = {}" using O'(2) F(2) by blast
      from read_lfn_spec [OF vis _ _ traversingD(5) [OF O'(1)] vs(2) this F(3), of k] k(2) r(2)
      obtain state' m where L: "read_lfn g ps as k (first_or_null vs) state s' = Some (Inr (first_or_null (drop k vs), state', s'\<lparr>mem := m\<rparr>))"
        "visible_ahead g ps (reading Q mq :: 'a io_state_scheme set) state' (tl (drop k vs))"
        "agree_on (- cells 26 as) (mem s') m" "\<forall>j < k. name_at m (as ! j) (lfn_units mq (vs ! (k - 1 - j)))"
        by auto
      have "first_or_null vs = ?v" using vs(1) by (cases vs) simp_all
      moreover have "first_or_null (drop k vs) = vs ! k" using k(2) by (metis Cons_nth_drop_Suc first_or_null_simps(2))
      moreover have "tl (drop k vs) = drop k (tl vs)" by (metis drop_tl tl_drop)
      moreover have "list_all2 (name_at m) as (entry_names (map ?L vs))"
      proof -
        have "entry_names (map ?L vs) = rev (map (\<lambda>p. lfn_units mq p) (take k vs))"
          using True k(1) fields(1) entry_image(6) [of mq]
          by (simp add: entry_names_def hd take_map o_def)
        then show ?thesis
          using L(4) k(2) r(2) by (simp add: list_all2_conv_all_nth rev_nth)
      qed
      moreover have "store_name g ps ?v state w s = bind_run (read_lfn g ps as k ?v state s')
          (\<lambda>(current, state1, s3). Some (Inr (current, state1, w', s3)))"
        using True r(1) by (simp add: store_name_def kk)
      ultimately show ?thesis using L(1-3) r(3) by (intro disjI2 exI conjI) auto
    qed (use True in \<open>simp add: store_name_def kk\<close>)
  next
    case False
    then have k0: "k = 0" using k(1) fields by (simp add: name_slots_def)
    have "(1 :: nat) < 2 ^ 32" by simp
    from reserve_name_spec [OF W len this] show ?thesis
    proof (elim disjE exE conjE)
      fix as w' s' old' c'
      assume r: "reserve_name g ps 1 w s = Inr (as, w', s')" "length as = 1" "finished g ps 26 old c w s as old' c' w' s'"
      obtain a where a: "as = [a]" using r(2) by (cases as) auto
      note F = finishedD [OF r(3), simplified]
      have O': "traversing g ps X mx Q mq old' c' w' s'" "Q \<inter> new_bytes old w old' w' = {}"
        using traversing_extends [OF O F(1)] by simp_all
      have "{a..<a + 26} \<subseteq> new_bytes old w old' w'" using F(2) by (simp add: a)
      then have "{?v..<?v + 32} \<inter> {a..<a + 26} = {}" using O'(2) v(2) by blast
      from read_short_name_spec [OF this, of "mem s'"]
      have S: "read_short_name (mem s') ?v a = store_array store_u16 2 (mem s') a (short_name_spec (mem s') ?v @ [0])"
        "\<forall>x. x \<notin> {a..<a + 26} \<longrightarrow> read_short_name (mem s') ?v a x = mem s' x"
        by blast+
      from S(2) have frame: "agree_on (- cells 26 as) (mem s') (read_short_name (mem s') ?v a)"
        unfolding a by (auto simp: agree_on_def)
      have "short_name_spec (mem s') ?v = short_name_spec (image (?L ?v)) 0"
        using entry_cong(5) [of "mem s'" ?v mq ?v, OF slot_agrees [OF traversingD(5) [OF O'(1)] v(2)]]
          entry_image(5) [of mq ?v] by simp
      then have "entry_names (map ?L vs) = [short_name_spec (mem s') ?v @ [0]]"
        using False fields(1) by (simp add: entry_names_def hd)
      then have "list_all2 (name_at (read_short_name (mem s') ?v a)) as (entry_names (map ?L vs))"
        unfolding S(1) name_at_def a by (simp only: list_all2_Cons list_all2_Nil u16.load_store_array)
      moreover have "store_name g ps ?v state w s =
          Some (Inr (vs ! k, state, w', s'\<lparr>mem := read_short_name (mem s') ?v a\<rparr>))"
        using False r(1) vs(1) by (simp add: store_name_def a k0 hd_conv_nth)
      ultimately show ?thesis using vis r(3) frame by (intro disjI2 exI conjI) (auto simp: k0)
    qed (use False in \<open>simp add: store_name_def\<close>)
  qed
qed

lemma read_dentry_spec:
  fixes s :: "'a io_state_scheme"
  assumes O: "traversing g ps X mx Q mq old c w s" and ps: "40 \<le> unat ps"
    and vis: "visible_ahead g ps (reading Q mq :: 'a io_state_scheme set) state (tl vs)"
    and vs: "vs \<noteq> []" "\<forall>v \<in> set vs. v \<noteq> 0 \<and> {v..<v + 32} \<subseteq> Q"
    and k: "k = name_slots (load_bytes mq (hd vs) 32)" "k < length vs"
  shows "read_dentry g ps (hd vs) state w s = Some (Inl Fs_Too_Small) \<or>
    (\<exists>state' w' s' old' c' a st1 as. read_dentry g ps (hd vs) state w s = Some (Inr (vs ! k, state', w', s'))
      \<and> visible_ahead g ps (reading Q mq :: 'a io_state_scheme set) state' (drop k (tl vs))
      \<and> extends g ps {} old c w s old' c' w' s'
      \<and> segment_cells g ps (later old w old' w' s') 32 w [a] st1
      \<and> segment_cells g ps (later old w old' w' s') 26 st1 as w'
      \<and> (\<forall>r \<in> later old w old' w' s'. load_bytes (mem r) a 32 = load_bytes mq (vs ! k) 32
           \<and> list_all2 (name_at (mem r)) as (entry_names (map (\<lambda>p. load_bytes mq p 32) vs))))"
proof -
  let ?names = "entry_names (map (\<lambda>p. load_bytes mq p 32) vs)" and ?c = "vs ! k"
  have W: "writer_at g ps old c w s" using traversingD [OF O] by simp
  have "unat (32 :: u64) + 8 \<le> unat ps" using ps by simp
  from reserve_cell_spec [OF W this] show ?thesis
  proof (elim disjE exE conjE)
    fix p w1 s1 old1 c1
    assume r1: "reserve_cell g ps 32 w s = Inr (p, w1, s1)" "finished g ps 32 old c w s [p] old1 c1 w1 s1"
    note F1 = finishedD [OF r1(2), simplified]
    have O1: "traversing g ps X mx Q mq old1 c1 w1 s1" using traversing_extends [OF O F1(1)] by simp
    from store_name_spec [OF O1 ps vis vs k] show ?thesis
    proof (elim disjE exE conjE)
      fix state' w2 s2 old2 c2 as m
      assume r2: "store_name g ps (hd vs) state w1 s1 = Some (Inr (?c, state', w2, s2\<lparr>mem := m\<rparr>))"
        "visible_ahead g ps (reading Q mq :: 'a io_state_scheme set) state' (drop k (tl vs))"
        "finished g ps 26 old1 c1 w1 s1 as old2 c2 w2 s2" "agree_on (- cells 26 as) (mem s2) m"
        "list_all2 (name_at m) as ?names"
      note F2 = finishedD [OF r2(3), simplified]
      have sub: "stable_bytes old w \<subseteq> stable_bytes old1 w1" "stable_bytes old1 w1 \<subseteq> stable_bytes old2 w2"
        using extendsD(2) [OF F1(1)] extendsD(2) [OF F2(1)] by simp_all
      have pc: "{p..<p + 32} \<subseteq> new_bytes old w old1 w1" "cells 26 as \<subseteq> new_bytes old1 w1 old2 w2"
        using F1(2) F2(2) by simp_all
      define mf where "mf = mem_copy m p ?c 32"
      have mf: "agree_on (- {p..<p + 32}) m mf" by (auto simp: agree_on_def mf_def intro!: mem_copy_frame [symmetric])
      let ?s' = "s2\<lparr>mem := mf\<rparr>" and ?B = "cells 26 as \<union> {p..<p + 32}"
      have cn: "?c \<noteq> 0" "{?c..<?c + 32} \<subseteq> Q" using vs(2) k(2) by simp_all
      have run: "read_dentry g ps (hd vs) state w s = Some (Inr (?c, state', w2, ?s'))"
        using r1(1) r2(1) cn(1) by (simp add: read_dentry_store_name mf_def)
      have mB: "agree_on (- ?B) (mem s2) mf" using r2(4) mf unfolding agree_on_def by auto
      have E: "extends g ps {} old c w s old2 c2 w2 s2" by (rule extends_trans [OF F1(1) F2(1)]) simp
      have "?B \<subseteq> stable_bytes old2 w2" "?B \<inter> (stable_bytes old w - {}) = {}"
        using pc sub unfolding new_bytes_def by blast+
      from extends_fill [OF E this mB] have E': "extends g ps {} old c w s old2 c2 w2 ?s'" .
      let ?R = "later old w old2 w2 ?s'"
      have new: "new_bytes old w old1 w1 \<subseteq> new_bytes old w old2 w2" "new_bytes old1 w1 old2 w2 \<subseteq> new_bytes old w old2 w2"
        using sub unfolding new_bytes_def by blast+
      have seg1: "segment_cells g ps ?R 32 w [p] w1"
      proof (rule finished_cells [OF r1(2)])
        show "agree_on (new_bytes old w old1 w1 - cells (unat (32 :: u64)) [p]) (mem s1) (mem ?s')"
        proof -
          have "agree_on (new_bytes old w old1 w1 - {p..<p + 32}) (mem s1) (mem s2)"
            by (rule agree_on_mono [OF extendsD(3) [OF F2(1)]]) (auto simp: new_bytes_def)
          moreover have "agree_on (new_bytes old w old1 w1 - {p..<p + 32}) (mem s2) mf"
            using pc(2) by (intro agree_on_mono [OF mB]) (auto simp: new_bytes_def)
          ultimately have "agree_on (new_bytes old w old1 w1 - {p..<p + 32}) (mem s1) mf" by (rule agree_on_trans)
          then show ?thesis by simp
        qed
        show "agree_on (new_bytes old w old1 w1) (mem ?s') (mem r)" if "r \<in> ?R" for r
          using laterD [OF that new(1)] .
      qed
      have seg2: "segment_cells g ps ?R 26 w1 as w2"
      proof (rule finished_cells [OF r2(3)])
        show "agree_on (new_bytes old1 w1 old2 w2 - cells (unat (26 :: u64)) as) (mem s2) (mem ?s')"
          using pc(1) by (simp, intro agree_on_mono [OF mB]) (auto simp: new_bytes_def)
        show "agree_on (new_bytes old1 w1 old2 w2) (mem ?s') (mem r)" if "r \<in> ?R" for r
          using laterD [OF that new(2)] .
      qed
      have O2: "traversing g ps X mx Q mq old2 c2 w2 s2" "Q \<inter> new_bytes old1 w1 old2 w2 = {}"
        using traversing_extends [OF O1 F2(1)] by simp_all
      have content: "load_bytes mf p 32 = load_bytes mq ?c 32"
      proof -
        have "agree_on Q (mem s2) m" using O2(2) pc(2) by (intro agree_on_mono [OF r2(4)]) blast
        then have "agree_on Q mq m" using traversingD(5) [OF O2(1)] agree_on_trans by blast
        then have "load_bytes mq ?c 32 = load_bytes m ?c 32" using cn(2) by (rule agree_on_load_bytes)
        then show ?thesis by (simp add: mf_def load_bytes_copy)
      qed
      have "load_bytes (mem r) p 32 = load_bytes mq ?c 32" if "r \<in> ?R" for r
      proof -
        have "agree_on {p..<p + 32} (mem ?s') (mem r)" using pc(1) new(1) by (intro laterD [OF that]) blast
        from agree_on_load_bytes [OF this order_refl] show ?thesis using content by simp
      qed
      moreover have "list_all2 (name_at (mem r)) as ?names" if r: "r \<in> ?R" for r
      proof (rule list.rel_mono_strong [OF r2(5)])
        fix a us assume a: "a \<in> set as" "us \<in> set ?names" "name_at m a us"
        have ac: "{a..<a + 26} \<subseteq> cells 26 as" using a(1) by (rule in_cells)
        then have "{a..<a + 26} \<inter> {p..<p + 32} = {}" using pc unfolding new_bytes_def by blast
        then have "agree_on {a..<a + 26} m mf" by (intro agree_on_mono [OF mf]) blast
        moreover have "agree_on {a..<a + 26} mf (mem r)"
          using laterD [OF r, of "{a..<a + 26}"] ac pc(2) new(2) by simp
        ultimately have "agree_on {a..<a + 26} m (mem r)" by (rule agree_on_trans)
        then show "name_at (mem r) a us" using name_at_cong [OF _ length_entry_names [OF a(2)]] a(3) by blast
      qed
      ultimately show ?thesis using run r2(2) E' seg1 seg2
        by (intro disjI2 exI [of _ state'] exI [of _ w2] exI [of _ ?s'] exI [of _ old2] exI [of _ c2] exI [of _ p]
            exI [of _ w1] exI [of _ as]) simp
    qed (simp add: read_dentry_store_name r1(1))
  qed (simp add: read_dentry_store_name)
qed

end
