(* ===== verification/Ext4_Layout.thy ===== *)
theory Ext4_Layout
  imports Ext4_Super Stream_Archiver
begin

unbundle bit_operations_syntax

section \<open>The structs of ext4_extent.h, ext4_inode.h, ext4_bg.h and ext4.h in memory\<close>

text \<open>
  The on-disk structs as records, with the functions that store them at an address and load
  them back at the offsets the compiler gives their fields. Fields that stay zero everywhere
  are left out of the records and written as zero bytes.
\<close>

subsection \<open>Extent trees\<close>

definition EH_MAGIC :: u16 where "EH_MAGIC = 0xF30A"

record ext4_extent_header =
  eh_magic :: u16
  eh_entries :: u16
  eh_max :: u16
  eh_depth :: u16
  eh_generation :: u32

record ext4_extent =
  ee_block :: u32
  ee_len :: u16
  ee_start_hi :: u16
  ee_start_lo :: u32

record ext4_extent_idx =
  ei_block :: u32
  ei_leaf_lo :: u32
  ei_leaf_hi :: u16
  ei_unused :: u16

definition load_header :: "memory \<Rightarrow> nat \<Rightarrow> ext4_extent_header" where
  "load_header m a = \<lparr>eh_magic = load_u16 m a, eh_entries = load_u16 m (a + 2), eh_max = load_u16 m (a + 4),
     eh_depth = load_u16 m (a + 6), eh_generation = load_u32 m (a + 8)\<rparr>"

definition store_header :: "memory \<Rightarrow> nat \<Rightarrow> ext4_extent_header \<Rightarrow> memory" where
  "store_header m a h = store_u32 (store_u16 (store_u16 (store_u16 (store_u16 m a (eh_magic h))
     (a + 2) (eh_entries h)) (a + 4) (eh_max h)) (a + 6) (eh_depth h)) (a + 8) (eh_generation h)"

definition load_extent :: "memory \<Rightarrow> nat \<Rightarrow> ext4_extent" where
  "load_extent m a = \<lparr>ee_block = load_u32 m a, ee_len = load_u16 m (a + 4), ee_start_hi = load_u16 m (a + 6),
     ee_start_lo = load_u32 m (a + 8)\<rparr>"

definition store_extent :: "memory \<Rightarrow> nat \<Rightarrow> ext4_extent \<Rightarrow> memory" where
  "store_extent m a e = store_u32 (store_u16 (store_u16 (store_u32 m a (ee_block e))
     (a + 4) (ee_len e)) (a + 6) (ee_start_hi e)) (a + 8) (ee_start_lo e)"

definition load_idx :: "memory \<Rightarrow> nat \<Rightarrow> ext4_extent_idx" where
  "load_idx m a = \<lparr>ei_block = load_u32 m a, ei_leaf_lo = load_u32 m (a + 4), ei_leaf_hi = load_u16 m (a + 8),
     ei_unused = load_u16 m (a + 10)\<rparr>"

definition store_idx :: "memory \<Rightarrow> nat \<Rightarrow> ext4_extent_idx \<Rightarrow> memory" where
  "store_idx m a i = store_u16 (store_u16 (store_u32 (store_u32 m a (ei_block i))
     (a + 4) (ei_leaf_lo i)) (a + 8) (ei_leaf_hi i)) (a + 10) (ei_unused i)"

interpretation header_codec: codec 12 load_header store_header
proof
  show "load_header (store_header m a v) a = v" for m a v
    by (simp add: load_header_def store_header_def codec_simps)
  show "x \<notin> {a..<a + 12} \<Longrightarrow> store_header m a v x = m x" for m a v x
    by (auto simp: store_header_def u32.store_frame u16.store_frame)
  show "(\<And>x. x \<in> {a..<a + 12} \<Longrightarrow> m x = m' x) \<Longrightarrow> load_header m a = load_header m' a" for m a m'
    unfolding load_header_def
    using u16.load_cong [of a m m'] u16.load_cong [of "a + 2" m m'] u16.load_cong [of "a + 4" m m'] u16.load_cong [of "a + 6" m m'] u32.load_cong [of "a + 8" m m']
    by simp
qed

interpretation extent_codec: codec 12 load_extent store_extent
proof
  show "load_extent (store_extent m a v) a = v" for m a v
    by (simp add: load_extent_def store_extent_def codec_simps)
  show "x \<notin> {a..<a + 12} \<Longrightarrow> store_extent m a v x = m x" for m a v x
    by (auto simp: store_extent_def u32.store_frame u16.store_frame)
  show "(\<And>x. x \<in> {a..<a + 12} \<Longrightarrow> m x = m' x) \<Longrightarrow> load_extent m a = load_extent m' a" for m a m'
    unfolding load_extent_def
    using u32.load_cong [of a m m'] u16.load_cong [of "a + 4" m m'] u16.load_cong [of "a + 6" m m'] u32.load_cong [of "a + 8" m m']
    by simp
qed

interpretation idx_codec: codec 12 load_idx store_idx
proof
  show "load_idx (store_idx m a v) a = v" for m a v
    by (simp add: load_idx_def store_idx_def codec_simps)
  show "x \<notin> {a..<a + 12} \<Longrightarrow> store_idx m a v x = m x" for m a v x
    by (auto simp: store_idx_def u32.store_frame u16.store_frame)
  show "(\<And>x. x \<in> {a..<a + 12} \<Longrightarrow> m x = m' x) \<Longrightarrow> load_idx m a = load_idx m' a" for m a m'
    unfolding load_idx_def
    using u32.load_cong [of a m m'] u32.load_cong [of "a + 4" m m'] u16.load_cong [of "a + 8" m m'] u16.load_cong [of "a + 10" m m']
    by simp
qed

subsection \<open>Group descriptors\<close>

definition sizeof_group_desc :: nat where "sizeof_group_desc = 64"

record ext4_group_desc =
  bg_block_bitmap_lo :: u32
  bg_inode_bitmap_lo :: u32
  bg_inode_table_lo :: u32
  bg_free_blocks_count_lo :: u16
  bg_free_inodes_count_lo :: u16
  bg_used_dirs_count_lo :: u16
  bg_block_bitmap_hi :: u32
  bg_inode_bitmap_hi :: u32
  bg_inode_table_hi :: u32
  bg_free_blocks_count_hi :: u16
  bg_free_inodes_count_hi :: u16
  bg_used_dirs_count_hi :: u16

definition store_group_desc :: "memory \<Rightarrow> nat \<Rightarrow> ext4_group_desc \<Rightarrow> memory" where
  "store_group_desc m a d =
     (let m1 = store_u32 (mem_fill m a 0 64) a (bg_block_bitmap_lo d);
          m2 = store_u32 m1 (a + 4) (bg_inode_bitmap_lo d);
          m3 = store_u32 m2 (a + 8) (bg_inode_table_lo d);
          m4 = store_u16 m3 (a + 12) (bg_free_blocks_count_lo d);
          m5 = store_u16 m4 (a + 14) (bg_free_inodes_count_lo d);
          m6 = store_u16 m5 (a + 16) (bg_used_dirs_count_lo d);
          m7 = store_u32 m6 (a + 32) (bg_block_bitmap_hi d);
          m8 = store_u32 m7 (a + 36) (bg_inode_bitmap_hi d);
          m9 = store_u32 m8 (a + 40) (bg_inode_table_hi d);
          m10 = store_u16 m9 (a + 44) (bg_free_blocks_count_hi d);
          m11 = store_u16 m10 (a + 46) (bg_free_inodes_count_hi d);
          m12 = store_u16 m11 (a + 48) (bg_used_dirs_count_hi d)
      in m12)"

definition load_group_desc :: "memory \<Rightarrow> nat \<Rightarrow> ext4_group_desc" where
  "load_group_desc m a = \<lparr>bg_block_bitmap_lo = load_u32 m a, bg_inode_bitmap_lo = load_u32 m (a + 4),
     bg_inode_table_lo = load_u32 m (a + 8), bg_free_blocks_count_lo = load_u16 m (a + 12),
     bg_free_inodes_count_lo = load_u16 m (a + 14), bg_used_dirs_count_lo = load_u16 m (a + 16),
     bg_block_bitmap_hi = load_u32 m (a + 32), bg_inode_bitmap_hi = load_u32 m (a + 36),
     bg_inode_table_hi = load_u32 m (a + 40), bg_free_blocks_count_hi = load_u16 m (a + 44),
     bg_free_inodes_count_hi = load_u16 m (a + 46), bg_used_dirs_count_hi = load_u16 m (a + 48)\<rparr>"

subsection \<open>Inodes\<close>

definition sizeof_inode :: nat where "sizeof_inode = 160"
definition S_IFDIR :: u16 where "S_IFDIR = 0x4000"
definition S_IFREG :: u16 where "S_IFREG = 0x8000"

record ext4_inode =
  i_mode :: u16
  i_uid :: u16
  i_size_lo :: u32
  i_atime :: u32
  i_ctime :: u32
  i_mtime :: u32
  i_gid :: u16
  i_links_count :: u16
  i_blocks_lo :: u32
  i_flags :: u32
  ext_header :: ext4_extent_header
  i_size_high :: u32
  l_i_blocks_high :: u16
  l_i_uid_high :: u16
  l_i_gid_high :: u16
  i_crtime :: u32

definition store_inode :: "memory \<Rightarrow> nat \<Rightarrow> ext4_inode \<Rightarrow> memory" where
  "store_inode m a i =
     (let m1 = store_u16 (mem_fill m a 0 160) a (i_mode i);
          m2 = store_u16 m1 (a + 2) (i_uid i);
          m3 = store_u32 m2 (a + 4) (i_size_lo i);
          m4 = store_u32 m3 (a + 8) (i_atime i);
          m5 = store_u32 m4 (a + 12) (i_ctime i);
          m6 = store_u32 m5 (a + 16) (i_mtime i);
          m7 = store_u16 m6 (a + 24) (i_gid i);
          m8 = store_u16 m7 (a + 26) (i_links_count i);
          m9 = store_u32 m8 (a + 28) (i_blocks_lo i);
          m10 = store_u32 m9 (a + 32) (i_flags i);
          m11 = store_header m10 (a + 40) (ext_header i);
          m12 = store_u32 m11 (a + 108) (i_size_high i);
          m13 = store_u16 m12 (a + 116) (l_i_blocks_high i);
          m14 = store_u16 m13 (a + 120) (l_i_uid_high i);
          m15 = store_u16 m14 (a + 122) (l_i_gid_high i);
          m16 = store_u32 m15 (a + 144) (i_crtime i)
      in m16)"

definition load_inode :: "memory \<Rightarrow> nat \<Rightarrow> ext4_inode" where
  "load_inode m a = \<lparr>i_mode = load_u16 m a, i_uid = load_u16 m (a + 2), i_size_lo = load_u32 m (a + 4),
     i_atime = load_u32 m (a + 8), i_ctime = load_u32 m (a + 12), i_mtime = load_u32 m (a + 16),
     i_gid = load_u16 m (a + 24), i_links_count = load_u16 m (a + 26), i_blocks_lo = load_u32 m (a + 28),
     i_flags = load_u32 m (a + 32), ext_header = load_header m (a + 40), i_size_high = load_u32 m (a + 108),
     l_i_blocks_high = load_u16 m (a + 116), l_i_uid_high = load_u16 m (a + 120),
     l_i_gid_high = load_u16 m (a + 122), i_crtime = load_u32 m (a + 144)\<rparr>"

subsection \<open>The superblock\<close>

definition sizeof_super_block :: nat where "sizeof_super_block = 1024"

definition store_super_block :: "memory \<Rightarrow> nat \<Rightarrow> ext4_super_block \<Rightarrow> memory" where
  "store_super_block m a b =
     (let m1 = store_u32 (mem_fill m a 0 1024) a (s_inodes_count b);
          m2 = store_u32 m1 (a + 4) (s_blocks_count_lo b);
          m3 = store_u32 m2 (a + 12) (s_free_blocks_count_lo b);
          m4 = store_u32 m3 (a + 16) (s_free_inodes_count b);
          m5 = store_u32 m4 (a + 20) (s_first_data_block b);
          m6 = store_u32 m5 (a + 24) (s_log_block_size b);
          m7 = store_u32 m6 (a + 28) (s_log_cluster_size b);
          m8 = store_u32 m7 (a + 32) (s_blocks_per_group b);
          m9 = store_u32 m8 (a + 36) (s_clusters_per_group b);
          m10 = store_u32 m9 (a + 40) (s_inodes_per_group b);
          m11 = store_u16 m10 (a + 54) (s_max_mnt_count b);
          m12 = store_u16 m11 (a + 56) (s_magic b);
          m13 = store_u16 m12 (a + 58) (s_state b);
          m14 = store_u16 m13 (a + 60) (s_errors b);
          m15 = store_u32 m14 (a + 76) (s_rev_level b);
          m16 = store_u32 m15 (a + 84) (s_first_ino b);
          m17 = store_u16 m16 (a + 88) (s_inode_size b);
          m18 = store_u16 m17 (a + 90) (s_block_group_nr b);
          m19 = store_u32 m18 (a + 92) (s_feature_compat b);
          m20 = store_u32 m19 (a + 96) (s_feature_incompat b);
          m21 = store_bytes m20 (a + 104) (s_uuid b);
          m22 = store_bytes m21 (a + 120) (s_volume_name b);
          m23 = store_u16 m22 (a + 206) (s_reserved_gdt_blocks b);
          m24 = store_u16 m23 (a + 254) (s_desc_size b);
          m25 = store_u32 m24 (a + 264) (s_mkfs_time b);
          m26 = store_u32 m25 (a + 336) (s_blocks_count_hi b);
          m27 = store_u32 m26 (a + 344) (s_free_blocks_count_hi b);
          m28 = store_u32 m27 (a + 588) (s_backup_bg0 b);
          m29 = store_u32 m28 (a + 592) (s_backup_bg1 b)
      in m29)"

subsection \<open>Reading the structs back\<close>

text \<open>A header among fields of other widths.\<close>

lemma load_store_header_disjoint [codec_simps]:
  "b + 2 \<le> a \<or> a + 12 \<le> b \<Longrightarrow> load_u16 (store_header m a h) b = load_u16 m b"
  "b + 4 \<le> a \<or> a + 12 \<le> b \<Longrightarrow> load_u32 (store_header m a h) b = load_u32 m b"
  by (rule u16.load_cong, rule header_codec.store_frame, force)
    (rule u32.load_cong, rule header_codec.store_frame, force)

lemma load_header_stores [codec_simps]:
  "b + 12 \<le> a \<or> a + 2 \<le> b \<Longrightarrow> load_header (store_u16 m a v) b = load_header m b"
  "b + 12 \<le> a \<or> a + 4 \<le> b \<Longrightarrow> load_header (store_u32 m a w) b = load_header m b"
  by (rule header_codec.load_cong, rule u16.store_frame, force)
    (rule header_codec.load_cong, rule u32.store_frame, force)

lemmas struct_simps = codec_simps header_codec.load_store

interpretation group_desc_codec: codec 64 load_group_desc store_group_desc
proof
  show "load_group_desc (store_group_desc m a v) a = v" for m a v
    by (simp add: load_group_desc_def store_group_desc_def Let_def struct_simps)
  show "x \<notin> {a..<a + 64} \<Longrightarrow> store_group_desc m a v x = m x" for m a v x
    by (auto simp: store_group_desc_def Let_def u32.store_frame u16.store_frame mem_fill_frame)
  show "(\<And>x. x \<in> {a..<a + 64} \<Longrightarrow> m x = m' x) \<Longrightarrow> load_group_desc m a = load_group_desc m' a" for m a m'
    unfolding load_group_desc_def
    using u32.load_cong [of a m m']
      u32.load_cong [of "a + 4" m m']
      u32.load_cong [of "a + 8" m m']
      u16.load_cong [of "a + 12" m m']
      u16.load_cong [of "a + 14" m m']
      u16.load_cong [of "a + 16" m m']
      u32.load_cong [of "a + 32" m m']
      u32.load_cong [of "a + 36" m m']
      u32.load_cong [of "a + 40" m m']
      u16.load_cong [of "a + 44" m m']
      u16.load_cong [of "a + 46" m m']
      u16.load_cong [of "a + 48" m m']
    by simp
qed

interpretation inode_codec: codec 160 load_inode store_inode
proof
  show "load_inode (store_inode m a v) a = v" for m a v
    by (simp add: load_inode_def store_inode_def Let_def struct_simps)
  show "x \<notin> {a..<a + 160} \<Longrightarrow> store_inode m a v x = m x" for m a v x
    by (auto simp: store_inode_def Let_def u32.store_frame u16.store_frame header_codec.store_frame mem_fill_frame)
  show "(\<And>x. x \<in> {a..<a + 160} \<Longrightarrow> m x = m' x) \<Longrightarrow> load_inode m a = load_inode m' a" for m a m'
    unfolding load_inode_def
    using u16.load_cong [of a m m']
      u16.load_cong [of "a + 2" m m']
      u32.load_cong [of "a + 4" m m']
      u32.load_cong [of "a + 8" m m']
      u32.load_cong [of "a + 12" m m']
      u32.load_cong [of "a + 16" m m']
      u16.load_cong [of "a + 24" m m']
      u16.load_cong [of "a + 26" m m']
      u32.load_cong [of "a + 28" m m']
      u32.load_cong [of "a + 32" m m']
      header_codec.load_cong [of "a + 40" m m']
      u32.load_cong [of "a + 108" m m']
      u16.load_cong [of "a + 116" m m']
      u16.load_cong [of "a + 120" m m']
      u16.load_cong [of "a + 122" m m']
      u32.load_cong [of "a + 144" m m']
    by simp
qed

end
