(* ===== verification/Block_Groups.thy ===== *)
theory Block_Groups
  imports Ext4_Layout
begin

unbundle bit_operations_syntax

section \<open>ext4_bg.cpp: group descriptors, inodes and bitmaps on disk\<close>

text \<open>
  The state that building the ext4 side adds to the memory and the allocator: the superblock
  \<open>sb\<close>, the array \<open>group_descs\<close> and the counter \<open>first_free_inode_no\<close> of ext4_inode.cpp.
  The bitmaps and inode tables lie in the memory, at the blocks the descriptors name. An
  index behind the array \<open>group_descs\<close> is undefined behaviour, and so is a division by
  \<open>s_inodes_per_group\<close> or \<open>s_blocks_per_group\<close> when they are 0.
\<close>

record ext4_state = io_state +
  fs_sb :: ext4_super_block
  fs_group_descs :: "ext4_group_desc list"
  fs_first_free_inode_no :: u32

subsection \<open>Addresses\<close>

definition block_bitmap_block :: "ext4_group_desc \<Rightarrow> u64" where
  "block_bitmap_block d = from_lo_hi_32 (bg_block_bitmap_lo d) (bg_block_bitmap_hi d)"

definition inode_bitmap_block :: "ext4_group_desc \<Rightarrow> u64" where
  "inode_bitmap_block d = from_lo_hi_32 (bg_inode_bitmap_lo d) (bg_inode_bitmap_hi d)"

definition inode_table_block :: "ext4_group_desc \<Rightarrow> u64" where
  "inode_table_block d = from_lo_hi_32 (bg_inode_table_lo d) (bg_inode_table_hi d)"

subsection \<open>init_ext4_group_descs\<close>

definition zero_group_desc :: ext4_group_desc where
  "zero_group_desc = \<lparr>bg_block_bitmap_lo = 0, bg_inode_bitmap_lo = 0, bg_inode_table_lo = 0,
     bg_free_blocks_count_lo = 0, bg_free_inodes_count_lo = 0, bg_used_dirs_count_lo = 0,
     bg_block_bitmap_hi = 0, bg_inode_bitmap_hi = 0, bg_inode_table_hi = 0,
     bg_free_blocks_count_hi = 0, bg_free_inodes_count_hi = 0, bg_used_dirs_count_hi = 0\<rparr>"

definition group_bitmap_block :: "ext4_super_block \<Rightarrow> u32 \<Rightarrow> u64" where
  "group_bitmap_block sb i =
     (if block_group_has_sb_copy sb i
      then block_group_start sb i + 1 + ucast (gdt_block_count sb) + ucast (s_reserved_gdt_blocks sb)
      else block_group_start sb i)"

definition group_used_inodes :: "u32 \<Rightarrow> u32" where
  "group_used_inodes i = (if i = 0 then EXT4_FIRST_NON_RSV_INODE else 0)"

text \<open>The descriptor that one round of the loop fills in.\<close>

definition init_group_desc :: "ext4_super_block \<Rightarrow> u32 \<Rightarrow> ext4_group_desc" where
  "init_group_desc sb i =
     (let b = group_bitmap_block sb i;
          overhead = block_group_overhead_copy sb (block_group_has_sb_copy sb i);
          (bb_lo, bb_hi) = set_lo_hi_32_32 b;
          (ib_lo, ib_hi) = set_lo_hi_32_32 (b + 1);
          (it_lo, it_hi) = set_lo_hi_32_32 (b + 2);
          (fi_lo, fi_hi) = set_lo_hi_16_16 (s_inodes_per_group sb - group_used_inodes i);
          (fb_lo, fb_hi) = set_lo_hi_16_16 (block_group_block_count sb i - overhead)
      in zero_group_desc\<lparr>bg_block_bitmap_lo := bb_lo, bg_block_bitmap_hi := bb_hi,
           bg_inode_bitmap_lo := ib_lo, bg_inode_bitmap_hi := ib_hi,
           bg_inode_table_lo := it_lo, bg_inode_table_hi := it_hi,
           bg_free_inodes_count_lo := fi_lo, bg_free_inodes_count_hi := fi_hi,
           bg_free_blocks_count_lo := fb_lo, bg_free_blocks_count_hi := fb_hi\<rparr>)"

text \<open>The memory after the same round.\<close>

definition init_group_memory :: "fat_globals \<Rightarrow> ext4_super_block \<Rightarrow> u32 \<Rightarrow> memory \<Rightarrow> memory" where
  "init_group_memory g sb i m =
     (let b = group_bitmap_block sb i;
          overhead = block_group_overhead_copy sb (block_group_has_sb_copy sb i);
          blk_size = block_size sb;
          block_bitmap = block_start g sb b;
          inode_bitmap = block_start g sb (b + 1);
          inode_table = block_start g sb (b + 2);
          m1 = mem_fill m block_bitmap 0 (unat blk_size);
          m2 = bitmap_set_bits m1 block_bitmap 0 overhead;
          m3 = bitmap_set_bits m2 block_bitmap (block_group_block_count sb i) (blk_size * 8);
          m4 = mem_fill m3 inode_bitmap 0 (unat blk_size);
          m5 = bitmap_set_bits m4 inode_bitmap 0 (group_used_inodes i);
          m6 = bitmap_set_bits m5 inode_bitmap (s_inodes_per_group sb) (blk_size * 8)
      in mem_fill m6 inode_table 0 (unat (blk_size * inode_table_blocks sb)))"

definition init_ext4_group_descs :: "fat_globals \<Rightarrow> ext4_state \<Rightarrow> ext4_state" where
  "init_ext4_group_descs g s =
     (let groups = map word_of_nat [0..<unat (block_group_count (fs_sb s))]
      in s\<lparr>fs_group_descs := map (init_group_desc (fs_sb s)) groups,
           mem := foldl (\<lambda>m i. init_group_memory g (fs_sb s) i m) (mem s) groups\<rparr>)"

subsection \<open>Inodes\<close>

text \<open>The group of an inode, its index in the group, and the array element for the group.\<close>

definition inode_group :: "ext4_state \<Rightarrow> u32 \<Rightarrow> (u32 \<times> u32) result" where
  "inode_group s inode_num =
     (if s_inodes_per_group (fs_sb s) = 0 then Inl Undefined_Value
      else Inr ((inode_num - 1) div s_inodes_per_group (fs_sb s), (inode_num - 1) mod s_inodes_per_group (fs_sb s)))"

definition group_desc :: "ext4_state \<Rightarrow> u32 \<Rightarrow> ext4_group_desc result" where
  "group_desc s bg_num =
     (if unat bg_num < length (fs_group_descs s) then Inr (fs_group_descs s ! unat bg_num) else Inl Out_Of_Bounds)"

definition inode_address :: "fat_globals \<Rightarrow> ext4_super_block \<Rightarrow> ext4_group_desc \<Rightarrow> u32 \<Rightarrow> nat" where
  "inode_address g sb bg num_in_bg =
     block_start g sb (inode_table_block bg) + unat (num_in_bg * ucast (s_inode_size sb))"

definition count_inode :: "ext4_group_desc \<Rightarrow> ext4_group_desc" where
  "count_inode bg =
     (let (lo, hi) = decr_lo_hi_16_16 (bg_free_inodes_count_lo bg, bg_free_inodes_count_hi bg) 1
      in bg\<lparr>bg_free_inodes_count_lo := lo, bg_free_inodes_count_hi := hi\<rparr>)"

definition count_dir :: "ext4_inode \<Rightarrow> ext4_group_desc \<Rightarrow> ext4_group_desc" where
  "count_dir inode bg =
     (if i_mode inode AND S_IFDIR \<noteq> 0
      then (let (lo, hi) = incr_lo_hi_16_16 (bg_used_dirs_count_lo bg, bg_used_dirs_count_hi bg) 1
            in bg\<lparr>bg_used_dirs_count_lo := lo, bg_used_dirs_count_hi := hi\<rparr>)
      else bg)"

definition add_inode :: "fat_globals \<Rightarrow> ext4_inode \<Rightarrow> u32 \<Rightarrow> ext4_state \<Rightarrow> ext4_state result" where
  "add_inode g inode inode_num s =
     bind_res (inode_group s inode_num) (\<lambda>(bg_num, num_in_bg).
       if block_group_count (fs_sb s) \<le> bg_num then Inl Not_Enough_Inodes
       else bind_res (group_desc s bg_num) (\<lambda>bg.
         let m1 = bitmap_set_bit (mem s) (block_start g (fs_sb s) (inode_bitmap_block bg)) num_in_bg;
             m2 = store_inode m1 (inode_address g (fs_sb s) bg num_in_bg) inode
         in Inr (s\<lparr>mem := m2,
              fs_group_descs := (fs_group_descs s)[unat bg_num := count_dir inode (count_inode bg)]\<rparr>)))"

definition add_reserved_inode :: "fat_globals \<Rightarrow> ext4_inode \<Rightarrow> u32 \<Rightarrow> ext4_state \<Rightarrow> ext4_state result" where
  "add_reserved_inode g inode inode_num s =
     bind_res (inode_group s inode_num) (\<lambda>(bg_num, num_in_bg).
     bind_res (group_desc s bg_num) (\<lambda>bg.
       Inr (s\<lparr>mem := store_inode (mem s) (inode_address g (fs_sb s) bg num_in_bg) inode,
              fs_group_descs := (fs_group_descs s)[unat bg_num := count_dir inode bg]\<rparr>)))"

text \<open>The address that the returned reference stands for.\<close>

definition get_existing_inode :: "fat_globals \<Rightarrow> u32 \<Rightarrow> ext4_state \<Rightarrow> nat result" where
  "get_existing_inode g inode_num s =
     bind_res (inode_group s inode_num) (\<lambda>(bg_num, num_in_bg).
     bind_res (group_desc s bg_num) (\<lambda>bg. Inr (inode_address g (fs_sb s) bg num_in_bg)))"

subsection \<open>Blocks\<close>

definition count_blocks :: "u32 \<Rightarrow> ext4_group_desc \<Rightarrow> ext4_group_desc" where
  "count_blocks n bg =
     (let (lo, hi) = decr_lo_hi_16_16 (bg_free_blocks_count_lo bg, bg_free_blocks_count_hi bg) n
      in bg\<lparr>bg_free_blocks_count_lo := lo, bg_free_blocks_count_hi := hi\<rparr>)"

definition add_extent_to_block_bitmap ::
  "fat_globals \<Rightarrow> u64 \<Rightarrow> u64 \<Rightarrow> ext4_state \<Rightarrow> ext4_state result" where
  "add_extent_to_block_bitmap g blocks_begin blocks_end s =
     (if s_blocks_per_group (fs_sb s) = 0 then Inl Undefined_Value
      else
        (let bg_num = ucast ((blocks_begin - ucast (s_first_data_block (fs_sb s)))
                             div ucast (s_blocks_per_group (fs_sb s))) :: u32;
             bg_block_start = block_group_start (fs_sb s) bg_num
         in bind_res (group_desc s bg_num) (\<lambda>bg.
              Inr (s\<lparr>mem := bitmap_set_bits (mem s) (block_start g (fs_sb s) (block_bitmap_block bg))
                        (ucast (blocks_begin - bg_block_start)) (ucast (blocks_end - bg_block_start)),
                     fs_group_descs := (fs_group_descs s)[unat bg_num :=
                        count_blocks (ucast (blocks_end - blocks_begin)) bg]\<rparr>))))"

subsection \<open>finalize_block_groups_on_disk\<close>

definition store_group_descs :: "memory \<Rightarrow> nat \<Rightarrow> ext4_group_desc list \<Rightarrow> memory" where
  "store_group_descs m a ds = store_array store_group_desc sizeof_group_desc m a ds"

text \<open>\<open>memcpy\<close> of \<open>block_group_count()\<close> descriptors reads behind a shorter array.\<close>

definition write_sb_copy :: "fat_globals \<Rightarrow> u32 \<Rightarrow> ext4_state \<Rightarrow> ext4_state result" where
  "write_sb_copy g bg_num s =
     (let sb_copy = (fs_sb s)\<lparr>s_block_group_nr := ucast bg_num\<rparr>;
          bg_block_start = block_group_start (fs_sb s) bg_num;
          sb_offset = (if bg_num = 0 \<and> block_size (fs_sb s) \<noteq> 1024 then 1024 else 0);
          count = unat (block_group_count (fs_sb s));
          m1 = store_super_block (mem s) (block_start g (fs_sb s) bg_block_start + sb_offset) sb_copy
      in if length (fs_group_descs s) < count then Inl Out_Of_Bounds
         else Inr (s\<lparr>mem := store_group_descs m1 (block_start g (fs_sb s) (bg_block_start + 1))
                     (take count (fs_group_descs s))\<rparr>))"

text \<open>
  The sums over the group descriptors. \<open>util.h\<close> declares \<open>from_lo_hi\<close> for 32-bit halves
  only, so that the 16-bit fields are joined with a shift by 32.
\<close>

definition add_group_counts :: "ext4_super_block \<Rightarrow> ext4_group_desc \<Rightarrow> ext4_super_block" where
  "add_group_counts sb bg =
     (let sb1 = sb\<lparr>s_free_inodes_count := s_free_inodes_count sb
                + ucast (from_lo_hi_32 (ucast (bg_free_inodes_count_lo bg)) (ucast (bg_free_inodes_count_hi bg)))\<rparr>;
          (lo, hi) = incr_lo_hi_32_32 (s_free_blocks_count_lo sb1, s_free_blocks_count_hi sb1)
                (from_lo_hi_32 (ucast (bg_free_blocks_count_lo bg)) (ucast (bg_free_blocks_count_hi bg)))
      in sb1\<lparr>s_free_blocks_count_lo := lo, s_free_blocks_count_hi := hi\<rparr>)"

text \<open>
  The loop counter is a \<open>uint16_t\<close>: with more than 65535 groups it never reaches
  \<open>bg_count\<close>. The loop is a partial function of the counter.
\<close>

partial_function (option) finalize_loop :: "u32 \<Rightarrow> u16 \<Rightarrow> ext4_state \<Rightarrow> ext4_state run" where
  "finalize_loop bg_count i s =
     (if (ucast i :: u32) < bg_count
      then bind_run (Some (group_desc s (ucast i))) (\<lambda>bg.
             finalize_loop bg_count (i + 1) (s\<lparr>fs_sb := add_group_counts (fs_sb s) bg\<rparr>))
      else Some (Inr s))"

definition finalize_block_groups_on_disk :: "fat_globals \<Rightarrow> ext4_state \<Rightarrow> ext4_state run" where
  "finalize_block_groups_on_disk g s =
     bind_run (finalize_loop (block_group_count (fs_sb s)) 0 s) (\<lambda>s1.
     bind_run (Some (write_sb_copy g 0 s1)) (\<lambda>s2.
     bind_run (Some (write_sb_copy g (s_backup_bg0 (fs_sb s2)) s2)) (\<lambda>s3.
       Some (write_sb_copy g (s_backup_bg1 (fs_sb s3)) s3))))"

subsection \<open>Free bits\<close>

definition free_bits :: "memory \<Rightarrow> nat \<Rightarrow> nat \<Rightarrow> nat" where
  "free_bits m a n = length (filter (\<lambda>j. \<not> bitmap_bit m a j) [0..<n])"

lemma free_bits_card: "free_bits m a n = card {j. j < n \<and> \<not> bitmap_bit m a j}"
proof -
  have "length (filter (\<lambda>j. \<not> bitmap_bit m a j) [0..<n]) = card (set (filter (\<lambda>j. \<not> bitmap_bit m a j) [0..<n]))"
    by (rule distinct_card [symmetric]) simp
  also have "set (filter (\<lambda>j. \<not> bitmap_bit m a j) [0..<n]) = {j. j < n \<and> \<not> bitmap_bit m a j}" by auto
  finally show ?thesis by (simp add: free_bits_def)
qed

lemma free_bits_mark:
  assumes new: "\<And>j. bitmap_bit m' a j \<longleftrightarrow> bitmap_bit m a j \<or> j \<in> B"
    and B: "B \<subseteq> {j. j < n \<and> \<not> bitmap_bit m a j}"
  shows "free_bits m' a n = free_bits m a n - card B" and "card B \<le> free_bits m a n"
proof -
  have fin: "finite {j. j < n \<and> \<not> bitmap_bit m a j}" by simp
  have "{j. j < n \<and> \<not> bitmap_bit m' a j} = {j. j < n \<and> \<not> bitmap_bit m a j} - B" using new by auto
  then show "free_bits m' a n = free_bits m a n - card B"
    by (simp add: free_bits_card card_Diff_subset finite_subset [OF B fin] B)
  show "card B \<le> free_bits m a n" using card_mono [OF fin B] by (simp add: free_bits_card)
qed

lemma bitmap_bit_cong: "agree_on {a..<a + k} m m' \<Longrightarrow> j < 8 * k \<Longrightarrow> bitmap_bit m a j = bitmap_bit m' a j"
  by (auto simp: bitmap_bit_def agree_on_def less_mult_imp_div_less)

lemma free_bits_cong: "agree_on {a..<a + k} m m' \<Longrightarrow> free_bits m a (8 * k) = free_bits m' a (8 * k)"
  unfolding free_bits_def
  by (intro arg_cong [of _ _ length] filter_cong) (auto dest: bitmap_bit_cong)

subsection \<open>The areas of the groups\<close>

text \<open>The bitmaps and the inode table of a group as address and length.\<close>

definition group_areas :: "fat_globals \<Rightarrow> ext4_super_block \<Rightarrow> ext4_group_desc \<Rightarrow> (nat \<times> nat) list" where
  "group_areas g sb d =
     [(block_start g sb (block_bitmap_block d), unat (block_size sb)),
      (block_start g sb (inode_bitmap_block d), unat (block_size sb)),
      (block_start g sb (inode_table_block d), unat (s_inodes_per_group sb) * unat (s_inode_size sb))]"

definition apart :: "nat \<times> nat \<Rightarrow> nat \<times> nat \<Rightarrow> bool" where
  "apart x y \<longleftrightarrow> fst x + snd x \<le> fst y \<or> fst y + snd y \<le> fst x"

definition areas_apart :: "fat_globals \<Rightarrow> ext4_super_block \<Rightarrow> ext4_group_desc list \<Rightarrow> bool" where
  "areas_apart g sb ds \<longleftrightarrow> sorted_wrt apart (concat (map (group_areas g sb) ds))"

lemma sorted_wrt_concat:
  "sorted_wrt P (concat xss) \<longleftrightarrow>
     (\<forall>i < length xss. sorted_wrt P (xss ! i))
     \<and> (\<forall>j < length xss. \<forall>i < j. \<forall>x \<in> set (xss ! i). \<forall>y \<in> set (xss ! j). P x y)"
proof (induction xss)
  case (Cons xs xss)
  have "(\<forall>j < length (xs # xss). \<forall>i < j. \<forall>x \<in> set ((xs # xss) ! i). \<forall>y \<in> set ((xs # xss) ! j). P x y) \<longleftrightarrow>
      (\<forall>j < length xss. \<forall>x \<in> set xs. \<forall>y \<in> set (xss ! j). P x y)
      \<and> (\<forall>j < length xss. \<forall>i < j. \<forall>x \<in> set (xss ! i). \<forall>y \<in> set (xss ! j). P x y)"
    by (simp add: All_less_Suc2 all_conj_distrib) blast
  moreover have "(\<forall>x \<in> set xs. \<forall>y \<in> set (concat xss). P x y) \<longleftrightarrow>
      (\<forall>j < length xss. \<forall>x \<in> set xs. \<forall>y \<in> set (xss ! j). P x y)"
    by (auto simp: set_conv_nth [of xss])
  ultimately show ?case
    using Cons.IH by (auto simp: sorted_wrt_append All_less_Suc2)
qed simp

lemma apart_sym: "apart x y \<Longrightarrow> apart y x"
  by (auto simp: apart_def)

lemma areas_apartD:
  assumes "areas_apart g sb ds" and "i < length ds" "j < length ds"
  shows "i \<noteq> j \<Longrightarrow> x \<in> set (group_areas g sb (ds ! i)) \<Longrightarrow> y \<in> set (group_areas g sb (ds ! j)) \<Longrightarrow> apart x y"
    and "k < 3 \<Longrightarrow> l < 3 \<Longrightarrow> k \<noteq> l \<Longrightarrow> apart (group_areas g sb (ds ! i) ! k) (group_areas g sb (ds ! i) ! l)"
proof -
  let ?xss = "map (group_areas g sb) ds"
  have s: "\<forall>i < length ?xss. sorted_wrt apart (?xss ! i)"
    "\<forall>j < length ?xss. \<forall>i < j. \<forall>x \<in> set (?xss ! i). \<forall>y \<in> set (?xss ! j). apart x y"
    using assms(1) unfolding areas_apart_def sorted_wrt_concat by blast+
  show "apart x y" if "i \<noteq> j" "x \<in> set (group_areas g sb (ds ! i))" "y \<in> set (group_areas g sb (ds ! j))"
  proof (cases "i < j")
    case True
    then show ?thesis using s(2) assms(2,3) that by simp
  next
    case False
    then have "j < i" using that(1) by simp
    then have "apart y x" using s(2) assms(2,3) that by simp
    then show ?thesis by (rule apart_sym)
  qed
  have w: "sorted_wrt apart (group_areas g sb (ds ! i))" using s(1) assms(2) by simp
  have len: "length (group_areas g sb (ds ! i)) = 3" by (simp add: group_areas_def)
  show "apart (group_areas g sb (ds ! i) ! k) (group_areas g sb (ds ! i) ! l)" if "k < 3" "l < 3" "k \<noteq> l"
  proof (cases "k < l")
    case True
    then show ?thesis using w len that by (simp add: sorted_wrt_iff_nth_less)
  next
    case False
    then have "l < k" using that(3) by simp
    then have "apart (group_areas g sb (ds ! i) ! l) (group_areas g sb (ds ! i) ! k)"
      using w len that by (simp add: sorted_wrt_iff_nth_less)
    then show ?thesis by (rule apart_sym)
  qed
qed

subsection \<open>The invariant of the groups\<close>

definition free_blocks :: "ext4_group_desc \<Rightarrow> nat" where
  "free_blocks d = unat (from_lo_hi_16 (bg_free_blocks_count_lo d) (bg_free_blocks_count_hi d))"

definition free_inodes :: "ext4_group_desc \<Rightarrow> nat" where
  "free_inodes d = unat (from_lo_hi_16 (bg_free_inodes_count_lo d) (bg_free_inodes_count_hi d))"

text \<open>The counts of a descriptor are the numbers of free bits in its bitmaps.\<close>

definition counts_ok :: "fat_globals \<Rightarrow> ext4_super_block \<Rightarrow> memory \<Rightarrow> ext4_group_desc \<Rightarrow> bool" where
  "counts_ok g sb m d \<longleftrightarrow>
     free_blocks d = free_bits m (block_start g sb (block_bitmap_block d)) (8 * unat (block_size sb))
     \<and> free_inodes d = free_bits m (block_start g sb (inode_bitmap_block d)) (8 * unat (block_size sb))"

definition groups_inv :: "fat_globals \<Rightarrow> ext4_state \<Rightarrow> bool" where
  "groups_inv g s \<longleftrightarrow>
     unat (block_group_count (fs_sb s)) = length (fs_group_descs s)
     \<and> 0 < unat (s_inodes_per_group (fs_sb s))
     \<and> unat (s_inodes_per_group (fs_sb s)) \<le> 8 * unat (block_size (fs_sb s))
     \<and> sizeof_inode \<le> unat (s_inode_size (fs_sb s))
     \<and> unat (s_inodes_per_group (fs_sb s)) * unat (s_inode_size (fs_sb s)) < 2 ^ 32
     \<and> areas_apart g (fs_sb s) (fs_group_descs s)
     \<and> list_all (counts_ok g (fs_sb s) (mem s)) (fs_group_descs s)
     \<and> 0 < unat (s_blocks_per_group (fs_sb s))
     \<and> unat (s_blocks_per_group (fs_sb s)) \<le> 8 * unat (block_size (fs_sb s))
     \<and> unat (s_blocks_per_group (fs_sb s)) * length (fs_group_descs s) + unat (s_first_data_block (fs_sb s)) < 2 ^ 32"

lemma groups_invD:
  assumes "groups_inv g s"
  shows "unat (block_group_count (fs_sb s)) = length (fs_group_descs s)"
    and "0 < unat (s_inodes_per_group (fs_sb s))"
    and "unat (s_inodes_per_group (fs_sb s)) \<le> 8 * unat (block_size (fs_sb s))"
    and "160 \<le> unat (s_inode_size (fs_sb s))"
    and "unat (s_inodes_per_group (fs_sb s)) * unat (s_inode_size (fs_sb s)) < 4294967296"
    and "areas_apart g (fs_sb s) (fs_group_descs s)"
    and "i < length (fs_group_descs s) \<Longrightarrow> counts_ok g (fs_sb s) (mem s) (fs_group_descs s ! i)"
    and "0 < unat (s_blocks_per_group (fs_sb s))"
    and "unat (s_blocks_per_group (fs_sb s)) \<le> 8 * unat (block_size (fs_sb s))"
    and "unat (s_blocks_per_group (fs_sb s)) * length (fs_group_descs s) + unat (s_first_data_block (fs_sb s)) < 4294967296"
  using assms by (simp_all add: groups_inv_def list_all_length sizeof_inode_def)

definition bitmaps_of :: "fat_globals \<Rightarrow> ext4_super_block \<Rightarrow> ext4_group_desc \<Rightarrow> nat set" where
  "bitmaps_of g sb d =
     {block_start g sb (block_bitmap_block d)..<block_start g sb (block_bitmap_block d) + unat (block_size sb)}
     \<union> {block_start g sb (inode_bitmap_block d)..<block_start g sb (inode_bitmap_block d) + unat (block_size sb)}"

lemma counts_ok_cong: "agree_on (bitmaps_of g sb d) m m' \<Longrightarrow> counts_ok g sb m d = counts_ok g sb m' d"
  unfolding counts_ok_def bitmaps_of_def
  using free_bits_cong [OF agree_on_mono [OF _ Un_upper1]] free_bits_cong [OF agree_on_mono [OF _ Un_upper2]]
  by simp

text \<open>The bytes of one area, and that writing there leaves the other groups' bitmaps alone.\<close>

definition area_bytes :: "nat \<times> nat \<Rightarrow> nat set" where
  "area_bytes x = {fst x..<fst x + snd x}"

lemma apart_disjoint: "apart x y \<Longrightarrow> area_bytes x \<inter> area_bytes y = {}"
  by (auto simp: apart_def area_bytes_def)

lemma bitmaps_of_areas: "bitmaps_of g sb d = area_bytes (group_areas g sb d ! 0) \<union> area_bytes (group_areas g sb d ! 1)"
  by (simp add: bitmaps_of_def area_bytes_def group_areas_def)

lemma other_bitmaps:
  assumes "areas_apart g sb ds" and "i < length ds" "j < length ds" "i \<noteq> j" and k: "k < 3"
  shows "bitmaps_of g sb (ds ! j) \<inter> area_bytes (group_areas g sb (ds ! i) ! k) = {}"
proof -
  have mem: "group_areas g sb d ! k \<in> set (group_areas g sb d)" if "k < 3" for d k
    using that by (intro nth_mem) (simp add: group_areas_def)
  have "apart (group_areas g sb (ds ! j) ! l) (group_areas g sb (ds ! i) ! k)" if "l < 3" for l
    using areas_apartD(1) [OF assms(1,3,2)] assms(4) mem [OF that] mem [OF k] by blast
  then have "area_bytes (group_areas g sb (ds ! j) ! l) \<inter> area_bytes (group_areas g sb (ds ! i) ! k) = {}" if "l < 3" for l
    using that apart_disjoint by blast
  from this [of 0] this [of 1] show ?thesis by (simp add: bitmaps_of_areas Int_Un_distrib2)
qed

text \<open>Replacing one descriptor by one with the same areas.\<close>

lemma groups_inv_update:
  assumes inv: "groups_inv g s" and i: "i < length (fs_group_descs s)"
    and same: "group_areas g (fs_sb s) d = group_areas g (fs_sb s) (fs_group_descs s ! i)"
    and ok: "counts_ok g (fs_sb s) m d"
    and m: "agree_on (- (\<Union>k \<in> {0, 1, 2}. area_bytes (group_areas g (fs_sb s) (fs_group_descs s ! i) ! k))) (mem s) m"
  shows "groups_inv g (s\<lparr>mem := m, fs_group_descs := (fs_group_descs s)[i := d]\<rparr>)"
proof -
  let ?ds = "fs_group_descs s"
  have "map (group_areas g (fs_sb s)) (?ds[i := d]) = map (group_areas g (fs_sb s)) ?ds"
    using same i by (simp add: map_update list_update_same_conv)
  then have "areas_apart g (fs_sb s) (?ds[i := d])" using groups_invD(6) [OF inv] by (simp add: areas_apart_def)
  moreover have "counts_ok g (fs_sb s) m (?ds[i := d] ! j)" if j: "j < length ?ds" for j
  proof (cases "j = i")
    case True
    then show ?thesis using ok i by simp
  next
    case False
    have "bitmaps_of g (fs_sb s) (?ds ! j) \<inter> area_bytes (group_areas g (fs_sb s) (?ds ! i) ! k) = {}" if "k < 3" for k
      using other_bitmaps [OF groups_invD(6) [OF inv] i j _ that] False by simp
    from this [of 0] this [of 1] this [of 2] have "agree_on (bitmaps_of g (fs_sb s) (?ds ! j)) (mem s) m"
      by (intro agree_on_mono [OF m]) auto
    then show ?thesis using counts_ok_cong groups_invD(7) [OF inv j] False by simp
  qed
  ultimately show ?thesis
    using inv unfolding groups_inv_def by (simp add: list_all_length)
qed

subsection \<open>Inodes by number\<close>

definition inode_grp :: "ext4_state \<Rightarrow> u32 \<Rightarrow> nat" where
  "inode_grp s k = (unat k - 1) div unat (s_inodes_per_group (fs_sb s))"

definition inode_idx :: "ext4_state \<Rightarrow> u32 \<Rightarrow> nat" where
  "inode_idx s k = (unat k - 1) mod unat (s_inodes_per_group (fs_sb s))"

definition valid_inode :: "ext4_state \<Rightarrow> u32 \<Rightarrow> bool" where
  "valid_inode s k \<longleftrightarrow> 0 < unat k \<and> inode_grp s k < length (fs_group_descs s)"

definition inode_used :: "fat_globals \<Rightarrow> ext4_state \<Rightarrow> u32 \<Rightarrow> bool" where
  "inode_used g s k \<longleftrightarrow> bitmap_bit (mem s)
     (block_start g (fs_sb s) (inode_bitmap_block (fs_group_descs s ! inode_grp s k))) (inode_idx s k)"

definition inode_addr :: "fat_globals \<Rightarrow> ext4_state \<Rightarrow> u32 \<Rightarrow> nat" where
  "inode_addr g s k = block_start g (fs_sb s) (inode_table_block (fs_group_descs s ! inode_grp s k))
     + inode_idx s k * unat (s_inode_size (fs_sb s))"

lemma inode_group_eq:
  assumes inv: "groups_inv g s" and k: "valid_inode s k"
  obtains b n where "inode_group s k = Inr (b, n)" "unat b = inode_grp s k" "unat n = inode_idx s k"
    "group_desc s b = Inr (fs_group_descs s ! inode_grp s k)" "\<not> block_group_count (fs_sb s) \<le> b"
    "inode_address g (fs_sb s) (fs_group_descs s ! inode_grp s k) n = inode_addr g s k"
proof -
  let ?p = "s_inodes_per_group (fs_sb s)"
  have p: "0 < unat ?p" by (rule groups_invD(2) [OF inv])
  have k1: "unat (k - 1) = unat k - 1" using k by (simp add: valid_inode_def unat_sub_no_underflow)
  have b: "unat ((k - 1) div ?p) = inode_grp s k" "unat ((k - 1) mod ?p) = inode_idx s k"
    by (simp_all add: unat_div unat_mod k1 inode_grp_def inode_idx_def)
  have idx: "inode_idx s k < unat ?p" using p by (simp add: inode_idx_def)
  have "inode_idx s k * unat (s_inode_size (fs_sb s)) \<le> unat ?p * unat (s_inode_size (fs_sb s))"
    using idx by (intro mult_le_mono1) simp
  then have "inode_idx s k * unat (s_inode_size (fs_sb s)) < 4294967296"
    using groups_invD(5) [OF inv] by (rule le_less_trans)
  then have addr: "unat ((k - 1) mod ?p * ucast (s_inode_size (fs_sb s))) = inode_idx s k * unat (s_inode_size (fs_sb s))"
    by (subst unat_mult_no_overflow) (simp_all add: b(2))
  show thesis
  proof (rule that)
    show "inode_group s k = Inr ((k - 1) div ?p, (k - 1) mod ?p)"
      using p by (auto simp: inode_group_def)
    show "group_desc s ((k - 1) div ?p) = Inr (fs_group_descs s ! inode_grp s k)"
      using k by (simp add: group_desc_def b valid_inode_def)
    show "\<not> block_group_count (fs_sb s) \<le> (k - 1) div ?p"
      using k groups_invD(1) [OF inv] by (simp add: word_le_nat_alt b valid_inode_def)
  qed (simp_all add: b inode_address_def inode_addr_def addr)
qed

lemma get_existing_inode_eq:
  "groups_inv g s \<Longrightarrow> valid_inode s k \<Longrightarrow> get_existing_inode g k s = Inr (inode_addr g s k)"
  by (erule (1) inode_group_eq) (simp add: get_existing_inode_def)

definition inode_slot :: "fat_globals \<Rightarrow> ext4_state \<Rightarrow> u32 \<Rightarrow> nat set" where
  "inode_slot g s k = {inode_addr g s k..<inode_addr g s k + 160}"

lemma inode_slot_in_table:
  assumes inv: "groups_inv g s"
  shows "inode_slot g s k \<subseteq> area_bytes (group_areas g (fs_sb s) (fs_group_descs s ! inode_grp s k) ! 2)"
proof -
  let ?p = "unat (s_inodes_per_group (fs_sb s))" and ?z = "unat (s_inode_size (fs_sb s))"
  have "inode_idx s k < ?p" using groups_invD(2) [OF inv] by (simp add: inode_idx_def)
  then have "(inode_idx s k + 1) * ?z \<le> ?p * ?z" by (intro mult_le_mono1) simp
  then have "inode_idx s k * ?z + 160 \<le> ?p * ?z" using groups_invD(4) [OF inv] by simp
  then show ?thesis by (auto simp: inode_slot_def inode_addr_def area_bytes_def group_areas_def)
qed

lemma inode_slots_disjoint:
  assumes inv: "groups_inv g s" and "valid_inode s k" "valid_inode s j" "j \<noteq> k"
  shows "inode_slot g s j \<inter> inode_slot g s k = {}"
proof (cases "inode_grp s j = inode_grp s k")
  case True
  let ?z = "unat (s_inode_size (fs_sb s))"
  have "inode_idx s j \<noteq> inode_idx s k"
  proof
    assume "inode_idx s j = inode_idx s k"
    with True have "unat j - 1 = unat k - 1"
      unfolding inode_grp_def inode_idx_def by (metis div_mult_mod_eq)
    then have "unat j = unat k" using assms(2,3) unfolding valid_inode_def by linarith
    then show False using assms(4) by (simp add: word_unat_eq_iff)
  qed
  moreover have "x * ?z + 160 \<le> y * ?z" if "x < y" for x y :: nat
  proof -
    have "(x + 1) * ?z \<le> y * ?z" using that by (intro mult_le_mono1) simp
    then show ?thesis using groups_invD(4) [OF inv] by simp
  qed
  then have "inode_idx s j < inode_idx s k \<Longrightarrow> inode_addr g s j + 160 \<le> inode_addr g s k"
    "inode_idx s k < inode_idx s j \<Longrightarrow> inode_addr g s k + 160 \<le> inode_addr g s j"
    using True by (simp_all add: inode_addr_def)
  ultimately show ?thesis by (auto simp: inode_slot_def nat_neq_iff)
next
  case False
  have "apart (group_areas g (fs_sb s) (fs_group_descs s ! inode_grp s j) ! 2)
      (group_areas g (fs_sb s) (fs_group_descs s ! inode_grp s k) ! 2)"
    using areas_apartD(1) [OF groups_invD(6) [OF inv], of "inode_grp s j" "inode_grp s k"] assms False
    by (simp add: valid_inode_def group_areas_def)
  from apart_disjoint [OF this] show ?thesis
    using inode_slot_in_table [OF inv, of j] inode_slot_in_table [OF inv, of k] by blast
qed

subsection \<open>Adding inodes\<close>

lemma count_inode_simps [simp]:
  "group_areas g sb (count_inode d) = group_areas g sb d" "free_blocks (count_inode d) = free_blocks d"
  "block_bitmap_block (count_inode d) = block_bitmap_block d" "inode_bitmap_block (count_inode d) = inode_bitmap_block d"
  "inode_table_block (count_inode d) = inode_table_block d"
  by (simp_all add: count_inode_def group_areas_def free_blocks_def block_bitmap_block_def inode_bitmap_block_def
      inode_table_block_def split_beta)

lemma count_dir_simps [simp]:
  "group_areas g sb (count_dir i d) = group_areas g sb d" "free_blocks (count_dir i d) = free_blocks d"
  "free_inodes (count_dir i d) = free_inodes d"
  "block_bitmap_block (count_dir i d) = block_bitmap_block d" "inode_bitmap_block (count_dir i d) = inode_bitmap_block d"
  "inode_table_block (count_dir i d) = inode_table_block d"
  by (simp_all add: count_dir_def group_areas_def free_blocks_def free_inodes_def block_bitmap_block_def
      inode_bitmap_block_def inode_table_block_def split_beta)

lemma count_blocks_simps [simp]:
  "group_areas g sb (count_blocks n d) = group_areas g sb d" "free_inodes (count_blocks n d) = free_inodes d"
  "block_bitmap_block (count_blocks n d) = block_bitmap_block d"
  "inode_bitmap_block (count_blocks n d) = inode_bitmap_block d"
  "inode_table_block (count_blocks n d) = inode_table_block d"
  by (simp_all add: count_blocks_def group_areas_def free_inodes_def block_bitmap_block_def inode_bitmap_block_def
      inode_table_block_def split_beta)

lemma free_inodes_count_inode: "1 \<le> free_inodes d \<Longrightarrow> free_inodes (count_inode d) = free_inodes d - 1"
  by (simp add: count_inode_def free_inodes_def split_beta from_decr_lo_hi_16_16 unat_sub_no_underflow)

lemma free_blocks_count_blocks: "unat n \<le> free_blocks d \<Longrightarrow> free_blocks (count_blocks n d) = free_blocks d - unat n"
  by (simp add: count_blocks_def free_blocks_def split_beta from_decr_lo_hi_16_16 unat_sub_no_underflow)

lemma inode_number_frame [simp]:
  "inode_grp (s\<lparr>mem := m, fs_group_descs := ds\<rparr>) k = inode_grp s k"
  "inode_idx (s\<lparr>mem := m, fs_group_descs := ds\<rparr>) k = inode_idx s k"
  "inode_grp (s\<lparr>mem := m\<rparr>) k = inode_grp s k" "inode_idx (s\<lparr>mem := m\<rparr>) k = inode_idx s k"
  by (simp_all add: inode_grp_def inode_idx_def)

text \<open>Replacing a descriptor by one with the same areas moves no inode.\<close>

lemma inode_addr_update:
  assumes "i < length (fs_group_descs s)" and "group_areas g (fs_sb s) d = group_areas g (fs_sb s) (fs_group_descs s ! i)"
  shows "inode_addr g (s\<lparr>mem := m, fs_group_descs := (fs_group_descs s)[i := d]\<rparr>) k = inode_addr g s k"
    and "inode_used g (s\<lparr>mem := m, fs_group_descs := (fs_group_descs s)[i := d]\<rparr>) k
      = inode_used g (s\<lparr>mem := m\<rparr>) k"
  using assms by (cases "inode_grp s k = i"; simp add: inode_addr_def inode_used_def group_areas_def)+

text \<open>What no operation on inodes or blocks changes: superblock, allocator, and the place of everything.\<close>

definition same_groups :: "fat_globals \<Rightarrow> ext4_state \<Rightarrow> ext4_state \<Rightarrow> bool" where
  "same_groups g s s' \<longleftrightarrow> fs_sb s' = fs_sb s \<and> alloc s' = alloc s
     \<and> map (group_areas g (fs_sb s)) (fs_group_descs s') = map (group_areas g (fs_sb s)) (fs_group_descs s)"

definition inode_bitmap_bytes :: "fat_globals \<Rightarrow> ext4_state \<Rightarrow> u32 \<Rightarrow> nat set" where
  "inode_bitmap_bytes g s k = area_bytes (group_areas g (fs_sb s) (fs_group_descs s ! inode_grp s k) ! 1)"

lemma inode_eqI:
  assumes "groups_inv g s" and "valid_inode s k" "valid_inode s j"
    and "inode_grp s j = inode_grp s k" "inode_idx s j = inode_idx s k"
  shows "j = k"
proof -
  have "unat j - 1 = unat k - 1"
    using assms(4,5) unfolding inode_grp_def inode_idx_def by (metis div_mult_mod_eq)
  then have "unat j = unat k" using assms(2,3) unfolding valid_inode_def by linarith
  then show ?thesis by (simp add: word_unat_eq_iff)
qed

lemma inode_idx_bitmap: "groups_inv g s \<Longrightarrow> inode_idx s k < 8 * unat (block_size (fs_sb s))"
  using groups_invD(2,3) [of g s] mod_less_divisor [of "unat (s_inodes_per_group (fs_sb s))" "unat k - 1"]
  unfolding inode_idx_def by linarith

lemma area_disjoint:
  assumes inv: "groups_inv g s" and i: "i < length (fs_group_descs s)" and j: "j < length (fs_group_descs s)"
    and kl: "k < 3" "l < 3" "i \<noteq> j \<or> k \<noteq> l"
  shows "area_bytes (group_areas g (fs_sb s) (fs_group_descs s ! i) ! k)
    \<inter> area_bytes (group_areas g (fs_sb s) (fs_group_descs s ! j) ! l) = {}"
proof (rule apart_disjoint, cases "i = j")
  case True
  then show "apart (group_areas g (fs_sb s) (fs_group_descs s ! i) ! k) (group_areas g (fs_sb s) (fs_group_descs s ! j) ! l)"
    using areas_apartD(2) [OF groups_invD(6) [OF inv] i j kl(1,2)] kl(3) by simp
next
  case False
  have "group_areas g (fs_sb s) d ! n \<in> set (group_areas g (fs_sb s) d)" if "n < 3" for d n
    using that by (intro nth_mem) (simp add: group_areas_def)
  then show "apart (group_areas g (fs_sb s) (fs_group_descs s ! i) ! k) (group_areas g (fs_sb s) (fs_group_descs s ! j) ! l)"
    using areas_apartD(1) [OF groups_invD(6) [OF inv] i j False] kl(1,2) by simp
qed

lemma add_inode_spec:
  assumes inv: "groups_inv g s" and k: "valid_inode s k" and free: "\<not> inode_used g s k"
  shows "\<exists>s'. add_inode g inode k s = Inr s' \<and> groups_inv g s'
    \<and> same_groups g s s' \<and> (\<forall>j. valid_inode s j \<longrightarrow> (inode_used g s' j \<longleftrightarrow> j = k \<or> inode_used g s j))
    \<and> load_inode (mem s') (inode_addr g s k) = inode
    \<and> agree_on (- inode_slot g s k - inode_bitmap_bytes g s k) (mem s) (mem s')"
proof -
  let ?sb = "fs_sb s" and ?i = "inode_grp s k" and ?ds = "fs_group_descs s"
  let ?d = "fs_group_descs s ! inode_grp s k" and ?bs = "unat (block_size (fs_sb s))"
  let ?ib = "block_start g (fs_sb s) (inode_bitmap_block ?d)" and ?area = "\<lambda>i l. area_bytes (group_areas g (fs_sb s) (?ds ! i) ! l)"
  have i: "?i < length ?ds" using k by (simp add: valid_inode_def)
  obtain b n where bn: "inode_group s k = Inr (b, n)" "unat b = ?i" "unat n = inode_idx s k"
    "group_desc s b = Inr ?d" "\<not> block_group_count ?sb \<le> b" "inode_address g ?sb ?d n = inode_addr g s k"
    using inode_group_eq [OF inv k] by blast
  define m1 where "m1 = bitmap_set_bit (mem s) ?ib n"
  define m2 where "m2 = store_inode m1 (inode_addr g s k) inode"
  define d' where "d' = count_dir inode (count_inode ?d)"
  define s' where "s' = s\<lparr>mem := m2, fs_group_descs := ?ds[?i := d']\<rparr>"
  have run: "add_inode g inode k s = Inr s'"
    using bn by (simp add: add_inode_def Let_def s'_def m2_def m1_def d'_def)
  have area1: "?area ?i 1 = {?ib..<?ib + ?bs}" "?area ?i 0 = {block_start g ?sb (block_bitmap_block ?d)..<block_start g ?sb (block_bitmap_block ?d) + ?bs}"
    by (simp_all add: area_bytes_def group_areas_def)
  have slot: "inode_slot g s k \<subseteq> ?area ?i 2" by (rule inode_slot_in_table [OF inv])
  have "inode_idx s k div 8 < ?bs" using inode_idx_bitmap [OF inv, of k] by (simp add: less_mult_imp_div_less mult.commute)
  then have a1: "agree_on (- ?area ?i 1) (mem s) m1"
    unfolding area1 by (auto simp: agree_on_def m1_def bn(3) intro!: bitmap_set_bit_frame [symmetric])
  have a2: "agree_on (- inode_slot g s k) m1 m2"
    by (auto simp: agree_on_def m2_def inode_slot_def inode_codec.store_frame)
  have a12: "agree_on (- inode_slot g s k - ?area ?i 1) (mem s) m2"
    using a1 a2 by (simp add: agree_on_def)
  have dis: "?area x y \<inter> ?area ?i l = {}" if "x < length ?ds" "y < 3" "l < 3" "x \<noteq> ?i \<or> y \<noteq> l" for x y l
    using area_disjoint [OF inv that(1) i that(2,3,4)] .
  have bits2: "bitmap_bit m2 ?ib j \<longleftrightarrow> bitmap_bit (mem s) ?ib j \<or> j \<in> {inode_idx s k}" if "j < 8 * ?bs" for j
  proof -
    have "agree_on (?area ?i 1) m1 m2" using dis [OF i, of 1 2] slot by (intro agree_on_mono [OF a2]) auto
    then have "bitmap_bit m2 ?ib j = bitmap_bit m1 ?ib j" using bitmap_bit_cong that unfolding area1 by blast
    then show ?thesis by (auto simp: m1_def bitmap_bit_set_bit bn(3))
  qed
  have free: "free_bits m2 ?ib (8 * ?bs) = free_bits m1 ?ib (8 * ?bs)"
    unfolding free_bits_def m1_def using bits2
    by (intro arg_cong [of _ _ length] filter_cong) (auto simp: bitmap_bit_set_bit bn(3))
  have B: "{inode_idx s k} \<subseteq> {j. j < 8 * ?bs \<and> \<not> bitmap_bit (mem s) ?ib j}"
    using assms(3) inode_idx_bitmap [OF inv] by (simp add: inode_used_def)
  have m1_bits: "bitmap_bit m1 ?ib j \<longleftrightarrow> bitmap_bit (mem s) ?ib j \<or> j \<in> {inode_idx s k}" for j
    by (auto simp: m1_def bitmap_bit_set_bit bn(3))
  note fb = free_bits_mark [OF m1_bits B]
  have ok: "counts_ok g ?sb (mem s) ?d" by (rule groups_invD(7) [OF inv i])
  have "counts_ok g ?sb m2 d'"
  proof -
    have "agree_on (?area ?i 0) (mem s) m2"
      using dis [OF i, of 0 1] dis [OF i, of 0 2] slot by (intro agree_on_mono [OF a12]) auto
    from free_bits_cong [OF this [unfolded area1]]
    have "free_bits (mem s) (block_start g ?sb (block_bitmap_block ?d)) (8 * ?bs) =
        free_bits m2 (block_start g ?sb (block_bitmap_block ?d)) (8 * ?bs)" .
    moreover have "free_inodes (count_inode ?d) = free_inodes ?d - 1"
      using ok fb(2) by (intro free_inodes_count_inode) (simp add: counts_ok_def)
    ultimately show ?thesis using ok fb(1) by (simp add: counts_ok_def d'_def free)
  qed
  moreover have "agree_on (- (\<Union>k \<in> {0, 1, 2}. ?area ?i k)) (mem s) m2"
    using slot by (intro agree_on_mono [OF a12]) auto
  ultimately have "groups_inv g s'"
    unfolding s'_def by (intro groups_inv_update [OF inv i]) (simp_all add: d'_def)
  moreover have "same_groups g s s'"
    using i by (simp add: same_groups_def s'_def d'_def map_update list_update_same_conv)
  moreover have "inode_used g s' j \<longleftrightarrow> j = k \<or> inode_used g s j" if j: "valid_inode s j" for j
  proof -
    have jl: "inode_grp s j < length ?ds" using j by (simp add: valid_inode_def)
    have u: "inode_used g s' j = bitmap_bit m2 (block_start g ?sb (inode_bitmap_block (?ds ! inode_grp s j))) (inode_idx s j)"
      unfolding s'_def by (subst inode_addr_update(2) [OF i]) (simp_all add: d'_def inode_used_def)
    show ?thesis
    proof (cases "inode_grp s j = ?i")
      case True
      then show ?thesis
        using u bits2 [OF inode_idx_bitmap [OF inv, of j]] inode_eqI [OF inv k j] by (auto simp: inode_used_def)
    next
      case False
      have "agree_on (?area (inode_grp s j) 1) (mem s) m2"
        using dis [OF jl, of 1 1] dis [OF jl, of 1 2] slot False by (intro agree_on_mono [OF a12]) auto
      then have "agree_on {block_start g ?sb (inode_bitmap_block (?ds ! inode_grp s j))
          ..<block_start g ?sb (inode_bitmap_block (?ds ! inode_grp s j)) + ?bs} (mem s) m2"
        by (simp add: area_bytes_def group_areas_def)
      from bitmap_bit_cong [OF this inode_idx_bitmap [OF inv]] show ?thesis
        using u False by (auto simp: inode_used_def)
    qed
  qed
  moreover have "load_inode (mem s') (inode_addr g s k) = inode"
    by (simp add: s'_def m2_def inode_codec.load_store)
  moreover have "agree_on (- inode_slot g s k - inode_bitmap_bytes g s k) (mem s) (mem s')"
    using a12 by (simp add: s'_def inode_bitmap_bytes_def)
  ultimately show ?thesis using run by blast
qed

lemma same_groups_nth:
  assumes "same_groups g s s'" and "i < length (fs_group_descs s)"
  shows "group_areas g (fs_sb s) (fs_group_descs s' ! i) = group_areas g (fs_sb s) (fs_group_descs s ! i)"
    and "length (fs_group_descs s') = length (fs_group_descs s)"
proof -
  have m: "map (group_areas g (fs_sb s)) (fs_group_descs s') = map (group_areas g (fs_sb s)) (fs_group_descs s)"
    using assms(1) by (simp add: same_groups_def)
  show l: "length (fs_group_descs s') = length (fs_group_descs s)" using arg_cong [OF m, of length] by simp
  show "group_areas g (fs_sb s) (fs_group_descs s' ! i) = group_areas g (fs_sb s) (fs_group_descs s ! i)"
    using arg_cong [OF m, of "\<lambda>xs. xs ! i"] assms(2) l by simp
qed

lemma same_groups_inode:
  assumes S: "same_groups g s s'" and k: "valid_inode s k"
  shows "valid_inode s' k" "inode_addr g s' k = inode_addr g s k" "inode_slot g s' k = inode_slot g s k"
proof -
  have i: "inode_grp s k < length (fs_group_descs s)" using k by (simp add: valid_inode_def)
  have sb: "fs_sb s' = fs_sb s" using S by (simp add: same_groups_def)
  then have n: "inode_grp s' k = inode_grp s k" "inode_idx s' k = inode_idx s k"
    by (simp_all add: inode_grp_def inode_idx_def)
  show "valid_inode s' k" using k n same_groups_nth(2) [OF S i] by (simp add: valid_inode_def)
  show "inode_addr g s' k = inode_addr g s k"
    using same_groups_nth(1) [OF S i] by (simp add: inode_addr_def n sb group_areas_def)
  then show "inode_slot g s' k = inode_slot g s k" by (simp add: inode_slot_def)
qed

lemma slot_bitmap_disjoint:
  assumes "groups_inv g s" and "valid_inode s j" "valid_inode s k"
  shows "inode_slot g s j \<inter> inode_bitmap_bytes g s k = {}"
  using area_disjoint [OF assms(1), of "inode_grp s j" "inode_grp s k" 2 1] inode_slot_in_table [OF assms(1), of j] assms(2,3)
  unfolding inode_bitmap_bytes_def valid_inode_def by auto

text \<open>
  C8. \<open>add_inode\<close> for a free inode number below the inode count succeeds and keeps the
  groups' invariant: the free counts of every descriptor are the numbers of zero bits in its
  bitmaps. It marks exactly this inode as used, a lookup of the number finds the inode just
  written, and every other inode stays as it was.
\<close>

theorem add_inode_correct:
  assumes inv: "groups_inv g s" and k: "valid_inode s k" and free: "\<not> inode_used g s k"
  shows "\<exists>s' a. add_inode g inode k s = Inr s' \<and> groups_inv g s'
    \<and> (\<forall>j. valid_inode s j \<longrightarrow> (inode_used g s' j \<longleftrightarrow> j = k \<or> inode_used g s j))
    \<and> get_existing_inode g k s' = Inr a \<and> load_inode (mem s') a = inode
    \<and> (\<forall>j. valid_inode s j \<longrightarrow> j \<noteq> k \<longrightarrow>
         load_inode (mem s') (inode_addr g s' j) = load_inode (mem s) (inode_addr g s j))"
proof -
  obtain s' where s': "add_inode g inode k s = Inr s'" "groups_inv g s'" "same_groups g s s'"
    "\<forall>j. valid_inode s j \<longrightarrow> (inode_used g s' j \<longleftrightarrow> j = k \<or> inode_used g s j)"
    "load_inode (mem s') (inode_addr g s k) = inode"
    "agree_on (- inode_slot g s k - inode_bitmap_bytes g s k) (mem s) (mem s')"
    using add_inode_spec [OF assms] by blast
  have "load_inode (mem s') (inode_addr g s' j) = load_inode (mem s) (inode_addr g s j)"
    if j: "valid_inode s j" "j \<noteq> k" for j
  proof -
    have "inode_slot g s j \<subseteq> - inode_slot g s k - inode_bitmap_bytes g s k"
      using inode_slots_disjoint [OF inv k j] slot_bitmap_disjoint [OF inv j(1) k] by auto
    then show ?thesis
      unfolding same_groups_inode(2) [OF s'(3) j(1)]
      using s'(6) by (intro inode_codec.load_cong) (auto simp: agree_on_def inode_slot_def)
  qed
  then show ?thesis
    using s'(1,2,4,5) get_existing_inode_eq [OF s'(2) same_groups_inode(1) [OF s'(3) k]]
      same_groups_inode(2) [OF s'(3) k] by auto
qed

subsection \<open>Adding extents to the block bitmap\<close>

definition block_grp :: "ext4_state \<Rightarrow> nat \<Rightarrow> nat" where
  "block_grp s x = (x - unat (s_first_data_block (fs_sb s))) div unat (s_blocks_per_group (fs_sb s))"

definition block_idx :: "ext4_state \<Rightarrow> nat \<Rightarrow> nat" where
  "block_idx s x = (x - unat (s_first_data_block (fs_sb s))) mod unat (s_blocks_per_group (fs_sb s))"

definition valid_block :: "ext4_state \<Rightarrow> nat \<Rightarrow> bool" where
  "valid_block s x \<longleftrightarrow> unat (s_first_data_block (fs_sb s)) \<le> x \<and> block_grp s x < length (fs_group_descs s)"

definition block_used :: "fat_globals \<Rightarrow> ext4_state \<Rightarrow> nat \<Rightarrow> bool" where
  "block_used g s x \<longleftrightarrow> bitmap_bit (mem s)
     (block_start g (fs_sb s) (block_bitmap_block (fs_group_descs s ! block_grp s x))) (block_idx s x)"

definition block_bitmap_bytes :: "fat_globals \<Rightarrow> ext4_state \<Rightarrow> nat \<Rightarrow> nat set" where
  "block_bitmap_bytes g s x = area_bytes (group_areas g (fs_sb s) (fs_group_descs s ! block_grp s x) ! 0)"

lemma block_number:
  assumes "groups_inv g s" and "valid_block s x"
  shows "x = unat (s_first_data_block (fs_sb s)) + unat (s_blocks_per_group (fs_sb s)) * block_grp s x + block_idx s x"
    and "block_idx s x < unat (s_blocks_per_group (fs_sb s))" "block_idx s x < 8 * unat (block_size (fs_sb s))"
proof -
  show "x = unat (s_first_data_block (fs_sb s)) + unat (s_blocks_per_group (fs_sb s)) * block_grp s x + block_idx s x"
    using assms(2) by (simp add: valid_block_def block_grp_def block_idx_def)
  show "block_idx s x < unat (s_blocks_per_group (fs_sb s))"
    using groups_invD(8) [OF assms(1)] by (simp add: block_idx_def)
  then show "block_idx s x < 8 * unat (block_size (fs_sb s))" using groups_invD(9) [OF assms(1)] by linarith
qed

lemma block_in_range:
  assumes inv: "groups_inv g s" and x: "valid_block s x" and y: "x \<le> y" "block_idx s x + (y - x) < unat (s_blocks_per_group (fs_sb s))"
  shows "block_grp s y = block_grp s x" "block_idx s y = block_idx s x + (y - x)" "valid_block s y"
proof -
  let ?p = "unat (s_blocks_per_group (fs_sb s))" and ?f = "unat (s_first_data_block (fs_sb s))"
  have e: "y - ?f = ?p * block_grp s x + (block_idx s x + (y - x))"
    using block_number(1) [OF inv x] y(1) by linarith
  show g: "block_grp s y = block_grp s x"
    unfolding block_grp_def [of s y] e using y(2) groups_invD(8) [OF inv] by (simp add: div_mult_self3)
  show "block_idx s y = block_idx s x + (y - x)"
    unfolding block_idx_def [of s y] e using y(2) by simp
  show "valid_block s y" using x y(1) by (simp add: valid_block_def g)
qed

lemma unat_ucast_64_32: "unat (w :: u64) < 2 ^ 32 \<Longrightarrow> unat (ucast w :: u32) = unat w"
  by (simp add: unsigned_ucast_eq take_bit_nat_eq_self)

text \<open>The numbers that the code computes from the first and the last block.\<close>

lemma extent_in_group:
  fixes b e :: u64
  assumes inv: "groups_inv g s" and b: "valid_block s (unat b)" and le: "unat b \<le> unat e"
    and fit: "block_idx s (unat b) + (unat e - unat b) \<le> unat (s_blocks_per_group (fs_sb s))"
  defines "n \<equiv> ucast ((b - ucast (s_first_data_block (fs_sb s))) div ucast (s_blocks_per_group (fs_sb s))) :: u32"
  shows "unat n = block_grp s (unat b)"
    and "unat (ucast (b - block_group_start (fs_sb s) n) :: u32) = block_idx s (unat b)"
    and "unat (ucast (e - block_group_start (fs_sb s) n) :: u32) = block_idx s (unat b) + (unat e - unat b)"
    and "unat (ucast (e - b) :: u32) = unat e - unat b"
proof -
  let ?p = "unat (s_blocks_per_group (fs_sb s))" and ?f = "unat (s_first_data_block (fs_sb s))"
  let ?i = "block_grp s (unat b)" and ?x = "block_idx s (unat b)"
  have f: "?f \<le> unat b" and i: "?i < length (fs_group_descs s)" using b by (auto simp: valid_block_def)
  have d: "unat ((b - ucast (s_first_data_block (fs_sb s))) div ucast (s_blocks_per_group (fs_sb s))) = ?i"
    using f by (simp add: unat_div unat_sub_no_underflow block_grp_def)
  have "?i < 4294967296" using i groups_invD(1) [OF inv] unat_u32_bound [of "block_group_count (fs_sb s)"] by linarith
  then show n: "unat n = ?i" unfolding n_def using d by (subst unat_ucast_64_32) simp_all
  have "?p * ?i \<le> ?p * length (fs_group_descs s)" using i by (intro mult_le_mono2) simp
  then have "?p * ?i + ?f < 4294967296" using groups_invD(10) [OF inv] by linarith
  then have st: "unat (block_group_start (fs_sb s) n) = ?p * ?i + ?f"
    using n by (subst unat_block_group_start) simp_all
  have num: "unat b = ?f + ?p * ?i + ?x" by (rule block_number(1) [OF inv b])
  have p: "?p < 4294967296" by (rule unat_u32_bound)
  have "unat (b - block_group_start (fs_sb s) n) = ?x"
    using num st by (subst unat_sub_no_underflow) linarith+
  moreover have "?x < 4294967296" using block_number(2) [OF inv b] p by linarith
  ultimately show "unat (ucast (b - block_group_start (fs_sb s) n) :: u32) = ?x"
    by (subst unat_ucast_64_32) simp_all
  have "unat (e - block_group_start (fs_sb s) n) = ?x + (unat e - unat b)"
    using num st le by (subst unat_sub_no_underflow) linarith+
  moreover have "?x + (unat e - unat b) < 4294967296" using fit p by linarith
  ultimately show "unat (ucast (e - block_group_start (fs_sb s) n) :: u32) = ?x + (unat e - unat b)"
    by (subst unat_ucast_64_32) simp_all
  have "unat (e - b) = unat e - unat b" using le by (rule unat_sub_no_underflow)
  then show "unat (ucast (e - b) :: u32) = unat e - unat b"
    using \<open>?x + (unat e - unat b) < 4294967296\<close> by (subst unat_ucast_64_32) simp_all
qed

lemma add_blocks_spec:
  fixes b e :: u64
  assumes inv: "groups_inv g s" and b: "valid_block s (unat b)" and le: "unat b \<le> unat e"
    and fit: "block_idx s (unat b) + (unat e - unat b) \<le> unat (s_blocks_per_group (fs_sb s))"
    and free: "\<And>x. unat b \<le> x \<Longrightarrow> x < unat e \<Longrightarrow> \<not> block_used g s x"
  shows "\<exists>s'. add_extent_to_block_bitmap g b e s = Inr s' \<and> groups_inv g s' \<and> same_groups g s s'
    \<and> (\<forall>x. valid_block s x \<longrightarrow> (block_used g s' x \<longleftrightarrow> unat b \<le> x \<and> x < unat e \<or> block_used g s x))
    \<and> free_blocks (fs_group_descs s' ! block_grp s (unat b)) + (unat e - unat b)
        = free_blocks (fs_group_descs s ! block_grp s (unat b))
    \<and> agree_on (- block_bitmap_bytes g s (unat b)) (mem s) (mem s')"
proof -
  let ?sb = "fs_sb s" and ?i = "block_grp s (unat b)" and ?ds = "fs_group_descs s"
  let ?d = "fs_group_descs s ! block_grp s (unat b)" and ?bs = "unat (block_size (fs_sb s))"
  let ?bb = "block_start g (fs_sb s) (block_bitmap_block ?d)"
  let ?area = "\<lambda>i l. area_bytes (group_areas g (fs_sb s) (?ds ! i) ! l)"
  let ?x = "block_idx s (unat b)" and ?len = "unat e - unat b"
  have i: "?i < length ?ds" using b by (simp add: valid_block_def)
  define n where "n = (ucast ((b - ucast (s_first_data_block ?sb)) div ucast (s_blocks_per_group ?sb)) :: u32)"
  note num = extent_in_group [OF inv b le fit, folded n_def]
  define m where "m = bitmap_set_bits (mem s) ?bb (ucast (b - block_group_start ?sb n)) (ucast (e - block_group_start ?sb n))"
  define d' where "d' = count_blocks (ucast (e - b)) ?d"
  define s' where "s' = s\<lparr>mem := m, fs_group_descs := ?ds[?i := d']\<rparr>"
  have "s_blocks_per_group ?sb \<noteq> 0" using groups_invD(8) [OF inv] by auto
  then have run: "add_extent_to_block_bitmap g b e s = Inr s'"
    using i by (simp add: add_extent_to_block_bitmap_def Let_def n_def [symmetric] group_desc_def num(1) m_def d'_def s'_def)
  have area0: "?area ?i 0 = {?bb..<?bb + ?bs}" by (simp add: area_bytes_def group_areas_def)
  have bits: "bitmap_bit m ?bb j \<longleftrightarrow> bitmap_bit (mem s) ?bb j \<or> j \<in> {?x..<?x + ?len}" for j
    by (auto simp: m_def bitmap_set_bits_bits num)
  have top: "?x + ?len \<le> 8 * ?bs" using fit groups_invD(9) [OF inv] by linarith
  have frame: "agree_on (- ?area ?i 0) (mem s) m"
  proof -
    have "(?x + ?len + 7) div 8 \<le> ?bs" using top by simp
    then have "{?bb + ?x div 8..<?bb + (?x + ?len + 7) div 8} \<subseteq> ?area ?i 0" by (auto simp: area0)
    then show ?thesis
      by (auto simp: agree_on_def m_def num intro!: bitmap_set_bits_frame [symmetric])
  qed
  have free_bit: "\<not> bitmap_bit (mem s) ?bb j" if "?x \<le> j" "j < ?x + ?len" for j
  proof -
    have y: "unat b \<le> unat b + (j - ?x)" "?x + (unat b + (j - ?x) - unat b) < unat (s_blocks_per_group ?sb)"
      using that fit by simp_all
    have "unat b + (j - ?x) < unat e" using that by linarith
    then have "\<not> block_used g s (unat b + (j - ?x))" using free by simp
    then show ?thesis using block_in_range [OF inv b y] that by (simp add: block_used_def)
  qed
  have B: "{?x..<?x + ?len} \<subseteq> {j. j < 8 * ?bs \<and> \<not> bitmap_bit (mem s) ?bb j}"
    using free_bit top by auto
  note fb = free_bits_mark [OF bits B]
  have ok: "counts_ok g ?sb (mem s) ?d" by (rule groups_invD(7) [OF inv i])
  have le_free: "?len \<le> free_blocks ?d" using ok fb(2) by (simp add: counts_ok_def)
  then have cnt: "free_blocks d' = free_blocks ?d - ?len"
    unfolding d'_def by (subst free_blocks_count_blocks) (simp_all add: num)
  have dis: "?area y l \<inter> ?area ?i 0 = {}" if "y < length ?ds" "l < 3" "y \<noteq> ?i \<or> l \<noteq> 0" for y l
    using area_disjoint [OF inv that(1) i that(2) _ that(3)] by simp
  have "counts_ok g ?sb m d'"
  proof -
    have "agree_on (?area ?i 1) (mem s) m" using dis [OF i, of 1] by (intro agree_on_mono [OF frame]) auto
    then have "agree_on {block_start g ?sb (inode_bitmap_block ?d)..<block_start g ?sb (inode_bitmap_block ?d) + ?bs} (mem s) m"
      by (simp add: area_bytes_def group_areas_def)
    from free_bits_cong [OF this] ok fb(1) cnt show ?thesis by (simp add: counts_ok_def d'_def)
  qed
  moreover have "agree_on (- (\<Union>k \<in> {0, 1, 2}. ?area ?i k)) (mem s) m" by (intro agree_on_mono [OF frame]) auto
  ultimately have "groups_inv g s'" unfolding s'_def by (intro groups_inv_update [OF inv i]) (simp_all add: d'_def)
  moreover have "same_groups g s s'"
    using i by (simp add: same_groups_def s'_def d'_def map_update list_update_same_conv)
  moreover have "block_used g s' y \<longleftrightarrow> unat b \<le> y \<and> y < unat e \<or> block_used g s y" if y: "valid_block s y" for y
  proof -
    have yl: "block_grp s y < length ?ds" using y by (simp add: valid_block_def)
    have "block_bitmap_block (?ds[?i := d'] ! block_grp s y) = block_bitmap_block (?ds ! block_grp s y)"
      using i by (cases "block_grp s y = ?i") (simp_all add: d'_def)
    then have u: "block_used g s' y = bitmap_bit m (block_start g ?sb (block_bitmap_block (?ds ! block_grp s y))) (block_idx s y)"
      by (simp add: s'_def block_used_def block_grp_def block_idx_def)
    show ?thesis
    proof (cases "block_grp s y = ?i")
      case True
      have "block_idx s y \<in> {?x..<?x + ?len} \<longleftrightarrow> unat b \<le> y \<and> y < unat e"
        using block_number(1) [OF inv y] block_number(1) [OF inv b] True le by auto
      then show ?thesis using u bits [of "block_idx s y"] True by (auto simp: block_used_def)
    next
      case False
      have "agree_on (?area (block_grp s y) 0) (mem s) m"
        using dis [OF yl, of 0] False by (intro agree_on_mono [OF frame]) auto
      then have "agree_on {block_start g ?sb (block_bitmap_block (?ds ! block_grp s y))
          ..<block_start g ?sb (block_bitmap_block (?ds ! block_grp s y)) + ?bs} (mem s) m"
        by (simp add: area_bytes_def group_areas_def)
      from bitmap_bit_cong [OF this block_number(3) [OF inv y]]
      have "block_used g s' y = block_used g s y" using u by (simp add: block_used_def)
      moreover have "\<not> (unat b \<le> y \<and> y < unat e)"
      proof
        assume r: "unat b \<le> y \<and> y < unat e"
        then have "?x + (y - unat b) < unat (s_blocks_per_group ?sb)" using fit by linarith
        then show False using block_in_range(1) [OF inv b, of y] r False by simp
      qed
      ultimately show ?thesis by blast
    qed
  qed
  moreover have "agree_on (- block_bitmap_bytes g s (unat b)) (mem s) (mem s')"
    using frame by (simp add: s'_def block_bitmap_bytes_def)
  moreover have "free_blocks (fs_group_descs s' ! ?i) + ?len = free_blocks ?d"
    using cnt le_free i by (simp add: s'_def)
  ultimately show ?thesis using run by blast
qed

text \<open>
  C9. \<open>add_extent_to_block_bitmap\<close> for blocks of one group that are all free succeeds, marks
  exactly these blocks as used, takes their number off the group's count of free blocks and
  keeps the groups' invariant.
\<close>

theorem add_extent_to_block_bitmap_correct:
  fixes b e :: u64
  assumes "groups_inv g s" and "valid_block s (unat b)" and "unat b \<le> unat e"
    and "block_idx s (unat b) + (unat e - unat b) \<le> unat (s_blocks_per_group (fs_sb s))"
    and "\<forall>x. unat b \<le> x \<longrightarrow> x < unat e \<longrightarrow> \<not> block_used g s x"
  shows "\<exists>s'. add_extent_to_block_bitmap g b e s = Inr s' \<and> groups_inv g s'
    \<and> (\<forall>x. valid_block s x \<longrightarrow> (block_used g s' x \<longleftrightarrow> unat b \<le> x \<and> x < unat e \<or> block_used g s x))
    \<and> free_blocks (fs_group_descs s' ! block_grp s (unat b)) + (unat e - unat b)
        = free_blocks (fs_group_descs s ! block_grp s (unat b))"
  using add_blocks_spec [OF assms(1-4)] assms(5) by blast

end
