(* ===== verification/Group_Init.thy ===== *)
theory Group_Init
  imports Block_Groups
begin

section \<open>Fresh block groups\<close>

text \<open>
  What \<open>init_ext4_group_descs\<close> makes of the memory: the bitmaps and the inode table of every
  group, one round of its loop after the other, and the groups' invariant for the result. The
  loop never runs into its own earlier rounds because the metadata of a group lies in the group.
\<close>


text \<open>
  What \<open>init_ext4_group_descs\<close> needs of the superblock: no value wraps around, and the
  metadata of every group fits into the group.
\<close>

definition layout_ok :: "ext4_super_block \<Rightarrow> bool" where
  "layout_ok sb \<longleftrightarrow>
     0 < unat (s_blocks_per_group sb) \<and> unat (s_blocks_per_group sb) \<le> 8 * unat (block_size sb)
     \<and> 8 * unat (block_size sb) < 2 ^ 32
     \<and> unat (s_blocks_per_group sb) * unat (block_group_count sb) + unat (s_first_data_block sb) < 2 ^ 32
     \<and> 11 \<le> unat (s_inodes_per_group sb) \<and> unat (s_inodes_per_group sb) \<le> 8 * unat (block_size sb)
     \<and> sizeof_inode \<le> unat (s_inode_size sb)
     \<and> unat (s_inodes_per_group sb) * unat (s_inode_size sb) + unat (block_size sb) < 2 ^ 32
     \<and> 3 + unat (gdt_block_count sb) + unat (s_reserved_gdt_blocks sb) + unat (inode_table_blocks sb) < 2 ^ 32
     \<and> list_all (\<lambda>i. unat (block_group_overhead sb (word_of_nat i))
           \<le> unat (block_group_block_count sb (word_of_nat i))) [0..<unat (block_group_count sb)]"

lemma layout_okD:
  assumes "layout_ok sb"
  shows "0 < unat (s_blocks_per_group sb)" "unat (s_blocks_per_group sb) \<le> 8 * unat (block_size sb)"
    "8 * unat (block_size sb) < 4294967296"
    "unat (s_blocks_per_group sb) * unat (block_group_count sb) + unat (s_first_data_block sb) < 4294967296"
    "11 \<le> unat (s_inodes_per_group sb)" "unat (s_inodes_per_group sb) \<le> 8 * unat (block_size sb)"
    "160 \<le> unat (s_inode_size sb)"
    "unat (s_inodes_per_group sb) * unat (s_inode_size sb) + unat (block_size sb) < 4294967296"
    "3 + unat (gdt_block_count sb) + unat (s_reserved_gdt_blocks sb) + unat (inode_table_blocks sb) < 4294967296"
    "i < unat (block_group_count sb) \<Longrightarrow>
       unat (block_group_overhead sb (word_of_nat i)) \<le> unat (block_group_block_count sb (word_of_nat i))"
  using assms by (simp_all add: layout_ok_def sizeof_inode_def list_all_iff)

text \<open>The first block of a group and the offset of its block bitmap, as natural numbers.\<close>

definition group_first :: "ext4_super_block \<Rightarrow> nat \<Rightarrow> nat" where
  "group_first sb i = unat (s_blocks_per_group sb) * i + unat (s_first_data_block sb)"

definition bitmap_offset :: "ext4_super_block \<Rightarrow> nat \<Rightarrow> nat" where
  "bitmap_offset sb i = (if block_group_has_sb_copy sb (word_of_nat i)
     then 1 + unat (gdt_block_count sb) + unat (s_reserved_gdt_blocks sb) else 0)"

definition block_addr :: "fat_globals \<Rightarrow> ext4_super_block \<Rightarrow> nat \<Rightarrow> nat" where
  "block_addr g sb x = mi_fs_start (meta_info g) + x * unat (block_size sb)"

lemma block_start_addr:
  assumes "unat w < 4294967296"
  shows "block_start g sb w = block_addr g sb (unat w)"
proof -
  have "unat w * unat (block_size sb) \<le> 4294967295 * 4294967295"
    using assms unat_u32_bound [of "block_size sb"] by (intro mult_le_mono) linarith+
  then have "unat (w * ucast (block_size sb)) = unat w * unat (block_size sb)"
    by (subst unat_mult_no_overflow) simp_all
  then show ?thesis by (simp add: block_start_def block_addr_def)
qed

lemma group_blocks:
  assumes L: "layout_ok sb" and i: "i < unat (block_group_count sb)"
  shows "unat (block_group_start sb (word_of_nat i)) = group_first sb i"
    and "unat (group_bitmap_block sb (word_of_nat i)) = group_first sb i + bitmap_offset sb i"
    and "unat (block_group_overhead sb (word_of_nat i)) = bitmap_offset sb i + 2 + unat (inode_table_blocks sb)"
    and "bitmap_offset sb i + 2 + unat (inode_table_blocks sb) \<le> unat (block_group_block_count sb (word_of_nat i))"
    and "unat (block_group_block_count sb (word_of_nat i)) \<le> unat (s_blocks_per_group sb)"
    and "group_first sb i + unat (s_blocks_per_group sb) < 4294967296"
    and "unat (word_of_nat i :: u32) = i"
proof -
  let ?w = "word_of_nat i :: u32" and ?p = "unat (s_blocks_per_group sb)"
  have "i < 4294967296" using i unat_u32_bound [of "block_group_count sb"] by linarith
  then have "i < 2 ^ LENGTH(32)" by simp
  then show w: "unat ?w = i" by (simp only: unat_of_nat mod_less)
  have "?p * (i + 1) \<le> ?p * unat (block_group_count sb)" using i by (intro mult_le_mono2) simp
  then show top: "group_first sb i + ?p < 4294967296"
    using layout_okD(4) [OF L] by (simp add: group_first_def)
  then show st: "unat (block_group_start sb ?w) = group_first sb i"
    by (subst unat_block_group_start) (simp_all add: w group_first_def)
  have small: "1 + unat (gdt_block_count sb) + unat (s_reserved_gdt_blocks sb) < 4294967296"
    using layout_okD(9) [OF L] by linarith
  show "unat (group_bitmap_block sb ?w) = group_first sb i + bitmap_offset sb i"
  proof (cases "block_group_has_sb_copy sb ?w")
    case True
    have "unat (block_group_start sb ?w + 1) = group_first sb i + 1"
      using top st by (subst unat_add_no_overflow) simp_all
    then have "unat (block_group_start sb ?w + 1 + ucast (gdt_block_count sb)) = group_first sb i + 1 + unat (gdt_block_count sb)"
      using top small by (subst unat_add_no_overflow) simp_all
    then show ?thesis
      using True top small by (simp add: group_bitmap_block_def bitmap_offset_def unat_add_no_overflow)
  qed (simp add: group_bitmap_block_def bitmap_offset_def st)
  show o: "unat (block_group_overhead sb ?w) = bitmap_offset sb i + 2 + unat (inode_table_blocks sb)"
  proof (cases "block_group_has_sb_copy sb ?w")
    case True
    have "unat (3 + gdt_block_count sb) = 3 + unat (gdt_block_count sb)"
      using layout_okD(9) [OF L] by (subst unat_add_no_overflow) simp_all
    then have "unat (3 + gdt_block_count sb + ucast (s_reserved_gdt_blocks sb)) =
        3 + unat (gdt_block_count sb) + unat (s_reserved_gdt_blocks sb)"
      using layout_okD(9) [OF L] by (subst unat_add_no_overflow) simp_all
    then show ?thesis
      using True layout_okD(9) [OF L]
      by (simp add: block_group_overhead_def block_group_overhead_copy_def bitmap_offset_def unat_add_no_overflow)
  next
    case False
    then show ?thesis
      using layout_okD(9) [OF L]
      by (simp add: block_group_overhead_def block_group_overhead_copy_def bitmap_offset_def unat_add_no_overflow)
  qed
  show "bitmap_offset sb i + 2 + unat (inode_table_blocks sb) \<le> unat (block_group_block_count sb ?w)"
    using layout_okD(10) [OF L i] o by simp
  show "unat (block_group_block_count sb ?w) \<le> ?p"
    by (simp add: block_group_block_count_def Let_def min_u32_def word_less_nat_alt)
qed

lemma inode_table_size:
  assumes L: "layout_ok sb"
  shows "unat (s_inodes_per_group sb) * unat (s_inode_size sb) \<le> unat (inode_table_blocks sb) * unat (block_size sb)"
    and "unat (inode_table_blocks sb) * unat (block_size sb) < 4294967296"
proof -
  let ?n = "unat (s_inodes_per_group sb) * unat (s_inode_size sb)" and ?z = "unat (block_size sb)"
  have bs: "0 < ?z" using layout_okD(1,2) [OF L] by linarith
  have lim: "?n + ?z < 4294967296" by (rule layout_okD(8) [OF L])
  have "unat (s_inodes_per_group sb * ucast (s_inode_size sb)) = ?n"
    using lim by (subst unat_mult_no_overflow) simp_all
  then have "unat (s_inodes_per_group sb * ucast (s_inode_size sb) + block_size sb) = ?n + ?z"
    using lim by (subst unat_add_no_overflow) simp_all
  then have "unat (s_inodes_per_group sb * ucast (s_inode_size sb) + block_size sb - 1) = ?n + ?z - 1"
    using bs by (subst unat_sub_no_underflow) simp_all
  then have t: "unat (inode_table_blocks sb) = (?n + ?z - 1) div ?z"
    by (simp add: inode_table_blocks_def ceildiv_u32_def unat_div)
  have "?n + ?z - 1 < ((?n + ?z - 1) div ?z + 1) * ?z"
    using dividend_less_div_times [OF bs, of "?n + ?z - 1"] by (simp add: distrib_right)
  then show "?n \<le> unat (inode_table_blocks sb) * ?z" unfolding t distrib_right using bs by linarith
  have "(?n + ?z - 1) div ?z * ?z \<le> ?n + ?z - 1" by simp
  then show "unat (inode_table_blocks sb) * ?z < 4294967296" unfolding t using lim by linarith
qed

lemma bitmap_fill: "j < 8 * n \<Longrightarrow> \<not> bitmap_bit (mem_fill m a 0 n) a j"
  by (simp add: bitmap_bit_def mem_fill_at less_mult_imp_div_less mult.commute)

text \<open>A zeroed bitmap with two ranges of bits set.\<close>

lemma bitmap_two_ranges:
  fixes b c d :: u32 and m :: memory and a n :: nat
  assumes "unat b \<le> 8 * n" and "unat d = 8 * n"
  defines "m' \<equiv> bitmap_set_bits (bitmap_set_bits (mem_fill m a 0 n) a 0 b) a c d"
  shows "agree_on (- {a..<a + n}) m m'"
    and "j < 8 * n \<Longrightarrow> bitmap_bit m' a j \<longleftrightarrow> j < unat b \<or> unat c \<le> j"
proof -
  show "bitmap_bit m' a j \<longleftrightarrow> j < unat b \<or> unat c \<le> j" if "j < 8 * n"
    using that bitmap_fill [OF that] assms(2) by (auto simp: m'_def bitmap_set_bits_bits)
  have "m' x = m x" if "x \<notin> {a..<a + n}" for x
  proof -
    have "(unat b + 7) div 8 \<le> n" using assms(1) by simp
    then have "x \<notin> {a + unat (0 :: u32) div 8..<a + (unat b + 7) div 8}" using that by auto
    moreover have "x \<notin> {a + unat c div 8..<a + (unat d + 7) div 8}" using that assms(2) by auto
    ultimately show ?thesis
      unfolding m'_def using that by (simp only: bitmap_set_bits_frame mem_fill_frame not_False_eq_True)
  qed
  then show "agree_on (- {a..<a + n}) m m'" by (simp add: agree_on_def)
qed

lemma block_addr_add: "block_addr g sb (x + k) = block_addr g sb x + k * unat (block_size sb)"
  by (simp add: block_addr_def distrib_right)

lemma init_group_memory_spec:
  fixes m :: memory and g :: fat_globals
  assumes L: "layout_ok sb" and i: "i < unat (block_group_count sb)"
  defines "m' \<equiv> init_group_memory g sb (word_of_nat i) m" and "x \<equiv> group_first sb i + bitmap_offset sb i"
    and "z \<equiv> unat (block_size sb)"
  shows "agree_on (- {block_addr g sb x..<block_addr g sb (x + 2) + unat (inode_table_blocks sb) * z}) m m'"
    and "j < 8 * z \<Longrightarrow> bitmap_bit m' (block_addr g sb x) j \<longleftrightarrow>
      j < unat (block_group_overhead sb (word_of_nat i)) \<or> unat (block_group_block_count sb (word_of_nat i)) \<le> j"
    and "j < 8 * z \<Longrightarrow> bitmap_bit m' (block_addr g sb (x + 1)) j \<longleftrightarrow>
      j < unat (group_used_inodes (word_of_nat i)) \<or> unat (s_inodes_per_group sb) \<le> j"
    and "y < unat (inode_table_blocks sb) * z \<Longrightarrow> m' (block_addr g sb (x + 2) + y) = 0"
proof -
  let ?w = "word_of_nat i :: u32" and ?b = "group_bitmap_block sb (word_of_nat i)"
  let ?bb = "block_addr g sb x" and ?ib = "block_addr g sb (x + 1)" and ?it = "block_addr g sb (x + 2)"
  note G = group_blocks [OF L i]
  have b: "unat ?b = x" using G(2) by (simp add: x_def)
  have top: "x + 2 < 4294967296" using G(4,5,6) by (simp add: x_def)
  have b1: "unat (?b + 1) = x + 1" "unat (?b + 2) = x + 2"
    using top b by (simp_all add: unat_add_no_overflow)
  have starts: "block_start g sb ?b = ?bb" "block_start g sb (?b + 1) = ?ib" "block_start g sb (?b + 2) = ?it"
    using top by (simp_all only: block_start_addr b b1)
  have z8: "unat (block_size sb * 8) = 8 * z" "8 * z < 4294967296"
    using layout_okD(3) [OF L] by (simp_all add: z_def unat_mult_no_overflow mult.commute)
  have tbl: "unat (block_size sb * inode_table_blocks sb) = unat (inode_table_blocks sb) * z"
    using inode_table_size(2) [OF L] by (subst unat_mult_no_overflow) (simp_all add: z_def mult.commute)
  have ibit: "?ib = ?bb + z" "?it = ?bb + 2 * z" by (simp_all add: block_addr_def z_def distrib_right)
  define m3 where "m3 = bitmap_set_bits (bitmap_set_bits (mem_fill m ?bb 0 z) ?bb 0 (block_group_overhead sb ?w)) ?bb
    (block_group_block_count sb ?w) (block_size sb * 8)"
  define m6 where "m6 = bitmap_set_bits (bitmap_set_bits (mem_fill m3 ?ib 0 z) ?ib 0 (group_used_inodes ?w)) ?ib
    (s_inodes_per_group sb) (block_size sb * 8)"
  have m': "m' = mem_fill m6 ?it 0 (unat (inode_table_blocks sb) * z)"
    unfolding m'_def init_group_memory_def Let_def starts tbl m6_def m3_def z_def block_group_overhead_def ..
  have o: "unat (block_group_overhead sb ?w) \<le> 8 * z"
    using G(3,4,5) layout_okD(2) [OF L] by (simp add: z_def)
  have u: "unat (group_used_inodes ?w) \<le> 8 * z"
    using layout_okD(5,6) [OF L] by (simp add: group_used_inodes_def EXT4_FIRST_NON_RSV_INODE_def z_def)
  note r3 = bitmap_two_ranges [OF o z8(1), where m = m and a = ?bb and c = "block_group_block_count sb ?w", folded m3_def]
  note r6 = bitmap_two_ranges [OF u z8(1), where m = m3 and a = ?ib and c = "s_inodes_per_group sb", folded m6_def]
  have r7: "agree_on (- {?it..<?it + unat (inode_table_blocks sb) * z}) m6 m'"
    by (auto simp: agree_on_def m' mem_fill_frame)
  show "agree_on (- {?bb..<?it + unat (inode_table_blocks sb) * z}) m m'"
    using r3(1) r6(1) r7 by (auto simp: agree_on_def ibit [simplified])
  show "bitmap_bit m' ?bb j \<longleftrightarrow> j < unat (block_group_overhead sb ?w) \<or> unat (block_group_block_count sb ?w) \<le> j"
    if "j < 8 * z"
  proof -
    have "agree_on {?bb..<?bb + z} m3 m'" using r6(1) r7 by (auto simp: agree_on_def ibit [simplified])
    from bitmap_bit_cong [OF this that] show ?thesis using r3(2) [OF that] by simp
  qed
  show "bitmap_bit m' ?ib j \<longleftrightarrow> j < unat (group_used_inodes ?w) \<or> unat (s_inodes_per_group sb) \<le> j" if "j < 8 * z"
  proof -
    have "agree_on {?ib..<?ib + z} m6 m'" using r7 by (auto simp: agree_on_def ibit [simplified])
    from bitmap_bit_cong [OF this that] show ?thesis using r6(2) [OF that] by simp
  qed
  show "m' (?it + y) = 0" if "y < unat (inode_table_blocks sb) * z" using that by (simp add: m' mem_fill_at)
qed

definition group_bytes :: "fat_globals \<Rightarrow> ext4_super_block \<Rightarrow> nat \<Rightarrow> nat set" where
  "group_bytes g sb i = {block_addr g sb (group_first sb i)
     ..<block_addr g sb (group_first sb i + unat (s_blocks_per_group sb))}"

lemma block_addr_mono: "x \<le> y \<Longrightarrow> block_addr g sb x \<le> block_addr g sb y"
  by (simp add: block_addr_def)

lemma group_end_le: "i < j \<Longrightarrow> group_first sb i + unat (s_blocks_per_group sb) \<le> group_first sb j"
  using mult_le_mono2 [of "i + 1" j "unat (s_blocks_per_group sb)"] by (simp add: group_first_def)

lemma group_bytes_disjoint: "i \<noteq> j \<Longrightarrow> group_bytes g sb i \<inter> group_bytes g sb j = {}"
proof -
  have "group_bytes g sb i \<inter> group_bytes g sb j = {}" if "i < j" for i j
    using block_addr_mono [OF group_end_le [OF that, of sb], of g sb] by (auto simp: group_bytes_def)
  then show "i \<noteq> j \<Longrightarrow> ?thesis" by (cases "i < j") (auto simp: nat_neq_iff)
qed

lemma group_metadata_bytes:
  assumes L: "layout_ok sb" and i: "i < unat (block_group_count sb)"
  defines "x \<equiv> group_first sb i + bitmap_offset sb i"
  shows "{block_addr g sb x..<block_addr g sb (x + 2) + unat (inode_table_blocks sb) * unat (block_size sb)}
    \<subseteq> group_bytes g sb i"
proof -
  have "block_addr g sb (x + 2) + unat (inode_table_blocks sb) * unat (block_size sb) =
      block_addr g sb (x + 2 + unat (inode_table_blocks sb))" by (simp only: block_addr_add)
  also have "\<dots> \<le> block_addr g sb (group_first sb i + unat (s_blocks_per_group sb))"
    using group_blocks(4,5) [OF L i] by (intro block_addr_mono) (simp add: x_def)
  finally have "block_addr g sb (x + 2) + unat (inode_table_blocks sb) * unat (block_size sb)
    \<le> block_addr g sb (group_first sb i + unat (s_blocks_per_group sb))" .
  moreover have "block_addr g sb (group_first sb i) \<le> block_addr g sb x" by (rule block_addr_mono) (simp add: x_def)
  ultimately show ?thesis by (auto simp: group_bytes_def)
qed

lemma init_groups_fold:
  fixes g :: fat_globals
  assumes L: "layout_ok sb"
  defines "M \<equiv> \<lambda>k m. foldl (\<lambda>m i. init_group_memory g sb i m) m (map word_of_nat [0..<k])"
  shows "k \<le> unat (block_group_count sb) \<Longrightarrow>
    (\<forall>i < k. agree_on (group_bytes g sb i) (init_group_memory g sb (word_of_nat i) (M i m)) (M k m))
    \<and> agree_on (- (\<Union>i < k. group_bytes g sb i)) m (M k m)"
proof (induction k)
  case 0
  then show ?case by (simp add: M_def agree_on_def)
next
  case (Suc k)
  then have k: "k < unat (block_group_count sb)" by simp
  have step: "M (Suc k) m = init_group_memory g sb (word_of_nat k) (M k m)" by (simp add: M_def)
  have out: "agree_on (- group_bytes g sb k) (M k m) (M (Suc k) m)"
    unfolding step by (rule agree_on_mono [OF init_group_memory_spec(1) [OF L k]])
      (use group_metadata_bytes [OF L k] in blast)
  have "agree_on (group_bytes g sb i) (init_group_memory g sb (word_of_nat i) (M i m)) (M (Suc k) m)" if "i < Suc k" for i
  proof (cases "i = k")
    case True
    then show ?thesis by (simp add: step agree_on_def)
  next
    case False
    then have "agree_on (group_bytes g sb i) (init_group_memory g sb (word_of_nat i) (M i m)) (M k m)"
      using Suc.IH k that by simp
    moreover have "agree_on (group_bytes g sb i) (M k m) (M (Suc k) m)"
      using group_bytes_disjoint [OF False] by (intro agree_on_mono [OF out]) blast
    ultimately show ?thesis by (rule agree_on_trans)
  qed
  moreover have "agree_on (- (\<Union>i < Suc k. group_bytes g sb i)) m (M (Suc k) m)"
  proof -
    have "- (\<Union>i < Suc k. group_bytes g sb i) \<subseteq> - (\<Union>i < k. group_bytes g sb i)"
      "- (\<Union>i < Suc k. group_bytes g sb i) \<subseteq> - group_bytes g sb k"
      unfolding lessThan_Suc UN_insert by blast+
    moreover have "agree_on (- (\<Union>i < k. group_bytes g sb i)) m (M k m)" using Suc.IH k by simp
    ultimately show ?thesis using out agree_on_mono agree_on_trans by metis
  qed
  ultimately show ?case by blast
qed

lemma init_group_desc_fields:
  "block_bitmap_block (init_group_desc sb i) = group_bitmap_block sb i"
  "inode_bitmap_block (init_group_desc sb i) = group_bitmap_block sb i + 1"
  "inode_table_block (init_group_desc sb i) = group_bitmap_block sb i + 2"
  "free_blocks (init_group_desc sb i) = unat (block_group_block_count sb i - block_group_overhead sb i)"
  "free_inodes (init_group_desc sb i) = unat (s_inodes_per_group sb - group_used_inodes i)"
  by (simp_all add: init_group_desc_def Let_def split_beta block_bitmap_block_def inode_bitmap_block_def
      inode_table_block_def free_blocks_def free_inodes_def block_group_overhead_def)

lemma init_group_areas:
  assumes L: "layout_ok sb" and i: "i < unat (block_group_count sb)"
  defines "x \<equiv> group_first sb i + bitmap_offset sb i"
  shows "group_areas g sb (init_group_desc sb (word_of_nat i)) =
      [(block_addr g sb x, unat (block_size sb)), (block_addr g sb (x + 1), unat (block_size sb)),
       (block_addr g sb (x + 2), unat (s_inodes_per_group sb) * unat (s_inode_size sb))]"
proof -
  note G = group_blocks [OF L i]
  have b: "unat (group_bitmap_block sb (word_of_nat i)) = x" using G(2) by (simp add: x_def)
  have top: "x + 2 < 4294967296" using G(4,5,6) by (simp add: x_def)
  have b1: "unat (group_bitmap_block sb (word_of_nat i) + 1) = x + 1"
    "unat (group_bitmap_block sb (word_of_nat i) + 2) = x + 2"
    using top b by (simp_all add: unat_add_no_overflow)
  show ?thesis using top by (simp add: group_areas_def init_group_desc_fields block_start_addr b b1)
qed

lemma init_groups_apart:
  assumes L: "layout_ok sb"
  shows "areas_apart g sb (map (init_group_desc sb) (map word_of_nat [0..<unat (block_group_count sb)]))"
proof -
  let ?n = "unat (block_group_count sb)" and ?z = "unat (block_size sb)"
  let ?areas = "\<lambda>i. group_areas g sb (init_group_desc sb (word_of_nat i))"
  have inside: "area_bytes y \<subseteq> group_bytes g sb i" "fst y + snd y \<le> block_addr g sb (group_first sb i + unat (s_blocks_per_group sb))"
    "block_addr g sb (group_first sb i) \<le> fst y"
    if i: "i < ?n" and y: "y \<in> set (?areas i)" for i y
  proof -
    let ?x = "group_first sb i + bitmap_offset sb i"
    have 1: "block_addr g sb (?x + 2) + unat (inode_table_blocks sb) * ?z =
        block_addr g sb (?x + 2 + unat (inode_table_blocks sb))" by (simp only: block_addr_add)
    have 2: "block_addr g sb (?x + 2 + unat (inode_table_blocks sb))
        \<le> block_addr g sb (group_first sb i + unat (s_blocks_per_group sb))"
      using group_blocks(4,5) [OF L i] by (intro block_addr_mono) simp
    have 3: "block_addr g sb (group_first sb i) \<le> block_addr g sb ?x" by (rule block_addr_mono) simp
    have 4: "block_addr g sb (?x + 1) = block_addr g sb ?x + ?z" "block_addr g sb (?x + 2) = block_addr g sb ?x + 2 * ?z"
      by (simp_all add: block_addr_def distrib_right)
    show "fst y + snd y \<le> block_addr g sb (group_first sb i + unat (s_blocks_per_group sb))"
      "block_addr g sb (group_first sb i) \<le> fst y"
      using y 1 2 3 4 inode_table_size(1) [OF L] unfolding init_group_areas [OF L i] by auto
    then show "area_bytes y \<subseteq> group_bytes g sb i" by (auto simp: area_bytes_def group_bytes_def)
  qed
  have "sorted_wrt apart (?areas i)" if "i < ?n" for i
    unfolding init_group_areas [OF L that] by (simp add: apart_def block_addr_def distrib_right)
  moreover have "apart x y" if "j < ?n" "i < j" "x \<in> set (?areas i)" "y \<in> set (?areas j)" for i j x y
    using inside(2) [of i x] inside(3) [of j y] that block_addr_mono [OF group_end_le [OF that(2), of sb], of g sb]
    by (simp add: apart_def)
  ultimately show ?thesis unfolding areas_apart_def sorted_wrt_concat by simp
qed

lemma free_bits_between:
  assumes "\<And>j. j < n \<Longrightarrow> bitmap_bit m a j \<longleftrightarrow> j < lo \<or> hi \<le> j" and "lo \<le> hi" "hi \<le> n"
  shows "free_bits m a n = hi - lo"
proof -
  have "{j. j < n \<and> \<not> bitmap_bit m a j} = {lo..<hi}" using assms by auto
  then show ?thesis by (simp add: free_bits_card)
qed

text \<open>One group of the finished memory.\<close>

lemma init_group_result:
  fixes g :: fat_globals and m :: memory
  assumes L: "layout_ok sb" and i: "i < unat (block_group_count sb)"
  defines "m' \<equiv> foldl (\<lambda>m i. init_group_memory g sb i m) m (map word_of_nat [0..<unat (block_group_count sb)])"
    and "x \<equiv> group_first sb i + bitmap_offset sb i"
  shows "j < 8 * unat (block_size sb) \<Longrightarrow> bitmap_bit m' (block_addr g sb x) j \<longleftrightarrow>
      j < unat (block_group_overhead sb (word_of_nat i)) \<or> unat (block_group_block_count sb (word_of_nat i)) \<le> j"
    and "j < 8 * unat (block_size sb) \<Longrightarrow> bitmap_bit m' (block_addr g sb (x + 1)) j \<longleftrightarrow>
      j < unat (group_used_inodes (word_of_nat i)) \<or> unat (s_inodes_per_group sb) \<le> j"
    and "y < unat (inode_table_blocks sb) * unat (block_size sb) \<Longrightarrow> m' (block_addr g sb (x + 2) + y) = 0"
    and "counts_ok g sb m' (init_group_desc sb (word_of_nat i))"
proof -
  let ?z = "unat (block_size sb)" and ?w = "word_of_nat i :: u32"
  define mi where "mi = foldl (\<lambda>m i. init_group_memory g sb i m) m (map word_of_nat [0..<i])"
  let ?m1 = "init_group_memory g sb ?w mi"
  have ag: "agree_on (group_bytes g sb i) ?m1 m'"
    using init_groups_fold [OF L order_refl, of g m] i by (simp add: m'_def mi_def)
  have sub: "{block_addr g sb x..<block_addr g sb (x + 2) + unat (inode_table_blocks sb) * ?z} \<subseteq> group_bytes g sb i"
    using group_metadata_bytes [OF L i] by (simp add: x_def)
  have a: "block_addr g sb (x + 1) = block_addr g sb x + ?z" "block_addr g sb (x + 2) = block_addr g sb x + 2 * ?z"
    by (simp_all add: block_addr_def distrib_right)
  note spec = init_group_memory_spec [OF L i, where g = g and m = mi, folded x_def]
  have ag1: "agree_on {block_addr g sb x..<block_addr g sb x + ?z} ?m1 m'"
    "agree_on {block_addr g sb (x + 1)..<block_addr g sb (x + 1) + ?z} ?m1 m'"
    using sub by (intro agree_on_mono [OF ag]; unfold a; fastforce)+
  show bb: "bitmap_bit m' (block_addr g sb x) j \<longleftrightarrow>
      j < unat (block_group_overhead sb ?w) \<or> unat (block_group_block_count sb ?w) \<le> j" if "j < 8 * ?z" for j
    using bitmap_bit_cong [OF ag1(1) that] spec(2) [OF that] by simp
  show ib: "bitmap_bit m' (block_addr g sb (x + 1)) j \<longleftrightarrow>
      j < unat (group_used_inodes ?w) \<or> unat (s_inodes_per_group sb) \<le> j" if "j < 8 * ?z" for j
    using bitmap_bit_cong [OF ag1(2) that] spec(3) [OF that] by simp
  show "m' (block_addr g sb (x + 2) + y) = 0" if "y < unat (inode_table_blocks sb) * ?z"
  proof -
    have "block_addr g sb (x + 2) + y \<in> group_bytes g sb i" using sub that a by auto
    then show ?thesis using ag spec(4) [OF that] by (simp add: agree_on_def)
  qed
  note G = group_blocks [OF L i]
  have b: "unat (group_bitmap_block sb ?w) = x" using G(2) by (simp add: x_def)
  have top: "x + 2 < 4294967296" using G(4,5,6) by (simp add: x_def)
  have "unat (group_bitmap_block sb ?w + 1) = x + 1" using top b by (simp add: unat_add_no_overflow)
  then have starts: "block_start g sb (group_bitmap_block sb ?w) = block_addr g sb x"
    "block_start g sb (group_bitmap_block sb ?w + 1) = block_addr g sb (x + 1)"
    using top b by (simp_all only: block_start_addr)
  have o: "unat (block_group_overhead sb ?w) \<le> unat (block_group_block_count sb ?w)"
    by (rule layout_okD(10) [OF L i])
  have c: "unat (block_group_block_count sb ?w) \<le> 8 * ?z" using G(5) layout_okD(2) [OF L] by linarith
  have u: "unat (group_used_inodes ?w) \<le> unat (s_inodes_per_group sb)"
    using layout_okD(5) [OF L] by (simp add: group_used_inodes_def EXT4_FIRST_NON_RSV_INODE_def)
  show "counts_ok g sb m' (init_group_desc sb ?w)"
    unfolding counts_ok_def init_group_desc_fields starts
    using free_bits_between [OF bb o c] free_bits_between [OF ib u layout_okD(6) [OF L]]
    by (simp add: unat_sub_no_underflow o u)
qed

lemma init_groups_spec:
  assumes L: "layout_ok (fs_sb s)"
  shows "groups_inv g (init_ext4_group_descs g s)
    \<and> (\<forall>x. valid_block (init_ext4_group_descs g s) x \<longrightarrow>
         (block_used g (init_ext4_group_descs g s) x \<longleftrightarrow>
            (let i = word_of_nat (block_grp s x)
             in block_idx s x < unat (block_group_overhead (fs_sb s) i)
                \<or> unat (block_group_block_count (fs_sb s) i) \<le> block_idx s x)))
    \<and> (\<forall>k. valid_inode (init_ext4_group_descs g s) k \<longrightarrow>
         (inode_used g (init_ext4_group_descs g s) k \<longleftrightarrow> unat k \<le> 11)
         \<and> (\<forall>a \<in> inode_slot g (init_ext4_group_descs g s) k. mem (init_ext4_group_descs g s) a = 0))"
proof -
  let ?sb = "fs_sb s" and ?s = "init_ext4_group_descs g s"
  let ?n = "unat (block_group_count (fs_sb s))" and ?z = "unat (block_size (fs_sb s))"
  have st: "fs_sb ?s = ?sb" "length (fs_group_descs ?s) = ?n"
    "fs_group_descs ?s = map (init_group_desc ?sb) (map word_of_nat [0..<?n])"
    "mem ?s = foldl (\<lambda>m i. init_group_memory g ?sb i m) (mem s) (map word_of_nat [0..<?n])"
    by (simp_all add: init_ext4_group_descs_def Let_def)
  have d: "fs_group_descs ?s ! i = init_group_desc ?sb (word_of_nat i)" if "i < ?n" for i
    using that by (simp add: st(3))
  have res: "counts_ok g ?sb (mem ?s) (init_group_desc ?sb (word_of_nat i))" if "i < ?n" for i
    unfolding st(4) by (rule init_group_result(4) [OF L that])
  have inv: "groups_inv g ?s"
    unfolding groups_inv_def st(1,2) list_all_length
    using layout_okD(1,2,4,5,6,7,8) [OF L] init_groups_apart [OF L] res d
    by (simp add: sizeof_inode_def st(3))
  have num: "block_grp ?s x = block_grp s x" "block_idx ?s x = block_idx s x"
    "inode_grp ?s k = inode_grp s k" "inode_idx ?s k = inode_idx s k" for x k
    by (simp_all add: block_grp_def block_idx_def inode_grp_def inode_idx_def st(1))
  have area: "block_start g ?sb (block_bitmap_block (fs_group_descs ?s ! i)) = block_addr g ?sb (group_first ?sb i + bitmap_offset ?sb i)"
    "block_start g ?sb (inode_bitmap_block (fs_group_descs ?s ! i)) = block_addr g ?sb (group_first ?sb i + bitmap_offset ?sb i + 1)"
    "block_start g ?sb (inode_table_block (fs_group_descs ?s ! i)) = block_addr g ?sb (group_first ?sb i + bitmap_offset ?sb i + 2)"
    if "i < ?n" for i
    using init_group_areas [OF L that, of g] by (simp_all add: group_areas_def d [OF that])
  have blocks: "block_used g ?s x \<longleftrightarrow> (let i = word_of_nat (block_grp s x)
      in block_idx s x < unat (block_group_overhead ?sb i) \<or> unat (block_group_block_count ?sb i) \<le> block_idx s x)"
    if x: "valid_block ?s x" for x
  proof -
    have i: "block_grp s x < ?n" using x st(2) num by (simp add: valid_block_def)
    have "block_idx s x < 8 * ?z" using block_number(3) [OF inv x] num st(1) by simp
    from init_group_result(1) [OF L i this, of g "mem s", folded st(4)] show ?thesis
      by (simp add: block_used_def num st(1) area(1) [OF i] Let_def)
  qed
  have inodes: "inode_used g ?s k \<longleftrightarrow> unat k \<le> 11" if k: "valid_inode ?s k" for k
  proof -
    have i: "inode_grp s k < ?n" and k0: "0 < unat k" using k st(2) num by (auto simp: valid_inode_def)
    have idx: "inode_idx s k < 8 * ?z" using inode_idx_bitmap [OF inv, of k] num st(1) by simp
    have lt: "inode_idx s k < unat (s_inodes_per_group ?sb)"
      using layout_okD(5) [OF L] by (simp add: inode_idx_def)
    have "inode_used g ?s k \<longleftrightarrow> inode_idx s k < unat (group_used_inodes (word_of_nat (inode_grp s k)))"
      using init_group_result(2) [OF L i idx, of g "mem s", folded st(4)] lt
      by (simp add: inode_used_def num st(1) area(2) [OF i])
    also have "\<dots> \<longleftrightarrow> unat k \<le> 11"
    proof (cases "inode_grp s k = 0")
      case True
      then have "unat k - 1 < unat (s_inodes_per_group ?sb)"
        using layout_okD(5) [OF L] by (auto simp: inode_grp_def div_eq_0_iff)
      then have "inode_idx s k = unat k - 1" by (simp add: inode_idx_def)
      then show ?thesis using True k0 by (auto simp: group_used_inodes_def EXT4_FIRST_NON_RSV_INODE_def)
    next
      case False
      then have "unat (word_of_nat (inode_grp s k) :: u32) \<noteq> 0" using group_blocks(7) [OF L i] by simp
      then have "(word_of_nat (inode_grp s k) :: u32) \<noteq> 0" by auto
      moreover have "\<not> unat k - 1 < unat (s_inodes_per_group ?sb)" using False by (auto simp: inode_grp_def)
      ultimately show ?thesis using layout_okD(5) [OF L] by (simp add: group_used_inodes_def)
    qed
    finally show ?thesis .
  qed
  have zero: "mem ?s a = 0" if k: "valid_inode ?s k" and a: "a \<in> inode_slot g ?s k" for k a
  proof -
    let ?it = "block_addr g ?sb (group_first ?sb (inode_grp s k) + bitmap_offset ?sb (inode_grp s k) + 2)"
    have i: "inode_grp s k < ?n" using k st(2) num by (auto simp: valid_inode_def)
    have "a \<in> area_bytes (group_areas g ?sb (fs_group_descs ?s ! inode_grp s k) ! 2)"
      using inode_slot_in_table [OF inv, of k] a num st(1) by auto
    then have "?it \<le> a" "a < ?it + unat (s_inodes_per_group ?sb) * unat (s_inode_size ?sb)"
      by (simp_all add: area_bytes_def group_areas_def area(3) [OF i])
    then have "mem ?s (?it + (a - ?it)) = 0"
      unfolding st(4) using inode_table_size(1) [OF L] by (intro init_group_result(3) [OF L i]) linarith
    then show ?thesis using \<open>?it \<le> a\<close> by simp
  qed
  show ?thesis using inv blocks inodes zero by blast
qed

text \<open>
  C7. \<open>init_ext4_group_descs\<close> on a superblock whose groups have room for their metadata
  establishes the groups' invariant for all groups at once: exactly the metadata blocks and the
  bits behind the end of a group are marked in the block bitmaps, exactly the inodes 1 to 11 in
  the inode bitmaps, the free counts agree with the bitmaps, and all inode tables are zero.
\<close>

theorem init_ext4_group_descs_correct:
  assumes L: "layout_ok (fs_sb s)"
  shows "groups_inv g (init_ext4_group_descs g s)
    \<and> (\<forall>x. valid_block (init_ext4_group_descs g s) x \<longrightarrow>
         (block_used g (init_ext4_group_descs g s) x \<longleftrightarrow>
            (let i = word_of_nat (block_grp s x)
             in block_idx s x < unat (block_group_overhead (fs_sb s) i)
                \<or> unat (block_group_block_count (fs_sb s) i) \<le> block_idx s x)))
    \<and> (\<forall>k. valid_inode (init_ext4_group_descs g s) k \<longrightarrow>
         (inode_used g (init_ext4_group_descs g s) k \<longleftrightarrow> unat k \<le> 11)
         \<and> (\<forall>a \<in> inode_slot g (init_ext4_group_descs g s) k. mem (init_ext4_group_descs g s) a = 0))"
  by (rule init_groups_spec [OF L])

subsection \<open>A sample file system\<close>

definition sample_ext4 :: ext4_state where
  "sample_ext4 = \<lparr>mem = \<lambda>_. 0, alloc = sample_alloc, fs_sb = sample_super_block, fs_group_descs = [],
     fs_first_free_inode_no = 12\<rparr>"

lemma sample_layout_ok: "layout_ok sample_super_block"
proof -
  have c: "block_group_block_count sample_super_block 0 = 32768" "block_group_block_count sample_super_block 1 = 32768"
    "block_group_block_count sample_super_block 2 = 520"
    by (simp_all add: layout_defs sample_super_block_def)
  have n: "gdt_block_count sample_super_block = 1"
    by (simp add: layout_defs sample_super_block_def ext4_constants)
  have "[0..<unat (3 :: u32)] = [0, 1, 2]" by (simp add: upt_rec)
  then show ?thesis
    unfolding layout_ok_def by (simp add: sample_layout c n sizeof_inode_def) (simp add: sample_super_block_def)
qed

definition sample_groups :: ext4_state where
  "sample_groups = init_ext4_group_descs sample_globals sample_ext4"

lemma sample_groups_fields:
  "fs_sb sample_groups = sample_super_block" "length (fs_group_descs sample_groups) = 3"
  "fs_first_free_inode_no sample_groups = 12"
  by (simp_all add: sample_groups_def init_ext4_group_descs_def Let_def sample_ext4_def sample_layout)

lemma sample_groups_numbers:
  "unat (s_blocks_per_group sample_super_block) = 32768" "unat (s_first_data_block sample_super_block) = 0"
  "unat (s_inodes_per_group sample_super_block) = 8192"
  by (simp_all add: sample_super_block_def)

lemma sample_groups_inv: "groups_inv sample_globals sample_groups"
  using init_groups_spec [of sample_ext4 sample_globals] sample_layout_ok
  by (simp add: sample_groups_def sample_ext4_def)

lemma sample_inode_used:
  assumes "0 < unat k" "unat k \<le> 24576"
  shows "valid_inode sample_groups k" "inode_used sample_globals sample_groups k \<longleftrightarrow> unat k \<le> 11"
proof -
  show v: "valid_inode sample_groups k"
    using assms by (simp add: valid_inode_def inode_grp_def sample_groups_fields sample_groups_numbers)
  show "inode_used sample_globals sample_groups k \<longleftrightarrow> unat k \<le> 11"
    using init_groups_spec [of sample_ext4 sample_globals] sample_layout_ok v
    by (simp add: sample_groups_def sample_ext4_def)
qed

lemma sample_block_used:
  assumes "x < 32768"
  shows "valid_block sample_groups x" "block_idx sample_groups x = x"
    "block_used sample_globals sample_groups x \<longleftrightarrow> x < 516"
proof -
  show v: "valid_block sample_groups x"
    using assms by (simp add: valid_block_def block_grp_def sample_groups_fields sample_groups_numbers)
  show "block_idx sample_groups x = x"
    using assms by (simp add: block_idx_def sample_groups_fields sample_groups_numbers)
  have n: "block_grp sample_ext4 x = 0" "block_idx sample_ext4 x = x"
    using assms by (simp_all add: block_grp_def block_idx_def sample_ext4_def sample_groups_numbers)
  have c: "block_group_block_count sample_super_block 0 = 32768"
    by (simp add: layout_defs sample_super_block_def)
  have "fs_sb sample_ext4 = sample_super_block" by (simp add: sample_ext4_def)
  then show "block_used sample_globals sample_groups x \<longleftrightarrow> x < 516"
    using init_groups_spec [of sample_ext4 sample_globals] sample_layout_ok v assms
    by (simp add: sample_groups_def n Let_def sample_layout c)
qed

theorem init_ext4_group_descs_correct_witness:
  "groups_inv sample_globals (init_ext4_group_descs sample_globals sample_ext4)"
proof -
  have "layout_ok (fs_sb sample_ext4)" using sample_layout_ok by (simp add: sample_ext4_def)
  from init_ext4_group_descs_correct [OF this, of sample_globals] show ?thesis by blast
qed

theorem add_inode_correct_witness:
  "\<exists>s'. add_inode sample_globals (load_inode (\<lambda>_. 0) 0) 12 sample_groups = Inr s' \<and> groups_inv sample_globals s'
    \<and> inode_used sample_globals s' 12 \<and> \<not> inode_used sample_globals s' 13"
proof -
  have "valid_inode sample_groups 12" "\<not> inode_used sample_globals sample_groups 12"
    "valid_inode sample_groups 13" "\<not> inode_used sample_globals sample_groups 13"
    using sample_inode_used [of 12] sample_inode_used [of 13] by simp_all
  with add_inode_correct [OF sample_groups_inv this(1,2), of "load_inode (\<lambda>_. 0) 0"] show ?thesis by auto
qed

theorem add_extent_to_block_bitmap_correct_witness:
  "\<exists>s'. add_extent_to_block_bitmap sample_globals 600 610 sample_groups = Inr s'
    \<and> groups_inv sample_globals s' \<and> block_used sample_globals s' 609 \<and> \<not> block_used sample_globals s' 610"
proof -
  have "\<exists>s'. add_extent_to_block_bitmap sample_globals 600 610 sample_groups = Inr s' \<and> groups_inv sample_globals s'
    \<and> (\<forall>x. valid_block sample_groups x \<longrightarrow> (block_used sample_globals s' x
          \<longleftrightarrow> unat (600 :: u64) \<le> x \<and> x < unat (610 :: u64) \<or> block_used sample_globals sample_groups x))
    \<and> free_blocks (fs_group_descs s' ! block_grp sample_groups (unat (600 :: u64))) + (unat (610 :: u64) - unat (600 :: u64))
        = free_blocks (fs_group_descs sample_groups ! block_grp sample_groups (unat (600 :: u64)))"
    by (rule add_extent_to_block_bitmap_correct [OF sample_groups_inv])
      (auto simp: sample_block_used sample_groups_fields sample_groups_numbers)
  then show ?thesis using sample_block_used [of 609] sample_block_used [of 610] by auto
qed

end
