(* ===== verification/Ext4_Inode.thy ===== *)
theory Ext4_Inode
  imports Group_Init
begin

unbundle bit_operations_syntax

section \<open>ext4_inode.cpp\<close>

text \<open>
  Inodes are built from the directory entries of the FAT side and stored in the inode tables;
  later changes go through a reference into the table, so that they are stores to single
  fields at its address. The results of \<open>geteuid\<close>, \<open>getegid\<close>, the successive calls of
  \<open>time\<close> (the first of them in \<open>init_ext4_sb\<close>) and the C library's \<open>mktime\<close> are the parameters of an environment.
\<close>

record environment =
  env_euid :: u32
  env_egid :: u32
  env_time :: "nat \<Rightarrow> u32"
  env_mktime :: "tm \<Rightarrow> int"

definition ROOT_UID :: u16 where "ROOT_UID = 0"
definition ROOT_GID :: u16 where "ROOT_GID = 0"

text \<open>The header of an empty extent tree, from ext4_extent.cpp; \<open>eh_magic\<close> has a default value.\<close>

definition init_extent_header :: ext4_extent_header where
  "init_extent_header = \<lparr>eh_magic = EH_MAGIC, eh_entries = 0, eh_max = 4, eh_depth = 0, eh_generation = 0\<rparr>"

text \<open>The local variable after its \<open>memset\<close>.\<close>

definition zero_inode :: ext4_inode where
  "zero_inode = \<lparr>i_mode = 0, i_uid = 0, i_size_lo = 0, i_atime = 0, i_ctime = 0, i_mtime = 0, i_gid = 0,
     i_links_count = 0, i_blocks_lo = 0, i_flags = 0,
     ext_header = \<lparr>eh_magic = 0, eh_entries = 0, eh_max = 0, eh_depth = 0, eh_generation = 0\<rparr>,
     i_size_high = 0, l_i_blocks_high = 0, l_i_uid_high = 0, l_i_gid_high = 0, i_crtime = 0\<rparr>"

subsection \<open>New inodes\<close>

definition save_inode :: "fat_globals \<Rightarrow> ext4_inode \<Rightarrow> ext4_state \<Rightarrow> (u32 \<times> ext4_state) result" where
  "save_inode g inode s =
     bind_res (add_inode g inode (fs_first_free_inode_no s) s) (\<lambda>s1.
       Inr (fs_first_free_inode_no s1, s1\<lparr>fs_first_free_inode_no := fs_first_free_inode_no s1 + 1\<rparr>))"

definition dentry_inode :: "environment \<Rightarrow> memory \<Rightarrow> nat \<Rightarrow> ext4_inode" where
  "dentry_inode env m dentry =
     (let d = load_fat_dentry m dentry;
          mtime = fat_time_to_unix (env_mktime env) (fd_mod_date d) (fd_mod_time d)
      in zero_inode\<lparr>
           i_mode := 0x1ED OR (if is_dir m dentry then S_IFDIR else S_IFREG),
           i_uid := ucast (env_euid env AND 0xFFFF), l_i_uid_high := ucast (drop_bit 16 (env_euid env)),
           i_gid := ucast (env_egid env AND 0xFFFF), l_i_gid_high := ucast (drop_bit 16 (env_egid env)),
           i_atime := fat_time_to_unix (env_mktime env) (fd_access_date d) 0,
           i_crtime := fat_time_to_unix (env_mktime env) (fd_create_date d) (fd_create_time d),
           i_mtime := mtime, i_ctime := mtime + 1,
           i_links_count := (if is_dir m dentry then 2 else 1),
           i_flags := 0x80000, ext_header := init_extent_header\<rparr>)"

definition build_inode :: "fat_globals \<Rightarrow> environment \<Rightarrow> nat \<Rightarrow> ext4_state \<Rightarrow> (u32 \<times> ext4_state) result" where
  "build_inode g env dentry s = save_inode g (dentry_inode env (mem s) dentry) s"

definition root_inode :: "environment \<Rightarrow> ext4_inode" where
  "root_inode env = zero_inode\<lparr>
     i_mode := 0x1ED OR S_IFDIR,
     i_uid := ucast (env_euid env AND 0xFFFF), l_i_uid_high := ucast (drop_bit 16 (env_euid env)),
     i_gid := ucast (env_egid env AND 0xFFFF), l_i_gid_high := ucast (drop_bit 16 (env_egid env)),
     i_atime := env_time env 1, i_ctime := env_time env 2, i_mtime := env_time env 3,
     i_links_count := 3, i_flags := 0x80000, ext_header := init_extent_header\<rparr>"

definition build_root_inode :: "fat_globals \<Rightarrow> environment \<Rightarrow> ext4_state \<Rightarrow> ext4_state result" where
  "build_root_inode g env s = add_reserved_inode g (root_inode env) EXT4_ROOT_INODE s"

definition lost_found_inode :: "environment \<Rightarrow> ext4_inode" where
  "lost_found_inode env = zero_inode\<lparr>
     i_mode := 0x1ED OR S_IFDIR, i_uid := ROOT_UID, i_gid := ROOT_GID,
     i_atime := env_time env 4, i_ctime := env_time env 5, i_mtime := env_time env 6,
     i_links_count := 2, i_flags := 0x80000, ext_header := init_extent_header\<rparr>"

definition build_lost_found_inode :: "fat_globals \<Rightarrow> environment \<Rightarrow> ext4_state \<Rightarrow> ext4_state result" where
  "build_lost_found_inode g env s = add_reserved_inode g (lost_found_inode env) EXT4_LOST_FOUND_INODE s"

subsection \<open>Changes to existing inodes\<close>

definition set_size :: "fat_globals \<Rightarrow> u32 \<Rightarrow> u64 \<Rightarrow> ext4_state \<Rightarrow> ext4_state result" where
  "set_size g inode_no sz s =
     bind_res (get_existing_inode g inode_no s) (\<lambda>a.
       let (lo, hi) = set_lo_hi_32_32 sz
       in Inr (s\<lparr>mem := store_u32 (store_u32 (mem s) (a + 4) lo) (a + 108) hi\<rparr>))"

definition get_size :: "fat_globals \<Rightarrow> u32 \<Rightarrow> ext4_state \<Rightarrow> u64 result" where
  "get_size g inode_no s =
     bind_res (get_existing_inode g inode_no s) (\<lambda>a.
       Inr (from_lo_hi_32 (load_u32 (mem s) (a + 4)) (load_u32 (mem s) (a + 108))))"

definition incr_links_count :: "fat_globals \<Rightarrow> u32 \<Rightarrow> ext4_state \<Rightarrow> ext4_state result" where
  "incr_links_count g inode_no s =
     bind_res (get_existing_inode g inode_no s) (\<lambda>a.
       Inr (s\<lparr>mem := store_u16 (mem s) (a + 26) (load_u16 (mem s) (a + 26) + 1)\<rparr>))"

subsection \<open>Stores to the fields of an inode\<close>

text \<open>Storing a field of the struct is an update of the record.\<close>

lemma load_inode_fields:
  "load_inode (store_u32 m (a + 4) w) a = (load_inode m a)\<lparr>i_size_lo := w\<rparr>"
  "load_inode (store_u32 m (a + 108) w) a = (load_inode m a)\<lparr>i_size_high := w\<rparr>"
  "load_inode (store_u16 m (a + 26) v) a = (load_inode m a)\<lparr>i_links_count := v\<rparr>"
  "load_inode (store_u32 m (a + 28) w) a = (load_inode m a)\<lparr>i_blocks_lo := w\<rparr>"
  "load_inode (store_u16 m (a + 116) v) a = (load_inode m a)\<lparr>l_i_blocks_high := v\<rparr>"
  "load_inode (store_header m (a + 40) h) a = (load_inode m a)\<lparr>ext_header := h\<rparr>"
  by (simp_all add: load_inode_def struct_simps)

text \<open>A change of the memory inside one inode.\<close>

definition slot_written :: "fat_globals \<Rightarrow> u32 \<Rightarrow> ext4_state \<Rightarrow> ext4_state \<Rightarrow> bool" where
  "slot_written g k s s' \<longleftrightarrow> s' = s\<lparr>mem := mem s'\<rparr> \<and> agree_on (- inode_slot g s k) (mem s) (mem s')"

lemma slot_written_inv:
  assumes inv: "groups_inv g s" and k: "valid_inode s k" and w: "slot_written g k s s'"
  shows "groups_inv g s'"
proof -
  let ?i = "inode_grp s k" and ?ds = "fs_group_descs s"
  let ?area = "\<lambda>l. area_bytes (group_areas g (fs_sb s) (?ds ! ?i) ! l)"
  have i: "?i < length ?ds" using k by (simp add: valid_inode_def)
  have a: "agree_on (- inode_slot g s k) (mem s) (mem s')" using w by (simp add: slot_written_def)
  have slot: "inode_slot g s k \<subseteq> ?area 2" by (rule inode_slot_in_table [OF inv])
  have "?area l \<inter> ?area 2 = {}" if "l < 2" for l
    using area_disjoint [OF inv i i, of l 2] that by simp
  from this [of 0] this [of 1] have "bitmaps_of g (fs_sb s) (?ds ! ?i) \<inter> inode_slot g s k = {}"
    using slot by (auto simp: bitmaps_of_areas)
  then have "agree_on (bitmaps_of g (fs_sb s) (?ds ! ?i)) (mem s) (mem s')"
    by (intro agree_on_mono [OF a]) auto
  then have "counts_ok g (fs_sb s) (mem s') (?ds ! ?i)" using counts_ok_cong groups_invD(7) [OF inv i] by simp
  moreover have "agree_on (- (\<Union>k \<in> {0, 1, 2}. ?area k)) (mem s) (mem s')"
    using slot by (intro agree_on_mono [OF a]) auto
  ultimately have "groups_inv g (s\<lparr>mem := mem s', fs_group_descs := ?ds[?i := ?ds ! ?i]\<rparr>)"
    by (intro groups_inv_update [OF inv i]) simp_all
  then show ?thesis using w by (simp add: slot_written_def)
qed

lemma slot_written_fields:
  assumes "slot_written g k s s'"
  shows "fs_sb s' = fs_sb s" "fs_group_descs s' = fs_group_descs s" "alloc s' = alloc s"
    "fs_first_free_inode_no s' = fs_first_free_inode_no s"
proof -
  have e: "s' = s\<lparr>mem := mem s'\<rparr>" using assms by (simp add: slot_written_def)
  show "fs_sb s' = fs_sb s" "fs_group_descs s' = fs_group_descs s" "alloc s' = alloc s"
    "fs_first_free_inode_no s' = fs_first_free_inode_no s"
    by (subst e; simp)+
qed

lemma slot_written_numbers:
  assumes "slot_written g k s s'"
  shows "valid_inode s' j = valid_inode s j" "inode_addr g s' j = inode_addr g s j" "inode_slot g s' j = inode_slot g s j"
    "inode_grp s' j = inode_grp s j" "inode_idx s' j = inode_idx s j"
  using slot_written_fields [OF assms]
  by (simp_all add: valid_inode_def inode_addr_def inode_slot_def inode_grp_def inode_idx_def)

lemma slot_written_used:
  assumes inv: "groups_inv g s" and k: "valid_inode s k" and w: "slot_written g k s s'" and j: "valid_inode s j"
  shows "inode_used g s' j = inode_used g s j"
proof -
  have a: "agree_on (- inode_slot g s k) (mem s) (mem s')" using w by (simp add: slot_written_def)
  have "agree_on (inode_bitmap_bytes g s j) (mem s) (mem s')"
    using slot_bitmap_disjoint [OF inv k j] by (intro agree_on_mono [OF a]) auto
  from bitmap_bit_cong [OF this [unfolded inode_bitmap_bytes_def area_bytes_def group_areas_def, simplified]
      inode_idx_bitmap [OF inv]]
  show ?thesis using slot_written_fields [OF w] slot_written_numbers [OF w] by (simp add: inode_used_def)
qed

lemma slot_written_other:
  assumes inv: "groups_inv g s" and k: "valid_inode s k" and w: "slot_written g k s s'" and j: "valid_inode s j" "j \<noteq> k"
  shows "load_inode (mem s') (inode_addr g s' j) = load_inode (mem s) (inode_addr g s j)"
proof -
  have "agree_on (inode_slot g s j) (mem s) (mem s')"
    using inode_slots_disjoint [OF inv k j(1,2)] w unfolding slot_written_def agree_on_def by blast
  then show ?thesis unfolding slot_written_numbers(2) [OF w]
    by (intro inode_codec.load_cong) (simp add: agree_on_def inode_slot_def)
qed

text \<open>Stores of 2 and 4 bytes at an offset of the inode.\<close>

lemma slot_writtenI:
  assumes "\<And>x. x \<notin> inode_slot g s k \<Longrightarrow> m x = mem s x"
  shows "slot_written g k s (s\<lparr>mem := m\<rparr>)"
  using assms by (simp add: slot_written_def agree_on_def)

lemma set_size_spec:
  assumes "groups_inv g s" "valid_inode s k"
  shows "\<exists>s'. set_size g k sz s = Inr s' \<and> slot_written g k s s'
    \<and> load_inode (mem s') (inode_addr g s k) = (load_inode (mem s) (inode_addr g s k))
        \<lparr>i_size_lo := fst (set_lo_hi_32_32 sz), i_size_high := snd (set_lo_hi_32_32 sz)\<rparr>"
proof -
  let ?a = "inode_addr g s k"
  let ?m = "store_u32 (store_u32 (mem s) (?a + 4) (fst (set_lo_hi_32_32 sz))) (?a + 108) (snd (set_lo_hi_32_32 sz))"
  have "set_size g k sz s = Inr (s\<lparr>mem := ?m\<rparr>)"
    by (simp add: set_size_def get_existing_inode_eq [OF assms] split_beta)
  moreover have "slot_written g k s (s\<lparr>mem := ?m\<rparr>)"
    by (rule slot_writtenI) (auto simp: inode_slot_def u32.store_frame)
  moreover have "load_inode ?m ?a = (load_inode (mem s) ?a)
      \<lparr>i_size_lo := fst (set_lo_hi_32_32 sz), i_size_high := snd (set_lo_hi_32_32 sz)\<rparr>"
    by (simp only: load_inode_fields)
  ultimately show ?thesis by (intro exI [of _ "s\<lparr>mem := ?m\<rparr>"] conjI) simp_all
qed

lemma incr_links_count_spec:
  assumes "groups_inv g s" "valid_inode s k"
  shows "\<exists>s'. incr_links_count g k s = Inr s' \<and> slot_written g k s s'
    \<and> load_inode (mem s') (inode_addr g s k) = (load_inode (mem s) (inode_addr g s k))
        \<lparr>i_links_count := i_links_count (load_inode (mem s) (inode_addr g s k)) + 1\<rparr>"
proof -
  let ?a = "inode_addr g s k"
  let ?m = "store_u16 (mem s) (?a + 26) (load_u16 (mem s) (?a + 26) + 1)"
  have "incr_links_count g k s = Inr (s\<lparr>mem := ?m\<rparr>)"
    by (simp add: incr_links_count_def get_existing_inode_eq [OF assms])
  moreover have "slot_written g k s (s\<lparr>mem := ?m\<rparr>)"
    by (rule slot_writtenI) (auto simp: inode_slot_def u16.store_frame)
  moreover have "load_inode ?m ?a = (load_inode (mem s) ?a)\<lparr>i_links_count := i_links_count (load_inode (mem s) ?a) + 1\<rparr>"
    unfolding load_inode_fields by (simp add: load_inode_def)
  ultimately show ?thesis by (intro exI [of _ "s\<lparr>mem := ?m\<rparr>"] conjI) simp_all
qed


subsection \<open>Inode numbers\<close>

text \<open>All inode numbers from \<open>first_free_inode_no\<close> on are free, and there is a number behind the last one.\<close>

definition inodes_inv :: "fat_globals \<Rightarrow> ext4_state \<Rightarrow> bool" where
  "inodes_inv g s \<longleftrightarrow> groups_inv g s \<and> 11 < unat (fs_first_free_inode_no s)
     \<and> unat (s_inodes_per_group (fs_sb s)) * length (fs_group_descs s) + 1 < 2 ^ 32
     \<and> (\<forall>k. valid_inode s k \<longrightarrow> fs_first_free_inode_no s \<le> k \<longrightarrow> \<not> inode_used g s k)"

lemma inodes_invD:
  assumes "inodes_inv g s"
  shows "groups_inv g s" "11 < unat (fs_first_free_inode_no s)"
    "unat (s_inodes_per_group (fs_sb s)) * length (fs_group_descs s) + 1 < 4294967296"
    "valid_inode s k \<Longrightarrow> fs_first_free_inode_no s \<le> k \<Longrightarrow> \<not> inode_used g s k"
  using assms by (simp_all add: inodes_inv_def)

lemma valid_inode_bound:
  assumes inv: "groups_inv g s" and k: "valid_inode s k"
  shows "unat k \<le> unat (s_inodes_per_group (fs_sb s)) * length (fs_group_descs s)"
proof -
  let ?p = "unat (s_inodes_per_group (fs_sb s))"
  have "(unat k - 1) div ?p + 1 \<le> length (fs_group_descs s)" using k by (simp add: valid_inode_def inode_grp_def)
  then have "?p * ((unat k - 1) div ?p + 1) \<le> ?p * length (fs_group_descs s)" by (rule mult_le_mono2)
  moreover have "unat k - 1 < ?p * ((unat k - 1) div ?p + 1)"
    using dividend_less_div_times [OF groups_invD(2) [OF inv], of "unat k - 1"] by (simp add: algebra_simps)
  ultimately show ?thesis by linarith
qed

lemma same_groups_inodes:
  assumes S: "same_groups g s s'"
  shows "valid_inode s' k = valid_inode s k"
proof -
  have "length (fs_group_descs s') = length (fs_group_descs s)"
    using S by (simp add: same_groups_def) (metis length_map)
  then show ?thesis using S by (simp add: same_groups_def valid_inode_def inode_grp_def)
qed

lemma save_inode_spec:
  assumes inv: "inodes_inv g s"
  defines "k \<equiv> fs_first_free_inode_no s"
  shows "valid_inode s k \<Longrightarrow> \<exists>s'. save_inode g inode s = Inr (k, s') \<and> inodes_inv g s'
      \<and> fs_first_free_inode_no s' = k + 1 \<and> same_groups g s s'
      \<and> (\<forall>j. valid_inode s j \<longrightarrow> (inode_used g s' j \<longleftrightarrow> j = k \<or> inode_used g s j))
      \<and> load_inode (mem s') (inode_addr g s k) = inode
      \<and> agree_on (- inode_slot g s k - inode_bitmap_bytes g s k) (mem s) (mem s')"
    and "\<not> valid_inode s k \<Longrightarrow> save_inode g inode s = Inl Not_Enough_Inodes"
proof -
  note I = inodes_invD [OF inv]
  show "\<exists>s'. save_inode g inode s = Inr (k, s') \<and> inodes_inv g s'
      \<and> fs_first_free_inode_no s' = k + 1 \<and> same_groups g s s'
      \<and> (\<forall>j. valid_inode s j \<longrightarrow> (inode_used g s' j \<longleftrightarrow> j = k \<or> inode_used g s j))
      \<and> load_inode (mem s') (inode_addr g s k) = inode
      \<and> agree_on (- inode_slot g s k - inode_bitmap_bytes g s k) (mem s) (mem s')" if k: "valid_inode s k"
  proof -
    have "\<not> inode_used g s k" using I(4) k by (simp add: k_def)
    then obtain s1 where s1: "add_inode g inode k s = Inr s1" "groups_inv g s1" "same_groups g s s1"
      "\<And>j. valid_inode s j \<Longrightarrow> inode_used g s1 j \<longleftrightarrow> j = k \<or> inode_used g s j"
      "load_inode (mem s1) (inode_addr g s k) = inode"
      "agree_on (- inode_slot g s k - inode_bitmap_bytes g s k) (mem s) (mem s1)"
      using add_inode_spec [OF I(1) k, of inode] by blast
    have n: "fs_first_free_inode_no s1 = k"
      using s1(1) by (auto simp: add_inode_def Let_def bind_res_eq_Inr k_def split: prod.splits if_splits)
    define s' where "s' = s1\<lparr>fs_first_free_inode_no := k + 1\<rparr>"
    have "unat k + 1 < 4294967296" using valid_inode_bound [OF I(1) k] I(3) by linarith
    then have k1: "unat (k + 1) = unat k + 1" by (subst unat_add_no_overflow) simp_all
    have same: "same_groups g s s'" using s1(3) by (simp add: same_groups_def s'_def)
    have v: "valid_inode s' j = valid_inode s j" for j by (rule same_groups_inodes [OF same])
    have u: "inode_used g s' j = inode_used g s1 j" for j
      by (simp add: inode_used_def inode_grp_def inode_idx_def s'_def)
    have "groups_inv g s'" using s1(2) by (simp add: groups_inv_def s'_def)
    moreover have "length (fs_group_descs s') = length (fs_group_descs s)"
      using same by (simp add: same_groups_def) (metis length_map)
    moreover have "\<not> inode_used g s' j" if "valid_inode s' j" "k + 1 \<le> j" for j
    proof -
      have "unat k + 1 \<le> unat j" using that(2) k1 by (simp add: word_le_nat_alt)
      then have "j \<noteq> k" "k \<le> j" by (auto simp: word_le_nat_alt)
      then show ?thesis using that(1) s1(4) [of j] I(4) [of j] by (simp add: u v k_def)
    qed
    ultimately have "inodes_inv g s'"
      using I(2,3) k1 same by (simp add: inodes_inv_def s'_def same_groups_def k_def)
    moreover have "save_inode g inode s = Inr (k, s')"
      using s1(1) n by (simp add: save_inode_def k_def [symmetric] s'_def)
    ultimately show ?thesis
      using same s1(4,5,6) u by (intro exI [of _ s']) (simp add: s'_def)
  qed
  show "save_inode g inode s = Inl Not_Enough_Inodes" if k: "\<not> valid_inode s k"
  proof -
    let ?p = "s_inodes_per_group (fs_sb s)"
    have k0: "0 < unat k" using I(2) by (simp add: k_def)
    then have "unat ((k - 1) div ?p) = inode_grp s k"
      by (simp add: unat_div unat_sub_no_underflow inode_grp_def)
    moreover have "length (fs_group_descs s) \<le> inode_grp s k" using k k0 by (simp add: valid_inode_def)
    ultimately have "block_group_count (fs_sb s) \<le> (k - 1) div ?p"
      using groups_invD(1) [OF I(1)] by (simp add: word_le_nat_alt)
    moreover have "?p \<noteq> 0" using groups_invD(2) [OF I(1)] by auto
    ultimately show ?thesis by (simp add: save_inode_def add_inode_def inode_group_def k_def [symmetric])
  qed
qed

lemma dentry_inode_mode: "i_mode (dentry_inode env m p) AND S_IFDIR \<noteq> 0 \<longleftrightarrow> is_dir m p"
  by (simp add: dentry_inode_def Let_def S_IFDIR_def S_IFREG_def)

text \<open>
  C14. While an inode number is left, \<open>build_inode\<close> returns the number \<open>first_free_inode_no\<close> and
  moves on by one; the inode of this number was free and now holds the mode, owner, times and
  the empty extent tree for the directory entry (a directory exactly if the entry is one),
  no other inode changes, and all numbers from the new counter on are free. When no number is
  left it stops with the error message and nothing else.
\<close>

theorem build_inode_correct:
  assumes inv: "inodes_inv g s"
  shows "if valid_inode s (fs_first_free_inode_no s)
    then \<exists>s'. build_inode g env p s = Inr (fs_first_free_inode_no s, s') \<and> inodes_inv g s'
      \<and> fs_first_free_inode_no s' = fs_first_free_inode_no s + 1
      \<and> \<not> inode_used g s (fs_first_free_inode_no s) \<and> inode_used g s' (fs_first_free_inode_no s)
      \<and> load_inode (mem s') (inode_addr g s' (fs_first_free_inode_no s)) = dentry_inode env (mem s) p
      \<and> (i_mode (dentry_inode env (mem s) p) AND S_IFDIR \<noteq> 0 \<longleftrightarrow> is_dir (mem s) p)
      \<and> (\<forall>j. valid_inode s j \<longrightarrow> j \<noteq> fs_first_free_inode_no s \<longrightarrow>
           inode_used g s' j = inode_used g s j
           \<and> load_inode (mem s') (inode_addr g s' j) = load_inode (mem s) (inode_addr g s j))
    else build_inode g env p s = Inl Not_Enough_Inodes"
proof (cases "valid_inode s (fs_first_free_inode_no s)")
  case True
  let ?k = "fs_first_free_inode_no s"
  obtain s' where s': "save_inode g (dentry_inode env (mem s) p) s = Inr (?k, s')" "inodes_inv g s'"
    "fs_first_free_inode_no s' = ?k + 1" "same_groups g s s'"
    "\<forall>j. valid_inode s j \<longrightarrow> (inode_used g s' j \<longleftrightarrow> j = ?k \<or> inode_used g s j)"
    "load_inode (mem s') (inode_addr g s ?k) = dentry_inode env (mem s) p"
    "agree_on (- inode_slot g s ?k - inode_bitmap_bytes g s ?k) (mem s) (mem s')"
    using save_inode_spec(1) [OF inv True] by blast
  note n = same_groups_inode(2) [OF s'(4)]
  have "load_inode (mem s') (inode_addr g s' j) = load_inode (mem s) (inode_addr g s j)"
    if j: "valid_inode s j" "j \<noteq> ?k" for j
  proof -
    have "inode_slot g s j \<subseteq> - inode_slot g s ?k - inode_bitmap_bytes g s ?k"
      using inode_slots_disjoint [OF inodes_invD(1) [OF inv] True j]
        slot_bitmap_disjoint [OF inodes_invD(1) [OF inv] j(1) True] by auto
    then show ?thesis unfolding n [OF j(1)]
      using s'(7) by (intro inode_codec.load_cong) (auto simp: agree_on_def inode_slot_def)
  qed
  moreover have "\<not> inode_used g s ?k" using inodes_invD(4) [OF inv True] by simp
  ultimately show ?thesis
    using True s'(1,2,3,5,6) by (simp add: build_inode_def n [OF True] dentry_inode_mode)
qed (simp add: build_inode_def save_inode_spec(2) [OF inv])

subsection \<open>Reserved inodes\<close>

lemma add_reserved_inode_spec:
  assumes inv: "groups_inv g s" and k: "valid_inode s k"
  shows "\<exists>s'. add_reserved_inode g inode k s = Inr s' \<and> groups_inv g s' \<and> same_groups g s s'
    \<and> fs_first_free_inode_no s' = fs_first_free_inode_no s
    \<and> (\<forall>j. valid_inode s j \<longrightarrow> inode_used g s' j = inode_used g s j)
    \<and> load_inode (mem s') (inode_addr g s k) = inode \<and> agree_on (- inode_slot g s k) (mem s) (mem s')"
proof -
  let ?i = "inode_grp s k" and ?ds = "fs_group_descs s"
  obtain b n where bn: "inode_group s k = Inr (b, n)" "unat b = ?i" "group_desc s b = Inr (?ds ! ?i)"
    "inode_address g (fs_sb s) (?ds ! ?i) n = inode_addr g s k"
    using inode_group_eq [OF inv k] by blast
  define s1 where "s1 = s\<lparr>mem := store_inode (mem s) (inode_addr g s k) inode\<rparr>"
  define s' where "s' = s1\<lparr>fs_group_descs := ?ds[?i := count_dir inode (?ds ! ?i)]\<rparr>"
  have i: "?i < length ?ds" using k by (simp add: valid_inode_def)
  have w: "slot_written g k s s1"
    unfolding s1_def by (rule slot_writtenI) (simp add: inode_slot_def inode_codec.store_frame)
  note f = slot_written_fields [OF w]
  have run: "add_reserved_inode g inode k s = Inr s'"
    using bn by (simp add: add_reserved_inode_def s'_def s1_def)
  have inv1: "groups_inv g s1" by (rule slot_written_inv [OF inv k w])
  have "counts_ok g (fs_sb s) (mem s1) (count_dir inode (?ds ! ?i))"
    using groups_invD(7) [OF inv1, of ?i] i by (simp add: f counts_ok_def)
  then have "groups_inv g (s1\<lparr>mem := mem s1, fs_group_descs := (fs_group_descs s1)[?i := count_dir inode (?ds ! ?i)]\<rparr>)"
    using i by (intro groups_inv_update [OF inv1]) (simp_all add: f agree_on_def)
  then have "groups_inv g s'" by (simp add: s'_def f)
  moreover have "same_groups g s s'"
    using i by (simp add: same_groups_def s'_def s1_def map_update list_update_same_conv)
  moreover have "inode_used g s' j = inode_used g s j" if "valid_inode s j" for j
  proof -
    have "inode_used g (s1\<lparr>mem := mem s1, fs_group_descs := (fs_group_descs s1)[?i := count_dir inode (?ds ! ?i)]\<rparr>) j
        = inode_used g (s1\<lparr>mem := mem s1\<rparr>) j"
      using i by (intro inode_addr_update(2)) (simp_all add: f)
    then show ?thesis using slot_written_used [OF inv k w that] by (simp add: s'_def f)
  qed
  moreover have "load_inode (mem s') (inode_addr g s k) = inode"
    by (simp add: s'_def s1_def inode_codec.load_store)
  moreover have "agree_on (- inode_slot g s k) (mem s) (mem s')"
    using w by (simp add: slot_written_def s'_def)
  ultimately show ?thesis using run by (auto simp: s'_def s1_def)
qed

lemma inodes_inv_frame:
  assumes inv: "inodes_inv g s" and S: "same_groups g s s'" and "groups_inv g s'"
    and n: "fs_first_free_inode_no s' = fs_first_free_inode_no s"
    and u: "\<And>j. valid_inode s j \<Longrightarrow> inode_used g s' j = inode_used g s j"
  shows "inodes_inv g s'"
proof -
  have "length (fs_group_descs s') = length (fs_group_descs s)"
    using S by (simp add: same_groups_def) (metis length_map)
  then show ?thesis
    using inv assms(3) S u by (simp add: inodes_inv_def n same_groups_inodes [OF S] same_groups_def)
qed

text \<open>
  C21. On freshly initialised block groups \<open>build_root_inode\<close> succeeds: inode 2 holds the root
  directory's inode, exactly the inodes 1 to 11 are marked as used, and the numbers from 12
  on, which \<open>build_inode\<close> hands out, are all free.
\<close>

theorem build_root_inode_correct:
  assumes L: "layout_ok (fs_sb s)" and n: "fs_first_free_inode_no s = 12"
    and small: "unat (s_inodes_per_group (fs_sb s)) * unat (block_group_count (fs_sb s)) + 1 < 2 ^ 32"
    and pos: "0 < block_group_count (fs_sb s)"
  shows "\<exists>s'. build_root_inode g env (init_ext4_group_descs g s) = Inr s' \<and> inodes_inv g s'
    \<and> fs_first_free_inode_no s' = 12
    \<and> (\<forall>k. valid_inode s' k \<longrightarrow> (inode_used g s' k \<longleftrightarrow> unat k \<le> 11))
    \<and> load_inode (mem s') (inode_addr g s' 2) = root_inode env"
proof -
  let ?s = "init_ext4_group_descs g s"
  have st: "fs_sb ?s = fs_sb s" "length (fs_group_descs ?s) = unat (block_group_count (fs_sb s))"
    "fs_first_free_inode_no ?s = 12"
    using n by (simp_all add: init_ext4_group_descs_def Let_def)
  have G: "groups_inv g ?s" and u: "\<And>k. valid_inode ?s k \<Longrightarrow> inode_used g ?s k \<longleftrightarrow> unat k \<le> 11"
    using init_groups_spec [OF L] by blast+
  have inv: "inodes_inv g ?s"
    using G u small unfolding inodes_inv_def by (auto simp: st word_le_nat_alt)
  have "1 < unat (s_inodes_per_group (fs_sb s))" using layout_okD(5) [OF L] by linarith
  moreover have "0 < unat (block_group_count (fs_sb s))" using pos by (simp add: unat_gt_0)
  ultimately have v: "valid_inode ?s 2" unfolding valid_inode_def inode_grp_def st by simp
  obtain s' where s': "add_reserved_inode g (root_inode env) 2 ?s = Inr s'" "groups_inv g s'" "same_groups g ?s s'"
    "fs_first_free_inode_no s' = fs_first_free_inode_no ?s"
    "\<forall>j. valid_inode ?s j \<longrightarrow> inode_used g s' j = inode_used g ?s j"
    "load_inode (mem s') (inode_addr g ?s 2) = root_inode env"
    using add_reserved_inode_spec [OF G v] by blast
  have "inodes_inv g s'" by (rule inodes_inv_frame [OF inv s'(3,2,4)]) (use s'(5) in blast)
  then show ?thesis
    using s' u v by (intro exI [of _ s'])
      (simp add: build_root_inode_def EXT4_ROOT_INODE_def same_groups_inodes [OF s'(3)] same_groups_inode(2) [OF s'(3)] st)
qed

subsection \<open>A sample file system\<close>

definition sample_environment :: environment where
  "sample_environment = \<lparr>env_euid = 1000, env_egid = 1000, env_time = \<lambda>_. 1000, env_mktime = \<lambda>_. 0\<rparr>"

lemma sample_inodes_inv: "inodes_inv sample_globals sample_groups"
  unfolding inodes_inv_def using sample_groups_inv valid_inode_bound [OF sample_groups_inv]
  by (auto simp: sample_groups_fields sample_groups_numbers word_le_nat_alt valid_inode_def sample_inode_used)


theorem build_inode_correct_witness:
  "\<exists>s'. build_inode sample_globals sample_environment 64 sample_groups = Inr (12, s')
    \<and> inodes_inv sample_globals s' \<and> fs_first_free_inode_no s' = 13"
proof -
  have v: "valid_inode sample_groups (fs_first_free_inode_no sample_groups)"
    using sample_inode_used [of 12] by (simp add: sample_groups_fields)
  show ?thesis
    using build_inode_correct [OF sample_inodes_inv, of sample_environment 64] unfolding if_P [OF v]
    by (auto simp: sample_groups_fields)
qed

theorem build_root_inode_correct_witness:
  "\<exists>s'. build_root_inode sample_globals sample_environment (init_ext4_group_descs sample_globals sample_ext4) = Inr s'
    \<and> inodes_inv sample_globals s'"
proof -
  have f: "fs_sb sample_ext4 = sample_super_block" "fs_first_free_inode_no sample_ext4 = 12"
    by (simp_all add: sample_ext4_def)
  have "\<exists>s'. build_root_inode sample_globals sample_environment (init_ext4_group_descs sample_globals sample_ext4) = Inr s'
    \<and> inodes_inv sample_globals s' \<and> fs_first_free_inode_no s' = 12
    \<and> (\<forall>k. valid_inode s' k \<longrightarrow> (inode_used sample_globals s' k \<longleftrightarrow> unat k \<le> 11))
    \<and> load_inode (mem s') (inode_addr sample_globals s' 2) = root_inode sample_environment"
    by (rule build_root_inode_correct) (simp_all add: f sample_layout_ok sample_layout sample_groups_numbers)
  then show ?thesis by blast
qed

end
