(* ===== verification/Ext4_Extent.thy ===== *)
theory Ext4_Extent
  imports Ext4_Inode
begin

unbundle bit_operations_syntax

section \<open>ext4_extent.cpp\<close>

text \<open>
  The extent tree of an inode, in memory: a header in the inode, followed by up to four
  entries, and further nodes in blocks of their own. A node is the address of its header; the
  entries behind it are extents when its depth is 0 and indices of child nodes otherwise. The
  recursion and the loops that follow the child pointers are partial functions, since the
  depth of a child is whatever its block says. Recording blocks for the visualizer has no effect.
\<close>

definition sizeof_entry :: nat where "sizeof_entry = 12"

definition entry_address :: "nat \<Rightarrow> u16 \<Rightarrow> nat" where
  "entry_address header n = header + sizeof_entry * unat n"

definition to_ext4_extent :: "fat_globals \<Rightarrow> fat_extent \<Rightarrow> ext4_extent" where
  "to_ext4_extent g fext =
     (let (lo, hi) = set_lo_hi_32_16 (fat_cl_to_e4blk g (fe_physical_start fext))
      in \<lparr>ee_block = fe_logical_start fext, ee_len = fe_length fext, ee_start_hi = hi, ee_start_lo = lo\<rparr>)"

definition max_entries :: "ext4_super_block \<Rightarrow> u16" where
  "max_entries sb = ucast ((ucast (block_size sb) - word_of_nat sizeof_entry) div word_of_nat sizeof_entry :: u64)"

subsection \<open>register_extent without the extent tree\<close>

definition extent_start_block :: "ext4_extent \<Rightarrow> u64" where
  "extent_start_block e = from_lo_hi_32 (ee_start_lo e) (ucast (ee_start_hi e))"

text \<open>The last part of \<open>register_extent\<close>: the block counts of the inode and the block bitmap.\<close>

definition count_extent :: "fat_globals \<Rightarrow> ext4_extent \<Rightarrow> nat \<Rightarrow> ext4_state \<Rightarrow> ext4_state result" where
  "count_extent g eext inode s =
     (let blocks = ucast (ee_len eext) * block_size (fs_sb s) div 512;
          (lo, hi) = incr_lo_hi_32_16 (load_u32 (mem s) (inode + 28), load_u16 (mem s) (inode + 116)) (ucast blocks);
          m = store_u16 (store_u32 (mem s) (inode + 28) lo) (inode + 116) hi;
          first = extent_start_block eext
      in add_extent_to_block_bitmap g first (first + ucast (ee_len eext)) (s\<lparr>mem := m\<rparr>))"

text \<open>\<open>register_extent\<close> with \<open>false\<close> for its last argument, as for the blocks of index nodes.\<close>

definition register_index_extent :: "fat_globals \<Rightarrow> fat_extent \<Rightarrow> u32 \<Rightarrow> ext4_state \<Rightarrow> ext4_state result" where
  "register_index_extent g fext inode_no s =
     bind_res (get_existing_inode g inode_no s) (\<lambda>inode. count_extent g (to_ext4_extent g fext) inode s)"

text \<open>\<open>allocate_extent\<close> on the allocator in the state.\<close>

definition allocate :: "u16 \<Rightarrow> ext4_state \<Rightarrow> (fat_extent \<times> ext4_state) result" where
  "allocate max_length s = bind_res (allocate_extent max_length (alloc s)) (\<lambda>r. Inr (fst r, s\<lparr>alloc := snd r\<rparr>))"

subsection \<open>Appending\<close>

text \<open>
  The loop counts \<open>i\<close> down from \<open>depth\<close> while it is greater than \<open>depth\<close>. The header of the
  new block gets neither a magic number nor a generation.
\<close>

function new_idx_loop ::
  "fat_globals \<Rightarrow> int \<Rightarrow> int \<Rightarrow> ext4_extent \<Rightarrow> nat \<Rightarrow> u32 \<Rightarrow> ext4_state \<Rightarrow> (nat \<times> ext4_state) result" where
  "new_idx_loop g depth i ext_to_append idx inode_no s =
     (if depth < i
      then bind_res (allocate 1 s) (\<lambda>(idx_ext, s1).
           bind_res (register_index_extent g idx_ext inode_no s1) (\<lambda>s2.
             let block_no = ucast (fat_cl_to_e4blk g (fe_physical_start idx_ext)) :: u32;
                 m1 = store_idx (mem s2) idx \<lparr>ei_block = ee_block ext_to_append, ei_leaf_lo = block_no,
                        ei_leaf_hi = 0, ei_unused = 0\<rparr>;
                 header = block_start g (fs_sb s2) (ucast block_no);
                 m2 = store_u16 m1 (header + 2) 1;
                 m3 = store_u16 m2 (header + 4) (max_entries (fs_sb s2));
                 m4 = store_u16 m3 (header + 6) (word_of_int i)
             in new_idx_loop g depth (i - 1) ext_to_append (header + sizeof_entry) inode_no (s2\<lparr>mem := m4\<rparr>)))
      else Inr (idx, s))"
  by pat_completeness auto
termination by (relation "measure (\<lambda>(g, depth, i, e, idx, k, s). nat (i - depth))") auto

declare new_idx_loop.simps [simp del]

definition append_to_new_idx_path ::
  "fat_globals \<Rightarrow> u16 \<Rightarrow> ext4_extent \<Rightarrow> nat \<Rightarrow> u32 \<Rightarrow> ext4_state \<Rightarrow> ext4_state result" where
  "append_to_new_idx_path g depth ext_to_append idx inode_no s =
     bind_res (new_idx_loop g (uint depth) (uint depth) ext_to_append idx inode_no s) (\<lambda>(actual_extent, s1).
       Inr (s1\<lparr>mem := store_extent (mem s1) actual_extent ext_to_append\<rparr>))"

definition append_in_block :: "nat \<Rightarrow> ext4_extent \<Rightarrow> memory \<Rightarrow> bool \<times> memory" where
  "append_in_block header ext m =
     (let h = load_header m header
      in if eh_max h \<le> eh_entries h then (False, m)
         else (let m1 = store_extent m (header + sizeof_entry * (unat (eh_entries h) + 1)) ext
               in (True, store_u16 m1 (header + 2) (eh_entries h + 1))))"

partial_function (option) append_to_extent_tree ::
  "fat_globals \<Rightarrow> ext4_extent \<Rightarrow> nat \<Rightarrow> u32 \<Rightarrow> ext4_state \<Rightarrow> (bool \<times> ext4_state) run" where
  "append_to_extent_tree g ext root_header inode_no s =
     (let h = load_header (mem s) root_header
      in if eh_depth h = 0
         then (let (success, m) = append_in_block root_header ext (mem s) in Some (Inr (success, s\<lparr>mem := m\<rparr>)))
         else
           (let entry_count = eh_entries h;
                last_child_entry = load_idx (mem s) (entry_address root_header entry_count);
                child_block = ucast (from_lo_hi_32 (ei_leaf_lo last_child_entry)
                                       (ucast (ei_leaf_hi last_child_entry))) :: u32;
                child_header = block_start g (fs_sb s) (ucast child_block)
            in bind_run (append_to_extent_tree g ext child_header inode_no s) (\<lambda>r.
                 if fst r then Some (Inr (True, snd r))
                 else if entry_count < eh_max (load_header (mem (snd r)) root_header)
                 then Some (bind_res (append_to_new_idx_path g (eh_depth (load_header (mem (snd r)) root_header) - 1)
                                        ext (entry_address root_header entry_count) inode_no (snd r))
                        (\<lambda>s1. Inr (True, s1)))
                 else Some (Inr (False, snd r)))))"

text \<open>The copy of the root into the new block, and the root's new header and single index.\<close>

definition deepen_memory :: "ext4_super_block \<Rightarrow> nat \<Rightarrow> nat \<Rightarrow> u64 \<Rightarrow> memory \<Rightarrow> memory" where
  "deepen_memory sb root_header child_block block_no m =
     (let m1 = mem_copy m child_block root_header (5 * sizeof_entry);
          m2 = store_u16 m1 (child_block + 4) (max_entries sb);
          m3 = store_u16 m2 (root_header + 6) (eh_depth (load_header m2 root_header) + 1);
          m4 = store_u16 m3 (root_header + 2) 1;
          idx = root_header + sizeof_entry;
          m5 = store_u32 m4 idx 0;
          (lo, hi) = set_lo_hi_32_16 block_no
      in store_u16 (store_u32 m5 (idx + 4) lo) (idx + 8) hi)"

definition make_tree_deeper :: "fat_globals \<Rightarrow> nat \<Rightarrow> u32 \<Rightarrow> ext4_state \<Rightarrow> ext4_state result" where
  "make_tree_deeper g root_header inode_no s =
     bind_res (allocate 1 s) (\<lambda>(idx_ext, s1).
     bind_res (register_index_extent g idx_ext inode_no s1) (\<lambda>s2.
       let block_no = fat_cl_to_e4blk g (fe_physical_start idx_ext);
           child_block = block_start g (fs_sb s2) block_no
       in Inr (s2\<lparr>mem := deepen_memory (fs_sb s2) root_header child_block block_no (mem s2)\<rparr>)))"

definition add_extent :: "fat_globals \<Rightarrow> ext4_extent \<Rightarrow> u32 \<Rightarrow> nat \<Rightarrow> ext4_state \<Rightarrow> ext4_state run" where
  "add_extent g eext inode_no inode s =
     (let header = inode + 40
      in bind_run (append_to_extent_tree g eext header inode_no s) (\<lambda>r.
           if fst r then Some (Inr (snd r))
           else bind_run (Some (make_tree_deeper g header inode_no (snd r))) (\<lambda>s1.
                bind_run (append_to_extent_tree g eext header inode_no s1) (\<lambda>r1. Some (Inr (snd r1))))))"

definition register_extent :: "fat_globals \<Rightarrow> fat_extent \<Rightarrow> u32 \<Rightarrow> bool \<Rightarrow> ext4_state \<Rightarrow> ext4_state run" where
  "register_extent g fext inode_no add_to_extent_tree s =
     bind_run (Some (get_existing_inode g inode_no s)) (\<lambda>inode.
       let eext = to_ext4_extent g fext
       in bind_run (if add_to_extent_tree then add_extent g eext inode_no inode s else Some (Inr s)) (\<lambda>s1.
            Some (count_extent g eext inode s1)))"

partial_function (option) set_extents_loop ::
  "fat_globals \<Rightarrow> u64 \<Rightarrow> u32 \<Rightarrow> nat \<Rightarrow> stream \<Rightarrow> ext4_state \<Rightarrow> (stream \<times> ext4_state) run" where
  "set_extents_loop g ps inode_number current_extent read_stream s =
     (if current_extent = 0 then Some (Inr (read_stream, s))
      else bind_run (register_extent g (load_fat_extent (mem s) current_extent) inode_number True s) (\<lambda>s1.
           bind_run (Some (getNext g ps (word_of_nat sizeof_fat_extent) read_stream s1)) (\<lambda>q.
             set_extents_loop g ps inode_number (fst q) (fst (snd q)) (snd (snd q)))))"

definition set_extents ::
  "fat_globals \<Rightarrow> u64 \<Rightarrow> u32 \<Rightarrow> nat \<Rightarrow> stream \<Rightarrow> ext4_state \<Rightarrow> (stream \<times> ext4_state) run" where
  "set_extents g ps inode_number dentry read_stream s =
     bind_run (Some (set_size g inode_number (ucast (fd_file_size (load_fat_dentry (mem s) dentry))) s)) (\<lambda>s1.
     bind_run (Some (getNext g ps (word_of_nat sizeof_fat_extent) read_stream s1)) (\<lambda>q.
       set_extents_loop g ps inode_number (fst q) (fst (snd q)) (snd (snd q))))"

subsection \<open>last_extent\<close>

partial_function (option) last_node :: "fat_globals \<Rightarrow> ext4_super_block \<Rightarrow> memory \<Rightarrow> nat \<Rightarrow> nat option" where
  "last_node g sb m header =
     (let h = load_header m header
      in if eh_depth h = 0 then Some header
         else (let last_idx = load_idx m (entry_address header (eh_entries h))
               in last_node g sb m (block_start g sb (from_lo_hi_32 (ei_leaf_lo last_idx) (ucast (ei_leaf_hi last_idx))))))"

definition last_extent :: "fat_globals \<Rightarrow> u32 \<Rightarrow> ext4_state \<Rightarrow> ext4_extent run" where
  "last_extent g inode_number s =
     bind_run (Some (get_existing_inode g inode_number s)) (\<lambda>inode.
       map_option (\<lambda>header. Inr (load_extent (mem s) (entry_address header (eh_entries (load_header (mem s) header)))))
         (last_node g (fs_sb s) (mem s) (inode + 40)))"

lemma register_extent_index:
  "register_extent g fext k False s = Some (register_index_extent g fext k s)"
  by (cases "get_existing_inode g k s") (simp_all add: register_extent_def register_index_extent_def)

lemma new_idx_loop_done: "new_idx_loop g (uint depth) (uint depth) ext idx k s = Inr (idx, s)"
  by (subst new_idx_loop.simps) simp

subsection \<open>What a reader finds in a tree\<close>

text \<open>
  The entries of one node, and the extents that a reader of the file system collects from a
  tree of a given depth, in order.
\<close>

definition node_extents :: "memory \<Rightarrow> nat \<Rightarrow> ext4_extent list" where
  "node_extents m a = load_array load_extent 12 m (a + 12) (unat (eh_entries (load_header m a)))"

definition node_indices :: "memory \<Rightarrow> nat \<Rightarrow> ext4_extent_idx list" where
  "node_indices m a = load_array load_idx 12 m (a + 12) (unat (eh_entries (load_header m a)))"

definition child_address :: "fat_globals \<Rightarrow> ext4_super_block \<Rightarrow> ext4_extent_idx \<Rightarrow> nat" where
  "child_address g sb i = block_start g sb (from_lo_hi_32 (ei_leaf_lo i) (ucast (ei_leaf_hi i)))"

primrec tree_extents :: "nat \<Rightarrow> fat_globals \<Rightarrow> ext4_super_block \<Rightarrow> memory \<Rightarrow> nat \<Rightarrow> ext4_extent list" where
  "tree_extents 0 g sb m a = node_extents m a"
| "tree_extents (Suc d) g sb m a = concat (map (\<lambda>i. tree_extents d g sb m (child_address g sb i)) (node_indices m a))"

definition tree_root :: "fat_globals \<Rightarrow> ext4_state \<Rightarrow> u32 \<Rightarrow> nat" where
  "tree_root g s k = inode_addr g s k + 40"

definition inode_extents :: "fat_globals \<Rightarrow> ext4_state \<Rightarrow> u32 \<Rightarrow> ext4_extent list" where
  "inode_extents g s k = tree_extents (unat (eh_depth (load_header (mem s) (tree_root g s k)))) g (fs_sb s) (mem s)
     (tree_root g s k)"

subsection \<open>Appending to one node\<close>

lemma load_header_fields:
  "load_header (store_u16 m (a + 2) v) a = (load_header m a)\<lparr>eh_entries := v\<rparr>"
  "load_header (store_u16 m (a + 4) v) a = (load_header m a)\<lparr>eh_max := v\<rparr>"
  "load_header (store_u16 m (a + 6) v) a = (load_header m a)\<lparr>eh_depth := v\<rparr>"
  by (simp_all add: load_header_def codec_simps)

lemma node_extents_cong:
  assumes "agree_on {a..<a + 12 * (unat (eh_entries (load_header m a)) + 1)} m m'"
  shows "load_header m' a = load_header m a" "node_extents m' a = node_extents m a"
proof -
  let ?n = "unat (eh_entries (load_header m a))"
  show h: "load_header m' a = load_header m a"
    by (rule header_codec.load_cong) (use assms in \<open>auto simp: agree_on_def\<close>)
  have "load_array load_extent 12 m (a + 12) ?n = load_array load_extent 12 m' (a + 12) ?n"
    by (rule extent_codec.load_array_cong) (use assms in \<open>auto simp: agree_on_def\<close>)
  then show "node_extents m' a = node_extents m a" by (simp add: node_extents_def h)
qed

lemma append_in_block_room:
  assumes room: "eh_entries (load_header m a) < eh_max (load_header m a)"
  shows "\<exists>m'. append_in_block a e m = (True, m')
    \<and> load_header m' a = (load_header m a)\<lparr>eh_entries := eh_entries (load_header m a) + 1\<rparr>
    \<and> node_extents m' a = node_extents m a @ [e]
    \<and> unat (eh_entries (load_header m a) + 1) = unat (eh_entries (load_header m a)) + 1
    \<and> agree_on (- {a..<a + 12 * (unat (eh_entries (load_header m a)) + 2)}) m m'"
proof -
  let ?h = "load_header m a" and ?n = "unat (eh_entries (load_header m a))"
  define m1 where "m1 = store_extent m (a + 12 * (?n + 1)) e"
  define m' where "m' = store_u16 m1 (a + 2) (eh_entries ?h + 1)"
  have run: "append_in_block a e m = (True, m')"
    using room by (simp add: append_in_block_def Let_def sizeof_entry_def m'_def m1_def not_le)
  have "?n + 1 < 65536"
    using room unat_u16_bound [of "eh_max ?h"] unfolding word_less_nat_alt by linarith
  then have n1: "unat (eh_entries ?h + 1) = ?n + 1" by (subst unat_add_no_overflow) simp_all
  have f1: "m1 x = m x" if "x \<notin> {a + 12 * (?n + 1)..<a + 12 * (?n + 1) + 12}" for x
    unfolding m1_def using that by (rule extent_codec.store_frame)
  have f2: "m' x = m1 x" if "x \<notin> {a + 2..<a + 2 + 2}" for x
    unfolding m'_def using that by (rule u16.store_frame)
  have "load_header m1 a = ?h" by (rule header_codec.load_cong) (rule f1, auto)
  then have h: "load_header m' a = ?h\<lparr>eh_entries := eh_entries ?h + 1\<rparr>"
    by (simp only: m'_def load_header_fields)
  have old: "load_extent m' (a + 12 + 12 * i) = load_extent m (a + 12 + 12 * i)" if "i < ?n" for i
    by (rule extent_codec.load_cong, subst f2) (use that in \<open>auto intro: f1\<close>)
  have "load_extent m' (a + 12 * (?n + 1)) = load_extent m1 (a + 12 * (?n + 1))"
    by (rule extent_codec.load_cong, rule f2) auto
  also have "\<dots> = e" unfolding m1_def by (rule extent_codec.load_store)
  finally have "load_extent m' (a + 12 * (?n + 1)) = e" .
  moreover have "a + 12 + 12 * ?n = a + 12 * (?n + 1)" by simp
  ultimately have new: "load_extent m' (a + 12 + 12 * ?n) = e" by (simp only:)
  have "node_extents m' a = node_extents m a @ [e]"
    using old new by (simp add: node_extents_def load_array_map h n1)
  moreover have "agree_on (- {a..<a + 12 * (?n + 2)}) m m'"
    unfolding agree_on_def by (intro ballI, subst f2) (auto intro!: f1 [symmetric])
  ultimately show ?thesis using run h n1 by blast
qed

lemma append_in_block_full:
  "eh_max (load_header m a) \<le> eh_entries (load_header m a) \<Longrightarrow> append_in_block a e m = (False, m)"
  by (simp add: append_in_block_def)

lemma append_to_leaf:
  "eh_depth (load_header (mem s) a) = 0 \<Longrightarrow>
     append_to_extent_tree g e a k s = Some (Inr (fst (append_in_block a e (mem s)), s\<lparr>mem := snd (append_in_block a e (mem s))\<rparr>))"
  by (subst append_to_extent_tree.simps) (simp add: Let_def split_beta)

subsection \<open>Counting the blocks of an extent\<close>

definition extent_blocks :: "ext4_extent \<Rightarrow> nat set" where
  "extent_blocks e = {unat (extent_start_block e)..<unat (extent_start_block e) + unat (ee_len e)}"

text \<open>The blocks of the extent lie in one group and are all free.\<close>

definition extent_free :: "fat_globals \<Rightarrow> ext4_state \<Rightarrow> ext4_extent \<Rightarrow> bool" where
  "extent_free g s e \<longleftrightarrow> valid_block s (unat (extent_start_block e))
     \<and> block_idx s (unat (extent_start_block e)) + unat (ee_len e) \<le> unat (s_blocks_per_group (fs_sb s))
     \<and> (\<forall>x \<in> extent_blocks e. \<not> block_used g s x)"

lemma extent_start_to_ext4: "extent_start_block (to_ext4_extent g f) = fat_cl_to_e4blk g (fe_physical_start f)"
proof -
  have "take_bit 48 (fat_cl_to_e4blk g (fe_physical_start f)) = fat_cl_to_e4blk g (fe_physical_start f)"
    unfolding fat_cl_to_e4blk_def by (rule bit_word_eqI) (auto simp: bit_simps dest: bit_imp_le_length)
  then show ?thesis
    using from_set_lo_hi_32_16 [of "fat_cl_to_e4blk g (fe_physical_start f)"]
    by (simp add: extent_start_block_def to_ext4_extent_def split_beta)
qed

lemma to_ext4_extent_simps [simp]:
  "ee_block (to_ext4_extent g f) = fe_logical_start f" "ee_len (to_ext4_extent g f) = fe_length f"
  by (simp_all add: to_ext4_extent_def split_beta)

lemma valid_block_bound:
  assumes inv: "groups_inv g s" and x: "valid_block s x"
  shows "x < 4294967296"
proof -
  let ?p = "unat (s_blocks_per_group (fs_sb s))"
  have "block_grp s x + 1 \<le> length (fs_group_descs s)" using x by (simp add: valid_block_def)
  then have "?p * (block_grp s x + 1) \<le> ?p * length (fs_group_descs s)" by (rule mult_le_mono2)
  then show ?thesis
    using block_number(1,2) [OF inv x] groups_invD(10) [OF inv] by (simp add: algebra_simps)
qed

lemma same_groups_blocks:
  assumes S: "same_groups g s s'"
  shows "valid_block s' x = valid_block s x" "block_idx s' x = block_idx s x" "block_grp s' x = block_grp s x"
proof -
  have "length (fs_group_descs s') = length (fs_group_descs s)" "fs_sb s' = fs_sb s"
    using S by (simp_all add: same_groups_def) (metis length_map)
  then show "valid_block s' x = valid_block s x" "block_idx s' x = block_idx s x" "block_grp s' x = block_grp s x"
    by (simp_all add: valid_block_def block_idx_def block_grp_def)
qed

lemma same_groups_block_used:
  assumes inv: "groups_inv g s" and S: "same_groups g s s'" and x: "valid_block s x"
    and m: "agree_on (block_bitmap_bytes g s x) (mem s) (mem s')"
  shows "block_used g s' x = block_used g s x"
proof -
  have i: "block_grp s x < length (fs_group_descs s)" using x by (simp add: valid_block_def)
  have "block_start g (fs_sb s) (block_bitmap_block (fs_group_descs s' ! block_grp s x))
      = block_start g (fs_sb s) (block_bitmap_block (fs_group_descs s ! block_grp s x))"
    using same_groups_nth(1) [OF S i] by (simp add: group_areas_def)
  moreover have "fs_sb s' = fs_sb s" using S by (simp add: same_groups_def)
  ultimately show ?thesis
    using bitmap_bit_cong [OF m [unfolded block_bitmap_bytes_def area_bytes_def group_areas_def, simplified]
        block_number(3) [OF inv x]]
    by (simp add: block_used_def same_groups_blocks [OF S])
qed

lemma same_groups_inode_used:
  assumes inv: "groups_inv g s" and S: "same_groups g s s'" and j: "valid_inode s j"
    and m: "agree_on (inode_bitmap_bytes g s j) (mem s) (mem s')"
  shows "inode_used g s' j = inode_used g s j"
proof -
  have i: "inode_grp s j < length (fs_group_descs s)" using j by (simp add: valid_inode_def)
  have "block_start g (fs_sb s) (inode_bitmap_block (fs_group_descs s' ! inode_grp s j))
      = block_start g (fs_sb s) (inode_bitmap_block (fs_group_descs s ! inode_grp s j))"
    using same_groups_nth(1) [OF S i] by (simp add: group_areas_def)
  moreover have sb: "fs_sb s' = fs_sb s" using S by (simp add: same_groups_def)
  moreover have "inode_grp s' j = inode_grp s j" "inode_idx s' j = inode_idx s j"
    by (simp_all add: inode_grp_def inode_idx_def sb)
  ultimately show ?thesis
    using bitmap_bit_cong [OF m [unfolded inode_bitmap_bytes_def area_bytes_def group_areas_def, simplified]
        inode_idx_bitmap [OF inv]]
    by (simp add: inode_used_def)
qed

lemma slot_written_same: "slot_written g k s s' \<Longrightarrow> same_groups g s s'"
  using slot_written_fields [of g k s s'] by (simp add: same_groups_def)

lemma block_bitmap_disjoint:
  assumes inv: "groups_inv g s" and x: "valid_block s x" and j: "valid_inode s j"
  shows "block_bitmap_bytes g s x \<inter> inode_slot g s j = {}" "block_bitmap_bytes g s x \<inter> inode_bitmap_bytes g s j = {}"
  using area_disjoint [OF inv, of "block_grp s x" "inode_grp s j" 0 2]
    area_disjoint [OF inv, of "block_grp s x" "inode_grp s j" 0 1] inode_slot_in_table [OF inv, of j] x j
  unfolding block_bitmap_bytes_def inode_bitmap_bytes_def valid_block_def valid_inode_def by auto

lemma count_extent_spec:
  assumes inv: "groups_inv g s" and k: "valid_inode s k" and free: "extent_free g s e"
  shows "\<exists>s'. count_extent g e (inode_addr g s k) s = Inr s' \<and> groups_inv g s' \<and> same_groups g s s'
    \<and> fs_first_free_inode_no s' = fs_first_free_inode_no s
    \<and> (\<forall>x. valid_block s x \<longrightarrow> (block_used g s' x \<longleftrightarrow> x \<in> extent_blocks e \<or> block_used g s x))
    \<and> (\<forall>j. valid_inode s j \<longrightarrow> inode_used g s' j = inode_used g s j)
    \<and> agree_on (- ({inode_addr g s k + 28..<inode_addr g s k + 32} \<union> {inode_addr g s k + 116..<inode_addr g s k + 118}
         \<union> block_bitmap_bytes g s (unat (extent_start_block e)))) (mem s) (mem s')"
proof -
  let ?a = "inode_addr g s k" and ?b = "extent_start_block e" and ?n = "ee_len e"
  define lh where "lh = incr_lo_hi_32_16 (load_u32 (mem s) (?a + 28), load_u16 (mem s) (?a + 116))
    (ucast (ucast ?n * block_size (fs_sb s) div 512))"
  define s1 where "s1 = s\<lparr>mem := store_u16 (store_u32 (mem s) (?a + 28) (fst lh)) (?a + 116) (snd lh)\<rparr>"
  have b: "valid_block s (unat ?b)"
    "block_idx s (unat ?b) + unat ?n \<le> unat (s_blocks_per_group (fs_sb s))"
    "\<And>x. unat ?b \<le> x \<Longrightarrow> x < unat ?b + unat ?n \<Longrightarrow> \<not> block_used g s x"
    using free by (auto simp: extent_free_def extent_blocks_def)
  have "unat ?b + unat ?n < 18446744073709551616"
    using valid_block_bound [OF inv b(1)] unat_u16_bound [of ?n] by linarith
  then have e: "unat (?b + ucast ?n) = unat ?b + unat ?n" by (subst unat_add_no_overflow) simp_all
  have m1: "agree_on (- ({?a + 28..<?a + 32} \<union> {?a + 116..<?a + 118})) (mem s) (mem s1)"
    by (auto simp: s1_def agree_on_def u16.store_frame u32.store_frame)
  have w: "slot_written g k s s1"
    unfolding s1_def by (rule slot_writtenI) (auto simp: inode_slot_def u16.store_frame u32.store_frame)
  note f = slot_written_fields [OF w] and S = slot_written_same [OF w]
  have a1: "agree_on (- inode_slot g s k) (mem s) (mem s1)" using w by (simp add: slot_written_def)
  have inv1: "groups_inv g s1" by (rule slot_written_inv [OF inv k w])
  have used1: "block_used g s1 x = block_used g s x" if "valid_block s x" for x
    using block_bitmap_disjoint(1) [OF inv that k]
    by (intro same_groups_block_used [OF inv S that] agree_on_mono [OF a1]) auto
  have "\<not> block_used g s1 x" if x: "unat ?b \<le> x" "x < unat (?b + ucast ?n)" for x
  proof -
    have "valid_block s x" using x b(2) e by (intro block_in_range(3) [OF inv b(1) x(1)]) linarith
    then show ?thesis using used1 b(3) x e by simp
  qed
  then obtain s' where s': "add_extent_to_block_bitmap g ?b (?b + ucast ?n) s1 = Inr s'" "groups_inv g s'"
    "same_groups g s1 s'"
    "\<And>x. valid_block s1 x \<Longrightarrow> block_used g s' x \<longleftrightarrow> unat ?b \<le> x \<and> x < unat (?b + ucast ?n) \<or> block_used g s1 x"
    "agree_on (- block_bitmap_bytes g s1 (unat ?b)) (mem s1) (mem s')"
    using add_blocks_spec [OF inv1, of ?b "?b + ucast ?n"] b(1,2) e
    by (auto simp: same_groups_blocks [OF S] f)
  have run: "count_extent g e ?a s = Inr s'"
    using s'(1) by (simp add: count_extent_def lh_def s1_def split_beta Let_def)
  have S2: "same_groups g s s'" using S s'(3) by (simp add: same_groups_def)
  have bb: "block_bitmap_bytes g s1 (unat ?b) = block_bitmap_bytes g s (unat ?b)"
    by (simp add: block_bitmap_bytes_def same_groups_blocks [OF S] f)
  have m: "agree_on (- ({?a + 28..<?a + 32} \<union> {?a + 116..<?a + 118} \<union> block_bitmap_bytes g s (unat ?b))) (mem s) (mem s')"
    using m1 s'(5) unfolding bb agree_on_def by auto
  have "fs_first_free_inode_no s' = fs_first_free_inode_no s1"
    using s'(1) by (auto simp: add_extent_to_block_bitmap_def Let_def bind_res_eq_Inr split: if_splits)
  moreover have "block_used g s' x \<longleftrightarrow> x \<in> extent_blocks e \<or> block_used g s x" if "valid_block s x" for x
    using s'(4) [of x] that used1 [OF that] e by (auto simp: same_groups_blocks [OF S] extent_blocks_def)
  moreover have "inode_used g s' j = inode_used g s j" if j: "valid_inode s j" for j
  proof (rule same_groups_inode_used [OF inv S2 j])
    have "{?a + 28..<?a + 32} \<union> {?a + 116..<?a + 118} \<subseteq> inode_slot g s k" by (auto simp: inode_slot_def)
    then show "agree_on (inode_bitmap_bytes g s j) (mem s) (mem s')"
      using slot_bitmap_disjoint [OF inv k j] block_bitmap_disjoint(2) [OF inv b(1) j] by (intro agree_on_mono [OF m]) auto
  qed
  ultimately show ?thesis using run s'(2) S2 m f(4) by (intro exI [of _ s']) simp
qed

subsection \<open>A new level\<close>

lemma load_shift:
  assumes "\<And>i. i < 12 \<Longrightarrow> m (a + i) = m' (b + i)"
  shows "load_header m a = load_header m' b" "load_extent m a = load_extent m' b"
proof -
  have u16: "load_u16 m (a + j) = load_u16 m' (b + j)" if "j + 2 \<le> 12" for j
    unfolding load_u16_def using that assms [of "j + i" for i]
    by (intro arg_cong [of _ _ word_of_nat] load_le_shift) (simp add: add.assoc)
  have u32: "load_u32 m (a + j) = load_u32 m' (b + j)" if "j + 4 \<le> 12" for j
    unfolding load_u32_def using that assms [of "j + i" for i]
    by (intro arg_cong [of _ _ word_of_nat] load_le_shift) (simp add: add.assoc)
  show "load_header m a = load_header m' b" "load_extent m a = load_extent m' b"
    using u16 [of 0] u16 [of 2] u16 [of 4] u16 [of 6] u32 [of 0] u32 [of 8]
    by (simp_all add: load_header_def load_extent_def)
qed

lemma deepen_memory_spec:
  fixes m sb r c b
  defines "m' \<equiv> deepen_memory sb r c b m" and "h \<equiv> load_header m r"
  assumes dis: "c + 60 \<le> r \<or> r + 60 \<le> c" and e: "unat (eh_entries h) \<le> 4"
  shows "load_header m' r = h\<lparr>eh_depth := eh_depth h + 1, eh_entries := 1\<rparr>"
    and "ei_leaf_lo (load_idx m' (r + 12)) = fst (set_lo_hi_32_16 b)"
    and "ei_leaf_hi (load_idx m' (r + 12)) = snd (set_lo_hi_32_16 b)"
    and "ei_block (load_idx m' (r + 12)) = 0"
    and "load_header m' c = h\<lparr>eh_max := max_entries sb\<rparr>"
    and "node_extents m' c = node_extents m r"
    and "agree_on (- ({c..<c + 60} \<union> {r..<r + 24})) m m'"
proof -
  define m1 where "m1 = mem_copy m c r 60"
  define m2 where "m2 = store_u16 m1 (c + 4) (max_entries sb)"
  define m4 where "m4 = store_u16 (store_u16 m2 (r + 6) (eh_depth (load_header m2 r) + 1)) (r + 2) 1"
  have m': "m' = store_u16 (store_u32 (store_u32 m4 (r + 12) 0) (r + 12 + 4) (fst (set_lo_hi_32_16 b))) (r + 12 + 8)
      (snd (set_lo_hi_32_16 b))"
    by (simp add: m'_def deepen_memory_def sizeof_entry_def m4_def m2_def m1_def Let_def split_beta)
  have f1: "m1 x = m x" if "x \<notin> {c..<c + 60}" for x using that unfolding m1_def by (rule mem_copy_frame)
  have f2: "m2 x = m1 x" if "x \<notin> {c + 4..<c + 4 + 2}" for x using that unfolding m2_def by (rule u16.store_frame)
  have f4: "m4 x = m2 x" if "x \<notin> {r..<r + 12}" for x
    using that unfolding m4_def by (subst u16.store_frame, force, subst u16.store_frame) auto
  have f6: "m' x = m4 x" if "x \<notin> {r + 12..<r + 24}" for x
    using that unfolding m' by (subst u16.store_frame, force, subst u32.store_frame, force, subst u32.store_frame) auto
  have "load_header m2 r = load_header m1 r" by (rule header_codec.load_cong, rule f2) (use dis in auto)
  also have "\<dots> = h" unfolding h_def by (rule header_codec.load_cong, rule f1) (use dis in auto)
  finally have r2: "load_header m2 r = h" .
  have "load_header m' r = load_header m4 r" by (rule header_codec.load_cong, rule f6) auto
  then show "load_header m' r = h\<lparr>eh_depth := eh_depth h + 1, eh_entries := 1\<rparr>"
    unfolding m4_def load_header_fields r2 by simp
  show "ei_leaf_lo (load_idx m' (r + 12)) = fst (set_lo_hi_32_16 b)"
    "ei_leaf_hi (load_idx m' (r + 12)) = snd (set_lo_hi_32_16 b)" "ei_block (load_idx m' (r + 12)) = 0"
    by (simp_all add: load_idx_def m' codec_simps)
  have c6: "m' x = m2 x" if "x \<in> {c..<c + 60}" for x
    by (subst f6, use that dis in force, rule f4) (use that dis in auto)
  have "load_header m' c = load_header m2 c" by (rule header_codec.load_cong, rule c6) auto
  also have "\<dots> = (load_header m1 c)\<lparr>eh_max := max_entries sb\<rparr>" unfolding m2_def load_header_fields ..
  also have "load_header m1 c = h" unfolding h_def by (rule load_shift(1)) (simp add: m1_def)
  finally show hc: "load_header m' c = h\<lparr>eh_max := max_entries sb\<rparr>" .
  have "load_extent m' (c + 12 + 12 * i) = load_extent m (r + 12 + 12 * i)" if i: "i < unat (eh_entries h)" for i
  proof -
    have "load_extent m' (c + 12 + 12 * i) = load_extent m1 (c + 12 + 12 * i)"
      using i e by (intro extent_codec.load_cong, subst c6) (auto intro!: f2)
    also have "\<dots> = load_extent m (r + 12 + 12 * i)"
    proof (rule load_shift(2))
      fix j :: nat assume "j < 12"
      then have "12 + 12 * i + j < 60" using i e by linarith
      then show "m1 (c + 12 + 12 * i + j) = m (r + 12 + 12 * i + j)"
        unfolding m1_def add.assoc by (rule mem_copy_at)
    qed
    finally show ?thesis .
  qed
  then show "node_extents m' c = node_extents m r"
    by (simp add: node_extents_def load_array_map hc h_def)
  show "agree_on (- ({c..<c + 60} \<union> {r..<r + 24})) m m'"
    unfolding agree_on_def by (intro ballI, subst f6, force, subst f4, force, subst f2, force, subst f1) auto
qed

end
