(* ===== verification/Extent_Trees.thy ===== *)
theory Extent_Trees
  imports Ext4_Extent
begin

unbundle bit_operations_syntax

section \<open>The trees that the code builds\<close>

text \<open>
  The shape of the extent trees that \<open>register_extent\<close> builds correctly, and the refinement of
  appending to a list by appending to such a tree. A tree occupies the inode and at most one
  leaf block; a change elsewhere leaves it as it is.
\<close>

text \<open>All bytes of bitmaps and inode tables, and a node of the tree that lies elsewhere.\<close>

definition meta_bytes :: "fat_globals \<Rightarrow> ext4_state \<Rightarrow> nat set" where
  "meta_bytes g s = (\<Union>i < length (fs_group_descs s). \<Union>l < 3. area_bytes (group_areas g (fs_sb s) (fs_group_descs s ! i) ! l))"

definition node_bytes :: "ext4_super_block \<Rightarrow> nat \<Rightarrow> nat set" where
  "node_bytes sb a = {a..<a + 12 * (unat (max_entries sb) + 1)}"

text \<open>
  Either the extents stand in the inode, or the root has one index, for a leaf outside the
  metadata. (The index has no high part since block numbers have 32 bits.)
\<close>

definition tree_ok :: "fat_globals \<Rightarrow> ext4_state \<Rightarrow> u32 \<Rightarrow> bool" where
  "tree_ok g s k \<longleftrightarrow>
     (let r = tree_root g s k; h = load_header (mem s) r; i = load_idx (mem s) (r + 12);
          c = child_address g (fs_sb s) i; hc = load_header (mem s) c
      in eh_magic h = EH_MAGIC \<and> eh_max h = 4 \<and> 5 \<le> unat (max_entries (fs_sb s))
       \<and> (eh_depth h = 0 \<and> unat (eh_entries h) \<le> 4
          \<or> eh_depth h = 1 \<and> eh_entries h = 1 \<and> ei_leaf_hi i = 0
            \<and> eh_magic hc = EH_MAGIC \<and> eh_depth hc = 0 \<and> eh_max hc = max_entries (fs_sb s)
            \<and> eh_entries hc \<le> max_entries (fs_sb s)
            \<and> node_bytes (fs_sb s) c \<inter> meta_bytes g s = {}))"

lemma inode_extents_leaf:
  "eh_depth (load_header (mem s) (tree_root g s k)) = 0 \<Longrightarrow> inode_extents g s k = node_extents (mem s) (tree_root g s k)"
  by (simp add: inode_extents_def)

lemma inode_extents_child:
  assumes "eh_depth (load_header (mem s) (tree_root g s k)) = 1" "eh_entries (load_header (mem s) (tree_root g s k)) = 1"
  shows "inode_extents g s k =
    node_extents (mem s) (child_address g (fs_sb s) (load_idx (mem s) (tree_root g s k + 12)))"
  using assms by (simp add: inode_extents_def node_indices_def)

lemma length_node_extents: "length (node_extents m a) = unat (eh_entries (load_header m a))"
  by (simp add: node_extents_def)

lemma area_in_meta:
  "i < length (fs_group_descs s) \<Longrightarrow> l < 3 \<Longrightarrow>
     area_bytes (group_areas g (fs_sb s) (fs_group_descs s ! i) ! l) \<subseteq> meta_bytes g s"
  unfolding meta_bytes_def by blast

lemma slot_in_meta:
  assumes inv: "groups_inv g s" and k: "valid_inode s k"
  shows "inode_slot g s k \<subseteq> meta_bytes g s" "inode_bitmap_bytes g s k \<subseteq> meta_bytes g s"
  using inode_slot_in_table [OF inv, of k] k area_in_meta [of "inode_grp s k" s 2 g] area_in_meta [of "inode_grp s k" s 1 g]
  unfolding valid_inode_def inode_bitmap_bytes_def by auto

lemma block_bitmap_in_meta: "valid_block s x \<Longrightarrow> block_bitmap_bytes g s x \<subseteq> meta_bytes g s"
  using area_in_meta [of "block_grp s x" s 0 g] unfolding valid_block_def block_bitmap_bytes_def by simp

lemma same_groups_meta:
  assumes "same_groups g s s'"
  shows "meta_bytes g s' = meta_bytes g s"
proof -
  have "length (fs_group_descs s') = length (fs_group_descs s)" "fs_sb s' = fs_sb s"
    using assms by (simp_all add: same_groups_def) (metis length_map)
  then show ?thesis using same_groups_nth(1) [OF assms] by (simp add: meta_bytes_def)
qed

lemma tree_root_in_slot: "{tree_root g s k..<tree_root g s k + 60} \<subseteq> inode_slot g s k"
  by (auto simp: tree_root_def inode_slot_def)

text \<open>A change outside all bitmaps.\<close>

definition bitmap_bytes :: "fat_globals \<Rightarrow> ext4_state \<Rightarrow> nat set" where
  "bitmap_bytes g s = (\<Union>i < length (fs_group_descs s). bitmaps_of g (fs_sb s) (fs_group_descs s ! i))"

lemma bitmap_in_meta: "bitmap_bytes g s \<subseteq> meta_bytes g s"
  unfolding bitmap_bytes_def bitmaps_of_areas using area_in_meta [of _ s 0 g] area_in_meta [of _ s 1 g] by fastforce

lemma slot_not_bitmap:
  assumes inv: "groups_inv g s" and k: "valid_inode s k"
  shows "inode_slot g s k \<inter> bitmap_bytes g s = {}"
proof -
  have "area_bytes (group_areas g (fs_sb s) (fs_group_descs s ! i) ! l)
      \<inter> area_bytes (group_areas g (fs_sb s) (fs_group_descs s ! inode_grp s k) ! 2) = {}"
    if "i < length (fs_group_descs s)" "l < 2" for i l
    using area_disjoint [OF inv that(1), of "inode_grp s k" l 2] k that(2) by (simp add: valid_inode_def)
  from this [of _ 0] this [of _ 1] show ?thesis
    using inode_slot_in_table [OF inv, of k] unfolding bitmap_bytes_def bitmaps_of_areas by fastforce
qed

lemma written_elsewhere:
  assumes inv: "groups_inv g s" and m: "agree_on (bitmap_bytes g s) (mem s) m"
  shows "groups_inv g (s\<lparr>mem := m\<rparr>)" "same_groups g s (s\<lparr>mem := m\<rparr>)"
    "valid_block s x \<Longrightarrow> block_used g (s\<lparr>mem := m\<rparr>) x = block_used g s x"
    "valid_inode s j \<Longrightarrow> inode_used g (s\<lparr>mem := m\<rparr>) j = inode_used g s j"
proof -
  have b: "bitmaps_of g (fs_sb s) (fs_group_descs s ! i) \<subseteq> bitmap_bytes g s" if "i < length (fs_group_descs s)" for i
    using that unfolding bitmap_bytes_def by blast
  have "counts_ok g (fs_sb s) m (fs_group_descs s ! i)" if i: "i < length (fs_group_descs s)" for i
    using counts_ok_cong [OF agree_on_mono [OF m b [OF i]]] groups_invD(7) [OF inv i] by blast
  then show "groups_inv g (s\<lparr>mem := m\<rparr>)" using inv by (simp add: groups_inv_def list_all_length)
  show S: "same_groups g s (s\<lparr>mem := m\<rparr>)" by (simp add: same_groups_def)
  show "block_used g (s\<lparr>mem := m\<rparr>) x = block_used g s x" if x: "valid_block s x"
    using x b [of "block_grp s x"] unfolding bitmaps_of_areas
    by (intro same_groups_block_used [OF inv S x]) (auto simp: block_bitmap_bytes_def valid_block_def intro: agree_on_mono [OF m])
  show "inode_used g (s\<lparr>mem := m\<rparr>) j = inode_used g s j" if j: "valid_inode s j"
    using j b [of "inode_grp s j"] unfolding bitmaps_of_areas
    by (intro same_groups_inode_used [OF inv S j]) (auto simp: inode_bitmap_bytes_def valid_inode_def intro: agree_on_mono [OF m])
qed

text \<open>The bytes that a tree consists of, and that a change elsewhere leaves it as it is.\<close>

definition tree_child :: "fat_globals \<Rightarrow> ext4_state \<Rightarrow> u32 \<Rightarrow> nat" where
  "tree_child g s k = child_address g (fs_sb s) (load_idx (mem s) (tree_root g s k + 12))"

definition tree_bytes :: "fat_globals \<Rightarrow> ext4_state \<Rightarrow> u32 \<Rightarrow> nat set" where
  "tree_bytes g s k = {tree_root g s k..<tree_root g s k + 60}
     \<union> (if eh_depth (load_header (mem s) (tree_root g s k)) = 0 then {} else node_bytes (fs_sb s) (tree_child g s k))"

lemma tree_okE [consumes 1, case_names leaf child]:
  assumes "tree_ok g s k"
  obtains "eh_magic (load_header (mem s) (tree_root g s k)) = EH_MAGIC" "eh_max (load_header (mem s) (tree_root g s k)) = 4"
      "5 \<le> unat (max_entries (fs_sb s))" "eh_depth (load_header (mem s) (tree_root g s k)) = 0"
      "unat (eh_entries (load_header (mem s) (tree_root g s k))) \<le> 4"
      "tree_bytes g s k = {tree_root g s k..<tree_root g s k + 60}"
      "inode_extents g s k = node_extents (mem s) (tree_root g s k)"
  | "eh_magic (load_header (mem s) (tree_root g s k)) = EH_MAGIC" "eh_max (load_header (mem s) (tree_root g s k)) = 4"
      "5 \<le> unat (max_entries (fs_sb s))" "eh_depth (load_header (mem s) (tree_root g s k)) = 1"
      "eh_entries (load_header (mem s) (tree_root g s k)) = 1" "ei_leaf_hi (load_idx (mem s) (tree_root g s k + 12)) = 0"
      "eh_magic (load_header (mem s) (tree_child g s k)) = EH_MAGIC" "eh_depth (load_header (mem s) (tree_child g s k)) = 0"
      "eh_max (load_header (mem s) (tree_child g s k)) = max_entries (fs_sb s)"
      "unat (eh_entries (load_header (mem s) (tree_child g s k))) \<le> unat (max_entries (fs_sb s))"
      "node_bytes (fs_sb s) (tree_child g s k) \<inter> meta_bytes g s = {}"
      "tree_bytes g s k = {tree_root g s k..<tree_root g s k + 60} \<union> node_bytes (fs_sb s) (tree_child g s k)"
      "inode_extents g s k = node_extents (mem s) (tree_child g s k)"
proof (cases "eh_depth (load_header (mem s) (tree_root g s k)) = 0")
  case True
  then show ?thesis using assms that(1) by (simp add: tree_ok_def Let_def tree_bytes_def inode_extents_leaf)
next
  case False
  then show ?thesis using assms that(2)
    by (simp add: tree_ok_def Let_def tree_bytes_def tree_child_def inode_extents_child word_le_nat_alt)
qed

lemma tree_okI_leaf:
  assumes "eh_magic (load_header (mem s) (tree_root g s k)) = EH_MAGIC" "eh_max (load_header (mem s) (tree_root g s k)) = 4"
    "5 \<le> unat (max_entries (fs_sb s))" "eh_depth (load_header (mem s) (tree_root g s k)) = 0"
    "unat (eh_entries (load_header (mem s) (tree_root g s k))) \<le> 4"
  shows "tree_ok g s k"
  using assms by (simp add: tree_ok_def Let_def)

lemma tree_okI_child:
  assumes "eh_magic (load_header (mem s) (tree_root g s k)) = EH_MAGIC" "eh_max (load_header (mem s) (tree_root g s k)) = 4"
    "5 \<le> unat (max_entries (fs_sb s))" "eh_depth (load_header (mem s) (tree_root g s k)) = 1"
    "eh_entries (load_header (mem s) (tree_root g s k)) = 1" "ei_leaf_hi (load_idx (mem s) (tree_root g s k + 12)) = 0"
    "eh_magic (load_header (mem s) (tree_child g s k)) = EH_MAGIC" "eh_depth (load_header (mem s) (tree_child g s k)) = 0"
    "eh_max (load_header (mem s) (tree_child g s k)) = max_entries (fs_sb s)"
    "unat (eh_entries (load_header (mem s) (tree_child g s k))) \<le> unat (max_entries (fs_sb s))"
    "node_bytes (fs_sb s) (tree_child g s k) \<inter> meta_bytes g s = {}"
  shows "tree_ok g s k"
  using assms by (simp add: tree_ok_def Let_def tree_child_def word_le_nat_alt)

lemma tree_frame:
  assumes k: "valid_inode s k" and ok: "tree_ok g s k" and S: "same_groups g (s\<lparr>alloc := al\<rparr>) s'"
    and m: "agree_on (tree_bytes g s k) (mem s) (mem s')"
  shows "tree_ok g s' k" "inode_extents g s' k = inode_extents g s k" "tree_bytes g s' k = tree_bytes g s k"
    "tree_root g s' k = tree_root g s k"
proof -
  have frame: "inode_addr g (s\<lparr>alloc := al\<rparr>) k = inode_addr g s k" "valid_inode (s\<lparr>alloc := al\<rparr>) k = valid_inode s k"
    "meta_bytes g (s\<lparr>alloc := al\<rparr>) = meta_bytes g s"
    by (simp_all add: inode_addr_def inode_idx_def inode_grp_def valid_inode_def meta_bytes_def)
  show r: "tree_root g s' k = tree_root g s k"
    using same_groups_inode(2) [OF S] k by (simp add: tree_root_def frame)
  have sb: "fs_sb s' = fs_sb s" using S by (simp add: same_groups_def)
  have mb: "meta_bytes g s' = meta_bytes g s" using same_groups_meta [OF S] by (simp add: frame)
  let ?r = "tree_root g s k"
  have rb: "agree_on {?r..<?r + 60} (mem s) (mem s')" by (rule agree_on_mono [OF m]) (auto simp: tree_bytes_def)
  have hr: "load_header (mem s') ?r = load_header (mem s) ?r"
    by (rule header_codec.load_cong) (use rb in \<open>auto simp: agree_on_def\<close>)
  have ir: "load_idx (mem s') (?r + 12) = load_idx (mem s) (?r + 12)"
    by (rule idx_codec.load_cong) (use rb in \<open>auto simp: agree_on_def\<close>)
  have cr: "tree_child g s' k = tree_child g s k" by (simp add: tree_child_def r sb ir)
  show "tree_bytes g s' k = tree_bytes g s k" by (simp add: tree_bytes_def r hr cr sb)
  from ok show "tree_ok g s' k" "inode_extents g s' k = inode_extents g s k"
  proof (atomize (full), cases rule: tree_okE)
    case leaf
    have "node_extents (mem s') ?r = node_extents (mem s) ?r"
      by (rule node_extents_cong(2), rule agree_on_mono [OF rb]) (use leaf(5) in auto)
    then show "tree_ok g s' k \<and> inode_extents g s' k = inode_extents g s k"
      using leaf by (auto simp: r hr sb inode_extents_leaf intro!: tree_okI_leaf)
  next
    case child
    let ?c = "tree_child g s k"
    have "agree_on {?c..<?c + 12 * (unat (eh_entries (load_header (mem s) ?c)) + 1)} (mem s) (mem s')"
      using child(10,12) by (intro agree_on_mono [OF m]) (auto simp: node_bytes_def)
    from node_extents_cong [OF this]
    show "tree_ok g s' k \<and> inode_extents g s' k = inode_extents g s k"
      using child by (auto simp: r hr ir sb cr mb inode_extents_child tree_child_def [symmetric] intro!: tree_okI_child)
  qed
qed

subsection \<open>Appending to a tree\<close>

lemma leaf_lo_address:
  "ei_leaf_hi i = 0 \<Longrightarrow> block_start g sb (ucast (ucast (from_lo_hi_32 (ei_leaf_lo i) (ucast (ei_leaf_hi i))) :: u32))
     = child_address g sb i"
proof -
  assume "ei_leaf_hi i = 0"
  then have "from_lo_hi_32 (ei_leaf_lo i) (ucast (ei_leaf_hi i)) = ucast (ei_leaf_lo i)"
    by (simp add: from_lo_hi_32_def)
  moreover have "ucast (ucast (ucast (ei_leaf_lo i) :: u64) :: u32) = (ucast (ei_leaf_lo i) :: u64)"
    by (rule bit_word_eqI) (auto simp: bit_simps dest: bit_imp_le_length)
  ultimately show ?thesis by (simp add: child_address_def)
qed

lemma append_to_child:
  fixes g :: fat_globals and s :: ext4_state and r :: nat
  assumes "eh_depth (load_header (mem s) r) = 1" "eh_entries (load_header (mem s) r) = 1"
    "ei_leaf_hi (load_idx (mem s) (r + 12)) = 0"
  defines "c \<equiv> child_address g (fs_sb s) (load_idx (mem s) (r + 12))"
  assumes "eh_depth (load_header (mem s) c) = 0" "eh_entries (load_header (mem s) c) < eh_max (load_header (mem s) c)"
  shows "append_to_extent_tree g e r k s = Some (Inr (True, s\<lparr>mem := snd (append_in_block c e (mem s))\<rparr>))"
proof -
  have "fst (append_in_block c e (mem s))" using append_in_block_room [OF assms(6), of e] by auto
  then have "append_to_extent_tree g e c k s = Some (Inr (True, s\<lparr>mem := snd (append_in_block c e (mem s))\<rparr>))"
    using append_to_leaf [OF assms(5)] by simp
  then show ?thesis
    using assms(1,2) leaf_lo_address [OF assms(3), of g "fs_sb s"]
    by (subst append_to_extent_tree.simps) (simp add: Let_def entry_address_def sizeof_entry_def c_def)
qed

lemma tree_root_frame [simp]:
  "tree_root g (s\<lparr>mem := m\<rparr>) k = tree_root g s k" "inode_addr g (s\<lparr>mem := m\<rparr>) k = inode_addr g s k"
  "tree_root g (s\<lparr>alloc := al\<rparr>) k = tree_root g s k" "inode_addr g (s\<lparr>alloc := al\<rparr>) k = inode_addr g s k"
  "valid_inode (s\<lparr>alloc := al\<rparr>) k = valid_inode s k" "meta_bytes g (s\<lparr>alloc := al\<rparr>) = meta_bytes g s"
  "inode_slot g (s\<lparr>alloc := al\<rparr>) k = inode_slot g s k" "meta_bytes g (s\<lparr>mem := m\<rparr>) = meta_bytes g s"
  "groups_inv g (s\<lparr>alloc := al\<rparr>) = groups_inv g s" "valid_block (s\<lparr>alloc := al\<rparr>) x = valid_block s x"
  "block_used g (s\<lparr>alloc := al\<rparr>) x = block_used g s x" "inode_used g (s\<lparr>alloc := al\<rparr>) k = inode_used g s k"
  "extent_free g (s\<lparr>alloc := al\<rparr>) e = extent_free g s e"
  by (simp_all add: tree_root_def inode_addr_def inode_idx_def inode_grp_def valid_inode_def meta_bytes_def
      inode_slot_def groups_inv_def valid_block_def block_grp_def block_used_def block_idx_def inode_used_def extent_free_def)

lemma nodes_outside:
  assumes inv: "groups_inv g s" and k: "valid_inode s k" and ok: "tree_ok g s k"
    and "eh_depth (load_header (mem s) (tree_root g s k)) \<noteq> 0"
  shows "node_bytes (fs_sb s) (tree_child g s k) \<inter> inode_slot g s k = {}"
  using ok slot_in_meta(1) [OF inv k] by (cases rule: tree_okE) (use assms(4) in auto)

text \<open>When there is room in the inode or in its leaf.\<close>

lemma append_to_tree_room:
  assumes inv: "groups_inv g s" and k: "valid_inode s k" and ok: "tree_ok g s k"
    and room: "length (inode_extents g s k) < unat (max_entries (fs_sb s))"
      "length (inode_extents g s k) = 4 \<longrightarrow> eh_depth (load_header (mem s) (tree_root g s k)) \<noteq> 0"
  shows "\<exists>m'. append_to_extent_tree g e (tree_root g s k) k s = Some (Inr (True, s\<lparr>mem := m'\<rparr>))
    \<and> tree_ok g (s\<lparr>mem := m'\<rparr>) k \<and> inode_extents g (s\<lparr>mem := m'\<rparr>) k = inode_extents g s k @ [e]
    \<and> tree_bytes g (s\<lparr>mem := m'\<rparr>) k = tree_bytes g s k \<and> agree_on (- tree_bytes g s k) (mem s) m'"
  using ok
proof (cases rule: tree_okE)
  case leaf
  let ?r = "tree_root g s k"
  have n: "unat (eh_entries (load_header (mem s) ?r)) < 4"
    using leaf(4,5,7) room(2) by (auto simp: length_node_extents le_neq_implies_less)
  then have "eh_entries (load_header (mem s) ?r) < eh_max (load_header (mem s) ?r)"
    unfolding leaf(2) by (simp add: word_less_nat_alt)
  from append_in_block_room [OF this, of e] obtain m' where m': "append_in_block ?r e (mem s) = (True, m')"
    "load_header m' ?r = (load_header (mem s) ?r)\<lparr>eh_entries := eh_entries (load_header (mem s) ?r) + 1\<rparr>"
    "node_extents m' ?r = node_extents (mem s) ?r @ [e]"
    "unat (eh_entries (load_header (mem s) ?r) + 1) = unat (eh_entries (load_header (mem s) ?r)) + 1"
    "agree_on (- {?r..<?r + 12 * (unat (eh_entries (load_header (mem s) ?r)) + 2)}) (mem s) m'"
    by blast
  have "append_to_extent_tree g e ?r k s = Some (Inr (True, s\<lparr>mem := m'\<rparr>))"
    using append_to_leaf [OF leaf(4), of g e k] m'(1) by simp
  moreover have "tree_ok g (s\<lparr>mem := m'\<rparr>) k"
    using leaf n m'(2,4) by (intro tree_okI_leaf) simp_all
  moreover have "inode_extents g (s\<lparr>mem := m'\<rparr>) k = inode_extents g s k @ [e]"
    using leaf(4,7) m'(2,3) by (simp add: inode_extents_leaf)
  moreover have "tree_bytes g (s\<lparr>mem := m'\<rparr>) k = tree_bytes g s k"
    using leaf(4) m'(2) by (simp add: tree_bytes_def)
  moreover have "agree_on (- tree_bytes g s k) (mem s) m'"
    using n by (intro agree_on_mono [OF m'(5)]) (auto simp: leaf(6))
  ultimately show ?thesis by blast
next
  case child
  let ?r = "tree_root g s k" and ?c = "tree_child g s k"
  have n: "unat (eh_entries (load_header (mem s) ?c)) < unat (max_entries (fs_sb s))"
    using room(1) unfolding child(13) length_node_extents .
  then have lt: "eh_entries (load_header (mem s) ?c) < eh_max (load_header (mem s) ?c)"
    unfolding child(9) by (simp add: word_less_nat_alt)
  from append_in_block_room [OF this, of e] obtain m' where m': "append_in_block ?c e (mem s) = (True, m')"
    "load_header m' ?c = (load_header (mem s) ?c)\<lparr>eh_entries := eh_entries (load_header (mem s) ?c) + 1\<rparr>"
    "node_extents m' ?c = node_extents (mem s) ?c @ [e]"
    "unat (eh_entries (load_header (mem s) ?c) + 1) = unat (eh_entries (load_header (mem s) ?c)) + 1"
    "agree_on (- {?c..<?c + 12 * (unat (eh_entries (load_header (mem s) ?c)) + 2)}) (mem s) m'"
    by blast
  have nb: "agree_on (- node_bytes (fs_sb s) ?c) (mem s) m'"
    using n by (intro agree_on_mono [OF m'(5)]) (auto simp: node_bytes_def)
  have "node_bytes (fs_sb s) ?c \<inter> inode_slot g s k = {}" by (rule nodes_outside [OF inv k ok]) (simp add: child(4))
  then have root: "agree_on {?r..<?r + 60} (mem s) m'"
    using tree_root_in_slot [of g s k] by (intro agree_on_mono [OF nb]) auto
  have hr: "load_header m' ?r = load_header (mem s) ?r"
    by (rule header_codec.load_cong) (use root in \<open>auto simp: agree_on_def\<close>)
  have ir: "load_idx m' (?r + 12) = load_idx (mem s) (?r + 12)"
    by (rule idx_codec.load_cong) (use root in \<open>auto simp: agree_on_def\<close>)
  have cr: "tree_child g (s\<lparr>mem := m'\<rparr>) k = ?c" by (simp add: tree_child_def ir)
  have "append_to_extent_tree g e ?r k s = Some (Inr (True, s\<lparr>mem := snd (append_in_block ?c e (mem s))\<rparr>))"
    using child(4,5,6,8) lt unfolding tree_child_def by (intro append_to_child) simp_all
  then have "append_to_extent_tree g e ?r k s = Some (Inr (True, s\<lparr>mem := m'\<rparr>))" by (simp add: m'(1))
  moreover have "tree_ok g (s\<lparr>mem := m'\<rparr>) k"
    using child n m'(2,4) by (intro tree_okI_child) (simp_all add: hr ir cr)
  moreover have "inode_extents g (s\<lparr>mem := m'\<rparr>) k = inode_extents g s k @ [e]"
    using child(4,5,13) m'(3) by (simp add: inode_extents_child hr ir tree_child_def)
  moreover have "tree_bytes g (s\<lparr>mem := m'\<rparr>) k = tree_bytes g s k" by (simp add: tree_bytes_def hr cr)
  moreover have "agree_on (- tree_bytes g s k) (mem s) m'"
    by (intro agree_on_mono [OF nb]) (auto simp: child(12))
  ultimately show ?thesis by blast
qed

text \<open>When the four entries in the inode are used up, a new block becomes the leaf.\<close>

definition node_address :: "fat_globals \<Rightarrow> ext4_super_block \<Rightarrow> fat_extent \<Rightarrow> nat" where
  "node_address g sb f = block_start g sb (fat_cl_to_e4blk g (fe_physical_start f))"

text \<open>What adding a level may change besides the new node.\<close>

definition inode_changes :: "fat_globals \<Rightarrow> ext4_state \<Rightarrow> u32 \<Rightarrow> ext4_extent \<Rightarrow> nat set" where
  "inode_changes g s k e = {inode_addr g s k + 28..<inode_addr g s k + 32}
     \<union> {inode_addr g s k + 116..<inode_addr g s k + 118} \<union> block_bitmap_bytes g s (unat (extent_start_block e))"

lemma inode_changes_tree:
  assumes inv: "groups_inv g s" and k: "valid_inode s k" and ok: "tree_ok g s k" and e: "extent_free g s e"
  shows "inode_changes g s k e \<inter> tree_bytes g s k = {}"
proof -
  let ?r = "tree_root g s k"
  have b: "valid_block s (unat (extent_start_block e))" using e by (simp add: extent_free_def)
  have f: "{inode_addr g s k + 28..<inode_addr g s k + 32} \<union> {inode_addr g s k + 116..<inode_addr g s k + 118} \<subseteq> inode_slot g s k"
    by (auto simp: inode_slot_def)
  then have sub: "inode_changes g s k e \<subseteq> meta_bytes g s"
    using slot_in_meta(1) [OF inv k] block_bitmap_in_meta [OF b] unfolding inode_changes_def by blast
  have root: "inode_changes g s k e \<inter> {?r..<?r + 60} = {}"
    using block_bitmap_disjoint(1) [OF inv b k] tree_root_in_slot [of g s k]
    by (auto simp: inode_changes_def tree_root_def)
  from ok show ?thesis by (cases rule: tree_okE) (use root sub in auto)
qed

lemma split_start_block:
  "snd (set_lo_hi_32_16 (fat_cl_to_e4blk g c)) = 0"
  "from_lo_hi_32 (fst (set_lo_hi_32_16 (fat_cl_to_e4blk g c))) 0 = fat_cl_to_e4blk g c"
proof -
  show hi: "snd (set_lo_hi_32_16 (fat_cl_to_e4blk g c)) = 0"
    unfolding set_lo_hi_32_16_def fat_cl_to_e4blk_def prod.sel
    by (rule bit_word_eqI) (auto simp: bit_simps dest: bit_imp_le_length)
  show "from_lo_hi_32 (fst (set_lo_hi_32_16 (fat_cl_to_e4blk g c))) 0 = fat_cl_to_e4blk g c"
    using extent_start_to_ext4 [of g "\<lparr>fe_logical_start = 0, fe_length = 0, fe_physical_start = c\<rparr>"] hi
    by (simp add: extent_start_block_def to_ext4_extent_def split_beta)
qed

lemma make_tree_deeper_spec:
  assumes inv: "groups_inv g s" and k: "valid_inode s k" and ok: "tree_ok g s k"
    and d: "eh_depth (load_header (mem s) (tree_root g s k)) = 0"
    and al: "allocate_extent 1 (alloc s) = Inr (f, al)" and free: "extent_free g s (to_ext4_extent g f)"
    and node: "node_bytes (fs_sb s) (node_address g (fs_sb s) f) \<inter> meta_bytes g s = {}"
  shows "\<exists>s'. make_tree_deeper g (tree_root g s k) k s = Inr s' \<and> groups_inv g s' \<and> same_groups g (s\<lparr>alloc := al\<rparr>) s'
    \<and> fs_first_free_inode_no s' = fs_first_free_inode_no s
    \<and> tree_ok g s' k \<and> inode_extents g s' k = inode_extents g s k
    \<and> eh_depth (load_header (mem s') (tree_root g s' k)) = 1
    \<and> tree_bytes g s' k = {tree_root g s k..<tree_root g s k + 60} \<union> node_bytes (fs_sb s) (node_address g (fs_sb s) f)
    \<and> (\<forall>x. valid_block s x \<longrightarrow> (block_used g s' x \<longleftrightarrow> x \<in> extent_blocks (to_ext4_extent g f) \<or> block_used g s x))
    \<and> (\<forall>j. valid_inode s j \<longrightarrow> inode_used g s' j = inode_used g s j)
    \<and> agree_on (- (inode_changes g s k (to_ext4_extent g f) \<union> {tree_root g s k..<tree_root g s k + 60}
         \<union> node_bytes (fs_sb s) (node_address g (fs_sb s) f))) (mem s) (mem s')"
proof -
  let ?s1 = "s\<lparr>alloc := al\<rparr>" and ?e = "to_ext4_extent g f" and ?r = "tree_root g s k"
  let ?b = "fat_cl_to_e4blk g (fe_physical_start f)" and ?c = "node_address g (fs_sb s) f"
  let ?N = "node_bytes (fs_sb s) ?c"
  obtain s2 where s2: "count_extent g ?e (inode_addr g s k) ?s1 = Inr s2" "groups_inv g s2" "same_groups g ?s1 s2"
    "fs_first_free_inode_no s2 = fs_first_free_inode_no s"
    "\<And>x. valid_block s x \<Longrightarrow> block_used g s2 x \<longleftrightarrow> x \<in> extent_blocks ?e \<or> block_used g s x"
    "\<And>j. valid_inode s j \<Longrightarrow> inode_used g s2 j = inode_used g s j"
    "agree_on (- inode_changes g s k ?e) (mem s) (mem s2)"
    using count_extent_spec [of g ?s1 k ?e] inv k free by (auto simp: inode_changes_def block_bitmap_bytes_def block_grp_def)
  have sb: "fs_sb s2 = fs_sb s" using s2(3) by (simp add: same_groups_def)
  have v2: "valid_inode s2 k" using same_groups_inode(1) [OF s2(3)] k by simp
  have tree2: "tree_ok g s2 k" "inode_extents g s2 k = inode_extents g s k" "tree_root g s2 k = ?r"
    "tree_bytes g s2 k = tree_bytes g s k"
    using tree_frame [OF k ok s2(3) agree_on_mono [OF s2(7)]] inode_changes_tree [OF inv k ok free] by auto
  define m where "m = deepen_memory (fs_sb s) ?r ?c ?b (mem s2)"
  define s' where "s' = s2\<lparr>mem := m\<rparr>"
  have run: "make_tree_deeper g ?r k s = Inr s'"
    using s2(1) inv k al get_existing_inode_eq [of g ?s1 k]
    by (simp add: make_tree_deeper_def allocate_def register_index_extent_def s'_def m_def sb node_address_def Let_def)
  have mb: "meta_bytes g s2 = meta_bytes g s" using same_groups_meta [OF s2(3)] by simp
  have root2: "agree_on {?r..<?r + 60} (mem s) (mem s2)"
    using inode_changes_tree [OF inv k ok free] by (intro agree_on_mono [OF s2(7)]) (auto simp: tree_bytes_def)
  have h2: "load_header (mem s2) ?r = load_header (mem s) ?r"
    by (rule header_codec.load_cong) (use root2 in \<open>auto simp: agree_on_def\<close>)
  have d2: "eh_depth (load_header (mem s2) ?r) = 0" using d h2 by simp
  from ok d have ok2: "eh_magic (load_header (mem s) ?r) = EH_MAGIC" "eh_max (load_header (mem s) ?r) = 4"
    "unat (eh_entries (load_header (mem s) ?r)) \<le> 4" "5 \<le> unat (max_entries (fs_sb s))"
    "inode_extents g s k = node_extents (mem s) ?r"
    by (cases rule: tree_okE; simp)+
  have sub: "{?c..<?c + 60} \<subseteq> ?N" using ok2(4) by (auto simp: node_bytes_def)
  have slot: "?N \<inter> {?r..<?r + 60} = {}"
    using node slot_in_meta(1) [OF inv k] tree_root_in_slot [of g s k] by blast
  have dis: "?c + 60 \<le> ?r \<or> ?r + 60 \<le> ?c"
  proof (rule ccontr)
    assume "\<not> ?thesis"
    then have "max ?c ?r \<in> {?c..<?c + 60}" "max ?c ?r \<in> {?r..<?r + 60}" by auto
    then show False using sub slot by blast
  qed
  have e4: "unat (eh_entries (load_header (mem s2) ?r)) \<le> 4" using ok2(3) h2 by simp
  note D = deepen_memory_spec [OF dis e4, of "fs_sb s" ?b, folded m_def]
  have child: "tree_child g s' k = ?c"
    using D(2,3) by (simp add: tree_child_def s'_def tree2(3) sb child_address_def split_start_block node_address_def)
  have ok': "tree_ok g s' k"
    unfolding tree_ok_def Let_def
    using D(1,3,5) ok2 h2 d child node split_start_block(1) e4
    by (simp add: s'_def tree2(3) sb mb tree_child_def word_le_nat_alt)
  have ext: "inode_extents g s' k = inode_extents g s k"
  proof -
    have "node_extents (mem s2) ?r = node_extents (mem s) ?r"
      by (rule node_extents_cong(2), rule agree_on_mono [OF root2]) (use ok2(3) in auto)
    moreover have "inode_extents g s' k = node_extents m ?c"
      using D(1) d2 child unfolding tree_child_def by (subst inode_extents_child) (simp_all add: s'_def tree2(3))
    ultimately show ?thesis using D(6) ok2(5) by simp
  qed
  have a6: "agree_on (- (?N \<union> {?r..<?r + 60})) (mem s2) m"
    by (rule agree_on_mono [OF D(7)]) (use sub in auto)
  have "agree_on (bitmap_bytes g s2) (mem s2) m"
  proof (rule agree_on_mono [OF a6])
    have "bitmap_bytes g s2 \<inter> {?r..<?r + 60} = {}"
      using slot_not_bitmap [OF s2(2) v2] tree_root_in_slot [of g s2 k] unfolding tree2(3) by blast
    then show "bitmap_bytes g s2 \<subseteq> - (?N \<union> {?r..<?r + 60})" using bitmap_in_meta [of g s2] node unfolding mb by blast
  qed
  note W = written_elsewhere [OF s2(2) this, folded s'_def]
  have v: "valid_block s2 x = valid_block s x" "valid_inode s2 j = valid_inode s j" for x j
    using same_groups_blocks(1) [OF s2(3)] same_groups_inodes [OF s2(3)] by simp_all
  have "same_groups g ?s1 s'" using s2(3) W(2) by (simp add: same_groups_def)
  moreover have "tree_bytes g s' k = {?r..<?r + 60} \<union> ?N"
    using D(1) d2 by (simp add: tree_bytes_def child [unfolded s'_def] s'_def tree2(3) sb)
  moreover have "agree_on (- (inode_changes g s k ?e \<union> {?r..<?r + 60} \<union> ?N)) (mem s) (mem s')"
    using s2(7) a6 by (auto simp: agree_on_def s'_def)
  moreover have "eh_depth (load_header (mem s') (tree_root g s' k)) = 1"
    using D(1) d2 by (simp add: s'_def tree2(3))
  ultimately show ?thesis
    using run W(1,3,4) ok' ext s2(4,5,6) by (intro exI [of _ s'] conjI) (simp_all add: v s'_def)
qed

text \<open>
  A block for a new leaf: free, and apart from all metadata, from the given blocks \<open>X\<close> and from
  the given bytes \<open>P\<close>.
\<close>

definition leaf_block_off :: "fat_globals \<Rightarrow> ext4_state \<Rightarrow> nat set \<Rightarrow> nat set \<Rightarrow> bool" where
  "leaf_block_off g s X P \<longleftrightarrow> (\<exists>f al. allocate_extent 1 (alloc s) = Inr (f, al) \<and> extent_free g s (to_ext4_extent g f)
     \<and> node_bytes (fs_sb s) (node_address g (fs_sb s) f) \<inter> (meta_bytes g s \<union> P) = {}
     \<and> extent_blocks (to_ext4_extent g f) \<inter> X = {})"

definition leaf_block :: "fat_globals \<Rightarrow> ext4_state \<Rightarrow> nat set \<Rightarrow> bool" where
  "leaf_block g s X \<longleftrightarrow> leaf_block_off g s X {}"

lemma tree_not_bitmap:
  assumes inv: "groups_inv g s" and k: "valid_inode s k" and ok: "tree_ok g s k"
  shows "tree_bytes g s k \<inter> bitmap_bytes g s = {}"
  using ok slot_not_bitmap [OF inv k] tree_root_in_slot [of g s k] bitmap_in_meta [of g s]
  by (cases rule: tree_okE) auto

lemma same_groups_bitmaps:
  assumes "same_groups g (s\<lparr>alloc := al\<rparr>) s'"
  shows "bitmap_bytes g s' = bitmap_bytes g s"
proof -
  have "length (fs_group_descs s') = length (fs_group_descs s)" "fs_sb s' = fs_sb s"
    using assms by (simp_all add: same_groups_def) (metis length_map)
  then show ?thesis using same_groups_nth(1) [OF assms] by (simp add: bitmap_bytes_def bitmaps_of_areas)
qed

text \<open>The block count of an inode.\<close>

definition count_bytes :: "fat_globals \<Rightarrow> ext4_state \<Rightarrow> u32 \<Rightarrow> nat set" where
  "count_bytes g s k = {inode_addr g s k + 28..<inode_addr g s k + 32} \<union> {inode_addr g s k + 116..<inode_addr g s k + 118}"

lemma count_bytes_in_slot: "count_bytes g s k \<subseteq> inode_slot g s k"
  by (auto simp: count_bytes_def inode_slot_def)

lemma inode_changes_sub:
  "extent_free g s e \<Longrightarrow> inode_changes g s k e \<subseteq> count_bytes g s k \<union> bitmap_bytes g s"
  unfolding inode_changes_def bitmap_bytes_def bitmaps_of_areas block_bitmap_bytes_def extent_free_def valid_block_def count_bytes_def
  by auto

text \<open>A tree grows by at most one leaf, whose block has been allocated for it.\<close>

definition leaf_taken :: "fat_globals \<Rightarrow> ext4_state \<Rightarrow> u32 \<Rightarrow> alloc_state \<Rightarrow> nat set \<Rightarrow> nat set \<Rightarrow> bool" where
  "leaf_taken g s k al Y B \<longleftrightarrow> al = alloc s \<and> Y = {} \<and> B = tree_bytes g s k
     \<or> (\<exists>f. allocate_extent 1 (alloc s) = Inr (f, al) \<and> Y = extent_blocks (to_ext4_extent g f)
          \<and> B = {tree_root g s k..<tree_root g s k + 60} \<union> node_bytes (fs_sb s) (node_address g (fs_sb s) f))"

lemma add_extent_spec:
  assumes inv: "groups_inv g s" and k: "valid_inode s k" and ok: "tree_ok g s k"
    and room: "length (inode_extents g s k) < unat (max_entries (fs_sb s))"
    and node: "length (inode_extents g s k) = 4 \<Longrightarrow> eh_depth (load_header (mem s) (tree_root g s k)) = 0 \<Longrightarrow> leaf_block_off g s X P"
  shows "\<exists>s' al Y. add_extent g e k (inode_addr g s k) s = Some (Inr s') \<and> groups_inv g s'
    \<and> same_groups g (s\<lparr>alloc := al\<rparr>) s' \<and> fs_first_free_inode_no s' = fs_first_free_inode_no s
    \<and> tree_ok g s' k \<and> inode_extents g s' k = inode_extents g s k @ [e] \<and> Y \<inter> X = {}
    \<and> (\<forall>x. valid_block s x \<longrightarrow> (block_used g s' x \<longleftrightarrow> x \<in> Y \<or> block_used g s x))
    \<and> (\<forall>j. valid_inode s j \<longrightarrow> inode_used g s' j = inode_used g s j)
    \<and> agree_on (- (tree_bytes g s' k \<union> count_bytes g s k \<union> bitmap_bytes g s)) (mem s) (mem s')
    \<and> (tree_bytes g s k \<inter> P = {} \<longrightarrow> tree_bytes g s' k \<inter> P = {})
    \<and> (length (inode_extents g s k) \<noteq> 4 \<longrightarrow> al = alloc s \<and> Y = {}) \<and> leaf_taken g s k al Y (tree_bytes g s' k)"
proof (cases "length (inode_extents g s k) = 4 \<and> eh_depth (load_header (mem s) (tree_root g s k)) = 0")
  case False
  then obtain m' where m': "append_to_extent_tree g e (tree_root g s k) k s = Some (Inr (True, s\<lparr>mem := m'\<rparr>))"
    "tree_ok g (s\<lparr>mem := m'\<rparr>) k" "inode_extents g (s\<lparr>mem := m'\<rparr>) k = inode_extents g s k @ [e]"
    "tree_bytes g (s\<lparr>mem := m'\<rparr>) k = tree_bytes g s k" "agree_on (- tree_bytes g s k) (mem s) m'"
    using append_to_tree_room [OF inv k ok room] by blast
  have "agree_on (bitmap_bytes g s) (mem s) m'"
    using tree_not_bitmap [OF inv k ok] by (intro agree_on_mono [OF m'(5)]) auto
  note W = written_elsewhere [OF inv this]
  have "add_extent g e k (inode_addr g s k) s = Some (Inr (s\<lparr>mem := m'\<rparr>))"
    using m'(1) by (simp add: add_extent_def tree_root_def)
  moreover have "same_groups g (s\<lparr>alloc := alloc s\<rparr>) (s\<lparr>mem := m'\<rparr>)" by (simp add: same_groups_def)
  moreover have "agree_on (- (tree_bytes g (s\<lparr>mem := m'\<rparr>) k \<union> count_bytes g s k \<union> bitmap_bytes g s)) (mem s) m'"
    unfolding m'(4) by (rule agree_on_mono [OF m'(5)]) auto
  ultimately show ?thesis
    using W(1,3,4) m'(2,3,4)
    by (intro exI [of _ "s\<lparr>mem := m'\<rparr>"] exI [of _ "alloc s"] exI [of _ "{}"]) (simp add: leaf_taken_def)
next
  case True
  then obtain f al where f: "allocate_extent 1 (alloc s) = Inr (f, al)" "extent_free g s (to_ext4_extent g f)"
    "node_bytes (fs_sb s) (node_address g (fs_sb s) f) \<inter> meta_bytes g s = {}"
    "node_bytes (fs_sb s) (node_address g (fs_sb s) f) \<inter> P = {}"
    "extent_blocks (to_ext4_extent g f) \<inter> X = {}"
    using node unfolding leaf_block_off_def by blast
  let ?e = "to_ext4_extent g f" and ?r = "tree_root g s k"
  obtain s1 where s1: "make_tree_deeper g ?r k s = Inr s1" "groups_inv g s1" "same_groups g (s\<lparr>alloc := al\<rparr>) s1"
    "fs_first_free_inode_no s1 = fs_first_free_inode_no s" "tree_ok g s1 k" "inode_extents g s1 k = inode_extents g s k"
    "eh_depth (load_header (mem s1) (tree_root g s1 k)) = 1"
    "tree_bytes g s1 k = {?r..<?r + 60} \<union> node_bytes (fs_sb s) (node_address g (fs_sb s) f)"
    "\<And>x. valid_block s x \<Longrightarrow> block_used g s1 x \<longleftrightarrow> x \<in> extent_blocks ?e \<or> block_used g s x"
    "\<And>j. valid_inode s j \<Longrightarrow> inode_used g s1 j = inode_used g s j"
    "agree_on (- (inode_changes g s k ?e \<union> {?r..<?r + 60} \<union> node_bytes (fs_sb s) (node_address g (fs_sb s) f)))
       (mem s) (mem s1)"
    using make_tree_deeper_spec [OF inv k ok _ f(1,2,3)] True by blast
  have sb: "fs_sb s1 = fs_sb s" using s1(3) by (simp add: same_groups_def)
  have k1: "valid_inode s1 k" "inode_addr g s1 k = inode_addr g s k" "inode_slot g s1 k = inode_slot g s k"
    using same_groups_inode [OF s1(3), of k] k by simp_all
  have r1: "tree_root g s1 k = ?r" by (simp add: tree_root_def k1)
  obtain m' where m': "append_to_extent_tree g e ?r k s1 = Some (Inr (True, s1\<lparr>mem := m'\<rparr>))"
    "tree_ok g (s1\<lparr>mem := m'\<rparr>) k" "inode_extents g (s1\<lparr>mem := m'\<rparr>) k = inode_extents g s k @ [e]"
    "tree_bytes g (s1\<lparr>mem := m'\<rparr>) k = tree_bytes g s1 k" "agree_on (- tree_bytes g s1 k) (mem s1) m'"
    using append_to_tree_room [OF s1(2) k1(1) s1(5)] room s1(6,7) by (auto simp: sb r1)
  have "agree_on (bitmap_bytes g s1) (mem s1) m'"
    using tree_not_bitmap [OF s1(2) k1(1) s1(5)] by (intro agree_on_mono [OF m'(5)]) auto
  note W = written_elsewhere [OF s1(2) this]
  have "append_to_extent_tree g e ?r k s = Some (Inr (False, s))"
  proof -
    from ok True have "eh_max (load_header (mem s) ?r) \<le> eh_entries (load_header (mem s) ?r)"
      by (cases rule: tree_okE) (simp_all add: length_node_extents word_le_nat_alt)
    from append_in_block_full [OF this] show ?thesis using append_to_leaf [of s ?r g e k] True by simp
  qed
  then have "add_extent g e k (inode_addr g s k) s = Some (Inr (s1\<lparr>mem := m'\<rparr>))"
    using s1(1) m'(1) by (simp add: add_extent_def tree_root_def Let_def)
  moreover have "same_groups g (s\<lparr>alloc := al\<rparr>) (s1\<lparr>mem := m'\<rparr>)" using s1(3) by (simp add: same_groups_def)
  moreover have "agree_on (- (tree_bytes g (s1\<lparr>mem := m'\<rparr>) k \<union> count_bytes g s k \<union> bitmap_bytes g s)) (mem s) m'"
  proof -
    have "agree_on (- (tree_bytes g s1 k \<union> count_bytes g s k \<union> bitmap_bytes g s)) (mem s) (mem s1)"
      using inode_changes_sub [OF f(2), of k] by (intro agree_on_mono [OF s1(11)]) (auto simp: s1(8))
    moreover have "agree_on (- (tree_bytes g s1 k \<union> count_bytes g s k \<union> bitmap_bytes g s)) (mem s1) m'"
      by (rule agree_on_mono [OF m'(5)]) auto
    ultimately show ?thesis unfolding m'(4) by (rule agree_on_trans)
  qed
  moreover have "block_used g (s1\<lparr>mem := m'\<rparr>) x \<longleftrightarrow> x \<in> extent_blocks ?e \<or> block_used g s x" if "valid_block s x" for x
    using W(3) [of x] s1(9) [OF that] same_groups_blocks(1) [OF s1(3)] that by simp
  moreover have "inode_used g (s1\<lparr>mem := m'\<rparr>) j = inode_used g s j" if "valid_inode s j" for j
    using W(4) [of j] s1(10) [OF that] same_groups_inodes [OF s1(3)] that by simp
  moreover have "tree_bytes g s k \<inter> P = {} \<longrightarrow> tree_bytes g (s1\<lparr>mem := m'\<rparr>) k \<inter> P = {}"
    using f(4) unfolding m'(4) s1(8) by (auto simp: tree_bytes_def)
  ultimately show ?thesis
    using W(1) m'(2,3,4) s1(4,8) f(1,5) True
    by (intro exI [of _ "s1\<lparr>mem := m'\<rparr>"] exI [of _ al] exI [of _ "extent_blocks ?e"]) (simp add: leaf_taken_def)
qed

lemma register_extent_no_leaf:
  assumes inv: "groups_inv g s" and k: "valid_inode s k" and ok: "tree_ok g s k"
    and full: "length (inode_extents g s k) = 4" "eh_depth (load_header (mem s) (tree_root g s k)) = 0"
    and al: "allocate_extent 1 (alloc s) = Inl err"
  shows "register_extent g f k True s = Some (Inl err)"
proof -
  let ?r = "tree_root g s k" and ?e = "to_ext4_extent g f"
  from ok full have "eh_max (load_header (mem s) ?r) \<le> eh_entries (load_header (mem s) ?r)"
    by (cases rule: tree_okE) (simp_all add: length_node_extents word_le_nat_alt)
  from append_in_block_full [OF this] have "append_to_extent_tree g ?e ?r k s = Some (Inr (False, s))"
    using append_to_leaf [of s ?r g ?e k] full(2) by simp
  then show ?thesis
    using al by (simp add: register_extent_def get_existing_inode_eq [OF inv k] add_extent_def make_tree_deeper_def
        allocate_def tree_root_def Let_def)
qed

lemma tree_and_slots:
  assumes inv: "groups_inv g s" and k: "valid_inode s k" and ok: "tree_ok g s k" and j: "valid_inode s j" "j \<noteq> k"
  shows "inode_slot g s j \<inter> tree_bytes g s k = {}"
  using ok inode_slots_disjoint [OF inv k j] tree_root_in_slot [of g s k] slot_in_meta(1) [OF inv j(1)]
  by (cases rule: tree_okE) auto

lemma extent_free_valid:
  assumes inv: "groups_inv g s" and free: "extent_free g s e" and x: "x \<in> extent_blocks e"
  shows "valid_block s x"
proof (rule block_in_range(3) [OF inv])
  show "valid_block s (unat (extent_start_block e))" using free unfolding extent_free_def by blast
  show le: "unat (extent_start_block e) \<le> x" using x unfolding extent_blocks_def by simp
  have "x < unat (extent_start_block e) + unat (ee_len e)" using x unfolding extent_blocks_def by simp
  moreover have "block_idx s (unat (extent_start_block e)) + unat (ee_len e) \<le> unat (s_blocks_per_group (fs_sb s))"
    using free unfolding extent_free_def by blast
  ultimately show "block_idx s (unat (extent_start_block e)) + (x - unat (extent_start_block e))
      < unat (s_blocks_per_group (fs_sb s))"
    using le by linarith
qed

lemma register_extent_spec:
  assumes inv: "groups_inv g s" and k: "valid_inode s k" and ok: "tree_ok g s k"
    and room: "length (inode_extents g s k) < unat (max_entries (fs_sb s))"
    and free: "extent_free g s (to_ext4_extent g f)"
    and node: "length (inode_extents g s k) = 4 \<Longrightarrow> eh_depth (load_header (mem s) (tree_root g s k)) = 0 \<Longrightarrow> leaf_block_off g s X P"
    and X: "extent_blocks (to_ext4_extent g f) \<subseteq> X"
  shows "\<exists>s' al Y. register_extent g f k True s = Some (Inr s') \<and> groups_inv g s'
    \<and> same_groups g (s\<lparr>alloc := al\<rparr>) s' \<and> fs_first_free_inode_no s' = fs_first_free_inode_no s
    \<and> tree_ok g s' k \<and> inode_extents g s' k = inode_extents g s k @ [to_ext4_extent g f]
    \<and> (\<forall>x. valid_block s x \<longrightarrow> (block_used g s' x \<longleftrightarrow> x \<in> extent_blocks (to_ext4_extent g f) \<or> x \<in> Y \<or> block_used g s x))
    \<and> (\<forall>j. valid_inode s j \<longrightarrow> inode_used g s' j = inode_used g s j)
    \<and> agree_on (- (tree_bytes g s' k \<union> count_bytes g s k \<union> bitmap_bytes g s)) (mem s) (mem s')
    \<and> (tree_bytes g s k \<inter> P = {} \<longrightarrow> tree_bytes g s' k \<inter> P = {})
    \<and> (length (inode_extents g s k) \<noteq> 4 \<longrightarrow> al = alloc s \<and> Y = {}) \<and> Y \<inter> X = {}
    \<and> leaf_taken g s k al Y (tree_bytes g s' k)"
proof -
  let ?e = "to_ext4_extent g f"
  obtain s1 al Y where s1: "add_extent g ?e k (inode_addr g s k) s = Some (Inr s1)" "groups_inv g s1"
    "same_groups g (s\<lparr>alloc := al\<rparr>) s1" "fs_first_free_inode_no s1 = fs_first_free_inode_no s"
    "tree_ok g s1 k" "inode_extents g s1 k = inode_extents g s k @ [?e]" "Y \<inter> X = {}"
    "\<And>x. valid_block s x \<Longrightarrow> block_used g s1 x \<longleftrightarrow> x \<in> Y \<or> block_used g s x"
    "\<And>j. valid_inode s j \<Longrightarrow> inode_used g s1 j = inode_used g s j"
    "agree_on (- (tree_bytes g s1 k \<union> count_bytes g s k \<union> bitmap_bytes g s)) (mem s) (mem s1)"
    "tree_bytes g s k \<inter> P = {} \<longrightarrow> tree_bytes g s1 k \<inter> P = {}"
    "length (inode_extents g s k) \<noteq> 4 \<longrightarrow> al = alloc s \<and> Y = {}" "leaf_taken g s k al Y (tree_bytes g s1 k)"
    using add_extent_spec [OF inv k ok room node, of ?e] by blast
  have k1: "valid_inode s1 k" "inode_addr g s1 k = inode_addr g s k" "inode_slot g s1 k = inode_slot g s k"
    using same_groups_inode [OF s1(3), of k] k by simp_all
  have v: "valid_block s1 x = valid_block s x" "block_idx s1 x = block_idx s x" "valid_inode s1 j = valid_inode s j" for x j
    using same_groups_blocks [OF s1(3)] same_groups_inodes [OF s1(3)] by (simp_all add: block_idx_def)
  have sb: "fs_sb s1 = fs_sb s" using s1(3) by (simp add: same_groups_def)
  have vb: "valid_block s x" if x: "x \<in> extent_blocks ?e" for x using inv free x by (rule extent_free_valid)
  have free1: "extent_free g s1 ?e"
    unfolding extent_free_def v sb
  proof (intro conjI ballI)
    show "\<not> block_used g s1 x" if x: "x \<in> extent_blocks ?e" for x
      using s1(8) [OF vb [OF x]] s1(7) X free x by (simp add: extent_free_def) blast
  qed (use free in \<open>simp_all add: extent_free_def\<close>)
  obtain s' where s': "count_extent g ?e (inode_addr g s1 k) s1 = Inr s'" "groups_inv g s'" "same_groups g s1 s'"
    "fs_first_free_inode_no s' = fs_first_free_inode_no s1"
    "\<And>x. valid_block s1 x \<Longrightarrow> block_used g s' x \<longleftrightarrow> x \<in> extent_blocks ?e \<or> block_used g s1 x"
    "\<And>j. valid_inode s1 j \<Longrightarrow> inode_used g s' j = inode_used g s1 j"
    "agree_on (- inode_changes g s1 k ?e) (mem s1) (mem s')"
    using count_extent_spec [OF s1(2) k1(1) free1] by (auto simp: inode_changes_def)
  have "same_groups g (s1\<lparr>alloc := alloc s1\<rparr>) s'" using s'(3) by simp
  note T = tree_frame [OF k1(1) s1(5) this agree_on_mono [OF s'(7)]]
  have dis: "tree_bytes g s1 k \<subseteq> - inode_changes g s1 k ?e"
    using inode_changes_tree [OF s1(2) k1(1) s1(5) free1] by auto
  have run: "register_extent g f k True s = Some (Inr s')"
    using s1(1) s'(1) by (simp add: register_extent_def get_existing_inode_eq [OF inv k] k1(2))
  have "agree_on (- (tree_bytes g s' k \<union> count_bytes g s k \<union> bitmap_bytes g s)) (mem s) (mem s')"
  proof -
    have "agree_on (- (tree_bytes g s1 k \<union> count_bytes g s k \<union> bitmap_bytes g s)) (mem s1) (mem s')"
      using inode_changes_sub [OF free1, of k] same_groups_bitmaps [OF s1(3)]
      by (intro agree_on_mono [OF s'(7)]) (auto simp: count_bytes_def k1(2))
    with s1(10) show ?thesis unfolding T(3) [OF dis] by (rule agree_on_trans)
  qed
  moreover have "same_groups g (s\<lparr>alloc := al\<rparr>) s'" using s1(3) s'(3) by (simp add: same_groups_def)
  ultimately show ?thesis
    using run s'(2,4,5,6) T(1-3) [OF dis] s1(4,6,7,8,9,11,12,13) v by (intro exI [of _ s'] exI [of _ al] exI [of _ Y]) auto
qed

text \<open>
  C10. \<open>register_extent\<close> refines appending to a list: as long as a leaf block has room for one
  more entry, what a reader finds in the inode's tree afterwards is what it found before, followed
  by the new extent. The blocks of the extent are marked as used and no block is unmarked, the
  free counts stay right, and every other inode is left as it was. The four entries in the inode
  are moved to a block of their own when the fifth arrives; this needs a free block.
\<close>

theorem register_extent_appends:
  assumes inv: "groups_inv g s" and k: "valid_inode s k" and ok: "tree_ok g s k"
    and room: "length (inode_extents g s k) < unat (max_entries (fs_sb s))"
    and free: "extent_free g s (to_ext4_extent g f)"
    and node: "length (inode_extents g s k) = 4 \<Longrightarrow> leaf_block g s (extent_blocks (to_ext4_extent g f))"
  shows "\<exists>s'. register_extent g f k True s = Some (Inr s') \<and> groups_inv g s' \<and> tree_ok g s' k
    \<and> inode_extents g s' k = inode_extents g s k @ [to_ext4_extent g f]
    \<and> (\<forall>x. valid_block s x \<longrightarrow> x \<in> extent_blocks (to_ext4_extent g f) \<or> block_used g s x \<longrightarrow> block_used g s' x)
    \<and> (\<forall>j. valid_inode s j \<longrightarrow> inode_used g s' j = inode_used g s j)
    \<and> (\<forall>j. valid_inode s j \<longrightarrow> j \<noteq> k \<longrightarrow>
         load_inode (mem s') (inode_addr g s' j) = load_inode (mem s) (inode_addr g s j))"
proof -
  obtain s' al Y where s': "register_extent g f k True s = Some (Inr s')" "groups_inv g s'"
    "same_groups g (s\<lparr>alloc := al\<rparr>) s'" "tree_ok g s' k"
    "inode_extents g s' k = inode_extents g s k @ [to_ext4_extent g f]"
    "\<forall>x. valid_block s x \<longrightarrow> (block_used g s' x \<longleftrightarrow> x \<in> extent_blocks (to_ext4_extent g f) \<or> x \<in> Y \<or> block_used g s x)"
    "\<forall>j. valid_inode s j \<longrightarrow> inode_used g s' j = inode_used g s j"
    "agree_on (- (tree_bytes g s' k \<union> count_bytes g s k \<union> bitmap_bytes g s)) (mem s) (mem s')"
    using register_extent_spec [OF inv k ok room free node [unfolded leaf_block_def] order_refl] by blast
  have "load_inode (mem s') (inode_addr g s' j) = load_inode (mem s) (inode_addr g s j)"
    if j: "valid_inode s j" "j \<noteq> k" for j
  proof -
    have n: "valid_inode s' k" "valid_inode s' j" "inode_addr g s' j = inode_addr g s j" "inode_slot g s' j = inode_slot g s j"
      using same_groups_inode [OF s'(3)] k j(1) by simp_all
    have "inode_slot g s j \<inter> tree_bytes g s' k = {}"
      using tree_and_slots [OF s'(2) n(1) s'(4) n(2) j(2)] by (simp add: n(4))
    then have "agree_on (inode_slot g s j) (mem s) (mem s')"
      using inode_slots_disjoint [OF inv k j] slot_not_bitmap [OF inv j(1)] count_bytes_in_slot [of g s k]
      by (intro agree_on_mono [OF s'(8)]) blast
    then show ?thesis unfolding n(3) by (intro inode_codec.load_cong) (simp add: agree_on_def inode_slot_def)
  qed
  with s' show ?thesis by blast
qed

subsection \<open>The last extent\<close>

lemma last_node_extents:
  "node_extents m a \<noteq> [] \<Longrightarrow>
     load_extent m (entry_address a (eh_entries (load_header m a))) = last (node_extents m a)"
proof -
  assume "node_extents m a \<noteq> []"
  then have "0 < length (node_extents m a)" by simp
  then have "0 < unat (eh_entries (load_header m a))" unfolding length_node_extents .
  then obtain n where n: "unat (eh_entries (load_header m a)) = Suc n" using gr0_conv_Suc by blast
  then have "last (node_extents m a) = load_extent m (a + 12 + 12 * n)"
    by (simp add: node_extents_def load_array_map)
  then show ?thesis by (simp add: entry_address_def sizeof_entry_def n algebra_simps)
qed

text \<open>
  C20. \<open>last_extent\<close> follows the last index of every level, ends, and returns the last extent that
  a reader finds in the inode's tree, whether the extents stand in the inode or in a leaf block.
\<close>

theorem last_extent_correct:
  assumes inv: "groups_inv g s" and k: "valid_inode s k" and ok: "tree_ok g s k" and ne: "inode_extents g s k \<noteq> []"
  shows "last_extent g k s = Some (Inr (last (inode_extents g s k)))"
  using ok
proof (cases rule: tree_okE)
  case leaf
  have "last_node g (fs_sb s) (mem s) (tree_root g s k) = Some (tree_root g s k)"
    using leaf(4) by (subst last_node.simps) simp
  then show ?thesis
    using ne last_node_extents [of "mem s" "tree_root g s k"]
    by (simp add: last_extent_def get_existing_inode_eq [OF inv k] tree_root_def [symmetric] leaf(7))
next
  case child
  have "last_node g (fs_sb s) (mem s) (tree_child g s k) = Some (tree_child g s k)"
    using child(8) by (subst last_node.simps) simp
  then have "last_node g (fs_sb s) (mem s) (tree_root g s k) = Some (tree_child g s k)"
    using child(4,5) by (subst last_node.simps)
      (simp add: Let_def entry_address_def sizeof_entry_def tree_child_def child_address_def)
  then show ?thesis
    using ne last_node_extents [of "mem s" "tree_child g s k"]
    by (simp add: last_extent_def get_existing_inode_eq [OF inv k] tree_root_def [symmetric] child(13))
qed

subsection \<open>A full leaf block\<close>

lemma load_le_add: "load_le (j + k) m a = load_le j m a + 256 ^ j * load_le k m (a + j)"
  by (induction j arbitrary: a) (simp_all add: algebra_simps)

lemma load_u32_halves: "load_u32 m a = from_lo_hi_16 (load_u16 m a) (load_u16 m (a + 2))"
proof (rule word_unat_eq_iff [THEN iffD2])
  have "load_le 4 m a = load_le 2 m (a + 2) * 65536 + load_le 2 m a"
    using load_le_add [of 2 2 m a] by simp
  moreover have "unat (load_u16 m b) = load_le 2 m b" for b
    using load_le_bound [of 2 m b] by (simp add: load_u16_def unat_of_nat take_bit_nat_eq_self)
  moreover have "unat (load_u32 m a) = load_le 4 m a"
    using load_le_bound [of 4 m a] by (simp add: load_u32_def unat_of_nat take_bit_nat_eq_self)
  ultimately show "unat (load_u32 m a) = unat (from_lo_hi_16 (load_u16 m a) (load_u16 m (a + 2)))"
    unfolding unat_from_lo_hi_16 by (simp only:)
qed

lemma ucast_from_lo_hi_16: "ucast (from_lo_hi_16 lo hi) = lo"
  unfolding from_lo_hi_16_def by (rule bit_word_eqI) (auto simp: bit_simps)

text \<open>The bytes of an extent read as an index.\<close>

lemma extent_as_index:
  "ei_leaf_lo (load_idx (store_extent m a e) a) = from_lo_hi_16 (ee_len e) (ee_start_hi e)"
  "ei_leaf_hi (load_idx (store_extent m a e) a) = ucast (ee_start_lo e)"
proof -
  let ?m = "store_extent m a e"
  have e: "load_extent ?m a = e" by (rule extent_codec.load_store)
  have f: "load_u16 ?m (a + 4) = ee_len e" "load_u16 ?m (a + 6) = ee_start_hi e" "load_u32 ?m (a + 8) = ee_start_lo e"
    using arg_cong [OF e, of ee_len] arg_cong [OF e, of ee_start_hi] arg_cong [OF e, of ee_start_lo]
    by (simp_all add: load_extent_def)
  show "ei_leaf_lo (load_idx ?m a) = from_lo_hi_16 (ee_len e) (ee_start_hi e)"
    using load_u32_halves [of ?m "a + 4"] f by (simp add: load_idx_def add.commute [of a])
  show "ei_leaf_hi (load_idx ?m a) = ucast (ee_start_lo e)"
    using load_u32_halves [of ?m "a + 8"] f(3) by (simp add: load_idx_def ucast_from_lo_hi_16)
qed

text \<open>
  C15. Once the leaf block of an inode is full, \<open>add_extent\<close> loses the file: the loop of
  \<open>append_to_new_idx_path\<close> never runs, so that no new leaf is allocated, and the extent is
  stored over the only index of the root. The header stays as it is, with one index, whose
  pointer is now made of the length and the first block of the extent.
\<close>

theorem add_extent_full_leaf:
  assumes inv: "groups_inv g s" and k: "valid_inode s k" and ok: "tree_ok g s k"
    and full: "length (inode_extents g s k) = unat (max_entries (fs_sb s))"
  shows "\<exists>m'. add_extent g e k (inode_addr g s k) s = Some (Inr (s\<lparr>mem := m'\<rparr>))
    \<and> load_header m' (tree_root g s k) = load_header (mem s) (tree_root g s k)
    \<and> load_extent m' (tree_root g s k + 12) = e
    \<and> tree_child g (s\<lparr>mem := m'\<rparr>) k = block_start g (fs_sb s)
        (from_lo_hi_32 (from_lo_hi_16 (ee_len e) (ee_start_hi e)) (ucast (ucast (ee_start_lo e) :: u16)))"
  using ok
proof (cases rule: tree_okE)
  case leaf
  then show ?thesis using full by (simp add: length_node_extents)
next
  case child
  let ?r = "tree_root g s k" and ?c = "tree_child g s k"
  define m' where "m' = store_extent (mem s) (?r + 12) e"
  have "eh_max (load_header (mem s) ?c) \<le> eh_entries (load_header (mem s) ?c)"
    using full unfolding child(9,13) length_node_extents by (simp add: word_le_nat_alt)
  then have "append_to_extent_tree g e ?c k s = Some (Inr (False, s))"
    using append_to_leaf [OF child(8), of g e k] append_in_block_full by simp
  then have c: "append_to_extent_tree g e (block_start g (fs_sb s) (ucast (ucast (from_lo_hi_32
      (ei_leaf_lo (load_idx (mem s) (?r + 12))) (ucast (ei_leaf_hi (load_idx (mem s) (?r + 12))))) :: u32))) k s
      = Some (Inr (False, s))"
    unfolding leaf_lo_address [OF child(6)] tree_child_def .
  have "append_to_extent_tree g e ?r k s = Some (Inr (True, s\<lparr>mem := m'\<rparr>))"
    by (subst append_to_extent_tree.simps)
      (simp only: Let_def child(4,5) c entry_address_def sizeof_entry_def unsigned_1 mult_1_right one_neq_zero if_False
        bind_run_simps fst_conv snd_conv child(2), simp add: append_to_new_idx_path_def new_idx_loop_done [of _ 0, simplified] m'_def)
  then have "add_extent g e k (inode_addr g s k) s = Some (Inr (s\<lparr>mem := m'\<rparr>))"
    by (simp add: add_extent_def tree_root_def)
  moreover have "load_header m' ?r = load_header (mem s) ?r"
    unfolding m'_def by (rule header_codec.load_cong, rule extent_codec.store_frame) auto
  moreover have "load_extent m' (?r + 12) = e" unfolding m'_def by (rule extent_codec.load_store)
  moreover have "tree_child g (s\<lparr>mem := m'\<rparr>) k = block_start g (fs_sb s)
        (from_lo_hi_32 (from_lo_hi_16 (ee_len e) (ee_start_hi e)) (ucast (ucast (ee_start_lo e) :: u16)))"
    by (simp add: tree_child_def child_address_def m'_def extent_as_index)
  ultimately show ?thesis by blast
qed

subsection \<open>Free blocks hold no metadata\<close>

definition block_bytes :: "fat_globals \<Rightarrow> ext4_super_block \<Rightarrow> nat \<Rightarrow> nat set" where
  "block_bytes g sb x = {block_addr g sb x..<block_addr g sb x + unat (block_size sb)}"

definition blocks_inv :: "fat_globals \<Rightarrow> ext4_state \<Rightarrow> bool" where
  "blocks_inv g s \<longleftrightarrow> (\<forall>x. valid_block s x \<longrightarrow> \<not> block_used g s x \<longrightarrow> block_bytes g (fs_sb s) x \<inter> meta_bytes g s = {})"

lemma init_areas_range:
  assumes L: "layout_ok sb" and i: "i < unat (block_group_count sb)" and l: "l < 3"
  shows "area_bytes (group_areas g sb (init_group_desc sb (word_of_nat i)) ! l)
    \<subseteq> {block_addr g sb (group_first sb i)
        ..<block_addr g sb (group_first sb i + unat (block_group_overhead sb (word_of_nat i)))}"
proof -
  let ?x = "group_first sb i + bitmap_offset sb i"
  have o: "group_first sb i + unat (block_group_overhead sb (word_of_nat i)) = ?x + 2 + unat (inode_table_blocks sb)"
    using group_blocks(3) [OF L i] by simp
  have e: "block_addr g sb (?x + 2 + unat (inode_table_blocks sb))
      = block_addr g sb (?x + 2) + unat (inode_table_blocks sb) * unat (block_size sb)" by (rule block_addr_add)
  have s: "block_addr g sb (group_first sb i) \<le> block_addr g sb ?x"
    "block_addr g sb (?x + 1) = block_addr g sb ?x + unat (block_size sb)"
    "block_addr g sb (?x + 2) = block_addr g sb ?x + 2 * unat (block_size sb)"
    by (simp_all add: block_addr_def distrib_right)
  have "l = 0 \<or> l = 1 \<or> l = 2" using l by linarith
  then show ?thesis
    unfolding init_group_areas [OF L i] o e area_bytes_def
    using s inode_table_size(1) [OF L] by (elim disjE) auto
qed

lemma init_blocks_inv:
  assumes L: "layout_ok (fs_sb s)"
  shows "blocks_inv g (init_ext4_group_descs g s)"
  unfolding blocks_inv_def
proof (intro allI impI)
  let ?s = "init_ext4_group_descs g s" and ?sb = "fs_sb s"
  fix x assume x: "valid_block ?s x" "\<not> block_used g ?s x"
  have st: "fs_sb ?s = ?sb" "length (fs_group_descs ?s) = unat (block_group_count ?sb)"
    "fs_group_descs ?s = map (init_group_desc ?sb) (map word_of_nat [0..<unat (block_group_count ?sb)])"
    by (simp_all add: init_ext4_group_descs_def Let_def)
  let ?j = "block_grp ?s x" and ?o = "unat (block_group_overhead ?sb (word_of_nat (block_grp ?s x)))"
  have inv: "groups_inv g ?s" using init_groups_spec [OF L] by blast
  have j: "?j < unat (block_group_count ?sb)" using x(1) by (simp add: valid_block_def st)
  have n: "block_grp s x = ?j" "block_idx s x = block_idx ?s x" by (simp_all add: block_grp_def block_idx_def st)
  have idx: "?o \<le> block_idx ?s x" "block_idx ?s x < unat (s_blocks_per_group ?sb)"
    using init_groups_spec [OF L, of g] x block_number(2) [OF inv x(1)] by (simp_all add: Let_def n st not_le)
  have num: "x = group_first ?sb ?j + block_idx ?s x"
    using block_number(1) [OF inv x(1)] by (simp add: group_first_def st)
  have lo: "block_addr g ?sb (group_first ?sb ?j + ?o) \<le> block_addr g ?sb x"
    using idx num by (intro block_addr_mono) linarith
  have "block_addr g ?sb (x + 1) \<le> block_addr g ?sb (group_first ?sb ?j + unat (s_blocks_per_group ?sb))"
    using idx num by (intro block_addr_mono) linarith
  then have hi: "block_addr g ?sb x + unat (block_size ?sb)
      \<le> block_addr g ?sb (group_first ?sb ?j + unat (s_blocks_per_group ?sb))"
    by (simp add: block_addr_def)
  have "block_bytes g ?sb x \<inter> area_bytes (group_areas g ?sb (fs_group_descs ?s ! i) ! l) = {}"
    if i: "i < unat (block_group_count ?sb)" and l: "l < 3" for i l
  proof (cases "i = ?j")
    case True
    then show ?thesis using init_areas_range [OF L i l, of g] lo i by (auto simp: block_bytes_def st(3))
  next
    case False
    have "block_addr g ?sb (group_first ?sb ?j) \<le> block_addr g ?sb (group_first ?sb ?j + ?o)"
      by (rule block_addr_mono) simp
    then have "block_bytes g ?sb x \<subseteq> group_bytes g ?sb ?j"
      using lo hi by (auto simp: block_bytes_def group_bytes_def)
    moreover have "block_addr g ?sb (group_first ?sb i + unat (block_group_overhead ?sb (word_of_nat i)))
        \<le> block_addr g ?sb (group_first ?sb i + unat (s_blocks_per_group ?sb))"
      using group_blocks(3,4,5) [OF L i] by (intro block_addr_mono) simp
    then have "area_bytes (group_areas g ?sb (fs_group_descs ?s ! i) ! l) \<subseteq> group_bytes g ?sb i"
      using init_areas_range [OF L i l, of g] i by (auto simp: group_bytes_def st(3))
    ultimately show ?thesis using group_bytes_disjoint [OF False, of g ?sb] by blast
  qed
  then show "block_bytes g (fs_sb ?s) x \<inter> meta_bytes g ?s = {}"
    unfolding meta_bytes_def st(1,2) by blast
qed

lemma blocks_inv_frame:
  assumes inv: "blocks_inv g s" and S: "same_groups g (s\<lparr>alloc := al\<rparr>) s'"
    and u: "\<And>x. valid_block s x \<Longrightarrow> block_used g s x \<Longrightarrow> block_used g s' x"
  shows "blocks_inv g s'"
  using inv u same_groups_blocks(1) [OF S] same_groups_meta [OF S] S
  by (auto simp: blocks_inv_def same_groups_def)

lemma node_in_block:
  assumes "12 \<le> unat (block_size sb)"
  shows "node_bytes sb (block_addr g sb x) \<subseteq> block_bytes g sb x"
proof -
  have "unat (ucast (block_size sb) - 12 :: u64) = unat (block_size sb) - 12"
    using assms by (subst unat_sub_no_underflow) simp_all
  then have "unat ((ucast (block_size sb) - 12) div 12 :: u64) = (unat (block_size sb) - 12) div 12"
    by (simp add: unat_div)
  then have "unat (max_entries sb) \<le> (unat (block_size sb) - 12) div 12"
    by (simp add: max_entries_def sizeof_entry_def unsigned_ucast_eq take_bit_nat_less_eq_self)
  then have "12 * unat (max_entries sb) \<le> unat (block_size sb) - 12" by linarith
  then have "12 * (unat (max_entries sb) + 1) \<le> unat (block_size sb)" using assms by arith
  then show ?thesis by (auto simp: node_bytes_def block_bytes_def)
qed

lemma free_node:
  assumes "blocks_inv g s" and inv: "groups_inv g s" and x: "valid_block s (unat x)" "\<not> block_used g s (unat x)"
    and bs: "12 \<le> unat (block_size (fs_sb s))"
  shows "node_bytes (fs_sb s) (block_start g (fs_sb s) x) \<inter> meta_bytes g s = {}"
  using assms(1) x node_in_block [OF bs, of g "unat x"] block_start_addr [OF valid_block_bound [OF inv x(1)], of g "fs_sb s"]
  by (auto simp: blocks_inv_def)

subsection \<open>A sample file system\<close>

definition sample_extent :: fat_extent where
  "sample_extent = \<lparr>fe_logical_start = 0, fe_length = 5, fe_physical_start = 602\<rparr>"

lemma sample_max_entries: "max_entries sample_super_block = 340"
  by (simp add: max_entries_def sample_layout sizeof_entry_def)

lemma sample_extent_blocks:
  "extent_start_block (to_ext4_extent sample_globals sample_extent) = 733"
  "extent_blocks (to_ext4_extent sample_globals sample_extent) = {733..<738}"
  "extent_free sample_globals sample_groups (to_ext4_extent sample_globals sample_extent)"
proof -
  show s: "extent_start_block (to_ext4_extent sample_globals sample_extent) = 733"
    by (simp add: extent_start_to_ext4 sample_extent_def fat_cl_to_e4blk_def sample_first_data_block FAT_START_INDEX_def)
  then show "extent_blocks (to_ext4_extent sample_globals sample_extent) = {733..<738}"
    by (simp add: extent_blocks_def sample_extent_def)
  then show "extent_free sample_globals sample_groups (to_ext4_extent sample_globals sample_extent)"
    unfolding extent_free_def s
    by (simp add: sample_block_used sample_extent_def sample_groups_fields sample_groups_numbers)
qed

text \<open>The inode of a new file on the sample file system.\<close>

lemma sample_file:
  "\<exists>s. groups_inv sample_globals s \<and> valid_inode s 12 \<and> tree_ok sample_globals s 12
    \<and> inode_extents sample_globals s 12 = [] \<and> fs_sb s = sample_super_block
    \<and> extent_free sample_globals s (to_ext4_extent sample_globals sample_extent)
    \<and> same_groups sample_globals sample_groups s
    \<and> tree_bytes sample_globals s 12 = {tree_root sample_globals s 12..<tree_root sample_globals s 12 + 60}"
proof -
  let ?g = sample_globals and ?i = "root_inode sample_environment"
  have v: "valid_inode sample_groups 12" using sample_inode_used [of 12] by simp
  obtain s where s: "groups_inv ?g s" "same_groups ?g sample_groups s"
    "load_inode (mem s) (inode_addr ?g sample_groups 12) = ?i"
    "agree_on (- inode_slot ?g sample_groups 12) (mem sample_groups) (mem s)"
    using add_reserved_inode_spec [OF sample_groups_inv v] by blast
  have v': "valid_inode s 12" and r: "tree_root ?g s 12 = inode_addr ?g sample_groups 12 + 40"
    using same_groups_inode [OF s(2) v] by (simp_all add: tree_root_def)
  have sb: "fs_sb s = sample_super_block" using s(2) by (simp add: same_groups_def sample_groups_fields)
  have h: "load_header (mem s) (tree_root ?g s 12) = init_extent_header"
    using arg_cong [OF s(3), of ext_header] unfolding r by (simp add: load_inode_def root_inode_def)
  have "tree_ok ?g s 12"
    by (rule tree_okI_leaf) (simp_all add: h init_extent_header_def sb sample_max_entries)
  moreover have "inode_extents ?g s 12 = []"
    by (simp add: inode_extents_leaf h init_extent_header_def node_extents_def)
  moreover have "extent_free ?g s (to_ext4_extent ?g sample_extent)"
  proof -
    have "block_used ?g s x = block_used ?g sample_groups x" if "valid_block sample_groups x" for x
      using block_bitmap_disjoint(1) [OF sample_groups_inv that v]
      by (intro same_groups_block_used [OF sample_groups_inv s(2) that] agree_on_mono [OF s(4)]) auto
    then show ?thesis
      using sample_extent_blocks
      by (simp add: extent_free_def same_groups_blocks [OF s(2)] sb sample_groups_fields sample_block_used)
  qed
  moreover have "tree_bytes ?g s 12 = {tree_root ?g s 12..<tree_root ?g s 12 + 60}"
    by (simp add: tree_bytes_def h init_extent_header_def)
  ultimately show ?thesis using s(1,2) v' sb by blast
qed

theorem register_extent_appends_witness:
  "\<exists>s s'. register_extent sample_globals sample_extent 12 True s = Some (Inr s')
    \<and> inode_extents sample_globals s' 12 = [to_ext4_extent sample_globals sample_extent]
    \<and> block_used sample_globals s' 733"
proof -
  obtain s where s: "groups_inv sample_globals s" "valid_inode s 12" "tree_ok sample_globals s 12"
    "inode_extents sample_globals s 12 = []" "fs_sb s = sample_super_block"
    "extent_free sample_globals s (to_ext4_extent sample_globals sample_extent)"
    using sample_file by blast
  have "valid_block s 733" using s(6) by (simp add: extent_free_def sample_extent_blocks)
  moreover have "length (inode_extents sample_globals s 12) < unat (max_entries (fs_sb s))"
    by (simp add: s(4,5) sample_max_entries)
  ultimately obtain s' where "register_extent sample_globals sample_extent 12 True s = Some (Inr s')"
    "inode_extents sample_globals s' 12 = [to_ext4_extent sample_globals sample_extent]" "block_used sample_globals s' 733"
    using register_extent_appends [OF s(1,2,3) _ s(6)] by (auto simp: s(4) sample_extent_blocks)
  then show ?thesis by blast
qed

theorem last_extent_correct_witness:
  "\<exists>s. last_extent sample_globals 12 s = Some (Inr (to_ext4_extent sample_globals sample_extent))"
proof -
  obtain s where s: "groups_inv sample_globals s" "valid_inode s 12" "tree_ok sample_globals s 12"
    "inode_extents sample_globals s 12 = []" "fs_sb s = sample_super_block"
    "extent_free sample_globals s (to_ext4_extent sample_globals sample_extent)"
    using sample_file by blast
  obtain s' where s': "groups_inv sample_globals s'" "same_groups sample_globals s s'"
    "tree_ok sample_globals s' 12" "inode_extents sample_globals s' 12 = [to_ext4_extent sample_globals sample_extent]"
    using register_extent_spec [OF s(1,2,3) _ s(6) _ order_refl, where P = "{}"] by (auto simp: s(4,5) sample_max_entries)
  have "valid_inode s' 12" using same_groups_inode(1) [OF s'(2)] s(2) by simp
  from last_extent_correct [OF s'(1) this s'(3)] show ?thesis by (auto simp: s'(4))
qed

text \<open>A full leaf in block 700.\<close>

lemma sample_node:
  "node_bytes sample_super_block (block_start sample_globals sample_super_block 700) \<inter> meta_bytes sample_globals sample_groups = {}"
proof -
  have "blocks_inv sample_globals sample_groups"
    using init_blocks_inv [of sample_ext4 sample_globals] sample_layout_ok by (simp add: sample_groups_def sample_ext4_def)
  then show ?thesis
    using free_node [of sample_globals sample_groups 700] sample_groups_inv sample_block_used [of 700]
    by (simp add: sample_groups_fields sample_layout)
qed

lemma sample_full_leaf:
  "\<exists>s. groups_inv sample_globals s \<and> valid_inode s 12 \<and> tree_ok sample_globals s 12
    \<and> length (inode_extents sample_globals s 12) = 340 \<and> fs_sb s = sample_super_block"
proof -
  let ?g = sample_globals and ?c = "block_start sample_globals sample_super_block 700"
  let ?r = "tree_root sample_globals sample_groups 12"
  define m1 where "m1 = store_header (mem sample_groups) ?r
    \<lparr>eh_magic = EH_MAGIC, eh_entries = 1, eh_max = 4, eh_depth = 1, eh_generation = 0\<rparr>"
  define m2 where "m2 = store_idx m1 (?r + 12) \<lparr>ei_block = 0, ei_leaf_lo = 700, ei_leaf_hi = 0, ei_unused = 0\<rparr>"
  define m3 where "m3 = store_header m2 ?c
    \<lparr>eh_magic = EH_MAGIC, eh_entries = 340, eh_max = 340, eh_depth = 0, eh_generation = 0\<rparr>"
  define s where "s = sample_groups\<lparr>mem := m3\<rparr>"
  have v: "valid_inode sample_groups 12" using sample_inode_used [of 12] by simp
  have c12: "{?c..<?c + 12} \<subseteq> node_bytes sample_super_block ?c" by (auto simp: node_bytes_def sample_max_entries)
  have rc: "{?r..<?r + 24} \<inter> {?c..<?c + 12} = {}"
    using c12 sample_node slot_in_meta(1) [OF sample_groups_inv v] tree_root_in_slot [of ?g sample_groups 12] by fastforce
  have f3: "m3 x = m2 x" if "x \<notin> {?c..<?c + 12}" for x unfolding m3_def using that by (rule header_codec.store_frame)
  have "load_header m3 ?r = load_header m1 ?r"
    using rc by (intro header_codec.load_cong, subst f3) (auto simp: m2_def intro!: idx_codec.store_frame)
  then have h: "load_header m3 ?r = \<lparr>eh_magic = EH_MAGIC, eh_entries = 1, eh_max = 4, eh_depth = 1, eh_generation = 0\<rparr>"
    by (simp add: m1_def header_codec.load_store)
  have "load_idx m3 (?r + 12) = load_idx m2 (?r + 12)"
    using rc by (intro idx_codec.load_cong f3) auto
  then have i: "load_idx m3 (?r + 12) = \<lparr>ei_block = 0, ei_leaf_lo = 700, ei_leaf_hi = 0, ei_unused = 0\<rparr>"
    by (simp add: m2_def idx_codec.load_store)
  have hc: "load_header m3 ?c = \<lparr>eh_magic = EH_MAGIC, eh_entries = 340, eh_max = 340, eh_depth = 0, eh_generation = 0\<rparr>"
    by (simp add: m3_def header_codec.load_store)
  have "agree_on (bitmap_bytes ?g sample_groups) (mem sample_groups) m3"
    unfolding agree_on_def
  proof
    fix x assume x: "x \<in> bitmap_bytes ?g sample_groups"
    then have "x \<notin> {?c..<?c + 12}" using bitmap_in_meta [of ?g sample_groups] sample_node c12 by blast
    moreover have "x \<notin> {?r..<?r + 60}"
      using x slot_not_bitmap [OF sample_groups_inv v] tree_root_in_slot [of ?g sample_groups 12] by blast
    ultimately show "mem sample_groups x = m3 x"
      by (subst f3, simp) (subst m2_def, subst idx_codec.store_frame, force, subst m1_def,
        subst header_codec.store_frame, auto)
  qed
  note W = written_elsewhere(1,2) [OF sample_groups_inv this, folded s_def]
  have child: "tree_child ?g s 12 = ?c"
    by (simp add: tree_child_def s_def i child_address_def from_lo_hi_32_def sample_groups_fields)
  have "tree_ok ?g s 12"
    using sample_node by (intro tree_okI_child) (simp_all add: child, simp_all add: s_def h i hc sample_groups_fields sample_max_entries)
  moreover have "length (inode_extents ?g s 12) = 340"
    using child unfolding tree_child_def
    by (subst inode_extents_child) (simp_all add: s_def h length_node_extents hc sample_groups_fields)
  moreover have "valid_inode s 12" using same_groups_inode(1) [OF W(2) v] .
  ultimately show ?thesis using W(1) by (intro exI [of _ s]) (simp add: s_def sample_groups_fields)
qed

theorem add_extent_full_leaf_witness:
  "\<exists>s m'. add_extent sample_globals (to_ext4_extent sample_globals sample_extent) 12 (inode_addr sample_globals s 12) s
      = Some (Inr (s\<lparr>mem := m'\<rparr>))
    \<and> load_extent m' (tree_root sample_globals s 12 + 12) = to_ext4_extent sample_globals sample_extent"
proof -
  obtain s where s: "groups_inv sample_globals s" "valid_inode s 12" "tree_ok sample_globals s 12"
    "length (inode_extents sample_globals s 12) = 340" "fs_sb s = sample_super_block"
    using sample_full_leaf by blast
  have "length (inode_extents sample_globals s 12) = unat (max_entries (fs_sb s))" by (simp add: s(4,5) sample_max_entries)
  from add_extent_full_leaf [OF s(1,2,3) this, of "to_ext4_extent sample_globals sample_extent"] show ?thesis by blast
qed

end
