(* ===== verification/Ext4_Dentry.thy ===== *)
theory Ext4_Dentry
  imports Ext4_Super Stream_Archiver
begin

unbundle bit_operations_syntax

section \<open>ext4_dentry.h and ext4_dentry.cpp\<close>

text \<open>
  Directory entries of the ext4 side: the conversion of names from UCS-2 to UTF-8 and the
  construction of entries from the stream. \<open>malloc\<close> and uninitialised local variables have
  unspecified contents: they are the parameter \<open>junk\<close>. The array \<open>name\<close> has 255 bytes; the
  list holds the padding byte behind it too, which \<open>memcpy\<close> of a whole entry copies.
\<close>

definition EXT4_NAME_LEN :: nat where "EXT4_NAME_LEN = 255"
definition EXT4_DOT_DENTRY_SIZE :: u32 where "EXT4_DOT_DENTRY_SIZE = 12"

record ext4_dentry =
  ed_inode :: u32
  ed_rec_len :: u16
  ed_name_len :: u16
  ed_name :: "u8 list"

definition next_multiple_of_four :: "u32 \<Rightarrow> u32" where
  "next_multiple_of_four n = ceildiv_u32 n 4 * 4"

subsection \<open>Names\<close>

text \<open>\<open>*pos++ = v\<close> in the array \<open>name\<close>; behind its end the behaviour is undefined.\<close>

definition put_byte :: "nat \<Rightarrow> u8 \<Rightarrow> u8 list \<Rightarrow> u8 list result" where
  "put_byte pos v name = (if pos < EXT4_NAME_LEN then Inr (name[pos := v]) else Inl Out_Of_Bounds)"

fun put_bytes :: "nat \<Rightarrow> u8 list \<Rightarrow> u8 list \<Rightarrow> u8 list result" where
  "put_bytes pos [] name = Inr name"
| "put_bytes pos (v # vs) name = bind_res (put_byte pos v name) (put_bytes (pos + 1) vs)"

text \<open>
  The loop of \<open>ucs2toutf8\<close> with \<open>pos\<close> and \<open>dest_end\<close> as offsets in the array, over the
  \<open>n\<close> code units at \<open>src\<close> that are left; it returns the final \<open>pos\<close>.
\<close>

fun ucs2toutf8_from ::
  "memory \<Rightarrow> nat \<Rightarrow> nat \<Rightarrow> nat \<Rightarrow> nat \<Rightarrow> u8 list \<Rightarrow> (nat \<times> u8 list) result" where
  "ucs2toutf8_from m pos dest_end src 0 name = Inr (pos, name)"
| "ucs2toutf8_from m pos dest_end src (Suc n) name =
     (let ch = load_u16 m src
      in if ch = 0 then Inr (pos, name)
         else if ch < 0x80 then
           (if dest_end \<le> pos then Inr (pos, name)
            else bind_res (put_bytes pos [ucast ch] name) (\<lambda>name'.
                   ucs2toutf8_from m (pos + 1) dest_end (src + 2) n name'))
         else if ch < 0x800 then
           (if dest_end \<le> pos + 1 then Inr (pos, name)
            else bind_res (put_bytes pos [ucast (drop_bit 6 ch OR 0xC0), ucast ((ch AND 0x3F) OR 0x80)] name)
                   (\<lambda>name'. ucs2toutf8_from m (pos + 2) dest_end (src + 2) n name'))
         else
           (if dest_end \<le> pos + 2 then Inr (pos, name)
            else bind_res (put_bytes pos [ucast (drop_bit 12 ch OR 0xE0),
                     ucast ((drop_bit 6 ch AND 0x3F) OR 0x80), ucast ((ch AND 0x3F) OR 0x80)] name)
                   (\<lambda>name'. ucs2toutf8_from m (pos + 3) dest_end (src + 2) n name')))"

definition ucs2toutf8 ::
  "memory \<Rightarrow> nat \<Rightarrow> nat \<Rightarrow> nat \<Rightarrow> nat \<Rightarrow> u8 list \<Rightarrow> (nat \<times> u8 list) result" where
  "ucs2toutf8 m dest dest_end src src_size name =
     bind_res (ucs2toutf8_from m dest dest_end src src_size name) (\<lambda>(pos, name').
       Inr (pos - dest, name'))"

subsection \<open>build_dentry\<close>

text \<open>The loop over the name's segments, from the current \<open>segment\<close> on.\<close>

partial_function (option) read_name_segments ::
  "fat_globals \<Rightarrow> u64 \<Rightarrow> nat \<Rightarrow> ext4_dentry \<Rightarrow> stream \<Rightarrow> 'a io_state_scheme \<Rightarrow> (ext4_dentry \<times> stream) run" where
  "read_name_segments g ps segment d read_stream s =
     (if segment = 0 then Some (Inr (d, read_stream))
      else
        bind_run (Some (ucs2toutf8 (mem s) (unat (ed_name_len d)) (EXT4_NAME_LEN - 1) segment
                          LFN_ENTRY_LENGTH (ed_name d))) (\<lambda>r.
        bind_run (Some (iterateStreamArchiver g ps False (word_of_nat (LFN_ENTRY_LENGTH * 2)) 1 read_stream s))
          (\<lambda>q. read_name_segments g ps (fst q)
                 (d\<lparr>ed_name_len := ed_name_len d + word_of_nat (fst r), ed_name := snd r\<rparr>)
                 (fst (snd q)) (snd (snd q)))))"

definition finish_dentry :: "ext4_dentry \<Rightarrow> ext4_dentry result" where
  "finish_dentry d =
     bind_res (put_byte (unat (ed_name_len d)) 0 (ed_name d)) (\<lambda>name.
       Inr (d\<lparr>ed_name := name, ed_rec_len := ucast (next_multiple_of_four (ucast (ed_name_len d) + 8))\<rparr>))"

definition build_dentry ::
  "fat_globals \<Rightarrow> u64 \<Rightarrow> u8 list \<Rightarrow> u32 \<Rightarrow> stream \<Rightarrow> 'a io_state_scheme \<Rightarrow> (ext4_dentry \<times> stream) run" where
  "build_dentry g ps junk inode_number read_stream s =
     bind_run (Some (iterateStreamArchiver g ps False (word_of_nat (LFN_ENTRY_LENGTH * 2)) 1 read_stream s))
       (\<lambda>q. bind_run (read_name_segments g ps (fst q)
                 \<lparr>ed_inode = inode_number, ed_rec_len = 0, ed_name_len = 0, ed_name = junk\<rparr>
                 (fst (snd q)) (snd (snd q)))
          (\<lambda>r. Some (bind_res (finish_dentry (fst r)) (\<lambda>d. Inr (d, snd r)))))"

subsection \<open>Special entries\<close>

text \<open>\<open>strcpy\<close> and \<open>strlen\<close> of a name given as the bytes in front of its zero.\<close>

definition build_special_dentry :: "u8 list \<Rightarrow> u32 \<Rightarrow> u8 list \<Rightarrow> ext4_dentry" where
  "build_special_dentry junk inode_no name =
     \<lparr>ed_inode = inode_no,
      ed_rec_len = ucast (next_multiple_of_four (ucast (word_of_nat (length name) :: u16) + 8)),
      ed_name_len = word_of_nat (length name),
      ed_name = name @ 0 # drop (length name + 1) junk\<rparr>"

definition build_dot_dir_dentry :: "u8 list \<Rightarrow> u32 \<Rightarrow> ext4_dentry" where
  "build_dot_dir_dentry junk dir_inode_no = build_special_dentry junk dir_inode_no [0x2E]"

definition build_dot_dot_dir_dentry :: "u8 list \<Rightarrow> u32 \<Rightarrow> ext4_dentry" where
  "build_dot_dot_dir_dentry junk parent_inode_no = build_special_dentry junk parent_inode_no [0x2E, 0x2E]"

text \<open>\<open>lost+found\<close>\<close>

definition build_lost_found_dentry :: "u8 list \<Rightarrow> ext4_dentry" where
  "build_lost_found_dentry junk = build_special_dentry junk EXT4_LOST_FOUND_INODE
     [0x6C, 0x6F, 0x73, 0x74, 0x2B, 0x66, 0x6F, 0x75, 0x6E, 0x64]"

subsection \<open>Entries in memory\<close>

text \<open>The bytes of the struct, and \<open>memcpy\<close> of the first \<open>n\<close> of them.\<close>

definition dentry_bytes :: "ext4_dentry \<Rightarrow> u8 list" where
  "dentry_bytes d = load_bytes (store_u16 (store_u16 (store_u32 (\<lambda>_. 0) 0 (ed_inode d)) 4 (ed_rec_len d)) 6
     (ed_name_len d)) 0 8 @ ed_name d"

definition copy_dentry :: "memory \<Rightarrow> nat \<Rightarrow> ext4_dentry \<Rightarrow> nat \<Rightarrow> memory" where
  "copy_dentry m a d n = store_bytes m a (take n (dentry_bytes d))"

subsection \<open>UTF-8\<close>

text \<open>The bytes of one code unit, and the inverse that any UTF-8 reader applies.\<close>

definition utf8_unit :: "u16 \<Rightarrow> u8 list" where
  "utf8_unit ch =
     (if ch < 0x80 then [ucast ch]
      else if ch < 0x800 then [ucast (drop_bit 6 ch OR 0xC0), ucast ((ch AND 0x3F) OR 0x80)]
      else [ucast (drop_bit 12 ch OR 0xE0), ucast ((drop_bit 6 ch AND 0x3F) OR 0x80), ucast ((ch AND 0x3F) OR 0x80)])"

fun utf8_decode :: "u8 list \<Rightarrow> u16 list option" where
  "utf8_decode [] = Some []"
| "utf8_decode (a # bs) =
     (if a < 0x80 then map_option ((#) (ucast a)) (utf8_decode bs)
      else case bs of [] \<Rightarrow> None | b # cs \<Rightarrow>
        if b AND 0xC0 \<noteq> 0x80 then None
        else if a AND 0xE0 = 0xC0 then
          map_option ((#) (push_bit 6 (ucast (a AND 0x1F)) OR ucast (b AND 0x3F))) (utf8_decode cs)
        else case cs of [] \<Rightarrow> None | c # ds \<Rightarrow>
          if c AND 0xC0 \<noteq> 0x80 \<or> a AND 0xF0 \<noteq> 0xE0 then None
          else map_option ((#) (push_bit 12 (ucast (a AND 0x0F)) OR push_bit 6 (ucast (b AND 0x3F)) OR ucast (c AND 0x3F)))
                 (utf8_decode ds))"

lemma small_word_bits:
  fixes w :: "'a::len word"
  assumes "unat w < 2 ^ k" and "k \<le> i"
  shows "\<not> bit w i"
proof -
  have "(2 :: nat) ^ k \<le> 2 ^ i" using assms(2) by (rule power_increasing) simp
  then have "unat w < 2 ^ i" using assms(1) by linarith
  then have "unat w div 2 ^ i = 0" by simp
  then have "\<not> bit (unat w) i" by (simp add: bit_iff_odd)
  then show ?thesis using bit_imp_le_length by (auto simp: bit_unsigned_iff)
qed

lemma upt_8_16:
  "[0..<8] = [0, 1, 2, 3, 4, 5, 6, 7]"
  "[0..<16] = [0, 1, 2, 3, 4, 5, 6, 7, 8, 9, 10, 11, 12, 13, 14, 15]"
  by (simp_all add: upt_rec)

lemma word_eq_upt: "list_all (\<lambda>i. bit a i = bit b i) [0..<LENGTH('a)] \<Longrightarrow> a = b" for a b :: "'a::len word"
  by (rule bit_word_eqI) (simp add: list_all_iff)

lemma u8_eqI: "list_all (\<lambda>i. bit a i = bit b i) [0, 1, 2, 3, 4, 5, 6, 7] \<Longrightarrow> a = b" for a b :: u8
  unfolding upt_8_16 [symmetric] by (rule word_eq_upt) simp

lemma u16_eqI:
  "list_all (\<lambda>i. bit a i = bit b i) [0, 1, 2, 3, 4, 5, 6, 7, 8, 9, 10, 11, 12, 13, 14, 15] \<Longrightarrow> a = b" for a b :: u16
  unfolding upt_8_16 [symmetric] by (rule word_eq_upt) simp

lemma utf8_two_bytes:
  fixes ch :: u16
  assumes "ch < 0x800"
  defines "a \<equiv> ucast (drop_bit 6 ch OR 0xC0) :: u8" and "b \<equiv> ucast ((ch AND 0x3F) OR 0x80) :: u8"
  shows "b AND 0xC0 = 0x80" "a AND 0xE0 = 0xC0" 
    "(push_bit 6 (ucast (a AND 0x1F)) OR ucast (b AND 0x3F) :: u16) = ch"
proof -
  have "unat ch < 2 ^ 11" using assms(1) by (simp add: word_less_nat_alt)
  then have z: "\<not> bit ch i" if "11 \<le> i" for i using small_word_bits that by blast
  show "b AND 0xC0 = 0x80"
    by (rule u8_eqI) (simp add: b_def bit_simps)
  show "a AND 0xE0 = 0xC0"
    by (rule u8_eqI) (simp add: a_def bit_simps z)
  show "(push_bit 6 (ucast (a AND 0x1F)) OR ucast (b AND 0x3F) :: u16) = ch"
    by (rule u16_eqI) (simp add: a_def b_def bit_simps z)
qed

lemma utf8_three_bytes:
  fixes ch :: u16
  defines "a \<equiv> ucast (drop_bit 12 ch OR 0xE0) :: u8"
    and "b \<equiv> ucast ((drop_bit 6 ch AND 0x3F) OR 0x80) :: u8" and "c \<equiv> ucast ((ch AND 0x3F) OR 0x80) :: u8"
  shows "b AND 0xC0 = 0x80" "c AND 0xC0 = 0x80" "a AND 0xE0 \<noteq> 0xC0" "a AND 0xF0 = 0xE0"
    "(push_bit 12 (ucast (a AND 0x0F)) OR push_bit 6 (ucast (b AND 0x3F)) OR ucast (c AND 0x3F) :: u16) = ch"
proof -
  have z: "\<not> bit ch i" if "16 \<le> i" for i using that bit_imp_le_length by force
  show "b AND 0xC0 = 0x80" "c AND 0xC0 = 0x80"
    by (rule u8_eqI; simp add: b_def c_def bit_simps)+
  show "a AND 0xF0 = 0xE0"
    by (rule u8_eqI) (simp add: a_def bit_simps z)
  have "bit (a AND 0xE0) 5" "\<not> bit (0xC0 :: u8) 5"
    by (simp_all add: a_def bit_simps)
  then show "a AND 0xE0 \<noteq> 0xC0" by metis
  show "(push_bit 12 (ucast (a AND 0x0F)) OR push_bit 6 (ucast (b AND 0x3F)) OR ucast (c AND 0x3F) :: u16) = ch"
    by (rule u16_eqI) (simp add: a_def b_def c_def bit_simps z)
qed

lemma not_ascii: "bit (a :: u8) 7 \<Longrightarrow> \<not> a < 0x80"
  using small_word_bits [of a 7 7] by (auto simp: word_less_nat_alt)

lemma utf8_decode_unit: "utf8_decode (utf8_unit ch @ bs) = map_option ((#) ch) (utf8_decode bs)"
proof -
  consider (one) "ch < 0x80" | (two) "\<not> ch < 0x80" "ch < 0x800" | (three) "\<not> ch < 0x80" "\<not> ch < 0x800" by blast
  then show ?thesis
  proof cases
    case one
    then have "unat ch < 128" by (simp add: word_less_nat_alt)
    then have "unat (ucast ch :: u8) = unat ch" by (simp add: unsigned_ucast_eq take_bit_nat_eq_self)
    then have "(ucast ch :: u8) < 0x80" "ucast (ucast ch :: u8) = ch"
      using \<open>unat ch < 128\<close> by (simp_all add: word_less_nat_alt word_unat_eq_iff unat_ucast_id)
    then show ?thesis using one by (simp add: utf8_unit_def)
  next
    case two
    have "\<not> (ucast (drop_bit 6 ch OR 0xC0) :: u8) < 0x80"
      by (rule not_ascii) (simp add: bit_simps)
    then show ?thesis using two utf8_two_bytes [OF two(2)] by (simp add: utf8_unit_def)
  next
    case three
    have "\<not> (ucast (drop_bit 12 ch OR 0xE0) :: u8) < 0x80"
      by (rule not_ascii) (simp add: bit_simps)
    then show ?thesis using three utf8_three_bytes [of ch] by (simp add: utf8_unit_def)
  qed
qed

lemma utf8_decode_units: "utf8_decode (concat (map utf8_unit us)) = Some us"
  by (induction us) (simp_all add: utf8_decode_unit)

subsection \<open>What ucs2toutf8 writes\<close>

text \<open>The code units in front of the terminating zero.\<close>

definition name_units :: "memory \<Rightarrow> nat \<Rightarrow> nat \<Rightarrow> u16 list" where
  "name_units m src n = takeWhile (\<lambda>ch. ch \<noteq> 0) (load_array load_u16 2 m src n)"

definition overwrite :: "nat \<Rightarrow> 'b list \<Rightarrow> 'b list \<Rightarrow> 'b list" where
  "overwrite pos vs xs = take pos xs @ vs @ drop (pos + length vs) xs"

lemma length_overwrite: "pos + length vs \<le> length xs \<Longrightarrow> length (overwrite pos vs xs) = length xs"
  by (simp add: overwrite_def)

lemma overwrite_overwrite:
  assumes "pos + length vs + length ws \<le> length xs"
  shows "overwrite (pos + length vs) ws (overwrite pos vs xs) = overwrite pos (vs @ ws) xs"
  using assms by (simp add: overwrite_def ac_simps)

lemma overwrite_Nil [simp]: "overwrite pos [] xs = xs"
  by (simp add: overwrite_def)

lemma put_bytes_overwrite:
  "pos + length vs \<le> EXT4_NAME_LEN \<Longrightarrow> length name = 256 \<Longrightarrow> put_bytes pos vs name = Inr (overwrite pos vs name)"
proof (induction vs arbitrary: pos name)
  case (Cons v vs)
  have "name[pos := v] = overwrite pos [v] name"
    using Cons.prems by (simp add: overwrite_def upd_conv_take_nth_drop EXT4_NAME_LEN_def)
  moreover have "overwrite (pos + 1) vs (overwrite pos [v] name) = overwrite pos (v # vs) name"
    using overwrite_overwrite [of pos "[v]" vs name] Cons.prems by (simp add: EXT4_NAME_LEN_def)
  ultimately show ?case
    using Cons.IH [of "pos + 1" "name[pos := v]"] Cons.prems
    by (simp add: put_byte_def EXT4_NAME_LEN_def length_overwrite)
qed simp

lemma ucs2toutf8_from_step:
  "ucs2toutf8_from m pos dest_end src (Suc n) name =
     (let ch = load_u16 m src; k = length (utf8_unit ch)
      in if ch = 0 \<or> dest_end < pos + k then Inr (pos, name)
         else bind_res (put_bytes pos (utf8_unit ch) name) (\<lambda>name'.
                ucs2toutf8_from m (pos + k) dest_end (src + 2) n name'))"
  by (auto simp: Let_def utf8_unit_def eval_nat_numeral)

declare ucs2toutf8_from.simps(2) [simp del]

lemma name_units_Suc:
  "name_units m src (Suc n) = (if load_u16 m src = 0 then [] else load_u16 m src # name_units m (src + 2) n)"
  by (simp add: name_units_def)

lemma ucs2toutf8_from_spec:
  assumes "pos \<le> dest_end" and "dest_end \<le> 254" and "length name = 256"
  shows "\<exists>us rest. name_units m src n = us @ rest
    \<and> ucs2toutf8_from m pos dest_end src n name =
        Inr (pos + length (concat (map utf8_unit us)), overwrite pos (concat (map utf8_unit us)) name)
    \<and> pos + length (concat (map utf8_unit us)) \<le> dest_end
    \<and> (rest \<noteq> [] \<longrightarrow> dest_end < pos + length (concat (map utf8_unit us)) + length (utf8_unit (hd rest)))"
  using assms
proof (induction n arbitrary: pos src name)
  case 0
  then show ?case by (intro exI [of _ "[]"]) (simp add: name_units_def)
next
  case (Suc n)
  let ?ch = "load_u16 m src" and ?vs = "utf8_unit (load_u16 m src)"
  show ?case
  proof (cases "?ch = 0 \<or> dest_end < pos + length ?vs")
    case True
    then have "ucs2toutf8_from m pos dest_end src (Suc n) name = Inr (pos, name)"
      by (simp only: ucs2toutf8_from_step Let_def if_True)
    then show ?thesis
      using True Suc.prems
      by (intro exI [of _ "[]"] exI [of _ "name_units m src (Suc n)"]) (auto simp: name_units_Suc)
  next
    case False
    let ?name = "overwrite pos ?vs name"
    have len: "length ?name = 256" using False Suc.prems by (simp add: length_overwrite)
    have "put_bytes pos ?vs name = Inr ?name"
      using False Suc.prems by (intro put_bytes_overwrite) (simp_all add: EXT4_NAME_LEN_def)
    then have step: "ucs2toutf8_from m pos dest_end src (Suc n) name =
        ucs2toutf8_from m (pos + length ?vs) dest_end (src + 2) n ?name"
      using False by (simp only: ucs2toutf8_from_step Let_def if_False bind_res_Inr)
    obtain us rest where IH: "name_units m (src + 2) n = us @ rest"
      "ucs2toutf8_from m (pos + length ?vs) dest_end (src + 2) n ?name =
         Inr (pos + length ?vs + length (concat (map utf8_unit us)),
              overwrite (pos + length ?vs) (concat (map utf8_unit us)) ?name)"
      "pos + length ?vs + length (concat (map utf8_unit us)) \<le> dest_end"
      "rest \<noteq> [] \<longrightarrow> dest_end < pos + length ?vs + length (concat (map utf8_unit us)) + length (utf8_unit (hd rest))"
      using Suc.IH [OF _ Suc.prems(2) len, of "pos + length ?vs" "src + 2"] False by auto
    have "overwrite (pos + length ?vs) (concat (map utf8_unit us)) ?name = overwrite pos (?vs @ concat (map utf8_unit us)) name"
      using IH(3) Suc.prems by (intro overwrite_overwrite) linarith
    then show ?thesis
      using False IH by (intro exI [of _ "?ch # us"] exI [of _ rest]) (simp add: step name_units_Suc add.assoc)
  qed
qed

text \<open>
  C23. \<open>ucs2toutf8\<close> writes, from \<open>dest\<close> on and never behind \<open>dest_end\<close>, bytes that a UTF-8
  reader decodes to the longest prefix of the name's code units that fits, and changes nothing
  else; it stops in front of the first unit whose bytes would not fit.
\<close>

theorem ucs2toutf8_decodes:
  assumes "dest \<le> dest_end" and "dest_end \<le> 254" and "length name = 256"
  shows "\<exists>k name' us rest. ucs2toutf8 m dest dest_end src n name = Inr (k, name')
    \<and> dest + k \<le> dest_end \<and> name_units m src n = us @ rest
    \<and> length name' = 256 \<and> take dest name' = take dest name \<and> drop (dest + k) name' = drop (dest + k) name
    \<and> k = sum_list (map (\<lambda>u. length (utf8_unit u)) us) \<and> utf8_decode (take k (drop dest name')) = Some us
    \<and> (rest = [] \<or> dest_end < dest + k + length (utf8_unit (hd rest)))"
proof -
  obtain us rest where u: "name_units m src n = us @ rest"
    "ucs2toutf8_from m dest dest_end src n name =
       Inr (dest + length (concat (map utf8_unit us)), overwrite dest (concat (map utf8_unit us)) name)"
    "dest + length (concat (map utf8_unit us)) \<le> dest_end"
    "rest \<noteq> [] \<longrightarrow> dest_end < dest + length (concat (map utf8_unit us)) + length (utf8_unit (hd rest))"
    using ucs2toutf8_from_spec [OF assms, of m src n] by (elim exE conjE) (rule that)
  define bs where "bs = concat (map utf8_unit us)"
  have le: "dest + length bs \<le> 256" using u(3) assms(2) by (simp add: bs_def)
  have "ucs2toutf8 m dest dest_end src n name = Inr (length bs, overwrite dest bs name)"
    by (simp add: ucs2toutf8_def u(2) bs_def)
  moreover have "length (overwrite dest bs name) = 256" using le assms(3) by (simp add: length_overwrite)
  moreover have "take dest (overwrite dest bs name) = take dest name"
    "drop (dest + length bs) (overwrite dest bs name) = drop (dest + length bs) name"
    "take (length bs) (drop dest (overwrite dest bs name)) = bs"
    using le assms(3) by (simp_all add: overwrite_def)
  moreover have "utf8_decode bs = Some us" "length bs = sum_list (map (\<lambda>u. length (utf8_unit u)) us)"
    by (simp_all add: bs_def utf8_decode_units length_concat comp_def)
  ultimately show ?thesis
    using u(1,3,4) by (intro exI [of _ "length bs"] exI [of _ "overwrite dest bs name"] exI [of _ us] exI [of _ rest])
      (auto simp: bs_def)
qed

definition sample_name_memory :: memory where
  "sample_name_memory = store_array store_u16 2 (\<lambda>_. 0) 1000 ([0x41, 0xE9, 0x20AC] @ replicate 10 0)"

theorem ucs2toutf8_decodes_witness:
  "\<exists>k name'. ucs2toutf8 sample_name_memory 0 254 1000 13 (replicate 256 7) = Inr (k, name')
     \<and> utf8_decode (take k name') = Some [0x41, 0xE9, 0x20AC]"
proof -
  have "load_array load_u16 2 sample_name_memory 1000 (length ([0x41, 0xE9, 0x20AC :: u16] @ replicate 10 0)) =
      [0x41, 0xE9, 0x20AC] @ replicate 10 0"
    unfolding sample_name_memory_def by (rule u16.load_store_array)
  then have "name_units sample_name_memory 1000 13 = [0x41, 0xE9, 0x20AC]" by (simp add: name_units_def)
  then obtain k name' us rest where u: "ucs2toutf8 sample_name_memory 0 254 1000 13 (replicate 256 7) = Inr (k, name')"
    "[0x41, 0xE9, 0x20AC] = us @ rest" "utf8_decode (take k name') = Some us"
    "k = sum_list (map (\<lambda>u. length (utf8_unit u)) us)"
    "rest = [] \<or> 254 < k + length (utf8_unit (hd rest))"
    using ucs2toutf8_decodes [of 0 254 "replicate 256 7" sample_name_memory 1000 13] by auto
  have small: "length (utf8_unit ch) \<le> 3" for ch by (simp add: utf8_unit_def)
  have "k \<le> 3 * length us" unfolding u(4) using small by (induction us) (simp_all add: add_mono)
  moreover have "length us \<le> 3" using arg_cong [OF u(2), of length] by simp
  ultimately have "rest = []" using u(5) small [of "hd rest"] by linarith
  then show ?thesis using u(1-3) by auto
qed

subsection \<open>What build_dentry builds\<close>

text \<open>
  \<open>element_segment\<close>: \<open>iterateStreamArchiver\<close> with elements of \<open>n\<close> bytes returns these
  addresses and then \<open>NULL\<close>, leaving the reader at \<open>st'\<close>.
\<close>

inductive element_segment ::
  "fat_globals \<Rightarrow> u64 \<Rightarrow> u64 \<Rightarrow> 'a io_state_scheme \<Rightarrow> stream \<Rightarrow> nat list \<Rightarrow> stream \<Rightarrow> bool"
  for g ps n s where
  segment_done: "iterateStreamArchiver g ps False n 1 st s = Inr (0, st', s) \<Longrightarrow> element_segment g ps n s st [] st'"
| segment_element: "iterateStreamArchiver g ps False n 1 st s = Inr (a, st1, s) \<Longrightarrow> a \<noteq> 0
    \<Longrightarrow> element_segment g ps n s st1 as st' \<Longrightarrow> element_segment g ps n s st (a # as) st'"

text \<open>Entries under construction: the name is at most 254 bytes, in an array of 255 and one of padding.\<close>

definition dentry_open :: "ext4_dentry \<Rightarrow> bool" where
  "dentry_open d \<longleftrightarrow> length (ed_name d) = 256 \<and> unat (ed_name_len d) \<le> 254"

definition dentry_name :: "ext4_dentry \<Rightarrow> u8 list" where
  "dentry_name d = take (unat (ed_name_len d)) (ed_name d)"

definition name_bytes :: "memory \<Rightarrow> nat list \<Rightarrow> u8 list" where
  "name_bytes m as = concat (map (\<lambda>a. concat (map utf8_unit (name_units m a LFN_ENTRY_LENGTH))) as)"

text \<open>One segment: it appends the longest prefix that fits, all of it when there is room.\<close>

lemma append_segment:
  assumes d: "dentry_open d"
  shows "\<exists>k name. ucs2toutf8 m (unat (ed_name_len d)) (EXT4_NAME_LEN - 1) a LFN_ENTRY_LENGTH (ed_name d) = Inr (k, name)
    \<and> dentry_open (d\<lparr>ed_name_len := ed_name_len d + word_of_nat k, ed_name := name\<rparr>)
    \<and> (length (dentry_name d @ name_bytes m [a]) \<le> 254 \<longrightarrow>
         dentry_name (d\<lparr>ed_name_len := ed_name_len d + word_of_nat k, ed_name := name\<rparr>) = dentry_name d @ name_bytes m [a])"
proof -
  let ?l = "unat (ed_name_len d)"
  have l: "?l \<le> 254" "length (ed_name d) = 256" using d by (simp_all add: dentry_open_def)
  obtain us rest where u: "name_units m a LFN_ENTRY_LENGTH = us @ rest"
    "ucs2toutf8_from m ?l 254 a LFN_ENTRY_LENGTH (ed_name d) =
       Inr (?l + length (concat (map utf8_unit us)), overwrite ?l (concat (map utf8_unit us)) (ed_name d))"
    "?l + length (concat (map utf8_unit us)) \<le> 254"
    "rest \<noteq> [] \<longrightarrow> 254 < ?l + length (concat (map utf8_unit us)) + length (utf8_unit (hd rest))"
    using ucs2toutf8_from_spec [OF l(1) order_refl l(2), of m a LFN_ENTRY_LENGTH]
    by (elim exE conjE) (rule that)
  define bs where "bs = concat (map utf8_unit us)"
  let ?d = "d\<lparr>ed_name_len := ed_name_len d + word_of_nat (length bs), ed_name := overwrite ?l bs (ed_name d)\<rparr>"
  have le: "?l + length bs \<le> 254" using u(3) by (simp add: bs_def)
  have "length bs < 2 ^ LENGTH(16)" using le by simp
  then have "unat (word_of_nat (length bs) :: u16) = length bs" by (simp only: unat_of_nat mod_less)
  then have len: "unat (ed_name_len ?d) = ?l + length bs" using le by (simp add: unat_add_no_overflow)
  have run: "ucs2toutf8 m ?l (EXT4_NAME_LEN - 1) a LFN_ENTRY_LENGTH (ed_name d) =
      Inr (length bs, overwrite ?l bs (ed_name d))"
    using u(2) by (simp add: ucs2toutf8_def EXT4_NAME_LEN_def bs_def)
  have "dentry_open ?d" using le l(2) len by (simp add: dentry_open_def length_overwrite)
  moreover have name: "dentry_name ?d = dentry_name d @ bs"
    using le l(2) by (simp only: dentry_name_def len) (simp add: overwrite_def)
  moreover have "bs = name_bytes m [a]" if fits: "length (dentry_name d @ name_bytes m [a]) \<le> 254"
  proof (cases rest)
    case Nil
    then show ?thesis by (simp add: name_bytes_def u(1) bs_def)
  next
    case (Cons r rs)
    have "length (dentry_name d) = ?l" using l by (simp add: dentry_name_def)
    then have "?l + length (bs @ utf8_unit r) \<le> 254"
      using fits Cons by (simp add: name_bytes_def u(1) bs_def)
    then show ?thesis using u(4) Cons by (simp add: bs_def)
  qed
  ultimately show ?thesis using run by (intro exI [of _ "length bs"] exI [of _ "overwrite ?l bs (ed_name d)"]) auto
qed

lemma read_name_segments_spec:
  fixes s :: "'a io_state_scheme"
  shows "element_segment g ps n s st as st' \<Longrightarrow> n = word_of_nat (LFN_ENTRY_LENGTH * 2) \<Longrightarrow> dentry_open d \<Longrightarrow>
    \<exists>d'. bind_run (Some (iterateStreamArchiver g ps False n 1 st s)) (\<lambda>q.
        read_name_segments g ps (fst q) d (fst (snd q)) (snd (snd q))) = Some (Inr (d', st'))
      \<and> dentry_open d' \<and> ed_inode d' = ed_inode d
      \<and> (length (dentry_name d @ name_bytes (mem s) as) \<le> 254 \<longrightarrow>
           dentry_name d' = dentry_name d @ name_bytes (mem s) as)"
proof (induction arbitrary: d rule: element_segment.induct)
  case (segment_done st st')
  then show ?case by (subst read_name_segments.simps) (simp add: name_bytes_def)
next
  case (segment_element st a st1 as st')
  obtain k name where k: "ucs2toutf8 (mem s) (unat (ed_name_len d)) (EXT4_NAME_LEN - 1) a LFN_ENTRY_LENGTH (ed_name d)
      = Inr (k, name)" "dentry_open (d\<lparr>ed_name_len := ed_name_len d + word_of_nat k, ed_name := name\<rparr>)"
    "length (dentry_name d @ name_bytes (mem s) [a]) \<le> 254 \<longrightarrow>
       dentry_name (d\<lparr>ed_name_len := ed_name_len d + word_of_nat k, ed_name := name\<rparr>) = dentry_name d @ name_bytes (mem s) [a]"
    using append_segment [OF segment_element.prems(2), of "mem s" a] by blast
  let ?d = "d\<lparr>ed_name_len := ed_name_len d + word_of_nat k, ed_name := name\<rparr>"
  obtain d' where d': "bind_run (Some (iterateStreamArchiver g ps False n 1 st1 s)) (\<lambda>q.
        read_name_segments g ps (fst q) ?d (fst (snd q)) (snd (snd q))) = Some (Inr (d', st'))"
      "dentry_open d'" "ed_inode d' = ed_inode d"
      "length (dentry_name ?d @ name_bytes (mem s) as) \<le> 254 \<longrightarrow>
         dentry_name d' = dentry_name ?d @ name_bytes (mem s) as"
    using segment_element.IH [OF segment_element.prems(1) k(2)] by auto
  have nb: "name_bytes (mem s) (a # as) = name_bytes (mem s) [a] @ name_bytes (mem s) as"
    by (simp add: name_bytes_def)
  have "read_name_segments g ps a d st1 s = Some (Inr (d', st'))"
    using segment_element.hyps(2) d'(1) k(1) segment_element.prems(1)
    by (subst read_name_segments.simps) simp
  then show ?case
    using segment_element.hyps(1) d'(2-4) k(3) unfolding nb by (intro exI [of _ d']) auto
qed

lemma unat_next_multiple_of_four:
  assumes "unat n + 3 < 2 ^ 32"
  shows "unat (next_multiple_of_four n) = (unat n + 3) div 4 * 4"
proof -
  have "n + 4 - 1 = n + 3" by simp
  moreover have "unat (n + 3) = unat n + 3" using assms by (subst unat_add_no_overflow) simp_all
  ultimately have d: "unat (ceildiv_u32 n 4) = (unat n + 3) div 4" by (simp only: ceildiv_u32_def unat_div) simp
  have "(unat n + 3) div 4 * 4 \<le> unat n + 3" by simp
  moreover have "unat n + 3 < 4294967296" using assms by simp
  ultimately have "(unat n + 3) div 4 * 4 < 4294967296" by (rule le_less_trans)
  then show ?thesis unfolding next_multiple_of_four_def by (subst unat_mult_no_overflow) (simp_all add: d)
qed

lemma finish_dentry_spec:
  assumes "dentry_open d"
  shows "\<exists>d'. finish_dentry d = Inr d' \<and> ed_inode d' = ed_inode d \<and> ed_name_len d' = ed_name_len d
    \<and> dentry_name d' = dentry_name d \<and> ed_name d' ! unat (ed_name_len d) = 0 \<and> length (ed_name d') = 256
    \<and> unat (ed_rec_len d') = (unat (ed_name_len d) + 11) div 4 * 4"
proof -
  have l: "unat (ed_name_len d) \<le> 254" "length (ed_name d) = 256" using assms by (simp_all add: dentry_open_def)
  have "unat (ucast (ed_name_len d) + 8 :: u32) = unat (ed_name_len d) + 8"
    using l(1) by (subst unat_add_no_overflow) simp_all
  then have r: "unat (next_multiple_of_four (ucast (ed_name_len d) + 8)) = (unat (ed_name_len d) + 11) div 4 * 4"
    using l(1) by (subst unat_next_multiple_of_four) simp_all
  moreover have "(unat (ed_name_len d) + 11) div 4 * 4 < 2 ^ 16" using l(1) by simp
  ultimately have "unat (ucast (next_multiple_of_four (ucast (ed_name_len d) + 8)) :: u16) =
      (unat (ed_name_len d) + 11) div 4 * 4"
    by (simp add: unsigned_ucast_eq take_bit_nat_eq_self)
  then show ?thesis
    using l by (simp add: finish_dentry_def put_byte_def EXT4_NAME_LEN_def dentry_name_def)
qed

lemma build_dentry_spec:
  fixes s :: "'a io_state_scheme"
  assumes "element_segment g ps (word_of_nat (LFN_ENTRY_LENGTH * 2)) s st as st'" and "length junk = 256"
  shows "\<exists>d. build_dentry g ps junk inode_number st s = Some (Inr (d, st')) \<and> dentry_open d
    \<and> ed_inode d = inode_number \<and> ed_name d ! unat (ed_name_len d) = 0
    \<and> unat (ed_rec_len d) = (unat (ed_name_len d) + 11) div 4 * 4
    \<and> (length (name_bytes (mem s) as) \<le> 254 \<longrightarrow> dentry_name d = name_bytes (mem s) as)"
proof -
  let ?d0 = "\<lparr>ed_inode = inode_number, ed_rec_len = 0, ed_name_len = 0, ed_name = junk\<rparr>"
  have "dentry_open ?d0" "dentry_name ?d0 = []" using assms(2) by (simp_all add: dentry_open_def dentry_name_def)
  then obtain d1 where d1: "bind_run (Some (iterateStreamArchiver g ps False (word_of_nat (LFN_ENTRY_LENGTH * 2)) 1 st s))
      (\<lambda>q. read_name_segments g ps (fst q) ?d0 (fst (snd q)) (snd (snd q))) = Some (Inr (d1, st'))"
    "dentry_open d1" "ed_inode d1 = inode_number"
    "length (name_bytes (mem s) as) \<le> 254 \<longrightarrow> dentry_name d1 = name_bytes (mem s) as"
    using read_name_segments_spec [OF assms(1) refl, of ?d0] by auto
  obtain d where d: "finish_dentry d1 = Inr d" "ed_inode d = ed_inode d1" "ed_name_len d = ed_name_len d1"
    "dentry_name d = dentry_name d1" "ed_name d ! unat (ed_name_len d1) = 0" "length (ed_name d) = 256"
    "unat (ed_rec_len d) = (unat (ed_name_len d1) + 11) div 4 * 4"
    using finish_dentry_spec [OF d1(2)] by blast
  have "build_dentry g ps junk inode_number st s = Some (Inr (d, st'))"
    using d1(1) d(1) unfolding build_dentry_def by (auto elim!: bind_runE)
  moreover have "dentry_open d" using d1(2) d(3,6) by (simp add: dentry_open_def)
  ultimately show ?thesis using d d1(3,4) by (intro exI [of _ d]) simp
qed


definition sample_name_stream :: stream where
  "sample_name_stream = \<lparr>st_page = 610432, st_offset = 16, st_index = 0, st_header = 610440\<rparr>"

text \<open>A page of 64 bytes whose only segment is one element of 26 bytes: the units of \<open>sample_name_memory\<close>.\<close>

definition sample_name_io :: io_state where
  "sample_name_io = \<lparr>mem = store_array store_u16 2 (store_u64 (\<lambda>_. 0) 610440 1) 610448
     ([0x41, 0xE9, 0x20AC] @ replicate 10 0), alloc = sample_alloc\<rparr>"


end
