(* ===== verification/Tree_Builder.thy ===== *)
theory Tree_Builder
  imports Extent_Trees Ext4_Dentry Extent_Iterator
begin

unbundle bit_operations_syntax

section \<open>tree_builder.cpp\<close>

text \<open>
  The ext4 directory tree, built from the stream that the FAT directory tree was written to.
  Entries are placed one after the other in the blocks of the directory; the last entry of a
  block is stretched to the end of the block. \<open>junk\<close> gives the contents of uninitialised
  memory: of the entries on the stack (0, 1 and 2) and from \<open>malloc\<close> (3), in a given state.
\<close>

type_synonym junk = "nat \<Rightarrow> ext4_state \<Rightarrow> u8 list"

definition build_ext4_root :: "fat_globals \<Rightarrow> environment \<Rightarrow> ext4_state \<Rightarrow> ext4_state result" where
  "build_ext4_root g env s = build_root_inode g env s"

partial_function (option) skip_elements ::
  "fat_globals \<Rightarrow> u64 \<Rightarrow> u64 \<Rightarrow> stream \<Rightarrow> ext4_state \<Rightarrow> (stream \<times> ext4_state) run" where
  "skip_elements g ps len read_stream s =
     bind_run (Some (getNext g ps len read_stream s)) (\<lambda>q.
       if fst q = 0 then Some (Inr (snd q)) else skip_elements g ps len (fst (snd q)) (snd (snd q)))"

definition skip_child_count :: "fat_globals \<Rightarrow> u64 \<Rightarrow> stream \<Rightarrow> ext4_state \<Rightarrow> (stream \<times> ext4_state) run" where
  "skip_child_count g ps read_stream s = skip_elements g ps 4 read_stream s"

definition skip_dir_extents :: "fat_globals \<Rightarrow> u64 \<Rightarrow> stream \<Rightarrow> ext4_state \<Rightarrow> (stream \<times> ext4_state) run" where
  "skip_dir_extents g ps read_stream s = skip_elements g ps (word_of_nat sizeof_fat_extent) read_stream s"

subsection \<open>Directory blocks\<close>

text \<open>The returned pointer is that of the second entry.\<close>

definition build_dot_dirs :: "u8 list \<Rightarrow> u8 list \<Rightarrow> u32 \<Rightarrow> u32 \<Rightarrow> nat \<Rightarrow> memory \<Rightarrow> nat \<times> memory" where
  "build_dot_dirs junk0 junk1 dir_inode_no parent_inode_no dot_dentry_p m =
     (let dot_dentry = build_dot_dir_dentry junk0 dir_inode_no;
          m1 = copy_dentry m dot_dentry_p dot_dentry (unat (ed_rec_len dot_dentry));
          dot_dot_dentry_p = dot_dentry_p + unat (ed_rec_len dot_dentry);
          dot_dot_dentry = build_dot_dot_dir_dentry junk1 parent_inode_no
      in (dot_dot_dentry_p, copy_dentry m1 dot_dot_dentry_p dot_dot_dentry (unat (ed_rec_len dot_dot_dentry))))"

definition next_dir_block ::
  "fat_globals \<Rightarrow> u64 \<Rightarrow> extent_iterator \<Rightarrow> ext4_state \<Rightarrow> (u64 \<times> extent_iterator \<times> ext4_state) run" where
  "next_dir_block g ps iterator s =
     bind_run (next_cluster_no g ps iterator s) (\<lambda>r.
       if fst r \<noteq> 0 then Some (Inr (fat_cl_to_e4blk g (fst r), snd r, s))
       else bind_run (Some (allocate 1 s)) (\<lambda>q.
              Some (Inr (fat_cl_to_e4blk g (fe_physical_start (fst q)), snd r, snd q))))"

definition register_dir_extent :: "fat_globals \<Rightarrow> u64 \<Rightarrow> u32 \<Rightarrow> u32 \<Rightarrow> ext4_state \<Rightarrow> ext4_state run" where
  "register_dir_extent g block_no logical_no inode_no s =
     register_extent g \<lparr>fe_logical_start = logical_no, fe_length = 1, fe_physical_start = e4blk_to_fat_cl g block_no\<rparr>
       inode_no True s"

text \<open>\<open>rec_len\<close> of the entry at \<open>p\<close> grows by what is left of the block.\<close>

definition stretch_entry :: "ext4_super_block \<Rightarrow> nat \<Rightarrow> int \<Rightarrow> memory \<Rightarrow> memory" where
  "stretch_entry sb p position_in_block m =
     store_u16 m (p + 4) (ucast (ucast (load_u16 m (p + 4)) + (block_size sb - word_of_int position_in_block) :: u32))"

text \<open>The local variables of \<open>build_ext4_metadata_tree\<close>.\<close>

record dir_vars =
  dv_iterator :: extent_iterator
  dv_block_no :: u64
  dv_block_count :: u32
  dv_previous :: nat
  dv_position :: int
  dv_child_count :: u32

text \<open>Up to the loop over the children.\<close>

definition start_dir ::
  "fat_globals \<Rightarrow> junk \<Rightarrow> u64 \<Rightarrow> u32 \<Rightarrow> u32 \<Rightarrow> stream \<Rightarrow> ext4_state \<Rightarrow> (dir_vars \<times> stream \<times> ext4_state) run" where
  "start_dir g junk ps dir_inode_no parent_inode_no read_stream s =
     bind_run (Some (init_iterator g ps read_stream s)) (\<lambda>iterator.
     bind_run (next_dir_block g ps iterator s) (\<lambda>b.
     bind_run (skip_dir_extents g ps read_stream (snd (snd b))) (\<lambda>r.
     bind_run (Some (getNext g ps 4 (fst r) (snd r))) (\<lambda>c.
       if fst c = 0 then Some (Inl Null_Pointer)
       else
         (let s3 = snd (snd c); child_count = load_u32 (mem s3) (fst c)
          in bind_run (Some (getNext g ps 4 (fst (snd c)) s3)) (\<lambda>d.
               let s4 = snd (snd d);
                   (previous, m) = build_dot_dirs (junk 0 s4) (junk 1 s4) dir_inode_no parent_inode_no
                                     (block_start g (fs_sb s4) (fst b)) (mem s4)
               in Some (Inr (\<lparr>dv_iterator = fst (snd b), dv_block_no = fst b, dv_block_count = 1,
                              dv_previous = previous, dv_position = 2 * uint EXT4_DOT_DENTRY_SIZE,
                              dv_child_count = child_count\<rparr>, fst (snd d), s4\<lparr>mem := m\<rparr>))))))))"

text \<open>When the entry does not fit into the block: finish the block and go to the next one.\<close>

definition next_block_for ::
  "fat_globals \<Rightarrow> u64 \<Rightarrow> u32 \<Rightarrow> ext4_dentry \<Rightarrow> dir_vars \<Rightarrow> ext4_state \<Rightarrow> (dir_vars \<times> ext4_state) run" where
  "next_block_for g ps dir_inode_no e_dentry v s =
     (if block_size (fs_sb s) - word_of_int (dv_position v) < ucast (ed_rec_len e_dentry)
      then
        (let s1 = s\<lparr>mem := stretch_entry (fs_sb s) (dv_previous v) (dv_position v) (mem s)\<rparr>
         in bind_run (register_dir_extent g (dv_block_no v) (dv_block_count v - 1) dir_inode_no s1) (\<lambda>s2.
            bind_run (next_dir_block g ps (dv_iterator v) s2) (\<lambda>b.
              Some (Inr (v\<lparr>dv_iterator := fst (snd b), dv_block_no := fst b, dv_block_count := dv_block_count v + 1,
                           dv_position := 0\<rparr>, snd (snd b))))))
      else Some (Inr (v, s)))"

definition put_entry :: "fat_globals \<Rightarrow> ext4_dentry \<Rightarrow> dir_vars \<Rightarrow> ext4_state \<Rightarrow> dir_vars \<times> ext4_state" where
  "put_entry g e_dentry v s =
     (let previous = block_start g (fs_sb s) (dv_block_no v) + nat (dv_position v)
      in (v\<lparr>dv_previous := previous, dv_position := dv_position v + uint (ed_rec_len e_dentry)\<rparr>,
          s\<lparr>mem := copy_dentry (mem s) previous e_dentry (unat (ed_rec_len e_dentry))\<rparr>))"

definition place_entry ::
  "fat_globals \<Rightarrow> u64 \<Rightarrow> u32 \<Rightarrow> ext4_dentry \<Rightarrow> dir_vars \<Rightarrow> ext4_state \<Rightarrow> (dir_vars \<times> ext4_state) run" where
  "place_entry g ps dir_inode_no e_dentry v s =
     bind_run (next_block_for g ps dir_inode_no e_dentry v s) (\<lambda>q. Some (Inr (put_entry g e_dentry (fst q) (snd q))))"

text \<open>One child up to its entry: its inode number, the address of its FAT entry, and the state.\<close>

definition place_child ::
  "fat_globals \<Rightarrow> environment \<Rightarrow> junk \<Rightarrow> u64 \<Rightarrow> u32 \<Rightarrow> dir_vars \<Rightarrow> stream \<Rightarrow> ext4_state
    \<Rightarrow> (u32 \<times> nat \<times> dir_vars \<times> stream \<times> ext4_state) run" where
  "place_child g env junk ps dir_inode_no v read_stream s =
     bind_run (Some (getNext g ps (word_of_nat sizeof_fat_dentry) read_stream s)) (\<lambda>a.
     bind_run (Some (getNext g ps (word_of_nat sizeof_fat_dentry) (fst (snd a)) (snd (snd a)))) (\<lambda>b.
       if fst a = 0 then Some (Inl Null_Pointer)
       else
         bind_run (Some (build_inode g env (fst a) (snd (snd b)))) (\<lambda>n.
         bind_run (build_dentry g ps (junk 3 (snd n)) (fst n) (fst (snd b)) (snd n)) (\<lambda>e.
         bind_run (place_entry g ps dir_inode_no (fst e) v (snd n)) (\<lambda>q.
           Some (Inr (fst n, fst a, fst q, snd e, snd q)))))))"

text \<open>After the loop.\<close>

definition finish_dir :: "fat_globals \<Rightarrow> u32 \<Rightarrow> dir_vars \<Rightarrow> ext4_state \<Rightarrow> ext4_state run" where
  "finish_dir g dir_inode_no v s =
     (let s1 = (if dv_previous v \<noteq> 0
                then s\<lparr>mem := stretch_entry (fs_sb s) (dv_previous v) (dv_position v) (mem s)\<rparr> else s)
      in bind_run (register_dir_extent g (dv_block_no v) (dv_block_count v - 1) dir_inode_no s1) (\<lambda>s2.
           Some (set_size g dir_inode_no (ucast (dv_block_count v * block_size (fs_sb s2))) s2)))"

text \<open>
  The loop over the children from the \<open>i\<close>-th on, and what follows it. The recursive call for a
  directory runs its statements up to the loop, and then the same loop with its own variables.
\<close>

partial_function (option) build_children ::
  "fat_globals \<Rightarrow> environment \<Rightarrow> junk \<Rightarrow> u64 \<Rightarrow> u32 \<Rightarrow> u32 \<Rightarrow> dir_vars \<Rightarrow> stream \<Rightarrow> ext4_state
    \<Rightarrow> (stream \<times> ext4_state) run" where
  "build_children g env junk ps dir_inode_no i v read_stream s =
     (if i < dv_child_count v
      then bind_run (place_child g env junk ps dir_inode_no v read_stream s) (\<lambda>c.
             let inode_number = fst c; f_dentry = fst (snd c); v1 = fst (snd (snd c));
                 read1 = fst (snd (snd (snd c))); s1 = snd (snd (snd (snd c)))
             in bind_run
                  (if \<not> is_dir (mem s1) f_dentry
                   then bind_run (set_extents g ps inode_number f_dentry read1 s1) (\<lambda>r.
                          skip_child_count g ps (fst r) (snd r))
                   else bind_run (Some (incr_links_count g dir_inode_no s1)) (\<lambda>s2.
                        bind_run (start_dir g junk ps inode_number dir_inode_no read1 s2) (\<lambda>d.
                          build_children g env junk ps inode_number 0 (fst d) (fst (snd d)) (snd (snd d)))))
                  (\<lambda>r. build_children g env junk ps dir_inode_no (i + 1) v1 (fst r) (snd r)))
      else bind_run (finish_dir g dir_inode_no v s) (\<lambda>s1. Some (Inr (read_stream, s1))))"

definition build_ext4_metadata_tree ::
  "fat_globals \<Rightarrow> environment \<Rightarrow> junk \<Rightarrow> u64 \<Rightarrow> u32 \<Rightarrow> u32 \<Rightarrow> stream \<Rightarrow> ext4_state \<Rightarrow> (stream \<times> ext4_state) run" where
  "build_ext4_metadata_tree g env junk ps dir_inode_no parent_inode_no read_stream s =
     bind_run (start_dir g junk ps dir_inode_no parent_inode_no read_stream s) (\<lambda>d.
       build_children g env junk ps dir_inode_no 0 (fst d) (fst (snd d)) (snd (snd d)))"

subsection \<open>lost+found\<close>

definition lost_found_entry :: "fat_globals \<Rightarrow> junk \<Rightarrow> fat_extent \<Rightarrow> ext4_state \<Rightarrow> ext4_state" where
  "lost_found_entry g junk root_dentry_extent s =
     (let lost_found_dentry = (build_lost_found_dentry (junk 2 s))\<lparr>ed_rec_len := ucast (block_size (fs_sb s))\<rparr>
      in s\<lparr>mem := copy_dentry (mem s) (cluster_start g (fe_physical_start root_dentry_extent)) lost_found_dentry 264\<rparr>)"

definition lost_found_dots :: "fat_globals \<Rightarrow> junk \<Rightarrow> fat_extent \<Rightarrow> ext4_state \<Rightarrow> ext4_state" where
  "lost_found_dots g junk lost_found_dentry_extent s =
     (let (dot_dot_dentry, m) = build_dot_dirs (junk 0 s) (junk 1 s) EXT4_LOST_FOUND_INODE EXT4_ROOT_INODE
            (cluster_start g (fe_physical_start lost_found_dentry_extent)) (mem s)
      in s\<lparr>mem := store_u16 m (dot_dot_dentry + 4) (ucast (block_size (fs_sb s) - EXT4_DOT_DENTRY_SIZE))\<rparr>)"

definition build_lost_found :: "fat_globals \<Rightarrow> environment \<Rightarrow> junk \<Rightarrow> ext4_state \<Rightarrow> ext4_state run" where
  "build_lost_found g env junk s =
     bind_run (Some (allocate 1 s)) (\<lambda>(root_ext, s1).
     bind_run (last_extent g EXT4_ROOT_INODE s1) (\<lambda>last.
       let root_dentry_extent = root_ext\<lparr>fe_logical_start := ee_block last + ucast (ee_len last)\<rparr>
       in bind_run (register_extent g root_dentry_extent EXT4_ROOT_INODE True s1) (\<lambda>s2.
          bind_run (Some (build_lost_found_inode g env s2)) (\<lambda>s3.
            let s4 = lost_found_entry g junk root_dentry_extent s3
            in bind_run (Some (get_size g EXT4_ROOT_INODE s4)) (\<lambda>sz.
               bind_run (Some (set_size g EXT4_ROOT_INODE (sz + ucast (block_size (fs_sb s4))) s4)) (\<lambda>s5.
               bind_run (Some (allocate 1 s5)) (\<lambda>(lf_ext, s6).
                 let lost_found_dentry_extent = lf_ext\<lparr>fe_logical_start := 0\<rparr>;
                     s7 = lost_found_dots g junk lost_found_dentry_extent s6
                 in bind_run (register_extent g lost_found_dentry_extent EXT4_LOST_FOUND_INODE True s7) (\<lambda>s8.
                      Some (set_size g EXT4_LOST_FOUND_INODE (ucast (block_size (fs_sb s8))) s8)))))))))"

end
