(* ===== verification/Directory_Blocks.thy ===== *)
theory Directory_Blocks
  imports Tree_Builder
begin

unbundle bit_operations_syntax

section \<open>What a reader finds in a directory block\<close>

text \<open>
  The kernel walks a directory block from entry to entry by the record lengths, which have to
  lead exactly to the end of the block. The theory shows that the blocks filled by
  \<open>build_dot_dirs\<close> and \<open>place_entry\<close>, with the last entry stretched, are read back entry by entry.
\<close>

function read_dir_block :: "memory \<Rightarrow> nat \<Rightarrow> nat \<Rightarrow> (u32 \<times> u8 list) list option" where
  "read_dir_block m a end_of_block =
     (if a = end_of_block then Some []
      else (let len = unat (load_u16 m (a + 4)); name_len = unat (load_u16 m (a + 6))
            in if len < name_len + 8 \<or> end_of_block < a + len then None
               else map_option (Cons (load_u32 m a, load_bytes m (a + 8) name_len)) (read_dir_block m (a + len) end_of_block)))"
  by pat_completeness auto
termination by (relation "measure (\<lambda>(m, a, e). e - a)") auto

declare read_dir_block.simps [simp del]

definition entry_ok :: "ext4_dentry \<Rightarrow> bool" where
  "entry_ok d \<longleftrightarrow> unat (ed_name_len d) + 8 \<le> unat (ed_rec_len d) \<and> unat (ed_rec_len d) \<le> 264 \<and> length (ed_name d) = 256"

definition entry_info :: "ext4_dentry \<Rightarrow> u32 \<times> u8 list" where
  "entry_info d = (ed_inode d, dentry_name d)"

definition entry_at :: "memory \<Rightarrow> nat \<Rightarrow> ext4_dentry \<Rightarrow> bool" where
  "entry_at m a d \<longleftrightarrow> load_u32 m a = ed_inode d \<and> load_u16 m (a + 4) = ed_rec_len d \<and> load_u16 m (a + 6) = ed_name_len d
     \<and> load_bytes m (a + 8) (unat (ed_name_len d)) = dentry_name d"

text \<open>Entries one after the other from \<open>a\<close> to \<open>b\<close>.\<close>

fun entries_at :: "memory \<Rightarrow> nat \<Rightarrow> ext4_dentry list \<Rightarrow> nat \<Rightarrow> bool" where
  "entries_at m a [] b \<longleftrightarrow> a = b"
| "entries_at m a (d # ds) b \<longleftrightarrow> entry_ok d \<and> entry_at m a d \<and> entries_at m (a + unat (ed_rec_len d)) ds b"

lemma entry_at_cong:
  assumes "entry_ok d" and m: "agree_on {a..<a + unat (ed_rec_len d)} m m'"
  shows "entry_at m' a d = entry_at m a d"
proof -
  have n: "unat (ed_name_len d) + 8 \<le> unat (ed_rec_len d)" using assms(1) by (simp add: entry_ok_def)
  have eq: "m' x = m x" if "a \<le> x" "x < a + unat (ed_rec_len d)" for x using m that by (simp add: agree_on_def)
  have "load_u32 m' a = load_u32 m a" by (rule u32.load_cong, rule eq) (use n in auto)
  moreover have "load_u16 m' (a + 4) = load_u16 m (a + 4)" by (rule u16.load_cong, rule eq) (use n in auto)
  moreover have "load_u16 m' (a + 6) = load_u16 m (a + 6)" by (rule u16.load_cong, rule eq) (use n in auto)
  moreover have "load_bytes m' (a + 8) (unat (ed_name_len d)) = load_bytes m (a + 8) (unat (ed_name_len d))"
    by (rule load_bytes_cong, rule eq) (use n in auto)
  ultimately show ?thesis by (simp add: entry_at_def)
qed

lemma entries_at_le: "entries_at m a ds b \<Longrightarrow> a \<le> b"
  by (induction ds arbitrary: a) force+

lemma entries_at_cong:
  "agree_on {a..<b} m m' \<Longrightarrow> entries_at m a ds b \<Longrightarrow> entries_at m' a ds b"
proof (induction ds arbitrary: a)
  case (Cons d ds)
  have le: "a + unat (ed_rec_len d) \<le> b" using Cons.prems(2) entries_at_le by simp blast
  have "agree_on {a..<a + unat (ed_rec_len d)} m m'" using le by (intro agree_on_mono [OF Cons.prems(1)]) auto
  moreover have "agree_on {a + unat (ed_rec_len d)..<b} m m'" by (rule agree_on_mono [OF Cons.prems(1)]) auto
  ultimately show ?case using Cons.IH Cons.prems(2) entry_at_cong by simp
qed simp

lemma entries_at_append:
  "entries_at m a (ds @ es) c \<longleftrightarrow> (\<exists>b. entries_at m a ds b \<and> entries_at m b es c)"
  by (induction ds arbitrary: a) auto

lemma read_entries:
  "entries_at m a ds b \<Longrightarrow> b \<le> e \<Longrightarrow> read_dir_block m a e = map_option (append (map entry_info ds)) (read_dir_block m b e)"
proof (induction ds arbitrary: a)
  case Nil
  then show ?case by (simp add: map_option.compositionality option.map_ident)
next
  case (Cons d ds)
  have d: "entry_ok d" "entry_at m a d" "entries_at m (a + unat (ed_rec_len d)) ds b" using Cons.prems by simp_all
  have "a + unat (ed_rec_len d) \<le> e" using entries_at_le [OF d(3)] Cons.prems(2) by simp
  moreover have "a \<noteq> e" using d(1) calculation by (auto simp: entry_ok_def)
  ultimately show ?case
    using Cons.IH [OF d(3) Cons.prems(2)] d(1,2)
    by (subst read_dir_block.simps, cases "read_dir_block m b e")
      (simp_all add: Let_def entry_at_def entry_ok_def entry_info_def)
qed

subsection \<open>Writing entries\<close>

lemma length_dentry_bytes: "length (ed_name d) = 256 \<Longrightarrow> length (dentry_bytes d) = 264"
  by (simp add: dentry_bytes_def)

lemma copy_dentry_frame: "x \<notin> {a..<a + n} \<Longrightarrow> copy_dentry m a d n x = m x"
  unfolding copy_dentry_def by (rule store_bytes_frame) auto

lemma copy_dentry_nth:
  assumes "length (ed_name d) = 256" and "i < n" "n \<le> 264"
  shows "copy_dentry m a d n (a + i) = dentry_bytes d ! i"
proof -
  let ?bs = "take n (dentry_bytes d)"
  have len: "length ?bs = n" using assms length_dentry_bytes by simp
  have "load_bytes (store_bytes m a ?bs) a n = ?bs" using load_store_bytes [of m a ?bs] len by simp
  from arg_cong [OF this, of "\<lambda>xs. xs ! i"] show ?thesis
    using assms(2) len by (simp add: load_bytes_def copy_dentry_def)
qed

lemma copy_dentry_entry:
  assumes ok: "entry_ok d"
  shows "entry_at (copy_dentry m a d (unat (ed_rec_len d))) a d"
proof -
  let ?m = "copy_dentry m a d (unat (ed_rec_len d))"
  let ?H = "store_u16 (store_u16 (store_u32 (\<lambda>_. 0) 0 (ed_inode d)) 4 (ed_rec_len d)) 6 (ed_name_len d)"
  have n: "unat (ed_name_len d) + 8 \<le> unat (ed_rec_len d)" "unat (ed_rec_len d) \<le> 264" "length (ed_name d) = 256"
    using ok by (simp_all add: entry_ok_def)
  have at: "?m (a + i) = dentry_bytes d ! i" if "i < unat (ed_rec_len d)" for i
    using copy_dentry_nth [OF n(3) that n(2)] .
  have hd: "?m (a + i) = ?H (0 + i)" if "i < 8" for i
    using at [of i] that n(1) by (simp add: dentry_bytes_def nth_append load_bytes_def)
  have "load_u32 ?m a = load_u32 ?H 0"
    unfolding load_u32_def by (rule arg_cong [of _ _ word_of_nat], rule load_le_shift, rule hd) simp
  moreover have "load_u16 ?m (a + 4) = load_u16 ?H 4"
    unfolding load_u16_def using hd [of "4 + i" for i]
    by (intro arg_cong [of _ _ word_of_nat] load_le_shift) (simp add: add.assoc)
  moreover have "load_u16 ?m (a + 6) = load_u16 ?H 6"
    unfolding load_u16_def using hd [of "6 + i" for i]
    by (intro arg_cong [of _ _ word_of_nat] load_le_shift) (simp add: add.assoc)
  moreover have "load_bytes ?m (a + 8) (unat (ed_name_len d)) = dentry_name d"
  proof (rule nth_equalityI)
    fix i assume i: "i < length (load_bytes ?m (a + 8) (unat (ed_name_len d)))"
    then have "?m (a + (8 + i)) = dentry_bytes d ! (8 + i)" using n(1) by (intro at) simp
    then show "load_bytes ?m (a + 8) (unat (ed_name_len d)) ! i = dentry_name d ! i"
      using i n by (simp add: load_bytes_def dentry_name_def dentry_bytes_def nth_append add.assoc)
  qed (use n in \<open>simp add: dentry_name_def\<close>)
  ultimately show ?thesis by (simp add: entry_at_def codec_simps)
qed

lemma entries_at_snoc:
  assumes "entries_at m a ds b" and ok: "entry_ok d"
  shows "entries_at (copy_dentry m b d (unat (ed_rec_len d))) a (ds @ [d]) (b + unat (ed_rec_len d))"
proof -
  have "agree_on {a..<b} m (copy_dentry m b d (unat (ed_rec_len d)))"
    by (auto simp: agree_on_def copy_dentry_frame)
  from entries_at_cong [OF this assms(1)] show ?thesis
    unfolding entries_at_append using ok copy_dentry_entry [OF ok] by (intro exI [of _ b]) simp
qed

text \<open>Stretching the last entry completes the block.\<close>

lemma stretched_block:
  assumes at: "entries_at m a (ds @ [d]) (a + nat pos)" and pos: "0 \<le> pos" "nat pos \<le> unat (block_size sb)"
    and bs: "unat (block_size sb) < 65536" and p: "p + unat (ed_rec_len d) = a + nat pos"
  shows "read_dir_block (stretch_entry sb p pos m) a (a + unat (block_size sb)) = Some (map entry_info (ds @ [d]))"
proof -
  let ?e = "a + unat (block_size sb)" and ?m = "stretch_entry sb p pos m" and ?w = "block_size sb - word_of_int pos"
  have d: "entries_at m a ds p" "entry_ok d" "entry_at m p d"
  proof -
    obtain b where b: "entries_at m a ds b" "entries_at m b [d] (a + nat pos)" using at unfolding entries_at_append by blast
    then have "b = p" using p by simp
    then show "entries_at m a ds p" "entry_ok d" "entry_at m p d" using b by simp_all
  qed
  have le: "a \<le> p" by (rule entries_at_le [OF d(1)])
  have n: "unat (ed_name_len d) + 8 \<le> unat (ed_rec_len d)" using d(2) by (simp add: entry_ok_def)
  have "nat pos < 4294967296" using pos(2) bs by linarith
  then have wp: "unat (word_of_int pos :: u32) = nat pos"
    using pos(1) by (simp add: unat_eq_nat_uint uint_word_of_int del: nat_uint_eq)
  have w: "unat ?w = unat (block_size sb) - nat pos"
    using pos(2) wp by (subst unat_sub_no_underflow) simp_all
  have r: "unat (ed_rec_len d) \<le> nat pos" using p le by linarith
  have s32: "unat (ucast (ed_rec_len d) + ?w :: u32) = unat (ed_rec_len d) + (unat (block_size sb) - nat pos)"
    using w r pos(2) bs by (subst unat_add_no_overflow) simp_all
  have s16: "unat (ucast (ucast (ed_rec_len d) + ?w :: u32) :: u16) = unat (ed_rec_len d) + (unat (block_size sb) - nat pos)"
    using s32 r pos(2) bs by (simp add: unsigned_ucast_eq take_bit_nat_eq_self)
  have m: "?m = store_u16 m (p + 4) (ucast (ucast (ed_rec_len d) + ?w :: u32))"
    using d(3) by (simp add: stretch_entry_def entry_at_def)
  have f: "?m x = m x" if "x \<notin> {p + 4..<p + 4 + 2}" for x unfolding m using that by (rule u16.store_frame)
  have l: "load_u16 ?m (p + 4) = ucast (ucast (ed_rec_len d) + ?w :: u32)" unfolding m by (rule u16.load_store)
  have f32: "load_u32 ?m p = load_u32 m p" by (rule u32.load_cong, rule f) auto
  have f16: "load_u16 ?m (p + 6) = load_u16 m (p + 6)" by (rule u16.load_cong, rule f) auto
  have fb: "load_bytes ?m (p + 8) k = load_bytes m (p + 8) k" for k by (rule load_bytes_cong, rule f) auto
  have "p + unat (load_u16 ?m (p + 4)) = ?e" unfolding l s16 using p pos(2) by linarith
  moreover have "p \<noteq> ?e" using p n pos(2) by linarith
  moreover have "\<not> unat (load_u16 ?m (p + 4)) < unat (load_u16 ?m (p + 6)) + 8"
    unfolding l s16 f16 using d(3) n by (simp add: entry_at_def)
  ultimately have "read_dir_block ?m p ?e = Some [entry_info d]"
    using d(3) by (subst read_dir_block.simps)
      (simp add: Let_def f16 f32 fb entry_at_def entry_info_def read_dir_block.simps [of _ ?e])
  moreover have "entries_at ?m a ds p"
    by (rule entries_at_cong [OF _ d(1)]) (auto simp: agree_on_def intro!: f [symmetric])
  then have "read_dir_block ?m a ?e = map_option (append (map entry_info ds)) (read_dir_block ?m p ?e)"
    using p pos(2) by (intro read_entries) linarith+
  ultimately show ?thesis by simp
qed

subsection \<open>Filling a block\<close>

text \<open>The current block of a directory holds the entries \<open>es\<close> up to the current position.\<close>

definition dir_open :: "fat_globals \<Rightarrow> ext4_state \<Rightarrow> dir_vars \<Rightarrow> ext4_dentry list \<Rightarrow> bool" where
  "dir_open g s v es \<longleftrightarrow>
     (let a = block_start g (fs_sb s) (dv_block_no v); b = a + nat (dv_position v)
      in es \<noteq> [] \<and> 0 \<le> dv_position v \<and> nat (dv_position v) \<le> unat (block_size (fs_sb s))
       \<and> entries_at (mem s) a es b \<and> dv_previous v + unat (ed_rec_len (last es)) = b)"

lemma unat_word_of_int_u32: "0 \<le> x \<Longrightarrow> nat x < 4294967296 \<Longrightarrow> unat (word_of_int x :: u32) = nat x"
  by (simp add: unat_eq_nat_uint uint_word_of_int del: nat_uint_eq)

lemma place_entry_fits:
  assumes o: "dir_open g s v es" and d: "entry_ok d" and bs: "unat (block_size (fs_sb s)) < 65536"
    and fit: "nat (dv_position v) + unat (ed_rec_len d) \<le> unat (block_size (fs_sb s))"
  shows "\<exists>v' s'. place_entry g ps k d v s = Some (Inr (v', s')) \<and> dir_open g s' v' (es @ [d]) \<and> fs_sb s' = fs_sb s
    \<and> dv_block_no v' = dv_block_no v \<and> nat (dv_position v') = nat (dv_position v) + unat (ed_rec_len d)"
proof -
  let ?a = "block_start g (fs_sb s) (dv_block_no v)" and ?p = "nat (dv_position v)"
  have p: "0 \<le> dv_position v" "entries_at (mem s) ?a es (?a + ?p)"
    using o by (simp_all add: dir_open_def Let_def)
  have "unat (block_size (fs_sb s) - word_of_int (dv_position v)) = unat (block_size (fs_sb s)) - ?p"
    using p(1) fit bs by (subst unat_sub_no_underflow) (simp_all add: unat_word_of_int_u32)
  then have "\<not> block_size (fs_sb s) - word_of_int (dv_position v) < ucast (ed_rec_len d)"
    using fit by (simp add: word_less_nat_alt)
  then have "place_entry g ps k d v s = Some (Inr (put_entry g d v s))"
    by (simp add: place_entry_def next_block_for_def)
  moreover have np: "nat (dv_position v + uint (ed_rec_len d)) = ?p + unat (ed_rec_len d)"
    using p(1) by (simp add: nat_add_distrib)
  moreover have "entries_at (copy_dentry (mem s) (?a + ?p) d (unat (ed_rec_len d))) ?a (es @ [d])
      (?a + nat (dv_position v + uint (ed_rec_len d)))"
    using entries_at_snoc [OF p(2) d] by (simp only: np add.assoc)
  then have "dir_open g (snd (put_entry g d v s)) (fst (put_entry g d v s)) (es @ [d])"
    using p(1) fit np unfolding dir_open_def Let_def put_entry_def by simp
  ultimately show ?thesis
    using np by (intro exI [of _ "fst (put_entry g d v s)"] exI [of _ "snd (put_entry g d v s)"]) (simp add: put_entry_def Let_def)
qed

text \<open>Placing several entries, as the loop over the children does.\<close>

fun place_entries ::
  "fat_globals \<Rightarrow> u64 \<Rightarrow> u32 \<Rightarrow> ext4_dentry list \<Rightarrow> dir_vars \<Rightarrow> ext4_state \<Rightarrow> (dir_vars \<times> ext4_state) run" where
  "place_entries g ps k [] v s = Some (Inr (v, s))"
| "place_entries g ps k (d # ds) v s =
     bind_run (place_entry g ps k d v s) (\<lambda>q. place_entries g ps k ds (fst q) (snd q))"

lemma place_entries_fit:
  assumes "dir_open g s v es" and "list_all entry_ok ds" and "unat (block_size (fs_sb s)) < 65536"
    and "nat (dv_position v) + sum_list (map (\<lambda>d. unat (ed_rec_len d)) ds) \<le> unat (block_size (fs_sb s))"
  shows "\<exists>v' s'. place_entries g ps k ds v s = Some (Inr (v', s')) \<and> dir_open g s' v' (es @ ds) \<and> fs_sb s' = fs_sb s
    \<and> dv_block_no v' = dv_block_no v"
  using assms
proof (induction ds arbitrary: es v s)
  case (Cons d ds)
  obtain v1 s1 where 1: "place_entry g ps k d v s = Some (Inr (v1, s1))" "dir_open g s1 v1 (es @ [d])" "fs_sb s1 = fs_sb s"
    "dv_block_no v1 = dv_block_no v" "nat (dv_position v1) = nat (dv_position v) + unat (ed_rec_len d)"
    using place_entry_fits [of g s v es d ps k] Cons.prems by auto
  obtain v2 s2 where "place_entries g ps k ds v1 s1 = Some (Inr (v2, s2))" "dir_open g s2 v2 ((es @ [d]) @ ds)"
    "fs_sb s2 = fs_sb s1" "dv_block_no v2 = dv_block_no v1"
    using Cons.IH [OF 1(2)] Cons.prems by (auto simp: 1(3,5))
  then show ?case using 1 by simp
qed simp

lemma dir_open_stretched:
  assumes o: "dir_open g s v es" and bs: "unat (block_size (fs_sb s)) < 65536"
  shows "read_dir_block (stretch_entry (fs_sb s) (dv_previous v) (dv_position v) (mem s))
      (block_start g (fs_sb s) (dv_block_no v)) (block_start g (fs_sb s) (dv_block_no v) + unat (block_size (fs_sb s)))
    = Some (map entry_info es)"
proof -
  have "es \<noteq> []" using o by (simp add: dir_open_def Let_def)
  then obtain ds d where es: "es = ds @ [d]" using rev_exhaust by blast
  show ?thesis unfolding es
    by (rule stretched_block [OF _ _ _ bs]) (use o in \<open>simp_all add: dir_open_def Let_def es\<close>)
qed

lemma special_dentry_ok:
  assumes "length junk = 256" and "length name \<le> 254"
  shows "entry_ok (build_special_dentry junk k name)" "entry_info (build_special_dentry junk k name) = (k, name)"
    "unat (ed_rec_len (build_special_dentry junk k name)) = (length name + 11) div 4 * 4"
proof -
  have n: "unat (word_of_nat (length name) :: u16) = length name"
    using assms(2) by (simp add: unat_of_nat take_bit_nat_eq_self)
  then have n8: "unat (ucast (word_of_nat (length name) :: u16) + 8 :: u32) = length name + 8"
    using assms(2) by (subst unat_add_no_overflow) simp_all
  have m4: "unat (next_multiple_of_four (ucast (word_of_nat (length name) :: u16) + 8)) = (length name + 11) div 4 * 4"
    using assms(2) n8 by (subst unat_next_multiple_of_four) (simp_all add: add.commute)
  have "(length name + 11) div 4 * 4 \<le> 264" using assms(2) by arith
  then show r: "unat (ed_rec_len (build_special_dentry junk k name)) = (length name + 11) div 4 * 4"
    using m4 by (simp add: build_special_dentry_def unsigned_ucast_eq take_bit_nat_eq_self)
  have "length name + 8 \<le> (length name + 11) div 4 * 4" by arith
  then show "entry_ok (build_special_dentry junk k name)"
    using assms r n \<open>(length name + 11) div 4 * 4 \<le> 264\<close> by (simp add: entry_ok_def build_special_dentry_def)
  show "entry_info (build_special_dentry junk k name) = (k, name)"
    using n by (simp add: entry_info_def dentry_name_def build_special_dentry_def)
qed

lemma dot_dirs_open:
  assumes j: "length j0 = 256" "length j1 = 256" and bs: "24 \<le> unat (block_size (fs_sb s))"
    and v: "dv_position v = 24" "build_dot_dirs j0 j1 k parent (block_start g (fs_sb s) (dv_block_no v)) (mem s) = (dv_previous v, m)"
  shows "dir_open g (s\<lparr>mem := m\<rparr>) v [build_dot_dir_dentry j0 k, build_dot_dot_dir_dentry j1 parent]"
proof -
  let ?d = "build_dot_dir_dentry j0 k" and ?dd = "build_dot_dot_dir_dentry j1 parent"
  let ?a = "block_start g (fs_sb s) (dv_block_no v)"
  have d: "entry_ok ?d" "unat (ed_rec_len ?d) = 12" and dd: "entry_ok ?dd" "unat (ed_rec_len ?dd) = 12"
    using special_dentry_ok [OF j(1), of "[0x2E]" k] special_dentry_ok [OF j(2), of "[0x2E, 0x2E]" parent]
    by (simp_all add: build_dot_dir_dentry_def build_dot_dot_dir_dentry_def)
  have m: "m = copy_dentry (copy_dentry (mem s) ?a ?d 12) (?a + 12) ?dd 12" "dv_previous v = ?a + 12"
    using v(2) by (auto simp: build_dot_dirs_def Let_def d dd)
  have "entries_at (copy_dentry (mem s) ?a ?d 12) ?a [?d] (?a + 12)"
    using entries_at_snoc [of "mem s" ?a "[]" ?a ?d] d by simp
  from entries_at_snoc [OF this dd(1)] have "entries_at m ?a [?d, ?dd] (?a + 24)"
    by (simp only: m dd append.simps add.assoc) simp
  then show ?thesis using bs by (simp add: dir_open_def v(1) m(2) d(2) dd(2))
qed

text \<open>
  C13. A directory block that \<open>build_dot_dirs\<close> starts, \<open>place_entry\<close> fills with any entries that
  fit, and that is finished by stretching the last entry, is what the kernel expects: the record
  lengths lead from the start of the block exactly to its end, and the entries found are the
  directory itself, its parent and the placed entries, in order, with their names.
\<close>

theorem directory_block_reads_back:
  assumes j: "length j0 = 256" "length j1 = 256" and ok: "list_all entry_ok ds" and bs: "unat (block_size (fs_sb s)) < 65536"
    and fit: "24 + sum_list (map (\<lambda>d. unat (ed_rec_len d)) ds) \<le> unat (block_size (fs_sb s))"
    and v: "dv_position v = 24" "build_dot_dirs j0 j1 k parent (block_start g (fs_sb s) (dv_block_no v)) (mem s) = (dv_previous v, m)"
  shows "\<exists>v' s'. place_entries g ps k ds v (s\<lparr>mem := m\<rparr>) = Some (Inr (v', s'))
    \<and> read_dir_block (stretch_entry (fs_sb s) (dv_previous v') (dv_position v') (mem s'))
        (block_start g (fs_sb s) (dv_block_no v)) (block_start g (fs_sb s) (dv_block_no v) + unat (block_size (fs_sb s)))
      = Some ((k, [0x2E]) # (parent, [0x2E, 0x2E]) # map entry_info ds)"
proof -
  have "24 \<le> unat (block_size (fs_sb s))" using fit by linarith
  from dot_dirs_open [OF j this v]
  have o: "dir_open g (s\<lparr>mem := m\<rparr>) v [build_dot_dir_dentry j0 k, build_dot_dot_dir_dentry j1 parent]" .
  obtain v' s' where s': "place_entries g ps k ds v (s\<lparr>mem := m\<rparr>) = Some (Inr (v', s'))"
    "dir_open g s' v' ([build_dot_dir_dentry j0 k, build_dot_dot_dir_dentry j1 parent] @ ds)" "fs_sb s' = fs_sb s"
    "dv_block_no v' = dv_block_no v"
    using place_entries_fit [OF o ok, of ps k] bs fit v(1) by auto
  have "entry_info (build_dot_dir_dentry j0 k) = (k, [0x2E])"
    "entry_info (build_dot_dot_dir_dentry j1 parent) = (parent, [0x2E, 0x2E])"
    using special_dentry_ok(2) [OF j(1), of "[0x2E]" k] special_dentry_ok(2) [OF j(2), of "[0x2E, 0x2E]" parent]
    by (simp_all add: build_dot_dir_dentry_def build_dot_dot_dir_dentry_def)
  then show ?thesis using dir_open_stretched [OF s'(2)] s'(1,3,4) bs by simp
qed

definition sample_dir_vars :: dir_vars where
  "sample_dir_vars = \<lparr>dv_iterator = \<lparr>it_current_extent = 0, it_current_cluster = 0,
      it_extent_stream = \<lparr>st_page = 0, st_offset = 0, st_index = 0, st_header = 0\<rparr>\<rparr>,
     dv_block_no = 700, dv_block_count = 1,
     dv_previous = block_start sample_globals sample_super_block 700 + 12, dv_position = 24, dv_child_count = 1\<rparr>"

theorem directory_block_reads_back_witness:
  "\<exists>v s m. place_entries sample_globals 4096 12 [build_lost_found_dentry (replicate 256 0)] sample_dir_vars
        (sample_groups\<lparr>mem := m\<rparr>) = Some (Inr (v, s))
    \<and> read_dir_block (stretch_entry sample_super_block (dv_previous v) (dv_position v) (mem s))
        (block_start sample_globals sample_super_block 700) (block_start sample_globals sample_super_block 700 + 4096)
      = Some [(12, [0x2E]), (2, [0x2E, 0x2E]), (11, [0x6C, 0x6F, 0x73, 0x74, 0x2B, 0x66, 0x6F, 0x75, 0x6E, 0x64])]"
proof -
  let ?a = "block_start sample_globals sample_super_block 700"
  let ?lf = "build_lost_found_dentry (replicate 256 0)" and ?j = "replicate 256 0 :: u8 list"
  define m where "m = snd (build_dot_dirs ?j ?j 12 2 ?a (mem sample_groups))"
  have lf: "entry_ok ?lf" "unat (ed_rec_len ?lf) = 20"
    "entry_info ?lf = (11, [0x6C, 0x6F, 0x73, 0x74, 0x2B, 0x66, 0x6F, 0x75, 0x6E, 0x64])"
    using special_dentry_ok [of ?j "[0x6C, 0x6F, 0x73, 0x74, 0x2B, 0x66, 0x6F, 0x75, 0x6E, 0x64]" EXT4_LOST_FOUND_INODE]
    by (simp_all add: build_lost_found_dentry_def EXT4_LOST_FOUND_INODE_def)
  have "unat (ed_rec_len (build_dot_dir_dentry ?j 12)) = 12"
    using special_dentry_ok(3) [of ?j "[0x2E]" 12] by (simp add: build_dot_dir_dentry_def)
  then have d: "build_dot_dirs ?j ?j 12 2 ?a (mem sample_groups) = (dv_previous sample_dir_vars, m)"
    by (simp add: m_def build_dot_dirs_def Let_def sample_dir_vars_def)
  have "\<exists>v' s'. place_entries sample_globals 4096 12 [?lf] sample_dir_vars (sample_groups\<lparr>mem := m\<rparr>) = Some (Inr (v', s'))
    \<and> read_dir_block (stretch_entry (fs_sb sample_groups) (dv_previous v') (dv_position v') (mem s'))
        (block_start sample_globals (fs_sb sample_groups) (dv_block_no sample_dir_vars))
        (block_start sample_globals (fs_sb sample_groups) (dv_block_no sample_dir_vars) + unat (block_size (fs_sb sample_groups)))
      = Some ((12, [0x2E]) # (2, [0x2E, 0x2E]) # map entry_info [?lf])"
    by (rule directory_block_reads_back [where ?j0.0 = ?j and ?j1.0 = ?j])
      (use lf d in \<open>simp_all add: sample_groups_fields sample_layout, simp_all add: sample_dir_vars_def\<close>)
  then show ?thesis using lf(3) by (auto simp: sample_groups_fields sample_layout sample_dir_vars_def)
qed

end
