(* ===== verification/Conversion.thy ===== *)
theory Conversion
  imports Directory_Blocks File_Extents
begin

unbundle bit_operations_syntax

section \<open>ofs-convert.cpp: the whole conversion\<close>

text \<open>
  \<open>main\<close> from the mapped partition on: \<open>fs\<close> is the address of the mapping, the memory its
  contents. The theory \<open>Partition\<close> wraps it into the whole of \<open>main\<close>. The counter \<open>first_free_inode_no\<close> has its initial value from
  ext4_inode.cpp, and the group descriptors do not exist yet.
\<close>

definition first_free_inode_start :: u32 where
  "first_free_inode_start = EXT4_FIRST_NON_RSV_INODE + 1"

text \<open>Up to the initialised allocator: the geometry, the superblock, and the reserved clusters.\<close>

definition prepare ::
  "environment \<Rightarrow> u8 list \<Rightarrow> nat \<Rightarrow> fat_globals \<Rightarrow> alloc_state \<Rightarrow> memory \<Rightarrow> (fat_globals \<times> ext4_state) result" where
  "prepare env uuid fs g0 a0 m =
     bind_res (set_meta_info fs (read_boot_sector m fs g0)) (\<lambda>g.
     bind_res (init_ext4_sb (env_time env 0) uuid g) (\<lambda>sb.
       let bg_count = block_group_count sb
       in bind_res (create_block_group_meta_extents g sb bg_count) (\<lambda>extents.
          bind_res (init_extent_allocator g m extents bg_count a0) (\<lambda>a.
            Inr (g, \<lparr>mem = m, alloc = a, fs_sb = sb, fs_group_descs = [],
                     fs_first_free_inode_no = first_free_inode_start\<rparr>)))))"

text \<open>
  Reading the FAT side into the stream. The three streams start as copies of one; the writer
  is at the end of the root's extents when \<open>traverse\<close> starts reading them.
\<close>

definition read_fat_tree :: "fat_globals \<Rightarrow> ext4_state \<Rightarrow> (stream \<times> ext4_state) run" where
  "read_fat_tree g s =
     (let ps = ucast (mi_cluster_size (meta_info g))
      in bind_run (Some (init_stream_archiver g (mi_cluster_size (meta_info g)) s)) (\<lambda>(stream, s1).
         bind_run (aggregate_extents g ps (bs_root_cluster_no (boot_sector g)) stream s1) (\<lambda>(write_stream, s2).
         bind_run (traverse g ps stream write_stream s2) (\<lambda>(_, s3). Some (Inr (stream, s3))))))"

text \<open>Writing the ext4 side from the stream.\<close>

definition write_ext4_tree :: "fat_globals \<Rightarrow> environment \<Rightarrow> junk \<Rightarrow> stream \<Rightarrow> ext4_state \<Rightarrow> ext4_state run" where
  "write_ext4_tree g env junk read_stream s =
     (let ps = ucast (mi_cluster_size (meta_info g))
      in bind_run (Some (build_ext4_root g env (init_ext4_group_descs g s))) (\<lambda>s1.
         bind_run (build_ext4_metadata_tree g env junk ps EXT4_ROOT_INODE EXT4_ROOT_INODE read_stream s1) (\<lambda>(_, s2).
         bind_run (build_lost_found g env junk s2) (\<lambda>s3.
           finalize_block_groups_on_disk g s3))))"

definition convert ::
  "environment \<Rightarrow> junk \<Rightarrow> u8 list \<Rightarrow> nat \<Rightarrow> fat_globals \<Rightarrow> alloc_state \<Rightarrow> memory \<Rightarrow> ext4_state run" where
  "convert env junk uuid fs g0 a0 m =
     bind_run (Some (prepare env uuid fs g0 a0 m)) (\<lambda>(g, s).
     bind_run (read_fat_tree g s) (\<lambda>(read_stream, s1).
       write_ext4_tree g env junk read_stream s1))"

subsection \<open>Allocated clusters and the metadata of the block groups\<close>

lemma block_bytes_disjoint:
  assumes "\<not> (a \<le> b \<and> b < e)"
  shows "block_bytes g sb b \<inter> {block_addr g sb a..<block_addr g sb e} = {}"
proof -
  have "block_addr g sb (b + 1) \<le> block_addr g sb a" if "b < a" using that by (intro block_addr_mono) simp
  moreover have "block_addr g sb (b + 1) = block_addr g sb b + unat (block_size sb)" by (simp add: block_addr_def)
  moreover have "block_addr g sb e \<le> block_addr g sb b" if "e \<le> b" using that by (rule block_addr_mono)
  ultimately show ?thesis using assms by (cases "b < a") (auto simp: block_bytes_def not_less)
qed

lemma unblocked_outside_metadata:
  assumes es: "create_block_group_meta_extents g (fs_sb s) (block_group_count (fs_sb s)) = Inr es"
    and L: "layout_ok (fs_sb s)" and fits: "layout_fits g (fs_sb s) (block_group_count (fs_sb s))"
    and c: "2 \<le> unat c" "unat c - 2 + unat (first_data_block g) < 2 ^ 32"
    and free: "\<And>k. k < unat (block_group_count (fs_sb s)) \<Longrightarrow> \<not> extent_covers (es ! k) (unat c)"
  shows "block_bytes g (fs_sb s) (unat (fat_cl_to_e4blk g c)) \<inter> meta_bytes g (init_ext4_group_descs g s) = {}"
proof -
  let ?sb = "fs_sb s" and ?n = "unat (block_group_count (fs_sb s))" and ?b = "unat (fat_cl_to_e4blk g c)"
  have st: "fs_sb (init_ext4_group_descs g s) = ?sb" "length (fs_group_descs (init_ext4_group_descs g s)) = ?n"
    "fs_group_descs (init_ext4_group_descs g s) = map (init_group_desc ?sb) (map word_of_nat [0..<?n])"
    by (simp_all add: init_ext4_group_descs_def Let_def)
  have "block_bytes g ?sb ?b \<inter> area_bytes (group_areas g ?sb (init_group_desc ?sb (word_of_nat i)) ! l) = {}"
    if i: "i < ?n" and l: "l < 3" for i l
  proof -
    let ?w = "word_of_nat i :: u32"
    note G = group_blocks [OF L i]
    have lt: "?w < block_group_count ?sb" using i G(7) by (simp add: word_less_nat_alt)
    have "block_group_meta_extent g ?sb ?w = Inr (es ! i)"
      using create_block_group_meta_extents_nth [OF es] lt G(7) by auto
    moreover have "unat (block_group_start ?sb ?w) + unat (block_group_overhead ?sb ?w) + 2 < 2 ^ 32"
      using layout_fits_start(1,2) [OF fits lt] fits lt by (auto simp: layout_fits_def)
    ultimately have "extent_covers (es ! i) (unat c) \<longleftrightarrow> unat (block_group_start ?sb ?w) \<le> ?b
        \<and> ?b < unat (block_group_start ?sb ?w) + unat (block_group_overhead ?sb ?w)"
      using c by (rule meta_extent_covers_iff)
    then have "\<not> (group_first ?sb i \<le> ?b \<and> ?b < group_first ?sb i + unat (block_group_overhead ?sb ?w))"
      using free [OF i] G(1) by simp
    from block_bytes_disjoint [OF this, of g ?sb] init_areas_range [OF L i l, of g] show ?thesis by blast
  qed
  then show ?thesis unfolding meta_bytes_def st(1,2) by (auto simp: st(3))
qed

text \<open>The states of the allocator after any number of allocations.\<close>

inductive allocations :: "alloc_state \<Rightarrow> alloc_state \<Rightarrow> bool" for a0 where
  no_allocation: "allocations a0 a0"
| next_allocation: "allocations a0 a \<Longrightarrow> allocate_extent n a = Inr (e, a') \<Longrightarrow> allocations a0 a'"

lemma allocations_spec:
  assumes "allocations a0 a" and "alloc_wf a0"
  shows "alloc_wf a \<and> same_setup a0 a \<and> (\<forall>c. cluster_free a c \<longrightarrow> cluster_free a0 c)"
  using assms
proof (induction rule: allocations.induct)
  case (next_allocation a n e a')
  then have "alloc_wf a" by blast
  from allocate_extent_spec [OF this, of n] next_allocation.hyps(2) have "taken a e a'" by auto
  then show ?case using next_allocation by (auto simp: taken_def intro: same_setup_trans)
qed simp

lemma allocated_unblocked:
  assumes es: "create_block_group_meta_extents g sb n = Inr es" and fits: "layout_fits g sb n"
    and d: "2 \<le> unat (data_cluster_count g)" "unat (data_cluster_count g) < 2 ^ 31"
    and init: "init_extent_allocator g m es n s = Inr a0" and later: "allocations a0 a"
    and al: "allocate_extent k a = Inr (e, a')" and c: "c \<in> extent_clusters e"
  shows "2 \<le> c" "c < unat (data_cluster_count g)" "i < unat n \<Longrightarrow> \<not> extent_covers (es ! i) c"
proof -
  from init_extent_allocator_spec [OF es fits d, of m s] init
  have a0: "alloc_wf a0" "blocked_extents (allocator a0) = es" "blocked_start a0 (extent_count a0) = unat (data_cluster_count g)"
    "\<forall>c < unat (data_cluster_count g). cluster_free a0 c \<longrightarrow> 2 \<le> c" by auto
  have n: "extent_count a0 = unat n"
    using init by (auto simp: init_extent_allocator_def extent_count_def bind_res_eq_Inr)
  from allocations_spec [OF later a0(1)]
  have a: "alloc_wf a" "same_setup a0 a" "\<forall>c. cluster_free a c \<longrightarrow> cluster_free a0 c" by auto
  from allocate_extent_spec [OF a(1), of k] al have "taken a e a'" by auto
  then have u: "usable a c" using c by (simp add: taken_def)
  show lt: "c < unat (data_cluster_count g)" using u a0(3) same_setup_blocked [OF a(2)] by (simp add: usable_def)
  show "2 \<le> c" using u lt a(3) a0(4) by (auto simp: usable_def)
  show "\<not> extent_covers (es ! i) c" if "i < unat n"
    using u that stepped_over_iff [OF a(1), of c] same_setup_blocked [OF a(2)] n
    by (force simp: usable_def extent_covers_def blocked_start_def blocked_end_def extent_end_def a0(2))
qed

end
