(* ===== verification/Sample_Tree.thy ===== *)
theory Sample_Tree
  imports Stream_Trees Conversion
begin

section \<open>A small directory tree, read to the end\<close>

text \<open>
  A FAT whose root directory, cluster 2, holds the file \<open>A.TXT\<close> of one cluster, 3. Both clusters
  lie in a blocked extent, so the traversal moves them. The run of \<open>read_fat_tree\<close> on it is
  followed from step to step: it returns, with one page for the stream.
\<close>

definition sample_entry :: "u8 list" where
  "sample_entry = [0x41, 0x20, 0x20, 0x20, 0x20, 0x20, 0x20, 0x20, 0x54, 0x58, 0x54, 0, 0, 0, 0, 0,
     0, 0, 0, 0, 0, 0, 0, 0, 0, 0, 3, 0, 0x10, 0, 0, 0]"

definition sample_tree_memory :: memory where
  "sample_tree_memory = store_u32 (store_u32
     (\<lambda>a. if a \<in> {610304..<610336} then sample_entry ! (a - 610304) else if a \<in> {614400..<618496} then 7 else 0)
     81928 0x0FFFFFFF) 81932 0x0FFFFFFF"

definition sample_tree_state :: ext4_state where
  "sample_tree_state = \<lparr>mem = sample_tree_memory, alloc = sample_alloc\<lparr>allocation_bitmap := [0x0F, 0, 0]\<rparr>,
     fs_sb = sample_super_block, fs_group_descs = [], fs_first_free_inode_no = first_free_inode_start\<rparr>"

definition sample_node :: fat_node where
  "sample_node = Fat_Node sample_entry [[0x41, 0x2E, 0x54, 0x58, 0x54, 0]] [3] None"

definition sample_tree_bytes :: "nat set" where
  "sample_tree_bytes = {81928..<81936} \<union> {610304..<618496}"

lemma sample_tree_byte:
  assumes "x \<notin> {81928..<81936}"
  shows "sample_tree_memory x = (if x \<in> {610304..<610336} then sample_entry ! (x - 610304)
     else if x \<in> {614400..<618496} then 7 else 0)"
proof -
  have h: "x \<notin> {81928..<81928 + 4}" "x \<notin> {81932..<81932 + 4}" using assms by auto
  show ?thesis unfolding sample_tree_memory_def by (simp only: u32.store_frame [OF h(1)] u32.store_frame [OF h(2)])
qed

lemma sample_tree_fat:
  "load_u32 sample_tree_memory 81928 = 0x0FFFFFFF" "load_u32 sample_tree_memory 81932 = 0x0FFFFFFF"
  by (simp_all add: sample_tree_memory_def u32.load_store u32.load_store_disjoint)

lemma sample_tree_addresses:
  "cluster_start sample_globals 2 = 610304" "cluster_start sample_globals 3 = 614400"
  "cluster_start sample_globals 6 = 626688" "cluster_start sample_globals 7 = 630784" "cluster_start sample_globals 8 = 634880"
  "fat_entry sample_globals 2 = 81928" "fat_entry sample_globals 3 = 81932"
  by (simp_all add: cluster_start_def sample_globals_def FAT_START_INDEX_def fat_entry_def)

lemma sample_tree_allocations:
  "allocate_extent 1 (sample_alloc\<lparr>allocation_bitmap := [0x0F, 0, 0]\<rparr>) =
     Inr (\<lparr>fe_logical_start = 0, fe_length = 1, fe_physical_start = 6\<rparr>, sample_alloc_at 6 [0x4F, 0, 0])"
  "allocate_extent 1 (sample_alloc_at 6 [0x4F, 0, 0]) =
     Inr (\<lparr>fe_logical_start = 0, fe_length = 1, fe_physical_start = 7\<rparr>, sample_alloc_at 7 [0xCF, 0, 0])"
  "allocate_extent 1 (sample_alloc_at 7 [0xCF, 0, 0]) =
     Inr (\<lparr>fe_logical_start = 0, fe_length = 1, fe_physical_start = 8\<rparr>, sample_alloc_at 8 [0xCF, 1, 0])"
  by code_simp+

lemma sample_tree_fields:
  "length sample_entry = 32" "sample_entry ! 0 = 0x41"
  "is_lfn (image sample_entry) 0 \<longleftrightarrow> False" "is_dir (image sample_entry) 0 \<longleftrightarrow> False"
  "file_cluster_no (image sample_entry) 0 = 3"
  "short_name_spec (image sample_entry) 0 = [0x41, 0x2E, 0x54, 0x58, 0x54]"
  by code_simp+

subsection \<open>The run\<close>

definition sample_tree_1 :: memory where
  "sample_tree_1 = store_u64 sample_tree_memory 626688 0"

lemma sample_tree_init:
  "init_stream_archiver sample_globals 4096 sample_tree_state =
     Inr (\<lparr>st_page = 626688, st_offset = 16, st_index = 0, st_header = 626696\<rparr>,
       sample_tree_state\<lparr>mem := sample_tree_1, alloc := sample_alloc_at 6 [0x4F, 0, 0]\<rparr>)"
  by (simp add: init_stream_archiver_def cutStreamArchiver_def allocatePage_def sample_tree_state_def
      sample_tree_allocations sample_tree_addresses iterateStreamArchiver_def iterate_advance_def sizeof_header_def
      sizeof_page_def sample_tree_1_def Let_def)

text \<open>A file of one blocked cluster, whose extent fits into the page.\<close>

lemma sample_fragment:
  assumes "c = 2 \<or> c = 3"
  shows "\<exists>i b i' b'. fragment_start (sample_alloc_at k bm) \<lparr>fe_logical_start = 0, fe_length = 1, fe_physical_start = c\<rparr> = Some (Inr (c, i, b))
    \<and> next_fragment (sample_alloc_at k bm) \<lparr>fe_logical_start = 0, fe_length = 1, fe_physical_start = c\<rparr> (c, i, b)
      = Inr (True, \<lparr>fe_logical_start = 0, fe_length = 1, fe_physical_start = c\<rparr>, c + 1, i', b')"
  using assms
  by (auto simp: fragment_start_def find_first_blocked_extent_def search_blocked_extent.simps
      find_next_blocked_extent_def sample_alloc_at_def sample_alloc_def next_fragment_def Let_def word_le_nat_alt)

lemma sample_resettled_file:
  fixes s :: ext4_state
  assumes c: "c = 2 \<or> c = 3" "alloc s = sample_alloc_at k bm"
    "allocate_extent 1 (sample_alloc_at k bm) = Inr (\<lparr>fe_logical_start = 0, fe_length = 1, fe_physical_start = d\<rparr>, a)"
    and fat: "load_u32 (mem s) (fat_entry sample_globals c) = 0x0FFFFFFF"
    and room: "unat off + 20 \<le> 4096"
  shows "aggregate_extents sample_globals 4096 c \<lparr>st_page = 626688, st_offset = off, st_index = 0, st_header = 626688 + h\<rparr> s =
    Some (Inr (\<lparr>st_page = 626688, st_offset = off + 20, st_index = 0, st_header = 626688 + unat off + 12\<rparr>,
      s\<lparr>alloc := a, mem := store_u64 (mem_copy (store_fat_extent (mem s) (626688 + unat off)
        \<lparr>fe_logical_start = 0, fe_length = 1, fe_physical_start = d\<rparr>) (cluster_start sample_globals d)
        (cluster_start sample_globals c) 4096) (626688 + h) 1\<rparr>))"
proof -
  have o: "unat (off + 12) = unat off + 12" "\<not> 4096 < off + 12" "\<not> 4096 < off + 20" "\<not> 4096 < 20 + off" "\<not> 4096 < off + 12 + 8"
    using room by (simp_all add: word_less_nat_alt unat_add_no_overflow)
  have z: "mi_cluster_size (meta_info sample_globals) = 4096" by (simp add: sample_globals_def)
  obtain i b i' b' where f: "fragment_start (sample_alloc_at k bm) \<lparr>fe_logical_start = 0, fe_length = 1, fe_physical_start = c\<rparr> = Some (Inr (c, i, b))"
    "next_fragment (sample_alloc_at k bm) \<lparr>fe_logical_start = 0, fe_length = 1, fe_physical_start = c\<rparr> (c, i, b)
      = Inr (True, \<lparr>fe_logical_start = 0, fe_length = 1, fe_physical_start = c\<rparr>, c + 1, i', b')"
    using sample_fragment [OF c(1)] by blast
  have "c \<noteq> 0" "c < c + 1" using c(1) by auto
  then show ?thesis
    using fat f
    by (simp add: aggregate_extents_def c(2,3) aggregate_loop.simps aggregate_step_def z
      FAT_END_OF_CHAIN_def EXT4_MAX_INIT_EXTENT_LEN_def find_blocked_extent_fragments_def
      write_fragments.simps resettle_extent_def resettle_from.simps write_extent_def
      reserve_extent_def iterateStreamArchiver_def iterate_advance_def sizeof_fat_extent_def
      cutStreamArchiver_def sizeof_header_def o Let_def)
qed


text \<open>A segment of one cell in the page.\<close>

lemma sample_cell:
  fixes s :: ext4_state
  assumes "unat off + unat n + 8 \<le> 4096"
  shows "bind_res (iterateStreamArchiver sample_globals 4096 True n 1 \<lparr>st_page = 626688, st_offset = off, st_index = 0, st_header = 626688 + h\<rparr> s)
      (\<lambda>(p, w1, s1). bind_res (cutStreamArchiver sample_globals 4096 w1 s1) (\<lambda>(w2, s2). Inr (f p, w2, s2))) =
    Inr (f (626688 + unat off), \<lparr>st_page = 626688, st_offset = off + n + 8, st_index = 0, st_header = 626688 + unat off + unat n\<rparr>,
      s\<lparr>mem := store_u64 (mem s) (626688 + h) 1\<rparr>)"
proof -
  have o: "unat (off + n) = unat off + unat n" using assms by (simp add: unat_add_no_overflow)
  then have "\<not> 4096 < off + n" "\<not> 4096 < off + n + 8"
    using assms by (simp_all add: word_less_nat_alt unat_add_no_overflow)
  then show ?thesis
    by (simp add: iterateStreamArchiver_def iterate_advance_def cutStreamArchiver_def sizeof_header_def o Let_def)
qed

text \<open>What the traversal does not write: outside the rest of the page and cluster 8.\<close>

definition sample_kept :: "nat set" where
  "sample_kept = - ({626716..<630784} \<union> {634880..<638976})"

lemma kept_stores:
  "626716 \<le> a \<Longrightarrow> a + 8 \<le> 630784 \<Longrightarrow> agree_on sample_kept m (store_u64 m a v)"
  "626716 \<le> a \<Longrightarrow> a + 4 \<le> 630784 \<Longrightarrow> agree_on sample_kept m (store_u32 m a x)"
  "626716 \<le> a \<Longrightarrow> a + 12 \<le> 630784 \<Longrightarrow> agree_on sample_kept m (store_fat_extent m a e)"
  "626716 \<le> a \<Longrightarrow> a + k \<le> 630784 \<Longrightarrow> agree_on sample_kept m (mem_copy m a b k)"
  "agree_on sample_kept m (mem_copy m 634880 b 4096)"
  by (auto simp: agree_on_def sample_kept_def mem_copy_def
      intro!: u64.store_frame [symmetric] u32.store_frame [symmetric] fat_extent_codec.store_frame [symmetric])

definition sample_ready :: "memory \<Rightarrow> bool" where
  "sample_ready m \<longleftrightarrow> load_u64 m 626696 = 1
     \<and> load_fat_extent m 626704 = \<lparr>fe_logical_start = 0, fe_length = 1, fe_physical_start = 7\<rparr>
     \<and> load_bytes m 630784 33 = sample_entry @ [0] \<and> load_u32 m 81932 = 0x0FFFFFFF"

lemma sample_ready_cong:
  assumes "sample_ready m" and "agree_on sample_kept m m'"
  shows "sample_ready m'"
proof -
  have k: "{626696..<626704} \<subseteq> sample_kept" "{626704..<626716} \<subseteq> sample_kept" "{630784..<630817} \<subseteq> sample_kept"
    "{81932..<81936} \<subseteq> sample_kept"
    by (auto simp: sample_kept_def)
  have "load_u64 m 626696 = load_u64 m' 626696" using assms(2) k(1) by (intro u64.load_cong) (auto simp: agree_on_def)
  moreover have "load_fat_extent m 626704 = load_fat_extent m' 626704"
    using assms(2) k(2) by (intro fat_extent_codec.load_cong) (auto simp: agree_on_def)
  moreover have "load_bytes m 630784 33 = load_bytes m' 630784 33"
    using k(3) by (intro agree_on_load_bytes [OF assms(2)]) simp
  moreover have "load_u32 m 81932 = load_u32 m' 81932"
    using assms(2) k(4) by (intro u32.load_cong) (auto simp: agree_on_def)
  ultimately show ?thesis using assms(1) unfolding sample_ready_def by simp
qed

lemma sample_ready_bytes:
  assumes "sample_ready m"
  shows "i < 32 \<Longrightarrow> m (630784 + i) = image sample_entry i" and "m 630784 = 0x41" and "m 630816 = 0"
proof -
  have b: "m (630784 + i) = (sample_entry @ [0]) ! i" if "i < 33" for i
  proof -
    have "load_bytes m a n ! i = m (a + i)" if "i < n" for a n using that by (simp add: load_bytes_def)
    from this [OF that] have "load_bytes m 630784 33 ! i = m (630784 + i)" .
    then show ?thesis using assms by (simp only: sample_ready_def)
  qed
  show "i < 32 \<Longrightarrow> m (630784 + i) = image sample_entry i"
    using b [of i] by (simp add: image_def nth_append sample_tree_fields)
  show "m 630784 = 0x41" "m 630816 = 0" using b [of 0] b [of 32] by (simp_all add: nth_append sample_tree_fields)
qed

lemma sample_ready_entry:
  assumes "sample_ready m"
  shows "\<not> is_lfn m 630784" and "\<not> is_dir m 630784" and "file_cluster_no m 630784 = 3"
  using entry_cong [of m 630784 "image sample_entry" 0] sample_ready_bytes(1) [OF assms] sample_tree_fields
  by simp_all


lemma sample_next_dentry:
  fixes s :: ext4_state
  assumes "sample_ready (mem s)" "d = 0 \<or> d = 1"
  shows "next_dentry sample_globals 4096 \<lparr>rs_iterator = it, rs_cluster_dentry = d, rs_current_cluster = 630784\<rparr> s =
    Some (Inr (630784 + 32 * unat d, \<lparr>rs_iterator = it, rs_cluster_dentry = d + 1, rs_current_cluster = 630784\<rparr>))"
  using assms(2) sample_ready_bytes(2,3) [OF assms(1)]
  by (auto simp: next_dentry.simps sample_globals_def word_le_nat_alt sizeof_fat_dentry_def is_invalid_def is_dot_dir_def)

lemma sample_traverse_start:
  fixes s :: ext4_state
  assumes "sample_ready (mem s)"
  shows "\<exists>it m. traverse_start sample_globals 4096 \<lparr>st_page = 626688, st_offset = 16, st_index = 0, st_header = 626696\<rparr>
      \<lparr>st_page = 626688, st_offset = 36, st_index = 0, st_header = 626688 + 28\<rparr> s =
    Some (Inr (626724, 630784, \<lparr>rs_iterator = it, rs_cluster_dentry = 1, rs_current_cluster = 630784\<rparr>,
      \<lparr>st_page = 626688, st_offset = 48, st_index = 0, st_header = 626688 + 40\<rparr>, s\<lparr>mem := m\<rparr>)) \<and> agree_on sample_kept (mem s) m"
proof -
  define m where "m = store_u32 (store_u64 (mem s) 626716 1) 626724 0"
  have k: "agree_on sample_kept (mem s) m"
    unfolding m_def by (rule agree_on_trans [OF kept_stores(1) kept_stores(2)]) simp_all
  have m: "sample_ready m" by (rule sample_ready_cong [OF assms k])
  have "reserve_children_count sample_globals 4096 \<lparr>st_page = 626688, st_offset = 36, st_index = 0, st_header = 626688 + 28\<rparr> s =
      Inr (626724, \<lparr>st_page = 626688, st_offset = 48, st_index = 0, st_header = 626688 + 40\<rparr>, s\<lparr>mem := store_u64 (mem s) 626716 1\<rparr>)"
    unfolding reserve_children_count_def by (subst sample_cell [where f = id, simplified]) simp_all
  moreover have "init_iterator sample_globals 4096 \<lparr>st_page = 626688, st_offset = 16, st_index = 0, st_header = 626696\<rparr> (s\<lparr>mem := m\<rparr>) =
      Inr \<lparr>it_current_extent = 626704, it_current_cluster = 0,
        it_extent_stream = \<lparr>st_page = 626688, st_offset = 28, st_index = 1, st_header = 626696\<rparr>\<rparr>"
    using m by (simp add: init_iterator_def getNext_def iterateStreamArchiver_def iterate_advance_def sizeof_fat_extent_def
        sample_ready_def Let_def)
  moreover obtain it2 where "init_read_state sample_globals 4096 \<lparr>it_current_extent = 626704, it_current_cluster = 0,
      it_extent_stream = \<lparr>st_page = 626688, st_offset = 28, st_index = 1, st_header = 626696\<rparr>\<rparr> (s\<lparr>mem := m\<rparr>) =
      Some (Inr \<lparr>rs_iterator = it2, rs_cluster_dentry = 0, rs_current_cluster = 630784\<rparr>)"
    using m by (simp add: init_read_state_def next_cluster_no.simps sample_ready_def sample_tree_addresses Let_def)
  ultimately show ?thesis
    using k sample_next_dentry [of "s\<lparr>mem := m\<rparr>" 0] m
    by (auto simp: traverse_start_def m_def Let_def)
qed

lemma reserve_pointers_one:
  "reserve_pointers g ps 1 w s = bind_res (iterateStreamArchiver g ps True (word_of_nat (LFN_ENTRY_LENGTH * 2)) 1 w s)
     (\<lambda>(p, w1, s1). Inr ([p], w1, s1))"
  by simp

lemma sample_read_dentry:
  fixes s :: ext4_state
  assumes "sample_ready (mem s)"
  shows "\<exists>m. read_dentry sample_globals 4096 630784 state
      \<lparr>st_page = 626688, st_offset = 48, st_index = 0, st_header = 626688 + 40\<rparr> s =
    Some (Inr (630784, state, \<lparr>st_page = 626688, st_offset = 122, st_index = 0, st_header = 626688 + 114\<rparr>, s\<lparr>mem := m\<rparr>))
    \<and> agree_on sample_kept (mem s) m"
proof -
  define m1 where "m1 = store_u64 (mem s) 626728 1"
  define m2 where "m2 = store_u64 m1 626768 1"
  define m3 where "m3 = read_short_name m2 630784 626776"
  define m4 where "m4 = mem_copy m3 626736 630784 32"
  have k: "agree_on sample_kept (mem s) m1" "agree_on sample_kept m1 m2" "agree_on sample_kept m3 m4"
    unfolding m1_def m2_def m4_def by (rule kept_stores, simp, simp)+
  have "agree_on sample_kept m2 m3"
    using read_short_name_spec [of 630784 626776 m2] unfolding m3_def agree_on_def sample_kept_def by auto
  then have kept: "agree_on sample_kept (mem s) m4" using k agree_on_trans by blast
  have m1: "sample_ready m1" by (rule sample_ready_cong [OF assms k(1)])
  have "reserve_dentry sample_globals 4096 \<lparr>st_page = 626688, st_offset = 48, st_index = 0, st_header = 626688 + 40\<rparr> s =
      Inr (626736, \<lparr>st_page = 626688, st_offset = 88, st_index = 0, st_header = 626688 + 80\<rparr>, s\<lparr>mem := m1\<rparr>)"
    unfolding reserve_dentry_def sizeof_fat_dentry_def m1_def by (subst sample_cell [where f = id, simplified]) simp_all
  moreover have "reserve_name sample_globals 4096 1 \<lparr>st_page = 626688, st_offset = 88, st_index = 0, st_header = 626688 + 80\<rparr> (s\<lparr>mem := m1\<rparr>) =
      Inr ([626776], \<lparr>st_page = 626688, st_offset = 122, st_index = 0, st_header = 626688 + 114\<rparr>, s\<lparr>mem := m2\<rparr>)"
    using sample_cell [of 88 26 80 "s\<lparr>mem := m1\<rparr>" "\<lambda>p. [p]"]
    by (cases "iterateStreamArchiver sample_globals 4096 True 26 1
      \<lparr>st_page = 626688, st_offset = 88, st_index = 0, st_header = 626688 + 80\<rparr> (s\<lparr>mem := m1\<rparr>)")
      (auto simp: reserve_name_def reserve_pointers_one LFN_ENTRY_LENGTH_def m2_def)
  ultimately have "read_dentry sample_globals 4096 630784 state
      \<lparr>st_page = 626688, st_offset = 48, st_index = 0, st_header = 626688 + 40\<rparr> s =
    Some (Inr (630784, state, \<lparr>st_page = 626688, st_offset = 122, st_index = 0, st_header = 626688 + 114\<rparr>, s\<lparr>mem := m4\<rparr>))"
    using sample_ready_entry [OF m1]
    by (simp add: read_dentry_def m3_def m4_def sizeof_fat_dentry_def)
  then show ?thesis using kept by blast
qed


text \<open>The loop runs once for the file.\<close>

lemma sample_loop:
  fixes s :: ext4_state
  assumes r: "sample_ready (mem s)" and a: "alloc s = sample_alloc_at 7 [0xCF, 0, 0]"
  shows "\<exists>w s'. traverse_loop sample_globals 4096 626724 630784
      \<lparr>rs_iterator = it, rs_cluster_dentry = 1, rs_current_cluster = 630784\<rparr>
      \<lparr>st_page = 626688, st_offset = 48, st_index = 0, st_header = 626688 + 40\<rparr> s = Some (Inr (w, s'))"
proof -
  let ?state = "\<lparr>rs_iterator = it, rs_cluster_dentry = 1, rs_current_cluster = 630784\<rparr>"
  obtain m1 where m1: "read_dentry sample_globals 4096 630784 ?state
      \<lparr>st_page = 626688, st_offset = 48, st_index = 0, st_header = 626688 + 40\<rparr> s =
    Some (Inr (630784, ?state, \<lparr>st_page = 626688, st_offset = 122, st_index = 0, st_header = 626688 + 114\<rparr>, s\<lparr>mem := m1\<rparr>))"
    "agree_on sample_kept (mem s) m1"
    using sample_read_dentry [OF r] by blast
  have r1: "sample_ready m1" by (rule sample_ready_cong [OF r m1(2)])
  define m2 where "m2 = store_u64 (mem_copy (store_fat_extent m1 626810
    \<lparr>fe_logical_start = 0, fe_length = 1, fe_physical_start = 8\<rparr>) 634880 614400 4096) 626802 1"
  have k2: "agree_on sample_kept m1 m2" unfolding m2_def
    by (rule agree_on_trans [OF kept_stores(3) agree_on_trans [OF kept_stores(5) kept_stores(1)]]) simp_all
  have agg: "aggregate_extents sample_globals 4096 3 \<lparr>st_page = 626688, st_offset = 122, st_index = 0, st_header = 626688 + 114\<rparr> (s\<lparr>mem := m1\<rparr>) =
    Some (Inr (\<lparr>st_page = 626688, st_offset = 142, st_index = 0, st_header = 626688 + 134\<rparr>,
      s\<lparr>alloc := sample_alloc_at 8 [0xCF, 1, 0], mem := m2\<rparr>))"
    using sample_resettled_file [of 3 "s\<lparr>mem := m1\<rparr>" 7 "[0xCF, 0, 0]" 8 "sample_alloc_at 8 [0xCF, 1, 0]" 122 114]
      r1 a sample_tree_allocations(3)
    by (simp add: sample_ready_def sample_tree_addresses m2_def)
  define m3 where "m3 = store_u32 (store_u64 m2 626822 1) 626830 (- 1)"
  define m4 where "m4 = store_u32 m3 626724 (load_u32 m3 626724 + 1)"
  have k4: "agree_on sample_kept m2 m4" unfolding m4_def m3_def
    by (rule agree_on_trans [OF kept_stores(1) agree_on_trans [OF kept_stores(2) kept_stores(2)]]) simp_all
  have r4: "sample_ready m4" by (rule sample_ready_cong [OF sample_ready_cong [OF r1 k2] k4])
  let ?s2 = "s\<lparr>alloc := sample_alloc_at 8 [0xCF, 1, 0], mem := m2\<rparr>"
  have cnt: "reserve_children_count sample_globals 4096 \<lparr>st_page = 626688, st_offset = 142, st_index = 0, st_header = 626688 + 134\<rparr> ?s2 =
      Inr (626830, \<lparr>st_page = 626688, st_offset = 154, st_index = 0, st_header = 626688 + 146\<rparr>, ?s2\<lparr>mem := store_u64 m2 626822 1\<rparr>)"
    unfolding reserve_children_count_def by (subst sample_cell [where f = id, simplified]) simp_all
  have nx: "next_dentry sample_globals 4096 ?state (?s2\<lparr>mem := m4\<rparr>) =
      Some (Inr (630816, \<lparr>rs_iterator = it, rs_cluster_dentry = 2, rs_current_cluster = 630784\<rparr>))"
    using sample_next_dentry [of "?s2\<lparr>mem := m4\<rparr>" 1 it] r4 by simp
  have stop: "traverse_loop sample_globals 4096 626724 630816 state w (?s2\<lparr>mem := m4\<rparr>) = Some (Inr (w, ?s2\<lparr>mem := m4\<rparr>))" for state w
    using sample_ready_bytes(3) [OF r4] by (subst traverse_loop.simps) (simp add: is_dir_table_end_def)
  have "\<not> is_dir_table_end (mem s) 630784" using sample_ready_bytes(2) [OF r] by (simp add: is_dir_table_end_def)
  then show ?thesis
    using m1(1) agg cnt nx stop sample_ready_entry(2,3) [OF r1]
    by (subst traverse_loop.simps) (simp add: m3_def m4_def Let_def)
qed

lemma sample_tree_run: "\<exists>w s'. read_fat_tree sample_globals sample_tree_state = Some (Inr (w, s'))"
proof -
  let ?st = "\<lparr>st_page = 626688, st_offset = 16, st_index = 0, st_header = 626696\<rparr>"
  let ?s1 = "sample_tree_state\<lparr>mem := sample_tree_1, alloc := sample_alloc_at 6 [0x4F, 0, 0]\<rparr>"
  have fat: "load_u32 sample_tree_1 81928 = 0x0FFFFFFF" "load_u32 sample_tree_1 81932 = 0x0FFFFFFF"
    by (simp_all add: sample_tree_1_def load_u32_store_u64 sample_tree_fat)
  define m where "m = store_u64 (mem_copy (store_fat_extent sample_tree_1 626704
    \<lparr>fe_logical_start = 0, fe_length = 1, fe_physical_start = 7\<rparr>) 630784 610304 4096) 626696 1"
  have agg: "aggregate_extents sample_globals 4096 2 ?st ?s1 =
    Some (Inr (\<lparr>st_page = 626688, st_offset = 36, st_index = 0, st_header = 626688 + 28\<rparr>,
      sample_tree_state\<lparr>alloc := sample_alloc_at 7 [0xCF, 0, 0], mem := m\<rparr>))"
    using sample_resettled_file [of 2 ?s1 6 "[0x4F, 0, 0]" 7 "sample_alloc_at 7 [0xCF, 0, 0]" 16 8]
      sample_tree_allocations(2) fat
    by (simp add: sample_tree_addresses m_def sample_tree_state_def)
  let ?m = "store_fat_extent sample_tree_1 626704 \<lparr>fe_logical_start = 0, fe_length = 1, fe_physical_start = 7\<rparr>"
  have page: "?m x = sample_tree_memory x" if "x \<notin> {626688..<626716}" for x
  proof -
    have h: "x \<notin> {626704..<626704 + 12}" "x \<notin> {626688..<626688 + 8}" using that by auto
    show ?thesis by (simp only: sample_tree_1_def u64.store_frame [OF h(2)] fat_extent_codec.store_frame [OF h(1)])
  qed
  have copy: "m x = mem_copy ?m 630784 610304 4096 x" if "x \<notin> {626696..<626704}" for x
    unfolding m_def by (rule u64.store_frame) (use that in simp)
  have byte: "m (630784 + i) = sample_tree_memory (610304 + i)" if "i < 4096" for i
    using copy [of "630784 + i"] page [of "610304 + i"] mem_copy_at [OF that, of ?m 630784 610304] that by simp
  have same: "m x = sample_tree_memory x" if "x < 626688" for x
    using copy [of x] page [of x] that by (simp add: mem_copy_def)
  have ready: "sample_ready m"
  proof -
    have "load_u64 m 626696 = 1" by (simp add: m_def u64.load_store)
    moreover have "load_fat_extent m 626704 = \<lparr>fe_logical_start = 0, fe_length = 1, fe_physical_start = 7\<rparr>"
    proof -
      have "load_fat_extent m 626704 = load_fat_extent (store_fat_extent sample_tree_1 626704
          \<lparr>fe_logical_start = 0, fe_length = 1, fe_physical_start = 7\<rparr>) 626704"
        by (rule fat_extent_codec.load_cong) (auto simp: m_def u64.store_frame mem_copy_def)
      then show ?thesis by (simp add: fat_extent_codec.load_store)
    qed
    moreover have "load_bytes m 630784 33 = sample_entry @ [0]"
    proof (rule nth_equalityI)
      fix i assume "i < length (load_bytes m 630784 33)"
      then have i: "i < 33" by simp
      have "load_bytes m a n ! i = m (a + i)" if "i < n" for a n using that by (simp add: load_bytes_def)
      from this [OF i] have "load_bytes m 630784 33 ! i = sample_tree_memory (610304 + i)"
        using byte [of i] i by simp
      then show "load_bytes m 630784 33 ! i = (sample_entry @ [0]) ! i"
        using sample_tree_byte [of "610304 + i"] i by (auto simp: nth_append sample_tree_fields)
    qed (simp add: sample_tree_fields)
    moreover have "load_u32 m 81932 = load_u32 sample_tree_memory 81932"
      by (rule u32.load_cong) (simp add: same)
    ultimately show ?thesis using sample_tree_fat by (simp add: sample_ready_def)
  qed
  obtain it m' where start: "traverse_start sample_globals 4096 ?st
      \<lparr>st_page = 626688, st_offset = 36, st_index = 0, st_header = 626688 + 28\<rparr>
      (sample_tree_state\<lparr>alloc := sample_alloc_at 7 [0xCF, 0, 0], mem := m\<rparr>) =
    Some (Inr (626724, 630784, \<lparr>rs_iterator = it, rs_cluster_dentry = 1, rs_current_cluster = 630784\<rparr>,
      \<lparr>st_page = 626688, st_offset = 48, st_index = 0, st_header = 626688 + 40\<rparr>,
      sample_tree_state\<lparr>alloc := sample_alloc_at 7 [0xCF, 0, 0], mem := m'\<rparr>))" "agree_on sample_kept m m'"
    using sample_traverse_start [of "sample_tree_state\<lparr>alloc := sample_alloc_at 7 [0xCF, 0, 0], mem := m\<rparr>"] ready by auto
  have "sample_ready m'" by (rule sample_ready_cong [OF ready start(2)])
  then obtain w s' where "traverse_loop sample_globals 4096 626724 630784
      \<lparr>rs_iterator = it, rs_cluster_dentry = 1, rs_current_cluster = 630784\<rparr>
      \<lparr>st_page = 626688, st_offset = 48, st_index = 0, st_header = 626688 + 40\<rparr>
      (sample_tree_state\<lparr>alloc := sample_alloc_at 7 [0xCF, 0, 0], mem := m'\<rparr>) = Some (Inr (w, s'))"
    using sample_loop [of "sample_tree_state\<lparr>alloc := sample_alloc_at 7 [0xCF, 0, 0], mem := m'\<rparr>" it] by auto
  moreover have "mi_cluster_size (meta_info sample_globals) = 4096" "bs_root_cluster_no (boot_sector sample_globals) = 2"
    by (simp_all add: sample_globals_def sample_boot_sector_def)
  ultimately show ?thesis
    using sample_tree_init agg start(1) by (simp add: read_fat_tree_def traverse_def Let_def)
qed


subsection \<open>The hypotheses\<close>

lemma sample_tree_content:
  "data_content sample_globals sample_tree_memory 2 1 = sample_entry @ replicate 4064 0"
proof (rule nth_equalityI)
  fix i assume "i < length (data_content sample_globals sample_tree_memory 2 1)"
  then have i: "i < 4096" by (simp add: data_content_def sample_globals_def)
  have "load_bytes m a n ! i = m (a + i)" if "i < n" for m a n using that by (simp add: load_bytes_def)
  from this [OF i] have "data_content sample_globals sample_tree_memory 2 1 ! i = sample_tree_memory (610304 + i)"
    by (simp add: data_content_def sample_tree_addresses) (simp add: sample_globals_def)
  then show "data_content sample_globals sample_tree_memory 2 1 ! i = (sample_entry @ replicate 4064 0) ! i"
    using sample_tree_byte [of "610304 + i"] i by (auto simp: nth_append sample_tree_fields)
qed (simp add: data_content_def sample_globals_def sample_tree_fields)

lemma slots_of_zeros: "slots_of (replicate (32 * n) (0 :: u8)) = replicate n (replicate 32 0)"
proof -
  have "take 32 (drop (32 * i) (replicate (32 * n) (0 :: u8))) = replicate 32 0" if "i < n" for i
  proof -
    have "min 32 (32 * n - 32 * i) = 32" using that by linarith
    then show ?thesis by (simp only: take_replicate drop_replicate)
  qed
  then have "slots_of (replicate (32 * n) (0 :: u8)) = map (\<lambda>i. replicate 32 0) [0..<n]"
    unfolding slots_of_def by (intro map_cong) simp_all
  then show ?thesis by (simp only: map_replicate_const length_upt diff_zero)
qed

lemma sample_tree_slots:
  "filter seen (slots_of (chain_content sample_globals sample_tree_memory [2])) = sample_entry # replicate 127 (replicate 32 0)"
proof -
  have z: "(4064 :: nat) = 32 * 127" by simp
  have "chain_content sample_globals sample_tree_memory [2] = sample_entry @ replicate 4064 0"
    by (simp only: chain_content_def list.map concat.simps append_Nil2 sample_tree_content)
  moreover have "slots_of (sample_entry @ replicate 4064 0) = slots_of sample_entry @ slots_of (replicate 4064 0)"
    by (rule slots_of_append) (simp add: sample_tree_fields)
  moreover have "slots_of sample_entry = [sample_entry]" by (simp add: sample_tree_fields slots_of_def)
  moreover have "slots_of (replicate 4064 (0 :: u8)) = replicate 127 (replicate 32 0)" unfolding z by (rule slots_of_zeros)
  moreover have "seen (replicate 32 0)" "seen sample_entry" by code_simp+
  ultimately show ?thesis by (simp only: filter_append filter.simps filter_replicate if_True append_Cons append_Nil)
qed

lemma sample_tree_lists: "lists_children sample_globals sample_tree_memory [2] [sample_node]"
proof -
  have n: "name_slots sample_entry = 0" "entry_names (sample_entry # xs) = [[0x41, 0x2E, 0x54, 0x58, 0x54, 0]]" for xs
    using sample_tree_fields by (simp_all add: name_slots_def entry_names_def)
  have "dir_entries (replicate 127 (replicate 32 (0 :: u8))) = Some []"
    using dir_entries.simps(2) [of "replicate 32 (0 :: u8)" "replicate 126 (replicate 32 0)"] replicate_Suc [of 126 "replicate 32 (0 :: u8)"]
    by (simp del: replicate.simps)
  moreover have "hd sample_entry \<noteq> 0" by (simp add: sample_entry_def)
  ultimately show ?thesis
    unfolding lists_children_def sample_tree_slots by (simp only: dir_entries.simps n) (simp add: sample_node_def)
qed

lemma sample_tree_chains:
  "fat_chain (fat_of sample_globals sample_tree_memory) [2]" "fat_chain (fat_of sample_globals sample_tree_memory) [3]"
proof -
  have "fat_of sample_globals sample_tree_memory 2 = 0x0FFFFFFF" "fat_of sample_globals sample_tree_memory 3 = 0x0FFFFFFF"
    unfolding fat_of_def sample_tree_addresses by (rule sample_tree_fat)+
  then show "fat_chain (fat_of sample_globals sample_tree_memory) [2]" "fat_chain (fat_of sample_globals sample_tree_memory) [3]"
    by (simp_all add: FAT_END_OF_CHAIN_def)
qed

lemma sample_tree_within:
  "chain_within sample_globals sample_tree_bytes [2]" "chain_within sample_globals sample_tree_bytes [3]"
  by (auto simp: chain_within_def data_bytes_def sample_tree_addresses sample_tree_bytes_def) (auto simp: sample_globals_def)

lemma sample_tree_on_disk: "tree_on_disk sample_globals sample_tree_memory sample_node"
  by (simp add: sample_node_def file_chain_def sample_tree_fields sample_tree_chains del: fat_chain.simps)


lemma sample_tree_alloc:
  "alloc_wf (alloc sample_tree_state)" "extent_count (alloc sample_tree_state) < 2 ^ 31"
  "cluster_free (alloc sample_tree_state) c \<Longrightarrow> 4 \<le> c \<and> c < 24"
proof -
  show "alloc_wf (alloc sample_tree_state)"
    by (simp add: sample_tree_state_def alloc_wf_def sample_alloc_def extent_count_def index_def blocked_start_def
        extents_ascending_def extent_end_def)
  show "extent_count (alloc sample_tree_state) < 2 ^ 31" by (simp add: sample_tree_state_def sample_alloc_def extent_count_def)
  assume c: "cluster_free (alloc sample_tree_state) c"
  have "\<not> cluster_free (alloc sample_tree_state) 0" "\<not> cluster_free (alloc sample_tree_state) 1"
    "\<not> cluster_free (alloc sample_tree_state) 2" "\<not> cluster_free (alloc sample_tree_state) 3"
    by (simp_all add: sample_tree_state_def cluster_free_def)
  moreover have "c < 24" using c by (simp add: sample_tree_state_def cluster_free_def)
  moreover have "c = 0 \<or> c = 1 \<or> c = 2 \<or> c = 3 \<or> 4 \<le> c" by linarith
  ultimately show "4 \<le> c \<and> c < 24" using c by metis
qed

lemma sample_tree_outside:
  assumes "2 \<le> unat d" and "cluster_free (alloc sample_tree_state) (unat d)"
  shows "sample_tree_bytes \<inter> page_region sample_globals 4096 d = {}"
proof -
  have d: "4 \<le> unat d" using sample_tree_alloc(3) [OF assms(2)] by simp
  have "cluster_start sample_globals d = 610304 + (unat d - 2) * 4096"
    using cluster_start_nat [OF assms(1)] by (simp add: sample_globals_def)
  moreover have "8192 \<le> (unat d - 2) * 4096" using d by simp
  ultimately have "618496 \<le> cluster_start sample_globals d" by simp
  then show ?thesis by (auto simp: page_region_def sample_tree_bytes_def)
qed

end
