(* ===== verification/Traversal.thy ===== *)
theory Traversal
  imports Sample_Tree
begin

section \<open>The traversal of the directory tree\<close>

text \<open>
  \<open>traverse\<close> of metadata_reader.cpp writes a directory tree of any depth to the stream: whoever
  reads the stream afterwards finds every entry that is seen, with its name, the extents that
  hold its data and its children. The recursion of the code follows the tree, the proof is by
  induction on it.
\<close>

subsection \<open>What the parts of the traversal promise\<close>

definition chain_data ::
  "fat_globals \<Rightarrow> u64 \<Rightarrow> nat set \<Rightarrow> u32 \<Rightarrow> 'a io_state_scheme \<Rightarrow> memory \<Rightarrow> fat_extent list \<Rightarrow> u32 list \<Rightarrow> bool" where
  "chain_data g ps old c s mx fs cs \<longleftrightarrow> holds_data g ps old c s 0 fs (word_of_nat (length cs)) (chain_content g mx cs)"

lemma chain_data_extends:
  "chain_data g ps old c s mx fs cs \<Longrightarrow> extends g ps D old c w s old' c' w' s' \<Longrightarrow> chain_data g ps old' c' s' mx fs cs"
  unfolding chain_data_def by (erule holds_data_move) (simp add: extendsD(5,6))

lemma node_in_children:
  "entry_in g ps R H st d ns cs st1 \<Longrightarrow> children_in g ps R H st1 ch st2 \<Longrightarrow> node_in g ps R H st (Fat_Node d ns cs ch) st2"
  by (auto simp: children_in_def split: option.splits intro: file_in dir_in)

text \<open>
  A run from the writer \<open>w\<close> adds the children of an entry, or the rest of the children of the
  directory whose number of children is counted in the cell \<open>b\<close>; or the file system is full.
\<close>

definition adds_children ::
  "fat_globals \<Rightarrow> u64 \<Rightarrow> memory \<Rightarrow> (stream \<times> 'a io_state_scheme) run \<Rightarrow> nat set \<Rightarrow> u32 \<Rightarrow> stream \<Rightarrow> 'a io_state_scheme
    \<Rightarrow> fat_node list option \<Rightarrow> bool" where
  "adds_children g ps mx run old c w s ch \<longleftrightarrow> run = Some (Inl Fs_Too_Small) \<or>
     (\<exists>w' s' old' c'. run = Some (Inr (w', s')) \<and> extends g ps {} old c w s old' c' w' s'
        \<and> children_in g ps (later old w old' w' s') (chain_data g ps old' c' s' mx) w ch w')"

definition adds_nodes ::
  "fat_globals \<Rightarrow> u64 \<Rightarrow> memory \<Rightarrow> (stream \<times> 'a io_state_scheme) run \<Rightarrow> nat set \<Rightarrow> u32 \<Rightarrow> stream \<Rightarrow> 'a io_state_scheme
    \<Rightarrow> nat \<Rightarrow> fat_node list \<Rightarrow> bool" where
  "adds_nodes g ps mx run old c w s b nodes \<longleftrightarrow> run = Some (Inl Fs_Too_Small) \<or>
     (\<exists>w' s' old' c'. run = Some (Inr (w', s')) \<and> extends g ps {b..<b + 4} old c w s old' c' w' s'
        \<and> load_u32 (mem s') b = load_u32 (mem s) b + word_of_nat (length nodes)
        \<and> nodes_in g ps (later old w old' w' s') (chain_data g ps old' c' s' mx) w nodes w')"

text \<open>
  Before the loop: \<open>vs\<close> are the slots from the current entry on, \<open>nodes\<close> what they mean. Before the
  call: the extents of the directory can be read from \<open>st\<close>.
\<close>

definition valid_nodes :: "fat_globals \<Rightarrow> nat set \<Rightarrow> memory \<Rightarrow> fat_node list \<Rightarrow> bool" where
  "valid_nodes g X mx nodes \<longleftrightarrow> (\<forall>n \<in> set nodes. tree_on_disk g mx n \<and> all_chains (chain_within g X) n)"

definition entries_of :: "fat_node list \<Rightarrow> (u16 list list \<times> u8 list) list" where
  "entries_of nodes = map (\<lambda>n. (node_names n, node_entry n)) nodes"

definition at_entry ::
  "fat_globals \<Rightarrow> u64 \<Rightarrow> nat set \<Rightarrow> memory \<Rightarrow> nat set \<Rightarrow> memory \<Rightarrow> nat set \<Rightarrow> u32 \<Rightarrow> stream \<Rightarrow> 'a io_state_scheme
    \<Rightarrow> nat \<Rightarrow> cluster_read_state \<Rightarrow> nat list \<Rightarrow> fat_node list \<Rightarrow> bool" where
  "at_entry g ps X mx Q mq old c w s b state vs nodes \<longleftrightarrow> traversing g ps X mx Q mq old c w s
     \<and> {b..<b + 4} \<subseteq> stable_bytes old w \<and> {b..<b + 4} \<inter> Q = {}
     \<and> visible_ahead g ps (reading Q mq :: 'a io_state_scheme set) state (tl vs)
     \<and> (\<forall>v \<in> set vs. v \<noteq> 0 \<and> {v..<v + 32} \<subseteq> Q)
     \<and> dir_entries (map (\<lambda>p. load_bytes mq p 32) vs) = Some (entries_of nodes) \<and> valid_nodes g X mx nodes"

definition dir_ready ::
  "fat_globals \<Rightarrow> u64 \<Rightarrow> nat set \<Rightarrow> memory \<Rightarrow> nat set \<Rightarrow> memory \<Rightarrow> nat set \<Rightarrow> u32 \<Rightarrow> stream \<Rightarrow> 'a io_state_scheme
    \<Rightarrow> stream \<Rightarrow> fat_node list \<Rightarrow> bool" where
  "dir_ready g ps X mx Q mq old c w s st nodes \<longleftrightarrow> traversing g ps X mx Q mq old c w s
     \<and> 32 * unat (mi_dentries_per_cluster (meta_info g)) = unat (mi_cluster_size (meta_info g))
     \<and> (\<exists>fs v. stable_segment g ps (reading Q mq :: 'a io_state_scheme set) st fs v \<and> list_all sound_extent fs
          \<and> (\<Union>f \<in> set fs. extent_bytes g f) \<subseteq> Q
          \<and> dir_entries (filter seen (slots_of (concat (map (extent_content g mq) fs)))) = Some (entries_of nodes))
     \<and> valid_nodes g X mx nodes"

subsection \<open>The start of a directory\<close>

lemma extends_store:
  fixes s :: "'a io_state_scheme"
  assumes "writer_at g ps old c w s" and "B \<subseteq> stable_bytes old w" and "agree_on (- B) (mem s) m"
  shows "extends g ps B old c w s old c w (s\<lparr>mem := m\<rparr>)"
  by (rule extends_fill [OF extends_refl [OF assms(1)] assms(2) _ assms(3)]) blast

lemma store_u32_agree: "agree_on (- {b..<b + 4}) m (store_u32 m b v)"
  by (simp add: agree_on_def u32.store_frame)

lemma cell_u32:
  fixes s' :: "'a io_state_scheme"
  assumes "r \<in> later old w old' w' s'" and "{b..<b + 4} \<subseteq> new_bytes old w old' w'"
  shows "load_u32 (mem r) b = load_u32 (mem s') b"
  by (rule u32.load_cong) (use laterD [OF assms] in \<open>simp add: agree_on_def\<close>)

text \<open>A cell for the number of children, holding \<open>v\<close>.\<close>

lemma count_cell_spec:
  fixes s :: "'a io_state_scheme"
  assumes O: "traversing g ps X mx Q mq old c w s" and ps: "40 \<le> unat ps"
  shows "reserve_children_count g ps w s = Inl Fs_Too_Small \<or>
    (\<exists>b w' s' old' c'. reserve_children_count g ps w s = Inr (b, w', s')
      \<and> extends g ps {} old c w s old' c' w' (s'\<lparr>mem := store_u32 (mem s') b v\<rparr>)
      \<and> {b..<b + 4} \<subseteq> new_bytes old w old' w'
      \<and> (\<forall>R :: 'a io_state_scheme set. (\<forall>r \<in> R. agree_on (new_bytes old w old' w' - {b..<b + 4}) (store_u32 (mem s') b v) (mem r))
           \<longrightarrow> segment_cells g ps R 4 w [b] w'))"
proof -
  have W: "writer_at g ps old c w s" using traversingD [OF O] by simp
  have "unat (4 :: u64) + 8 \<le> unat ps" using ps by simp
  from reserve_cell_spec [OF W this] show ?thesis
  proof (elim disjE exE conjE)
    fix b w' s' old' c'
    assume r: "reserve_cell g ps 4 w s = Inr (b, w', s')" "finished g ps 4 old c w s [b] old' c' w' s'"
    note F = finishedD [OF r(2), simplified]
    let ?m = "store_u32 (mem s') b v"
    have "{b..<b + 4} \<subseteq> stable_bytes old' w'" "{b..<b + 4} \<inter> (stable_bytes old w - {}) = {}"
      using F(2) unfolding new_bytes_def by blast+
    from extends_fill [OF F(1) this store_u32_agree] have E: "extends g ps {} old c w s old' c' w' (s'\<lparr>mem := ?m\<rparr>)" .
    have "segment_cells g ps R 4 w [b] w'"
      if R: "\<forall>r \<in> R. agree_on (new_bytes old w old' w' - {b..<b + 4}) ?m (mem r)" for R :: "'a io_state_scheme set"
    proof (rule segment_cells_mono [OF F(4)], rule subsetI, rule CollectI)
      fix r assume "r \<in> R"
      moreover have "agree_on (new_bytes old w old' w' - {b..<b + 4}) (mem s') ?m"
        by (rule agree_on_mono [OF store_u32_agree]) blast
      ultimately show "agree_on (new_bytes old w old' w' - {b..<b + 4}) (mem s') (mem r)"
        using R agree_on_trans by blast
    qed
    moreover have "reserve_children_count g ps w s = Inr (b, w', s')" using r(1) by (simp add: reserve_as_cell)
    ultimately show ?thesis using E F(2) by blast
  qed (simp add: reserve_as_cell)
qed

text \<open>The children of a file.\<close>

lemma no_children_spec:
  fixes s :: "'a io_state_scheme"
  assumes O: "traversing g ps X mx Q mq old c w s" and ps: "40 \<le> unat ps"
  shows "adds_children g ps mx (Some (bind_res (reserve_children_count g ps w s) (\<lambda>t.
      Inr (fst (snd t), (snd (snd t))\<lparr>mem := store_u32 (mem (snd (snd t))) (fst t) (- 1)\<rparr>)))) old c w s None"
  using count_cell_spec [OF O ps, of "- 1"]
proof (elim disjE exE conjE)
  fix b w' s' old' c'
  assume r: "reserve_children_count g ps w s = Inr (b, w', s')"
    "extends g ps {} old c w s old' c' w' (s'\<lparr>mem := store_u32 (mem s') b (- 1)\<rparr>)"
    "{b..<b + 4} \<subseteq> new_bytes old w old' w'"
    "\<forall>R :: 'a io_state_scheme set. (\<forall>r \<in> R. agree_on (new_bytes old w old' w' - {b..<b + 4}) (store_u32 (mem s') b (- 1)) (mem r))
      \<longrightarrow> segment_cells g ps R 4 w [b] w'"
  let ?s' = "s'\<lparr>mem := store_u32 (mem s') b (- 1)\<rparr>"
  let ?R = "later old w old' w' ?s'"
  have "segment_cells g ps ?R 4 w [b] w'"
  proof (rule r(4) [rule_format])
    fix r assume "r \<in> ?R"
    then have "agree_on (new_bytes old w old' w' - {b..<b + 4}) (mem ?s') (mem r)" by (rule laterD) blast
    then show "agree_on (new_bytes old w old' w' - {b..<b + 4}) (store_u32 (mem s') b (- 1)) (mem r)" by simp
  qed
  moreover have "load_u32 (mem r) b = - 1" if "r \<in> ?R" for r
    using cell_u32 [OF that r(3)] by (simp add: u32.load_store)
  ultimately have "count_in g ps ?R w (- 1) w'" unfolding count_in_def by blast
  then show ?thesis using r(1,2) by (auto simp: adds_children_def children_in_def)
qed (simp add: adds_children_def)

text \<open>The whole of a directory, given the loop.\<close>

lemma traverse_adds:
  fixes s :: "'a io_state_scheme"
  assumes D: "dir_ready g ps X mx Q mq old c w s st nodes" and ps: "40 \<le> unat ps"
    and loop: "\<And>old c w (s :: 'a io_state_scheme) b state vs. at_entry g ps X mx Q mq old c w s b state vs nodes \<Longrightarrow>
      adds_nodes g ps mx (traverse_loop g ps b (first_or_null vs) state w s) old c w s b nodes"
  shows "adds_children g ps mx (traverse g ps st w s) old c w s (Some nodes)"
proof -
  have O: "traversing g ps X mx Q mq old c w s" and valid: "valid_nodes g X mx nodes"
    and n: "32 * unat (mi_dentries_per_cluster (meta_info g)) = unat (mi_cluster_size (meta_info g))"
    using D by (simp_all add: dir_ready_def)
  obtain fs v where fs: "stable_segment g ps (reading Q mq :: 'a io_state_scheme set) st fs v" "list_all sound_extent fs"
    "(\<Union>f \<in> set fs. extent_bytes g f) \<subseteq> Q"
    "dir_entries (filter seen (slots_of (concat (map (extent_content g mq) fs)))) = Some (entries_of nodes)"
    using D unfolding dir_ready_def by blast
  have geo: "page_geometry g ps" using traversingD(1) [OF O] by (simp add: writer_at_def stream_inv_def)
  have "agree_on (\<Union>f \<in> set fs. extent_bytes g f) mq (mem r)" if "r \<in> (reading Q mq :: 'a io_state_scheme set)" for r
    using that agree_on_mono [OF _ fs(3)] by simp
  from open_directory [OF geo n fs(1,2) this] obtain it state vs where
    dir: "\<forall>r \<in> (reading Q mq :: 'a io_state_scheme set). init_iterator g ps st r = Inr it"
    "\<forall>r \<in> (reading Q mq :: 'a io_state_scheme set). init_read_state g ps it r = Some (Inr state)"
    "visible_ahead g ps (reading Q mq :: 'a io_state_scheme set) state vs"
    "map (\<lambda>p. load_bytes mq p 32) vs = filter seen (slots_of (concat (map (extent_content g mq) fs)))"
    "\<forall>v \<in> set vs. v \<noteq> 0 \<and> {v..<v + 32} \<subseteq> (\<Union>f \<in> set fs. extent_bytes g f)"
    by blast
  from count_cell_spec [OF O ps, of 0] show ?thesis
  proof (elim disjE exE conjE)
    assume "reserve_children_count g ps w s = Inl Fs_Too_Small"
    then show ?thesis by (simp add: adds_children_def traverse_def traverse_start_def)
  next
    fix b w1 s1 old1 c1
    assume r: "reserve_children_count g ps w s = Inr (b, w1, s1)"
      "extends g ps {} old c w s old1 c1 w1 (s1\<lparr>mem := store_u32 (mem s1) b 0\<rparr>)"
      "{b..<b + 4} \<subseteq> new_bytes old w old1 w1"
      "\<forall>R :: 'a io_state_scheme set. (\<forall>r \<in> R. agree_on (new_bytes old w old1 w1 - {b..<b + 4}) (store_u32 (mem s1) b 0) (mem r))
        \<longrightarrow> segment_cells g ps R 4 w [b] w1"
    let ?s1 = "s1\<lparr>mem := store_u32 (mem s1) b 0\<rparr>"
    have O1: "traversing g ps X mx Q mq old1 c1 w1 ?s1" "Q \<inter> new_bytes old w old1 w1 = {}"
      using traversing_extends [OF O r(2)] by simp_all
    have q: "?s1 \<in> (reading Q mq :: 'a io_state_scheme set)" using traversingD(5) [OF O1(1)] by simp
    obtain state1 where nx: "next_dentry g ps state ?s1 = Some (Inr (first_or_null vs, state1))"
      "visible_ahead g ps (reading Q mq :: 'a io_state_scheme set) state1 (tl vs)"
      using next_visible [OF dir(3)] q by blast
    have run: "traverse g ps st w s = traverse_loop g ps b (first_or_null vs) state1 w1 ?s1"
      using r(1) dir(1,2) q nx(1) by (simp add: traverse_def traverse_start_def)
    have bs: "{b..<b + 4} \<subseteq> stable_bytes old1 w1" "{b..<b + 4} \<inter> stable_bytes old w = {}" "{b..<b + 4} \<inter> Q = {}"
      using r(3) O1(2) unfolding new_bytes_def by blast+
    have "dir_entries (map (\<lambda>p. load_bytes mq p 32) vs) = Some (entries_of nodes)" using dir(4) fs(4) by simp
    moreover have "\<forall>v \<in> set vs. v \<noteq> 0 \<and> {v..<v + 32} \<subseteq> Q" using dir(5) fs(3) by blast
    ultimately have "at_entry g ps X mx Q mq old1 c1 w1 ?s1 b state1 vs nodes"
      using O1(1) bs(1,3) nx(2) valid unfolding at_entry_def by blast
    from loop [OF this] show ?thesis
      unfolding adds_nodes_def run [symmetric]
    proof (elim disjE exE conjE)
      assume "traverse g ps st w s = Some (Inl Fs_Too_Small)"
      then show ?thesis by (simp add: adds_children_def)
    next
      fix w2 s2 old2 c2
      assume l: "traverse g ps st w s = Some (Inr (w2, s2))" "extends g ps {b..<b + 4} old1 c1 w1 ?s1 old2 c2 w2 s2"
        "load_u32 (mem s2) b = load_u32 (mem ?s1) b + word_of_nat (length nodes)"
        "nodes_in g ps (later old1 w1 old2 w2 s2) (chain_data g ps old2 c2 s2 mx) w1 nodes w2"
      have E: "extends g ps {} old c w s old2 c2 w2 s2"
        using bs(2) by (intro extends_trans [OF r(2) l(2)]) simp
      let ?R = "later old w old2 w2 s2"
      have sub: "stable_bytes old w \<subseteq> stable_bytes old1 w1" "stable_bytes old1 w1 \<subseteq> stable_bytes old2 w2"
        using extendsD(2) [OF r(2)] extendsD(2) [OF l(2)] by simp_all
      then have new: "new_bytes old w old1 w1 \<subseteq> new_bytes old w old2 w2" unfolding new_bytes_def by blast
      have "segment_cells g ps ?R 4 w [b] w1"
      proof (rule r(4) [rule_format])
        fix r assume R: "r \<in> ?R"
        have "agree_on (new_bytes old w old1 w1 - {b..<b + 4}) (mem ?s1) (mem s2)"
          by (rule agree_on_mono [OF extendsD(3) [OF l(2)]]) (auto simp: new_bytes_def)
        moreover have "agree_on (new_bytes old w old1 w1 - {b..<b + 4}) (mem s2) (mem r)"
          using new by (intro laterD [OF R]) blast
        ultimately have "agree_on (new_bytes old w old1 w1 - {b..<b + 4}) (mem ?s1) (mem r)" by (rule agree_on_trans)
        then show "agree_on (new_bytes old w old1 w1 - {b..<b + 4}) (store_u32 (mem s1) b 0) (mem r)" by simp
      qed
      moreover have "load_u32 (mem r) b = word_of_nat (length nodes)" if "r \<in> ?R" for r
        using cell_u32 [OF that order_trans [OF r(3) new]] l(3) by (simp add: u32.load_store)
      ultimately have "count_in g ps ?R w (word_of_nat (length nodes)) w1" unfolding count_in_def by blast
      moreover have "nodes_in g ps ?R (chain_data g ps old2 c2 s2 mx) w1 nodes w2"
        by (rule nodes_in_mono(2) [OF later_second [OF sub(1)] _ l(4)])
      ultimately show ?thesis using l(1) E unfolding adds_children_def children_in_def by auto
    qed
  qed
qed

subsection \<open>One entry\<close>

text \<open>The entry, its name and the extents of its chain.\<close>

lemma store_entry_spec:
  fixes s :: "'a io_state_scheme"
  assumes A: "at_entry g ps X mx Q mq old c w s b state vs (n # nodes)"
    and ps: "40 \<le> unat ps" "unat ps \<le> 65536"
  shows "\<exists>k. hd (load_bytes mq (hd vs) 32) \<noteq> 0 \<and> vs \<noteq> [] \<and> k < length vs
    \<and> dir_entries (map (\<lambda>p. load_bytes mq p 32) (drop k (tl vs))) = Some (entries_of nodes)
    \<and> (read_dentry g ps (hd vs) state w s = Some (Inl Fs_Too_Small)
      \<or> (\<exists>state' w1 s1 old1 c1. read_dentry g ps (hd vs) state w s = Some (Inr (vs ! k, state', w1, s1))
        \<and> visible_ahead g ps (reading Q mq :: 'a io_state_scheme set) state' (drop k (tl vs))
        \<and> is_dir (mem s1) (vs ! k) = (node_children n \<noteq> None)
        \<and> traversing g ps X mx Q mq old1 c1 w1 s1
        \<and> (aggregate_extents g ps (file_cluster_no (mem s1) (vs ! k)) w1 s1 = Some (Inl Fs_Too_Small)
          \<or> (\<exists>w2 s2 old2 c2 fs. aggregate_extents g ps (file_cluster_no (mem s1) (vs ! k)) w1 s1 = Some (Inr (w2, s2))
            \<and> extends g ps {} old c w s old2 c2 w2 s2 \<and> extends g ps {} old1 c1 w1 s1 old2 c2 w2 s2
            \<and> stable_segment g ps (later old1 w1 old2 w2 s2) w1 fs w2
            \<and> chain_data g ps old2 c2 s2 mx fs (node_chain n)
            \<and> entry_in g ps (later old w old2 w2 s2) (chain_data g ps old2 c2 s2 mx) w (node_entry n) (node_names n)
                 (node_chain n) w2))))"
proof -
  let ?L = "\<lambda>p. load_bytes mq p 32"
  have O: "traversing g ps X mx Q mq old c w s"
    and vis: "visible_ahead g ps (reading Q mq :: 'a io_state_scheme set) state (tl vs)"
    and slots: "\<forall>v \<in> set vs. v \<noteq> 0 \<and> {v..<v + 32} \<subseteq> Q"
    and dir: "dir_entries (map ?L vs) = Some ((node_names n, node_entry n) # entries_of nodes)"
    and valid: "valid_nodes g X mx (n # nodes)"
    using A by (simp_all add: at_entry_def entries_of_def)
  obtain d ns cs ch where n: "n = Fat_Node d ns cs ch" by (cases n)
  obtain v us where vs: "vs = v # us" and v0: "hd (?L v) \<noteq> 0" and len: "name_slots (?L v) \<le> length us"
    and e: "(node_names n, node_entry n) = (entry_names (map ?L vs), map ?L vs ! name_slots (?L v))"
    and rest: "dir_entries (drop (name_slots (?L v)) (map ?L us)) = Some (entries_of nodes)"
  proof -
    obtain x xs where x: "map ?L vs = x # xs" "hd x \<noteq> 0" "name_slots x \<le> length xs"
      "(node_names n, node_entry n) = (entry_names (map ?L vs), map ?L vs ! name_slots x)"
      "dir_entries (drop (name_slots x) xs) = Some (entries_of nodes)"
      using dir by (rule dir_entries_ConsE)
    obtain v us where v: "vs = v # us" "x = ?L v" "xs = map ?L us" using x(1) by auto
    show thesis using that [OF v(1)] x(2-5) unfolding v(2,3) by simp
  qed
  define k where "k = name_slots (?L (hd vs))"
  have kl: "k < length vs" "vs \<noteq> []" "hd vs = v" using len vs by (simp_all add: k_def)
  have dn: "d = ?L (vs ! k)" "ns = entry_names (map ?L vs)" using e kl by (simp_all add: n k_def)
  have rest': "dir_entries (map ?L (drop k (tl vs))) = Some (entries_of nodes)"
    using rest by (simp add: k_def vs drop_map)
  have tree: "file_chain g mx (file_cluster_no (image d) 0) cs" "is_dir (image d) 0 = (ch \<noteq> None)" "chain_within g X cs"
    using valid by (auto simp: valid_nodes_def n split: option.splits)
  have "read_dentry g ps (hd vs) state w s = Some (Inl Fs_Too_Small)
      \<or> (\<exists>state' w1 s1 old1 c1. read_dentry g ps (hd vs) state w s = Some (Inr (vs ! k, state', w1, s1))
        \<and> visible_ahead g ps (reading Q mq :: 'a io_state_scheme set) state' (drop k (tl vs))
        \<and> is_dir (mem s1) (vs ! k) = (node_children n \<noteq> None)
        \<and> traversing g ps X mx Q mq old1 c1 w1 s1
        \<and> (aggregate_extents g ps (file_cluster_no (mem s1) (vs ! k)) w1 s1 = Some (Inl Fs_Too_Small)
          \<or> (\<exists>w2 s2 old2 c2 fs. aggregate_extents g ps (file_cluster_no (mem s1) (vs ! k)) w1 s1 = Some (Inr (w2, s2))
            \<and> extends g ps {} old c w s old2 c2 w2 s2 \<and> extends g ps {} old1 c1 w1 s1 old2 c2 w2 s2
            \<and> stable_segment g ps (later old1 w1 old2 w2 s2) w1 fs w2
            \<and> chain_data g ps old2 c2 s2 mx fs cs
            \<and> entry_in g ps (later old w old2 w2 s2) (chain_data g ps old2 c2 s2 mx) w d ns cs w2)))"
    using read_dentry_spec [OF O ps(1) vis kl(2) slots k_def kl(1)]
  proof (elim disjE exE conjE)
    fix state' w1 s1 old1 c1 a st1 as
    assume r: "read_dentry g ps (hd vs) state w s = Some (Inr (vs ! k, state', w1, s1))"
      "visible_ahead g ps (reading Q mq :: 'a io_state_scheme set) state' (drop k (tl vs))"
      "extends g ps {} old c w s old1 c1 w1 s1" "segment_cells g ps (later old w old1 w1 s1) 32 w [a] st1"
      "segment_cells g ps (later old w old1 w1 s1) 26 st1 as w1"
      "\<forall>r \<in> later old w old1 w1 s1. load_bytes (mem r) a 32 = load_bytes mq (vs ! k) 32
           \<and> list_all2 (name_at (mem r)) as (entry_names (map ?L vs))"
    have O1: "traversing g ps X mx Q mq old1 c1 w1 s1" using traversing_extends [OF O r(3)] by simp
    note T1 = traversingD [OF O1]
    have slot: "{vs ! k..<vs ! k + 32} \<subseteq> Q" using slots kl(1) by simp
    have fields: "is_dir (mem s1) (vs ! k) = is_dir (image d) 0"
      "file_cluster_no (mem s1) (vs ! k) = file_cluster_no (image d) 0"
      using entry_cong(2,3) [of "mem s1" "vs ! k" mq "vs ! k", OF slot_agrees [OF T1(5) slot]]
        entry_image(2,3) [of mq "vs ! k"] by (simp_all add: dn(1))
    have isd: "is_dir (mem s1) (vs ! k) = (node_children n \<noteq> None)" using fields(1) tree(2) by (simp add: n)
    have ch: "file_chain g (mem s1) (file_cluster_no (mem s1) (vs ! k)) cs"
      using tree(1) chain_within_cong(2) [OF tree(3) T1(4)] fields(2) by simp
    have "20 \<le> unat ps" using ps(1) by simp
    moreover have "list_all (\<lambda>x. unat x < 2 ^ 28) cs" "length cs < 2 ^ 32"
      using tree(3) by (auto simp: chain_within_def list_all_iff)
    ultimately have "aggregate_extents g ps (file_cluster_no (mem s1) (vs ! k)) w1 s1 = Some (Inl Fs_Too_Small) \<or>
        (\<exists>w2 s2 old2 c2 fs. aggregate_extents g ps (file_cluster_no (mem s1) (vs ! k)) w1 s1 = Some (Inr (w2, s2))
          \<and> extends g ps {} old1 c1 w1 s1 old2 c2 w2 s2
          \<and> stable_segment g ps (later old1 w1 old2 w2 s2) w1 fs w2
          \<and> holds_data g ps old2 c2 s2 0 fs (word_of_nat (length cs)) (chain_content g (mem s1) cs))"
      unfolding later_def by (intro aggregate_extents_spec ps(2) T1(1,2) ch chain_within_outside [OF tree(3) T1(3)])
    then
    show ?thesis
    proof (elim disjE exE conjE)
      fix w2 s2 old2 c2 fs
      assume ag: "aggregate_extents g ps (file_cluster_no (mem s1) (vs ! k)) w1 s1 = Some (Inr (w2, s2))"
        "extends g ps {} old1 c1 w1 s1 old2 c2 w2 s2"
        "stable_segment g ps (later old1 w1 old2 w2 s2) w1 fs w2"
        "holds_data g ps old2 c2 s2 0 fs (word_of_nat (length cs)) (chain_content g (mem s1) cs)"
      have E: "extends g ps {} old c w s old2 c2 w2 s2" by (rule extends_trans [OF r(3) ag(2)]) simp
      have data: "chain_data g ps old2 c2 s2 mx fs cs"
        using ag(4) chain_within_cong(1) [OF tree(3) T1(4)] by (simp add: chain_data_def)
      have sub: "later old w old2 w2 s2 \<subseteq> later old w old1 w1 s1" by (rule later_first [OF ag(2)]) simp
      have sub2: "later old w old2 w2 s2 \<subseteq> later old1 w1 old2 w2 s2" by (rule later_second [OF extendsD(2) [OF r(3)]])
      have "entry_in g ps (later old w old2 w2 s2) (chain_data g ps old2 c2 s2 mx) w d ns cs w2"
        unfolding entry_in_def
        using segment_cells_mono [OF r(4) sub] segment_cells_mono [OF r(5) sub] stable_segment_mono [OF ag(3) sub2]
          data r(6) sub by (intro exI [of _ a] exI [of _ st1] exI [of _ as] exI [of _ w1] exI [of _ fs]) (auto simp: dn)
      note entry = this
      show ?thesis
        by (rule disjI2, intro exI conjI, rule r(1), rule r(2), rule isd, rule O1, rule disjI2, intro exI conjI,
            rule ag(1), rule E, rule ag(2), rule ag(3), rule data, rule entry)
    next
      assume full: "aggregate_extents g ps (file_cluster_no (mem s1) (vs ! k)) w1 s1 = Some (Inl Fs_Too_Small)"
      show ?thesis
        by (rule disjI2, intro exI conjI, rule r(1), rule r(2), rule isd, rule O1, rule disjI1, rule full)
    qed
  qed simp
  then show ?thesis using v0 kl rest' by (intro exI [of _ k]) (simp add: n)
qed

subsection \<open>The loop\<close>

lemma outside_stream_UN:
  "(\<And>f. f \<in> F \<Longrightarrow> outside_stream g ps old c a (B f)) \<Longrightarrow> outside_stream g ps old c a (\<Union>f \<in> F. B f)"
  unfolding outside_stream_def by blast

text \<open>A directory whose extents have just been written can be read.\<close>

lemma subdirectory_ready:
  fixes s2 :: "'a io_state_scheme"
  assumes O: "traversing g ps X mx Q mq old2 c2 w2 s2"
    and seg: "stable_segment g ps (later old1 w1 old2 w2 s2) w1 fs w2" and data: "chain_data g ps old2 c2 s2 mx fs cs"
    and n: "32 * unat (mi_dentries_per_cluster (meta_info g)) = unat (mi_cluster_size (meta_info g))"
    and nodes: "lists_children g mx cs nodes" "valid_nodes g X mx nodes"
  shows "dir_ready g ps X mx (new_bytes old1 w1 old2 w2 \<union> (\<Union>f \<in> set fs. extent_bytes g f)) (mem s2) old2 c2 w2 s2 w1 nodes"
proof -
  let ?Y = "\<Union>f \<in> set fs. extent_bytes g f" and ?N = "new_bytes old1 w1 old2 w2"
  have fs: "list_all sound_extent fs" "\<And>f. f \<in> set fs \<Longrightarrow> outside_stream g ps old2 c2 (alloc s2) (extent_bytes g f)"
    "concat (map (extent_content g (mem s2)) fs) = chain_content g mx cs"
    using data by (auto simp: chain_data_def holds_data_def list_all_iff)
  have Y: "outside_stream g ps old2 c2 (alloc s2) ?Y" using fs(2) by (rule outside_stream_UN)
  have "?N \<union> ?Y \<subseteq> stable_bytes old2 w2 \<union> ?Y" by (auto simp: new_bytes_def)
  moreover have "agree_on (?N \<union> ?Y) (mem s2) (mem s2)" by (simp add: agree_on_def)
  ultimately have T: "traversing g ps X mx (?N \<union> ?Y) (mem s2) old2 c2 w2 s2"
    using traversingD(1-4) [OF O] Y unfolding traversing_def by blast
  have "(reading (?N \<union> ?Y) (mem s2) :: 'a io_state_scheme set) \<subseteq> later old1 w1 old2 w2 s2"
    by (auto simp: later_def intro: agree_on_mono)
  then have "stable_segment g ps (reading (?N \<union> ?Y) (mem s2) :: 'a io_state_scheme set) w1 fs w2"
    by (rule stable_segment_mono [OF seg])
  moreover have "dir_entries (filter seen (slots_of (concat (map (extent_content g (mem s2)) fs)))) = Some (entries_of nodes)"
    using nodes(1) fs(3) by (simp add: lists_children_def entries_of_def)
  ultimately show ?thesis using T n fs(1) nodes(2) unfolding dir_ready_def by blast
qed

lemma children_in_mono:
  assumes "children_in g ps R H st ch st'" and "S \<subseteq> R" and "\<And>fs cs. H fs cs \<Longrightarrow> H' fs cs"
  shows "children_in g ps S H' st ch st'"
  using assms unfolding children_in_def
  by (auto split: option.splits intro: count_in_mono nodes_in_mono(2) [OF assms(2,3)])

text \<open>A node and its successor in the count, and then the rest.\<close>

lemma adds_one_more:
  fixes s s3 :: "'a io_state_scheme"
  defines "s4 \<equiv> (\<lambda>b s3. s3\<lparr>mem := store_u32 (mem s3) b (load_u32 (mem s3) b + 1)\<rparr> :: 'a io_state_scheme)"
  assumes E: "extends g ps {} old c w s old3 c3 w3 s3" and b: "{b..<b + 4} \<subseteq> stable_bytes old w"
    and node: "node_in g ps (later old w old3 w3 s3) (chain_data g ps old3 c3 s3 mx) w nd w3"
    and rest: "adds_nodes g ps mx run old3 c3 w3 (s4 b s3) b rest"
  shows "adds_nodes g ps mx run old c w s b (nd # rest)"
proof -
  have b3: "{b..<b + 4} \<subseteq> stable_bytes old3 w3" using b extendsD(2) [OF E] by blast
  have S: "extends g ps {b..<b + 4} old3 c3 w3 s3 old3 c3 w3 (s4 b s3)"
    unfolding s4_def by (rule extends_store [OF extendsD(1) [OF E] b3 store_u32_agree])
  have E4: "extends g ps {b..<b + 4} old c w s old3 c3 w3 (s4 b s3)"
    by (rule extends_trans [OF extends_weaken [OF E] S]) simp_all
  have old: "load_u32 (mem (s4 b s3)) b = load_u32 (mem s) b + 1"
  proof -
    have "load_u32 (mem s3) b = load_u32 (mem s) b"
      using extendsD(3) [OF E] b by (intro u32.load_cong) (auto simp: agree_on_def)
    then show ?thesis by (simp add: s4_def u32.load_store)
  qed
  from rest show ?thesis
    unfolding adds_nodes_def
  proof (elim disjE exE conjE)
    fix w5 s5 old5 c5
    assume l: "run = Some (Inr (w5, s5))" "extends g ps {b..<b + 4} old3 c3 w3 (s4 b s3) old5 c5 w5 s5"
      "load_u32 (mem s5) b = load_u32 (mem (s4 b s3)) b + word_of_nat (length rest)"
      "nodes_in g ps (later old3 w3 old5 w5 s5) (chain_data g ps old5 c5 s5 mx) w3 rest w5"
    have disj: "{b..<b + 4} \<inter> new_bytes old w old3 w3 = {}" using b unfolding new_bytes_def by blast
    have "later old w old5 w5 s5 \<subseteq> later old w old3 w3 s3"
      using later_first [OF l(2) disj] later_first [OF S disj] by (rule order_trans)
    from nodes_in_mono(1) [OF this chain_data_extends [OF chain_data_extends [OF _ S] l(2)] node]
    have "node_in g ps (later old w old5 w5 s5) (chain_data g ps old5 c5 s5 mx) w nd w3" .
    moreover have "nodes_in g ps (later old w old5 w5 s5) (chain_data g ps old5 c5 s5 mx) w3 rest w5"
      by (rule nodes_in_mono(2) [OF later_second [OF extendsD(2) [OF E]] _ l(4)])
    ultimately have "nodes_in g ps (later old w old5 w5 s5) (chain_data g ps old5 c5 s5 mx) w (nd # rest) w5"
      by (rule more_nodes)
    moreover have "extends g ps {b..<b + 4} old c w s old5 c5 w5 s5" by (rule extends_trans [OF E4 l(2)]) simp
    moreover have "load_u32 (mem s5) b = load_u32 (mem s) b + word_of_nat (length (nd # rest))"
      using l(3) old by simp
    ultimately show "run = Some (Inl Fs_Too_Small) \<or> (\<exists>w' s' old' c'. run = Some (Inr (w', s'))
        \<and> extends g ps {b..<b + 4} old c w s old' c' w' s'
        \<and> load_u32 (mem s') b = load_u32 (mem s) b + word_of_nat (length (nd # rest))
        \<and> nodes_in g ps (later old w old' w' s') (chain_data g ps old' c' s' mx) w (nd # rest) w')"
      using l(1) by blast
  qed simp
qed

text \<open>The end of a round: the child is counted, and the loop goes on with the next entry.\<close>

lemma round_ends:
  fixes s s3 :: "'a io_state_scheme"
  defines "s4 \<equiv> \<lambda>b s3. s3\<lparr>mem := store_u32 (mem s3) b (load_u32 (mem s3) b + 1)\<rparr> :: 'a io_state_scheme"
  assumes O: "traversing g ps X mx Q mq old c w s" and bs: "{b..<b + 4} \<subseteq> stable_bytes old w" "{b..<b + 4} \<inter> Q = {}"
    and us: "visible_ahead g ps (reading Q mq :: 'a io_state_scheme set) state' us" "\<forall>v \<in> set us. v \<noteq> 0 \<and> {v..<v + 32} \<subseteq> Q"
      "dir_entries (map (\<lambda>p. load_bytes mq p 32) us) = Some (entries_of rest)" "valid_nodes g X mx rest"
    and E: "extends g ps {} old c w s old3 c3 w3 s3"
    and node: "node_in g ps (later old w old3 w3 s3) (chain_data g ps old3 c3 s3 mx) w nd w3"
    and loop: "\<And>state2. at_entry g ps X mx Q mq old3 c3 w3 (s4 b s3) b state2 us rest \<Longrightarrow>
      adds_nodes g ps mx (traverse_loop g ps b (first_or_null us) state2 w3 (s4 b s3)) old3 c3 w3 (s4 b s3) b rest"
  shows "adds_nodes g ps mx (bind_run (next_dentry g ps state' (s4 b s3)) (\<lambda>d.
      traverse_loop g ps b (fst d) (snd d) w3 (s4 b s3))) old c w s b (nd # rest)"
proof -
  have b3: "{b..<b + 4} \<subseteq> stable_bytes old3 w3" using bs(1) extendsD(2) [OF E] by blast
  have S: "extends g ps {b..<b + 4} old3 c3 w3 s3 old3 c3 w3 (s4 b s3)"
    unfolding s4_def by (rule extends_store [OF extendsD(1) [OF E] b3 store_u32_agree])
  have E4: "extends g ps {b..<b + 4} old c w s old3 c3 w3 (s4 b s3)"
    by (rule extends_trans [OF extends_weaken [OF E] S]) simp_all
  have O4: "traversing g ps X mx Q mq old3 c3 w3 (s4 b s3)" by (rule traversing_extends(1) [OF O E4 bs(2)])
  have "s4 b s3 \<in> (reading Q mq :: 'a io_state_scheme set)" using traversingD(5) [OF O4] by simp
  then obtain state2 where nx: "next_dentry g ps state' (s4 b s3) = Some (Inr (first_or_null us, state2))"
    "visible_ahead g ps (reading Q mq :: 'a io_state_scheme set) state2 (tl us)"
    using next_visible [OF us(1)] by blast
  have "at_entry g ps X mx Q mq old3 c3 w3 (s4 b s3) b state2 us rest"
    using O4 b3 bs(2) nx(2) us(2-4) unfolding at_entry_def by simp
  from adds_one_more [OF E bs(1) node loop [OF this, unfolded s4_def]]
  show ?thesis using nx(1) by (simp add: s4_def)
qed

lemma traverse_loop_adds:
  fixes s :: "'a io_state_scheme"
  assumes ps: "40 \<le> unat ps" "unat ps \<le> 65536"
    and n: "32 * unat (mi_dentries_per_cluster (meta_info g)) = unat (mi_cluster_size (meta_info g))"
  shows "at_entry g ps X mx Q mq old c w s b state vs nodes \<Longrightarrow>
    adds_nodes g ps mx (traverse_loop g ps b (first_or_null vs) state w s) old c w s b nodes"
proof (induction "size_list size nodes" arbitrary: nodes Q mq old c w s b state vs rule: less_induct)
  case less
  note A = less.prems
  have O: "traversing g ps X mx Q mq old c w s" and bs: "{b..<b + 4} \<subseteq> stable_bytes old w" "{b..<b + 4} \<inter> Q = {}"
    and slots: "\<forall>v \<in> set vs. v \<noteq> 0 \<and> {v..<v + 32} \<subseteq> Q"
    and dir: "dir_entries (map (\<lambda>p. load_bytes mq p 32) vs) = Some (entries_of nodes)"
    using A by (simp_all add: at_entry_def)
  note T = traversingD [OF O]
  have first: "mem s (hd vs) = hd (load_bytes mq (hd vs) 32)" if "vs \<noteq> []"
    using slot_agrees [OF T(5), of "hd vs" 0] slots that by (simp add: hd_load_bytes)
  show ?case
  proof (cases nodes)
    case Nil
    have "dir_entries (map (\<lambda>p. load_bytes mq p 32) vs) = Some []" using dir by (simp only: Nil entries_of_def list.map)
    from dir_entries_NilD [OF this] have "vs = [] \<or> hd (load_bytes mq (hd vs) 32) = 0" by (cases vs) simp_all
    then have "is_dir_table_end (mem s) (first_or_null vs)"
      using first by (cases vs) (auto simp: is_dir_table_end_def)
    then have "traverse_loop g ps b (first_or_null vs) state w s = Some (Inr (w, s))"
      by (subst traverse_loop.simps) simp
    then show ?thesis
      unfolding adds_nodes_def Nil
      by (intro disjI2 exI conjI) (assumption, rule extends_refl [OF T(1)], simp, rule no_nodes)
  next
    case (Cons nd rest)
    from store_entry_spec [OF A [unfolded Cons] ps] obtain k where
      k: "hd (load_bytes mq (hd vs) 32) \<noteq> 0" "vs \<noteq> []" "k < length vs"
      "dir_entries (map (\<lambda>p. load_bytes mq p 32) (drop k (tl vs))) = Some (entries_of rest)"
      and cases: "read_dentry g ps (hd vs) state w s = Some (Inl Fs_Too_Small)
      \<or> (\<exists>state' w1 s1 old1 c1. read_dentry g ps (hd vs) state w s = Some (Inr (vs ! k, state', w1, s1))
        \<and> visible_ahead g ps (reading Q mq :: 'a io_state_scheme set) state' (drop k (tl vs))
        \<and> is_dir (mem s1) (vs ! k) = (node_children nd \<noteq> None)
        \<and> traversing g ps X mx Q mq old1 c1 w1 s1
        \<and> (aggregate_extents g ps (file_cluster_no (mem s1) (vs ! k)) w1 s1 = Some (Inl Fs_Too_Small)
          \<or> (\<exists>w2 s2 old2 c2 fs. aggregate_extents g ps (file_cluster_no (mem s1) (vs ! k)) w1 s1 = Some (Inr (w2, s2))
            \<and> extends g ps {} old c w s old2 c2 w2 s2 \<and> extends g ps {} old1 c1 w1 s1 old2 c2 w2 s2
            \<and> stable_segment g ps (later old1 w1 old2 w2 s2) w1 fs w2
            \<and> chain_data g ps old2 c2 s2 mx fs (node_chain nd)
            \<and> entry_in g ps (later old w old2 w2 s2) (chain_data g ps old2 c2 s2 mx) w (node_entry nd) (node_names nd)
                 (node_chain nd) w2)))"
      by (elim exE conjE) (rule that)
    have f: "first_or_null vs = hd vs" using k(2) by (cases vs) simp_all
    have "hd vs \<noteq> 0" using slots k(2) by simp
    then have ne: "\<not> is_dir_table_end (mem s) (hd vs)" using first [OF k(2)] k(1) by (simp add: is_dir_table_end_def)
    have valid: "valid_nodes g X mx rest" "tree_on_disk g mx nd" "all_chains (chain_within g X) nd"
      using A by (simp_all add: at_entry_def valid_nodes_def Cons)
    from cases show ?thesis
    proof (elim disjE exE conjE)
      assume "read_dentry g ps (hd vs) state w s = Some (Inl Fs_Too_Small)"
      then have "traverse_loop g ps b (hd vs) state w s = Some (Inl Fs_Too_Small)"
        using ne by (subst traverse_loop.simps) simp
      then show ?thesis by (simp add: adds_nodes_def f)
    next
      fix state' w1 s1 old1 c1
      assume "read_dentry g ps (hd vs) state w s = Some (Inr (vs ! k, state', w1, s1))"
        "aggregate_extents g ps (file_cluster_no (mem s1) (vs ! k)) w1 s1 = Some (Inl Fs_Too_Small)"
      then have "traverse_loop g ps b (hd vs) state w s = Some (Inl Fs_Too_Small)"
        using ne by (subst traverse_loop.simps) (simp add: Let_def)
      then show ?thesis by (simp add: adds_nodes_def f)
    next
      fix state' w1 s1 old1 c1 w2 s2 old2 c2 fs
      assume r: "read_dentry g ps (hd vs) state w s = Some (Inr (vs ! k, state', w1, s1))"
        "visible_ahead g ps (reading Q mq :: 'a io_state_scheme set) state' (drop k (tl vs))"
        "is_dir (mem s1) (vs ! k) = (node_children nd \<noteq> None)"
        "traversing g ps X mx Q mq old1 c1 w1 s1"
        "aggregate_extents g ps (file_cluster_no (mem s1) (vs ! k)) w1 s1 = Some (Inr (w2, s2))"
        "extends g ps {} old c w s old2 c2 w2 s2" "extends g ps {} old1 c1 w1 s1 old2 c2 w2 s2"
        "stable_segment g ps (later old1 w1 old2 w2 s2) w1 fs w2"
        "chain_data g ps old2 c2 s2 mx fs (node_chain nd)"
        "entry_in g ps (later old w old2 w2 s2) (chain_data g ps old2 c2 s2 mx) w (node_entry nd) (node_names nd)
           (node_chain nd) w2"
      have O2: "traversing g ps X mx Q mq old2 c2 w2 s2" using traversing_extends [OF O r(6)] by simp
      define child where "child = (if is_dir (mem s1) (vs ! k) then traverse g ps w1 w2 s2
        else Some (bind_res (reserve_children_count g ps w2 s2) (\<lambda>t.
          Inr (fst (snd t), (snd (snd t))\<lparr>mem := store_u32 (mem (snd (snd t))) (fst t) (- 1)\<rparr>))))"
      have run: "traverse_loop g ps b (first_or_null vs) state w s = bind_run child (\<lambda>t.
          let s2 = (snd t)\<lparr>mem := store_u32 (mem (snd t)) b (load_u32 (mem (snd t)) b + 1)\<rparr>
          in bind_run (next_dentry g ps state' s2) (\<lambda>d. traverse_loop g ps b (fst d) (snd d) (fst t) s2))"
        using ne r(1,5) unfolding f child_def traverse_def
        by (subst traverse_loop.simps) (simp add: Let_def)
      have "adds_children g ps mx child old2 c2 w2 s2 (node_children nd)"
      proof (cases "node_children nd")
        case None
        then show ?thesis using no_children_spec [OF O2 ps(1)] r(3) by (simp add: child_def)
      next
        case (Some ch)
        obtain d ns cs where nd: "nd = Fat_Node d ns cs (Some ch)" using Some by (cases nd) auto
        have sub: "lists_children g mx (node_chain nd) ch" "valid_nodes g X mx ch"
          using valid(2,3) by (auto simp: nd valid_nodes_def)
        have smaller: "size_list size ch < size_list size nodes" by (simp add: Cons nd)
        have "adds_children g ps mx (traverse g ps w1 w2 s2) old2 c2 w2 s2 (Some ch)"
          by (rule traverse_adds [OF subdirectory_ready [OF O2 r(8,9) n sub] ps(1) less.hyps [OF smaller]])
        then show ?thesis using r(3) Some by (simp add: child_def)
      qed
      then consider (full) "child = Some (Inl Fs_Too_Small)"
        | (ok) w3 s3 old3 c3 where "child = Some (Inr (w3, s3))" "extends g ps {} old2 c2 w2 s2 old3 c3 w3 s3"
          "children_in g ps (later old2 w2 old3 w3 s3) (chain_data g ps old3 c3 s3 mx) w2 (node_children nd) w3"
        unfolding adds_children_def by blast
      then show ?thesis
      proof cases
        case full
        then show ?thesis using run by (simp add: adds_nodes_def)
      next
        case ok
        have E: "extends g ps {} old c w s old3 c3 w3 s3" by (rule extends_trans [OF r(6) ok(2)]) simp
        have node: "node_in g ps (later old w old3 w3 s3) (chain_data g ps old3 c3 s3 mx) w nd w3"
        proof -
          have "later old w old3 w3 s3 \<subseteq> later old w old2 w2 s2" by (rule later_first [OF ok(2)]) simp
          from entry_in_mono [OF r(10) this chain_data_extends [OF _ ok(2)]]
          have e: "entry_in g ps (later old w old3 w3 s3) (chain_data g ps old3 c3 s3 mx) w (node_entry nd) (node_names nd)
            (node_chain nd) w2" .
          have "children_in g ps (later old w old3 w3 s3) (chain_data g ps old3 c3 s3 mx) w2 (node_children nd) w3"
            by (rule children_in_mono [OF ok(3) later_second [OF extendsD(2) [OF r(6)]]])
          from node_in_children [OF e this] show ?thesis by simp
        qed
        have us: "\<forall>v \<in> set (drop k (tl vs)). v \<noteq> 0 \<and> {v..<v + 32} \<subseteq> Q"
          using slots k(2) by (cases vs) (auto dest: in_set_dropD)
        have smaller: "size_list size rest < size_list size nodes" by (simp add: Cons)
        from round_ends [OF O bs r(2) us k(4) valid(1) E node less.hyps [OF smaller]]
        show ?thesis unfolding run ok(1) Cons by (simp add: Let_def)
      qed
    qed
  qed
qed

subsection \<open>The stage that reads the FAT\<close>

lemma init_stream_archiver_total:
  fixes s :: "'a io_state_scheme"
  assumes geo: "page_geometry g (ucast cs)" and wf: "alloc_wf (alloc s)"
    and free: "\<not> cluster_free (alloc s) 0" "\<not> cluster_free (alloc s) 1"
    and X: "\<forall>d. 2 \<le> unat d \<longrightarrow> cluster_free (alloc s) (unat d) \<longrightarrow> X \<inter> page_region g (ucast cs) d = {}"
  shows "init_stream_archiver g cs s = Inl Fs_Too_Small \<or>
    (\<exists>st s' old c. init_stream_archiver g cs s = Inr (st, s') \<and> writer_at g (ucast cs) old c st s'
      \<and> outside_stream g (ucast cs) old c (alloc s') X \<and> agree_on X (mem s) (mem s') \<and> same_setup (alloc s) (alloc s'))"
proof (cases "allocatePage g s")
  case (Inl err)
  have "err = Fs_Too_Small"
    using Inl allocate_extent_spec [OF wf, of 1] by (auto simp: allocatePage_def bind_res_eq_Inl Let_def)
  then show ?thesis using Inl by (simp add: init_stream_archiver_def cutStreamArchiver_def)
next
  case (Inr q)
  let ?ps = "ucast cs :: u64"
  obtain p s1 where q: "q = (p, s1)" by (cases q)
  from allocatePage_spec [OF wf free Inr [unfolded q]] obtain d where d: "2 \<le> unat d" "p = cluster_start g d"
    "cluster_free (alloc s) (unat d)" "mem s1 = mem s" "alloc_wf (alloc s1)" "same_setup (alloc s) (alloc s1)"
    "\<And>c. cluster_free (alloc s1) c \<longleftrightarrow> cluster_free (alloc s) c \<and> c \<noteq> unat d" by blast
  define st0 where "st0 = \<lparr>st_page = p, st_offset = sizeof_page, st_index = 0, st_header = 0\<rparr>"
  define s2 where "s2 = s1\<lparr>mem := store_u64 (mem s1) p 0\<rparr>"
  have sz: "16 \<le> unat ?ps" using geo unfolding page_geometry_def by blast
  then have inv: "stream_inv g ?ps {} d st0 s2"
    using geo free d by (simp add: stream_inv_def st0_def s2_def sizeof_page_def)
  have out: "outside_stream g ?ps {} d (alloc s2) X"
    using X d by (auto simp: outside_stream_def s2_def)
  have "agree_on X (mem s) (mem s2)"
  proof -
    have "{p..<p + 8} \<subseteq> page_region g ?ps d" using sz by (auto simp: page_region_def d(2))
    then have "x \<notin> {p..<p + 8}" if "x \<in> X" for x using X d(1,3) that by blast
    then show ?thesis by (auto simp: agree_on_def s2_def d(4) u64.store_frame)
  qed
  moreover have run: "init_stream_archiver g cs s = bind_res (iterate_advance g ?ps True sizeof_header (st0\<lparr>st_index := 0\<rparr>) s2)
      (\<lambda>(h, st1, s3). Inr (st1\<lparr>st_header := h\<rparr>, s3))"
    by (simp add: init_stream_archiver_def cutStreamArchiver_def iterateStreamArchiver_def Inr q st0_def s2_def)
  ultimately show ?thesis
  proof (cases "iterate_advance g ?ps True sizeof_header (st0\<lparr>st_index := 0\<rparr>) s2")
    case (Inl err)
    have "stream_inv g ?ps {} d (st0\<lparr>st_index := 0\<rparr>) s2" using inv by simp
    from iterate_advance_insert_total [OF this Inl] show ?thesis using run Inl by simp
  next
    case it: (Inr r)
    obtain h st1 s3 where r: "r = (h, st1, s3)" by (cases r)
    from start_segment [OF inv it [unfolded r]] obtain old' c' where
      k: "writer_at g ?ps old' c' (st1\<lparr>st_header := h\<rparr>) s3" "same_setup (alloc s2) (alloc s3)"
      "outside_stream g ?ps old' c' (alloc s3) X" "agree_on X (mem s2) (mem s3)"
      using out by blast
    have "same_setup (alloc s) (alloc s3)" using same_setup_trans [OF d(6), of "alloc s3"] k(2) by (simp add: s2_def)
    moreover have "agree_on X (mem s) (mem s3)" using \<open>agree_on X (mem s) (mem s2)\<close> k(4) by (rule agree_on_trans)
    ultimately show ?thesis using run it k(1,3) by (auto simp: r)
  qed
qed

text \<open>The extents hold the data of a chain of clusters.\<close>

definition holds_chain :: "fat_globals \<Rightarrow> memory \<Rightarrow> memory \<Rightarrow> fat_extent list \<Rightarrow> u32 list \<Rightarrow> bool" where
  "holds_chain g m m' fs cs \<longleftrightarrow> logical_numbers 0 fs \<and> concat (map (extent_content g m') fs) = chain_content g m cs"

text \<open>
  C2. Reading the FAT side keeps the whole directory tree. For a tree of any depth, as the FAT
  describes it, whose chains end and whose clusters and FAT entries are in use, \<open>read_fat_tree\<close>
  returns (or ends the program because the file system is full), and a reader of the stream it
  returns finds the extents of the root directory and then, in the order of the directory, every
  entry that is seen: its 32 bytes, its name, extents that hold the bytes of its cluster chain,
  resettled or not, and either the mark of a file or the number of its children, followed by
  these. The FAT and the files' clusters have not changed.
\<close>

theorem read_fat_tree_keeps_tree:
  fixes s :: ext4_state
  assumes geo: "page_geometry g (ucast (mi_cluster_size (meta_info g)))"
    and size: "40 \<le> unat (mi_cluster_size (meta_info g))" "unat (mi_cluster_size (meta_info g)) \<le> 65536"
    and n: "32 * unat (mi_dentries_per_cluster (meta_info g)) = unat (mi_cluster_size (meta_info g))"
    and wf: "alloc_wf (alloc s)" and free: "\<not> cluster_free (alloc s) 0" "\<not> cluster_free (alloc s) 1"
    and small: "extent_count (alloc s) < 2 ^ 31"
    and X: "\<forall>d. 2 \<le> unat d \<longrightarrow> cluster_free (alloc s) (unat d) \<longrightarrow>
      X \<inter> page_region g (ucast (mi_cluster_size (meta_info g))) d = {}"
    and root: "file_chain g (mem s) (bs_root_cluster_no (boot_sector g)) cs" "chain_within g X cs"
      "lists_children g (mem s) cs nodes"
    and nodes: "\<And>nd. nd \<in> set nodes \<Longrightarrow> tree_on_disk g (mem s) nd \<and> all_chains (chain_within g X) nd"
  shows "read_fat_tree g s = Some (Inl Fs_Too_Small) \<or>
    (\<exists>stream s' w. read_fat_tree g s = Some (Inr (stream, s'))
      \<and> tree_in_stream g (ucast (mi_cluster_size (meta_info g))) {s'} (holds_chain g (mem s) (mem s')) stream cs nodes w
      \<and> agree_on X (mem s) (mem s'))"
proof -
  let ?ps = "ucast (mi_cluster_size (meta_info g)) :: u64"
  have ps: "40 \<le> unat ?ps" "unat ?ps \<le> 65536" "20 \<le> unat ?ps" using size by simp_all
  have len: "list_all (\<lambda>x. unat x < 2 ^ 28) cs" "length cs < 2 ^ 32"
    using root(2) by (auto simp: chain_within_def list_all_iff)
  from init_stream_archiver_total [OF geo wf free X] show ?thesis
  proof (elim disjE exE conjE)
    assume "init_stream_archiver g (mi_cluster_size (meta_info g)) s = Inl Fs_Too_Small"
    then show ?thesis by (simp add: read_fat_tree_def Let_def)
  next
    fix st s1 old c
    assume i: "init_stream_archiver g (mi_cluster_size (meta_info g)) s = Inr (st, s1)" "writer_at g ?ps old c st s1"
      "outside_stream g ?ps old c (alloc s1) X" "agree_on X (mem s) (mem s1)" "same_setup (alloc s) (alloc s1)"
    have cnt: "extent_count (alloc s1) < 2 ^ 31" using small i(5) by (simp add: same_setup_def extent_count_def)
    have ch: "file_chain g (mem s1) (bs_root_cluster_no (boot_sector g)) cs"
      using root(1) chain_within_cong(2) [OF root(2) i(4)] by simp
    from aggregate_extents_spec [OF ps(3,2) i(2) cnt ch chain_within_outside [OF root(2) i(3)] len] show ?thesis
    proof (elim disjE exE conjE)
      assume "aggregate_extents g ?ps (bs_root_cluster_no (boot_sector g)) st s1 = Some (Inl Fs_Too_Small)"
      then show ?thesis by (simp add: read_fat_tree_def Let_def i(1))
    next
      fix w2 s2 old2 c2 fs
      assume a: "aggregate_extents g ?ps (bs_root_cluster_no (boot_sector g)) st s1 = Some (Inr (w2, s2))"
        "extends g ?ps {} old c st s1 old2 c2 w2 s2"
        "stable_segment g ?ps {r :: ext4_state. agree_on (new_bytes old st old2 w2) (mem s2) (mem r)} st fs w2"
        "holds_data g ?ps old2 c2 s2 0 fs (word_of_nat (length cs)) (chain_content g (mem s1) cs)"
      have seg: "stable_segment g ?ps (later old st old2 w2 s2) st fs w2" using a(3) by (simp add: later_def)
      have data: "chain_data g ?ps old2 c2 s2 (mem s) fs cs"
        using a(4) chain_within_cong(1) [OF root(2) i(4)] by (simp add: chain_data_def)
      have T0: "traversing g ?ps X (mem s) {} (mem s) old c st s1"
        using i(2-4) cnt unfolding traversing_def by (auto simp: agree_on_def outside_stream_def)
      have T: "traversing g ?ps X (mem s) {} (mem s) old2 c2 w2 s2" by (rule traversing_extends(1) [OF T0 a(2)]) simp
      have valid: "valid_nodes g X (mem s) nodes" using nodes by (simp add: valid_nodes_def)
      have "adds_children g ?ps (mem s) (traverse g ?ps st w2 s2) old2 c2 w2 s2 (Some nodes)"
        by (rule traverse_adds [OF subdirectory_ready [OF T seg data n root(3) valid] ps(1) traverse_loop_adds [OF ps(1,2) n]])
      then consider (full) "traverse g ?ps st w2 s2 = Some (Inl Fs_Too_Small)"
        | (ok) w3 s3 old3 c3 where "traverse g ?ps st w2 s2 = Some (Inr (w3, s3))" "extends g ?ps {} old2 c2 w2 s2 old3 c3 w3 s3"
          "children_in g ?ps (later old2 w2 old3 w3 s3) (chain_data g ?ps old3 c3 s3 (mem s)) w2 (Some nodes) w3"
        unfolding adds_children_def by blast
      then show ?thesis
      proof cases
        case full
        then show ?thesis by (simp add: read_fat_tree_def Let_def i(1) a(1))
      next
        case ok
        have run: "read_fat_tree g s = Some (Inr (st, s3))" using ok(1) by (simp add: read_fat_tree_def Let_def i(1) a(1))
        have H: "holds_chain g (mem s) (mem s3) fs cs" if "chain_data g ?ps old3 c3 s3 (mem s) fs cs" for fs cs
          using that by (simp add: chain_data_def holds_data_def holds_chain_def)
        have "s3 \<in> later old2 w2 old3 w3 s3" by (simp add: later_def agree_on_def)
        then have "children_in g ?ps {s3} (holds_chain g (mem s) (mem s3)) w2 (Some nodes) w3"
          by (intro children_in_mono [OF ok(3) _ H]) simp
        moreover have "later old st old3 w3 s3 \<subseteq> later old st old2 w2 s2" by (rule later_first [OF ok(2)]) simp
        then have "s3 \<in> later old st old2 w2 s2" by (auto simp: later_def agree_on_def)
        then have "stable_segment g ?ps {s3} st fs w2" by (intro stable_segment_mono [OF seg]) simp
        moreover have "holds_chain g (mem s) (mem s3) fs cs" by (rule H [OF chain_data_extends [OF data ok(2)]])
        ultimately have tree: "tree_in_stream g ?ps {s3} (holds_chain g (mem s) (mem s3)) st cs nodes w3"
          unfolding tree_in_stream_def by blast
        have "agree_on X (mem s) (mem s3)"
          using i(4) extendsD(6) [OF a(2) i(3)] extendsD(6) [OF ok(2) extendsD(5) [OF a(2) i(3)]] agree_on_trans by blast
        then show ?thesis using run tree by blast
      qed
    qed
  qed
qed

text \<open>The sample tree, whose root and file are both moved: the file system is not full.\<close>

theorem read_fat_tree_keeps_tree_witness:
  "\<exists>stream s' w. read_fat_tree sample_globals sample_tree_state = Some (Inr (stream, s'))
     \<and> tree_in_stream sample_globals 4096 {s'} (holds_chain sample_globals sample_tree_memory (mem s')) stream [2] [sample_node] w
     \<and> agree_on sample_tree_bytes sample_tree_memory (mem s')"
proof -
  have g: "mi_cluster_size (meta_info sample_globals) = 4096" "mi_dentries_per_cluster (meta_info sample_globals) = 128"
    "bs_root_cluster_no (boot_sector sample_globals) = 2" "mi_data_start (meta_info sample_globals) = 610304"
    by (simp_all add: sample_globals_def sample_boot_sector_def)
  have m: "mem sample_tree_state = sample_tree_memory" by (simp add: sample_tree_state_def)
  have free: "\<not> cluster_free (alloc sample_tree_state) 0" "\<not> cluster_free (alloc sample_tree_state) 1"
    using sample_tree_alloc(3) by fastforce+
  have "file_chain sample_globals (mem sample_tree_state) (bs_root_cluster_no (boot_sector sample_globals)) [2]"
    using sample_tree_chains by (simp add: file_chain_def g m del: fat_chain.simps)
  moreover have "lists_children sample_globals (mem sample_tree_state) [2] [sample_node]"
    unfolding m by (rule sample_tree_lists)
  moreover have "all_chains (chain_within sample_globals sample_tree_bytes) sample_node"
    using sample_tree_within by (simp add: sample_node_def)
  ultimately have "read_fat_tree sample_globals sample_tree_state = Some (Inl Fs_Too_Small) \<or>
    (\<exists>stream s' w. read_fat_tree sample_globals sample_tree_state = Some (Inr (stream, s'))
      \<and> tree_in_stream sample_globals 4096 {s'} (holds_chain sample_globals sample_tree_memory (mem s')) stream [2] [sample_node] w
      \<and> agree_on sample_tree_bytes sample_tree_memory (mem s'))"
    using read_fat_tree_keeps_tree [of sample_globals sample_tree_state sample_tree_bytes "[2]" "[sample_node]"]
      sample_tree_alloc(1,2) free sample_tree_outside sample_tree_within(1) sample_tree_on_disk
    by (simp add: g m page_geometry_def)
  then show ?thesis using sample_tree_run by auto
qed

end
