(* ===== verification/Step_Invariants.thy ===== *)
theory Step_Invariants
  imports Tree_Builder Metadata_Reader
begin

section \<open>What every step of the conversion keeps\<close>

text \<open>
  The conversion reads the FAT tree and writes the ext4 tree with operations that change the
  memory, take clusters from the allocator, count blocks and inodes in the group descriptors and
  number the inodes, and nothing else. \<open>step_invariant\<close> is the contract of the operations that
  work on memory and allocator, \<open>ext4_invariant\<close> that of the operations on the ext4 state: a
  predicate of the state that the elementary changes keep is kept by every operation.
\<close>

definition yields :: "('a \<Rightarrow> bool) \<Rightarrow> 'a result \<Rightarrow> bool" where
  "yields P r \<longleftrightarrow> (\<forall>x. r = Inr x \<longrightarrow> P x)"

definition ensures :: "('a \<Rightarrow> bool) \<Rightarrow> 'a run \<Rightarrow> bool" where
  "ensures P r \<longleftrightarrow> (\<forall>x. r = Some (Inr x) \<longrightarrow> P x)"

named_theorems steps \<open>introduction rules that take an invariant through an operation\<close>

lemma yieldsD: "yields P r \<Longrightarrow> r = Inr x \<Longrightarrow> P x"
  by (simp add: yields_def)

lemma ensuresD: "ensures P r \<Longrightarrow> r = Some (Inr x) \<Longrightarrow> P x"
  by (simp add: ensures_def)

lemma yields_Inl [steps]: "yields P (Inl e)"
  by (simp add: yields_def)

lemma yields_Inr [steps]: "P x \<Longrightarrow> yields P (Inr x)"
  by (simp add: yields_def)

lemma yields_bind [steps]:
  "yields Q r \<Longrightarrow> (\<And>x. Q x \<Longrightarrow> yields P (f x)) \<Longrightarrow> yields P (bind_res r f)"
  by (auto simp: yields_def bind_res_eq_Inr)

lemma yields_bind_eq:
  "yields Q r \<Longrightarrow> (\<And>x. r = Inr x \<Longrightarrow> Q x \<Longrightarrow> yields P (f x)) \<Longrightarrow> yields P (bind_res r f)"
  by (auto simp: yields_def bind_res_eq_Inr)

lemma ensures_Some [steps]: "yields P r \<Longrightarrow> ensures P (Some r)"
  by (simp add: ensures_def yields_def)

lemma ensures_None [steps]: "ensures P None"
  by (simp add: ensures_def)

lemma ensures_bind [steps]:
  "ensures Q r \<Longrightarrow> (\<And>x. Q x \<Longrightarrow> ensures P (f x)) \<Longrightarrow> ensures P (bind_run r f)"
  by (auto simp: ensures_def bind_run_eq_Inr)

lemma yields_if [steps]: "(b \<Longrightarrow> yields P r) \<Longrightarrow> (\<not> b \<Longrightarrow> yields P q) \<Longrightarrow> yields P (if b then r else q)"
  by simp

lemma ensures_if [steps]: "(b \<Longrightarrow> ensures P r) \<Longrightarrow> (\<not> b \<Longrightarrow> ensures P q) \<Longrightarrow> ensures P (if b then r else q)"
  by simp

lemma ensures_Some_iff: "ensures P (Some r) \<longleftrightarrow> yields P r"
  by (simp add: ensures_def yields_def)

lemma ensuresI: "(\<And>y. r = Some y \<Longrightarrow> yields P y) \<Longrightarrow> ensures P r"
  by (auto simp: ensures_def yields_def)

lemma ensures_yields: "(\<And>y. r = Some y \<Longrightarrow> I \<Longrightarrow> yields P y) \<Longrightarrow> I \<Longrightarrow> ensures P r"
  by (auto simp: ensures_def yields_def)

lemma yields_True [simp]: "yields (\<lambda>_. True) r"
  by (simp add: yields_def)

lemma ensures_True [simp]: "ensures (\<lambda>_. True) r"
  by (simp add: ensures_def)

subsection \<open>Memory and allocator\<close>

locale step_invariant =
  fixes I :: "'a io_state_scheme \<Rightarrow> bool"
  assumes memory_step: "I s \<Longrightarrow> I (s\<lparr>mem := m\<rparr>)"
    and allocation_step: "I s \<Longrightarrow> allocate_extent n (alloc s) = Inr (e, a) \<Longrightarrow> I (s\<lparr>alloc := a\<rparr>)"

context step_invariant
begin

lemmas bind_step = yields_bind [where Q = "\<lambda>r. I (snd r)"] ensures_bind [where Q = "\<lambda>r. I (snd r)"]
lemmas elementary_steps = yields_Inl yields_Inr yields_if ensures_if ensures_Some ensures_None memory_step

lemma allocate_extent_step:
  "I s \<Longrightarrow> yields (\<lambda>r. I (s\<lparr>alloc := snd r\<rparr>)) (allocate_extent n (alloc s))"
  by (auto simp: yields_def intro: allocation_step)

lemma allocatePage_step: "I s \<Longrightarrow> yields (\<lambda>r. I (snd r)) (allocatePage g s)"
  unfolding allocatePage_def Let_def
  by (rule yields_bind, erule allocate_extent_step) (simp add: yields_Inr)

lemma iterate_advance_step: "I s \<Longrightarrow> yields (\<lambda>r. I (snd (snd r))) (iterate_advance g ps ins len st s)"
  unfolding iterate_advance_def split_beta Let_def
  by (intro elementary_steps bind_step allocatePage_step; simp?; intro memory_step)

lemma iterateStreamArchiver_step:
  "I s \<Longrightarrow> yields (\<lambda>r. I (snd (snd r))) (iterateStreamArchiver g ps ins len count st s)"
  unfolding iterateStreamArchiver_def split_beta Let_def
  by (auto intro!: elementary_steps yields_bind [where Q = "\<lambda>r. I (snd (snd r))"] iterate_advance_step)

lemma cutStreamArchiver_step: "I s \<Longrightarrow> yields (\<lambda>r. I (snd r)) (cutStreamArchiver g ps st s)"
  unfolding cutStreamArchiver_def split_beta
  by (rule yields_bind [where Q = "\<lambda>r. I (snd r)"])
     (auto intro!: elementary_steps allocatePage_step iterateStreamArchiver_step bind_step(1)
       intro: yields_bind)

lemma getNext_step: "I s \<Longrightarrow> yields (\<lambda>r. I (snd (snd r))) (getNext g ps len st s)"
  unfolding getNext_def by (rule iterateStreamArchiver_step)

text \<open>The operations of the stream, for the results that hold the state at this place.\<close>

lemma reserve_pointers_step:
  "I s \<Longrightarrow> yields (\<lambda>r. I (snd (snd r))) (reserve_pointers g ps n w s)"
proof (induction n arbitrary: w s)
  case (Suc n)
  show ?case unfolding reserve_pointers.simps split_beta
    by (rule yields_bind, rule iterateStreamArchiver_step [OF Suc.prems], rule yields_bind, erule Suc.IH)
       (simp add: yields_Inr)
qed (simp add: yields_Inr)

lemma reserve_name_step: "I s \<Longrightarrow> yields (\<lambda>r. I (snd (snd r))) (reserve_name g ps n w s)"
  unfolding reserve_name_def split_beta
  by (rule yields_bind, erule reserve_pointers_step, rule yields_bind, erule cutStreamArchiver_step)
     (simp add: yields_Inr)

lemma reserve_one_step:
  "I s \<Longrightarrow> yields (\<lambda>r. I (snd (snd r))) (reserve_dentry g ps w s)"
  "I s \<Longrightarrow> yields (\<lambda>r. I (snd (snd r))) (reserve_children_count g ps w s)"
  unfolding reserve_dentry_def reserve_children_count_def split_beta
  by (rule yields_bind, erule iterateStreamArchiver_step, rule yields_bind, erule cutStreamArchiver_step,
      simp add: yields_Inr)+

lemma write_extent_step: "I s \<Longrightarrow> yields (\<lambda>r. I (snd r)) (write_extent g ps e w s)"
  unfolding write_extent_def reserve_extent_def split_beta
  by (rule yields_bind, erule iterateStreamArchiver_step) (simp add: yields_Inr memory_step)

lemma resettle_from_step: "I s \<Longrightarrow> ensures (\<lambda>r. I (snd r)) (resettle_from g ps e i w s)"
proof (rule ensures_yields)
  fix y assume "resettle_from g ps e i w s = Some y" and "I s"
  then show "yields (\<lambda>r. I (snd r)) y"
  proof (induction rule: resettle_from.raw_induct [rotated, consumes 1, case_names step])
    case (step f g ps e i w s y)
    have rec: "I s' \<Longrightarrow> ensures (\<lambda>r. I (snd r)) (f g' ps' e' i' w' s')" for g' ps' e' i' w' s'
      by (rule ensuresI, rule step.IH)
    show ?case
      unfolding ensures_Some_iff [symmetric] step.hyps [symmetric] Let_def
      by (intro ensures_if, rule ensures_bind, rule ensures_Some, rule allocate_extent_step [OF step.prems],
          rule ensures_bind, rule ensures_Some, erule write_extent_step)
         (auto intro!: rec elementary_steps step.prems)
  qed
qed

text \<open>Steps whose result does not hold the state.\<close>

lemmas ensures_any = ensures_bind [where Q = "\<lambda>_. True", OF ensures_True]
  yields_bind [where Q = "\<lambda>_. True", OF yields_True]

lemma write_fragments_step: "I s \<Longrightarrow> ensures (\<lambda>r. I (snd r)) (write_fragments g ps e vars w s)"
proof (rule ensures_yields)
  fix y assume "write_fragments g ps e vars w s = Some y" and "I s"
  then show "yields (\<lambda>r. I (snd r)) y"
  proof (induction rule: write_fragments.raw_induct [rotated, consumes 1, case_names step])
    case (step f g ps e vars w s y)
    have rec: "I s' \<Longrightarrow> ensures (\<lambda>r. I (snd r)) (f g' ps' e' vars' w' s')" for g' ps' e' vars' w' s'
      by (rule ensuresI, rule step.IH)
    show ?case
      unfolding ensures_Some_iff [symmetric] step.hyps [symmetric] resettle_extent_def
      by (rule ensures_if, rule ensures_any, rule bind_step(2))
         (auto intro!: elementary_steps resettle_from_step write_extent_step rec step.prems)
  qed
qed

lemma find_blocked_extent_fragments_step:
  "I s \<Longrightarrow> ensures (\<lambda>r. I (snd r)) (find_blocked_extent_fragments g ps e w s)"
  unfolding find_blocked_extent_fragments_def by (rule ensures_any, rule write_fragments_step)

lemma aggregate_loop_step: "I s \<Longrightarrow> ensures (\<lambda>r. I (snd r)) (aggregate_loop g ps e n w s)"
proof (rule ensures_yields)
  fix y assume "aggregate_loop g ps e n w s = Some y" and "I s"
  then show "yields (\<lambda>r. I (snd r)) y"
  proof (induction rule: aggregate_loop.raw_induct [rotated, consumes 1, case_names step])
    case (step f g ps e n w s y)
    have rec: "I s' \<Longrightarrow> ensures (\<lambda>r. I (snd r)) (f g' ps' e' n' w' s')" for g' ps' e' n' w' s'
      by (rule ensuresI, rule step.IH)
    show ?case
      unfolding ensures_Some_iff [symmetric] step.hyps [symmetric]
      by (auto intro!: bind_step(2) elementary_steps find_blocked_extent_fragments_step rec step.prems split: option.split)
  qed
qed

lemma aggregate_extents_step: "I s \<Longrightarrow> ensures (\<lambda>r. I (snd r)) (aggregate_extents g ps c w s)"
  unfolding aggregate_extents_def
  by (auto intro!: bind_step(2) elementary_steps aggregate_loop_step cutStreamArchiver_step)

lemma read_lfn_step: "I s \<Longrightarrow> ensures (\<lambda>r. I (snd (snd r))) (read_lfn g ps name n entry state s)"
  by (induction n arbitrary: entry state s)
     (auto simp: Let_def split_beta intro!: ensures_any elementary_steps)

lemma traverse_start_step: "I s \<Longrightarrow> ensures (\<lambda>r. I (snd (snd (snd (snd r))))) (traverse_start g ps d w s)"
  unfolding traverse_start_def split_beta Let_def
  by (rule ensures_bind, rule ensures_Some, erule reserve_one_step(2))
     (auto intro!: ensures_any elementary_steps)

lemma read_dentry_step: "I s \<Longrightarrow> ensures (\<lambda>r. I (snd (snd (snd r)))) (read_dentry g ps c state w s)"
  unfolding read_dentry_def split_beta Let_def
  by (rule ensures_bind, rule ensures_Some, erule reserve_one_step(1),
      rule ensures_bind [where Q = "\<lambda>r. I (snd (snd (snd r)))"], rule ensures_if;
      (rule ensures_bind, rule ensures_Some, erule reserve_name_step)?)
     (auto intro!: elementary_steps ensures_bind [OF read_lfn_step])

lemma traverse_loop_step: "I s \<Longrightarrow> ensures (\<lambda>r. I (snd r)) (traverse_loop g ps p c state w s)"
proof (rule ensures_yields)
  fix y assume "traverse_loop g ps p c state w s = Some y" and "I s"
  then show "yields (\<lambda>r. I (snd r)) y"
  proof (induction rule: traverse_loop.raw_induct [rotated, consumes 1, case_names step])
    case (step f g ps p c state w s y)
    have rec: "I s' \<Longrightarrow> ensures (\<lambda>r. I (snd r)) (f g' ps' p' c' state' w' s')" for g' ps' p' c' state' w' s'
      by (rule ensuresI, rule step.IH)
    show ?case
      unfolding ensures_Some_iff [symmetric] step.hyps [symmetric] Let_def
      by (rule ensures_if, simp add: ensures_Some yields_Inr step.prems,
          rule ensures_bind [OF read_dentry_step [OF step.prems]], rule ensures_bind, erule aggregate_extents_step,
          rule bind_step(2), rule ensures_if, erule ensures_bind [OF traverse_start_step], erule rec,
          rule ensures_Some, erule yields_bind [OF reserve_one_step(2)], simp add: yields_Inr memory_step,
          rule ensures_any, rule rec, erule memory_step)
  qed
qed

lemma traverse_step: "I s \<Longrightarrow> ensures (\<lambda>r. I (snd r)) (traverse g ps d w s)"
  unfolding traverse_def by (rule ensures_bind, erule traverse_start_step, erule traverse_loop_step)

end

subsection \<open>The ext4 state\<close>

text \<open>Where a group descriptor says that the bitmaps and the inode table are.\<close>

definition group_places :: "ext4_group_desc \<Rightarrow> u64 \<times> u64 \<times> u64" where
  "group_places d = (block_bitmap_block d, inode_bitmap_block d, inode_table_block d)"

lemma group_places_counts [simp]:
  "group_places (count_inode d) = group_places d"
  "group_places (count_dir inode d) = group_places d"
  "group_places (count_blocks n d) = group_places d"
  by (simp_all add: group_places_def count_inode_def count_dir_def count_blocks_def block_bitmap_block_def
      inode_bitmap_block_def inode_table_block_def split_beta)

lemma group_places_update:
  "group_desc s n = Inr d \<Longrightarrow> group_places d' = group_places d
    \<Longrightarrow> map group_places ((fs_group_descs s)[unat n := d']) = map group_places (fs_group_descs s)"
  by (rule nth_equalityI) (auto simp: group_desc_def nth_list_update split: if_splits)

locale ext4_invariant = step_invariant I for I :: "ext4_state \<Rightarrow> bool" +
  assumes number_step: "I s \<Longrightarrow> I (s\<lparr>fs_first_free_inode_no := n\<rparr>)"
    and counts_step: "I s \<Longrightarrow> map group_places ds = map group_places (fs_group_descs s)
      \<Longrightarrow> I (s\<lparr>mem := m, fs_group_descs := ds\<rparr>)"
    and totals_step: "I s \<Longrightarrow> I (s\<lparr>fs_sb := add_group_counts (fs_sb s) d\<rparr>)"

context ext4_invariant
begin

lemma add_inode_step:
  "I s \<Longrightarrow> yields I (add_inode g inode k s)"
  "I s \<Longrightarrow> yields I (add_reserved_inode g inode k s)"
  by (auto simp: yields_def add_inode_def add_reserved_inode_def bind_res_eq_Inr Let_def
      intro!: counts_step group_places_update split: if_splits)

lemma add_extent_to_block_bitmap_step: "I s \<Longrightarrow> yields I (add_extent_to_block_bitmap g b e s)"
  by (auto simp: yields_def add_extent_to_block_bitmap_def bind_res_eq_Inr Let_def
      intro!: counts_step group_places_update split: if_splits)

lemma build_inode_step: "I s \<Longrightarrow> yields (\<lambda>r. I (snd r)) (build_inode g env d s)"
  unfolding build_inode_def save_inode_def
  by (rule yields_bind, erule add_inode_step) (simp add: yields_Inr number_step)

lemma reserved_inode_step:
  "I s \<Longrightarrow> yields I (build_root_inode g env s)"
  "I s \<Longrightarrow> yields I (build_lost_found_inode g env s)"
  unfolding build_root_inode_def build_lost_found_inode_def by (rule add_inode_step, assumption)+

lemma inode_field_step:
  "I s \<Longrightarrow> yields I (set_size g k n s)"
  "I s \<Longrightarrow> yields I (incr_links_count g k s)"
  by (auto simp: yields_def set_size_def incr_links_count_def bind_res_eq_Inr split_beta Let_def
      intro: memory_step)

lemma count_extent_step: "I s \<Longrightarrow> yields I (count_extent g e a s)"
  unfolding count_extent_def Let_def split_beta by (rule add_extent_to_block_bitmap_step, erule memory_step)

lemma register_index_extent_step: "I s \<Longrightarrow> yields I (register_index_extent g e k s)"
  unfolding register_index_extent_def by (rule ensures_any(2), rule count_extent_step)

lemma allocate_step: "I s \<Longrightarrow> yields (\<lambda>r. I (snd r)) (allocate n s)"
  unfolding allocate_def by (rule yields_bind, erule allocate_extent_step) (simp add: yields_Inr)

lemma new_idx_loop_step: "I s \<Longrightarrow> yields (\<lambda>r. I (snd r)) (new_idx_loop g depth i e idx k s)"
proof (induction g depth i e idx k s rule: new_idx_loop.induct)
  case (1 g depth i e idx k s)
  show ?case
    unfolding new_idx_loop.simps [of g depth i] split_beta Let_def
    by (rule yields_if, rule yields_bind_eq [OF allocate_step [OF "1.prems"]], rule yields_bind_eq,
        erule register_index_extent_step, rule "1.IH" [OF _ _ surjective_pairing])
      (auto intro!: memory_step simp: yields_Inr "1.prems")
qed

lemma append_to_new_idx_path_step: "I s \<Longrightarrow> yields I (append_to_new_idx_path g depth e idx k s)"
  unfolding append_to_new_idx_path_def split_beta
  by (rule yields_bind, erule new_idx_loop_step) (simp add: yields_Inr memory_step)

lemma append_to_extent_tree_step: "I s \<Longrightarrow> ensures (\<lambda>r. I (snd r)) (append_to_extent_tree g e h k s)"
proof (rule ensures_yields)
  fix y assume "append_to_extent_tree g e h k s = Some y" and "I s"
  then show "yields (\<lambda>r. I (snd r)) y"
  proof (induction rule: append_to_extent_tree.raw_induct [rotated, consumes 1, case_names step])
    case (step f g e h k s y)
    have rec: "I s' \<Longrightarrow> ensures (\<lambda>r. I (snd r)) (f g' e' h' k' s')" for g' e' h' k' s'
      by (rule ensuresI, rule step.IH)
    show ?case
      unfolding ensures_Some_iff [symmetric] step.hyps [symmetric] Let_def split_beta
      by (rule ensures_if, simp add: ensures_Some yields_Inr memory_step step.prems,
          rule ensures_bind [OF rec [OF step.prems]])
        (auto intro!: elementary_steps yields_bind [OF append_to_new_idx_path_step])
  qed
qed

lemma make_tree_deeper_step: "I s \<Longrightarrow> yields I (make_tree_deeper g h k s)"
  unfolding make_tree_deeper_def split_beta Let_def
  by (rule yields_bind, erule allocate_step, rule yields_bind, erule register_index_extent_step)
     (simp add: yields_Inr memory_step)

lemma add_extent_step: "I s \<Longrightarrow> ensures I (add_extent g e k a s)"
  unfolding add_extent_def Let_def
  by (rule ensures_bind, erule append_to_extent_tree_step)
     (auto intro!: elementary_steps ensures_bind [OF ensures_Some [OF make_tree_deeper_step]]
        ensures_bind [OF append_to_extent_tree_step])

lemma register_extent_step: "I s \<Longrightarrow> ensures I (register_extent g e k b s)"
  unfolding register_extent_def Let_def
  by (rule ensures_any(1), rule ensures_bind [where Q = I])
     (auto intro!: add_extent_step elementary_steps count_extent_step)

lemma set_extents_loop_step: "I s \<Longrightarrow> ensures (\<lambda>r. I (snd r)) (set_extents_loop g ps k e r s)"
proof (rule ensures_yields)
  fix y assume "set_extents_loop g ps k e r s = Some y" and "I s"
  then show "yields (\<lambda>r. I (snd r)) y"
  proof (induction rule: set_extents_loop.raw_induct [rotated, consumes 1, case_names step])
    case (step f g ps k e r s y)
    have rec: "I s' \<Longrightarrow> ensures (\<lambda>r. I (snd r)) (f g' ps' k' e' r' s')" for g' ps' k' e' r' s'
      by (rule ensuresI, rule step.IH)
    show ?case
      unfolding ensures_Some_iff [symmetric] step.hyps [symmetric]
      by (rule ensures_if, simp add: ensures_Some yields_Inr step.prems,
          rule ensures_bind [OF register_extent_step [OF step.prems]], rule ensures_bind, rule ensures_Some,
          erule getNext_step, erule rec)
  qed
qed

lemma set_extents_step: "I s \<Longrightarrow> ensures (\<lambda>r. I (snd r)) (set_extents g ps k d r s)"
  unfolding set_extents_def
  by (rule ensures_bind, rule ensures_Some, erule inode_field_step(1), rule ensures_bind, rule ensures_Some,
      erule getNext_step, erule set_extents_loop_step)

lemma skip_elements_step: "I s \<Longrightarrow> ensures (\<lambda>r. I (snd r)) (skip_elements g ps len r s)"
proof (rule ensures_yields)
  fix y assume "skip_elements g ps len r s = Some y" and "I s"
  then show "yields (\<lambda>r. I (snd r)) y"
  proof (induction rule: skip_elements.raw_induct [rotated, consumes 1, case_names step])
    case (step f g ps len r s y)
    have rec: "I s' \<Longrightarrow> ensures (\<lambda>r. I (snd r)) (f g' ps' len' r' s')" for g' ps' len' r' s'
      by (rule ensuresI, rule step.IH)
    show ?case
      unfolding ensures_Some_iff [symmetric] step.hyps [symmetric]
      by (rule ensures_bind, rule ensures_Some, rule getNext_step [OF step.prems], rule ensures_if,
          simp add: ensures_Some yields_Inr, erule rec)
  qed
qed

lemma next_dir_block_step: "I s \<Longrightarrow> ensures (\<lambda>r. I (snd (snd r))) (next_dir_block g ps it s)"
  unfolding next_dir_block_def
  by (rule ensures_any(1), rule ensures_if, simp add: ensures_Some yields_Inr, rule ensures_bind,
      rule ensures_Some, erule allocate_step, simp add: ensures_Some yields_Inr)

lemma start_dir_step: "I s \<Longrightarrow> ensures (\<lambda>r. I (snd (snd r))) (start_dir g junk ps k p r s)"
  unfolding start_dir_def skip_dir_extents_def Let_def split_beta
  by (rule ensures_any(1), rule ensures_bind, erule next_dir_block_step, rule ensures_bind, erule skip_elements_step,
      rule ensures_bind, rule ensures_Some, erule getNext_step, rule ensures_if, simp add: ensures_Some yields_Inl,
      rule ensures_bind, rule ensures_Some, erule getNext_step, simp add: ensures_Some yields_Inr memory_step)

lemma next_block_for_step: "I s \<Longrightarrow> ensures (\<lambda>r. I (snd r)) (next_block_for g ps k e v s)"
  unfolding next_block_for_def register_dir_extent_def Let_def
  by (rule ensures_if, rule ensures_bind, rule register_extent_step, erule memory_step, rule ensures_bind,
      erule next_dir_block_step) (simp_all add: ensures_Some yields_Inr)

lemma place_entry_step: "I s \<Longrightarrow> ensures (\<lambda>r. I (snd r)) (place_entry g ps k e v s)"
  unfolding place_entry_def put_entry_def Let_def
  by (rule ensures_bind, erule next_block_for_step) (simp add: ensures_Some yields_Inr memory_step)

lemma place_child_step:
  "I s \<Longrightarrow> ensures (\<lambda>r. I (snd (snd (snd (snd r))))) (place_child g env junk ps k v r s)"
  unfolding place_child_def
  by (rule ensures_bind, rule ensures_Some, erule getNext_step, rule ensures_bind, rule ensures_Some,
      erule getNext_step, rule ensures_if, simp add: ensures_Some yields_Inl, rule ensures_bind, rule ensures_Some,
      erule build_inode_step, rule ensures_any(1), rule ensures_bind, erule place_entry_step)
     (simp add: ensures_Some yields_Inr)

lemma finish_dir_step: "I s \<Longrightarrow> ensures I (finish_dir g k v s)"
  unfolding finish_dir_def register_dir_extent_def Let_def
  by (rule ensures_bind, rule register_extent_step, simp add: memory_step, rule ensures_Some,
      erule inode_field_step)

lemma build_children_step:
  "I s \<Longrightarrow> ensures (\<lambda>r. I (snd r)) (build_children g env junk ps k i v r s)"
proof (rule ensures_yields)
  fix y assume "build_children g env junk ps k i v r s = Some y" and "I s"
  then show "yields (\<lambda>r. I (snd r)) y"
  proof (induction rule: build_children.raw_induct [rotated, consumes 1, case_names step])
    case (step f g env junk ps k i v r s y)
    have rec: "I s' \<Longrightarrow> ensures (\<lambda>r. I (snd r)) (f g' env' junk' ps' k' i' v' r' s')"
      for g' env' junk' ps' k' i' v' r' s'
      by (rule ensuresI, rule step.IH)
    show ?case
      unfolding ensures_Some_iff [symmetric] step.hyps [symmetric] skip_child_count_def Let_def
      by (rule ensures_if, rule ensures_bind [OF place_child_step [OF step.prems]],
          rule bind_step(2), rule ensures_if, rule ensures_bind, erule set_extents_step, erule skip_elements_step,
          rule ensures_bind, rule ensures_Some, erule inode_field_step, rule ensures_bind, erule start_dir_step,
          erule rec, erule rec, rule ensures_bind [OF finish_dir_step [OF step.prems]],
          simp add: ensures_Some yields_Inr)
  qed
qed

lemma build_ext4_metadata_tree_step:
  "I s \<Longrightarrow> ensures (\<lambda>r. I (snd r)) (build_ext4_metadata_tree g env junk ps k p r s)"
  unfolding build_ext4_metadata_tree_def by (rule ensures_bind, erule start_dir_step, erule build_children_step)

lemma build_lost_found_step: "I s \<Longrightarrow> ensures I (build_lost_found g env junk s)"
  unfolding build_lost_found_def lost_found_entry_def lost_found_dots_def Let_def split_beta
  by (rule ensures_bind, rule ensures_Some, erule allocate_step, rule ensures_any(1), rule ensures_bind,
      erule register_extent_step, rule ensures_bind, rule ensures_Some, erule reserved_inode_step(2),
      rule ensures_any(1), rule ensures_bind, rule ensures_Some, rule inode_field_step(1), erule memory_step,
      rule ensures_bind, rule ensures_Some, erule allocate_step, rule ensures_bind, rule register_extent_step,
      erule memory_step, rule ensures_Some, erule inode_field_step)

lemma finalize_loop_step: "I s \<Longrightarrow> ensures I (finalize_loop n i s)"
proof (rule ensures_yields)
  fix y assume "finalize_loop n i s = Some y" and "I s"
  then show "yields I y"
  proof (induction rule: finalize_loop.raw_induct [rotated, consumes 1, case_names step])
    case (step f n i s y)
    have rec: "I s' \<Longrightarrow> ensures I (f n' i' s')" for n' i' s'
      by (rule ensuresI, rule step.IH)
    show ?case
      unfolding ensures_Some_iff [symmetric] step.hyps [symmetric]
      by (rule ensures_if, rule ensures_any(1), rule rec, rule totals_step [OF step.prems],
          simp add: ensures_Some yields_Inr step.prems)
  qed
qed

lemma write_sb_copy_step: "I s \<Longrightarrow> yields I (write_sb_copy g n s)"
  by (simp add: write_sb_copy_def Let_def yields_Inl yields_Inr memory_step)

lemma finalize_step: "I s \<Longrightarrow> ensures I (finalize_block_groups_on_disk g s)"
  unfolding finalize_block_groups_on_disk_def
  by (rule ensures_bind, erule finalize_loop_step, rule ensures_bind, rule ensures_Some, erule write_sb_copy_step,
      rule ensures_bind, rule ensures_Some, erule write_sb_copy_step, rule ensures_Some, erule write_sb_copy_step)

end

end
