(* ===== verification/Finalization.thy ===== *)
theory Finalization
  imports Extent_Trees
begin

section \<open>finalize_block_groups_on_disk\<close>

text \<open>
  The last stage of the conversion: the totals of free blocks and inodes, and the copies of the
  superblock and of the group descriptors in the first and in the two backup block groups, as the
  kernel reads them back.
\<close>

subsection \<open>Reading a superblock\<close>

definition load_super_block :: "memory \<Rightarrow> nat \<Rightarrow> ext4_super_block" where
  "load_super_block m a = \<lparr>
     s_inodes_count = load_u32 m a, s_blocks_count_lo = load_u32 m (a + 4),
     s_free_blocks_count_lo = load_u32 m (a + 12), s_free_inodes_count = load_u32 m (a + 16),
     s_first_data_block = load_u32 m (a + 20), s_log_block_size = load_u32 m (a + 24),
     s_log_cluster_size = load_u32 m (a + 28), s_blocks_per_group = load_u32 m (a + 32),
     s_clusters_per_group = load_u32 m (a + 36), s_inodes_per_group = load_u32 m (a + 40),
     s_max_mnt_count = load_u16 m (a + 54), s_magic = load_u16 m (a + 56), s_state = load_u16 m (a + 58),
     s_errors = load_u16 m (a + 60), s_rev_level = load_u32 m (a + 76), s_first_ino = load_u32 m (a + 84),
     s_inode_size = load_u16 m (a + 88), s_block_group_nr = load_u16 m (a + 90),
     s_feature_compat = load_u32 m (a + 92), s_feature_incompat = load_u32 m (a + 96),
     s_uuid = load_bytes m (a + 104) 16, s_volume_name = load_bytes m (a + 120) 16,
     s_reserved_gdt_blocks = load_u16 m (a + 206), s_desc_size = load_u16 m (a + 254),
     s_mkfs_time = load_u32 m (a + 264), s_blocks_count_hi = load_u32 m (a + 336),
     s_free_blocks_count_hi = load_u32 m (a + 344), s_backup_bg0 = load_u32 m (a + 588),
     s_backup_bg1 = load_u32 m (a + 592)\<rparr>"

lemma loads_store_bytes:
  "b + 2 \<le> a \<or> a + length bs \<le> b \<Longrightarrow> load_u16 (store_bytes m a bs) b = load_u16 m b"
  "b + 4 \<le> a \<or> a + length bs \<le> b \<Longrightarrow> load_u32 (store_bytes m a bs) b = load_u32 m b"
  "b + n \<le> a \<or> a + length bs \<le> b \<Longrightarrow> load_bytes (store_bytes m a bs) b n = load_bytes m b n"
  "length bs = n \<Longrightarrow> load_bytes (store_bytes m a bs) a n = bs"
  by (rule u16.load_cong, rule store_bytes_frame, force)
    (rule u32.load_cong, rule store_bytes_frame, force,
     rule load_bytes_cong, rule store_bytes_frame, force, auto simp: load_store_bytes)

lemma load_bytes_stores:
  "b + n \<le> a \<or> a + 2 \<le> b \<Longrightarrow> load_bytes (store_u16 m a v) b n = load_bytes m b n"
  "b + n \<le> a \<or> a + 4 \<le> b \<Longrightarrow> load_bytes (store_u32 m a w) b n = load_bytes m b n"
  by (rule load_bytes_cong, rule u16.store_frame, force) (rule load_bytes_cong, rule u32.store_frame, force)

lemma load_store_super_block:
  assumes "length (s_uuid b) = 16" and "length (s_volume_name b) = 16"
  shows "load_super_block (store_super_block m a b) a = b"
  using assms
  by (simp add: load_super_block_def store_super_block_def Let_def codec_simps loads_store_bytes load_bytes_stores)

lemma store_super_block_frame:
  assumes "length (s_uuid b) = 16" and "length (s_volume_name b) = 16" and "x \<notin> {a..<a + 1024}"
  shows "store_super_block m a b x = m x"
  using assms
  by (auto simp: store_super_block_def Let_def u32.store_frame u16.store_frame store_bytes_frame mem_fill_frame)

lemma load_super_block_cong:
  assumes "\<And>x. x \<in> {a..<a + 1024} \<Longrightarrow> m x = m' x"
  shows "load_super_block m a = load_super_block m' a"
proof -
  have "load_u32 m (a + k) = load_u32 m' (a + k)" if "k \<le> 1020" for k
    by (rule u32.load_cong, rule assms) (use that in auto)
  moreover have "load_u16 m (a + k) = load_u16 m' (a + k)" if "k \<le> 1020" for k
    by (rule u16.load_cong, rule assms) (use that in auto)
  moreover have "load_bytes m (a + k) 16 = load_bytes m' (a + k) 16" if "k \<le> 1000" for k
    by (rule load_bytes_cong, rule assms) (use that in auto)
  moreover have "load_u32 m a = load_u32 m' a" by (rule u32.load_cong, rule assms) auto
  ultimately show ?thesis by (simp add: load_super_block_def)
qed

subsection \<open>The totals\<close>

definition add_all_counts :: "ext4_super_block \<Rightarrow> ext4_group_desc list \<Rightarrow> ext4_super_block" where
  "add_all_counts sb ds = foldl add_group_counts sb ds"

lemma finalize_loop_spec:
  "k \<le> length (fs_group_descs s) \<Longrightarrow> unat n = length (fs_group_descs s) \<Longrightarrow> unat n < 65536
    \<Longrightarrow> finalize_loop n (word_of_nat k) s
      = Some (Inr (s\<lparr>fs_sb := add_all_counts (fs_sb s) (drop k (fs_group_descs s))\<rparr>))"
proof (induction "length (fs_group_descs s) - k" arbitrary: k s)
  case 0
  then have k: "k = length (fs_group_descs s)" by simp
  then have "k < 2 ^ LENGTH(16)" using "0.prems" by simp
  then have "unat (word_of_nat k :: u16) = k" by (simp only: unat_of_nat mod_less)
  then show ?case using k "0.prems" by (subst finalize_loop.simps) (simp add: word_less_nat_alt add_all_counts_def)
next
  case (Suc r)
  let ?ds = "fs_group_descs s" and ?w = "word_of_nat k :: u16"
  have k: "k < length ?ds" using Suc.hyps(2) by simp
  then have "k < 2 ^ LENGTH(16)" using Suc.prems by simp
  then have w: "unat ?w = k" by (simp only: unat_of_nat mod_less)
  have "(ucast ?w :: u32) < n" using k w Suc.prems(2) by (simp add: word_less_nat_alt)
  moreover have "group_desc s (ucast ?w) = Inr (?ds ! k)" using k w by (simp add: group_desc_def)
  moreover have "?w + 1 = word_of_nat (Suc k)" by simp
  moreover have "drop k ?ds = ?ds ! k # drop (Suc k) ?ds" using k by (rule Cons_nth_drop_Suc [symmetric])
  ultimately show ?case
    using Suc.hyps(1) [of "s\<lparr>fs_sb := add_group_counts (fs_sb s) (?ds ! k)\<rparr>" "Suc k"] Suc.hyps(2) Suc.prems k
    by (subst finalize_loop.simps) (simp add: add_all_counts_def add.commute [of "word_of_nat k :: u16" 1])
qed

text \<open>All but the totals stays.\<close>

lemma add_group_counts_keeps [simp]:
  "s_first_data_block (add_group_counts sb d) = s_first_data_block sb"
  "s_log_block_size (add_group_counts sb d) = s_log_block_size sb"
  "s_blocks_per_group (add_group_counts sb d) = s_blocks_per_group sb"
  "s_inodes_per_group (add_group_counts sb d) = s_inodes_per_group sb"
  "s_inode_size (add_group_counts sb d) = s_inode_size sb"
  "s_desc_size (add_group_counts sb d) = s_desc_size sb"
  "s_reserved_gdt_blocks (add_group_counts sb d) = s_reserved_gdt_blocks sb"
  "s_blocks_count_lo (add_group_counts sb d) = s_blocks_count_lo sb"
  "s_blocks_count_hi (add_group_counts sb d) = s_blocks_count_hi sb"
  "s_backup_bg0 (add_group_counts sb d) = s_backup_bg0 sb"
  "s_backup_bg1 (add_group_counts sb d) = s_backup_bg1 sb"
  "s_uuid (add_group_counts sb d) = s_uuid sb"
  "s_volume_name (add_group_counts sb d) = s_volume_name sb"
  by (simp_all add: add_group_counts_def Let_def split_beta)

lemma add_all_counts_simps [simp]:
  "add_all_counts sb [] = sb"
  "add_all_counts sb (d # ds) = add_all_counts (add_group_counts sb d) ds"
  by (simp_all add: add_all_counts_def)

lemma add_all_counts_keeps [simp]:
  "s_first_data_block (add_all_counts sb ds) = s_first_data_block sb"
  "s_log_block_size (add_all_counts sb ds) = s_log_block_size sb"
  "s_blocks_per_group (add_all_counts sb ds) = s_blocks_per_group sb"
  "s_inodes_per_group (add_all_counts sb ds) = s_inodes_per_group sb"
  "s_inode_size (add_all_counts sb ds) = s_inode_size sb"
  "s_desc_size (add_all_counts sb ds) = s_desc_size sb"
  "s_reserved_gdt_blocks (add_all_counts sb ds) = s_reserved_gdt_blocks sb"
  "s_blocks_count_lo (add_all_counts sb ds) = s_blocks_count_lo sb"
  "s_blocks_count_hi (add_all_counts sb ds) = s_blocks_count_hi sb"
  "s_backup_bg0 (add_all_counts sb ds) = s_backup_bg0 sb"
  "s_backup_bg1 (add_all_counts sb ds) = s_backup_bg1 sb"
  "s_uuid (add_all_counts sb ds) = s_uuid sb"
  "s_volume_name (add_all_counts sb ds) = s_volume_name sb"
  by (induction ds arbitrary: sb) simp_all

text \<open>The layout is a function of the kept fields.\<close>

lemma add_all_counts_layout [simp]:
  "block_size (add_all_counts sb ds) = block_size sb"
  "block_count (add_all_counts sb ds) = block_count sb"
  "block_group_count (add_all_counts sb ds) = block_group_count sb"
  "gdt_block_count (add_all_counts sb ds) = gdt_block_count sb"
  "inode_table_blocks (add_all_counts sb ds) = inode_table_blocks sb"
  "block_group_has_sb_copy (add_all_counts sb ds) k = block_group_has_sb_copy sb k"
  "block_group_start (add_all_counts sb ds) k = block_group_start sb k"
  "block_group_block_count (add_all_counts sb ds) k = block_group_block_count sb k"
  "block_group_overhead (add_all_counts sb ds) k = block_group_overhead sb k"
  "block_start g (add_all_counts sb ds) = block_start g sb"
  "group_areas g (add_all_counts sb ds) = group_areas g sb"
  by (simp_all add: block_size_def block_count_def block_group_count_def gdt_block_count_def inode_table_blocks_def
      block_group_has_sb_copy_def block_group_start_def block_group_block_count_def block_group_overhead_def
      block_group_overhead_copy_def block_start_def group_areas_def fun_eq_iff)

text \<open>The count of a descriptor that fits into 16 bits is added as it is.\<close>

lemma joined_halves:
  assumes "unat (from_lo_hi_16 lo hi) < 65536"
  shows "from_lo_hi_32 (ucast lo) (ucast hi) = word_of_nat (unat (from_lo_hi_16 lo hi))"
proof -
  have "unat hi = 0" using assms by (simp add: unat_from_lo_hi_16)
  then have "hi = 0" by (simp add: unat_eq_zero)
  then have "unat (from_lo_hi_32 (ucast lo) (ucast hi)) = unat (from_lo_hi_16 lo hi)"
    by (simp add: unat_from_lo_hi_16 unat_from_lo_hi_32)
  then have "(word_of_nat (unat (from_lo_hi_32 (ucast lo) (ucast hi))) :: u64) = word_of_nat (unat (from_lo_hi_16 lo hi))"
    by (rule arg_cong)
  then show ?thesis by simp
qed

definition counts_small :: "ext4_group_desc \<Rightarrow> bool" where
  "counts_small d \<longleftrightarrow> free_blocks d < 65536 \<and> free_inodes d < 65536"

definition total_free_blocks :: "ext4_super_block \<Rightarrow> u64" where
  "total_free_blocks sb = from_lo_hi_32 (s_free_blocks_count_lo sb) (s_free_blocks_count_hi sb)"

lemma add_group_counts_totals:
  assumes "counts_small d"
  shows "s_free_inodes_count (add_group_counts sb d) = s_free_inodes_count sb + word_of_nat (free_inodes d)"
    and "total_free_blocks (add_group_counts sb d) = total_free_blocks sb + word_of_nat (free_blocks d)"
proof -
  have "free_inodes d < 65536" "free_blocks d < 65536" using assms by (simp_all add: counts_small_def)
  then have j: "from_lo_hi_32 (ucast (bg_free_inodes_count_lo d)) (ucast (bg_free_inodes_count_hi d)) = word_of_nat (free_inodes d)"
    "from_lo_hi_32 (ucast (bg_free_blocks_count_lo d)) (ucast (bg_free_blocks_count_hi d)) = word_of_nat (free_blocks d)"
    by (simp_all add: joined_halves free_inodes_def free_blocks_def)
  have "take_bit 64 (free_inodes d) = free_inodes d"
    using \<open>free_inodes d < 65536\<close> by (simp add: take_bit_nat_eq_self)
  then have c: "(ucast (word_of_nat (free_inodes d) :: u64) :: u32) = word_of_nat (free_inodes d)"
    by (simp add: unsigned_of_nat)
  show "s_free_inodes_count (add_group_counts sb d) = s_free_inodes_count sb + word_of_nat (free_inodes d)"
    by (simp add: add_group_counts_def Let_def split_beta j c)
  show "total_free_blocks (add_group_counts sb d) = total_free_blocks sb + word_of_nat (free_blocks d)"
    by (simp add: add_group_counts_def total_free_blocks_def incr_lo_hi_32_32_def Let_def split_beta j)
qed

lemma add_all_counts_totals:
  "list_all counts_small ds \<Longrightarrow>
     s_free_inodes_count (add_all_counts sb ds) = s_free_inodes_count sb + word_of_nat (sum_list (map free_inodes ds))
     \<and> total_free_blocks (add_all_counts sb ds) = total_free_blocks sb + word_of_nat (sum_list (map free_blocks ds))"
  by (induction ds arbitrary: sb) (simp_all add: add_group_counts_totals add.assoc)

lemma sum_list_bound: "(\<And>x. x \<in> set xs \<Longrightarrow> f x \<le> c) \<Longrightarrow> sum_list (map f xs) \<le> length xs * (c :: nat)"
  by (induction xs) (auto intro: add_mono)

lemma add_all_counts_numbers:
  assumes "list_all counts_small ds" and "length ds < 65536"
    and "s_free_inodes_count sb = 0" and "total_free_blocks sb = 0"
  shows "unat (s_free_inodes_count (add_all_counts sb ds)) = sum_list (map free_inodes ds)"
    and "unat (total_free_blocks (add_all_counts sb ds)) = sum_list (map free_blocks ds)"
proof -
  have "sum_list (map free_inodes ds) \<le> length ds * 65535" "sum_list (map free_blocks ds) \<le> length ds * 65535"
    using assms(1) by (intro sum_list_bound; auto simp: list_all_iff counts_small_def)+
  then have i: "sum_list (map free_inodes ds) < 2 ^ LENGTH(32)" and b: "sum_list (map free_blocks ds) < 2 ^ LENGTH(64)"
    using assms(2) by simp_all
  show "unat (s_free_inodes_count (add_all_counts sb ds)) = sum_list (map free_inodes ds)"
    using add_all_counts_totals [OF assms(1), of sb] assms(3) i by (simp only: add_0 unat_of_nat mod_less)
  show "unat (total_free_blocks (add_all_counts sb ds)) = sum_list (map free_blocks ds)"
    using add_all_counts_totals [OF assms(1), of sb] assms(4) b by (simp only: add_0 unat_of_nat mod_less)
qed

subsection \<open>The copies\<close>

text \<open>Where the copies of group \<open>i\<close> are, and the blocks they lie in.\<close>

definition copy_address :: "fat_globals \<Rightarrow> ext4_super_block \<Rightarrow> nat \<Rightarrow> nat" where
  "copy_address g sb i =
     block_addr g sb (group_first sb i) + (if i = 0 \<and> block_size sb \<noteq> 1024 then 1024 else 0)"

definition gdt_address :: "fat_globals \<Rightarrow> ext4_super_block \<Rightarrow> nat \<Rightarrow> nat" where
  "gdt_address g sb i = block_addr g sb (group_first sb i + 1)"

definition copy_bytes :: "fat_globals \<Rightarrow> ext4_super_block \<Rightarrow> nat \<Rightarrow> nat set" where
  "copy_bytes g sb i = {block_addr g sb (group_first sb i)
     ..<block_addr g sb (group_first sb i + 1 + unat (gdt_block_count sb))}"

text \<open>The superblock fits behind the boot block, and the descriptors into their blocks.\<close>

definition copies_fit :: "ext4_super_block \<Rightarrow> bool" where
  "copies_fit sb \<longleftrightarrow> (unat (block_size sb) = 1024 \<or> 2048 \<le> unat (block_size sb))
     \<and> sizeof_group_desc * unat (block_group_count sb) \<le> unat (gdt_block_count sb) * unat (block_size sb)
     \<and> length (s_uuid sb) = 16 \<and> length (s_volume_name sb) = 16
     \<and> s_backup_bg0 sb < block_group_count sb \<and> s_backup_bg1 sb < block_group_count sb"

definition copy_on_disk :: "fat_globals \<Rightarrow> ext4_super_block \<Rightarrow> ext4_group_desc list \<Rightarrow> memory \<Rightarrow> nat \<Rightarrow> bool" where
  "copy_on_disk g sb ds m i \<longleftrightarrow>
     load_super_block m (copy_address g sb i) = sb\<lparr>s_block_group_nr := word_of_nat i\<rparr>
     \<and> load_array load_group_desc sizeof_group_desc m (gdt_address g sb i) (length ds) = ds"

lemma copy_parts:
  assumes fit: "copies_fit sb" and n: "length ds = unat (block_group_count sb)"
  shows "{copy_address g sb i..<copy_address g sb i + 1024} \<subseteq> copy_bytes g sb i"
    and "{gdt_address g sb i..<gdt_address g sb i + sizeof_group_desc * length ds} \<subseteq> copy_bytes g sb i"
    and "copy_address g sb i + 1024 \<le> gdt_address g sb i"
proof -
  let ?z = "unat (block_size sb)" and ?a = "block_addr g sb (group_first sb i)"
  have z: "?z = 1024 \<or> 2048 \<le> ?z" using fit by (simp add: copies_fit_def)
  have w: "block_size sb = 1024 \<longleftrightarrow> ?z = 1024" by (simp add: word_unat_eq_iff)
  have d: "gdt_address g sb i = ?a + ?z" by (simp add: gdt_address_def block_addr_def)
  have e: "block_addr g sb (group_first sb i + 1 + unat (gdt_block_count sb)) = ?a + ?z + unat (gdt_block_count sb) * ?z"
    by (simp add: block_addr_def distrib_right)
  show le: "copy_address g sb i + 1024 \<le> gdt_address g sb i" using z w by (auto simp: copy_address_def d)
  show "{copy_address g sb i..<copy_address g sb i + 1024} \<subseteq> copy_bytes g sb i"
    using le unfolding copy_bytes_def e d copy_address_def by auto
  have "sizeof_group_desc * length ds \<le> unat (gdt_block_count sb) * ?z" using fit n by (simp add: copies_fit_def)
  then show "{gdt_address g sb i..<gdt_address g sb i + sizeof_group_desc * length ds} \<subseteq> copy_bytes g sb i"
    unfolding copy_bytes_def e d by auto
qed

lemma copy_bytes_in_group:
  assumes L: "layout_ok sb" and i: "i < unat (block_group_count sb)" and c: "block_group_has_sb_copy sb (word_of_nat i)"
  shows "copy_bytes g sb i \<subseteq> group_bytes g sb i"
    and "block_addr g sb (group_first sb i + 1 + unat (gdt_block_count sb)) \<le> block_addr g sb (group_first sb i + bitmap_offset sb i)"
proof -
  have "bitmap_offset sb i \<le> unat (s_blocks_per_group sb)" using group_blocks(4,5) [OF L i] by simp
  then have "1 + unat (gdt_block_count sb) \<le> unat (s_blocks_per_group sb)" using c by (simp add: bitmap_offset_def)
  then have "block_addr g sb (group_first sb i + 1 + unat (gdt_block_count sb))
      \<le> block_addr g sb (group_first sb i + unat (s_blocks_per_group sb))" by (intro block_addr_mono) simp
  then show "copy_bytes g sb i \<subseteq> group_bytes g sb i" by (auto simp: copy_bytes_def group_bytes_def)
  show "block_addr g sb (group_first sb i + 1 + unat (gdt_block_count sb)) \<le> block_addr g sb (group_first sb i + bitmap_offset sb i)"
    using c by (intro block_addr_mono) (simp add: bitmap_offset_def)
qed

text \<open>The copies do not touch the bitmaps and inode tables.\<close>

lemma copy_bytes_areas:
  assumes L: "layout_ok sb" and i: "i < unat (block_group_count sb)" and j: "j < unat (block_group_count sb)"
    and c: "block_group_has_sb_copy sb (word_of_nat i)" and l: "l < 3"
  shows "copy_bytes g sb i \<inter> area_bytes (group_areas g sb (init_group_desc sb (word_of_nat j)) ! l) = {}"
proof (cases "i = j")
  case True
  let ?x = "group_first sb i + bitmap_offset sb i"
  have "block_addr g sb (?x + 1) = block_addr g sb ?x + unat (block_size sb)"
    "block_addr g sb (?x + 2) = block_addr g sb ?x + 2 * unat (block_size sb)"
    by (simp_all add: block_addr_def distrib_right)
  moreover have "l = 0 \<or> l = 1 \<or> l = 2" using l by linarith
  ultimately have "area_bytes (group_areas g sb (init_group_desc sb (word_of_nat i)) ! l) \<subseteq> {block_addr g sb ?x..}"
    unfolding init_group_areas [OF L i] by (auto simp: area_bytes_def)
  then show ?thesis using copy_bytes_in_group(2) [OF L i c, of g] True by (auto simp: copy_bytes_def)
next
  case False
  have "block_addr g sb (group_first sb j + unat (block_group_overhead sb (word_of_nat j)))
      \<le> block_addr g sb (group_first sb j + unat (s_blocks_per_group sb))"
    using group_blocks(3,4,5) [OF L j] by (intro block_addr_mono) simp
  then have "area_bytes (group_areas g sb (init_group_desc sb (word_of_nat j)) ! l) \<subseteq> group_bytes g sb j"
    using init_areas_range [OF L j l, of g] by (auto simp: group_bytes_def)
  then show ?thesis using copy_bytes_in_group(1) [OF L i c, of g] group_bytes_disjoint [OF False, of g sb] by blast
qed

lemma word_of_nat_unat_ucast: "(word_of_nat (unat (w :: u32)) :: u16) = ucast w"
  by (rule bit_word_eqI) (simp add: bit_simps)

lemma write_sb_copy_spec:
  assumes L: "layout_ok (fs_sb s)" and fit: "copies_fit (fs_sb s)"
    and n: "length (fs_group_descs s) = unat (block_group_count (fs_sb s))"
    and w: "w < block_group_count (fs_sb s)" and c: "block_group_has_sb_copy (fs_sb s) w"
  shows "\<exists>m'. write_sb_copy g w s = Inr (s\<lparr>mem := m'\<rparr>)
    \<and> agree_on (- copy_bytes g (fs_sb s) (unat w)) (mem s) m'
    \<and> copy_on_disk g (fs_sb s) (fs_group_descs s) m' (unat w)"
proof -
  let ?sb = "fs_sb s" and ?i = "unat w" and ?ds = "fs_group_descs s"
  let ?a = "copy_address g ?sb ?i" and ?d = "gdt_address g ?sb ?i" and ?b = "?sb\<lparr>s_block_group_nr := ucast w\<rparr>"
  have i: "?i < unat (block_group_count ?sb)" using w by (simp add: word_less_nat_alt)
  note G = group_blocks [OF L i]
  have st: "unat (block_group_start ?sb w) = group_first ?sb ?i" using G(1) by simp
  have top: "group_first ?sb ?i + 1 < 4294967296" using G(6) layout_okD(1) [OF L] by simp
  have st1: "unat (block_group_start ?sb w + 1) = group_first ?sb ?i + 1"
    using top st by (subst unat_add_no_overflow) simp_all
  have a: "block_start g ?sb (block_group_start ?sb w) + (if w = 0 \<and> block_size ?sb \<noteq> 1024 then 1024 else 0) = ?a"
    using st top by (simp add: block_start_addr copy_address_def unat_eq_zero)
  have d: "block_start g ?sb (block_group_start ?sb w + 1) = ?d"
    using st1 top by (simp add: block_start_addr gdt_address_def)
  define m1 where "m1 = store_super_block (mem s) ?a ?b"
  define m2 where "m2 = store_array store_group_desc sizeof_group_desc m1 ?d ?ds"
  have run: "write_sb_copy g w s = Inr (s\<lparr>mem := m2\<rparr>)"
    using n unfolding write_sb_copy_def Let_def a d by (simp add: m2_def m1_def store_group_descs_def)
  have len: "length (s_uuid ?b) = 16" "length (s_volume_name ?b) = 16" using fit by (simp_all add: copies_fit_def)
  note P = copy_parts [OF fit n, of g ?i]
  have f1: "m1 x = mem s x" if "x \<notin> {?a..<?a + 1024}" for x
    unfolding m1_def by (rule store_super_block_frame [OF len that])
  have f2: "m2 x = m1 x" if "x \<notin> {?d..<?d + sizeof_group_desc * length ?ds}" for x
    unfolding m2_def sizeof_group_desc_def
    by (rule group_desc_codec.store_array_frame) (use that in \<open>simp add: sizeof_group_desc_def\<close>)
  have "m2 x = mem s x" if "x \<notin> copy_bytes g ?sb ?i" for x
  proof -
    have "x \<notin> {?a..<?a + 1024}" "x \<notin> {?d..<?d + sizeof_group_desc * length ?ds}" using that P(1,2) by blast+
    then show ?thesis by (simp only: f1 f2 not_False_eq_True)
  qed
  then have frame: "agree_on (- copy_bytes g ?sb ?i) (mem s) m2" by (simp add: agree_on_def)
  have "x \<notin> {?d..<?d + sizeof_group_desc * length ?ds}" if "x \<in> {?a..<?a + 1024}" for x
    using that P(3) by simp
  then have "load_super_block m2 ?a = load_super_block m1 ?a" by (intro load_super_block_cong f2)
  then have "load_super_block m2 ?a = ?b" using load_store_super_block [OF len] by (simp add: m1_def)
  moreover have "load_array load_group_desc sizeof_group_desc m2 ?d (length ?ds) = ?ds"
    unfolding m2_def sizeof_group_desc_def by (rule group_desc_codec.load_store_array)
  moreover have "(word_of_nat ?i :: u16) = ucast w" by (rule word_of_nat_unat_ucast)
  ultimately have "copy_on_disk g ?sb ?ds m2 ?i" by (simp only: copy_on_disk_def simp_thms)
  then show ?thesis using run frame by blast
qed

text \<open>Writing one copy leaves another one alone.\<close>

lemma copy_on_disk_kept:
  assumes L: "layout_ok sb" and fit: "copies_fit sb" and n: "length ds = unat (block_group_count sb)"
    and i: "i < unat (block_group_count sb)" and j: "j < unat (block_group_count sb)" and ij: "i \<noteq> j"
    and c: "block_group_has_sb_copy sb (word_of_nat i)" "block_group_has_sb_copy sb (word_of_nat j)"
    and m: "agree_on (- copy_bytes g sb i) m m'" and d: "copy_on_disk g sb ds m j"
  shows "copy_on_disk g sb ds m' j"
proof -
  have dis: "copy_bytes g sb i \<inter> copy_bytes g sb j = {}"
    using copy_bytes_in_group(1) [OF L i c(1), of g] copy_bytes_in_group(1) [OF L j c(2), of g]
      group_bytes_disjoint [OF ij, of g sb] by blast
  have e: "m x = m' x" if "x \<in> copy_bytes g sb j" for x using that m dis by (auto simp: agree_on_def)
  note P = copy_parts [OF fit n, of g j]
  have "load_super_block m (copy_address g sb j) = load_super_block m' (copy_address g sb j)"
    by (rule load_super_block_cong, rule e) (use P(1) in blast)
  moreover have "load_array load_group_desc sizeof_group_desc m (gdt_address g sb j) (length ds)
      = load_array load_group_desc sizeof_group_desc m' (gdt_address g sb j) (length ds)"
    unfolding sizeof_group_desc_def
    by (rule group_desc_codec.load_array_cong, rule e) (use P(2) in \<open>auto simp: sizeof_group_desc_def\<close>)
  ultimately show ?thesis using d by (simp add: copy_on_disk_def)
qed

text \<open>One write after the copies in \<open>J\<close>.\<close>

definition copies_written :: "fat_globals \<Rightarrow> ext4_state \<Rightarrow> nat set \<Rightarrow> memory \<Rightarrow> bool" where
  "copies_written g s J m \<longleftrightarrow> agree_on (- (\<Union>j \<in> J. copy_bytes g (fs_sb s) j)) (mem s) m
     \<and> (\<forall>j \<in> J. copy_on_disk g (fs_sb s) (fs_group_descs s) m j)"

lemma copies_written_step:
  assumes L: "layout_ok (fs_sb s)" and fit: "copies_fit (fs_sb s)"
    and n: "length (fs_group_descs s) = unat (block_group_count (fs_sb s))"
    and J: "copies_written g s J m" "\<And>j. j \<in> J \<Longrightarrow> j < unat (block_group_count (fs_sb s))
      \<and> block_group_has_sb_copy (fs_sb s) (word_of_nat j)"
    and w: "w < block_group_count (fs_sb s)" "block_group_has_sb_copy (fs_sb s) w"
  shows "\<exists>m'. write_sb_copy g w (s\<lparr>mem := m\<rparr>) = Inr (s\<lparr>mem := m'\<rparr>) \<and> copies_written g s (insert (unat w) J) m'"
proof -
  let ?t = "s\<lparr>mem := m\<rparr>"
  have t: "fs_sb ?t = fs_sb s" "fs_group_descs ?t = fs_group_descs s" "mem ?t = m" "\<And>m'. ?t\<lparr>mem := m'\<rparr> = s\<lparr>mem := m'\<rparr>"
    by simp_all
  obtain m' where m': "write_sb_copy g w ?t = Inr (s\<lparr>mem := m'\<rparr>)"
    "agree_on (- copy_bytes g (fs_sb s) (unat w)) m m'"
    "copy_on_disk g (fs_sb s) (fs_group_descs s) m' (unat w)"
    using write_sb_copy_spec [of ?t w g] L fit n w unfolding t by blast
  have i: "unat w < unat (block_group_count (fs_sb s))" using w(1) by (simp add: word_less_nat_alt)
  have c: "block_group_has_sb_copy (fs_sb s) (word_of_nat (unat w))" using w(2) by simp
  have "copy_on_disk g (fs_sb s) (fs_group_descs s) m' j" if "j \<in> insert (unat w) J" for j
  proof (cases "j = unat w")
    case False
    then have j: "j \<in> J" using that by blast
    then have "copy_on_disk g (fs_sb s) (fs_group_descs s) m j" using J(1) by (simp add: copies_written_def)
    then show ?thesis
      using J(2) [OF j] False by (intro copy_on_disk_kept [OF L fit n i _ _ c _ m'(2)]) simp_all
  next
    case True
    show ?thesis unfolding True by (rule m'(3))
  qed
  moreover have "agree_on (- (\<Union>j \<in> insert (unat w) J. copy_bytes g (fs_sb s) j)) (mem s) m'"
    using J(1) m'(2) unfolding copies_written_def agree_on_def by auto
  ultimately show ?thesis using m'(1) unfolding copies_written_def by blast
qed

subsection \<open>The whole stage\<close>

lemma add_all_counts_ok [simp]:
  "layout_ok (add_all_counts sb ds) = layout_ok sb" "copies_fit (add_all_counts sb ds) = copies_fit sb"
  by (simp_all add: layout_ok_def copies_fit_def)

lemma finalize_spec:
  assumes L: "layout_ok (fs_sb s)" and fit: "copies_fit (fs_sb s)"
    and n: "length (fs_group_descs s) = unat (block_group_count (fs_sb s))"
    and small: "unat (block_group_count (fs_sb s)) < 65536"
  defines "s1 \<equiv> s\<lparr>fs_sb := add_all_counts (fs_sb s) (fs_group_descs s)\<rparr>"
  shows "\<exists>m. finalize_block_groups_on_disk g s = Some (Inr (s1\<lparr>mem := m\<rparr>))
    \<and> copies_written g s1 {0, unat (s_backup_bg0 (fs_sb s)), unat (s_backup_bg1 (fs_sb s))} m"
proof -
  let ?n = "block_group_count (fs_sb s)" and ?b0 = "s_backup_bg0 (fs_sb s)" and ?b1 = "s_backup_bg1 (fs_sb s)"
  have s1: "layout_ok (fs_sb s1)" "copies_fit (fs_sb s1)" "fs_group_descs s1 = fs_group_descs s"
    "block_group_count (fs_sb s1) = ?n" "\<And>k. block_group_has_sb_copy (fs_sb s1) k = block_group_has_sb_copy (fs_sb s) k"
    "s_backup_bg0 (fs_sb s1) = ?b0" "s_backup_bg1 (fs_sb s1) = ?b1"
    using L fit by (simp_all add: s1_def)
  have b: "?b0 < ?n" "?b1 < ?n" using fit by (simp_all add: copies_fit_def)
  then have "0 < ?n" by (simp add: word_less_nat_alt)
  have c: "block_group_has_sb_copy (fs_sb s) 0" "block_group_has_sb_copy (fs_sb s) ?b0" "block_group_has_sb_copy (fs_sb s) ?b1"
    by (simp_all add: block_group_has_sb_copy_def)
  have n1: "length (fs_group_descs s1) = unat (block_group_count (fs_sb s1))" using n s1 by simp
  note step = copies_written_step [OF s1(1,2) n1, unfolded s1(4,5)]
  have loop: "finalize_loop ?n 0 s = Some (Inr s1)"
    using finalize_loop_spec [OF le0 n [symmetric] small] by (simp add: s1_def)
  have ok: "j < unat ?n \<and> block_group_has_sb_copy (fs_sb s) (word_of_nat j)" if "j \<in> {0, unat ?b0}" for j
    using that b c \<open>0 < ?n\<close> by (auto simp: word_less_nat_alt)
  have w0: "copies_written g s1 {} (mem s1)" by (simp add: copies_written_def agree_on_def)
  have "\<exists>m'. write_sb_copy g 0 (s1\<lparr>mem := mem s1\<rparr>) = Inr (s1\<lparr>mem := m'\<rparr>) \<and> copies_written g s1 (insert (unat (0 :: u32)) {}) m'"
    by (rule step [OF w0 _ \<open>0 < ?n\<close> c(1)]) simp
  then obtain m1 where m1: "write_sb_copy g 0 s1 = Inr (s1\<lparr>mem := m1\<rparr>)" "copies_written g s1 {0} m1" by auto
  have "\<exists>m'. write_sb_copy g ?b0 (s1\<lparr>mem := m1\<rparr>) = Inr (s1\<lparr>mem := m'\<rparr>) \<and> copies_written g s1 (insert (unat ?b0) {0}) m'"
    by (rule step [OF m1(2) _ b(1) c(2)]) (rule ok, simp)
  then obtain m2 where m2:
    "write_sb_copy g ?b0 (s1\<lparr>mem := m1\<rparr>) = Inr (s1\<lparr>mem := m2\<rparr>)" "copies_written g s1 {unat ?b0, 0} m2" by blast
  have "\<exists>m'. write_sb_copy g ?b1 (s1\<lparr>mem := m2\<rparr>) = Inr (s1\<lparr>mem := m'\<rparr>) \<and> copies_written g s1 (insert (unat ?b1) {unat ?b0, 0}) m'"
    by (rule step [OF m2(2) _ b(2) c(3)]) (rule ok, blast)
  then obtain m3 where m3:
    "write_sb_copy g ?b1 (s1\<lparr>mem := m2\<rparr>) = Inr (s1\<lparr>mem := m3\<rparr>)" "copies_written g s1 {unat ?b1, unat ?b0, 0} m3"
    by blast
  have "finalize_block_groups_on_disk g s = Some (Inr (s1\<lparr>mem := m3\<rparr>))"
    by (simp add: finalize_block_groups_on_disk_def loop m1(1) m2(1) m3(1) s1(6,7))
  moreover have "{unat ?b1, unat ?b0, 0} = {0, unat ?b0, unat ?b1}" by blast
  ultimately show ?thesis using m3(2) by metis
qed

text \<open>The invariant of the block groups does not see the totals and the copies.\<close>

lemma copies_written_groups_inv:
  assumes inv: "groups_inv g s" and L: "layout_ok (fs_sb s)"
    and places: "map (group_areas g (fs_sb s)) (fs_group_descs s)
      = map (group_areas g (fs_sb s)) (fs_group_descs (init_ext4_group_descs g s))"
    and w: "copies_written g s J m" "\<And>j. j \<in> J \<Longrightarrow> j < unat (block_group_count (fs_sb s))
      \<and> block_group_has_sb_copy (fs_sb s) (word_of_nat j)"
  shows "groups_inv g (s\<lparr>mem := m\<rparr>)"
proof -
  let ?sb = "fs_sb s" and ?ds = "fs_group_descs s"
  have n: "length ?ds = unat (block_group_count ?sb)" using groups_invD(1) [OF inv] by simp
  have "counts_ok g ?sb m (?ds ! i)" if i: "i < length ?ds" for i
  proof -
    have "group_areas g ?sb (?ds ! i) = group_areas g ?sb (init_group_desc ?sb (word_of_nat i))"
      using arg_cong [OF places, of "\<lambda>xs. xs ! i"] i n by (simp add: init_ext4_group_descs_def Let_def)
    then have "copy_bytes g ?sb j \<inter> bitmaps_of g ?sb (?ds ! i) = {}" if "j \<in> J" for j
      using copy_bytes_areas [OF L, of j i] w(2) [OF that] i n
      unfolding bitmaps_of_areas by (simp add: Int_Un_distrib)
    then have "bitmaps_of g ?sb (?ds ! i) \<subseteq> - (\<Union>j \<in> J. copy_bytes g ?sb j)" by blast
    then have "agree_on (bitmaps_of g ?sb (?ds ! i)) (mem s) m"
      using w(1) agree_on_mono unfolding copies_written_def by blast
    then show ?thesis using counts_ok_cong groups_invD(7) [OF inv i] by simp
  qed
  then show ?thesis using inv by (simp add: groups_inv_def list_all_length)
qed

lemma init_group_desc_counts [simp]: "init_group_desc (add_all_counts sb ds) k = init_group_desc sb k"
  by (simp add: init_group_desc_def group_bitmap_block_def group_used_inodes_def block_group_overhead_copy_def Let_def)

lemma add_all_counts_groups_inv:
  "groups_inv g (s\<lparr>fs_sb := add_all_counts (fs_sb s) ds\<rparr>) = groups_inv g s"
  by (simp add: groups_inv_def areas_apart_def counts_ok_def [abs_def])

text \<open>
  C17. The last stage ends, and leaves the superblock on disk as the kernel expects it: its totals are
  the numbers of zero bits in the bitmaps of all groups, and it can be read back, followed by the group
  descriptors, from the first and from both backup groups, without any change to the bitmaps. The counts
  of the descriptors have to fit into 16 bits, which they do not for the inodes of clusters of 32 kB.
\<close>

theorem finalize_writes_super_blocks:
  assumes inv: "groups_inv g s" and L: "layout_ok (fs_sb s)" and fit: "copies_fit (fs_sb s)"
    and places: "map (group_areas g (fs_sb s)) (fs_group_descs s)
      = map (group_areas g (fs_sb s)) (fs_group_descs (init_ext4_group_descs g s))"
    and small: "length (fs_group_descs s) < 65536" "list_all counts_small (fs_group_descs s)"
    and zero: "s_free_inodes_count (fs_sb s) = 0" "total_free_blocks (fs_sb s) = 0"
  defines "bits \<equiv> 8 * unat (block_size (fs_sb s))"
  shows "\<exists>s'. finalize_block_groups_on_disk g s = Some (Inr s') \<and> groups_inv g s'
    \<and> fs_group_descs s' = fs_group_descs s
    \<and> unat (total_free_blocks (fs_sb s')) =
        (\<Sum>d \<leftarrow> fs_group_descs s'. free_bits (mem s') (block_start g (fs_sb s') (block_bitmap_block d)) bits)
    \<and> unat (s_free_inodes_count (fs_sb s')) =
        (\<Sum>d \<leftarrow> fs_group_descs s'. free_bits (mem s') (block_start g (fs_sb s') (inode_bitmap_block d)) bits)
    \<and> (\<forall>j \<in> {0, unat (s_backup_bg0 (fs_sb s)), unat (s_backup_bg1 (fs_sb s))}.
          copy_on_disk g (fs_sb s') (fs_group_descs s') (mem s') j)"
proof -
  let ?ds = "fs_group_descs s"
  define s1 where "s1 = s\<lparr>fs_sb := add_all_counts (fs_sb s) ?ds\<rparr>"
  have n: "length ?ds = unat (block_group_count (fs_sb s))" using groups_invD(1) [OF inv] by simp
  let ?J = "{0, unat (s_backup_bg0 (fs_sb s)), unat (s_backup_bg1 (fs_sb s))}"
  obtain m where m: "finalize_block_groups_on_disk g s = Some (Inr (s1\<lparr>mem := m\<rparr>))" "copies_written g s1 ?J m"
    using finalize_spec [OF L fit n, of g] small(1) n by (auto simp: s1_def)
  have inv1: "groups_inv g s1" using inv by (simp add: s1_def add_all_counts_groups_inv)
  have J: "j < unat (block_group_count (fs_sb s1)) \<and> block_group_has_sb_copy (fs_sb s1) (word_of_nat j)" if "j \<in> ?J" for j
    using that fit by (auto simp: s1_def copies_fit_def block_group_has_sb_copy_def word_less_nat_alt)
  have "map (group_areas g (fs_sb s1)) (fs_group_descs s1) = map (group_areas g (fs_sb s1)) (fs_group_descs (init_ext4_group_descs g s1))"
    using places by (simp add: s1_def init_ext4_group_descs_def Let_def)
  with inv1 have inv2: "groups_inv g (s1\<lparr>mem := m\<rparr>)"
    using L J by (intro copies_written_groups_inv [OF _ _ _ m(2)]) (simp_all add: s1_def)
  have bits: "free_blocks d = free_bits m (block_start g (fs_sb s) (block_bitmap_block d)) bits"
    "free_inodes d = free_bits m (block_start g (fs_sb s) (inode_bitmap_block d)) bits" if "d \<in> set ?ds" for d
    using that inv2 by (auto simp: groups_inv_def list_all_iff counts_ok_def s1_def bits_def)
  note N = add_all_counts_numbers [OF small(2,1) zero]
  show ?thesis
    using m inv2 N bits by (intro exI [of _ "s1\<lparr>mem := m\<rparr>"]) (simp add: s1_def copies_written_def cong: map_cong)
qed

subsection \<open>The sample file system\<close>

lemma sample_counts:
  "block_group_block_count sample_super_block 0 = 32768" "block_group_block_count sample_super_block 1 = 32768"
  "block_group_block_count sample_super_block 2 = 520" "gdt_block_count sample_super_block = 1"
  by (simp_all add: layout_defs sample_super_block_def ext4_constants)

lemma sample_copies_fit: "copies_fit sample_super_block"
  by (simp add: copies_fit_def sample_layout sample_counts sizeof_group_desc_def)
    (simp add: sample_super_block_def sample_uuid_def)

lemma sample_counts_small: "list_all counts_small (fs_group_descs sample_groups)"
proof -
  have "[0..<unat (3 :: u32)] = [0, 1, 2]" by (simp add: upt_rec)
  then have "fs_group_descs sample_groups = map (init_group_desc sample_super_block) [0, 1, 2]"
    by (simp add: sample_groups_def init_ext4_group_descs_def Let_def sample_ext4_def sample_layout)
  moreover have "counts_small (init_group_desc sample_super_block k)" if "k = 0 \<or> k = 1 \<or> k = 2" for k
  proof -
    have "block_group_overhead_copy sample_super_block (block_group_has_sb_copy sample_super_block k) = 516"
      "s_inodes_per_group sample_super_block = 8192"
      using that sample_layout by (auto simp: block_group_overhead_def) (simp_all add: sample_super_block_def)
    then show ?thesis
      using that by (auto simp: counts_small_def free_blocks_def free_inodes_def init_group_desc_def Let_def split_beta
          sample_counts group_used_inodes_def EXT4_FIRST_NON_RSV_INODE_def)
  qed
  ultimately show ?thesis by simp
qed

theorem finalize_writes_super_blocks_witness:
  "\<exists>s'. finalize_block_groups_on_disk sample_globals sample_groups = Some (Inr s') \<and> groups_inv sample_globals s'
    \<and> copy_on_disk sample_globals (fs_sb s') (fs_group_descs s') (mem s') 2"
proof -
  have b: "s_backup_bg1 sample_super_block = 2" "s_free_inodes_count sample_super_block = 0"
    "total_free_blocks sample_super_block = 0"
    by (simp_all add: sample_super_block_def total_free_blocks_def from_lo_hi_32_def)
  have "fs_group_descs (init_ext4_group_descs sample_globals sample_groups) = fs_group_descs sample_groups"
    by (simp add: sample_groups_def init_ext4_group_descs_def Let_def)
  then have "\<exists>s'. finalize_block_groups_on_disk sample_globals sample_groups = Some (Inr s') \<and> groups_inv sample_globals s'
      \<and> (\<forall>j \<in> {0, unat (s_backup_bg0 sample_super_block), unat (s_backup_bg1 sample_super_block)}.
            copy_on_disk sample_globals (fs_sb s') (fs_group_descs s') (mem s') j)"
    using finalize_writes_super_blocks [OF sample_groups_inv] sample_layout_ok sample_copies_fit sample_counts_small
    by (force simp: sample_groups_fields b)
  then show ?thesis by (auto simp: b)
qed

end
