(* ===== verification/Preparation.thy ===== *)
theory Preparation
  imports Conversion Finalization
begin

section \<open>From the boot sector to a well-formed start\<close>

text \<open>
  The parts that \<open>main\<close> runs before it changes anything - \<open>set_meta_info\<close>, \<open>init_ext4_sb\<close>,
  \<open>create_block_group_meta_extents\<close>, \<open>init_extent_allocator\<close> - together: for which FAT
  geometries the superblock, the reserved extents and the allocator meet the conditions that the
  later parts are proved under.
\<close>

text \<open>Natural number readings of the fields that \<open>init_ext4_sb\<close> computes.\<close>

lemma unat_ceildiv_u32:
  assumes "0 < unat b" and "unat a + unat b < 4294967296"
  shows "unat (ceildiv_u32 a b) = (unat a + unat b - 1) div unat b"
proof -
  have "unat (a + b) = unat a + unat b" using assms(2) by (intro unat_add_no_overflow) simp
  then have "unat (a + b - 1) = unat a + unat b - 1" using assms(1) by (subst unat_sub_no_underflow) simp_all
  then show ?thesis by (simp add: ceildiv_u32_def unat_div)
qed

lemma push_bit_bounds:
  assumes "w = (push_bit k 1 :: u32)" and "1024 \<le> w" and "k \<le> 16"
  shows "unat w = 2 ^ k" "1024 \<le> unat w" "unat w \<le> 65536" "unat w = 1024 \<or> 2048 \<le> unat w"
proof -
  have "(2::nat) ^ k < 2 ^ 32" using assms(3) by (intro power_strict_increasing) simp_all
  then show w: "unat w = 2 ^ k"
    by (simp only: assms(1) unsigned_push_bit_eq unsigned_1 push_bit_nat_eq mult_1 len_num1 len_bit0)
       (use assms(3) in \<open>simp add: take_bit_nat_eq_self\<close>)
  show g: "1024 \<le> unat w" using assms(2) by (simp add: word_le_nat_alt)
  have "(2::nat) ^ k \<le> 2 ^ 16" using assms(3) by (intro power_increasing) simp_all
  then show "unat w \<le> 65536" using w by simp
  have "(2::nat) ^ 10 \<le> 2 ^ k" using g w by simp
  then have "10 \<le> k" by (subst (asm) power_increasing_iff) simp_all
  then consider "k = 10" | "11 \<le> k" by linarith
  then show "unat w = 1024 \<or> 2048 \<le> unat w"
  proof cases
    case 2
    then have "(2::nat) ^ 11 \<le> 2 ^ k" by (intro power_increasing) simp_all
    then show ?thesis using w by simp
  qed (simp add: w)
qed

lemma sb_numbers:
  assumes sb: "init_ext4_sb now uuid g = Inr sb" and b: "bytes_per_block (boot_sector g) = push_bit k 1" "k \<le> 16"
  defines "b \<equiv> unat (bytes_per_block (boot_sector g))"
  shows "1024 \<le> b" "b \<le> 65536" "unat (block_size sb) = b" "block_count sb = partition_blocks g"
    "unat (s_blocks_per_group sb) = min (8 * b) 65528" "unat (s_first_data_block sb) \<le> 1"
    "unat (s_inodes_per_group sb) = min (min (8 * b) 65528 * b div 16384) (8 * b)"
    "unat (s_inode_size sb) = 256" "unat (s_reserved_gdt_blocks sb) = 0" "unat (s_desc_size sb) = 64"
proof -
  note f = init_ext4_sb_fields [OF sb]
  have min: "1024 \<le> bytes_per_block (boot_sector g)" using f by blast
  note B = push_bit_bounds [OF b(1) min b(2), folded b_def]
  show "1024 \<le> b" "b \<le> 65536" using B by auto
  have "k < 32" using b(2) by simp
  from init_ext4_sb_geometry_spec [OF sb b(1) this] show "unat (block_size sb) = b" "block_count sb = partition_blocks g"
    by (simp_all add: b_def)
  have b8: "unat (bytes_per_block (boot_sector g) * 8) = 8 * b"
    using B(3) by (subst unat_mult_no_overflow) (simp_all add: b_def)
  show P: "unat (s_blocks_per_group sb) = min (8 * b) 65528"
    using f by (simp add: min_u32_def word_less_nat_alt b8 ext4_constants)
  show "unat (s_first_data_block sb) \<le> 1" using f by auto
  have "min (8 * b) 65528 * b \<le> 65528 * 65536" using B(3) by (intro mult_le_mono) simp_all
  then have "unat (s_blocks_per_group sb * bytes_per_block (boot_sector g)) = min (8 * b) 65528 * b"
    by (subst unat_mult_no_overflow) (simp_all add: P b_def [symmetric])
  then show "unat (s_inodes_per_group sb) = min (min (8 * b) 65528 * b div 16384) (8 * b)"
    using f by (simp add: min_u32_def word_less_nat_alt b8 unat_div ext4_constants)
  show "unat (s_inode_size sb) = 256" "unat (s_reserved_gdt_blocks sb) = 0" "unat (s_desc_size sb) = 64"
    using f by (simp_all add: ext4_constants)
qed

text \<open>
  The FAT geometries of the theorems: clusters of 1 to 64 kB, at least one and fewer than 2 ^ 31, the FATs
  inside the partition, and groups that can hold their own metadata (which the tool does not
  ensure for the last one).
\<close>

definition geometry_ok :: "fat_globals \<Rightarrow> ext4_super_block \<Rightarrow> bool" where
  "geometry_ok g sb \<longleftrightarrow>
     (\<exists>k \<le> 16. bytes_per_block (boot_sector g) = push_bit k 1)
     \<and> 0 < unat (partition_blocks g) \<and> unat (partition_blocks g) + 2 < 2 ^ 31
     \<and> mi_sectors_before_data (meta_info g) \<le> sector_count g
     \<and> list_all (\<lambda>i. block_group_overhead sb (word_of_nat i) \<le> block_group_block_count sb (word_of_nat i))
         [0..<unat (block_group_count sb)]"

lemma group_count_bounds:
  assumes P: "8192 \<le> unat (s_blocks_per_group sb)" "unat (s_blocks_per_group sb) \<le> 65528"
    and n: "unat (block_count sb) < 2147483648"
  shows "unat (s_blocks_per_group sb) * unat (block_group_count sb) < unat (block_count sb) + unat (s_blocks_per_group sb)"
    "unat (block_group_count sb) \<le> unat (block_count sb)"
    "i < unat (block_group_count sb) \<Longrightarrow> unat (s_blocks_per_group sb) * i < unat (block_count sb)"
proof -
  let ?P = "unat (s_blocks_per_group sb)" and ?N = "unat (block_count sb)" and ?G = "unat (block_group_count sb)"
  have G: "?G = (?N + ?P - 1) div ?P" using P(1) n by (intro unat_block_group_count) simp_all
  have "?P * ?G \<le> ?N + ?P - 1" by (simp add: G)
  then show lt: "?P * ?G < ?N + ?P" using P(1) by linarith
  show step: "?P * i < ?N" if "i < ?G" for i
  proof -
    have "?P * (i + 1) \<le> ?P * ?G" using that by (intro mult_le_mono2) simp
    then show ?thesis using lt by simp
  qed
  show "?G \<le> ?N"
  proof (cases "?G = 0")
    case False
    then have "?P * (?G - 1) < ?N" by (intro step) simp
    moreover have "1 * (?G - 1) \<le> ?P * (?G - 1)" using P(1) by (intro mult_le_mono1) simp
    ultimately have "1 * (?G - 1) < ?N" by (rule le_less_trans [rotated])
    then show ?thesis by simp
  qed simp
qed

lemma sb_layout_ok:
  assumes sb: "init_ext4_sb now uuid g = Inr sb" and geo: "geometry_ok g sb"
  shows "layout_ok sb"
proof -
  from geo obtain k where b: "bytes_per_block (boot_sector g) = push_bit k 1" "k \<le> 16"
    by (auto simp: geometry_ok_def)
  note n = sb_numbers [OF sb b]
  define b where "b = unat (bytes_per_block (boot_sector g))"
  note n = n [folded b_def]
  let ?P = "unat (s_blocks_per_group sb)" and ?I = "unat (s_inodes_per_group sb)"
  have N: "unat (block_count sb) < 2147483648" using geo n(4) by (simp add: geometry_ok_def)
  have P: "8192 \<le> ?P" "?P \<le> 65528" "?P \<le> 8 * b" using n(1,5) by auto
  note G = group_count_bounds [OF P(1,2) N]
  have "8192 * 1024 \<le> ?P * b" using P(1) n(1) by (intro mult_le_mono)
  moreover have "?P * b \<le> 65528 * 65536" using P(2) n(2) by (intro mult_le_mono)
  ultimately have q: "512 \<le> ?P * b div 16384" "?P * b div 16384 \<le> 262112" by linarith+
  have I: "11 \<le> ?I" "?I \<le> 262112" "?I \<le> 8 * b" using q n(1) P unfolding n(7) n(5) [symmetric] by linarith+
  have it: "unat (s_inodes_per_group sb * ucast (s_inode_size sb)) = ?I * 256"
    using I(2) n(8) by (subst unat_mult_no_overflow) simp_all
  have "unat (inode_table_blocks sb) = (?I * 256 + b - 1) div b"
    unfolding inode_table_blocks_def using it n(1-3) I(2) by (subst unat_ceildiv_u32) simp_all
  then have T: "unat (inode_table_blocks sb) < 134217728"
    using div_le_dividend [of "?I * 256 + b - 1" b] I(2) n(1,2) by linarith
  have d: "unat (block_size sb div ucast (s_desc_size sb)) = b div 64" using n(3,10) by (simp add: unat_div)
  have "16 \<le> b div 64" "b div 64 \<le> 1024" using n(1,2) by linarith+
  then have "unat (gdt_block_count sb) = (unat (block_group_count sb) + b div 64 - 1) div (b div 64)"
    unfolding gdt_block_count_def using G(2) N by (subst unat_ceildiv_u32) (simp_all add: d)
  then have gd: "unat (gdt_block_count sb) \<le> unat (block_group_count sb) + b div 64 - 1" by simp
  have "unat (s_blocks_per_group sb) * unat (block_group_count sb) + unat (s_first_data_block sb) < 4294967296"
    using G(1) N P(2) n(6) by linarith
  moreover have "3 + unat (gdt_block_count sb) + unat (s_reserved_gdt_blocks sb) + unat (inode_table_blocks sb) < 4294967296"
    using gd G(2) N T \<open>b div 64 \<le> 1024\<close> n(9) by linarith
  moreover have "?I * 256 + b < 4294967296" using I(2) n(2) by linarith
  ultimately show ?thesis
    using P I n(1-3,8) geo
    by (auto simp: layout_ok_def sizeof_inode_def geometry_ok_def list_all_iff word_le_nat_alt)
qed

text \<open>The data area and the partition: block numbers and cluster numbers end together.\<close>

lemma data_area_end:
  assumes info: "set_meta_info fs g0 = Inr g" and data: "mi_sectors_before_data (meta_info g) \<le> sector_count g"
    and size: "bytes_per_block (boot_sector g) \<noteq> 0" and n: "unat (partition_blocks g) + 2 < 2147483648"
  shows "unat (first_data_block g) + unat (data_cluster_count g) = unat (partition_blocks g) + 2"
    and "2 \<le> unat (data_cluster_count g)"
proof -
  let ?bps = "unat (bs_bytes_per_sector (boot_sector g))" and ?spc = "unat (bs_sectors_per_cluster (boot_sector g))"
    and ?sec = "unat (sector_count g)" and ?pre = "unat (mi_sectors_before_data (meta_info g))"
  have "mi_sectors_before_data (meta_info g) mod ucast (bs_sectors_per_cluster (boot_sector g)) = 0"
    using info by (auto simp: set_meta_info_def Let_def split: if_splits del: mod_0_imp_dvd)
  from arg_cong [OF this, of unat] have al: "?spc dvd ?pre"
    by (simp add: unat_mod mod_eq_0_iff_dvd)
  have "?bps * ?spc \<le> 65535 * 255"
    using unat_u16_bound [of "bs_bytes_per_sector (boot_sector g)"] unat_u8_bound [of "bs_sectors_per_cluster (boot_sector g)"]
    by (intro mult_le_mono) linarith+
  then have bpb: "unat (bytes_per_block (boot_sector g)) = ?bps * ?spc"
    unfolding bytes_per_block_def by (subst unat_mult_no_overflow) simp_all
  have "0 < unat (bytes_per_block (boot_sector g))" using size by (simp add: unat_gt_0)
  then have pos: "0 < ?bps" "0 < ?spc" by (simp_all add: bpb)
  have "?bps * ?sec \<le> 65535 * 4294967295"
    using unat_u16_bound [of "bs_bytes_per_sector (boot_sector g)"] unat_u32_bound [of "sector_count g"]
    by (intro mult_le_mono) linarith+
  then have "unat (ucast (bs_bytes_per_sector (boot_sector g)) * ucast (sector_count g) :: u64) = ?bps * ?sec"
    by (subst unat_mult_no_overflow) simp_all
  then have N: "unat (partition_blocks g) = ?sec div ?spc"
    using pos by (simp add: partition_blocks_def unat_div bpb)
  have le: "?pre \<le> ?sec" using data by (simp add: word_le_nat_alt)
  have "?sec div ?spc = (?sec - ?pre + ?pre) div ?spc" using le by simp
  also have "\<dots> = (?sec - ?pre) div ?spc + ?pre div ?spc"
    using al by (rule div_plus_div_distrib_dvd_right)
  finally have split: "?sec div ?spc = (?sec - ?pre) div ?spc + ?pre div ?spc" .
  have f: "unat (first_data_block g) = ?pre div ?spc" by (simp add: first_data_block_def unat_div)
  have "unat (data_cluster_count g) = (?sec - ?pre) div ?spc + 2"
    unfolding data_cluster_count_def FAT_START_INDEX_def
    using le N n split by (subst unat_add_no_overflow) (simp_all add: unat_div unat_sub_no_underflow)
  then show "unat (first_data_block g) + unat (data_cluster_count g) = unat (partition_blocks g) + 2"
    and "2 \<le> unat (data_cluster_count g)"
    using N split f by simp_all
qed

lemma sb_layout_fits:
  assumes sb: "init_ext4_sb now uuid g = Inr sb" and geo: "geometry_ok g sb"
    and info: "set_meta_info fs g0 = Inr g"
  shows "layout_fits g sb (block_group_count sb)"
proof -
  from geo obtain k where b: "bytes_per_block (boot_sector g) = push_bit k 1" "k \<le> 16"
    by (auto simp: geometry_ok_def)
  note n = sb_numbers [OF sb b]
  let ?P = "unat (s_blocks_per_group sb)" and ?N = "unat (block_count sb)" and ?f = "unat (s_first_data_block sb)"
  have N: "?N + 2 < 2147483648" using geo n(4) by (simp add: geometry_ok_def)
  have P: "8192 \<le> ?P" "?P \<le> 65528" using n(1,5) by auto
  have "?N < 2147483648" using N by simp
  note G = group_count_bounds [OF P this]
  have "bytes_per_block (boot_sector g) \<noteq> 0" using n(1) by auto
  then have dat: "unat (first_data_block g) + unat (data_cluster_count g) = ?N + 2"
    using data_area_end [OF info] geo n(4) by (simp add: geometry_ok_def)
  have "unat (block_group_overhead sb i) \<le> ?P
      \<and> unat (block_group_start sb i) + unat (block_group_overhead sb i) + 2
        \<le> unat (first_data_block g) + unat (data_cluster_count g)" if i: "i < block_group_count sb" for i
  proof -
    have iG: "unat i < unat (block_group_count sb)" using i by (simp add: word_less_nat_alt)
    have st: "unat (block_group_start sb i) = ?P * unat i + ?f"
      using G(3) [OF iG] N n(6) by (intro unat_block_group_start) simp
    have le: "unat (block_group_start sb i) \<le> ?N" using st G(3) [OF iG] n(6) by simp
    have c: "unat (block_group_block_count sb i) = min ?P (?N - unat (block_group_start sb i))"
      using le N by (intro unat_block_group_block_count) simp_all
    have "list_all (\<lambda>i. block_group_overhead sb (word_of_nat i) \<le> block_group_block_count sb (word_of_nat i))
        [0..<unat (block_group_count sb)]" using geo by (simp add: geometry_ok_def)
    then have "unat (block_group_overhead sb i) \<le> unat (block_group_block_count sb i)"
      using iG by (auto simp: list_all_iff word_le_nat_alt dest!: bspec [of _ _ "unat i"])
    then have "unat (block_group_overhead sb i) \<le> ?P" "unat (block_group_overhead sb i) \<le> ?N - unat (block_group_start sb i)"
      using c by simp_all
    then show ?thesis using le dat by linarith
  qed
  moreover have "?P * unat (block_group_count sb) + ?f + 2 < 4294967296" using G(1) N P(2) n(6) by linarith
  ultimately show ?thesis by (simp add: layout_fits_def)
qed

text \<open>The copies of the superblock and of the group descriptors fit in front of the bitmaps.\<close>

lemma label_end_le: "label_end label i = Inr j \<Longrightarrow> j \<le> i"
proof (induction i)
  case 0
  then show ?case by (simp add: label_end.simps [of label 0] split: if_splits)
next
  case (Suc i)
  then show ?case by (force simp: label_end.simps [of label "Suc i"] split: if_splits)
qed

lemma volume_name_length:
  assumes "init_ext4_sb now uuid g = Inr sb"
  shows "length (s_volume_name sb) = 16" "s_uuid sb = uuid"
proof -
  obtain label r count where l: "read_volume_label g = Inr label"
    and sb: "sb = sb_inode_fields (bytes_per_block (boot_sector g)) (sb_backup_groups (sb_check_last_group count
      (sb_block_fields (bytes_per_block (boot_sector g)) r count (sb_constant_fields now uuid label))))"
    using assms by (auto simp: init_ext4_sb_def Let_def bytes_per_block_def [symmetric] elim!: bind_resE split: if_splits)
  have "length label \<le> 12"
    using l label_end_le by (fastforce simp: read_volume_label_def bind_res_eq_Inr split: if_splits)
  then show "length (s_volume_name sb) = 16" "s_uuid sb = uuid"
    by (simp_all add: sb sb_inode_fields_def sb_backup_groups_def sb_check_last_group_def sb_block_fields_def
        set_blocks_count_def sb_constant_fields_def zero_super_block_def Let_def split_beta)
qed

lemma sb_copies_fit:
  assumes sb: "init_ext4_sb now uuid g = Inr sb" and geo: "geometry_ok g sb" and u: "length uuid = 16"
  shows "copies_fit sb"
proof -
  from geo obtain k where b: "bytes_per_block (boot_sector g) = push_bit k 1" "k \<le> 16"
    by (auto simp: geometry_ok_def)
  note n = sb_numbers [OF sb b]
  note f = init_ext4_sb_fields [OF sb]
  define b where "b = unat (bytes_per_block (boot_sector g))"
  have "1024 \<le> bytes_per_block (boot_sector g)" using f by blast
  note B = push_bit_bounds [OF b(1) this b(2), folded b_def]
  let ?N = "unat (block_count sb)" and ?G = "unat (block_group_count sb)" and ?q = "b div 64"
  have N: "0 < ?N" "?N < 2147483648" using geo n(4) by (simp_all add: geometry_ok_def)
  have P: "8192 \<le> unat (s_blocks_per_group sb)" "unat (s_blocks_per_group sb) \<le> 65528" using n(1,5) by auto
  note G = group_count_bounds [OF P N(2)]
  have "?G = (?N + unat (s_blocks_per_group sb) - 1) div unat (s_blocks_per_group sb)"
    using P(1) N(2) by (intro unat_block_group_count) simp_all
  moreover have "unat (s_blocks_per_group sb) \<le> ?N + unat (s_blocks_per_group sb) - 1" using N(1) by simp
  ultimately have "0 < ?G" using P(1) by (simp only: div_greater_zero_iff) simp
  then have Gpos: "1 \<le> ?G" by linarith
  have "10 \<le> k" using B(1,2) power_increasing_iff [of "2::nat" 10 k] by simp
  then have q: "b = 64 * ?q" using B(1) le_imp_power_dvd [of 6 k "2::nat"] by simp
  have qb: "16 \<le> ?q" "?q \<le> 1024" using B(2,3) by linarith+
  have "unat (block_size sb div ucast (s_desc_size sb)) = ?q" using n(3,10) by (simp add: unat_div b_def)
  then have gdt: "unat (gdt_block_count sb) = (?G + ?q - 1) div ?q"
    unfolding gdt_block_count_def using G(2) N(2) qb by (subst unat_ceildiv_u32) simp_all
  have "?G + ?q - 1 < ((?G + ?q - 1) div ?q + 1) * ?q"
    using dividend_less_div_times [of ?q "?G + ?q - 1"] qb by (simp add: distrib_right)
  then have "?G \<le> unat (gdt_block_count sb) * ?q" unfolding gdt distrib_right using qb by linarith
  then have "64 * ?G \<le> 64 * (unat (gdt_block_count sb) * ?q)" by (rule mult_le_mono2)
  also have "\<dots> = unat (gdt_block_count sb) * unat (block_size sb)" using q n(3) by (simp add: b_def)
  finally have fit: "64 * ?G \<le> unat (gdt_block_count sb) * unat (block_size sb)" .
  have "s_backup_bg0 sb < block_group_count sb" "s_backup_bg1 sb < block_group_count sb"
    using f Gpos by (auto simp: word_less_nat_alt unat_sub_no_underflow)
  then show ?thesis
    using fit B(4) n(3) volume_name_length [OF sb] u by (simp add: copies_fit_def sizeof_group_desc_def b_def)
qed

text \<open>What \<open>prepare\<close> computes, step by step.\<close>

lemma prepare_parts:
  assumes "prepare env uuid fs g0 a0 m = Inr (g, s)"
  obtains blocked where "set_meta_info fs (read_boot_sector m fs g0) = Inr g"
    "init_ext4_sb (env_time env 0) uuid g = Inr (fs_sb s)"
    "create_block_group_meta_extents g (fs_sb s) (block_group_count (fs_sb s)) = Inr blocked"
    "init_extent_allocator g m blocked (block_group_count (fs_sb s)) a0 = Inr (alloc s)"
    "mem s = m" "fs_group_descs s = []" "fs_first_free_inode_no s = first_free_inode_start"
  using assms by (auto simp: prepare_def Let_def bind_res_eq_Inr)

lemma prepared_state:
  assumes prep: "prepare env uuid fs g0 a0 m = Inr (g, s)" and geo: "geometry_ok g (fs_sb s)"
  shows "block_size (fs_sb s) = mi_cluster_size (meta_info g)"
    and "unat (block_count (fs_sb s)) + 2 = unat (first_data_block g) + unat (data_cluster_count g)"
    and "layout_ok (fs_sb s)" and "layout_fits g (fs_sb s) (block_group_count (fs_sb s))"
    and "2 \<le> unat (data_cluster_count g)" and "unat (data_cluster_count g) < 2147483648"
    and "unat (data_cluster_count g) + unat (first_data_block g) < 2147483648"
proof -
  obtain blocked where info: "set_meta_info fs (read_boot_sector m fs g0) = Inr g"
    and sb: "init_ext4_sb (env_time env 0) uuid g = Inr (fs_sb s)"
    using prepare_parts [OF prep] by blast
  from geo obtain k where b: "bytes_per_block (boot_sector g) = push_bit k 1" "k \<le> 16"
    by (auto simp: geometry_ok_def)
  note n = sb_numbers [OF sb b]
  have "bytes_per_block (boot_sector g) = mi_cluster_size (meta_info g)"
    using info by (auto simp: set_meta_info_def bytes_per_block_def Let_def split: if_splits)
  moreover have "block_size (fs_sb s) = bytes_per_block (boot_sector g)"
    using n(3) by (simp add: word_unat_eq_iff)
  ultimately show "block_size (fs_sb s) = mi_cluster_size (meta_info g)" by simp
  have N: "unat (partition_blocks g) + 2 < 2147483648" using geo by (simp add: geometry_ok_def)
  have "bytes_per_block (boot_sector g) \<noteq> 0" using n(1) by auto
  moreover have "mi_sectors_before_data (meta_info g) \<le> sector_count g" using geo by (simp add: geometry_ok_def)
  ultimately have d: "unat (first_data_block g) + unat (data_cluster_count g) = unat (partition_blocks g) + 2"
    and "2 \<le> unat (data_cluster_count g)"
    using data_area_end [OF info _ _ N] by blast+
  then show "2 \<le> unat (data_cluster_count g)"
    and "unat (data_cluster_count g) < 2147483648"
    and "unat (data_cluster_count g) + unat (first_data_block g) < 2147483648"
    and "unat (block_count (fs_sb s)) + 2 = unat (first_data_block g) + unat (data_cluster_count g)"
    using N n(4) by simp_all
  show "layout_ok (fs_sb s)" by (rule sb_layout_ok [OF sb geo])
  show "layout_fits g (fs_sb s) (block_group_count (fs_sb s))" by (rule sb_layout_fits [OF sb geo info])
qed

text \<open>
  C16. For these geometries the state that \<open>main\<close> starts to convert is well-formed: the memory is
  untouched, blocks are as large as clusters and end where the data area ends, the layout of the
  block groups is sound, the allocator's reserved extents are ordered, and its free clusters are
  exactly the data clusters that the FAT marks as free.
\<close>

theorem prepare_well_formed:
  assumes prep: "prepare env uuid fs g0 a0 m = Inr (g, s)" and geo: "geometry_ok g (fs_sb s)"
  shows "mem s = m \<and> block_size (fs_sb s) = mi_cluster_size (meta_info g)
    \<and> (length uuid = 16 \<longrightarrow> copies_fit (fs_sb s))
    \<and> unat (block_count (fs_sb s)) + 2 = unat (first_data_block g) + unat (data_cluster_count g)
    \<and> layout_ok (fs_sb s) \<and> layout_fits g (fs_sb s) (block_group_count (fs_sb s)) \<and> alloc_wf (alloc s)
    \<and> (\<forall>c < unat (data_cluster_count g). cluster_free (alloc s) c \<longleftrightarrow>
         2 \<le> c \<and> is_free_cluster (load_u32 m (fat_entry g (word_of_nat c))))"
proof -
  obtain blocked where sb: "init_ext4_sb (env_time env 0) uuid g = Inr (fs_sb s)" and
    blocked: "create_block_group_meta_extents g (fs_sb s) (block_group_count (fs_sb s)) = Inr blocked"
    and init: "init_extent_allocator g m blocked (block_group_count (fs_sb s)) a0 = Inr (alloc s)" and m: "mem s = m"
    using prepare_parts [OF prep] by blast
  note S = prepared_state [OF prep geo]
  have "unat (data_cluster_count g) < 2 ^ 31" using S(6) by simp
  from init_extent_allocator_spec [OF blocked S(4,5) this, of m a0] init show ?thesis
    using S m sb_copies_fit [OF sb geo] by simp
qed

subsection \<open>A sample partition\<close>

text \<open>The boot sector of the sample partition as it is on disk, at the address 65536; all else is zero.\<close>

definition sample_boot_bytes :: "u8 list" where
  "sample_boot_bytes = [
     0xEB, 0x58, 0x90, 0x20, 0x20, 0x20, 0x20, 0x20, 0x20, 0x20, 0x20, 0, 0x02, 0x08, 0x20, 0, 0x02, 0,
     0, 0, 0, 0xF8, 0, 0, 0x20, 0, 0x40, 0, 0, 0, 0, 0, 0x40, 0x10, 0x08, 0,
     0x04, 0x02, 0, 0, 0, 0, 0, 0, 0x02, 0, 0, 0, 0x01, 0, 0x06, 0, 0, 0,
     0, 0, 0, 0, 0, 0, 0, 0, 0, 0, 0x80, 0, 0x29, 0x78, 0x56, 0x34, 0x12, 0x44,
     0x41, 0x54, 0x41, 0x20, 0x20, 0x20, 0x20, 0x20, 0x20, 0x20, 0, 0, 0, 0, 0, 0, 0, 0]"

definition sample_partition :: memory where
  "sample_partition = (\<lambda>x. if 65536 \<le> x \<and> x < 65626 then sample_boot_bytes ! (x - 65536) else 0)"

lemma load_le_bytes:
  "load_le 1 m a = unat (m a)"
  "load_le 2 m a = unat (m a) + 256 * unat (m (a + 1))"
  "load_le 4 m a = unat (m a) + 256 * (unat (m (a + 1)) + 256 * (unat (m (a + 2)) + 256 * unat (m (a + 3))))"
  "load_le 8 m a = load_le 4 m a + 4294967296 * load_le 4 m (a + 4)"
proof -
  have n: "1 = Suc 0" "2 = Suc (Suc 0)" "4 = Suc (Suc (Suc (Suc 0)))"
    "8 = Suc (Suc (Suc (Suc (Suc (Suc (Suc (Suc 0)))))))" by simp_all
  have s: "a + 1 = Suc a" "a + 2 = Suc (Suc a)" "a + 3 = Suc (Suc (Suc a))" "a + 4 = Suc (Suc (Suc (Suc a)))" for a
    by simp_all
  show "load_le 1 m a = unat (m a)" by (simp only: n(1)) simp
  show "load_le 2 m a = unat (m a) + 256 * unat (m (a + 1))"
    by (subst n(2)) simp
  show "load_le 4 m a = unat (m a) + 256 * (unat (m (a + 1)) + 256 * (unat (m (a + 2)) + 256 * unat (m (a + 3))))" for a
    by (subst n(3)) (simp only: s load_le.simps mult_0_right add_0_right)
  then show "load_le 8 m a = load_le 4 m a + 4294967296 * load_le 4 m (a + 4)"
    by (subst n(4)) (simp only: s load_le.simps mult_0_right add_0_right, simp)
qed

lemma sample_reserved: "replicate 12 (0 :: u8) = [0, 0, 0, 0, 0, 0, 0, 0, 0, 0, 0, 0]"
  by (simp add: numeral_eq_Suc)

lemma sample_read_boot_sector: "read_boot_sector sample_partition 65536 sample_globals = sample_globals"
proof -
  have "load_boot_sector sample_partition 65536 = sample_boot_sector"
    by (simp add: load_boot_sector_def sample_boot_sector_def sample_partition_def sample_boot_bytes_def
        load_u8_def load_u16_def load_u32_def load_u64_def load_bytes_def load_le_bytes replicate_sample
        sample_reserved)
  then show ?thesis by (simp add: read_boot_sector_def sample_globals_def)
qed

definition sample_prepared :: ext4_state where
  "sample_prepared = snd (projr (prepare sample_environment sample_uuid 65536 sample_globals sample_alloc sample_partition))"

lemma sample_prepare:
  "prepare sample_environment sample_uuid 65536 sample_globals sample_alloc sample_partition = Inr (sample_globals, sample_prepared)"
  and sample_prepared_sb: "fs_sb sample_prepared = sample_super_block"
proof -
  obtain a where a: "init_extent_allocator sample_globals sample_partition sample_meta_extents 3 sample_alloc = Inr a"
    using init_extent_allocator_spec [OF sample_create_meta_extents sample_layout_fits, of sample_partition sample_alloc] by (auto simp: sample_layout(3))
  have e: "env_time sample_environment 0 = 1000" by (simp add: sample_environment_def)
  have "prepare sample_environment sample_uuid 65536 sample_globals sample_alloc sample_partition = Inr (sample_globals,
      \<lparr>mem = sample_partition, alloc = a, fs_sb = sample_super_block, fs_group_descs = [],
       fs_first_free_inode_no = first_free_inode_start\<rparr>)"
    by (simp add: prepare_def sample_read_boot_sector sample_set_meta_info e sample_init_ext4_sb sample_layout
        sample_create_meta_extents a)
  then show "prepare sample_environment sample_uuid 65536 sample_globals sample_alloc sample_partition = Inr (sample_globals, sample_prepared)"
    and "fs_sb sample_prepared = sample_super_block"
    by (simp_all add: sample_prepared_def)
qed

lemma sample_geometry_ok: "geometry_ok sample_globals sample_super_block"
proof -
  have b: "bytes_per_block (boot_sector sample_globals) = push_bit 12 1"
    by (simp add: bytes_per_block_def sample_globals_def sample_boot_sector_def)
  have "partition_blocks sample_globals = 66056"
    by (simp add: partition_blocks_def bytes_per_block_def sample_globals_def sample_boot_sector_def sector_count_def)
  moreover have "mi_sectors_before_data (meta_info sample_globals) \<le> sector_count sample_globals"
    by (simp add: sample_globals_def sample_boot_sector_def sector_count_def)
  ultimately show ?thesis
    unfolding geometry_ok_def using b by (auto simp: sample_layout sample_counts upt_rec intro!: exI [of _ 12])
qed

theorem prepare_well_formed_witness:
  "\<exists>s. prepare sample_environment sample_uuid 65536 sample_globals sample_alloc sample_partition = Inr (sample_globals, s)
     \<and> layout_ok (fs_sb s) \<and> copies_fit (fs_sb s) \<and> alloc_wf (alloc s)"
  using prepare_well_formed [OF sample_prepare] sample_geometry_ok sample_prepare
  by (auto simp: sample_prepared_sb sample_uuid_def)

end
