(* ===== verification/File_Trees.thy ===== *)
theory File_Trees
  imports Extent_Trees File_Extents
begin

section \<open>The extent tree of a file\<close>

text \<open>
  What \<open>set_extents\<close> of ext4_extent.cpp promises: the extents that the stream holds for a file, as
  \<open>aggregate_extents\<close> has written them, become the extents of its inode, in order, while neither
  the stream nor the other inodes change.
\<close>

text \<open>The states whose memory holds the bytes \<open>P\<close> of \<open>m\<close>.\<close>

definition readers :: "nat set \<Rightarrow> memory \<Rightarrow> ext4_state set" where
  "readers P m = {r. agree_on P m (mem r)}"

lemma readers_iff [simp]: "r \<in> readers P m \<longleftrightarrow> agree_on P m (mem r)"
  by (simp add: readers_def)

text \<open>The bytes of the metadata that registering extents for the inode \<open>k\<close> keeps.\<close>

definition kept_bytes :: "fat_globals \<Rightarrow> ext4_state \<Rightarrow> u32 \<Rightarrow> nat set" where
  "kept_bytes g s k = meta_bytes g s - bitmap_bytes g s - count_bytes g s k - {tree_root g s k..<tree_root g s k + 60}"

lemma same_groups_addresses:
  assumes S: "same_groups g (s\<lparr>alloc := al\<rparr>) s'" and k: "valid_inode s k"
  shows "valid_inode s' k" "inode_addr g s' k = inode_addr g s k" "tree_root g s' k = tree_root g s k"
    "count_bytes g s' k = count_bytes g s k" "meta_bytes g s' = meta_bytes g s" "bitmap_bytes g s' = bitmap_bytes g s"
    "kept_bytes g s' k = kept_bytes g s k" "fs_sb s' = fs_sb s" "alloc s' = al"
proof -
  show 1: "valid_inode s' k" "inode_addr g s' k = inode_addr g s k" using same_groups_inode [OF S, of k] k by simp_all
  then show 2: "tree_root g s' k = tree_root g s k" "count_bytes g s' k = count_bytes g s k"
    by (simp_all add: tree_root_def count_bytes_def)
  show 3: "meta_bytes g s' = meta_bytes g s" "bitmap_bytes g s' = bitmap_bytes g s"
    using same_groups_meta [OF S] same_groups_bitmaps [OF S] by simp_all
  show "kept_bytes g s' k = kept_bytes g s k" by (simp add: kept_bytes_def 2 3)
  show "fs_sb s' = fs_sb s" "alloc s' = al" using S by (simp_all add: same_groups_def)
qed

lemma tree_in_meta:
  assumes "tree_ok g s k"
  shows "tree_bytes g s k \<inter> kept_bytes g s k = {}"
  using assms by (cases rule: tree_okE) (auto simp: kept_bytes_def)

lemma extent_free_keep:
  assumes inv: "groups_inv g s" and free: "extent_free g s e" and S: "same_groups g (s\<lparr>alloc := al\<rparr>) s'"
    and used: "\<And>x. valid_block s x \<Longrightarrow> block_used g s' x \<longleftrightarrow> x \<in> B \<or> block_used g s x" and B: "extent_blocks e \<inter> B = {}"
  shows "extent_free g s' e"
proof -
  have v: "valid_block s' x = valid_block s x" "block_idx s' x = block_idx s x" "fs_sb s' = fs_sb s" for x
    using same_groups_blocks [OF S] S by (simp_all add: block_idx_def same_groups_def)
  have "\<not> block_used g s' x" if x: "x \<in> extent_blocks e" for x
    using used [OF extent_free_valid [OF inv free x]] B x free unfolding extent_free_def by blast
  then show ?thesis using free by (simp add: extent_free_def v)
qed

lemma leaf_block_keep:
  assumes inv: "groups_inv g s" and leaf: "leaf_block_off g s X P" and S: "same_groups g (s\<lparr>alloc := alloc s\<rparr>) s'"
    and used: "\<And>x. valid_block s x \<Longrightarrow> block_used g s' x \<longleftrightarrow> x \<in> B \<or> block_used g s x" and B: "B \<subseteq> X" and Y: "Y \<subseteq> X"
  shows "leaf_block_off g s' Y P"
proof -
  obtain f al where f: "allocate_extent 1 (alloc s) = Inr (f, al)" "extent_free g s (to_ext4_extent g f)"
    "node_bytes (fs_sb s) (node_address g (fs_sb s) f) \<inter> (meta_bytes g s \<union> P) = {}"
    "extent_blocks (to_ext4_extent g f) \<inter> X = {}"
    using leaf unfolding leaf_block_off_def by blast
  have "extent_free g s' (to_ext4_extent g f)"
    by (rule extent_free_keep [OF inv f(2) S used]) (use f(4) B in blast)+
  moreover have "fs_sb s' = fs_sb s" "alloc s' = alloc s" using S by (simp_all add: same_groups_def)
  moreover have "meta_bytes g s' = meta_bytes g s" using same_groups_meta [OF S] by simp
  ultimately show ?thesis using f Y unfolding leaf_block_off_def by (intro exI [of _ f] exI [of _ al]) auto
qed

subsection \<open>Registering the extents one by one\<close>

abbreviation blocks_of :: "fat_globals \<Rightarrow> fat_extent \<Rightarrow> nat set" where
  "blocks_of g f \<equiv> extent_blocks (to_ext4_extent g f)"

text \<open>
  Everything is ready to register the extents \<open>fs\<close> for the inode \<open>k\<close> while the bytes \<open>P\<close> stay:
  one leaf has room for them, their blocks are free and disjoint, and a free block for the leaf
  is at hand if it is needed.
\<close>

definition file_ready :: "fat_globals \<Rightarrow> ext4_state \<Rightarrow> u32 \<Rightarrow> nat set \<Rightarrow> fat_extent list \<Rightarrow> bool" where
  "file_ready g s k P fs \<longleftrightarrow> groups_inv g s \<and> valid_inode s k \<and> tree_ok g s k
     \<and> length (inode_extents g s k) + length fs \<le> unat (max_entries (fs_sb s))
     \<and> (\<forall>f \<in> set fs. extent_free g s (to_ext4_extent g f))
     \<and> sorted_wrt (\<lambda>e f. blocks_of g e \<inter> blocks_of g f = {}) fs
     \<and> (length (inode_extents g s k) \<le> 4 \<and> 4 < length (inode_extents g s k) + length fs \<longrightarrow>
          leaf_block_off g s (\<Union>f \<in> set fs. blocks_of g f) P)
     \<and> meta_bytes g s \<inter> P = {} \<and> tree_bytes g s k \<inter> P = {}"

lemma file_readyD:
  assumes "file_ready g s k P fs"
  shows "groups_inv g s" "valid_inode s k" "tree_ok g s k" "meta_bytes g s \<inter> P = {}" "tree_bytes g s k \<inter> P = {}"
    "length (inode_extents g s k) + length fs \<le> unat (max_entries (fs_sb s))"
    "f \<in> set fs \<Longrightarrow> extent_free g s (to_ext4_extent g f)"
  using assms by (simp_all add: file_ready_def)

text \<open>What changes and what does not while the blocks \<open>B\<close> are registered.\<close>

definition registered :: "fat_globals \<Rightarrow> u32 \<Rightarrow> nat set \<Rightarrow> nat set \<Rightarrow> ext4_state \<Rightarrow> ext4_state \<Rightarrow> bool" where
  "registered g k P B s s' \<longleftrightarrow> (\<exists>al. same_groups g (s\<lparr>alloc := al\<rparr>) s')
     \<and> fs_first_free_inode_no s' = fs_first_free_inode_no s
     \<and> agree_on (P \<union> kept_bytes g s k) (mem s) (mem s')
     \<and> (\<forall>x. valid_block s x \<longrightarrow> x \<in> B \<or> block_used g s x \<longrightarrow> block_used g s' x)
     \<and> (\<forall>j. valid_inode s j \<longrightarrow> inode_used g s' j = inode_used g s j)"

lemma registered_refl: "registered g k P {} s s"
  by (auto simp: registered_def agree_on_def same_groups_def intro: exI [of _ "alloc s"])

lemma registered_trans:
  assumes r: "registered g k P B s s1" "registered g k P C s1 s2" and k: "valid_inode s k"
  shows "registered g k P (B \<union> C) s s2"
proof -
  obtain al1 al2 where S: "same_groups g (s\<lparr>alloc := al1\<rparr>) s1" "same_groups g (s1\<lparr>alloc := al2\<rparr>) s2"
    using r by (auto simp: registered_def)
  then have "same_groups g (s\<lparr>alloc := al2\<rparr>) s2" by (simp add: same_groups_def)
  moreover have "valid_block s1 x = valid_block s x" "valid_inode s1 j = valid_inode s j" for x j
    using same_groups_blocks [OF S(1)] same_groups_inodes [OF S(1)] by simp_all
  moreover have "kept_bytes g s1 k = kept_bytes g s k" by (rule same_groups_addresses(7) [OF S(1) k])
  ultimately show ?thesis
    using r unfolding registered_def by (auto simp: agree_on_def)
qed

lemma register_step:
  assumes R: "file_ready g s k P (f # fs)"
  shows "\<exists>s'. register_extent g f k True s = Some (Inr s') \<and> file_ready g s' k P fs
    \<and> inode_extents g s' k = inode_extents g s k @ [to_ext4_extent g f] \<and> registered g k P (blocks_of g f) s s'"
proof -
  note D = file_readyD [OF R]
  let ?X = "\<Union>f \<in> set (f # fs). blocks_of g f" and ?n = "length (inode_extents g s k)"
  have leaf: "?n \<le> 4 \<Longrightarrow> 4 < ?n + length (f # fs) \<Longrightarrow> leaf_block_off g s ?X P" using R by (simp add: file_ready_def)
  have dis: "\<forall>e \<in> set fs. blocks_of g f \<inter> blocks_of g e = {}" using R by (simp add: file_ready_def)
  obtain s' al Y where s': "register_extent g f k True s = Some (Inr s')" "groups_inv g s'"
    "same_groups g (s\<lparr>alloc := al\<rparr>) s'" "fs_first_free_inode_no s' = fs_first_free_inode_no s" "tree_ok g s' k"
    "inode_extents g s' k = inode_extents g s k @ [to_ext4_extent g f]"
    "\<And>x. valid_block s x \<Longrightarrow> block_used g s' x \<longleftrightarrow> x \<in> blocks_of g f \<union> Y \<or> block_used g s x"
    "\<And>j. valid_inode s j \<Longrightarrow> inode_used g s' j = inode_used g s j"
    "agree_on (- (tree_bytes g s' k \<union> count_bytes g s k \<union> bitmap_bytes g s)) (mem s) (mem s')"
    "tree_bytes g s' k \<inter> P = {}" "?n \<noteq> 4 \<longrightarrow> al = alloc s \<and> Y = {}" "Y \<inter> ?X = {}"
    using register_extent_spec [OF D(1-3) _ D(7), of f ?X P] D(5,6) leaf by auto
  note A = same_groups_addresses [OF s'(3) D(2)]
  have "agree_on (P \<union> kept_bytes g s k) (mem s) (mem s')"
  proof (rule agree_on_mono [OF s'(9)])
    have "count_bytes g s k \<subseteq> meta_bytes g s" "bitmap_bytes g s \<subseteq> meta_bytes g s"
      using count_bytes_in_slot slot_in_meta(1) [OF D(1,2)] bitmap_in_meta by blast+
    then show "P \<union> kept_bytes g s k \<subseteq> - (tree_bytes g s' k \<union> count_bytes g s k \<union> bitmap_bytes g s)"
      using s'(10) D(4) tree_in_meta [OF s'(5)] unfolding A(7) by (auto simp: kept_bytes_def)
  qed
  then have reg: "registered g k P (blocks_of g f) s s'"
    using s'(3,4,7,8) by (auto simp: registered_def)
  have "extent_free g s' (to_ext4_extent g e)" if e: "e \<in> set fs" for e
  proof (rule extent_free_keep [OF D(1) _ s'(3,7)])
    show "extent_free g s (to_ext4_extent g e)" using D(7) e by simp
    show "blocks_of g e \<inter> (blocks_of g f \<union> Y) = {}" using dis s'(12) e by auto
  qed
  moreover have "leaf_block_off g s' (\<Union>f \<in> set fs. blocks_of g f) P"
    if "length (inode_extents g s' k) \<le> 4 \<and> 4 < length (inode_extents g s' k) + length fs"
  proof -
    have n: "?n < 4" "4 < ?n + length (f # fs)" using that by (simp_all add: s'(6))
    then have "al = alloc s" "Y = {}" using s'(11) by simp_all
    then show ?thesis
      using leaf_block_keep [OF D(1) leaf, of s' "blocks_of g f" "\<Union>f \<in> set fs. blocks_of g f"] n s'(3,7) by auto
  qed
  ultimately have "file_ready g s' k P fs"
    using R s'(2,5,10) A(1) D(4,6) unfolding file_ready_def by (simp add: A(5,8) s'(6))
  then show ?thesis using s'(1,6) reg by blast
qed

subsection \<open>The loop over the stream\<close>

text \<open>What \<open>set_extents\<close> does after setting the size.\<close>

definition set_rest :: "fat_globals \<Rightarrow> u64 \<Rightarrow> u32 \<Rightarrow> stream \<Rightarrow> ext4_state \<Rightarrow> (stream \<times> ext4_state) run" where
  "set_rest g ps k w s = bind_run (Some (getNext g ps (word_of_nat sizeof_fat_extent) w s))
     (\<lambda>q. set_extents_loop g ps k (fst q) (fst (snd q)) (snd (snd q)))"

lemma set_rest_end:
  "getNext g ps (word_of_nat sizeof_fat_extent) w s = Inr (0, w', s) \<Longrightarrow> set_rest g ps k w s = Some (Inr (w', s))"
  by (simp add: set_rest_def set_extents_loop.simps)

lemma set_rest_extent:
  assumes "getNext g ps (word_of_nat sizeof_fat_extent) w s = Inr (a, w', s)" and "a \<noteq> 0"
    and "register_extent g (load_fat_extent (mem s) a) k True s = Some (Inr s')"
  shows "set_rest g ps k w s = set_rest g ps k w' s'"
  using assms by (simp add: set_rest_def set_extents_loop.simps [of g ps k a])

lemma set_rest_spec:
  assumes "file_ready g s k P fs" and "stable_segment g ps (readers P m) w fs w'" and "agree_on P m (mem s)"
  shows "\<exists>s'. set_rest g ps k w s = Some (Inr (w', s')) \<and> file_ready g s' k P []
    \<and> inode_extents g s' k = inode_extents g s k @ map (to_ext4_extent g) fs
    \<and> registered g k P (\<Union>f \<in> set fs. blocks_of g f) s s'"
  using assms
proof (induction fs arbitrary: s w)
  case Nil
  have "\<forall>r \<in> readers P m. getNext g ps (word_of_nat sizeof_fat_extent) w r = Inr (0, w', r)"
    using Nil.prems(2) by (rule stable_segment_NilE) blast
  then have "set_rest g ps k w s = Some (Inr (w', s))" using Nil.prems(3) by (intro set_rest_end) simp
  then show ?case using Nil.prems(1) registered_refl [of g k P s] by simp
next
  case (Cons f fs)
  obtain a w1 where a: "\<forall>r \<in> readers P m. getNext g ps (word_of_nat sizeof_fat_extent) w r = Inr (a, w1, r)
      \<and> load_fat_extent (mem r) a = f" "a \<noteq> 0" "stable_segment g ps (readers P m) w1 fs w'"
    using Cons.prems(2) by (rule stable_segment_ConsE) blast
  then have next': "getNext g ps (word_of_nat sizeof_fat_extent) w s = Inr (a, w1, s)" "load_fat_extent (mem s) a = f"
    using Cons.prems(3) by simp_all
  obtain s1 where s1: "register_extent g f k True s = Some (Inr s1)" "file_ready g s1 k P fs"
    "inode_extents g s1 k = inode_extents g s k @ [to_ext4_extent g f]" "registered g k P (blocks_of g f) s s1"
    using register_step [OF Cons.prems(1)] by blast
  have "agree_on P m (mem s1)"
    using Cons.prems(3) s1(4) by (auto simp: registered_def agree_on_def)
  from Cons.IH [OF s1(2) a(3) this] obtain s' where s': "set_rest g ps k w1 s1 = Some (Inr (w', s'))" "file_ready g s' k P []"
    "inode_extents g s' k = inode_extents g s1 k @ map (to_ext4_extent g) fs"
    "registered g k P (\<Union>f \<in> set fs. blocks_of g f) s1 s'" by blast
  have "set_rest g ps k w s = Some (Inr (w', s'))"
    using set_rest_extent [OF next'(1) a(2)] next'(2) s1(1) s'(1) by simp
  moreover have "registered g k P (\<Union>f \<in> set (f # fs). blocks_of g f) s s'"
    using registered_trans [OF s1(4) s'(4) file_readyD(2) [OF Cons.prems(1)]] by simp
  ultimately show ?case using s'(2,3) s1(3) by simp
qed

definition size_bytes :: "fat_globals \<Rightarrow> ext4_state \<Rightarrow> u32 \<Rightarrow> nat set" where
  "size_bytes g s k = {inode_addr g s k + 4..<inode_addr g s k + 8} \<union> {inode_addr g s k + 108..<inode_addr g s k + 112}"

lemma slots_kept:
  assumes inv: "groups_inv g s" and k: "valid_inode s k"
  shows "size_bytes g s k \<subseteq> kept_bytes g s k" "valid_inode s j \<Longrightarrow> j \<noteq> k \<Longrightarrow> inode_slot g s j \<subseteq> kept_bytes g s k"
proof -
  have "size_bytes g s k \<subseteq> inode_slot g s k" by (auto simp: size_bytes_def inode_slot_def)
  then have "size_bytes g s k \<subseteq> meta_bytes g s - bitmap_bytes g s"
    using slot_in_meta(1) [OF inv k] slot_not_bitmap [OF inv k] by blast
  then show "size_bytes g s k \<subseteq> kept_bytes g s k"
    by (auto simp: kept_bytes_def size_bytes_def count_bytes_def tree_root_def)
  assume j: "valid_inode s j" "j \<noteq> k"
  show "inode_slot g s j \<subseteq> kept_bytes g s k"
    using slot_in_meta(1) [OF inv j(1)] slot_not_bitmap [OF inv j(1)] inode_slots_disjoint [OF inv k j]
      count_bytes_in_slot [of g s k] tree_root_in_slot [of g s k]
    unfolding kept_bytes_def by blast
qed

lemma set_size_ready:
  assumes R: "file_ready g s k P fs"
  shows "\<exists>m. set_size g k sz s = Inr (s\<lparr>mem := m\<rparr>) \<and> file_ready g (s\<lparr>mem := m\<rparr>) k P fs
    \<and> inode_extents g (s\<lparr>mem := m\<rparr>) k = inode_extents g s k
    \<and> agree_on (- size_bytes g s k) (mem s) m \<and> get_size g k (s\<lparr>mem := m\<rparr>) = Inr sz
    \<and> (\<forall>x. valid_block s x \<longrightarrow> block_used g (s\<lparr>mem := m\<rparr>) x = block_used g s x)
    \<and> (\<forall>j. valid_inode s j \<longrightarrow> inode_used g (s\<lparr>mem := m\<rparr>) j = inode_used g s j)"
proof -
  note D = file_readyD [OF R]
  let ?a = "inode_addr g s k"
  define m where "m = store_u32 (store_u32 (mem s) (?a + 4) (fst (set_lo_hi_32_32 sz))) (?a + 108) (snd (set_lo_hi_32_32 sz))"
  let ?s = "s\<lparr>mem := m\<rparr>"
  have run: "set_size g k sz s = Inr ?s"
    by (simp add: set_size_def get_existing_inode_eq [OF D(1,2)] split_beta m_def)
  have ag: "agree_on (- size_bytes g s k) (mem s) m"
    by (auto simp: agree_on_def m_def size_bytes_def u32.store_frame)
  have sub: "size_bytes g s k \<subseteq> inode_slot g s k" "size_bytes g s k \<inter> {tree_root g s k..<tree_root g s k + 60} = {}"
    by (auto simp: size_bytes_def inode_slot_def tree_root_def)
  have "agree_on (bitmap_bytes g s) (mem s) m"
    using slot_not_bitmap [OF D(1,2)] sub(1) by (intro agree_on_mono [OF ag]) blast
  note W = written_elsewhere [OF D(1) this]
  have S: "same_groups g (s\<lparr>alloc := alloc s\<rparr>) ?s" using W(2) by simp
  have "size_bytes g s k \<subseteq> kept_bytes g s k" using slots_kept(1) [OF D(1,2)] .
  then have tb: "agree_on (tree_bytes g s k) (mem s) (mem ?s)"
    using tree_in_meta [OF D(3)] by (auto intro: agree_on_mono [OF ag])
  note T = tree_frame [OF D(2,3) S tb]
  note A = same_groups_addresses [OF S D(2)]
  have used: "block_used g ?s x \<longleftrightarrow> x \<in> {} \<or> block_used g s x" if "valid_block s x" for x using W(3) [OF that] by simp
  have "extent_free g ?s (to_ext4_extent g e)" if "e \<in> set fs" for e
    by (rule extent_free_keep [OF D(1) D(7) [OF that] S used]) simp_all
  moreover have "leaf_block_off g ?s X P" if "leaf_block_off g s X P" for X
    by (rule leaf_block_keep [OF D(1) that S used]) simp_all
  ultimately have "file_ready g ?s k P fs"
    using R W(1) T(1-3) A(1,5) by (simp add: file_ready_def)
  moreover have "get_size g k ?s = Inr sz"
  proof -
    have "load_u32 m (?a + 4) = fst (set_lo_hi_32_32 sz)" "load_u32 m (?a + 108) = snd (set_lo_hi_32_32 sz)"
      by (simp_all add: m_def codec_simps)
    then show ?thesis
      using get_existing_inode_eq [OF W(1) A(1)] by (simp add: get_size_def A(2) from_set_lo_hi_32_32)
  qed
  ultimately show ?thesis using run T(2) ag W(3,4) by (intro exI [of _ m]) simp
qed

text \<open>
  C6. \<open>set_extents\<close> gives the inode of a file the extents that the stream holds for it: it returns
  with the stream behind the segment, the inode's tree is read as the extents found before followed by those of the segment, in their
  order, and the inode's size is that of the FAT entry. The bytes \<open>P\<close> of the stream stay, all
  blocks of the extents are marked as used and none is unmarked, and no other inode changes. It
  takes disjoint free extents, each within a block group, and room for them in one leaf.
\<close>

theorem set_extents_correct:
  assumes ready: "file_ready g s k P fs" and seg: "stable_segment g ps (readers P (mem s)) w fs w'"
  shows "\<exists>s'. set_extents g ps k dentry w s = Some (Inr (w', s')) \<and> groups_inv g s' \<and> tree_ok g s' k
    \<and> inode_extents g s' k = inode_extents g s k @ map (to_ext4_extent g) fs
    \<and> get_size g k s' = Inr (ucast (fd_file_size (load_fat_dentry (mem s) dentry)))
    \<and> agree_on P (mem s) (mem s')
    \<and> (\<forall>x. valid_block s x \<longrightarrow> x \<in> (\<Union>f \<in> set fs. blocks_of g f) \<or> block_used g s x \<longrightarrow> block_used g s' x)
    \<and> (\<forall>j. valid_inode s j \<longrightarrow> inode_used g s' j = inode_used g s j
        \<and> (j \<noteq> k \<longrightarrow> load_inode (mem s') (inode_addr g s' j) = load_inode (mem s) (inode_addr g s j)))"
proof -
  note D = file_readyD [OF ready]
  let ?sz = "ucast (fd_file_size (load_fat_dentry (mem s) dentry)) :: u64"
  obtain m where m: "set_size g k ?sz s = Inr (s\<lparr>mem := m\<rparr>)" "file_ready g (s\<lparr>mem := m\<rparr>) k P fs"
    "inode_extents g (s\<lparr>mem := m\<rparr>) k = inode_extents g s k" "agree_on (- size_bytes g s k) (mem s) m"
    "get_size g k (s\<lparr>mem := m\<rparr>) = Inr ?sz"
    "\<And>x. valid_block s x \<Longrightarrow> block_used g (s\<lparr>mem := m\<rparr>) x = block_used g s x"
    "\<And>j. valid_inode s j \<Longrightarrow> inode_used g (s\<lparr>mem := m\<rparr>) j = inode_used g s j"
    using set_size_ready [OF ready, of ?sz] by blast
  let ?s = "s\<lparr>mem := m\<rparr>"
  note D1 = file_readyD [OF m(2)]
  have "size_bytes g s k \<subseteq> meta_bytes g s" using slots_kept(1) [OF D(1,2)] by (auto simp: kept_bytes_def)
  then have P: "agree_on P (mem s) (mem ?s)" using D(4) by (auto intro: agree_on_mono [OF m(4)])
  obtain s' where s': "set_rest g ps k w ?s = Some (Inr (w', s'))" "file_ready g s' k P []"
    "inode_extents g s' k = inode_extents g ?s k @ map (to_ext4_extent g) fs"
    "registered g k P (\<Union>f \<in> set fs. blocks_of g f) ?s s'"
    using set_rest_spec [OF m(2) seg P] by blast
  note D2 = file_readyD [OF s'(2)]
  obtain al where S: "same_groups g (?s\<lparr>alloc := al\<rparr>) s'" using s'(4) by (auto simp: registered_def)
  have v: "valid_block ?s x = valid_block s x" "valid_inode ?s j = valid_inode s j" for x j
    by (simp_all add: valid_block_def block_grp_def valid_inode_def inode_grp_def)
  have kept: "agree_on (P \<union> kept_bytes g ?s k) m (mem s')" using s'(4) by (simp add: registered_def)
  have run: "set_extents g ps k dentry w s = Some (Inr (w', s'))"
    using s'(1) m(1) by (simp add: set_extents_def set_rest_def)
  have "get_size g k s' = Inr ?sz"
  proof -
    have "agree_on (size_bytes g ?s k) m (mem s')" using slots_kept(1) [OF D1(1,2)] by (intro agree_on_mono [OF kept]) blast
    then have "load_u32 (mem s') (inode_addr g s k + 4) = load_u32 m (inode_addr g s k + 4)"
      "load_u32 (mem s') (inode_addr g s k + 108) = load_u32 m (inode_addr g s k + 108)"
      by (auto intro!: u32.load_cong simp: agree_on_def size_bytes_def)
    moreover have "get_existing_inode g k s' = Inr (inode_addr g s k)" "get_existing_inode g k ?s = Inr (inode_addr g s k)"
      using get_existing_inode_eq [OF D2(1,2)] get_existing_inode_eq [OF D1(1,2)] same_groups_inode(2) [OF S] D1(2) by simp_all
    ultimately show ?thesis using m(5) by (simp add: get_size_def)
  qed
  moreover have "load_inode (mem s') (inode_addr g s' j) = load_inode (mem s) (inode_addr g s j)"
    if j: "valid_inode s j" "j \<noteq> k" for j
  proof -
    have "agree_on (inode_slot g ?s j) m (mem s')"
      using slots_kept(2) [OF D1(1,2)] j v by (intro agree_on_mono [OF kept]) blast
    moreover have "agree_on (inode_slot g s j) (mem s) m"
      using inode_slots_disjoint [OF D(1,2) j] by (intro agree_on_mono [OF m(4)]) (auto simp: size_bytes_def inode_slot_def)
    moreover have "inode_slot g ?s j = inode_slot g s j" by (simp add: inode_slot_def)
    ultimately have slot: "agree_on (inode_slot g s j) (mem s) (mem s')" using agree_on_trans by metis
    have "inode_addr g s' j = inode_addr g s j" using same_groups_inode(2) [OF S, of j] j(1) v by simp
    then show ?thesis using slot by (simp only:) (intro inode_codec.load_cong, simp add: agree_on_def inode_slot_def)
  qed
  moreover have "agree_on P (mem s) (mem s')" using P kept by (auto simp: agree_on_def)
  ultimately show ?thesis
    using run D2(1,3) s'(3,4) m(3,6,7) v unfolding registered_def by (intro exI [of _ s']) auto
qed

subsection \<open>A sample\<close>

text \<open>A file with one extent, whose segment of the stream lies in block 700.\<close>

definition sample_page :: nat where
  "sample_page = block_start sample_globals sample_super_block 700"

definition sample_segment_memory :: "memory \<Rightarrow> memory" where
  "sample_segment_memory m = store_fat_extent (store_u64 m (sample_page + 8) 1) (sample_page + 16) sample_extent"

definition sample_segment_start :: stream where
  "sample_segment_start = \<lparr>st_page = sample_page, st_offset = 16, st_index = 0, st_header = sample_page + 8\<rparr>"

definition sample_segment_end :: stream where
  "sample_segment_end = \<lparr>st_page = sample_page, st_offset = 36, st_index = 0, st_header = sample_page + 28\<rparr>"

lemma sample_segment:
  "stable_segment sample_globals 4096 (readers {sample_page..<sample_page + 40} (sample_segment_memory m))
     sample_segment_start [sample_extent] sample_segment_end"
proof -
  let ?P = "{sample_page..<sample_page + 40}" and ?m = "sample_segment_memory m"
  let ?st1 = "\<lparr>st_page = sample_page, st_offset = 28, st_index = 1, st_header = sample_page + 8\<rparr>"
  have p: "sample_page \<noteq> 0" by (simp add: sample_page_def block_start_def sample_globals_def)
  have "load_u64 ?m (sample_page + 8) = load_u64 (store_u64 m (sample_page + 8) 1) (sample_page + 8)"
    unfolding sample_segment_memory_def by (rule u64.load_cong, rule fat_extent_codec.store_frame) simp
  then have "load_u64 ?m (sample_page + 8) = 1" "load_fat_extent ?m (sample_page + 16) = sample_extent"
    by (simp_all add: u64.load_store sample_segment_memory_def fat_extent_codec.load_store)
  then have r: "load_u64 (mem r) (sample_page + 8) = 1" "load_fat_extent (mem r) (sample_page + 16) = sample_extent"
    if "agree_on ?P ?m (mem r)" for r :: ext4_state
  proof -
    have "load_u64 (mem r) (sample_page + 8) = load_u64 ?m (sample_page + 8)"
      by (rule u64.load_cong) (use that in \<open>simp add: agree_on_def\<close>)
    moreover have "load_fat_extent (mem r) (sample_page + 16) = load_fat_extent ?m (sample_page + 16)"
      by (rule fat_extent_codec.load_cong) (use that in \<open>simp add: agree_on_def\<close>)
    ultimately show "load_u64 (mem r) (sample_page + 8) = 1" "load_fat_extent (mem r) (sample_page + 16) = sample_extent"
      using \<open>load_u64 ?m _ = 1\<close> \<open>load_fat_extent ?m _ = _\<close> by simp_all
  qed
  have "stable_segment sample_globals 4096 (readers ?P ?m) ?st1 [] sample_segment_end"
    by (rule stable_end)
       (simp add: sample_segment_end_def getNext_def iterateStreamArchiver_def iterate_advance_def sizeof_fat_extent_def sizeof_header_def r p)
  then show ?thesis
    by (intro stable_extent [of _ _ _ _ "sample_page + 16" ?st1])
       (simp_all add: sample_segment_start_def getNext_def iterateStreamArchiver_def iterate_advance_def
          sizeof_fat_extent_def sizeof_header_def r p)
qed

lemma sample_file_ready:
  "\<exists>s. file_ready sample_globals s 12 {sample_page..<sample_page + 40} [sample_extent]
     \<and> (\<exists>m. mem s = sample_segment_memory m) \<and> inode_extents sample_globals s 12 = []"
proof -
  let ?g = sample_globals and ?P = "{sample_page..<sample_page + 40}"
  obtain t where t: "groups_inv ?g t" "valid_inode t 12" "tree_ok ?g t 12" "inode_extents ?g t 12 = []"
    "fs_sb t = sample_super_block" "extent_free ?g t (to_ext4_extent ?g sample_extent)" "same_groups ?g sample_groups t"
    "tree_bytes ?g t 12 = {tree_root ?g t 12..<tree_root ?g t 12 + 60}"
    using sample_file by blast
  let ?m = "sample_segment_memory (mem t)"
  define s where "s = t\<lparr>mem := ?m\<rparr>"
  have "?P \<subseteq> node_bytes sample_super_block sample_page" by (auto simp: node_bytes_def sample_max_entries)
  then have P: "?P \<inter> meta_bytes ?g t = {}"
    using sample_node same_groups_meta [OF t(7)] by (auto simp: sample_page_def)
  have ag: "agree_on (- ?P) (mem t) ?m"
    by (auto simp: agree_on_def sample_segment_memory_def fat_extent_codec.store_frame u64.store_frame)
  have "agree_on (bitmap_bytes ?g t) (mem t) ?m"
    using P bitmap_in_meta [of ?g t] by (intro agree_on_mono [OF ag]) blast
  note W = written_elsewhere [OF t(1) this, folded s_def]
  have S: "same_groups ?g (t\<lparr>alloc := alloc t\<rparr>) s" using W(2) by simp
  have tb: "tree_bytes ?g t 12 \<subseteq> meta_bytes ?g t"
    using slot_in_meta(1) [OF t(1,2)] tree_root_in_slot [of ?g t 12] by (simp add: t(8))
  have "agree_on (tree_bytes ?g t 12) (mem t) (mem s)"
    using tb P by (auto simp: s_def intro!: agree_on_mono [OF ag])
  note T = tree_frame [OF t(2,3) S this]
  note A = same_groups_addresses [OF S t(2)]
  have "extent_free ?g s (to_ext4_extent ?g sample_extent)"
    by (rule extent_free_keep [OF t(1,6) S, of "{}"]) (simp_all add: W(3))
  then have "file_ready ?g s 12 ?P [sample_extent]"
    using W(1) A T P tb t(4,5) by (auto simp: file_ready_def sample_max_entries)
  moreover have "inode_extents ?g s 12 = []" using T(2) t(4) by simp
  moreover have "mem s = sample_segment_memory (mem t)" by (simp add: s_def)
  ultimately show ?thesis by blast
qed

theorem set_extents_correct_witness:
  "\<exists>s s'. set_extents sample_globals 4096 12 64 sample_segment_start s = Some (Inr (sample_segment_end, s'))
     \<and> inode_extents sample_globals s' 12 = [to_ext4_extent sample_globals sample_extent]"
proof -
  obtain s m where s: "file_ready sample_globals s 12 {sample_page..<sample_page + 40} [sample_extent]"
    "mem s = sample_segment_memory m" "inode_extents sample_globals s 12 = []"
    using sample_file_ready by blast
  have "stable_segment sample_globals 4096 (readers {sample_page..<sample_page + 40} (mem s)) sample_segment_start [sample_extent] sample_segment_end"
    unfolding s(2) by (rule sample_segment)
  from set_extents_correct [OF s(1) this, of 64] s(3) show ?thesis by fastforce
qed

end
