(* ===== verification/Supplies.thy ===== *)
theory Supplies
  imports File_Trees Directory_Blocks
begin

section \<open>Free clusters and inode numbers\<close>

text \<open>
  Building the ext4 tree ends the program when no cluster or no inode number is left. How many of
  both an operation takes at most is stated of the states before and after it; enough of them
  before exclude the exits.
\<close>

definition gives_up :: "'a run \<Rightarrow> bool" where
  "gives_up r \<longleftrightarrow> r = Some (Inl Fs_Too_Small) \<or> r = Some (Inl Not_Enough_Inodes)"

text \<open>There are \<open>n\<close> clusters that the allocator can return, and the next \<open>k\<close> inode numbers exist.\<close>

definition supplies :: "ext4_state \<Rightarrow> nat \<Rightarrow> nat \<Rightarrow> bool" where
  "supplies s n k \<longleftrightarrow> n \<le> card {c. usable (alloc s) c}
     \<and> (\<forall>j. unat (fs_first_free_inode_no s) \<le> unat j \<and> unat j < unat (fs_first_free_inode_no s) + k \<longrightarrow> valid_inode s j)"

definition draws :: "nat \<Rightarrow> nat \<Rightarrow> ext4_state \<Rightarrow> ext4_state \<Rightarrow> bool" where
  "draws n k s s' \<longleftrightarrow> (\<forall>N K. supplies s (n + N) (k + K) \<longrightarrow> supplies s' N K)"

lemma supplies_mono: "supplies s n k \<Longrightarrow> n' \<le> n \<Longrightarrow> k' \<le> k \<Longrightarrow> supplies s n' k'"
  by (auto simp: supplies_def)

lemma draws_refl [simp]: "draws 0 0 s s"
  by (simp add: draws_def)

lemma draws_trans: "draws n k s s1 \<Longrightarrow> draws n' k' s1 s2 \<Longrightarrow> draws (n + n') (k + k') s s2"
  by (simp add: draws_def add.assoc)

lemma draws_mono: "draws n k s s' \<Longrightarrow> n \<le> n' \<Longrightarrow> k \<le> k' \<Longrightarrow> draws n' k' s s'"
  unfolding draws_def by (blast intro: supplies_mono add_right_mono)

lemma draws_starved: "draws n k s s' \<Longrightarrow> \<not> supplies s' n' k' \<Longrightarrow> \<not> supplies s (n + n') (k + k')"
  by (auto simp: draws_def)

lemma starved_mono: "\<not> supplies s n k \<Longrightarrow> n \<le> n' \<Longrightarrow> k \<le> k' \<Longrightarrow> \<not> supplies s n' k'"
  by (blast intro: supplies_mono)

lemma supplies_mem [simp]: "supplies (s\<lparr>mem := m\<rparr>) n k = supplies s n k"
  by (simp add: supplies_def valid_inode_def inode_grp_def)

lemma draws_mem [simp]: "draws n k (s\<lparr>mem := m\<rparr>) s' = draws n k s s'" "draws n k s (s'\<lparr>mem := m\<rparr>) = draws n k s s'"
  by (simp_all add: draws_def)

subsection \<open>What is taken\<close>

lemma draws_kept:
  "alloc s' = alloc s \<Longrightarrow> fs_first_free_inode_no s' = fs_first_free_inode_no s \<Longrightarrow> (\<And>j. valid_inode s' j = valid_inode s j)
    \<Longrightarrow> draws 0 0 s s'"
  by (simp add: draws_def supplies_def)

lemma finite_usable: "finite {c. usable a c}"
  by (rule finite_subset [of _ "{..<blocked_start a (extent_count a)}"]) (auto simp: usable_def)

lemma allocate_one_next:
  assumes wf: "alloc_wf a" and run: "allocate_extent 1 a = Inr (e, a')"
  shows "\<exists>x. usable a x \<and> (\<forall>c. usable a c \<longrightarrow> c = x \<or> usable a' c)"
proof (cases "skip_unusable a")
  case (Inl err)
  then show ?thesis using run by (simp add: allocate_extent_def)
next
  case (Inr a1)
  have m: "moved a a1" and u: "usable a (index a1)" using skip_unusable_spec [OF wf] Inr by auto
  have "index a1 < 8 * length (allocation_bitmap a1)" using usable_in_bitmap [OF u] m by (simp add: moved_def)
  then obtain a2 where a2: "set_used (index_in_fat (allocator a1)) a1 = Inr a2" "same_setup a1 a2" "index a2 = index a1"
    "\<forall>c. cluster_free a2 c \<longleftrightarrow> cluster_free a1 c \<and> c \<noteq> index a1"
    using set_used_spec [of a1] m by (auto simp: moved_def)
  have "a' = a2" using run Inr a2(1) by (simp add: allocate_extent_def Let_def extend_extent.simps)
  moreover have "usable a2 c" if c: "usable a c" "c \<noteq> index a1" for c
  proof -
    have "index a1 < c" using m c by (auto simp: moved_def order.order_iff_strict)
    then have "usable a1 c" using c(1) moved_usable [OF m] by simp
    then show ?thesis using a2(3,4) c(2) same_setup_blocked [OF a2(2)] by (simp add: usable_def)
  qed
  ultimately show ?thesis using u by blast
qed

lemma draws_cluster:
  assumes wf: "alloc_wf (alloc s)" and run: "allocate_extent 1 (alloc s) = Inr (e, alloc s')"
    and same: "fs_first_free_inode_no s' = fs_first_free_inode_no s" "\<And>j. valid_inode s' j = valid_inode s j"
  shows "draws 1 0 s s'"
proof -
  obtain x where x: "usable (alloc s) x" "\<And>c. usable (alloc s) c \<Longrightarrow> c = x \<or> usable (alloc s') c"
    using allocate_one_next [OF wf run] by blast
  have "card {c. usable (alloc s) c} \<le> card (insert x {c. usable (alloc s') c})"
    using x(2) finite_usable by (intro card_mono) auto
  also have "\<dots> \<le> card {c. usable (alloc s') c} + 1" using finite_usable by (simp add: card_insert_if)
  finally show ?thesis using same by (auto simp: draws_def supplies_def)
qed

lemma cluster_starved:
  assumes "alloc_wf (alloc s)" and "allocate_extent 1 (alloc s) = Inl err"
  shows "\<not> supplies s 1 0"
proof -
  have "{c. usable (alloc s) c} = {}" using allocate_one_iff [OF assms(1)] assms(2) by simp
  then have "card {c. usable (alloc s) c} = 0" by (simp only: card.empty)
  then show ?thesis by (simp add: supplies_def)
qed

lemma draws_inode:
  assumes "alloc s' = alloc s" and "fs_first_free_inode_no s' = fs_first_free_inode_no s + 1"
    and "unat (fs_first_free_inode_no s) + 1 < 2 ^ 32" and "\<And>j. valid_inode s' j = valid_inode s j"
  shows "draws 0 1 s s'"
proof -
  have "unat (fs_first_free_inode_no s') = unat (fs_first_free_inode_no s) + 1"
    unfolding assms(2) by (subst unat_add_no_overflow) (use assms(3) in simp_all)
  then show ?thesis using assms(1,4) by (auto simp: draws_def supplies_def)
qed

lemma inode_starved: "\<not> valid_inode s (fs_first_free_inode_no s) \<Longrightarrow> \<not> supplies s 0 1"
  by (auto simp: supplies_def)

end
