(* ===== verification/Tree_Steps.thy ===== *)
theory Tree_Steps
  imports Supplies
begin

section \<open>Steps of building the ext4 tree\<close>

text \<open>
  What the operations that build the ext4 tree take and what they change, in a form that composes:
  every operation takes blocks from a pool - those still to be allocated and those that hold the
  files and directories to come - and writes to metadata, to the blocks it has taken, and to the
  inodes it is given, and to nothing else.
\<close>

subsection \<open>The pool of blocks\<close>

definition cl_block :: "fat_globals \<Rightarrow> u32 \<Rightarrow> nat" where
  "cl_block g c = unat (fat_cl_to_e4blk g c)"

definition data_cluster :: "fat_globals \<Rightarrow> u32 \<Rightarrow> bool" where
  "data_cluster g c \<longleftrightarrow> 2 \<le> unat c \<and> unat c - 2 + unat (first_data_block g) < 2 ^ 32"

definition spare :: "fat_globals \<Rightarrow> alloc_state \<Rightarrow> nat set" where
  "spare g a = {cl_block g c | c. usable a (unat c)}"

definition region :: "fat_globals \<Rightarrow> ext4_state \<Rightarrow> nat set \<Rightarrow> nat set" where
  "region g s A = (\<Union>x \<in> A. block_bytes g (fs_sb s) x)"

lemma region_simps [simp]:
  "region g s {} = {}" "region g s (A \<union> B) = region g s A \<union> region g s B"
  "region g (s\<lparr>mem := m\<rparr>) A = region g s A" "region g (s\<lparr>alloc := al\<rparr>) A = region g s A"
  by (auto simp: region_def)

lemma region_mono: "A \<subseteq> B \<Longrightarrow> region g s A \<subseteq> region g s B"
  by (auto simp: region_def)

lemma intervals_apart: "(b :: nat) \<le> c \<Longrightarrow> {a..<b} \<inter> {c..<d} = {}"
  by auto

lemma block_bytes_apart:
  assumes "x \<noteq> y"
  shows "block_bytes g sb x \<inter> block_bytes g sb y = {}"
proof -
  have before: "block_addr g sb a + unat (block_size sb) \<le> block_addr g sb b" if "a < b" for a b
  proof -
    have "(a + 1) * unat (block_size sb) \<le> b * unat (block_size sb)" using that by (intro mult_le_mono1) simp
    then show ?thesis by (simp add: block_addr_def)
  qed
  from assms have "x < y \<or> y < x" by linarith
  then show ?thesis
  proof
    assume "x < y"
    from intervals_apart [OF before [OF this]] show ?thesis unfolding block_bytes_def by blast
  next
    assume "y < x"
    from intervals_apart [OF before [OF this]] show ?thesis unfolding block_bytes_def by blast
  qed
qed

lemma region_disjoint:
  assumes "A \<inter> B = {}"
  shows "region g s A \<inter> region g s B = {}"
proof -
  have "block_bytes g (fs_sb s) x \<inter> block_bytes g (fs_sb s) y = {}" if "x \<in> A" "y \<in> B" for x y
    by (rule block_bytes_apart) (use assms that in blast)
  then show ?thesis unfolding region_def by blast
qed

text \<open>
  The invariant between the operations: \<open>X\<close> are the blocks that are kept for files and
  directories to come. They and the spare blocks are free, and so are all larger inode numbers.
\<close>

definition ready :: "fat_globals \<Rightarrow> ext4_state \<Rightarrow> nat set \<Rightarrow> bool" where
  "ready g s X \<longleftrightarrow> inodes_inv g s \<and> blocks_inv g s \<and> alloc_wf (alloc s)
     \<and> 5 \<le> unat (max_entries (fs_sb s)) \<and> 288 \<le> unat (block_size (fs_sb s)) \<and> unat (block_size (fs_sb s)) < 65536
     \<and> (\<forall>x \<in> X \<union> spare g (alloc s). valid_block s x \<and> \<not> block_used g s x) \<and> X \<inter> spare g (alloc s) = {}
     \<and> (\<forall>c. usable (alloc s) (unat c) \<longrightarrow> data_cluster g c)"

lemma readyD:
  assumes "ready g s X"
  shows "inodes_inv g s" "groups_inv g s" "blocks_inv g s" "alloc_wf (alloc s)" "5 \<le> unat (max_entries (fs_sb s))"
    "288 \<le> unat (block_size (fs_sb s))" "unat (block_size (fs_sb s)) < 65536"
    "x \<in> X \<Longrightarrow> valid_block s x" "x \<in> X \<Longrightarrow> \<not> block_used g s x"
    "x \<in> spare g (alloc s) \<Longrightarrow> valid_block s x" "x \<in> spare g (alloc s) \<Longrightarrow> \<not> block_used g s x"
    "X \<inter> spare g (alloc s) = {}" "usable (alloc s) (unat c) \<Longrightarrow> data_cluster g c"
  using assms inodes_invD(1) [of g s] by (auto simp: ready_def)

lemma free_region:
  assumes R: "ready g s X" and x: "x \<in> X \<union> spare g (alloc s)"
  shows "block_bytes g (fs_sb s) x \<inter> meta_bytes g s = {}"
proof -
  have "valid_block s x" "\<not> block_used g s x" using readyD(8-11) [OF R] x by blast+
  then show ?thesis using readyD(3) [OF R] by (simp add: blocks_inv_def)
qed

lemma block_start_cl:
  assumes "groups_inv g s" and "valid_block s (cl_block g c)"
  shows "block_start g (fs_sb s) (fat_cl_to_e4blk g c) = block_addr g (fs_sb s) (cl_block g c)"
  using block_start_addr [of "fat_cl_to_e4blk g c"] valid_block_bound [OF assms] by (simp add: cl_block_def)

text \<open>One cluster as an extent.\<close>

lemma one_block:
  assumes "fe_length f = 1"
  shows "extent_blocks (to_ext4_extent g f) = {cl_block g (fe_physical_start f)}"
  using assms extent_start_to_ext4 [of g f]
  by (auto simp: extent_blocks_def cl_block_def to_ext4_extent_def split_beta)

lemma one_block_free:
  assumes inv: "groups_inv g s" and f: "fe_length f = 1"
    and x: "valid_block s (cl_block g (fe_physical_start f))" "\<not> block_used g s (cl_block g (fe_physical_start f))"
  shows "extent_free g s (to_ext4_extent g f)"
  unfolding extent_free_def extent_start_to_ext4 one_block [OF f]
  using x block_number(2) [OF inv x(1)] f by (simp add: cl_block_def to_ext4_extent_def split_beta)

lemma allocate_one:
  assumes R: "ready g s X"
  shows "(\<exists>f al. allocate_extent 1 (alloc s) = Inr (f, al) \<and> fe_length f = 1 \<and> fe_logical_start f = 0
      \<and> cl_block g (fe_physical_start f) \<in> spare g (alloc s) \<and> data_cluster g (fe_physical_start f)
      \<and> alloc_wf al \<and> spare g al \<subseteq> spare g (alloc s) - {cl_block g (fe_physical_start f)}
      \<and> (\<forall>c. usable al c \<longrightarrow> usable (alloc s) c))
    \<or> allocate_extent 1 (alloc s) = Inl Fs_Too_Small"
  using allocate_extent_spec [OF readyD(4) [OF R], of 1]
proof (elim disjE exE conjE)
  fix f al
  assume f: "allocate_extent 1 (alloc s) = Inr (f, al)" "taken (alloc s) f al" "fe_logical_start f = 0" "1 \<le> unat (fe_length f)"
    "unat (fe_length f) \<le> max 1 (unat 1)"
  have one: "fe_length f = 1" using f(4,5) by (simp add: word_unat_eq_iff)
  have cl: "extent_clusters f = {unat (fe_physical_start f)}" using one by (auto simp: extent_clusters_def extent_end_def)
  have u: "usable (alloc s) (unat (fe_physical_start f))" using f(2) cl by (simp add: taken_def)
  have mono: "usable (alloc s) c \<and> c \<noteq> unat (fe_physical_start f)" if "usable al c" for c
  proof -
    have "index (alloc s) \<le> index al" using f(2) one by (simp add: taken_def extent_end_def)
    then show ?thesis using that f(2) cl same_setup_blocked [of "alloc s" al]
      by (simp add: usable_def taken_def)
  qed
  have "spare g al \<subseteq> spare g (alloc s) - {cl_block g (fe_physical_start f)}"
  proof
    fix x assume "x \<in> spare g al"
    then obtain c where c: "x = cl_block g c" "usable al (unat c)" by (auto simp: spare_def)
    have "c \<noteq> fe_physical_start f" using mono [OF c(2)] by auto
    moreover have "c = c'" if "cl_block g c = cl_block g c'" for c'
    proof -
      have "unat (c - FAT_START_INDEX + first_data_block g) = unat (c' - FAT_START_INDEX + first_data_block g)"
        using that by (simp add: cl_block_def fat_cl_to_e4blk_def)
      then have "c - FAT_START_INDEX + first_data_block g = c' - FAT_START_INDEX + first_data_block g"
        by (rule unsigned_word_eqI)
      then show "c = c'" by simp
    qed
    ultimately show "x \<in> spare g (alloc s) - {cl_block g (fe_physical_start f)}"
      using mono [OF c(2)] c(1) by (auto simp: spare_def)
  qed
  moreover have "cl_block g (fe_physical_start f) \<in> spare g (alloc s)" using u by (auto simp: spare_def)
  ultimately show ?thesis
    using f(1,2,3) one mono readyD(13) [OF R u] by (auto simp: taken_def)
qed simp

subsection \<open>Changes that compose\<close>

text \<open>
  From \<open>s\<close> to \<open>s'\<close> exactly the blocks \<open>A\<close> have been marked, the blocks \<open>D\<close> may have been written, and
  of the inodes that existed those in \<open>K\<close>.
\<close>

definition changes :: "fat_globals \<Rightarrow> u32 set \<Rightarrow> nat set \<Rightarrow> nat set \<Rightarrow> ext4_state \<Rightarrow> ext4_state \<Rightarrow> bool" where
  "changes g K A D s s' \<longleftrightarrow> same_groups g (s\<lparr>alloc := alloc s'\<rparr>) s'
     \<and> fs_first_free_inode_no s \<le> fs_first_free_inode_no s'
     \<and> (\<forall>x. valid_block s x \<longrightarrow> (block_used g s' x \<longleftrightarrow> x \<in> A \<or> block_used g s x))
     \<and> spare g (alloc s') \<subseteq> spare g (alloc s) - (A \<union> D)
     \<and> (\<forall>c. usable (alloc s') c \<longrightarrow> usable (alloc s) c)
     \<and> agree_on (- (meta_bytes g s \<union> region g s D)) (mem s) (mem s')
     \<and> (\<forall>j. valid_inode s j \<longrightarrow> inode_used g s j \<longrightarrow> inode_used g s' j)
     \<and> (\<forall>j. valid_inode s j \<longrightarrow> j < fs_first_free_inode_no s \<longrightarrow> j \<notin> K \<longrightarrow> agree_on (inode_slot g s j) (mem s) (mem s'))"

lemma changesD:
  assumes "changes g K A D s s'"
  shows "same_groups g (s\<lparr>alloc := alloc s'\<rparr>) s'" "fs_first_free_inode_no s \<le> fs_first_free_inode_no s'"
    "valid_block s x \<Longrightarrow> block_used g s' x \<longleftrightarrow> x \<in> A \<or> block_used g s x"
    "spare g (alloc s') \<subseteq> spare g (alloc s) - (A \<union> D)" "usable (alloc s') c \<Longrightarrow> usable (alloc s) c"
    "agree_on (- (meta_bytes g s \<union> region g s D)) (mem s) (mem s')"
    "valid_inode s j \<Longrightarrow> j < fs_first_free_inode_no s \<Longrightarrow> j \<notin> K \<Longrightarrow> agree_on (inode_slot g s j) (mem s) (mem s')"
    "valid_inode s j \<Longrightarrow> inode_used g s j \<Longrightarrow> inode_used g s' j"
  using assms by (simp_all add: changes_def)

lemma changes_same:
  assumes "changes g K A D s s'"
  shows "fs_sb s' = fs_sb s" "meta_bytes g s' = meta_bytes g s" "region g s' B = region g s B"
    "valid_block s' x = valid_block s x" "valid_inode s' j = valid_inode s j"
    "valid_inode s j \<Longrightarrow> inode_addr g s' j = inode_addr g s j" "valid_inode s j \<Longrightarrow> inode_slot g s' j = inode_slot g s j"
    "valid_inode s j \<Longrightarrow> tree_root g s' j = tree_root g s j"
proof -
  note S = changesD(1) [OF assms]
  show sb: "fs_sb s' = fs_sb s" using S by (simp add: same_groups_def)
  show "meta_bytes g s' = meta_bytes g s" using same_groups_meta [OF S] by simp
  show "region g s' B = region g s B" by (simp add: region_def sb)
  show "valid_block s' x = valid_block s x" using same_groups_blocks(1) [OF S] by simp
  show "valid_inode s' j = valid_inode s j" using same_groups_inodes [OF S] by simp
  show "valid_inode s j \<Longrightarrow> inode_addr g s' j = inode_addr g s j" "valid_inode s j \<Longrightarrow> inode_slot g s' j = inode_slot g s j"
    "valid_inode s j \<Longrightarrow> tree_root g s' j = tree_root g s j"
    using same_groups_inode(2,3) [OF S, of j] by (simp_all add: tree_root_def)
qed

lemma changes_refl: "changes g K {} {} s s"
  by (simp add: changes_def same_groups_def agree_on_def spare_def)

lemma changes_mono:
  "changes g K A D s s' \<Longrightarrow> K \<subseteq> K' \<Longrightarrow> D \<subseteq> D' \<Longrightarrow> D' \<inter> spare g (alloc s') = {} \<Longrightarrow> changes g K' A D' s s'"
  using region_mono [of D D' g s] unfolding changes_def by (auto intro: agree_on_mono)

lemma changes_trans:
  assumes C: "changes g K A D s s1" "changes g K1 B E s1 s2"
    and K: "\<And>j. j \<in> K1 \<Longrightarrow> j < fs_first_free_inode_no s \<Longrightarrow> j \<in> K"
  shows "changes g K (A \<union> B) (D \<union> E) s s2"
proof -
  note D1 = changesD [OF C(1)] and D2 = changesD [OF C(2)] and S = changes_same [OF C(1)]
  have "same_groups g (s\<lparr>alloc := alloc s2\<rparr>) s2" using D1(1) D2(1) by (simp add: same_groups_def)
  moreover have "agree_on (- (meta_bytes g s \<union> region g s (D \<union> E))) (mem s) (mem s2)"
    using D1(6) D2(6) by (auto simp: agree_on_def S)
  moreover have "agree_on (inode_slot g s j) (mem s) (mem s2)"
    if j: "valid_inode s j" "j < fs_first_free_inode_no s" "j \<notin> K" for j
  proof -
    have "j < fs_first_free_inode_no s1" using j(2) D1(2) by simp
    then show ?thesis
      using D1(7) [OF j] D2(7) [of j] j K S(5,7) agree_on_trans by metis
  qed
  moreover have "spare g (alloc s2) \<subseteq> spare g (alloc s) - (A \<union> B \<union> (D \<union> E))" using D1(4) D2(4) by blast
  moreover have "fs_first_free_inode_no s \<le> fs_first_free_inode_no s2" using D1(2) D2(2) by simp
  moreover have "block_used g s2 x \<longleftrightarrow> x \<in> A \<union> B \<or> block_used g s x" if "valid_block s x" for x
    using D1(3) [OF that] D2(3) [of x] that S(4) by auto
  moreover have "usable (alloc s) c" if "usable (alloc s2) c" for c using D1(5) D2(5) that by blast
  moreover have "inode_used g s2 j" if "valid_inode s j" "inode_used g s j" for j using D1(8) D2(8) that S(5) by blast
  ultimately show ?thesis by (simp add: changes_def)
qed

lemma ready_changes:
  assumes R: "ready g s X" and C: "changes g K A D s s'" and inv: "inodes_inv g s'" "alloc_wf (alloc s')"
    and Y: "Y \<subseteq> X - A"
  shows "ready g s' Y"
proof -
  note D = changesD [OF C] and S = changes_same [OF C]
  have "blocks_inv g s'"
    by (rule blocks_inv_frame [OF readyD(3) [OF R] D(1)]) (use D(3) in blast)
  moreover have "valid_block s' x \<and> \<not> block_used g s' x" if x: "x \<in> Y \<union> spare g (alloc s')" for x
  proof -
    have "x \<in> X \<union> spare g (alloc s)" "x \<notin> A" using x Y D(4) by auto
    then have v: "valid_block s x" "\<not> block_used g s x" using readyD(8-11) [OF R] by blast+
    then show ?thesis using D(3) [OF v(1)] S(4) \<open>x \<notin> A\<close> by simp
  qed
  moreover have "Y \<inter> spare g (alloc s') = {}" using readyD(12) [OF R] Y D(4) by blast
  ultimately show ?thesis
    using inv readyD(5-7,13) [OF R] D(5) by (simp add: ready_def S)
qed

lemma ready_subset: "ready g s X \<Longrightarrow> Y \<subseteq> X \<Longrightarrow> ready g s Y"
  unfolding ready_def by blast


subsection \<open>Registering an extent\<close>

text \<open>
  The tree of an inode consists of parts of the inode and of blocks \<open>T\<close>, which are not spare. An
  extent fits if it lies in one block group.
\<close>

definition tree_in :: "fat_globals \<Rightarrow> ext4_state \<Rightarrow> u32 \<Rightarrow> nat set \<Rightarrow> bool" where
  "tree_in g s k T \<longleftrightarrow> valid_inode s k \<and> tree_ok g s k \<and> tree_bytes g s k \<subseteq> inode_slot g s k \<union> region g s T
     \<and> T \<inter> spare g (alloc s) = {}"

definition extent_fits :: "fat_globals \<Rightarrow> ext4_state \<Rightarrow> fat_extent \<Rightarrow> bool" where
  "extent_fits g s f \<longleftrightarrow> valid_block s (cl_block g (fe_physical_start f))
     \<and> block_idx s (cl_block g (fe_physical_start f)) + unat (fe_length f) \<le> unat (s_blocks_per_group (fs_sb s))"

definition other_fields :: "fat_globals \<Rightarrow> ext4_state \<Rightarrow> u32 \<Rightarrow> nat set" where
  "other_fields g s k = inode_slot g s k - {tree_root g s k..<tree_root g s k + 60} - count_bytes g s k"

lemma fits_free:
  assumes R: "ready g s X" and "extent_fits g s f" and "blocks_of g f \<subseteq> X"
  shows "extent_free g s (to_ext4_extent g f)"
proof -
  have "ee_len (to_ext4_extent g f) = fe_length f" by (simp add: to_ext4_extent_def split_beta)
  then show ?thesis
    using assms(2,3) readyD(9) [OF R] unfolding extent_free_def extent_fits_def extent_start_to_ext4 cl_block_def by auto
qed

lemma extent_fits_changes: "changes g K A D s s' \<Longrightarrow> extent_fits g s' f = extent_fits g s f"
  using changes_same [of g K A D s s'] by (simp add: extent_fits_def block_idx_def)

lemma inodes_inv_alloc [simp]: "inodes_inv g (s\<lparr>alloc := al\<rparr>) = inodes_inv g s"
  by (simp add: inodes_inv_def)

lemma register_extent_op:
  assumes R: "ready g s X" and T: "tree_in g s k T"
    and f: "extent_fits g s f" "blocks_of g f \<subseteq> X" and room: "length (inode_extents g s k) < unat (max_entries (fs_sb s))"
  shows "register_extent g f k True s = Some (Inl Fs_Too_Small) \<and> length (inode_extents g s k) = 4 \<and> \<not> supplies s 1 0 \<or>
    (\<exists>s' Y. register_extent g f k True s = Some (Inr s') \<and> changes g {k} (blocks_of g f \<union> Y) (T \<union> Y) s s'
      \<and> ready g s' (X - blocks_of g f) \<and> Y \<subseteq> spare g (alloc s) \<and> tree_in g s' k (T \<union> Y)
      \<and> inode_extents g s' k = inode_extents g s k @ [to_ext4_extent g f]
      \<and> agree_on (other_fields g s k) (mem s) (mem s') \<and> fs_first_free_inode_no s' = fs_first_free_inode_no s
      \<and> draws (if length (inode_extents g s k) = 4 then 1 else 0) 0 s s')"
proof -
  note D = readyD [OF R]
  have k: "valid_inode s k" "tree_ok g s k" using T by (simp_all add: tree_in_def)
  have free: "extent_free g s (to_ext4_extent g f)" by (rule fits_free [OF R f])
  show ?thesis
  proof (cases "length (inode_extents g s k) = 4 \<and> eh_depth (load_header (mem s) (tree_root g s k)) = 0
      \<and> allocate_extent 1 (alloc s) = Inl Fs_Too_Small")
    case True
    then show ?thesis using register_extent_no_leaf [OF D(2) k] cluster_starved [OF D(4)] by blast
  next
    case False
    have leaf: "leaf_block_off g s X {}"
      if need: "length (inode_extents g s k) = 4" "eh_depth (load_header (mem s) (tree_root g s k)) = 0"
    proof -
      obtain e al where e: "allocate_extent 1 (alloc s) = Inr (e, al)" "fe_length e = 1"
        "cl_block g (fe_physical_start e) \<in> spare g (alloc s)"
        using allocate_one [OF R] False need by blast
      note b = one_block [OF e(2), of g]
      have "extent_free g s (to_ext4_extent g e)" using D(10,11) [OF e(3)] by (intro one_block_free [OF D(2) e(2)])
      moreover have "node_bytes (fs_sb s) (node_address g (fs_sb s) e) \<inter> meta_bytes g s = {}"
        using free_node [OF D(3,2), of "fat_cl_to_e4blk g (fe_physical_start e)"] D(10,11) [OF e(3)] D(6)
        by (simp add: node_address_def cl_block_def)
      ultimately show ?thesis using e(1,3) b D(12) by (auto simp: leaf_block_off_def)
    qed
    obtain s' al Y where s': "register_extent g f k True s = Some (Inr s')" "groups_inv g s'"
      "same_groups g (s\<lparr>alloc := al\<rparr>) s'" "fs_first_free_inode_no s' = fs_first_free_inode_no s" "tree_ok g s' k"
      "inode_extents g s' k = inode_extents g s k @ [to_ext4_extent g f]"
      "\<forall>x. valid_block s x \<longrightarrow> (block_used g s' x \<longleftrightarrow> x \<in> blocks_of g f \<or> x \<in> Y \<or> block_used g s x)"
      "\<forall>j. valid_inode s j \<longrightarrow> inode_used g s' j = inode_used g s j"
      "agree_on (- (tree_bytes g s' k \<union> count_bytes g s k \<union> bitmap_bytes g s)) (mem s) (mem s')"
      "leaf_taken g s k al Y (tree_bytes g s' k)" "length (inode_extents g s k) \<noteq> 4 \<longrightarrow> al = alloc s"
      using register_extent_spec [OF D(2) k room free leaf f(2)] by blast
    note A = same_groups_addresses [OF s'(3) k(1)]
    have al: "al = alloc s'" using A(9) ..
    have "alloc_wf al \<and> spare g al \<subseteq> spare g (alloc s) - Y \<and> (\<forall>c. usable al c \<longrightarrow> usable (alloc s) c) \<and> Y \<subseteq> spare g (alloc s)
      \<and> tree_bytes g s' k \<subseteq> inode_slot g s k \<union> region g s (T \<union> Y)"
      using s'(10) unfolding leaf_taken_def
    proof (elim disjE exE conjE)
      assume "al = alloc s" "Y = {}" "tree_bytes g s' k = tree_bytes g s k"
      then show ?thesis using D(4) T by (auto simp: tree_in_def)
    next
      fix e assume e: "allocate_extent 1 (alloc s) = Inr (e, al)" "Y = blocks_of g e"
        "tree_bytes g s' k = {tree_root g s k..<tree_root g s k + 60} \<union> node_bytes (fs_sb s) (node_address g (fs_sb s) e)"
      have q: "fe_length e = 1" "cl_block g (fe_physical_start e) \<in> spare g (alloc s)" "alloc_wf al"
        "spare g al \<subseteq> spare g (alloc s) - {cl_block g (fe_physical_start e)}" "\<forall>c. usable al c \<longrightarrow> usable (alloc s) c"
        using allocate_one [OF R] e(1) by auto
      note b = one_block [OF q(1), of g]
      have "node_bytes (fs_sb s) (node_address g (fs_sb s) e) \<subseteq> block_bytes g (fs_sb s) (cl_block g (fe_physical_start e))"
        unfolding node_address_def block_start_cl [OF D(2) D(10) [OF q(2)]] using D(6) by (intro node_in_block) simp
      then have "tree_bytes g s' k \<subseteq> inode_slot g s k \<union> region g s (T \<union> Y)"
        using tree_root_in_slot [of g s k] by (auto simp: e(2,3) b region_def)
      then show ?thesis using q b e(2) by simp
    qed
    then have Y: "alloc_wf (alloc s')" "spare g (alloc s') \<subseteq> spare g (alloc s) - Y" "\<And>c. usable (alloc s') c \<Longrightarrow> usable (alloc s) c"
      "Y \<subseteq> spare g (alloc s)" "tree_bytes g s' k \<subseteq> inode_slot g s k \<union> region g s (T \<union> Y)"
      unfolding al by blast+
    have slot: "inode_slot g s k \<subseteq> meta_bytes g s" by (rule slot_in_meta(1) [OF D(2) k(1)])
    have other: "agree_on (inode_slot g s j) (mem s) (mem s')" if j: "valid_inode s j" "j \<noteq> k" for j
    proof -
      have v': "valid_inode s' j" "inode_slot g s' j = inode_slot g s j" using same_groups_inode [OF s'(3)] j(1) by simp_all
      have "inode_slot g s j \<inter> tree_bytes g s' k = {}"
        using tree_and_slots [OF s'(2) A(1) s'(5) v'(1) j(2)] v'(2) by simp
      then show ?thesis
        using inode_slots_disjoint [OF D(2) k(1) j] slot_not_bitmap [OF D(2) j(1)] count_bytes_in_slot [of g s k]
        by (intro agree_on_mono [OF s'(9)]) blast
    qed
    have "X \<inter> spare g (alloc s) = {}" "T \<inter> spare g (alloc s) = {}" using D(12) T by (simp_all add: tree_in_def)
    then have sp: "spare g (alloc s') \<subseteq> spare g (alloc s) - (blocks_of g f \<union> Y \<union> (T \<union> Y))" using Y(2) f(2) by blast
    have C: "changes g {k} (blocks_of g f \<union> Y) (T \<union> Y) s s'"
      unfolding changes_def
    proof (intro conjI allI impI)
      show "agree_on (- (meta_bytes g s \<union> region g s (T \<union> Y))) (mem s) (mem s')"
        using Y(5) slot count_bytes_in_slot [of g s k] bitmap_in_meta [of g s]
        by (intro agree_on_mono [OF s'(9)]) blast
    qed (use s'(3,4,7,8) sp Y(3) other al in auto)
    have "same_groups g s (s'\<lparr>alloc := alloc s\<rparr>)" using s'(3) by (simp add: same_groups_def)
    then have "inodes_inv g (s'\<lparr>alloc := alloc s\<rparr>)"
      by (rule inodes_inv_frame [OF D(1)]) (use s'(2,4,8) in simp_all)
    then have R': "ready g s' (X - blocks_of g f)"
      using Y(4) D(12) by (intro ready_changes [OF R C _ Y(1)]) auto
    moreover have "tree_in g s' k (T \<union> Y)"
      using A(1) s'(5) Y(5) sp changes_same(3) [OF C] same_groups_inode(3) [OF s'(3)] k(1) by (auto simp: tree_in_def)
    moreover have "agree_on (other_fields g s k) (mem s) (mem s')"
    proof (rule agree_on_mono [OF s'(9)])
      have "tree_bytes g s' k \<inter> other_fields g s k = {}"
      proof -
        from s'(5) have "tree_bytes g s' k \<inter> inode_slot g s' k = {tree_root g s' k..<tree_root g s' k + 60}"
          using slot_in_meta(1) [OF s'(2) A(1)] tree_root_in_slot [of g s' k] by (cases rule: tree_okE) auto
        then show ?thesis using A(3) same_groups_inode(3) [OF s'(3)] k(1) by (auto simp: other_fields_def)
      qed
      then show "other_fields g s k \<subseteq> - (tree_bytes g s' k \<union> count_bytes g s k \<union> bitmap_bytes g s)"
        using slot_not_bitmap [OF D(2) k(1)] by (auto simp: other_fields_def)
    qed
    moreover have "draws (if length (inode_extents g s k) = 4 then 1 else 0) 0 s s'"
    proof -
      note v = same_groups_inodes [OF s'(3), simplified]
      have kept: "draws 0 0 s s'" if "al = alloc s" using that al s'(4) v by (intro draws_kept) simp_all
      moreover have "draws 1 0 s s'" if "allocate_extent 1 (alloc s) = Inr (e, al)" for e
        using that al s'(4) v by (intro draws_cluster [OF D(4)]) simp_all
      ultimately show ?thesis
        using s'(10,11) draws_mono [of 0 0 s s' 1 0] unfolding leaf_taken_def by auto
    qed
    ultimately show ?thesis using s'(1,4,6) C Y(4) by blast
  qed
qed


subsection \<open>The extents of a file\<close>

text \<open>\<open>P\<close> are the bytes of the stream: outside of all metadata and of all blocks that may be written.\<close>

definition stream_off :: "fat_globals \<Rightarrow> ext4_state \<Rightarrow> nat set \<Rightarrow> nat set \<Rightarrow> bool" where
  "stream_off g s X P \<longleftrightarrow> P \<inter> meta_bytes g s = {} \<and> P \<inter> region g s (X \<union> spare g (alloc s)) = {}"

lemma stream_off_changes:
  assumes "stream_off g s X P" and C: "changes g K A D s s'" and D: "D \<subseteq> X \<union> spare g (alloc s)" and "Y \<subseteq> X"
  shows "stream_off g s' Y P" and "agree_on P (mem s) (mem s')"
proof -
  note E = changesD [OF C] and S = changes_same [OF C]
  have "Y \<union> spare g (alloc s') \<subseteq> X \<union> spare g (alloc s)" using assms(4) E(4) by blast
  then have "region g s (Y \<union> spare g (alloc s')) \<subseteq> region g s (X \<union> spare g (alloc s))" by (rule region_mono)
  then show "stream_off g s' Y P" using assms(1) by (auto simp: stream_off_def S)
  have "region g s D \<subseteq> region g s (X \<union> spare g (alloc s))" by (rule region_mono [OF D])
  then show "agree_on P (mem s) (mem s')"
    using assms(1) by (intro agree_on_mono [OF E(6)]) (auto simp: stream_off_def)
qed

abbreviation extents_blocks :: "fat_globals \<Rightarrow> fat_extent list \<Rightarrow> nat set" where
  "extents_blocks g fs \<equiv> \<Union>f \<in> set fs. blocks_of g f"

definition leaf_cost :: "fat_globals \<Rightarrow> ext4_state \<Rightarrow> u32 \<Rightarrow> nat" where
  "leaf_cost g s k = (if length (inode_extents g s k) \<le> 4 then 1 else 0)"

lemma leaf_cost_le: "leaf_cost g s k \<le> 1"
  by (simp add: leaf_cost_def)

lemma leaf_cost_next:
  assumes "inode_extents g s1 k = inode_extents g s k @ [e]"
  shows "(if length (inode_extents g s k) = 4 then 1 else 0) + leaf_cost g s1 k \<le> leaf_cost g s k"
  using assms by (auto simp: leaf_cost_def)

lemma set_rest_op:
  assumes "ready g s X" and "tree_in g s k T" and "stable_segment g ps (readers P m) w fs w'" and "agree_on P m (mem s)"
    and "stream_off g s T P" and "\<forall>f \<in> set fs. extent_fits g s f" and "extents_blocks g fs \<subseteq> X"
    and "sorted_wrt (\<lambda>e f. blocks_of g e \<inter> blocks_of g f = {}) fs"
    and "length (inode_extents g s k) + length fs \<le> unat (max_entries (fs_sb s))"
  shows "set_rest g ps k w s = Some (Inl Fs_Too_Small) \<and> \<not> supplies s (leaf_cost g s k) 0 \<or>
    (\<exists>s' Y. set_rest g ps k w s = Some (Inr (w', s')) \<and> changes g {k} (extents_blocks g fs \<union> Y) (T \<union> Y) s s'
      \<and> ready g s' (X - extents_blocks g fs) \<and> Y \<subseteq> spare g (alloc s) \<and> tree_in g s' k (T \<union> Y)
      \<and> inode_extents g s' k = inode_extents g s k @ map (to_ext4_extent g) fs
      \<and> agree_on (other_fields g s k) (mem s) (mem s') \<and> fs_first_free_inode_no s' = fs_first_free_inode_no s
      \<and> draws (leaf_cost g s k) 0 s s')"
  using assms
proof (induction fs arbitrary: s w X T)
  case Nil
  have "\<forall>r \<in> readers P m. getNext g ps (word_of_nat sizeof_fat_extent) w r = Inr (0, w', r)"
    using Nil.prems(3) by (rule stable_segment_NilE) blast
  then have "set_rest g ps k w s = Some (Inr (w', s))" using Nil.prems(4) by (intro set_rest_end) simp
  moreover have "changes g {k} {} T s s"
    by (rule changes_mono [OF changes_refl]) (use Nil.prems(2) in \<open>auto simp: tree_in_def\<close>)
  moreover have "draws (leaf_cost g s k) 0 s s" by (rule draws_mono [OF draws_refl]) simp_all
  ultimately show ?case using Nil.prems(1,2) by (intro disjI2 exI [of _ s] exI [of _ "{}"]) (simp add: agree_on_def)
next
  case (Cons f fs)
  obtain a w1 where a: "\<forall>r \<in> readers P m. getNext g ps (word_of_nat sizeof_fat_extent) w r = Inr (a, w1, r)
      \<and> load_fat_extent (mem r) a = f" "a \<noteq> 0" "stable_segment g ps (readers P m) w1 fs w'"
    using Cons.prems(3) by (rule stable_segment_ConsE) blast
  then have next': "getNext g ps (word_of_nat sizeof_fat_extent) w s = Inr (a, w1, s)" "load_fat_extent (mem s) a = f"
    using Cons.prems(4) by simp_all
  have "extent_fits g s f" "blocks_of g f \<subseteq> X" "length (inode_extents g s k) < unat (max_entries (fs_sb s))"
    using Cons.prems(6,7,9) by auto
  from register_extent_op [OF Cons.prems(1,2) this] show ?case
  proof (elim disjE exE conjE)
    assume full: "register_extent g f k True s = Some (Inl Fs_Too_Small)" "length (inode_extents g s k) = 4" "\<not> supplies s 1 0"
    then have "set_rest g ps k w s = Some (Inl Fs_Too_Small)"
      using next' a(2) by (simp add: set_rest_def set_extents_loop.simps [of g ps k a])
    then show ?thesis using full(2,3) by (simp add: leaf_cost_def)
  next
    fix s1 Y
    assume s1: "register_extent g f k True s = Some (Inr s1)" "changes g {k} (blocks_of g f \<union> Y) (T \<union> Y) s s1"
      "ready g s1 (X - blocks_of g f)" "Y \<subseteq> spare g (alloc s)" "tree_in g s1 k (T \<union> Y)"
      "inode_extents g s1 k = inode_extents g s k @ [to_ext4_extent g f]"
      "agree_on (other_fields g s k) (mem s) (mem s1)" "fs_first_free_inode_no s1 = fs_first_free_inode_no s"
      "draws (if length (inode_extents g s k) = 4 then 1 else 0) 0 s s1"
    note cost = leaf_cost_next [OF s1(6)]
    note S = changes_same [OF s1(2)]
    have k: "valid_inode s k" using Cons.prems(2) by (simp add: tree_in_def)
    have step: "set_rest g ps k w s = set_rest g ps k w1 s1"
      using set_rest_extent [OF next'(1) a(2)] next'(2) s1(1) by simp
    have P: "agree_on P m (mem s1)"
      using stream_off_changes(2) [OF Cons.prems(5) s1(2) _ order_refl] s1(4) Cons.prems(4) agree_on_trans by blast
    have off: "stream_off g s1 (T \<union> Y) P"
    proof -
      have "region g s (T \<union> Y \<union> spare g (alloc s1)) \<subseteq> region g s (T \<union> spare g (alloc s))"
        using s1(4) changesD(4) [OF s1(2)] by (intro region_mono) blast
      then show ?thesis using Cons.prems(5) by (auto simp: stream_off_def S)
    qed
    have fits: "\<forall>f \<in> set fs. extent_fits g s1 f" using Cons.prems(6) extent_fits_changes [OF s1(2)] by simp
    have blocks: "extents_blocks g fs \<subseteq> X - blocks_of g f" using Cons.prems(7,8) by auto
    have sorted: "sorted_wrt (\<lambda>e f. blocks_of g e \<inter> blocks_of g f = {}) fs" using Cons.prems(8) by simp
    have room: "length (inode_extents g s1 k) + length fs \<le> unat (max_entries (fs_sb s1))"
      using Cons.prems(9) by (simp add: s1(6) S)
    from Cons.IH [OF s1(3,5) a(3) P off fits blocks sorted room] show ?thesis
    proof (elim disjE exE conjE)
      assume full: "set_rest g ps k w1 s1 = Some (Inl Fs_Too_Small)" "\<not> supplies s1 (leaf_cost g s1 k) 0"
      have "\<not> supplies s (leaf_cost g s k) 0" using starved_mono [OF draws_starved [OF s1(9) full(2)] cost] by simp
      then show ?thesis using full(1) by (simp add: step)
    next
      fix s' Z
      assume s': "set_rest g ps k w1 s1 = Some (Inr (w', s'))" "changes g {k} (extents_blocks g fs \<union> Z) (T \<union> Y \<union> Z) s1 s'"
        "ready g s' (X - blocks_of g f - extents_blocks g fs)" "Z \<subseteq> spare g (alloc s1)" "tree_in g s' k (T \<union> Y \<union> Z)"
        "inode_extents g s' k = inode_extents g s1 k @ map (to_ext4_extent g) fs"
        "agree_on (other_fields g s1 k) (mem s1) (mem s')" "fs_first_free_inode_no s' = fs_first_free_inode_no s1"
        "draws (leaf_cost g s1 k) 0 s1 s'"
      have e: "blocks_of g f \<union> Y \<union> (extents_blocks g fs \<union> Z) = extents_blocks g (f # fs) \<union> (Y \<union> Z)"
        "T \<union> Y \<union> (T \<union> Y \<union> Z) = T \<union> (Y \<union> Z)" "T \<union> Y \<union> Z = T \<union> (Y \<union> Z)"
        "X - blocks_of g f - extents_blocks g fs = X - extents_blocks g (f # fs)" by auto
      have "changes g {k} (extents_blocks g (f # fs) \<union> (Y \<union> Z)) (T \<union> (Y \<union> Z)) s s'"
        using changes_trans [OF s1(2) s'(2)] by (simp only: e(1,2))
      moreover have "agree_on (other_fields g s k) (mem s) (mem s')"
      proof -
        have "other_fields g s1 k = other_fields g s k" using S(6-8) k by (simp add: other_fields_def count_bytes_def)
        then show ?thesis using s1(7) s'(7) agree_on_trans by metis
      qed
      moreover have "Y \<union> Z \<subseteq> spare g (alloc s)" using s1(4) s'(4) changesD(4) [OF s1(2)] by blast
      moreover have "draws (leaf_cost g s k) 0 s s'" using draws_mono [OF draws_trans [OF s1(9) s'(9)] cost] by simp
      ultimately show ?thesis
        using s'(1,3,5,6,8) s1(6,8) unfolding e by (intro disjI2 exI [of _ s'] exI [of _ "Y \<union> Z"]) (simp add: step)
    qed
  qed
qed


subsection \<open>Inodes and blocks\<close>

lemma tree_in_changes:
  assumes T: "tree_in g s k T" and C: "changes g K A D s s'" and k: "k < fs_first_free_inode_no s" "k \<notin> K" and D: "D \<inter> T = {}"
  shows "tree_in g s' k T" and "inode_extents g s' k = inode_extents g s k" and "tree_bytes g s' k = tree_bytes g s k"
    and "load_inode (mem s') (inode_addr g s' k) = load_inode (mem s) (inode_addr g s k)"
proof -
  note E = changesD [OF C] and S = changes_same [OF C]
  have v: "valid_inode s k" "tree_ok g s k" "tree_bytes g s k \<subseteq> inode_slot g s k \<union> region g s T" "T \<inter> spare g (alloc s) = {}"
    using T by (simp_all add: tree_in_def)
  have slot: "agree_on (inode_slot g s k) (mem s) (mem s')" by (rule E(7) [OF v(1) k])
  have "agree_on (tree_bytes g s k) (mem s) (mem s')"
    using v(2)
  proof (cases rule: tree_okE)
    case leaf
    then show ?thesis using tree_root_in_slot by (intro agree_on_mono [OF slot]) auto
  next
    case child
    have "region g s T \<inter> region g s D = {}" using D by (intro region_disjoint) blast
    moreover have "tree_bytes g s k - inode_slot g s k \<subseteq> region g s T - meta_bytes g s"
      using v(3) child(11,12) tree_root_in_slot [of g s k] by auto
    ultimately have "agree_on (tree_bytes g s k - inode_slot g s k) (mem s) (mem s')"
      by (intro agree_on_mono [OF E(6)]) blast
    then show ?thesis using slot by (auto simp: agree_on_def)
  qed
  note F = tree_frame [OF v(1,2) E(1) this]
  show "inode_extents g s' k = inode_extents g s k" "tree_bytes g s' k = tree_bytes g s k" by (rule F)+
  then show "tree_in g s' k T" using v F(1) E(4) S(3,5,7) by (auto simp: tree_in_def)
  show "load_inode (mem s') (inode_addr g s' k) = load_inode (mem s) (inode_addr g s k)"
    unfolding S(6) [OF v(1)] by (rule inode_codec.load_cong) (use slot in \<open>simp add: agree_on_def inode_slot_def\<close>)
qed

lemma memory_changes:
  assumes R: "ready g s X" and m: "agree_on (- F) (mem s) m" and F: "F \<inter> bitmap_bytes g s = {}"
    and D: "F \<subseteq> meta_bytes g s \<union> region g s D" "D \<inter> spare g (alloc s) = {}"
    and K: "\<And>j. valid_inode s j \<Longrightarrow> j \<notin> K \<Longrightarrow> F \<inter> inode_slot g s j = {}"
  shows "changes g K {} D s (s\<lparr>mem := m\<rparr>)" and "ready g (s\<lparr>mem := m\<rparr>) X"
proof -
  note Rd = readyD [OF R]
  have "agree_on (bitmap_bytes g s) (mem s) m" using F by (intro agree_on_mono [OF m]) blast
  note W = written_elsewhere [OF Rd(2) this]
  show C: "changes g K {} D s (s\<lparr>mem := m\<rparr>)"
    unfolding changes_def
  proof (intro conjI allI impI)
    show "agree_on (- (meta_bytes g s \<union> region g s D)) (mem s) (mem (s\<lparr>mem := m\<rparr>))"
      using D(1) by (simp, intro agree_on_mono [OF m]) blast
    fix j assume "valid_inode s j" "j \<notin> K"
    from K [OF this] show "agree_on (inode_slot g s j) (mem s) (mem (s\<lparr>mem := m\<rparr>))"
      by (simp, intro agree_on_mono [OF m]) blast
  qed (use W(2-4) D(2) in auto)
  have "inodes_inv g (s\<lparr>mem := m\<rparr>)"
    by (rule inodes_inv_frame [OF Rd(1) W(2,1)]) (use W(4) in simp_all)
  then show "ready g (s\<lparr>mem := m\<rparr>) X" using Rd(4) by (intro ready_changes [OF R C]) auto
qed

text \<open>A field of an inode, and the bytes of a block of the pool.\<close>

lemma field_changes:
  assumes R: "ready g s X" and T: "tree_in g s k T" and m: "agree_on (- F) (mem s) m" and F: "F \<subseteq> other_fields g s k"
  shows "changes g {k} {} {} s (s\<lparr>mem := m\<rparr>)" and "ready g (s\<lparr>mem := m\<rparr>) X" and "tree_in g (s\<lparr>mem := m\<rparr>) k T"
    and "inode_extents g (s\<lparr>mem := m\<rparr>) k = inode_extents g s k"
proof -
  have k: "valid_inode s k" "tree_ok g s k" using T by (simp_all add: tree_in_def)
  note inv = readyD(2) [OF R]
  have slot: "F \<subseteq> inode_slot g s k" using F by (auto simp: other_fields_def)
  have "F \<inter> inode_slot g s j = {}" if "valid_inode s j" "j \<notin> {k}" for j
    using inode_slots_disjoint [OF inv k(1) that(1)] that(2) slot by blast
  then show C: "changes g {k} {} {} s (s\<lparr>mem := m\<rparr>)" and "ready g (s\<lparr>mem := m\<rparr>) X"
    using slot slot_not_bitmap [OF inv k(1)] slot_in_meta(1) [OF inv k(1)] memory_changes [OF R m, of "{}" "{k}"] by auto
  have "tree_bytes g s k \<inter> F = {}"
    using k(2) F slot slot_in_meta(1) [OF inv k(1)] by (cases rule: tree_okE) (auto simp: other_fields_def)
  then have "agree_on (tree_bytes g s k) (mem s) (mem (s\<lparr>mem := m\<rparr>))" by (simp, intro agree_on_mono [OF m]) blast
  note E = tree_frame [OF k _ this, of "alloc s"]
  show "inode_extents g (s\<lparr>mem := m\<rparr>) k = inode_extents g s k" using E by (simp add: same_groups_def)
  show "tree_in g (s\<lparr>mem := m\<rparr>) k T"
    using T E changes_same(5,7) [OF C] by (simp add: tree_in_def same_groups_def)
qed

lemma block_changes:
  assumes R: "ready g s X" and b: "b \<in> X" and m: "agree_on (- block_bytes g (fs_sb s) b) (mem s) m"
  shows "changes g {} {} {b} s (s\<lparr>mem := m\<rparr>)" and "ready g (s\<lparr>mem := m\<rparr>) X"
proof -
  have "block_bytes g (fs_sb s) b \<inter> meta_bytes g s = {}" using b by (intro free_region [OF R]) simp
  moreover have "b \<notin> spare g (alloc s)" using readyD(12) [OF R] b by blast
  ultimately show "changes g {} {} {b} s (s\<lparr>mem := m\<rparr>)" "ready g (s\<lparr>mem := m\<rparr>) X"
    using memory_changes [OF R m, of "{b}" "{}"] bitmap_in_meta [of g s] slot_in_meta(1) [OF readyD(2) [OF R]]
    by (auto simp: region_def)
qed

end
