(* ===== verification/Tree_Operations.thy ===== *)
theory Tree_Operations
  imports Tree_Steps Tree_Builder Directory_Reading Stream_Trees
begin

section \<open>Operations on the ext4 tree\<close>

text \<open>
  The operations of ext4_inode.cpp and tree_builder.cpp in the form of \<open>Tree_Steps\<close>: a new inode,
  changes to the fields of an inode, the blocks of a directory, and what none of them touches.
\<close>

subsection \<open>What a step may use\<close>

text \<open>
  A step uses the blocks \<open>N\<close> and spare ones, and of the inodes that existed those in \<open>K\<close>. A set of
  blocks is owned when it is marked in the bitmaps and lies outside the metadata.
\<close>

definition uses :: "fat_globals \<Rightarrow> u32 set \<Rightarrow> nat set \<Rightarrow> ext4_state \<Rightarrow> ext4_state \<Rightarrow> bool" where
  "uses g K N s s' \<longleftrightarrow> (\<exists>A D. changes g K A D s s' \<and> A \<union> D \<subseteq> N \<union> spare g (alloc s))"

definition owned :: "fat_globals \<Rightarrow> ext4_state \<Rightarrow> nat set \<Rightarrow> bool" where
  "owned g s B \<longleftrightarrow> (\<forall>x \<in> B. valid_block s x \<and> block_used g s x \<and> block_bytes g (fs_sb s) x \<inter> meta_bytes g s = {})"

lemma usesI: "changes g K A D s s' \<Longrightarrow> A \<union> D \<subseteq> N \<union> spare g (alloc s) \<Longrightarrow> uses g K N s s'"
  by (auto simp: uses_def)

lemma changes_keys: "changes g K A D s s' \<Longrightarrow> K \<subseteq> K' \<Longrightarrow> changes g K' A D s s'"
  unfolding changes_def by blast

lemma uses_mono: "uses g K N s s' \<Longrightarrow> K \<subseteq> K' \<Longrightarrow> N \<subseteq> N' \<union> spare g (alloc s) \<Longrightarrow> uses g K' N' s s'"
  unfolding uses_def using changes_keys by (elim exE conjE, intro exI conjI) blast+

lemma uses_refl: "uses g K N s s"
  by (rule usesI [OF changes_refl]) simp

lemma uses_spare: "uses g K N s s' \<Longrightarrow> spare g (alloc s') \<subseteq> spare g (alloc s)"
  unfolding uses_def using changesD(4) by fast

lemma uses_trans:
  assumes "uses g K N s s1" "uses g K1 N1 s1 s2" and N: "N1 \<subseteq> N \<union> spare g (alloc s)"
    and K: "\<And>j. j \<in> K1 \<Longrightarrow> j < fs_first_free_inode_no s \<Longrightarrow> j \<in> K"
  shows "uses g K N s s2"
proof -
  obtain A D where C: "changes g K A D s s1" "A \<union> D \<subseteq> N \<union> spare g (alloc s)" using assms(1) by (auto simp: uses_def)
  obtain B E where C1: "changes g K1 B E s1 s2" "B \<union> E \<subseteq> N1 \<union> spare g (alloc s1)" using assms(2) by (auto simp: uses_def)
  have "B \<union> E \<subseteq> N \<union> spare g (alloc s)" using C1(2) N uses_spare [OF assms(1)] by blast
  then show ?thesis using C(2) by (intro usesI [OF changes_trans [OF C(1) C1(1) K]]) auto
qed

lemma uses_same:
  assumes "uses g K N s s'"
  shows "fs_sb s' = fs_sb s" "meta_bytes g s' = meta_bytes g s" "region g s' B = region g s B"
    "valid_block s' x = valid_block s x" "valid_inode s' j = valid_inode s j"
    "valid_inode s j \<Longrightarrow> inode_addr g s' j = inode_addr g s j" "valid_inode s j \<Longrightarrow> inode_slot g s' j = inode_slot g s j"
    "extent_fits g s' f = extent_fits g s f" "fs_first_free_inode_no s \<le> fs_first_free_inode_no s'"
    "valid_block s x \<Longrightarrow> block_used g s x \<Longrightarrow> block_used g s' x"
    "valid_inode s j \<Longrightarrow> inode_used g s j \<Longrightarrow> inode_used g s' j"
  using assms unfolding uses_def
  by (auto dest: changesD(2,8) simp: changes_same extent_fits_changes changesD(3))

lemma owned_free: "owned g s B \<Longrightarrow> ready g s X \<Longrightarrow> B \<inter> (X \<union> spare g (alloc s)) = {}"
  using readyD(9,11) unfolding owned_def by blast

lemma owned_subset: "owned g s B \<Longrightarrow> C \<subseteq> B \<Longrightarrow> owned g s C"
  unfolding owned_def by blast

lemma owned_Un [simp]: "owned g s (B \<union> C) \<longleftrightarrow> owned g s B \<and> owned g s C" "owned g s {}"
  unfolding owned_def by blast+

lemma owned_uses:
  assumes "uses g K N s s'" and "owned g s B"
  shows "owned g s' B"
  using assms(2) uses_same [OF assms(1)] unfolding owned_def by simp

lemma owned_memory:
  assumes "uses g K N s s'" and "owned g s B" and R: "ready g s X" and N: "N \<inter> B = {}"
  shows "agree_on (region g s B) (mem s) (mem s')"
proof -
  obtain A D where C: "changes g K A D s s'" "A \<union> D \<subseteq> N \<union> spare g (alloc s)" using assms(1) by (auto simp: uses_def)
  have "B \<inter> D = {}" using C(2) N owned_free [OF assms(2) R] by blast
  then have "region g s B \<inter> region g s D = {}" by (rule region_disjoint)
  moreover have "region g s B \<inter> meta_bytes g s = {}" using assms(2) by (auto simp: owned_def region_def)
  ultimately show ?thesis by (intro agree_on_mono [OF changesD(6) [OF C(1)]]) blast
qed

lemma uses_stream:
  assumes "uses g K N s s'" and "stream_off g s Z P" "N \<subseteq> Z" "Y \<subseteq> Z \<union> spare g (alloc s)"
  shows "stream_off g s' Y P" and "agree_on P (mem s) (mem s')"
proof -
  obtain A D where C: "changes g K A D s s'" "A \<union> D \<subseteq> N \<union> spare g (alloc s)" using assms(1) by (auto simp: uses_def)
  have D: "D \<subseteq> Z \<union> spare g (alloc s)" using C(2) assms(3) by blast
  show "agree_on P (mem s) (mem s')" by (rule stream_off_changes(2) [OF assms(2) C(1) D order_refl])
  have "region g s (Y \<union> spare g (alloc s')) \<subseteq> region g s (Z \<union> spare g (alloc s))"
    using assms(4) uses_spare [OF assms(1)] by (intro region_mono) blast
  then show "stream_off g s' Y P" using assms(2) by (auto simp: stream_off_def uses_same [OF assms(1)])
qed

lemma tree_in_uses:
  assumes T: "tree_in g s k T" and U: "uses g K N s s'" and k: "k < fs_first_free_inode_no s" "k \<notin> K" and N: "N \<inter> T = {}"
  shows "tree_in g s' k T" and "inode_extents g s' k = inode_extents g s k"
    and "load_inode (mem s') (inode_addr g s' k) = load_inode (mem s) (inode_addr g s k)"
proof -
  obtain A D where C: "changes g K A D s s'" "A \<union> D \<subseteq> N \<union> spare g (alloc s)" using U by (auto simp: uses_def)
  have "D \<inter> T = {}" using C(2) N T by (auto simp: tree_in_def)
  from tree_in_changes [OF T C(1) k this]
  show "tree_in g s' k T" "inode_extents g s' k = inode_extents g s k"
    "load_inode (mem s') (inode_addr g s' k) = load_inode (mem s) (inode_addr g s k)" by simp_all
qed

subsection \<open>New inodes\<close>

lemma new_inode_op:
  assumes R: "ready g s X"
  shows "build_inode g env p s = Inl Not_Enough_Inodes \<and> \<not> supplies s 0 1 \<or>
    (\<exists>s'. build_inode g env p s = Inr (fs_first_free_inode_no s, s') \<and> uses g {} {} s s' \<and> ready g s' X
      \<and> fs_first_free_inode_no s < fs_first_free_inode_no s' \<and> inode_used g s' (fs_first_free_inode_no s)
      \<and> tree_in g s' (fs_first_free_inode_no s) {} \<and> inode_extents g s' (fs_first_free_inode_no s) = []
      \<and> load_inode (mem s') (inode_addr g s' (fs_first_free_inode_no s)) = dentry_inode env (mem s) p \<and> draws 0 1 s s')"
proof -
  let ?k = "fs_first_free_inode_no s"
  note Rd = readyD [OF R]
  show ?thesis
  proof (cases "valid_inode s ?k")
    case False
    then show ?thesis using save_inode_spec(2) [OF Rd(1)] inode_starved by (simp add: build_inode_def)
  next
    case True
    obtain s' where s': "save_inode g (dentry_inode env (mem s) p) s = Inr (?k, s')" "inodes_inv g s'"
      "fs_first_free_inode_no s' = ?k + 1" "same_groups g s s'"
      "\<forall>j. valid_inode s j \<longrightarrow> (inode_used g s' j \<longleftrightarrow> j = ?k \<or> inode_used g s j)"
      "load_inode (mem s') (inode_addr g s ?k) = dentry_inode env (mem s) p"
      "agree_on (- inode_slot g s ?k - inode_bitmap_bytes g s ?k) (mem s) (mem s')"
      using save_inode_spec(1) [OF Rd(1) True] by blast
    have al: "alloc s' = alloc s" using s'(4) by (simp add: same_groups_def)
    have "unat ?k + 1 < 4294967296"
      using valid_inode_bound [OF Rd(2) True] inodes_invD(3) [OF Rd(1)] by linarith
    then have lt: "?k < ?k + 1" by (simp add: word_less_nat_alt unat_add_no_overflow)
    have cost: "draws 0 1 s s'"
      by (rule draws_inode) (use s'(3) same_groups_inodes [OF s'(4)] al \<open>unat ?k + 1 < _\<close> in simp_all)
    have used: "block_used g s' x = block_used g s x" if x: "valid_block s x" for x
    proof -
      have "block_bitmap_bytes g s x \<inter> inode_bitmap_bytes g s ?k = {}" "block_bitmap_bytes g s x \<inter> inode_slot g s ?k = {}"
        using area_disjoint [OF Rd(2), of "block_grp s x" "inode_grp s ?k" 0 1]
          area_disjoint [OF Rd(2), of "block_grp s x" "inode_grp s ?k" 0 2] inode_slot_in_table [OF Rd(2), of ?k] x True
        unfolding block_bitmap_bytes_def inode_bitmap_bytes_def valid_block_def valid_inode_def by auto
      then show ?thesis by (intro same_groups_block_used [OF Rd(2) s'(4) x] agree_on_mono [OF s'(7)]) blast
    qed
    have C: "changes g {} {} {} s s'"
      unfolding changes_def
    proof (intro conjI allI impI)
      show "agree_on (- (meta_bytes g s \<union> region g s {})) (mem s) (mem s')"
        using slot_in_meta [OF Rd(2) True] by (intro agree_on_mono [OF s'(7)]) auto
      fix j assume j: "valid_inode s j" "j < ?k"
      then have "j \<noteq> ?k" by simp
      then show "agree_on (inode_slot g s j) (mem s) (mem s')"
        using inode_slots_disjoint [OF Rd(2) True j(1)] slot_bitmap_disjoint [OF Rd(2) j(1) True]
        by (intro agree_on_mono [OF s'(7)]) blast
    qed (use s'(3-5) used lt in \<open>simp_all add: al\<close>)
    have R': "ready g s' X" using Rd(4) by (intro ready_changes [OF R C s'(2)]) (auto simp: al)
    note n = same_groups_inode [OF s'(4) True]
    have h: "load_header (mem s') (tree_root g s' ?k) = init_extent_header"
      using arg_cong [OF s'(6), of ext_header] by (simp add: load_inode_def n(2) dentry_inode_def tree_root_def Let_def)
    have "tree_ok g s' ?k" using readyD(5) [OF R'] by (intro tree_okI_leaf) (simp_all add: h init_extent_header_def)
    moreover have "tree_bytes g s' ?k \<subseteq> inode_slot g s' ?k"
      using tree_root_in_slot [of g s' ?k] by (simp add: tree_bytes_def h init_extent_header_def)
    moreover have "inode_extents g s' ?k = []"
      using length_node_extents [of "mem s'" "tree_root g s' ?k"]
      by (subst inode_extents_leaf) (simp_all add: h init_extent_header_def)
    ultimately show ?thesis
      using s'(1,3,5,6) True n C R' lt cost
      by (intro disjI2 exI [of _ s']) (auto simp: build_inode_def tree_in_def intro: usesI)
  qed
qed

subsection \<open>The fields of an inode\<close>

text \<open>An inode without the fields that belong to its extents: the block count and the root of the tree.\<close>

definition inode_fields :: "fat_globals \<Rightarrow> ext4_state \<Rightarrow> u32 \<Rightarrow> ext4_inode" where
  "inode_fields g s k = (load_inode (mem s) (inode_addr g s k))
     \<lparr>i_blocks_lo := 0, l_i_blocks_high := 0, ext_header := init_extent_header\<rparr>"

definition with_size :: "u64 \<Rightarrow> ext4_inode \<Rightarrow> ext4_inode" where
  "with_size sz i = i\<lparr>i_size_lo := fst (set_lo_hi_32_32 sz), i_size_high := snd (set_lo_hi_32_32 sz)\<rparr>"

lemma inode_fields_kept:
  assumes "agree_on (other_fields g s k) (mem s) (mem s')" and a: "inode_addr g s' k = inode_addr g s k"
  shows "inode_fields g s' k = inode_fields g s k"
proof -
  let ?a = "inode_addr g s k"
  have eq: "mem s' x = mem s x" if "?a \<le> x" "x < ?a + 148" "\<not> (?a + 28 \<le> x \<and> x < ?a + 32)" "\<not> (?a + 40 \<le> x \<and> x < ?a + 100)"
    "\<not> (?a + 116 \<le> x \<and> x < ?a + 118)" for x
    using assms(1) that by (auto simp: agree_on_def other_fields_def inode_slot_def tree_root_def count_bytes_def)
  have u16: "load_u16 (mem s') (?a + n) = load_u16 (mem s) (?a + n)"
    if "n + 2 \<le> 28 \<or> 32 \<le> n \<and> n + 2 \<le> 40 \<or> 100 \<le> n \<and> n + 2 \<le> 116 \<or> 118 \<le> n \<and> n + 2 \<le> 148" for n
    by (rule u16.load_cong, rule eq) (use that in auto)
  have u32: "load_u32 (mem s') (?a + n) = load_u32 (mem s) (?a + n)"
    if "n + 4 \<le> 28 \<or> 32 \<le> n \<and> n + 4 \<le> 40 \<or> 100 \<le> n \<and> n + 4 \<le> 116 \<or> 118 \<le> n \<and> n + 4 \<le> 148" for n
    by (rule u32.load_cong, rule eq) (use that in auto)
  show ?thesis using u16 [of 0] u16 [of 2] by (simp add: inode_fields_def load_inode_def a u16 u32)
qed

text \<open>The step of a store to a field.\<close>

lemma field_op:
  assumes R: "ready g s X" and T: "tree_in g s k T" and m: "agree_on (- F) (mem s) m" and F: "F \<subseteq> other_fields g s k"
  shows "uses g {k} {} s (s\<lparr>mem := m\<rparr>)" and "ready g (s\<lparr>mem := m\<rparr>) X" and "tree_in g (s\<lparr>mem := m\<rparr>) k T"
    and "inode_extents g (s\<lparr>mem := m\<rparr>) k = inode_extents g s k"
  using field_changes [OF assms] by (auto intro: usesI)

lemma set_size_op:
  assumes R: "ready g s X" and T: "tree_in g s k T"
  shows "\<exists>m. set_size g k sz s = Inr (s\<lparr>mem := m\<rparr>) \<and> uses g {k} {} s (s\<lparr>mem := m\<rparr>) \<and> ready g (s\<lparr>mem := m\<rparr>) X
    \<and> tree_in g (s\<lparr>mem := m\<rparr>) k T \<and> inode_extents g (s\<lparr>mem := m\<rparr>) k = inode_extents g s k
    \<and> inode_fields g (s\<lparr>mem := m\<rparr>) k = with_size sz (inode_fields g s k)"
proof -
  let ?a = "inode_addr g s k" and ?F = "{inode_addr g s k + 4..<inode_addr g s k + 8} \<union> {inode_addr g s k + 108..<inode_addr g s k + 112}"
  let ?m = "store_u32 (store_u32 (mem s) (?a + 4) (fst (set_lo_hi_32_32 sz))) (?a + 108) (snd (set_lo_hi_32_32 sz))"
  have k: "valid_inode s k" using T by (simp add: tree_in_def)
  have run: "set_size g k sz s = Inr (s\<lparr>mem := ?m\<rparr>)"
    by (simp add: set_size_def get_existing_inode_eq [OF readyD(2) [OF R] k] split_beta)
  have m: "agree_on (- ?F) (mem s) ?m" by (auto simp: agree_on_def u32.store_frame)
  have F: "?F \<subseteq> other_fields g s k" by (auto simp: other_fields_def inode_slot_def tree_root_def count_bytes_def)
  have "inode_fields g (s\<lparr>mem := ?m\<rparr>) k = with_size sz (inode_fields g s k)"
    by (simp add: inode_fields_def with_size_def load_inode_fields)
  then show ?thesis using run field_op [OF R T m F] by blast
qed

lemma incr_links_op:
  assumes R: "ready g s X" and T: "tree_in g s k T"
  shows "\<exists>m. incr_links_count g k s = Inr (s\<lparr>mem := m\<rparr>) \<and> uses g {k} {} s (s\<lparr>mem := m\<rparr>) \<and> ready g (s\<lparr>mem := m\<rparr>) X
    \<and> tree_in g (s\<lparr>mem := m\<rparr>) k T \<and> inode_extents g (s\<lparr>mem := m\<rparr>) k = inode_extents g s k
    \<and> inode_fields g (s\<lparr>mem := m\<rparr>) k = (inode_fields g s k)\<lparr>i_links_count := i_links_count (inode_fields g s k) + 1\<rparr>"
proof -
  let ?a = "inode_addr g s k" and ?F = "{inode_addr g s k + 26..<inode_addr g s k + 28}"
  let ?m = "store_u16 (mem s) (?a + 26) (load_u16 (mem s) (?a + 26) + 1)"
  have k: "valid_inode s k" using T by (simp add: tree_in_def)
  have run: "incr_links_count g k s = Inr (s\<lparr>mem := ?m\<rparr>)"
    by (simp add: incr_links_count_def get_existing_inode_eq [OF readyD(2) [OF R] k])
  have m: "agree_on (- ?F) (mem s) ?m" by (auto simp: agree_on_def u16.store_frame)
  have F: "?F \<subseteq> other_fields g s k" by (auto simp: other_fields_def inode_slot_def tree_root_def count_bytes_def)
  have "load_u16 (mem s) (?a + 26) = i_links_count (inode_fields g s k)" by (simp add: inode_fields_def load_inode_def)
  then have "inode_fields g (s\<lparr>mem := ?m\<rparr>) k = (inode_fields g s k)\<lparr>i_links_count := i_links_count (inode_fields g s k) + 1\<rparr>"
    by (simp add: inode_fields_def load_inode_fields)
  then show ?thesis using run field_op [OF R T m F] by blast
qed

lemma dentry_inode_bytes: "dentry_inode env m p = dentry_inode env (image (load_bytes m p 32)) 0"
  using load_entry_cong(1) [of m p "image (load_bytes m p 32)" 0, OF image_entry] entry_image(2) [of m p]
  by (simp add: dentry_inode_def)

lemma new_inode_fields:
  "load_inode (mem s) (inode_addr g s k) = dentry_inode env m p \<Longrightarrow> inode_fields g s k = dentry_inode env m p"
  by (simp add: inode_fields_def dentry_inode_def Let_def zero_inode_def)

subsection \<open>The extents of a file\<close>

lemma owned_new:
  assumes R: "ready g s X" and C: "changes g K A D s s'" and B: "B \<subseteq> A" "B \<subseteq> X \<union> spare g (alloc s)"
  shows "owned g s' B"
  unfolding owned_def
proof
  fix x assume x: "x \<in> B"
  have "valid_block s x" using B x readyD(8,10) [OF R] by blast
  moreover have "block_bytes g (fs_sb s) x \<inter> meta_bytes g s = {}" using B x by (intro free_region [OF R]) blast
  ultimately show "valid_block s' x \<and> block_used g s' x \<and> block_bytes g (fs_sb s') x \<inter> meta_bytes g s' = {}"
    using B x changesD(3) [OF C] changes_same [OF C] by auto
qed

lemma set_extents_op:
  assumes R: "ready g s X" and T: "tree_in g s k T" "owned g s T" and seg: "stable_segment g ps (readers P m) w fs w'"
    and P: "agree_on P m (mem s)" "stream_off g s T P"
    and fs: "\<forall>f \<in> set fs. extent_fits g s f" "extents_blocks g fs \<subseteq> X"
      "sorted_wrt (\<lambda>e f. blocks_of g e \<inter> blocks_of g f = {}) fs"
    and room: "length (inode_extents g s k) + length fs \<le> unat (max_entries (fs_sb s))"
  shows "set_extents g ps k dentry w s = Some (Inl Fs_Too_Small) \<and> \<not> supplies s 1 0 \<or>
    (\<exists>s' Y. set_extents g ps k dentry w s = Some (Inr (w', s')) \<and> uses g {k} (extents_blocks g fs \<union> T) s s'
      \<and> ready g s' (X - extents_blocks g fs) \<and> Y \<subseteq> T \<union> spare g (alloc s) \<and> tree_in g s' k Y \<and> owned g s' (Y \<union> extents_blocks g fs)
      \<and> inode_extents g s' k = inode_extents g s k @ map (to_ext4_extent g) fs
      \<and> inode_fields g s' k = with_size (ucast (fd_file_size (load_fat_dentry (mem s) dentry))) (inode_fields g s k)
      \<and> agree_on (region g s (extents_blocks g fs)) (mem s) (mem s')
      \<and> fs_first_free_inode_no s' = fs_first_free_inode_no s \<and> draws 1 0 s s')"
proof -
  let ?sz = "ucast (fd_file_size (load_fat_dentry (mem s) dentry)) :: u64"
  obtain m1 where m1: "set_size g k ?sz s = Inr (s\<lparr>mem := m1\<rparr>)" "uses g {k} {} s (s\<lparr>mem := m1\<rparr>)"
    "ready g (s\<lparr>mem := m1\<rparr>) X" "tree_in g (s\<lparr>mem := m1\<rparr>) k T" "inode_extents g (s\<lparr>mem := m1\<rparr>) k = inode_extents g s k"
    "inode_fields g (s\<lparr>mem := m1\<rparr>) k = with_size ?sz (inode_fields g s k)"
    using set_size_op [OF R T(1), of ?sz] by blast
  let ?s = "s\<lparr>mem := m1\<rparr>"
  note S = uses_same [OF m1(2)]
  have P1: "stream_off g ?s T P" "agree_on P m (mem ?s)"
    using uses_stream [OF m1(2) P(2), of T] P(1) agree_on_trans by blast+
  have run: "set_extents g ps k dentry w s = set_rest g ps k w ?s"
    using m1(1) by (simp add: set_extents_def set_rest_def)
  have fits: "\<forall>f \<in> set fs. extent_fits g ?s f" using fs(1) S(8) by simp
  have "length (inode_extents g ?s k) + length fs \<le> unat (max_entries (fs_sb ?s))" using room m1(5) by simp
  from set_rest_op [OF m1(3,4) seg P1(2,1) fits fs(2,3) this] show ?thesis
  proof (elim disjE exE conjE)
    fix s' Y
    assume s': "set_rest g ps k w ?s = Some (Inr (w', s'))" "changes g {k} (extents_blocks g fs \<union> Y) (T \<union> Y) ?s s'"
      "ready g s' (X - extents_blocks g fs)" "Y \<subseteq> spare g (alloc ?s)" "tree_in g s' k (T \<union> Y)"
      "inode_extents g s' k = inode_extents g ?s k @ map (to_ext4_extent g) fs"
      "agree_on (other_fields g ?s k) (mem ?s) (mem s')" "fs_first_free_inode_no s' = fs_first_free_inode_no ?s"
      "draws (leaf_cost g ?s k) 0 ?s s'"
    have "draws 1 0 s s'" using draws_mono [OF s'(9) leaf_cost_le order_refl] by simp
    have U: "uses g {k} (extents_blocks g fs \<union> T) ?s s'" using s'(4) by (intro usesI [OF s'(2)]) auto
    have U': "uses g {k} (extents_blocks g fs \<union> T) s s'"
      by (rule uses_trans [OF uses_mono [OF m1(2)] U]) auto
    have "owned g s' (extents_blocks g fs \<union> Y)"
      using fs(2) s'(4) by (intro owned_new [OF m1(3) s'(2)]) auto
    moreover have "owned g s' T" by (rule owned_uses [OF U' T(2)])
    ultimately have own: "owned g s' (T \<union> Y \<union> extents_blocks g fs)" by simp
    have a: "inode_addr g s' k = inode_addr g ?s k" using changes_same(6) [OF s'(2)] m1(4) by (simp add: tree_in_def)
    from inode_fields_kept [OF s'(7) a] m1(6)
    have "inode_fields g s' k = with_size ?sz (inode_fields g s k)" by simp
    moreover have "agree_on (region g s (extents_blocks g fs)) (mem s) (mem s')"
    proof -
      let ?B = "extents_blocks g fs"
      have "?B \<inter> (T \<union> Y) = {}"
        using fs(2) s'(4) owned_free [OF T(2) R] readyD(12) [OF R] by auto
      then have "region g s ?B \<inter> region g s (T \<union> Y) = {}" by (rule region_disjoint)
      moreover have meta: "region g s ?B \<inter> meta_bytes g s = {}"
        using free_region [OF R] fs(2) unfolding region_def by blast
      ultimately have "agree_on (region g s ?B) (mem ?s) (mem s')"
        by (intro agree_on_mono [OF changesD(6) [OF s'(2)]]) (auto simp: S)
      moreover obtain A D where "changes g {k} A D s ?s" "A \<union> D \<subseteq> {} \<union> spare g (alloc s)" using m1(2) by (auto simp: uses_def)
      then have "agree_on (region g s ?B) (mem s) (mem ?s)"
        using region_disjoint [of ?B D g s] fs(2) readyD(12) [OF R] meta
        by (intro agree_on_mono [OF changesD(6)]) (auto, blast)
      ultimately show ?thesis by (rule agree_on_trans [rotated])
    qed
    ultimately show ?thesis
      using run s'(1,3-6,8) m1(5) U' own \<open>draws 1 0 s s'\<close> by (intro disjI2 exI [of _ s'] exI [of _ "T \<union> Y"]) auto
  qed (use run starved_mono [OF _ leaf_cost_le] in simp_all)
qed

end
