(* ===== verification/Directory_Steps.thy ===== *)
theory Directory_Steps
  imports Tree_Operations Directory_Blocks
begin

section \<open>Filling the blocks of a directory\<close>

text \<open>
  The part of \<open>build_ext4_metadata_tree\<close> that places entries: the blocks that are finished are
  extents of the directory's inode and are read entry by entry, one block is open, and further
  blocks come from the clusters that the directory had in the FAT and then from the allocator.
\<close>

subsection \<open>Finished blocks\<close>

abbreviation cl_blocks :: "fat_globals \<Rightarrow> u32 list \<Rightarrow> nat set" where
  "cl_blocks g cs \<equiv> cl_block g ` set cs"

definition dir_extent :: "nat \<Rightarrow> u32 \<Rightarrow> fat_extent" where
  "dir_extent i c = \<lparr>fe_logical_start = word_of_nat i, fe_length = 1, fe_physical_start = c\<rparr>"

definition dir_extents :: "fat_globals \<Rightarrow> u32 list \<Rightarrow> ext4_extent list" where
  "dir_extents g cs = map (\<lambda>i. to_ext4_extent g (dir_extent i (cs ! i))) [0..<length cs]"

lemma dir_extents_simps [simp]:
  "dir_extents g [] = []" "dir_extents g (cs @ [c]) = dir_extents g cs @ [to_ext4_extent g (dir_extent (length cs) c)]"
  "length (dir_extents g cs) = length cs"
  by (simp_all add: dir_extents_def nth_append)

definition block_lists :: "fat_globals \<Rightarrow> ext4_state \<Rightarrow> u32 \<Rightarrow> (u32 \<times> u8 list) list \<Rightarrow> bool" where
  "block_lists g s c es \<longleftrightarrow> read_dir_block (mem s) (block_addr g (fs_sb s) (cl_block g c))
     (block_addr g (fs_sb s) (cl_block g c) + unat (block_size (fs_sb s))) = Some es"

definition closed_dir ::
  "fat_globals \<Rightarrow> ext4_state \<Rightarrow> u32 \<Rightarrow> nat set \<Rightarrow> u32 list \<Rightarrow> (u32 \<times> u8 list) list list \<Rightarrow> bool" where
  "closed_dir g s k T cs ess \<longleftrightarrow> tree_in g s k T \<and> owned g s T \<and> k < fs_first_free_inode_no s
     \<and> inode_extents g s k = dir_extents g cs \<and> owned g s (cl_blocks g cs) \<and> T \<inter> cl_blocks g cs = {}
     \<and> list_all2 (block_lists g s) cs ess"

lemma closed_dirD:
  assumes "closed_dir g s k T cs ess"
  shows "tree_in g s k T" "owned g s T" "k < fs_first_free_inode_no s" "inode_extents g s k = dir_extents g cs"
    "owned g s (cl_blocks g cs)" "T \<inter> cl_blocks g cs = {}" "list_all2 (block_lists g s) cs ess"
  using assms by (simp_all add: closed_dir_def)

lemma read_dir_block_cong:
  "agree_on {a..<e} m m' \<Longrightarrow> read_dir_block m a e = Some es \<Longrightarrow> read_dir_block m' a e = Some es"
proof (induction m a e arbitrary: es rule: read_dir_block.induct)
  case (1 m a e)
  show ?case
  proof (cases "a = e")
    case True
    then show ?thesis using "1.prems"(2) by (simp add: read_dir_block.simps)
  next
    case False
    let ?len = "unat (load_u16 m (a + 4))" and ?n = "unat (load_u16 m (a + 6))"
    have len: "?n + 8 \<le> ?len" "a + ?len \<le> e"
      using "1.prems"(2) False by (subst (asm) read_dir_block.simps, simp add: Let_def split: if_splits)+
    obtain es' where es': "read_dir_block m (a + ?len) e = Some es'" "es = (load_u32 m a, load_bytes m (a + 8) ?n) # es'"
      using "1.prems"(2) False len by (subst (asm) read_dir_block.simps) (auto simp: Let_def split: if_splits)
    have eq: "m' x = m x" if "a \<le> x" "x < a + ?len" for x using "1.prems"(1) that len(2) by (simp add: agree_on_def)
    have l: "load_u16 m' (a + 4) = load_u16 m (a + 4)" "load_u16 m' (a + 6) = load_u16 m (a + 6)" "load_u32 m' a = load_u32 m a"
      using len(1) by (auto intro!: u16.load_cong u32.load_cong eq)
    have b: "load_bytes m' (a + 8) ?n = load_bytes m (a + 8) ?n" by (rule load_bytes_cong, rule eq) (use len(1) in auto)
    have "agree_on {a + ?len..<e} m m'" by (rule agree_on_mono [OF "1.prems"(1)]) auto
    then have "read_dir_block m' (a + ?len) e = Some es'" using "1.IH" [OF False refl refl _ _ es'(1)] len by simp
    then show ?thesis using False len es'(2) by (subst read_dir_block.simps) (simp add: Let_def l b)
  qed
qed

lemma block_lists_cong:
  assumes "block_lists g s c es" and "agree_on (block_bytes g (fs_sb s) (cl_block g c)) (mem s) (mem s')" "fs_sb s' = fs_sb s"
  shows "block_lists g s' c es"
  using read_dir_block_cong [of "block_addr g (fs_sb s) (cl_block g c)"] assms
  unfolding block_lists_def block_bytes_def by simp

lemma closed_dir_uses:
  assumes C: "closed_dir g s k T cs ess" and R: "ready g s X" and U: "uses g K N s s'" and k: "k \<notin> K"
    and N: "N \<inter> (T \<union> cl_blocks g cs) = {}"
  shows "closed_dir g s' k T cs ess" and "inode_fields g s' k = inode_fields g s k"
proof -
  note D = closed_dirD [OF C] and S = uses_same [OF U]
  have NT: "N \<inter> T = {}" and NB: "N \<inter> cl_blocks g cs = {}" using N by blast+
  note T = tree_in_uses [OF D(1) U D(3) k NT]
  show "inode_fields g s' k = inode_fields g s k" using T(3) by (simp add: inode_fields_def)
  have "agree_on (region g s (cl_blocks g cs)) (mem s) (mem s')" by (rule owned_memory [OF U D(5) R NB])
  then have "agree_on (block_bytes g (fs_sb s) (cl_block g c)) (mem s) (mem s')" if "c \<in> set cs" for c
    using that by (auto simp: region_def intro: agree_on_mono)
  then have "list_all2 (block_lists g s') cs ess"
    using D(7) S(1) block_lists_cong [of g s _ _ s'] by (force elim: list.rel_mono_strong)
  then show "closed_dir g s' k T cs ess"
    using T(1,2) D S(9) owned_uses [OF U] unfolding closed_dir_def by auto
qed

subsection \<open>The open block\<close>

definition open_block :: "fat_globals \<Rightarrow> ext4_state \<Rightarrow> dir_vars \<Rightarrow> u32 \<Rightarrow> ext4_dentry list \<Rightarrow> bool" where
  "open_block g s v c es \<longleftrightarrow> data_cluster g c \<and> dv_block_no v = fat_cl_to_e4blk g c \<and> 0 \<le> dv_position v
     \<and> nat (dv_position v) \<le> unat (block_size (fs_sb s))
     \<and> entries_at (mem s) (block_addr g (fs_sb s) (cl_block g c)) es (block_addr g (fs_sb s) (cl_block g c) + nat (dv_position v))
     \<and> (es \<noteq> [] \<longrightarrow> dv_previous v + unat (ed_rec_len (last es)) = block_addr g (fs_sb s) (cl_block g c) + nat (dv_position v))"

lemma open_block_dir_open:
  assumes "open_block g s v c es" "es \<noteq> []" and "groups_inv g s" "valid_block s (cl_block g c)"
  shows "dir_open g s v es"
  using assms block_start_cl [OF assms(3,4)] by (simp add: open_block_def dir_open_def Let_def)

lemma free_block_memory:
  assumes R: "ready g s X" and U: "uses g K N s s'" and b: "b \<in> X" "b \<notin> N"
  shows "agree_on (block_bytes g (fs_sb s) b) (mem s) (mem s')"
proof -
  obtain A D where C: "changes g K A D s s'" "A \<union> D \<subseteq> N \<union> spare g (alloc s)" using U by (auto simp: uses_def)
  have "b \<notin> spare g (alloc s)" using b(1) readyD(12) [OF R] by blast
  then have "region g s {b} \<inter> region g s D = {}" using C(2) b(2) by (intro region_disjoint) blast
  moreover have "block_bytes g (fs_sb s) b \<inter> meta_bytes g s = {}" using b(1) by (intro free_region [OF R]) simp
  ultimately show ?thesis by (intro agree_on_mono [OF changesD(6) [OF C(1)]]) (auto simp: region_def)
qed

lemma open_block_uses:
  assumes O: "open_block g s v c es" and R: "ready g s X" and U: "uses g K N s s'" and b: "cl_block g c \<in> X" "cl_block g c \<notin> N"
  shows "open_block g s' v c es"
proof -
  have "agree_on {block_addr g (fs_sb s) (cl_block g c)..<block_addr g (fs_sb s) (cl_block g c) + nat (dv_position v)} (mem s) (mem s')"
    using O by (intro agree_on_mono [OF free_block_memory [OF R U b]]) (auto simp: block_bytes_def open_block_def)
  from entries_at_cong [OF this] show ?thesis using O by (simp add: open_block_def uses_same [OF U])
qed

text \<open>Putting an entry that fits into the block.\<close>

lemma put_entry_op:
  assumes R: "ready g s X" and O: "open_block g s v c es" and c: "cl_block g c \<in> X" and d: "entry_ok d"
    and fit: "nat (dv_position v) + unat (ed_rec_len d) \<le> unat (block_size (fs_sb s))"
  shows "\<exists>v' m. put_entry g d v s = (v', s\<lparr>mem := m\<rparr>) \<and> uses g {} {cl_block g c} s (s\<lparr>mem := m\<rparr>) \<and> ready g (s\<lparr>mem := m\<rparr>) X
    \<and> open_block g (s\<lparr>mem := m\<rparr>) v' c (es @ [d]) \<and> nat (dv_position v') = nat (dv_position v) + unat (ed_rec_len d)
    \<and> dv_iterator v' = dv_iterator v \<and> dv_block_count v' = dv_block_count v \<and> dv_child_count v' = dv_child_count v"
proof -
  let ?a = "block_addr g (fs_sb s) (cl_block g c)" and ?p = "nat (dv_position v)"
  let ?m = "copy_dentry (mem s) (?a + ?p) d (unat (ed_rec_len d))"
  have "block_start g (fs_sb s) (dv_block_no v) = ?a"
    using O block_start_cl [OF readyD(2) [OF R] readyD(8) [OF R c]] by (simp add: open_block_def)
  then have run: "put_entry g d v s = (v\<lparr>dv_previous := ?a + ?p, dv_position := dv_position v + uint (ed_rec_len d)\<rparr>, s\<lparr>mem := ?m\<rparr>)"
    by (simp add: put_entry_def Let_def)
  have p: "0 \<le> dv_position v" "entries_at (mem s) ?a es (?a + ?p)" using O by (simp_all add: open_block_def)
  have np: "nat (dv_position v + uint (ed_rec_len d)) = ?p + unat (ed_rec_len d)" using p(1) by (simp add: nat_add_distrib)
  have "agree_on (- {?a + ?p..<?a + ?p + unat (ed_rec_len d)}) (mem s) ?m" by (auto simp: agree_on_def copy_dentry_frame)
  then have "agree_on (- block_bytes g (fs_sb s) (cl_block g c)) (mem s) ?m"
    by (rule agree_on_mono) (use fit in \<open>auto simp: block_bytes_def\<close>)
  note B = block_changes [OF R c this]
  have "uses g {} {cl_block g c} s (s\<lparr>mem := ?m\<rparr>)" by (rule usesI [OF B(1)]) simp
  moreover have "open_block g (s\<lparr>mem := ?m\<rparr>) (fst (put_entry g d v s)) c (es @ [d])"
    using O entries_at_snoc [OF p(2) d] fit by (simp add: open_block_def run np add.assoc)
  ultimately show ?thesis
    using run B(2) np by (intro exI [of _ "fst (put_entry g d v s)"] exI [of _ ?m]) simp
qed

text \<open>Finishing the block: the last entry is stretched, and the block becomes an extent of the inode.\<close>

lemma changes_memory:
  assumes C: "changes g K A D s s'" and "B \<inter> D = {}" and "region g s B \<inter> meta_bytes g s = {}"
  shows "agree_on (region g s B) (mem s) (mem s')"
  using region_disjoint [OF assms(2), of g s] assms(3) by (intro agree_on_mono [OF changesD(6) [OF C]]) blast

lemma block_lists_region:
  assumes "list_all2 (block_lists g s) cs ess" and "agree_on (region g s (cl_blocks g cs)) (mem s) (mem s')" "fs_sb s' = fs_sb s"
  shows "list_all2 (block_lists g s') cs ess"
proof -
  have "agree_on (block_bytes g (fs_sb s) (cl_block g c)) (mem s) (mem s')" if "c \<in> set cs" for c
    using assms(2) that by (auto simp: region_def intro: agree_on_mono)
  then show ?thesis using assms(1,3) block_lists_cong [of g s _ _ s'] by (force elim: list.rel_mono_strong)
qed

lemma stretch_op:
  assumes R: "ready g s X" and O: "open_block g s v c es" "es \<noteq> []" and c: "cl_block g c \<in> X"
  defines "s1 \<equiv> s\<lparr>mem := stretch_entry (fs_sb s) (dv_previous v) (dv_position v) (mem s)\<rparr>"
  shows "uses g {} {cl_block g c} s s1" and "ready g s1 X" and "block_lists g s1 c (map entry_info es)"
proof -
  let ?a = "block_addr g (fs_sb s) (cl_block g c)" and ?p = "nat (dv_position v)" and ?pr = "dv_previous v"
  note Rd = readyD [OF R]
  have v: "valid_block s (cl_block g c)" by (rule Rd(8) [OF c])
  have st: "block_start g (fs_sb s) (dv_block_no v) = ?a"
    using O(1) block_start_cl [OF Rd(2) v] by (simp add: open_block_def)
  have "es = butlast es @ [last es]" using O(2) by simp
  moreover have "entries_at (mem s) ?a es (?a + ?p)" using O(1) by (simp add: open_block_def)
  ultimately have "\<exists>b. entries_at (mem s) ?a (butlast es) b \<and> entries_at (mem s) b [last es] (?a + ?p)"
    using entries_at_append by metis
  then obtain b where b: "entries_at (mem s) ?a (butlast es) b" "entry_ok (last es)" "b + unat (ed_rec_len (last es)) = ?a + ?p"
    by auto
  have "b = ?pr" using b(3) O by (simp add: open_block_def)
  then have "?a \<le> ?pr" "?pr + 8 \<le> ?a + unat (block_size (fs_sb s))"
    using entries_at_le [OF b(1)] b(2,3) O(1) by (auto simp: entry_ok_def open_block_def)
  moreover have "agree_on (- {?pr + 4..<?pr + 6}) (mem s) (mem s1)"
    by (auto simp: agree_on_def s1_def stretch_entry_def u16.store_frame)
  ultimately have "agree_on (- block_bytes g (fs_sb s) (cl_block g c)) (mem s) (mem s1)"
    by (elim agree_on_mono) (auto simp: block_bytes_def)
  note B = block_changes [OF R c this [unfolded s1_def, simplified]]
  show "uses g {} {cl_block g c} s s1" "ready g s1 X" using B by (auto simp: s1_def intro: usesI)
  have "read_dir_block (mem s1) ?a (?a + unat (block_size (fs_sb s))) = Some (map entry_info es)"
    using dir_open_stretched [OF open_block_dir_open [OF O Rd(2) v] Rd(7)] by (simp add: s1_def st)
  then show "block_lists g s1 c (map entry_info es)" by (simp add: block_lists_def s1_def)
qed

lemma e4blk_cl:
  assumes "data_cluster g c"
  shows "e4blk_to_fat_cl g (fat_cl_to_e4blk g c) = c"
proof -
  have c: "2 \<le> unat c" "unat c - 2 + unat (first_data_block g) < 2 ^ 32" using assms unfolding data_cluster_def by blast+
  note u = unat_fat_cl_to_e4blk [OF c]
  have l: "unat (fat_cl_to_e4blk g c) < 2 ^ 62" "\<not> unat (fat_cl_to_e4blk g c) < unat (first_data_block g)"
    "unat (fat_cl_to_e4blk g c) + 2 - unat (first_data_block g) = unat c" using u c by simp_all
  show ?thesis by (simp only: e4blk_to_fat_cl_int [OF l(1)] l(2,3) if_False) simp
qed

lemma dir_extent_blocks [simp]: "blocks_of g (dir_extent i c) = {cl_block g c}"
  using one_block [of "dir_extent i c" g] by (simp add: dir_extent_def)

lemma close_block_op:
  assumes R: "ready g s X" and C: "closed_dir g s k T cs ess" and O: "open_block g s v c es" "es \<noteq> []" and c: "cl_block g c \<in> X"
    and cnt: "dv_block_count v = word_of_nat (length cs + 1)" and room: "length cs < unat (max_entries (fs_sb s))"
  defines "s1 \<equiv> s\<lparr>mem := stretch_entry (fs_sb s) (dv_previous v) (dv_position v) (mem s)\<rparr>"
  shows "register_dir_extent g (dv_block_no v) (dv_block_count v - 1) k s1 = Some (Inl Fs_Too_Small) \<and> \<not> supplies s 1 0 \<or>
    (\<exists>s' T'. register_dir_extent g (dv_block_no v) (dv_block_count v - 1) k s1 = Some (Inr s')
      \<and> uses g {k} (insert (cl_block g c) T) s s' \<and> ready g s' (X - {cl_block g c})
      \<and> closed_dir g s' k T' (cs @ [c]) (ess @ [map entry_info es]) \<and> T' \<subseteq> T \<union> spare g (alloc s)
      \<and> inode_fields g s' k = inode_fields g s k \<and> fs_first_free_inode_no s' = fs_first_free_inode_no s
      \<and> draws 1 0 s s')"
proof -
  note D = closed_dirD [OF C]
  have apart: "cl_block g c \<notin> T \<union> cl_blocks g cs" using owned_free [OF _ R, of "T \<union> cl_blocks g cs"] D(2,5) c by auto
  note S1 = stretch_op [OF R O c, folded s1_def]
  have C1: "closed_dir g s1 k T cs ess" "inode_fields g s1 k = inode_fields g s k"
    by (rule closed_dir_uses [OF C R S1(1)]; use apart in auto)+
  note D1 = closed_dirD [OF C1(1)] and E1 = uses_same [OF S1(1)]
  have s1: "alloc s1 = alloc s" "fs_first_free_inode_no s1 = fs_first_free_inode_no s" "fs_sb s1 = fs_sb s" by (simp_all add: s1_def)
  let ?f = "dir_extent (length cs) c"
  have dc: "data_cluster g c" using O(1) by (simp add: open_block_def)
  have run: "register_dir_extent g (dv_block_no v) (dv_block_count v - 1) k s1 = register_extent g ?f k True s1"
    using O(1) e4blk_cl [OF dc] by (simp add: register_dir_extent_def dir_extent_def cnt open_block_def)
  have fits: "extent_fits g s1 ?f"
    using block_number(2) [OF readyD(2) [OF S1(2)] readyD(8) [OF S1(2) c]] readyD(8) [OF S1(2) c]
    by (simp add: extent_fits_def dir_extent_def)
  have sub: "blocks_of g ?f \<subseteq> X" using c by simp
  have "length (inode_extents g s1 k) < unat (max_entries (fs_sb s1))" using room by (simp add: D1(4) s1)
  note appended = register_extent_op [OF S1(2) D1(1) fits sub this]
  have same: "supplies s1 n j = supplies s n j" for n j by (simp add: s1_def)
  from appended show ?thesis
  proof (elim disjE exE conjE)
    fix s' Y
    assume s': "register_extent g ?f k True s1 = Some (Inr s')" "changes g {k} (blocks_of g ?f \<union> Y) (T \<union> Y) s1 s'"
      "ready g s' (X - blocks_of g ?f)" "Y \<subseteq> spare g (alloc s1)" "tree_in g s' k (T \<union> Y)"
      "inode_extents g s' k = inode_extents g s1 k @ [to_ext4_extent g ?f]"
      "agree_on (other_fields g s1 k) (mem s1) (mem s')" "fs_first_free_inode_no s' = fs_first_free_inode_no s1"
      "draws (if length (inode_extents g s1 k) = 4 then 1 else 0) 0 s1 s'"
    have "draws 1 0 s s'" using draws_mono [OF s'(9), of 1 0] by (simp add: s1_def)
    let ?B = "cl_blocks g (cs @ [c])"
    have U1: "uses g {k} (insert (cl_block g c) T) s1 s'" using s'(4) by (intro usesI [OF s'(2)]) auto
    have U: "uses g {k} (insert (cl_block g c) T) s s'"
      by (rule uses_trans [OF uses_mono [OF S1(1)] U1]) auto
    have new: "owned g s' (insert (cl_block g c) Y)"
      using s'(4) c by (intro owned_new [OF S1(2) s'(2)]) auto
    have Y: "Y \<inter> ?B = {}" "T \<inter> ?B = {}"
      using s'(4) D1(6) apart owned_free [OF D1(5) S1(2)] readyD(12) [OF S1(2)] c by auto
    have "region g s1 ?B \<inter> meta_bytes g s1 = {}"
      using D1(5) free_region [OF S1(2), of "cl_block g c"] c by (auto simp: owned_def region_def)
    then have mem': "agree_on (region g s1 ?B) (mem s1) (mem s')" using Y by (intro changes_memory [OF s'(2)]) blast+
    have "list_all2 (block_lists g s1) (cs @ [c]) (ess @ [map entry_info es])"
      using D1(7) S1(3) by (intro list_all2_appendI) simp_all
    from block_lists_region [OF this mem' changes_same(1) [OF s'(2)]]
    have "list_all2 (block_lists g s') (cs @ [c]) (ess @ [map entry_info es])" .
    moreover have "owned g s' ({cl_block g c} \<union> cl_blocks g cs)" "owned g s' (T \<union> Y)"
      using owned_uses [OF U1 D1(2)] owned_uses [OF U1 D1(5)] owned_subset [OF new] unfolding owned_Un by blast+
    ultimately have "closed_dir g s' k (T \<union> Y) (cs @ [c]) (ess @ [map entry_info es])"
      unfolding closed_dir_def using s'(5,6,8) D1(3,4) Y by auto
    moreover have "inode_fields g s' k = inode_fields g s k"
      using inode_fields_kept [OF s'(7)] changes_same(6) [OF s'(2)] D1(1) C1(2) by (simp add: tree_in_def)
    moreover have "T \<union> Y \<subseteq> T \<union> spare g (alloc s)" using s'(4) by (auto simp: s1(1))
    moreover have "ready g s' (X - {cl_block g c})" using s'(3) by simp
    ultimately show ?thesis
      using run s'(1,8) s1(2) U \<open>draws 1 0 s s'\<close> by (intro disjI2 exI [of _ s'] exI [of _ "T \<union> Y"] conjI) simp_all
  qed (simp_all add: run same)
qed

subsection \<open>The next block\<close>

lemma take_block:
  assumes R: "ready g s X" and b: "b \<in> spare g (alloc s)" "spare g al \<subseteq> spare g (alloc s) - {b}"
    and al: "alloc_wf al" "\<forall>c. usable al c \<longrightarrow> usable (alloc s) c"
  shows "ready g (s\<lparr>alloc := al\<rparr>) (insert b X)" and "uses g {} {} s (s\<lparr>alloc := al\<rparr>)"
proof -
  note D = readyD [OF R]
  have "b \<notin> X" using D(12) b(1) by blast
  then show "ready g (s\<lparr>alloc := al\<rparr>) (insert b X)"
    using D(1,3,5-7,12) D(8-11) D(13) b al unfolding ready_def blocks_inv_def by auto
  have "changes g {} {} {b} s (s\<lparr>alloc := al\<rparr>)"
    using b(2) al(2) by (simp add: changes_def same_groups_def agree_on_def)
  then show "uses g {} {} s (s\<lparr>alloc := al\<rparr>)" using b(1) by (intro usesI) auto
qed

text \<open>The clusters of the directory that are not used yet, all different and different from the other blocks \<open>X\<close>.\<close>

definition dir_pool :: "fat_globals \<Rightarrow> ext4_state \<Rightarrow> u32 list \<Rightarrow> nat set \<Rightarrow> bool" where
  "dir_pool g s cs X \<longleftrightarrow> ready g s (cl_blocks g cs \<union> X) \<and> cl_blocks g cs \<inter> X = {} \<and> distinct (map (cl_block g) cs)
     \<and> (\<forall>c \<in> set cs. data_cluster g c)"

lemma dir_poolD:
  assumes "dir_pool g s cs X"
  shows "ready g s (cl_blocks g cs \<union> X)" "cl_blocks g cs \<inter> X = {}" "distinct (map (cl_block g) cs)"
    "c \<in> set cs \<Longrightarrow> data_cluster g c"
  using assms by (simp_all add: dir_pool_def)

lemma next_dir_block_op:
  assumes D: "dir_pool g s rest X" and it: "stable_clusters g ps (readers P m) it rest" and P: "agree_on P m (mem s)"
  shows "next_dir_block g ps it s = Some (Inl Fs_Too_Small) \<and> \<not> supplies s 1 0 \<or>
    (\<exists>c it' s' rest'. next_dir_block g ps it s = Some (Inr (fat_cl_to_e4blk g c, it', s')) \<and> uses g {} {} s s' \<and> mem s' = mem s
      \<and> fs_first_free_inode_no s' = fs_first_free_inode_no s \<and> stable_clusters g ps (readers P m) it' rest'
      \<and> dir_pool g s' (c # rest') X \<and> cl_blocks g (c # rest') \<subseteq> cl_blocks g rest \<union> spare g (alloc s)
      \<and> draws 1 0 s s')"
proof -
  obtain it' where it': "next_cluster_no g ps it s = Some (Inr (if rest = [] then 0 else hd rest, it'))"
    "stable_clusters g ps (readers P m) it' (tl rest)"
    using stable_next_cluster_no [OF it] P by auto
  note E = dir_poolD [OF D]
  show ?thesis
  proof (cases rest)
    case (Cons c rest')
    then have "data_cluster g c" using E(4) by simp
    then have "c \<noteq> 0" by (auto simp: data_cluster_def)
    then have "next_dir_block g ps it s = Some (Inr (fat_cl_to_e4blk g c, it', s))"
      using it'(1) Cons by (simp add: next_dir_block_def)
    moreover have "draws 1 0 s s" by (rule draws_mono [OF draws_refl]) simp_all
    ultimately show ?thesis using it'(2) D Cons uses_refl
      by (intro disjI2 exI [of _ c] exI [of _ it'] exI [of _ s] exI [of _ rest']) auto
  next
    case Nil
    from allocate_one [OF E(1)] show ?thesis
    proof (elim disjE exE conjE)
      fix f al
      assume f: "allocate_extent 1 (alloc s) = Inr (f, al)" "cl_block g (fe_physical_start f) \<in> spare g (alloc s)"
        "data_cluster g (fe_physical_start f)" "alloc_wf al" "spare g al \<subseteq> spare g (alloc s) - {cl_block g (fe_physical_start f)}"
        "\<forall>c. usable al c \<longrightarrow> usable (alloc s) c"
      let ?c = "fe_physical_start f" and ?s = "s\<lparr>alloc := al\<rparr>"
      have "next_dir_block g ps it s = Some (Inr (fat_cl_to_e4blk g ?c, it', ?s))"
        using it'(1) Nil f(1) by (simp add: next_dir_block_def allocate_def)
      moreover have "dir_pool g ?s [?c] X"
        using take_block(1) [OF E(1) f(2,5,4,6)] f(2,3) readyD(12) [OF E(1)] Nil by (auto simp: dir_pool_def)
      moreover have "uses g {} {} s ?s" by (rule take_block(2) [OF E(1) f(2,5,4,6)])
      moreover have "draws 1 0 s ?s" by (rule draws_cluster [OF readyD(4) [OF E(1)]]) (simp_all add: f(1))
      moreover have "stable_clusters g ps (readers P m) it' []" using it'(2) Nil by simp
      ultimately show ?thesis
        using f(2) by (intro disjI2 exI [of _ ?c] exI [of _ it'] exI [of _ ?s] exI [of _ "[]"]) simp
    qed (use it'(1) Nil cluster_starved [OF readyD(4) [OF E(1)]] in \<open>simp add: next_dir_block_def allocate_def\<close>)
  qed
qed

subsection \<open>Placing entries\<close>

text \<open>A directory that is being filled: its tree, the clusters of its finished blocks and what these list, and the open block.\<close>

record dir_view =
  vw_tree :: "nat set"
  vw_done :: "u32 list"
  vw_open :: u32
  vw_rest :: "u32 list"
  vw_lists :: "(u32 \<times> u8 list) list list"
  vw_entries :: "ext4_dentry list"

definition view_pool :: "fat_globals \<Rightarrow> dir_view \<Rightarrow> nat set" where
  "view_pool g W = cl_blocks g (vw_open W # vw_rest W)"

definition view_owned :: "fat_globals \<Rightarrow> dir_view \<Rightarrow> nat set" where
  "view_owned g W = vw_tree W \<union> cl_blocks g (vw_done W)"

definition view_infos :: "dir_view \<Rightarrow> (u32 \<times> u8 list) list" where
  "view_infos W = concat (vw_lists W) @ map entry_info (vw_entries W)"

definition view_place :: "dir_view \<Rightarrow> dir_vars \<Rightarrow> nat \<times> nat" where
  "view_place W v = (length (vw_done W) + 1, nat (dv_position v))"

definition filling ::
  "fat_globals \<Rightarrow> u64 \<Rightarrow> nat set \<Rightarrow> memory \<Rightarrow> ext4_state \<Rightarrow> u32 \<Rightarrow> dir_vars \<Rightarrow> dir_view \<Rightarrow> nat set \<Rightarrow> bool" where
  "filling g ps P m s k v W X \<longleftrightarrow> closed_dir g s k (vw_tree W) (vw_done W) (vw_lists W)
     \<and> dir_pool g s (vw_open W # vw_rest W) X \<and> open_block g s v (vw_open W) (vw_entries W) \<and> vw_entries W \<noteq> []
     \<and> dv_block_count v = word_of_nat (length (vw_done W) + 1)
     \<and> stable_clusters g ps (readers P m) (dv_iterator v) (vw_rest W)
     \<and> agree_on P m (mem s) \<and> stream_off g s (view_pool g W \<union> X \<union> vw_tree W) P"

lemma fillingD:
  assumes "filling g ps P m s k v W X"
  shows "closed_dir g s k (vw_tree W) (vw_done W) (vw_lists W)" "dir_pool g s (vw_open W # vw_rest W) X"
    "open_block g s v (vw_open W) (vw_entries W)" "vw_entries W \<noteq> []"
    "dv_block_count v = word_of_nat (length (vw_done W) + 1)"
    "stable_clusters g ps (readers P m) (dv_iterator v) (vw_rest W)" "agree_on P m (mem s)"
    "stream_off g s (view_pool g W \<union> X \<union> vw_tree W) P" "ready g s (view_pool g W \<union> X)" "view_pool g W \<inter> X = {}"
    "owned g s (view_owned g W)"
  using assms by (auto simp: filling_def dir_pool_def view_pool_def view_owned_def closed_dir_def)

text \<open>The number of blocks, and the position in the last one, after an entry of \<open>r\<close> bytes.\<close>

fun pack :: "nat \<Rightarrow> nat \<Rightarrow> nat \<times> nat \<Rightarrow> nat \<times> nat" where
  "pack bs r (n, pos) = (if bs < pos + r then (n + 1, r) else (n, pos + r))"

lemma put_filling:
  assumes C: "closed_dir g s k T cs ess" and D: "dir_pool g s (c # rest) X" and O: "open_block g s v c es"
    and cnt: "dv_block_count v = word_of_nat (length cs + 1)" and it: "stable_clusters g ps (readers P m) (dv_iterator v) rest"
    and P: "agree_on P m (mem s)" "stream_off g s (cl_blocks g (c # rest) \<union> X \<union> T) P" and d: "entry_ok d"
    and fit: "nat (dv_position v) + unat (ed_rec_len d) \<le> unat (block_size (fs_sb s))"
  defines "W \<equiv> \<lparr>vw_tree = T, vw_done = cs, vw_open = c, vw_rest = rest, vw_lists = ess, vw_entries = es @ [d]\<rparr>"
  shows "\<exists>v' s'. put_entry g d v s = (v', s') \<and> filling g ps P m s' k v' W X \<and> uses g {} {cl_block g c} s s'
    \<and> nat (dv_position v') = nat (dv_position v) + unat (ed_rec_len d) \<and> dv_child_count v' = dv_child_count v
    \<and> fs_first_free_inode_no s' = fs_first_free_inode_no s \<and> inode_fields g s' k = inode_fields g s k \<and> draws 0 0 s s'"
proof -
  note E = dir_poolD [OF D]
  have c: "cl_block g c \<in> cl_blocks g (c # rest) \<union> X" by simp
  obtain v' m' where q: "put_entry g d v s = (v', s\<lparr>mem := m'\<rparr>)" "uses g {} {cl_block g c} s (s\<lparr>mem := m'\<rparr>)"
    "ready g (s\<lparr>mem := m'\<rparr>) (cl_blocks g (c # rest) \<union> X)" "open_block g (s\<lparr>mem := m'\<rparr>) v' c (es @ [d])"
    "nat (dv_position v') = nat (dv_position v) + unat (ed_rec_len d)" "dv_iterator v' = dv_iterator v"
    "dv_block_count v' = dv_block_count v" "dv_child_count v' = dv_child_count v"
    using put_entry_op [OF E(1) O c d fit] by blast
  have "{cl_block g c} \<inter> (T \<union> cl_blocks g cs) = {}"
    using owned_free [OF _ E(1), of "T \<union> cl_blocks g cs"] closed_dirD(2,5) [OF C] by auto
  note C' = closed_dir_uses [OF C E(1) q(2) _ this]
  have P': "stream_off g (s\<lparr>mem := m'\<rparr>) (cl_blocks g (c # rest) \<union> X \<union> T) P" "agree_on P (mem s) m'"
    using uses_stream [OF q(2) P(2), of "cl_blocks g (c # rest) \<union> X \<union> T"] by auto
  have "filling g ps P m (s\<lparr>mem := m'\<rparr>) k v' W X"
    using C'(1) E(2-4) q(3,4,6,7) cnt it P'(1) agree_on_trans [OF P(1) P'(2)]
    by (simp add: filling_def W_def dir_pool_def view_pool_def)
  then show ?thesis
    using q(1,2,5,8) C'(2) by (intro exI [of _ v'] exI [of _ "s\<lparr>mem := m'\<rparr>"]) simp
qed

lemma bind_run_assoc: "bind_run (bind_run r f) h = bind_run r (\<lambda>x. bind_run (f x) h)"
  by (cases r) (simp_all add: bind_run_def split: sum.splits)

lemma fits_block:
  assumes "0 \<le> pos" "nat pos \<le> unat (block_size sb)" "unat (block_size sb) < 65536"
  shows "block_size sb - word_of_int pos < ucast (r :: u16) \<longleftrightarrow> unat (block_size sb) < nat pos + unat r"
proof -
  have "unat (word_of_int pos :: u32) = nat pos" using assms by (intro unat_word_of_int_u32) simp_all
  then have "unat (block_size sb - word_of_int pos) = unat (block_size sb) - nat pos"
    using assms by (subst unat_sub_no_underflow) simp_all
  then show ?thesis using assms(2) by (auto simp: word_less_nat_alt)
qed

lemma place_entry_op:
  assumes F: "filling g ps P m s k v W X" and d: "entry_ok d"
    and room: "fst (pack (unat (block_size (fs_sb s))) (unat (ed_rec_len d)) (view_place W v)) \<le> unat (max_entries (fs_sb s))"
  shows "place_entry g ps k d v s = Some (Inl Fs_Too_Small) \<and> \<not> supplies s 2 0 \<or>
    (\<exists>v' s' W'. place_entry g ps k d v s = Some (Inr (v', s')) \<and> filling g ps P m s' k v' W' X
      \<and> uses g {k} (view_pool g W \<union> vw_tree W) s s' \<and> view_infos W' = view_infos W @ [entry_info d]
      \<and> view_place W' v' = pack (unat (block_size (fs_sb s))) (unat (ed_rec_len d)) (view_place W v)
      \<and> view_owned g W' \<union> view_pool g W' \<subseteq> view_owned g W \<union> view_pool g W \<union> spare g (alloc s)
      \<and> vw_tree W' \<subseteq> vw_tree W \<union> spare g (alloc s)
      \<and> dv_child_count v' = dv_child_count v \<and> fs_first_free_inode_no s' = fs_first_free_inode_no s
      \<and> inode_fields g s' k = inode_fields g s k \<and> draws 2 0 s s')"
proof -
  note D = fillingD [OF F] and R = readyD [OF fillingD(9) [OF F]]
  obtain T cs c rest ess es where W: "W = \<lparr>vw_tree = T, vw_done = cs, vw_open = c, vw_rest = rest, vw_lists = ess, vw_entries = es\<rparr>"
    by (cases W)
  note D' = D [unfolded W dir_view.simps] and w = view_pool_def view_owned_def view_infos_def view_place_def W
  have pos: "0 \<le> dv_position v" "nat (dv_position v) \<le> unat (block_size (fs_sb s))"
    using D(3) by (simp_all add: open_block_def)
  note fit = fits_block [OF pos R(7), of "ed_rec_len d"]
  have off: "stream_off g s (cl_blocks g (c # rest) \<union> X \<union> T) P" using D(8) by (simp add: w)
  show ?thesis
  proof (cases "unat (block_size (fs_sb s)) < nat (dv_position v) + unat (ed_rec_len d)")
    case False
    then have run: "place_entry g ps k d v s = Some (Inr (put_entry g d v s))"
      using fit by (simp add: place_entry_def next_block_for_def)
    have le: "nat (dv_position v) + unat (ed_rec_len d) \<le> unat (block_size (fs_sb s))" using False by simp
    from put_filling [OF D'(1-3,5-7) off d le] obtain v' s' where q: "put_entry g d v s = (v', s')"
      "filling g ps P m s' k v' \<lparr>vw_tree = T, vw_done = cs, vw_open = c, vw_rest = rest, vw_lists = ess, vw_entries = es @ [d]\<rparr> X"
      "uses g {} {cl_block g c} s s'" "nat (dv_position v') = nat (dv_position v) + unat (ed_rec_len d)"
      "dv_child_count v' = dv_child_count v" "fs_first_free_inode_no s' = fs_first_free_inode_no s"
      "inode_fields g s' k = inode_fields g s k" "draws 0 0 s s'" by blast
    have "draws 2 0 s s'" using draws_mono [OF q(8), of 2 0] by simp
    have "uses g {k} (view_pool g W \<union> vw_tree W) s s'" by (rule uses_mono [OF q(3)]) (auto simp: w)
    then show ?thesis
      using run q False \<open>draws 2 0 s s'\<close>
      by (intro disjI2 exI [of _ v'] exI [of _ s']
          exI [of _ "\<lparr>vw_tree = T, vw_done = cs, vw_open = c, vw_rest = rest, vw_lists = ess, vw_entries = es @ [d]\<rparr>"])
        (auto simp: w)
  next
    case True
    let ?s1 = "s\<lparr>mem := stretch_entry (fs_sb s) (dv_previous v) (dv_position v) (mem s)\<rparr>"
    let ?pool = "cl_blocks g (c # rest) \<union> X"
    have run: "place_entry g ps k d v s = bind_run (register_dir_extent g (dv_block_no v) (dv_block_count v - 1) k ?s1) (\<lambda>s2.
        bind_run (next_dir_block g ps (dv_iterator v) s2) (\<lambda>b. Some (Inr (put_entry g d
          (v\<lparr>dv_iterator := fst (snd b), dv_block_no := fst b, dv_block_count := dv_block_count v + 1, dv_position := 0\<rparr>) (snd (snd b))))))"
      using True fit by (simp add: place_entry_def next_block_for_def Let_def bind_run_assoc)
    note E = dir_poolD [OF D'(2)]
    have c: "cl_block g c \<in> ?pool" and room': "length cs < unat (max_entries (fs_sb s))" using room True by (simp_all add: w)
    from close_block_op [OF E(1) D'(1,3,4) c D'(5) room'] show ?thesis
    proof (elim disjE exE conjE)
      fix s2 T2
      assume s2: "register_dir_extent g (dv_block_no v) (dv_block_count v - 1) k ?s1 = Some (Inr s2)"
        "uses g {k} (insert (cl_block g c) T) s s2" "ready g s2 (?pool - {cl_block g c})"
        "closed_dir g s2 k T2 (cs @ [c]) (ess @ [map entry_info es])" "T2 \<subseteq> T \<union> spare g (alloc s)"
        "inode_fields g s2 k = inode_fields g s k" "fs_first_free_inode_no s2 = fs_first_free_inode_no s"
        "draws 1 0 s s2"
      have D2: "dir_pool g s2 rest X"
        unfolding dir_pool_def using E by (auto intro: ready_subset [OF s2(3)])
      have st2: "stream_off g s2 (cl_blocks g rest \<union> X \<union> T2) P" "agree_on P (mem s) (mem s2)"
        by (rule uses_stream [OF s2(2) off]; use s2(5) in auto)+
      have P2: "agree_on P m (mem s2)" by (rule agree_on_trans [OF D(7) st2(2)])
      from next_dir_block_op [OF D2 D'(6) P2] show ?thesis
      proof (elim disjE exE conjE)
        fix c' it s3 rest'
        assume s3: "next_dir_block g ps (dv_iterator v) s2 = Some (Inr (fat_cl_to_e4blk g c', it, s3))" "uses g {} {} s2 s3"
          "mem s3 = mem s2" "fs_first_free_inode_no s3 = fs_first_free_inode_no s2"
          "stable_clusters g ps (readers P m) it rest'" "dir_pool g s3 (c' # rest') X"
          "cl_blocks g (c' # rest') \<subseteq> cl_blocks g rest \<union> spare g (alloc s2)" "draws 1 0 s2 s3"
        let ?v = "v\<lparr>dv_iterator := it, dv_block_no := fat_cl_to_e4blk g c', dv_block_count := dv_block_count v + 1, dv_position := 0\<rparr>"
        have U3: "uses g {k} (insert (cl_block g c) T) s s3" by (rule uses_trans [OF s2(2) s3(2)]) auto
        have sb: "fs_sb s3 = fs_sb s" using uses_same(1) [OF U3] .
        have C3: "closed_dir g s3 k T2 (cs @ [c]) (ess @ [map entry_info es])" "inode_fields g s3 k = inode_fields g s2 k"
          by (rule closed_dir_uses [OF s2(4) dir_poolD(1) [OF D2] s3(2)]; simp)+
        have O3: "open_block g s3 ?v c' []" using dir_poolD(4) [OF s3(6)] by (simp add: open_block_def)
        have cnt: "dv_block_count ?v = word_of_nat (length (cs @ [c]) + 1)" using D'(5) by simp
        have it: "stable_clusters g ps (readers P m) (dv_iterator ?v) rest'" using s3(5) by simp
        have P3: "agree_on P m (mem s3)" using P2 s3(3) by simp
        have off3: "stream_off g s3 (cl_blocks g (c' # rest') \<union> X \<union> T2) P"
          by (rule uses_stream(1) [OF s3(2) st2(1)]) (use s3(7) in auto)
        have "unat (ed_rec_len d) \<le> 264" using d by (simp add: entry_ok_def)
        then have le: "nat (dv_position ?v) + unat (ed_rec_len d) \<le> unat (block_size (fs_sb s3))" using R(6) by (simp add: sb)
        let ?W = "\<lparr>vw_tree = T2, vw_done = cs @ [c], vw_open = c', vw_rest = rest', vw_lists = ess @ [map entry_info es], vw_entries = [d]\<rparr>"
        obtain v' s' where q: "put_entry g d ?v s3 = (v', s')" "filling g ps P m s' k v' ?W X" "uses g {} {cl_block g c'} s3 s'"
          "nat (dv_position v') = nat (dv_position ?v) + unat (ed_rec_len d)" "dv_child_count v' = dv_child_count ?v"
          "fs_first_free_inode_no s' = fs_first_free_inode_no s3" "inode_fields g s' k = inode_fields g s3 k" "draws 0 0 s3 s'"
          using put_filling [OF C3(1) s3(6) O3 cnt it P3 off3 d le] by auto
        have cost: "draws 2 0 s s'" using draws_trans [OF s2(8) draws_trans [OF s3(8) q(8)]] by (simp add: numeral_2_eq_2)
        have sp: "spare g (alloc s2) \<subseteq> spare g (alloc s)" by (rule uses_spare [OF s2(2)])
        have U: "uses g {k} (view_pool g W \<union> vw_tree W) s s'"
        proof (rule uses_trans [OF uses_mono [OF U3] q(3)])
          show "{cl_block g c'} \<subseteq> view_pool g W \<union> vw_tree W \<union> spare g (alloc s)" using s3(7) sp by (auto simp: w)
        qed (auto simp: w)
        have sub: "view_owned g ?W \<union> view_pool g ?W \<subseteq> view_owned g W \<union> view_pool g W \<union> spare g (alloc s)"
          using s3(7) sp s2(5) by (auto simp: w)
        have "place_entry g ps k d v s = Some (Inr (v', s'))" using run s2(1) s3(1) q(1) by simp
        moreover have "view_infos ?W = view_infos W @ [entry_info d]" by (simp add: w)
        moreover have "view_place ?W v' = pack (unat (block_size (fs_sb s))) (unat (ed_rec_len d)) (view_place W v)"
          using True q(4) by (simp add: w)
        moreover have "vw_tree ?W \<subseteq> vw_tree W \<union> spare g (alloc s)" using s2(5) by (simp add: w)
        ultimately show ?thesis
          using q(2,5,6,7) U sub s2(6,7) s3(4) C3(2) cost by (intro disjI2 exI [of _ v'] exI [of _ s'] exI [of _ ?W] conjI) simp_all
      qed (use run s2(1) draws_starved [OF s2(8), of 1 0] in \<open>simp_all add: numeral_2_eq_2\<close>)
    qed (use run starved_mono [of s 1 0 2 0] in simp_all)
  qed
qed

subsection \<open>Finishing a directory\<close>

lemma dir_size:
  assumes "n < 65536" and "unat (b :: u32) < 65536"
  shows "(ucast (word_of_nat n * b) :: u64) = word_of_nat (n * unat b)"
proof -
  have "n * unat b < 65536 * 65536" using assms by (intro mult_strict_mono) simp_all
  moreover have "unat (word_of_nat n :: u32) = n" using assms(1) by (simp add: unat_of_nat take_bit_nat_eq_self)
  ultimately have "unat (word_of_nat n * b) = n * unat b"
    by (subst unat_mult_no_overflow) simp_all
  then show ?thesis using of_nat_unat [of "word_of_nat n * b"] by metis
qed

lemma finish_dir_op:
  assumes F: "filling g ps P m s k v W X" and room: "fst (view_place W v) \<le> unat (max_entries (fs_sb s))"
    and fs: "0 < mi_fs_start (meta_info g)"
  shows "finish_dir g k v s = Some (Inl Fs_Too_Small) \<and> \<not> supplies s 1 0 \<or>
    (\<exists>s' T'. finish_dir g k v s = Some (Inr s') \<and> uses g {k} (view_pool g W \<union> vw_tree W) s s' \<and> ready g s' X
      \<and> closed_dir g s' k T' (vw_done W @ [vw_open W]) (vw_lists W @ [map entry_info (vw_entries W)])
      \<and> T' \<subseteq> vw_tree W \<union> spare g (alloc s)
      \<and> inode_fields g s' k = with_size (word_of_nat (fst (view_place W v) * unat (block_size (fs_sb s)))) (inode_fields g s k)
      \<and> fs_first_free_inode_no s' = fs_first_free_inode_no s \<and> draws 1 0 s s')"
proof -
  note D = fillingD [OF F] and R = readyD [OF fillingD(9) [OF F]] and E = dir_poolD [OF fillingD(2) [OF F]]
  let ?c = "vw_open W" and ?cs = "vw_done W" and ?es = "vw_entries W" and ?n = "length (vw_done W) + 1"
  let ?s1 = "s\<lparr>mem := stretch_entry (fs_sb s) (dv_previous v) (dv_position v) (mem s)\<rparr>"
  have c: "cl_block g ?c \<in> cl_blocks g (?c # vw_rest W) \<union> X" by simp
  have room': "length ?cs < unat (max_entries (fs_sb s))" using room by (simp add: view_place_def)
  obtain b where "entries_at (mem s) (block_addr g (fs_sb s) (cl_block g ?c)) (butlast ?es) b"
    "b + unat (ed_rec_len (last ?es)) = block_addr g (fs_sb s) (cl_block g ?c) + nat (dv_position v)"
    using D(3,4) entries_at_append [of "mem s" _ "butlast ?es" "[last ?es]"] by (auto simp: open_block_def)
  then have "dv_previous v \<noteq> 0"
    using D(3,4) entries_at_le fs by (fastforce simp: open_block_def block_addr_def)
  then have run: "finish_dir g k v s = bind_run (register_dir_extent g (dv_block_no v) (dv_block_count v - 1) k ?s1) (\<lambda>s2.
      Some (set_size g k (ucast (dv_block_count v * block_size (fs_sb s2))) s2))"
    by (simp add: finish_dir_def)
  from close_block_op [OF E(1) D(1,3,4) c D(5) room'] show ?thesis
  proof (elim disjE exE conjE)
    fix s2 T2
    assume s2: "register_dir_extent g (dv_block_no v) (dv_block_count v - 1) k ?s1 = Some (Inr s2)"
      "uses g {k} (insert (cl_block g ?c) (vw_tree W)) s s2" "ready g s2 (cl_blocks g (?c # vw_rest W) \<union> X - {cl_block g ?c})"
      "closed_dir g s2 k T2 (?cs @ [?c]) (vw_lists W @ [map entry_info ?es])" "T2 \<subseteq> vw_tree W \<union> spare g (alloc s)"
      "inode_fields g s2 k = inode_fields g s k" "fs_first_free_inode_no s2 = fs_first_free_inode_no s" "draws 1 0 s s2"
    let ?sz = "ucast (dv_block_count v * block_size (fs_sb s2)) :: u64"
    note C2 = closed_dirD [OF s2(4)]
    have R2: "ready g s2 X" using E(2) by (intro ready_subset [OF s2(3)]) auto
    obtain m' where m': "set_size g k ?sz s2 = Inr (s2\<lparr>mem := m'\<rparr>)" "uses g {k} {} s2 (s2\<lparr>mem := m'\<rparr>)"
      "ready g (s2\<lparr>mem := m'\<rparr>) X" "tree_in g (s2\<lparr>mem := m'\<rparr>) k T2"
      "inode_extents g (s2\<lparr>mem := m'\<rparr>) k = inode_extents g s2 k"
      "inode_fields g (s2\<lparr>mem := m'\<rparr>) k = with_size ?sz (inode_fields g s2 k)"
      using set_size_op [OF R2 C2(1), of ?sz] by blast
    let ?s = "s2\<lparr>mem := m'\<rparr>"
    have "agree_on (region g s2 (cl_blocks g (?cs @ [?c]))) (mem s2) (mem ?s)"
      by (rule owned_memory [OF m'(2) C2(5) R2]) simp
    from block_lists_region [OF C2(7) this] have "list_all2 (block_lists g ?s) (?cs @ [?c]) (vw_lists W @ [map entry_info ?es])" by simp
    then have "closed_dir g ?s k T2 (?cs @ [?c]) (vw_lists W @ [map entry_info ?es])"
      using m'(4,5) C2(3,4,6) owned_uses [OF m'(2) C2(2)] owned_uses [OF m'(2) C2(5)] unfolding closed_dir_def by simp
    moreover have "?sz = word_of_nat (fst (view_place W v) * unat (block_size (fs_sb s)))"
    proof -
      have "?n < 65536" using room' unat_u16_bound [of "max_entries (fs_sb s)"] by linarith
      from dir_size [OF this R(7)] show ?thesis
        unfolding D(5) uses_same(1) [OF s2(2)] by (simp add: view_place_def)
    qed
    moreover have "uses g {k} (view_pool g W \<union> vw_tree W) s ?s"
      by (rule uses_trans [OF uses_mono [OF s2(2)] m'(2)]) (auto simp: view_pool_def)
    moreover have "finish_dir g k v s = Some (Inr ?s)" using run s2(1) m'(1) by simp
    ultimately show ?thesis
      using m'(3,6) s2(5-8) by (intro disjI2 exI [of _ ?s] exI [of _ T2] conjI) simp_all
  qed (use run in simp_all)
qed

end
