(* ===== verification/Tree_Children.thy ===== *)
theory Tree_Children
  imports Directory_Steps
begin

section \<open>Starting a directory and placing a child\<close>

text \<open>
  \<open>start_dir\<close> and \<open>place_child\<close> of tree_builder.cpp: what the statements of \<open>build_ext4_metadata_tree\<close>
  before the loop and the first half of its body promise, for the stream that a reader of the FAT
  side has left behind.
\<close>

subsection \<open>Skipping segments\<close>

lemma skip_segment:
  "stable_segment g ps (readers P m) st fs st' \<Longrightarrow> agree_on P m (mem s) \<Longrightarrow>
    skip_dir_extents g ps st s = Some (Inr (st', s))"
proof (induction rule: stable_segment.induct)
  case (stable_end st st')
  then show ?case by (simp add: skip_dir_extents_def skip_elements.simps [of g ps _ st])
next
  case (stable_extent st a st' f es st'')
  then show ?case by (simp add: skip_dir_extents_def skip_elements.simps [of g ps _ st])
qed

lemma count_in_reads:
  fixes s :: ext4_state
  assumes "count_in g ps (readers P m) st n st'" and "agree_on P m (mem s)"
  obtains b st1 where "getNext g ps 4 st s = Inr (b, st1, s)" and "b \<noteq> 0" and "getNext g ps 4 st1 s = Inr (0, st', s)"
    and "load_u32 (mem s) b = n"
proof -
  obtain b where b: "segment_cells g ps (readers P m) 4 st [b] st'" "\<forall>r \<in> readers P m. load_u32 (mem r) b = n"
    using assms(1) by (auto simp: count_in_def)
  have s: "s \<in> readers P m" using assms(2) by simp
  from b(1) obtain st1 where st1: "\<forall>r \<in> readers P m. getNext g ps 4 st r = Inr (b, st1, r)" "b \<noteq> 0"
    "segment_cells g ps (readers P m) 4 st1 [] st'" by (rule segment_cells_ConsE) blast
  from st1(3) have "\<forall>r \<in> readers P m. getNext g ps 4 st1 r = Inr (0, st', r)" by (rule segment_cells_NilE)
  then show thesis using that st1(1,2) b(2) s by blast
qed

lemma skip_count:
  assumes "count_in g ps (readers P m) st n st'" and "agree_on P m (mem s)"
  shows "skip_child_count g ps st s = Some (Inr (st', s))"
proof -
  obtain b st1 where "getNext g ps 4 st s = Inr (b, st1, s)" "b \<noteq> 0" "getNext g ps 4 st1 s = Inr (0, st', s)"
    using count_in_reads [OF assms] by blast
  then show ?thesis by (simp add: skip_child_count_def skip_elements.simps [of g ps _ st] skip_elements.simps [of g ps _ st1])
qed

subsection \<open>Starting a directory\<close>

text \<open>The contents of uninitialised memory are those of a whole entry.\<close>

definition junk_ok :: "junk \<Rightarrow> bool" where
  "junk_ok junk \<longleftrightarrow> (\<forall>n s. length (junk n s) = 256)"

definition dot_infos :: "u32 \<Rightarrow> u32 \<Rightarrow> (u32 \<times> u8 list) list" where
  "dot_infos k parent = [(k, [0x2E]), (parent, [0x2E, 0x2E])]"

lemma dot_dirs_op:
  assumes R: "ready g s X" and c: "cl_block g c \<in> X" "data_cluster g c" and j: "length j0 = 256" "length j1 = 256"
    and v: "dv_position v = 24" "dv_block_no v = fat_cl_to_e4blk g c"
      "build_dot_dirs j0 j1 k parent (block_start g (fs_sb s) (dv_block_no v)) (mem s) = (dv_previous v, m)"
  shows "uses g {} {cl_block g c} s (s\<lparr>mem := m\<rparr>)" and "ready g (s\<lparr>mem := m\<rparr>) X"
    and "\<exists>es. open_block g (s\<lparr>mem := m\<rparr>) v c es \<and> es \<noteq> [] \<and> map entry_info es = dot_infos k parent"
proof -
  note Rd = readyD [OF R]
  let ?d = "build_dot_dir_dentry j0 k" and ?dd = "build_dot_dot_dir_dentry j1 parent"
  let ?a = "block_addr g (fs_sb s) (cl_block g c)"
  have d: "unat (ed_rec_len ?d) = 12" "unat (ed_rec_len ?dd) = 12"
    "entry_info ?d = (k, [0x2E])" "entry_info ?dd = (parent, [0x2E, 0x2E])"
    using special_dentry_ok [OF j(1), of "[0x2E]" k] special_dentry_ok [OF j(2), of "[0x2E, 0x2E]" parent]
    by (simp_all add: build_dot_dir_dentry_def build_dot_dot_dir_dentry_def)
  have start: "block_start g (fs_sb s) (dv_block_no v) = ?a"
    using v(2) block_start_cl [OF Rd(2) Rd(8) [OF c(1)]] by simp
  have bs: "24 \<le> unat (block_size (fs_sb s))" using Rd(6) by linarith
  have "m = copy_dentry (copy_dentry (mem s) ?a ?d 12) (?a + 12) ?dd 12"
    using v(3) by (auto simp: build_dot_dirs_def Let_def d start)
  then have "agree_on (- {?a..<?a + 24}) (mem s) m" by (auto simp: agree_on_def copy_dentry_frame)
  then have "agree_on (- block_bytes g (fs_sb s) (cl_block g c)) (mem s) m"
    by (rule agree_on_mono) (use bs in \<open>auto simp: block_bytes_def\<close>)
  note B = block_changes [OF R c(1) this]
  show "uses g {} {cl_block g c} s (s\<lparr>mem := m\<rparr>)" "ready g (s\<lparr>mem := m\<rparr>) X" using B by (auto intro: usesI)
  have "open_block g (s\<lparr>mem := m\<rparr>) v c [?d, ?dd]"
    using dot_dirs_open [OF j bs v(1,3)] start v(2) c(2) by (simp add: open_block_def dir_open_def Let_def)
  then show "\<exists>es. open_block g (s\<lparr>mem := m\<rparr>) v c es \<and> es \<noteq> [] \<and> map entry_info es = dot_infos k parent"
    using d by (intro exI [of _ "[?d, ?dd]"]) (simp add: dot_infos_def)
qed

lemma start_dir_op:
  assumes D: "dir_pool g s cs X" and C: "closed_dir g s k T [] []" and junk: "junk_ok junk"
    and seg: "stable_segment g ps (readers P m) st fs st1" "clusters_of fs = cs" and n: "count_in g ps (readers P m) st1 n st2"
    and P: "agree_on P m (mem s)" "stream_off g s (cl_blocks g cs \<union> X \<union> T) P"
  shows "start_dir g junk ps k parent st s = Some (Inl Fs_Too_Small) \<and> \<not> supplies s 1 0 \<or>
    (\<exists>v s' W. start_dir g junk ps k parent st s = Some (Inr (v, st2, s')) \<and> filling g ps P m s' k v W X
      \<and> uses g {} (cl_blocks g cs) s s' \<and> dv_child_count v = n \<and> view_infos W = dot_infos k parent \<and> view_place W v = (1, 24)
      \<and> view_owned g W \<union> view_pool g W \<subseteq> T \<union> cl_blocks g cs \<union> spare g (alloc s)
      \<and> fs_first_free_inode_no s' = fs_first_free_inode_no s \<and> inode_fields g s' k = inode_fields g s k
      \<and> draws 1 0 s s')"
proof -
  obtain it where it: "init_iterator g ps st s = Inr it" "stable_clusters g ps (readers P m) it cs"
    using stable_init_iterator [OF seg(1)] P(1) seg(2) by auto
  from next_dir_block_op [OF D it(2) P(1)] show ?thesis
  proof (elim disjE exE conjE)
    fix c it' s1 rest
    assume s1: "next_dir_block g ps it s = Some (Inr (fat_cl_to_e4blk g c, it', s1))" "uses g {} {} s s1" "mem s1 = mem s"
      "fs_first_free_inode_no s1 = fs_first_free_inode_no s" "stable_clusters g ps (readers P m) it' rest"
      "dir_pool g s1 (c # rest) X" "cl_blocks g (c # rest) \<subseteq> cl_blocks g cs \<union> spare g (alloc s)"
      "draws 1 0 s s1"
    have P1: "agree_on P m (mem s1)" using P(1) s1(3) by simp
    obtain b st1' where b: "getNext g ps 4 st1 s1 = Inr (b, st1', s1)" "b \<noteq> 0" "getNext g ps 4 st1' s1 = Inr (0, st2, s1)"
      "load_u32 (mem s1) b = n"
      using count_in_reads [OF n P1] by blast
    let ?j0 = "junk 0 s1" and ?j1 = "junk 1 s1" and ?a = "block_start g (fs_sb s1) (fat_cl_to_e4blk g c)"
    obtain prev m' where m': "build_dot_dirs ?j0 ?j1 k parent ?a (mem s1) = (prev, m')" by fastforce
    let ?v = "\<lparr>dv_iterator = it', dv_block_no = fat_cl_to_e4blk g c, dv_block_count = 1, dv_previous = prev,
      dv_position = 2 * uint EXT4_DOT_DENTRY_SIZE, dv_child_count = n\<rparr>"
    let ?s = "s1\<lparr>mem := m'\<rparr>"
    have run: "start_dir g junk ps k parent st s = Some (Inr (?v, st2, ?s))"
      using it(1) s1(1) skip_segment [OF seg(1) P1] b m' by (simp add: start_dir_def Let_def)
    note E = dir_poolD [OF s1(6)]
    have c: "cl_block g c \<in> cl_blocks g (c # rest) \<union> X" "data_cluster g c" using E(4) by simp_all
    have j: "length ?j0 = 256" "length ?j1 = 256" using junk by (simp_all add: junk_ok_def)
    have pos: "dv_position ?v = 24" "dv_block_no ?v = fat_cl_to_e4blk g c" by (simp_all add: EXT4_DOT_DENTRY_SIZE_def)
    have "build_dot_dirs ?j0 ?j1 k parent (block_start g (fs_sb s1) (dv_block_no ?v)) (mem s1) = (dv_previous ?v, m')"
      using m' by simp
    note B = dot_dirs_op [OF E(1) c j pos this]
    obtain es where es: "open_block g ?s ?v c es" "es \<noteq> []" "map entry_info es = dot_infos k parent" using B(3) by blast
    let ?W = "\<lparr>vw_tree = T, vw_done = [], vw_open = c, vw_rest = rest, vw_lists = [], vw_entries = es\<rparr>"
    note C1 = closed_dir_uses [OF C dir_poolD(1) [OF D] s1(2), simplified]
    have "cl_block g c \<notin> T" using owned_free [OF closed_dirD(2) [OF C1(1)] E(1)] by auto
    then have "{cl_block g c} \<inter> (T \<union> cl_blocks g []) = {}" by simp
    note C2 = closed_dir_uses [OF C1(1) E(1) B(1) _ this, simplified]
    have off: "stream_off g s1 (cl_blocks g (c # rest) \<union> X \<union> T) P"
      by (rule uses_stream(1) [OF s1(2) P(2)]) (use s1(7) in auto)
    have P2: "stream_off g ?s (cl_blocks g (c # rest) \<union> X \<union> T) P" "agree_on P (mem s1) (mem ?s)"
      by (rule uses_stream [OF B(1) off]; auto)+
    have "agree_on P m (mem ?s)" by (rule agree_on_trans [OF P1 P2(2)])
    then have "filling g ps P m ?s k ?v ?W X"
      using C2(1) es(1,2) s1(5) E(2-4) B(2) P2(1) by (simp add: filling_def dir_pool_def view_pool_def)
    moreover have "uses g {} (cl_blocks g cs) s ?s"
      by (rule uses_trans [OF uses_mono [OF s1(2)] B(1)]) (use s1(7) in auto)
    ultimately show ?thesis
      using run C1(2) C2(2) s1(4,7,8) es(3) pos(1)
      by (intro disjI2 exI [of _ ?v] exI [of _ ?s] exI [of _ ?W] conjI)
        (auto simp: view_infos_def view_place_def view_owned_def view_pool_def)
  qed (use it(1) in \<open>simp add: start_dir_def\<close>)
qed

subsection \<open>A directory while something else is built\<close>

lemma filling_uses:
  assumes F: "filling g ps P m s k v W X" and U: "uses g K N s s'" and k: "k \<notin> K" and N: "N \<subseteq> X - Y" "Y \<subseteq> X"
    and R: "ready g s' (view_pool g W \<union> Y)"
  shows "filling g ps P m s' k v W Y" and "inode_fields g s' k = inode_fields g s k"
proof -
  note D = fillingD [OF F] and E = dir_poolD [OF fillingD(2) [OF F]]
  have "N \<inter> (vw_tree W \<union> cl_blocks g (vw_done W)) = {}"
    using owned_free [OF D(11,9)] N(1) by (auto simp: view_owned_def)
  note C = closed_dir_uses [OF D(1,9) U k this]
  show "inode_fields g s' k = inode_fields g s k" by (rule C(2))
  have "cl_block g (vw_open W) \<in> view_pool g W \<union> X" "cl_block g (vw_open W) \<notin> N"
    using D(10) N(1) by (auto simp: view_pool_def)
  note O = open_block_uses [OF D(3,9) U this]
  have off: "stream_off g s' (view_pool g W \<union> Y \<union> vw_tree W) P" "agree_on P (mem s) (mem s')"
    by (rule uses_stream [OF U D(8)]; use N in auto)+
  then have "agree_on P m (mem s')" using D(7) agree_on_trans by blast
  then show "filling g ps P m s' k v W Y"
    using C(1) O D(4-6) E(3,4) D(10) N(2) R off(1) unfolding filling_def dir_pool_def view_pool_def by auto
qed

subsection \<open>Names\<close>

text \<open>The UTF-8 bytes of the name whose parts are \<open>ns\<close>, and the length of its entry.\<close>

definition utf8_name :: "u16 list list \<Rightarrow> u8 list" where
  "utf8_name ns = concat (map (\<lambda>us. concat (map utf8_unit (takeWhile (\<lambda>u. u \<noteq> 0) us))) ns)"

definition entry_length :: "u16 list list \<Rightarrow> nat" where
  "entry_length ns = (length (utf8_name ns) + 11) div 4 * 4"

definition name_ok :: "u16 list list \<Rightarrow> bool" where
  "name_ok ns \<longleftrightarrow> length (utf8_name ns) \<le> 254 \<and> (\<forall>us \<in> set ns. length us \<le> 13 \<and> (length us = 13 \<or> 0 \<in> set us))"

lemma load_array_append: "load_array ld n m a (i + j) = load_array ld n m a i @ load_array ld n m (a + n * i) j"
  by (induction i arbitrary: a) (simp_all add: add.assoc)

lemma name_units_at:
  assumes "name_at m a us" and "length us \<le> 13" "length us = 13 \<or> 0 \<in> set us"
  shows "name_units m a LFN_ENTRY_LENGTH = takeWhile (\<lambda>u. u \<noteq> 0) us"
proof -
  have "length us + (13 - length us) = 13" using assms(2) by simp
  then have "load_array load_u16 2 m a 13 = us @ load_array load_u16 2 m (a + 2 * length us) (13 - length us)"
    using load_array_append [of load_u16 2 m a "length us" "13 - length us"] assms(1) by (simp only: name_at_def)
  then obtain vs where vs: "load_array load_u16 2 m a 13 = us @ vs" ..
  show ?thesis
  proof (cases "length us = 13")
    case True
    then have "vs = []" using arg_cong [OF vs, of length] by simp
    then show ?thesis using vs by (simp add: name_units_def LFN_ENTRY_LENGTH_def)
  next
    case False
    then have "0 \<in> set us" using assms(3) by blast
    then have "takeWhile (\<lambda>u. u \<noteq> 0) (us @ vs) = takeWhile (\<lambda>u. u \<noteq> 0) us" by (intro takeWhile_append1) auto
    then show ?thesis using vs by (simp add: name_units_def LFN_ENTRY_LENGTH_def)
  qed
qed

lemma name_bytes_at:
  assumes "list_all2 (name_at m) as ns" and "\<forall>us \<in> set ns. length us \<le> 13 \<and> (length us = 13 \<or> 0 \<in> set us)"
  shows "name_bytes m as = utf8_name ns"
  using assms by (induction rule: list_all2_induct) (simp_all add: name_bytes_def utf8_name_def name_units_at)

lemma segment_elements:
  "segment_cells g ps R n st as st' \<Longrightarrow> s \<in> R \<Longrightarrow> element_segment g ps n s st as st'"
proof (induction rule: segment_cells.induct)
  case (cells_end st st')
  then show ?case by (intro segment_done) (simp add: getNext_def)
next
  case (cells_more st a st' as st'')
  then show ?case by (intro segment_element [of g ps n st s a st']) (simp_all add: getNext_def)
qed

subsection \<open>One child\<close>

lemma place_child_op:
  assumes F: "filling g ps P m s k v W X" and junk: "junk_ok junk"
    and a: "segment_cells g ps (readers P m) 32 st [a] st1" "\<forall>r \<in> readers P m. load_bytes (mem r) a 32 = d"
    and ns: "segment_cells g ps (readers P m) 26 st1 as st2" "\<forall>r \<in> readers P m. list_all2 (name_at (mem r)) as ns" "name_ok ns"
    and room: "fst (pack (unat (block_size (fs_sb s))) (entry_length ns) (view_place W v)) \<le> unat (max_entries (fs_sb s))"
  defines "j \<equiv> fs_first_free_inode_no s"
  shows "gives_up (place_child g env junk ps k v st s) \<and> \<not> supplies s 2 1 \<or>
    (\<exists>v' s' W'. place_child g env junk ps k v st s = Some (Inr (j, a, v', st2, s')) \<and> filling g ps P m s' k v' W' X
      \<and> uses g {k} (view_pool g W \<union> vw_tree W) s s' \<and> j < fs_first_free_inode_no s' \<and> inode_used g s' j
      \<and> tree_in g s' j {} \<and> inode_extents g s' j = [] \<and> inode_fields g s' j = dentry_inode env (image d) 0
      \<and> view_infos W' = view_infos W @ [(j, utf8_name ns)]
      \<and> view_place W' v' = pack (unat (block_size (fs_sb s))) (entry_length ns) (view_place W v)
      \<and> view_owned g W' \<union> view_pool g W' \<subseteq> view_owned g W \<union> view_pool g W \<union> spare g (alloc s)
      \<and> vw_tree W' \<subseteq> vw_tree W \<union> spare g (alloc s)
      \<and> dv_child_count v' = dv_child_count v \<and> inode_fields g s' k = inode_fields g s k \<and> draws 2 1 s s')"
proof -
  note D = fillingD [OF F]
  have s: "s \<in> readers P m" using D(7) by simp
  obtain st1' where st1': "getNext g ps 32 st s = Inr (a, st1', s)" "a \<noteq> 0" "getNext g ps 32 st1' s = Inr (0, st1, s)"
  proof -
    from a(1) obtain st1' where "\<forall>r \<in> readers P m. getNext g ps 32 st r = Inr (a, st1', r)" "a \<noteq> 0"
      "segment_cells g ps (readers P m) 32 st1' [] st1" by (rule segment_cells_ConsE) blast
    moreover from this(3) have "\<forall>r \<in> readers P m. getNext g ps 32 st1' r = Inr (0, st1, r)" by (rule segment_cells_NilE)
    ultimately show thesis using that s by blast
  qed
  have run: "place_child g env junk ps k v st s = bind_run (Some (build_inode g env a s)) (\<lambda>n.
         bind_run (build_dentry g ps (junk 3 (snd n)) (fst n) st1 (snd n)) (\<lambda>e.
         bind_run (place_entry g ps k (fst e) v (snd n)) (\<lambda>q. Some (Inr (fst n, a, fst q, snd e, snd q)))))"
    using st1' by (simp add: place_child_def sizeof_fat_dentry_def)
  have dinode: "dentry_inode env (mem s) a = dentry_inode env (image d) 0"
    using dentry_inode_bytes [of env "mem s" a] a(2) s by simp
  from new_inode_op [OF D(9), of env a, folded j_def] show ?thesis
  proof (elim disjE exE conjE)
    fix s1
    assume s1: "build_inode g env a s = Inr (j, s1)" "uses g {} {} s s1" "ready g s1 (view_pool g W \<union> X)"
      "j < fs_first_free_inode_no s1" "inode_used g s1 j" "tree_in g s1 j {}" "inode_extents g s1 j = []"
      "load_inode (mem s1) (inode_addr g s1 j) = dentry_inode env (mem s) a"
      "draws 0 1 s s1"
    have kj: "k < j" using closed_dirD(3) [OF D(1)] by (simp add: j_def)
    note F1 = filling_uses [OF F s1(2) _ _ order_refl s1(3), simplified]
    note E = fillingD [OF F1(1)]
    have s1R: "s1 \<in> readers P m" using E(7) by simp
    have "length (junk 3 s1) = 256" using junk by (simp add: junk_ok_def)
    moreover have "element_segment g ps (word_of_nat (LFN_ENTRY_LENGTH * 2)) s1 st1 as st2"
      using segment_elements [OF ns(1) s1R] by (simp add: LFN_ENTRY_LENGTH_def)
    ultimately obtain e where e: "build_dentry g ps (junk 3 s1) j st1 s1 = Some (Inr (e, st2))" "dentry_open e" "ed_inode e = j"
      "unat (ed_rec_len e) = (unat (ed_name_len e) + 11) div 4 * 4"
      "length (name_bytes (mem s1) as) \<le> 254 \<longrightarrow> dentry_name e = name_bytes (mem s1) as"
      using build_dentry_spec by blast
    have nm: "dentry_name e = utf8_name ns"
      using e(5) name_bytes_at [of "mem s1" as ns] ns(2,3) s1R by (simp add: name_ok_def)
    moreover have "length (dentry_name e) = unat (ed_name_len e)" using e(2) by (simp add: dentry_name_def dentry_open_def)
    ultimately have len: "unat (ed_rec_len e) = entry_length ns" using e(4) by (simp add: entry_length_def)
    have ok: "entry_ok e" using e(2,4) by (auto simp: entry_ok_def dentry_open_def)
    have sb: "fs_sb s1 = fs_sb s" using uses_same(1) [OF s1(2)] .
    have "fst (pack (unat (block_size (fs_sb s1))) (unat (ed_rec_len e)) (view_place W v)) \<le> unat (max_entries (fs_sb s1))"
      using room by (simp add: sb len)
    from place_entry_op [OF F1(1) ok this] show ?thesis
    proof (elim disjE exE conjE)
      fix v' s' W'
      assume q: "place_entry g ps k e v s1 = Some (Inr (v', s'))" "filling g ps P m s' k v' W' X"
        "uses g {k} (view_pool g W \<union> vw_tree W) s1 s'" "view_infos W' = view_infos W @ [entry_info e]"
        "view_place W' v' = pack (unat (block_size (fs_sb s1))) (unat (ed_rec_len e)) (view_place W v)"
        "view_owned g W' \<union> view_pool g W' \<subseteq> view_owned g W \<union> view_pool g W \<union> spare g (alloc s1)"
        "vw_tree W' \<subseteq> vw_tree W \<union> spare g (alloc s1)" "dv_child_count v' = dv_child_count v" "fs_first_free_inode_no s' = fs_first_free_inode_no s1"
        "inode_fields g s' k = inode_fields g s1 k" "draws 2 0 s1 s'"
      have cost: "draws 2 1 s s'" using draws_trans [OF s1(9) q(11)] by (simp add: numeral_2_eq_2)
      have "j \<notin> {k}" "(view_pool g W \<union> vw_tree W) \<inter> {} = {}" using kj by auto
      note T = tree_in_uses [OF s1(6) q(3) s1(4) this]
      have j': "inode_fields g s' j = dentry_inode env (image d) 0"
        using T(3) s1(8) dinode by (intro new_inode_fields [of s' g j env "image d" 0]) simp
      have v: "valid_inode s1 j" using s1(6) by (simp add: tree_in_def)
      have "uses g {k} (view_pool g W \<union> vw_tree W) s s'" by (rule uses_trans [OF uses_mono [OF s1(2)] q(3)]) auto
      moreover have "view_owned g W' \<union> view_pool g W' \<subseteq> view_owned g W \<union> view_pool g W \<union> spare g (alloc s)"
        using q(6) uses_spare [OF s1(2)] by blast
      moreover have "vw_tree W' \<subseteq> vw_tree W \<union> spare g (alloc s)" using q(7) uses_spare [OF s1(2)] by blast
      moreover have "view_infos W' = view_infos W @ [(j, utf8_name ns)]" using q(4) e(3) nm by (simp add: entry_info_def)
      moreover have "inode_used g s' j" using uses_same(11) [OF q(3) v s1(5)] .
      moreover have "place_child g env junk ps k v st s = Some (Inr (j, a, v', st2, s'))"
        using run s1(1) e(1) q(1) by simp
      ultimately show ?thesis
        using q(2,5,8,9,10) T(1,2) j' s1(4,7) F1(2) cost by (intro disjI2 exI [of _ v'] exI [of _ s'] exI [of _ W'] conjI) (simp_all add: sb len)
    qed (use run s1(1) e(1) draws_starved [OF s1(9), of 2 0] in \<open>simp add: gives_up_def numeral_2_eq_2\<close>)
  qed (use run starved_mono [of s 0 1 2 1] in \<open>simp add: gives_up_def\<close>)
qed

end
