(* ===== verification/Tree_Building.thy ===== *)
theory Tree_Building
  imports Tree_Children
begin

section \<open>The ext4 tree\<close>

text \<open>
  \<open>build_ext4_metadata_tree\<close> of tree_builder.cpp as a whole: for a directory tree that the stream
  describes, the ext4 side has the same tree in the end - the same names in the same order, the
  files with their sizes and extents, and the directories with blocks that list their children.
\<close>

subsection \<open>What the stream describes\<close>

text \<open>The extents of a file or directory, and the clusters of a whole tree.\<close>

definition good_extents :: "fat_globals \<Rightarrow> ext4_state \<Rightarrow> fat_extent list \<Rightarrow> u32 list \<Rightarrow> bool" where
  "good_extents g s fs cs \<longleftrightarrow> clusters_of fs = cs \<and> (\<forall>f \<in> set fs. extent_fits g s f)
     \<and> length fs \<le> unat (max_entries (fs_sb s))"

fun node_clusters :: "fat_node \<Rightarrow> u32 list" where
  "node_clusters (Fat_Node d ns cs ch) = cs @ (case ch of None \<Rightarrow> [] | Some nodes \<Rightarrow> concat (map node_clusters nodes))"

abbreviation nodes_clusters :: "fat_node list \<Rightarrow> u32 list" where
  "nodes_clusters nodes \<equiv> concat (map node_clusters nodes)"

text \<open>The names fit, and one leaf of the extent tree has room for the blocks of every directory.\<close>

abbreviation pack_nodes :: "nat \<Rightarrow> fat_node list \<Rightarrow> nat \<times> nat \<Rightarrow> nat \<times> nat" where
  "pack_nodes bs nodes \<equiv> fold (\<lambda>n. pack bs (entry_length (node_names n))) nodes"

definition dir_fits :: "nat \<Rightarrow> nat \<Rightarrow> fat_node list \<Rightarrow> bool" where
  "dir_fits bs limit nodes \<longleftrightarrow> length nodes < 2 ^ 32 \<and> fst (pack_nodes bs nodes (1, 24)) \<le> limit"

fun node_fits :: "nat \<Rightarrow> nat \<Rightarrow> fat_node \<Rightarrow> bool" where
  "node_fits bs limit (Fat_Node d ns cs ch) \<longleftrightarrow> name_ok ns
     \<and> (case ch of None \<Rightarrow> \<not> is_dir (image d) 0
        | Some nodes \<Rightarrow> is_dir (image d) 0 \<and> dir_fits bs limit nodes \<and> (\<forall>n \<in> set nodes. node_fits bs limit n))"

text \<open>
  Free blocks and inodes that are enough: two blocks for an entry - one for the entries, one for the
  extents of the directory - and a leaf for the extents of a file, or a first block and a leaf for a
  directory.
\<close>

fun node_blocks :: "fat_node \<Rightarrow> nat" where
  "node_blocks (Fat_Node d ns cs ch) = 2 + (case ch of None \<Rightarrow> 1 | Some nodes \<Rightarrow> 2 + sum_list (map node_blocks nodes))"

fun node_inodes :: "fat_node \<Rightarrow> nat" where
  "node_inodes (Fat_Node d ns cs ch) = 1 + (case ch of None \<Rightarrow> 0 | Some nodes \<Rightarrow> sum_list (map node_inodes nodes))"

abbreviation nodes_blocks :: "fat_node list \<Rightarrow> nat" where
  "nodes_blocks nodes \<equiv> sum_list (map node_blocks nodes)"

abbreviation nodes_inodes :: "fat_node list \<Rightarrow> nat" where
  "nodes_inodes nodes \<equiv> sum_list (map node_inodes nodes)"

lemma pack_nodes_mono: "fst p \<le> fst (pack_nodes bs nodes p)"
proof (induction nodes arbitrary: p)
  case (Cons n nodes)
  have "fst p \<le> fst (pack bs (entry_length (node_names n)) p)" by (cases p) simp
  also have "\<dots> \<le> fst (pack_nodes bs nodes (pack bs (entry_length (node_names n)) p))" by (rule Cons.IH)
  finally show ?case by simp
qed simp

lemma good_extents_uses: "uses g K N s s' \<Longrightarrow> good_extents g s' = good_extents g s"
  by (simp add: good_extents_def uses_same fun_eq_iff)

lemma extent_blocks_clusters:
  assumes "\<forall>c \<in> set (extent_cluster_list f). data_cluster g c"
  shows "blocks_of g f = cl_blocks g (extent_cluster_list f)"
    and "distinct (map (cl_block g) (extent_cluster_list f))"
proof -
  let ?p = "fe_physical_start f"
  have u: "i < unat (fe_length f) \<Longrightarrow> unat (?p + word_of_nat i) = unat ?p + i" for i
  proof (induction i)
    case (Suc i)
    let ?c = "?p + word_of_nat i"
    have "?p + word_of_nat (Suc i) \<in> set (extent_cluster_list f)"
      unfolding extent_cluster_list_def set_map using Suc.prems by (intro imageI) simp
    then have "data_cluster g (?p + word_of_nat (Suc i))" using assms by blast
    moreover have e: "?p + word_of_nat (Suc i) = 1 + ?c" by (simp add: add.left_commute)
    ultimately have "data_cluster g (1 + ?c)" by (simp only:)
    then have "2 \<le> unat (1 + ?c)" unfolding data_cluster_def by blast
    then have "1 + ?c \<noteq> 0" by (intro notI) (simp only: unsigned_0)
    then have "unat (1 + ?c) = Suc (unat ?c)" by (rule unatSuc)
    then show ?case using Suc by (simp only: e)
  qed simp
  have cl: "cl_block g (?p + word_of_nat i) = cl_block g ?p + i" if i: "i < unat (fe_length f)" for i
  proof -
    have "0 < unat (fe_length f)" using i by simp
    then have d: "data_cluster g (?p + word_of_nat i)" "data_cluster g (?p + word_of_nat 0)"
      using assms i by (force simp: extent_cluster_list_def)+
    show ?thesis
      using unat_fat_cl_to_e4blk [of "?p + word_of_nat i" g] unat_fat_cl_to_e4blk [of ?p g] d u [OF i]
      by (simp add: data_cluster_def cl_block_def)
  qed
  have "ee_len (to_ext4_extent g f) = fe_length f" by (simp add: to_ext4_extent_def split_beta)
  then have "blocks_of g f = {cl_block g ?p..<cl_block g ?p + unat (fe_length f)}"
    by (simp add: extent_blocks_def extent_start_to_ext4 cl_block_def)
  also have "\<dots> = (\<lambda>i. cl_block g ?p + i) ` {0..<unat (fe_length f)}"
    by (metis add.commute add_0 image_add_atLeastLessThan)
  also have "\<dots> = cl_blocks g (extent_cluster_list f)"
    unfolding extent_cluster_list_def set_map set_upt image_image using cl by (intro image_cong) simp_all
  finally show "blocks_of g f = cl_blocks g (extent_cluster_list f)" .
  have "map (cl_block g) (extent_cluster_list f) = map (\<lambda>i. cl_block g ?p + i) [0..<unat (fe_length f)]"
    using cl by (simp add: extent_cluster_list_def)
  then show "distinct (map (cl_block g) (extent_cluster_list f))" by (simp add: distinct_map)
qed

lemma extents_blocks_clusters:
  "\<forall>c \<in> set (clusters_of fs). data_cluster g c \<Longrightarrow> extents_blocks g fs = cl_blocks g (clusters_of fs)"
  by (induction fs) (simp_all add: extent_blocks_clusters image_Un)

lemma extents_blocks_apart:
  "\<forall>c \<in> set (clusters_of fs). data_cluster g c \<Longrightarrow> distinct (map (cl_block g) (clusters_of fs)) \<Longrightarrow>
    sorted_wrt (\<lambda>e f. blocks_of g e \<inter> blocks_of g f = {}) fs"
proof (induction fs)
  case (Cons f fs)
  have "blocks_of g f \<inter> extents_blocks g fs = {}"
    using Cons.prems by (simp add: extent_blocks_clusters(1) extents_blocks_clusters)
  then show ?case using Cons by auto
qed simp

subsection \<open>What is built\<close>

text \<open>
  A file has the fields of its FAT entry with its size, the extents of its clusters, and their
  bytes are still those of \<open>m0\<close>. \<open>T\<close> are the blocks of its extent tree.
\<close>

definition file_built ::
  "fat_globals \<Rightarrow> environment \<Rightarrow> memory \<Rightarrow> ext4_state \<Rightarrow> u32 \<Rightarrow> u8 list \<Rightarrow> u32 list \<Rightarrow> nat set \<Rightarrow> bool" where
  "file_built g env m0 s j d cs T \<longleftrightarrow> tree_in g s j T \<and> owned g s T \<and> owned g s (cl_blocks g cs) \<and> T \<inter> cl_blocks g cs = {}
     \<and> j < fs_first_free_inode_no s \<and> inode_used g s j
     \<and> (\<exists>fs. good_extents g s fs cs \<and> inode_extents g s j = map (to_ext4_extent g) fs)
     \<and> inode_fields g s j = with_size (ucast (fd_file_size (load_fat_dentry (image d) 0))) (dentry_inode env (image d) 0)
     \<and> agree_on (region g s (cl_blocks g cs)) m0 (mem s)"

text \<open>
  A directory: its extents are the blocks of the clusters \<open>bs\<close>, which list it and its parent and then the
  inodes \<open>js\<close> under the names of the children; size and link count follow from these.
\<close>

definition subdirs :: "fat_node list \<Rightarrow> nat" where
  "subdirs nodes = length (filter (\<lambda>n. node_children n \<noteq> None) nodes)"

definition dir_inode :: "ext4_state \<Rightarrow> u32 list \<Rightarrow> fat_node list \<Rightarrow> ext4_inode \<Rightarrow> ext4_inode" where
  "dir_inode s bs nodes i = with_size (word_of_nat (length bs * unat (block_size (fs_sb s))))
     (i\<lparr>i_links_count := i_links_count i + word_of_nat (subdirs nodes)\<rparr>)"

definition children_infos :: "u32 list \<Rightarrow> fat_node list \<Rightarrow> (u32 \<times> u8 list) list" where
  "children_infos js nodes = zip js (map (\<lambda>n. utf8_name (node_names n)) nodes)"

definition dir_built ::
  "fat_globals \<Rightarrow> ext4_state \<Rightarrow> u32 \<Rightarrow> u32 \<Rightarrow> nat set \<Rightarrow> u32 list \<Rightarrow> u32 list \<Rightarrow> fat_node list \<Rightarrow> ext4_inode \<Rightarrow> bool" where
  "dir_built g s k parent T bs js nodes i \<longleftrightarrow>
     (\<exists>ess. closed_dir g s k T bs ess \<and> concat ess = dot_infos k parent @ children_infos js nodes)
     \<and> length js = length nodes \<and> inode_fields g s k = dir_inode s bs nodes i"

text \<open>
  A tree, whose inodes are \<open>J\<close> and whose blocks are \<open>U\<close>: no inode and no block is used twice.
\<close>

inductive built_node ::
  "fat_globals \<Rightarrow> environment \<Rightarrow> memory \<Rightarrow> ext4_state \<Rightarrow> u32 \<Rightarrow> u32 set \<Rightarrow> nat set \<Rightarrow> u32 \<Rightarrow> fat_node \<Rightarrow> bool"
and built_nodes ::
  "fat_globals \<Rightarrow> environment \<Rightarrow> memory \<Rightarrow> ext4_state \<Rightarrow> u32 \<Rightarrow> u32 set \<Rightarrow> nat set \<Rightarrow> u32 list \<Rightarrow> fat_node list \<Rightarrow> bool"
  for g env m0 s where
  built_file: "file_built g env m0 s j d cs T \<Longrightarrow>
    built_node g env m0 s parent {j} (T \<union> cl_blocks g cs) j (Fat_Node d ns cs None)"
| built_dir: "dir_built g s j parent T bs js nodes (dentry_inode env (image d) 0) \<Longrightarrow> inode_used g s j \<Longrightarrow>
    built_nodes g env m0 s j J U js nodes \<Longrightarrow> j \<notin> J \<Longrightarrow> (T \<union> cl_blocks g bs) \<inter> U = {} \<Longrightarrow>
    built_node g env m0 s parent (insert j J) (T \<union> cl_blocks g bs \<union> U) j (Fat_Node d ns cs (Some nodes))"
| built_none: "built_nodes g env m0 s parent {} {} [] []"
| built_more: "built_node g env m0 s parent J U j n \<Longrightarrow> built_nodes g env m0 s parent J' U' js nodes \<Longrightarrow>
    J \<inter> J' = {} \<Longrightarrow> U \<inter> U' = {} \<Longrightarrow> built_nodes g env m0 s parent (J \<union> J') (U \<union> U') (j # js) (n # nodes)"

lemma built_owned:
  shows "built_node g env m0 s parent J U j n \<Longrightarrow> owned g s U"
    and "built_nodes g env m0 s parent J U js nodes \<Longrightarrow> owned g s U"
  by (induction rule: built_node_built_nodes.inducts) (auto simp: file_built_def dir_built_def closed_dir_def)

lemma file_built_uses:
  assumes F: "file_built g env m0 s j d cs T" and R: "ready g s X" and U: "uses g K N s s'" and j: "j \<notin> K"
    and N: "N \<inter> (T \<union> cl_blocks g cs) = {}"
  shows "file_built g env m0 s' j d cs T"
proof -
  have D: "tree_in g s j T" "owned g s T" "owned g s (cl_blocks g cs)" "j < fs_first_free_inode_no s" "inode_used g s j"
    "agree_on (region g s (cl_blocks g cs)) m0 (mem s)" using F by (simp_all add: file_built_def)
  have NT: "N \<inter> T = {}" and NB: "N \<inter> cl_blocks g cs = {}" using N by blast+
  note T = tree_in_uses [OF D(1) U D(4) j NT]
  have "inode_fields g s' j = inode_fields g s j" using T(3) by (simp add: inode_fields_def)
  moreover have "agree_on (region g s (cl_blocks g cs)) m0 (mem s')"
    by (rule agree_on_trans [OF D(6) owned_memory [OF U D(3) R NB]])
  moreover have "j < fs_first_free_inode_no s'" using D(4) uses_same(9) [OF U] by simp
  moreover have "inode_used g s' j" using uses_same(11) [OF U _ D(5)] D(1) by (simp add: tree_in_def)
  ultimately show ?thesis
    using F T(1,2) owned_uses [OF U D(2)] owned_uses [OF U D(3)] good_extents_uses [OF U]
    by (simp add: file_built_def uses_same(3) [OF U])
qed

lemma dir_built_uses:
  assumes D: "dir_built g s k parent T bs js nodes i" and R: "ready g s X" and U: "uses g K N s s'" and k: "k \<notin> K"
    and N: "N \<inter> (T \<union> cl_blocks g bs) = {}"
  shows "dir_built g s' k parent T bs js nodes i"
  using D closed_dir_uses [OF _ R U k N] uses_same(1) [OF U] unfolding dir_built_def dir_inode_def by fastforce

lemma built_uses:
  assumes R: "ready g s X" and U: "uses g K N s s'"
  shows "built_node g env m0 s parent J B j n \<Longrightarrow> J \<inter> K = {} \<Longrightarrow> N \<inter> B = {} \<Longrightarrow> built_node g env m0 s' parent J B j n"
    and "built_nodes g env m0 s parent J B js nodes \<Longrightarrow> J \<inter> K = {} \<Longrightarrow> N \<inter> B = {} \<Longrightarrow> built_nodes g env m0 s' parent J B js nodes"
proof (induction rule: built_node_built_nodes.inducts)
  case (built_file j d cs T parent ns)
  have "file_built g env m0 s' j d cs T"
    by (rule file_built_uses [OF built_file(1) R U]) (use built_file(2,3) in auto)
  then show ?case by (rule built_node_built_nodes.built_file)
next
  case (built_dir j parent T bs js nodes d J B ns cs)
  have "dir_built g s' j parent T bs js nodes (dentry_inode env (image d) 0)"
    by (rule dir_built_uses [OF built_dir(1) R U]) (use built_dir(7,8) in auto)
  moreover have "valid_inode s j" using built_dir(1) by (auto simp: dir_built_def closed_dir_def tree_in_def)
  then have "inode_used g s' j" using uses_same(11) [OF U] built_dir(2) by blast
  moreover have "built_nodes g env m0 s' j J B js nodes" using built_dir(4,7,8) by auto
  ultimately show ?case using built_dir(3,5,6) by (intro built_node_built_nodes.built_dir)
next
  case (built_none parent)
  show ?case by (rule built_node_built_nodes.built_none)
next
  case (built_more parent J B j n J' B' js nodes)
  then show ?case by (intro built_node_built_nodes.built_more) auto
qed

subsection \<open>What is still to be built\<close>

definition nodes_ready :: "fat_globals \<Rightarrow> memory \<Rightarrow> ext4_state \<Rightarrow> nat set \<Rightarrow> fat_node list \<Rightarrow> bool" where
  "nodes_ready g m0 s X nodes \<longleftrightarrow> cl_blocks g (nodes_clusters nodes) \<subseteq> X
     \<and> distinct (map (cl_block g) (nodes_clusters nodes)) \<and> (\<forall>c \<in> set (nodes_clusters nodes). data_cluster g c)
     \<and> (\<forall>n \<in> set nodes. node_fits (unat (block_size (fs_sb s))) (unat (max_entries (fs_sb s))) n)
     \<and> agree_on (region g s (cl_blocks g (nodes_clusters nodes))) m0 (mem s)"

lemma nodes_readyD:
  assumes "nodes_ready g m0 s X nodes"
  shows "cl_blocks g (nodes_clusters nodes) \<subseteq> X" "distinct (map (cl_block g) (nodes_clusters nodes))"
    "\<forall>c \<in> set (nodes_clusters nodes). data_cluster g c"
    "n \<in> set nodes \<Longrightarrow> node_fits (unat (block_size (fs_sb s))) (unat (max_entries (fs_sb s))) n"
    "agree_on (region g s (cl_blocks g (nodes_clusters nodes))) m0 (mem s)"
  using assms by (simp_all add: nodes_ready_def)

lemma free_region_memory:
  assumes R: "ready g s X" and U: "uses g K N s s'" and B: "B \<subseteq> X" "B \<inter> N = {}"
  shows "agree_on (region g s B) (mem s) (mem s')"
proof -
  have "agree_on (block_bytes g (fs_sb s) b) (mem s) (mem s')" if "b \<in> B" for b
    using B that by (intro free_block_memory [OF R U]) blast+
  then show ?thesis by (auto simp: agree_on_def region_def)
qed

lemma nodes_ready_uses:
  assumes N: "nodes_ready g m0 s X nodes" and R: "ready g s Z" "X \<subseteq> Z" and U: "uses g K M s s'"
    and M: "cl_blocks g (nodes_clusters nodes) \<inter> M = {}" and Y: "cl_blocks g (nodes_clusters nodes) \<subseteq> Y"
  shows "nodes_ready g m0 s' Y nodes"
proof -
  note D = nodes_readyD [OF N]
  have "cl_blocks g (nodes_clusters nodes) \<subseteq> Z" using D(1) R(2) by blast
  from agree_on_trans [OF D(5) free_region_memory [OF R(1) U this M]] show ?thesis
    using D(2-4) Y by (simp add: nodes_ready_def uses_same [OF U])
qed

lemma nodes_ready_Cons:
  assumes "nodes_ready g m0 s X (n # nodes)"
  shows "nodes_ready g m0 s X nodes" "cl_blocks g (node_clusters n) \<inter> cl_blocks g (nodes_clusters nodes) = {}"
    "cl_blocks g (node_clusters n) \<subseteq> X" "distinct (map (cl_block g) (node_clusters n))"
    "\<forall>c \<in> set (node_clusters n). data_cluster g c" "agree_on (region g s (cl_blocks g (node_clusters n))) m0 (mem s)"
    "node_fits (unat (block_size (fs_sb s))) (unat (max_entries (fs_sb s))) n"
  using assms by (auto simp: nodes_ready_def image_Un agree_on_def)

subsection \<open>The body of the loop, behind the entry\<close>

definition child_body ::
  "fat_globals \<Rightarrow> environment \<Rightarrow> junk \<Rightarrow> u64 \<Rightarrow> u32 \<Rightarrow> u32 \<Rightarrow> nat \<Rightarrow> stream \<Rightarrow> ext4_state \<Rightarrow> (stream \<times> ext4_state) run" where
  "child_body g env junk ps k j a st s =
     (if \<not> is_dir (mem s) a
      then bind_run (set_extents g ps j a st s) (\<lambda>r. skip_child_count g ps (fst r) (snd r))
      else bind_run (Some (incr_links_count g k s)) (\<lambda>s2.
           bind_run (start_dir g junk ps j k st s2) (\<lambda>d.
             build_children g env junk ps j 0 (fst d) (fst (snd d)) (snd (snd d)))))"

text \<open>What it promises for the child \<open>n\<close> with the inode \<open>j\<close>, while its parent \<open>k\<close> is being filled.\<close>

definition child_result ::
  "fat_globals \<Rightarrow> environment \<Rightarrow> u64 \<Rightarrow> nat set \<Rightarrow> memory \<Rightarrow> memory \<Rightarrow> ext4_state \<Rightarrow> u32 \<Rightarrow> dir_vars \<Rightarrow> dir_view \<Rightarrow> nat set
    \<Rightarrow> u32 \<Rightarrow> fat_node \<Rightarrow> ext4_state \<Rightarrow> bool" where
  "child_result g env ps P m m0 s k v W X j n s' \<longleftrightarrow> uses g {k, j} (cl_blocks g (node_clusters n)) s s'
     \<and> filling g ps P m s' k v W (X - cl_blocks g (node_clusters n))
     \<and> inode_fields g s' k = (inode_fields g s k)\<lparr>i_links_count := i_links_count (inode_fields g s k) + word_of_nat (subdirs [n])\<rparr>
     \<and> (\<exists>J U. built_node g env m0 s' k J U j n \<and> U \<subseteq> cl_blocks g (node_clusters n) \<union> spare g (alloc s)
          \<and> (\<forall>x \<in> J. x = j \<or> fs_first_free_inode_no s \<le> x \<and> x < fs_first_free_inode_no s'))"

text \<open>It may give up, for want of blocks or inodes.\<close>

definition child_op ::
  "fat_globals \<Rightarrow> environment \<Rightarrow> junk \<Rightarrow> u64 \<Rightarrow> nat set \<Rightarrow> memory \<Rightarrow> memory \<Rightarrow> ext4_state \<Rightarrow> u32 \<Rightarrow> dir_vars \<Rightarrow> dir_view \<Rightarrow> nat set
    \<Rightarrow> u32 \<Rightarrow> nat \<Rightarrow> stream \<Rightarrow> fat_node \<Rightarrow> stream \<Rightarrow> nat \<Rightarrow> nat \<Rightarrow> bool" where
  "child_op g env junk ps P m m0 s k v W X j a st n st' b i \<longleftrightarrow>
     gives_up (child_body g env junk ps k j a st s) \<and> \<not> supplies s b i \<or>
     (\<exists>s'. child_body g env junk ps k j a st s = Some (Inr (st', s')) \<and> child_result g env ps P m m0 s k v W X j n s'
        \<and> draws b i s s')"

text \<open>The new inode of a child.\<close>

definition fresh_inode :: "fat_globals \<Rightarrow> environment \<Rightarrow> ext4_state \<Rightarrow> u32 \<Rightarrow> u8 list \<Rightarrow> bool" where
  "fresh_inode g env s j d \<longleftrightarrow> j < fs_first_free_inode_no s \<and> inode_used g s j \<and> tree_in g s j {} \<and> inode_extents g s j = []
     \<and> inode_fields g s j = dentry_inode env (image d) 0"

lemma dentry_bytes_fields:
  assumes "load_bytes m a 32 = d"
  shows "is_dir m a = is_dir (image d) 0" "load_fat_dentry m a = load_fat_dentry (image d) 0"
  using assms entry_image(2) [of m a] load_entry_cong(1) [of m a "image (load_bytes m a 32)" 0, OF image_entry] by simp_all

lemma file_child_op:
  assumes F: "filling g ps P m s k v W X" and j: "fresh_inode g env s j d" "j \<noteq> k" and a: "load_bytes (mem s) a 32 = d"
    and seg: "stable_segment g ps (readers P m) st fs st1" "good_extents g s fs cs" and n: "count_in g ps (readers P m) st1 (- 1) st2"
    and N: "nodes_ready g m0 s X [Fat_Node d ns cs None]"
  shows "child_op g env junk ps P m m0 s k v W X j a st (Fat_Node d ns cs None) st2 1 0"
proof -
  note D = fillingD [OF F] and C = nodes_ready_Cons [OF N, simplified]
  have J: "tree_in g s j {}" "inode_extents g s j = []" "inode_fields g s j = dentry_inode env (image d) 0"
    "j < fs_first_free_inode_no s" "inode_used g s j" using j(1) by (simp_all add: fresh_inode_def)
  have cs: "clusters_of fs = cs" "\<forall>f \<in> set fs. extent_fits g s f" "length fs \<le> unat (max_entries (fs_sb s))"
    using seg(2) by (simp_all add: good_extents_def)
  have data: "\<forall>c \<in> set (clusters_of fs). data_cluster g c" using C(5) cs(1) by simp
  have B: "extents_blocks g fs = cl_blocks g cs" using extents_blocks_clusters [OF data] cs(1) by simp
  have apart: "sorted_wrt (\<lambda>e f. blocks_of g e \<inter> blocks_of g f = {}) fs"
    using extents_blocks_apart [OF data] C(4) cs(1) by simp
  have off: "stream_off g s {} P" using D(8) by (auto simp: stream_off_def)
  have sub: "extents_blocks g fs \<subseteq> view_pool g W \<union> X" using C(3) B by auto
  have room: "length (inode_extents g s j) + length fs \<le> unat (max_entries (fs_sb s))" using cs(3) J(2) by simp
  have dir: "\<not> is_dir (mem s) a" using C(7) dentry_bytes_fields(1) [OF a] by simp
  have own: "owned g s {}" by simp
  from set_extents_op [OF D(9) J(1) own seg(1) D(7) off cs(2) sub apart room, of a] show ?thesis
  proof (elim disjE exE conjE)
    fix s' T
    assume s': "set_extents g ps j a st s = Some (Inr (st1, s'))" "uses g {j} (extents_blocks g fs \<union> {}) s s'"
      "ready g s' (view_pool g W \<union> X - extents_blocks g fs)" "T \<subseteq> {} \<union> spare g (alloc s)" "tree_in g s' j T"
      "owned g s' (T \<union> extents_blocks g fs)" "inode_extents g s' j = inode_extents g s j @ map (to_ext4_extent g) fs"
      "inode_fields g s' j = with_size (ucast (fd_file_size (load_fat_dentry (mem s) a))) (inode_fields g s j)"
      "agree_on (region g s (extents_blocks g fs)) (mem s) (mem s')" "fs_first_free_inode_no s' = fs_first_free_inode_no s"
      "draws 1 0 s s'"
    have U: "uses g {j} (cl_blocks g cs) s s'" using s'(2) B by simp
    have pool: "view_pool g W \<inter> cl_blocks g cs = {}" using D(10) C(3) by blast
    have "ready g s' (view_pool g W \<union> (X - cl_blocks g cs))" using s'(3) B pool by (intro ready_subset [OF s'(3)]) auto
    from filling_uses [OF F U _ _ _ this] have F': "filling g ps P m s' k v W (X - cl_blocks g cs)"
      "inode_fields g s' k = inode_fields g s k" using j(2) C(3) by auto
    have "T \<inter> cl_blocks g cs = {}" using s'(4) C(3) readyD(12) [OF D(9)] by blast
    moreover have "agree_on (region g s' (cl_blocks g cs)) m0 (mem s')"
      using agree_on_trans [OF C(6)] s'(9) B by (simp add: uses_same(3) [OF U])
    moreover have "inode_used g s' j" using uses_same(11) [OF U _ J(5)] J(1) by (simp add: tree_in_def)
    moreover have "good_extents g s' fs cs" using seg(2) good_extents_uses [OF U] by simp
    ultimately have "file_built g env m0 s' j d cs T"
      using s'(5-8,10) B J(2-4) dentry_bytes_fields(2) [OF a] unfolding file_built_def by auto
    then have node: "built_node g env m0 s' k {j} (T \<union> cl_blocks g cs) j (Fat_Node d ns cs None)" by (rule built_file)
    have "s' \<in> readers P m" using F'(1) by (simp add: filling_def)
    then have "child_body g env junk ps k j a st s = Some (Inr (st2, s'))"
      using dir s'(1) skip_count [OF n, of s'] by (simp add: child_body_def)
    moreover have "child_result g env ps P m m0 s k v W X j (Fat_Node d ns cs None) s'"
      unfolding child_result_def
    proof (intro conjI)
      show "uses g {k, j} (cl_blocks g (node_clusters (Fat_Node d ns cs None))) s s'" by (rule uses_mono [OF U]) auto
      show "\<exists>J B. built_node g env m0 s' k J B j (Fat_Node d ns cs None)
          \<and> B \<subseteq> cl_blocks g (node_clusters (Fat_Node d ns cs None)) \<union> spare g (alloc s)
          \<and> (\<forall>x \<in> J. x = j \<or> fs_first_free_inode_no s \<le> x \<and> x < fs_first_free_inode_no s')"
        using node s'(4) by (intro exI conjI) auto
    qed (use F' in \<open>simp_all add: subdirs_def\<close>)
    ultimately show ?thesis unfolding child_op_def using s'(11) by blast
  qed (use dir in \<open>simp add: child_op_def child_body_def gives_up_def\<close>)
qed

text \<open>What the loop promises for the children \<open>nodes\<close> that are left of the directory \<open>k\<close>.\<close>

definition children_result ::
  "fat_globals \<Rightarrow> environment \<Rightarrow> memory \<Rightarrow> ext4_state \<Rightarrow> u32 \<Rightarrow> dir_view \<Rightarrow> nat set \<Rightarrow> fat_node list \<Rightarrow> ext4_state \<Rightarrow> bool" where
  "children_result g env m0 s k W X nodes s' \<longleftrightarrow>
     uses g {k} (view_pool g W \<union> vw_tree W \<union> cl_blocks g (nodes_clusters nodes)) s s'
     \<and> ready g s' (X - cl_blocks g (nodes_clusters nodes))
     \<and> (\<exists>T bs js J U ess. closed_dir g s' k T bs ess \<and> concat ess = view_infos W @ children_infos js nodes
          \<and> length js = length nodes \<and> inode_fields g s' k = dir_inode s' bs nodes (inode_fields g s k)
          \<and> T \<union> cl_blocks g bs \<subseteq> view_owned g W \<union> view_pool g W \<union> spare g (alloc s)
          \<and> built_nodes g env m0 s' k J U js nodes \<and> (\<forall>x \<in> J. fs_first_free_inode_no s \<le> x \<and> x < fs_first_free_inode_no s')
          \<and> U \<subseteq> cl_blocks g (nodes_clusters nodes) \<union> spare g (alloc s) \<and> (T \<union> cl_blocks g bs) \<inter> U = {})"

definition children_op ::
  "fat_globals \<Rightarrow> environment \<Rightarrow> junk \<Rightarrow> u64 \<Rightarrow> memory \<Rightarrow> u32 \<Rightarrow> u32 \<Rightarrow> dir_vars \<Rightarrow> dir_view \<Rightarrow> nat set \<Rightarrow> stream
    \<Rightarrow> fat_node list \<Rightarrow> stream \<Rightarrow> ext4_state \<Rightarrow> bool" where
  "children_op g env junk ps m0 k i v W X st nodes st' s \<longleftrightarrow>
     gives_up (build_children g env junk ps k i v st s) \<and> \<not> supplies s (nodes_blocks nodes + 1) (nodes_inodes nodes) \<or>
     (\<exists>s'. build_children g env junk ps k i v st s = Some (Inr (st', s')) \<and> children_result g env m0 s k W X nodes s'
        \<and> draws (nodes_blocks nodes + 1) (nodes_inodes nodes) s s')"

lemma filling_field:
  assumes F: "filling g ps P m s k v W X" and U: "uses g {k} {} s s'" and R: "ready g s' (view_pool g W \<union> X)"
    and T: "tree_in g s' k (vw_tree W)" "inode_extents g s' k = inode_extents g s k"
  shows "filling g ps P m s' k v W X"
proof -
  note D = fillingD [OF F] and C = closed_dirD [OF fillingD(1) [OF F]] and E = dir_poolD [OF fillingD(2) [OF F]]
  note S = uses_same [OF U]
  have "agree_on (region g s (cl_blocks g (vw_done W))) (mem s) (mem s')" by (rule owned_memory [OF U C(5) D(9)]) simp
  from block_lists_region [OF C(7) this S(1)] have "closed_dir g s' k (vw_tree W) (vw_done W) (vw_lists W)"
    using T C(3,4,6) S(9) owned_uses [OF U C(2)] owned_uses [OF U C(5)] by (simp add: closed_dir_def)
  moreover have "open_block g s' v (vw_open W) (vw_entries W)"
    by (rule open_block_uses [OF D(3,9) U]) (simp_all add: view_pool_def)
  moreover have "stream_off g s' (view_pool g W \<union> X \<union> vw_tree W) P" "agree_on P (mem s) (mem s')"
    by (rule uses_stream [OF U D(8)]; auto)+
  ultimately show ?thesis
    using D(4-7) E(2-4) R agree_on_trans unfolding filling_def dir_pool_def view_pool_def by blast
qed

lemma stream_off_mono: "stream_off g s X P \<Longrightarrow> Y \<subseteq> X \<Longrightarrow> stream_off g s Y P"
  using region_mono [of "Y \<union> spare g (alloc s)" "X \<union> spare g (alloc s)" g s] unfolding stream_off_def by blast

lemma subset_chain:
  "A \<subseteq> V \<union> S2 \<Longrightarrow> V \<subseteq> C \<union> S \<Longrightarrow> U \<subseteq> B \<union> S2 \<Longrightarrow> S2 \<subseteq> S \<Longrightarrow> A \<union> U \<subseteq> C \<union> B \<union> S"
  by blast

lemma dir_child_op:
  assumes F: "filling g ps P m s k v W X" and j: "fresh_inode g env s j d" "j \<noteq> k" and a: "load_bytes (mem s) a 32 = d"
    and seg: "stable_segment g ps (readers P m) st fs st1" "good_extents g s fs cs"
    and n: "count_in g ps (readers P m) st1 (word_of_nat (length ch)) st2"
    and N: "nodes_ready g m0 s X [Fat_Node d ns cs (Some ch)]" and junk: "junk_ok junk"
    and IH: "\<And>s v W X. filling g ps P m s j v W X \<Longrightarrow> nodes_ready g m0 s X ch \<Longrightarrow> good_extents g s = H \<Longrightarrow>
      fst (pack_nodes (unat (block_size (fs_sb s))) ch (view_place W v)) \<le> unat (max_entries (fs_sb s)) \<Longrightarrow>
      length ch = unat (dv_child_count v) \<Longrightarrow> children_op g env junk ps m0 j 0 v W X st2 ch st3 s"
    and H: "good_extents g s = H"
  shows "child_op g env junk ps P m m0 s k v W X j a st (Fat_Node d ns cs (Some ch)) st3 (nodes_blocks ch + 2) (nodes_inodes ch)"
proof -
  let ?n = "Fat_Node d ns cs (Some ch)" and ?X = "view_pool g W \<union> X - cl_blocks g cs"
  note D = fillingD [OF F] and C = nodes_ready_Cons [OF N, simplified]
  have J: "tree_in g s j {}" "inode_extents g s j = []" "inode_fields g s j = dentry_inode env (image d) 0"
    "j < fs_first_free_inode_no s" "inode_used g s j" using j(1) by (simp_all add: fresh_inode_def)
  have dir: "is_dir (mem s) a" using C(7) dentry_bytes_fields(1) [OF a] by simp
  have T: "tree_in g s k (vw_tree W)" using closed_dirD(1) [OF D(1)] .
  obtain m1 where m1: "incr_links_count g k s = Inr (s\<lparr>mem := m1\<rparr>)" "uses g {k} {} s (s\<lparr>mem := m1\<rparr>)"
    "ready g (s\<lparr>mem := m1\<rparr>) (view_pool g W \<union> X)" "tree_in g (s\<lparr>mem := m1\<rparr>) k (vw_tree W)"
    "inode_extents g (s\<lparr>mem := m1\<rparr>) k = inode_extents g s k"
    "inode_fields g (s\<lparr>mem := m1\<rparr>) k = (inode_fields g s k)\<lparr>i_links_count := i_links_count (inode_fields g s k) + 1\<rparr>"
    using incr_links_op [OF D(9) T] by blast
  let ?s1 = "s\<lparr>mem := m1\<rparr>"
  have F1: "filling g ps P m ?s1 k v W X" by (rule filling_field [OF F m1(2-5)])
  note D1 = fillingD [OF F1]
  have "j \<notin> {k}" "{} \<inter> {} = {}" using j(2) by simp_all
  note T1 = tree_in_uses [OF J(1) m1(2) J(4) this]
  have J1: "inode_fields g ?s1 j = dentry_inode env (image d) 0" using T1(3) J(3) by (simp add: inode_fields_def)
  have C1: "closed_dir g ?s1 j {} [] []" using T1(1,2) J(2,4) by (simp add: closed_dir_def)
  have "cl_blocks g cs \<subseteq> X" using C(3) by auto
  then have Z: "cl_blocks g cs \<union> ?X = view_pool g W \<union> X" by auto
  have P1: "dir_pool g ?s1 cs ?X" unfolding dir_pool_def using m1(3) Z C(4,5) by auto
  have off1: "stream_off g ?s1 (cl_blocks g cs \<union> ?X \<union> {}) P"
    using D1(8) unfolding Z by (rule stream_off_mono) auto
  from start_dir_op [OF P1 C1 junk seg(1) _ n D1(7) off1, of k] seg(2) have
    "start_dir g junk ps j k st ?s1 = Some (Inl Fs_Too_Small) \<and> \<not> supplies s 1 0 \<or>
    (\<exists>v s2 Wj. start_dir g junk ps j k st ?s1 = Some (Inr (v, st2, s2)) \<and> filling g ps P m s2 j v Wj ?X
      \<and> uses g {} (cl_blocks g cs) ?s1 s2 \<and> dv_child_count v = word_of_nat (length ch) \<and> view_infos Wj = dot_infos j k
      \<and> view_place Wj v = (1, 24) \<and> view_owned g Wj \<union> view_pool g Wj \<subseteq> {} \<union> cl_blocks g cs \<union> spare g (alloc ?s1)
      \<and> fs_first_free_inode_no s2 = fs_first_free_inode_no ?s1 \<and> inode_fields g s2 j = inode_fields g ?s1 j
      \<and> draws 1 0 s s2)"
    by (simp add: good_extents_def)
  then show ?thesis
  proof (elim disjE exE conjE)
    fix vj s2 Wj
    assume s2: "start_dir g junk ps j k st ?s1 = Some (Inr (vj, st2, s2))" "filling g ps P m s2 j vj Wj ?X"
      "uses g {} (cl_blocks g cs) ?s1 s2" "dv_child_count vj = word_of_nat (length ch)" "view_infos Wj = dot_infos j k"
      "view_place Wj vj = (1, 24)" "view_owned g Wj \<union> view_pool g Wj \<subseteq> {} \<union> cl_blocks g cs \<union> spare g (alloc ?s1)"
      "fs_first_free_inode_no s2 = fs_first_free_inode_no ?s1" "inode_fields g s2 j = inode_fields g ?s1 j"
      "draws 1 0 s s2"
    have U02: "uses g {k} (cl_blocks g cs) s s2" by (rule uses_trans [OF uses_mono [OF m1(2)] s2(3)]) auto
    note S2 = uses_same [OF U02]
    have kids: "nodes_ready g m0 s X ch" using N
      by (auto simp: nodes_ready_def image_Un agree_on_def)
    have kids2: "nodes_ready g m0 s2 ?X ch"
    proof (rule nodes_ready_uses [OF kids D(9) _ U02])
      show "cl_blocks g (nodes_clusters ch) \<inter> cl_blocks g cs = {}" using C(4) by (auto simp: distinct_append)
      then show "cl_blocks g (nodes_clusters ch) \<subseteq> ?X" using nodes_readyD(1) [OF kids] by blast
    qed simp
    have fits: "dir_fits (unat (block_size (fs_sb s))) (unat (max_entries (fs_sb s))) ch" using C(7) by simp
    have room: "fst (pack_nodes (unat (block_size (fs_sb s2))) ch (view_place Wj vj)) \<le> unat (max_entries (fs_sb s2))"
      using fits by (simp add: dir_fits_def S2(1) s2(6))
    have "length ch < 2 ^ LENGTH(32)" using fits by (simp add: dir_fits_def)
    then have cnt: "length ch = unat (dv_child_count vj)" unfolding s2(4) by (simp only: unat_of_nat mod_less)
    have H2: "good_extents g s2 = H" using good_extents_uses [OF U02] H by simp
    have body: "child_body g env junk ps k j a st s = build_children g env junk ps j 0 vj st2 s2"
      using dir m1(1) s2(1) by (simp add: child_body_def)
    from IH [OF s2(2) kids2 H2 room cnt] consider (full) "gives_up (build_children g env junk ps j 0 vj st2 s2)" "\<not> supplies s2 (nodes_blocks ch + 1) (nodes_inodes ch)"
      | (ok) s3 where "build_children g env junk ps j 0 vj st2 s2 = Some (Inr (st3, s3))" "children_result g env m0 s2 j Wj ?X ch s3"
        "draws (nodes_blocks ch + 1) (nodes_inodes ch) s2 s3"
      unfolding children_op_def by blast
    then show ?thesis
    proof cases
      case full
      have "\<not> supplies s (nodes_blocks ch + 2) (nodes_inodes ch)" using draws_starved [OF s2(10) full(2)] by simp
      then show ?thesis using full(1) by (simp add: child_op_def body)
    next
      case ok
      let ?B = "cl_blocks g (nodes_clusters ch)" and ?NB = "cl_blocks g (node_clusters ?n)"
      have NB: "?NB = cl_blocks g cs \<union> ?B" by (simp add: image_Un)
      obtain T bs js J' U ess where r: "uses g {j} (view_pool g Wj \<union> vw_tree Wj \<union> ?B) s2 s3" "ready g s3 (?X - ?B)"
        "closed_dir g s3 j T bs ess" "concat ess = view_infos Wj @ children_infos js ch" "length js = length ch"
        "inode_fields g s3 j = dir_inode s3 bs ch (inode_fields g s2 j)"
        "T \<union> cl_blocks g bs \<subseteq> view_owned g Wj \<union> view_pool g Wj \<union> spare g (alloc s2)" "built_nodes g env m0 s3 j J' U js ch"
        "\<forall>x \<in> J'. fs_first_free_inode_no s2 \<le> x \<and> x < fs_first_free_inode_no s3" "U \<subseteq> ?B \<union> spare g (alloc s2)"
        "(T \<union> cl_blocks g bs) \<inter> U = {}"
        using ok(2) unfolding children_result_def by (elim conjE exE) (rule that)
      have sp: "spare g (alloc s2) \<subseteq> spare g (alloc s)" "view_owned g Wj \<union> view_pool g Wj \<subseteq> cl_blocks g cs \<union> spare g (alloc s)"
        using uses_spare [OF U02] s2(7) by auto
      have U13: "uses g {j} ?NB ?s1 s3"
      proof (rule uses_trans [OF uses_mono [OF s2(3)] r(1)])
        show "view_pool g Wj \<union> vw_tree Wj \<union> ?B \<subseteq> ?NB \<union> spare g (alloc ?s1)"
          using sp(2) NB by (auto simp: view_owned_def)
      qed (auto simp: NB)
      have U03: "uses g {k, j} ?NB s s3" by (rule uses_trans [OF uses_mono [OF m1(2)] U13]) auto
      have sub: "?NB \<subseteq> X" using C(3) by simp
      have pool: "view_pool g W \<inter> ?NB = {}" using D(10) sub by blast
      have "ready g s3 (view_pool g W \<union> (X - ?NB))" by (rule ready_subset [OF r(2)]) (use pool NB in auto)
      from filling_uses [OF F1 U13 _ _ _ this] have F3: "filling g ps P m s3 k v W (X - ?NB)"
        "inode_fields g s3 k = inode_fields g ?s1 k" using j(2) sub by auto
      have built: "dir_built g s3 j k T bs js ch (dentry_inode env (image d) 0)"
        using r(3-6) s2(5,9) J1 by (auto simp: dir_built_def)
      have used: "inode_used g s3 j" using uses_same(11) [OF U03 _ J(5)] J(1) by (simp add: tree_in_def)
      have new: "j \<notin> J'" using r(9) J(4) S2(9) by (auto simp: not_le dest: order.strict_trans2)
      have "built_node g env m0 s3 k (insert j J') (T \<union> cl_blocks g bs \<union> U) j ?n"
        by (rule built_dir [OF built used r(8) new r(11)])
      moreover have "T \<union> cl_blocks g bs \<union> U \<subseteq> ?NB \<union> spare g (alloc s)"
        unfolding NB by (rule subset_chain [OF r(7) sp(2) r(10) sp(1)])
      moreover have "\<forall>x \<in> insert j J'. x = j \<or> fs_first_free_inode_no s \<le> x \<and> x < fs_first_free_inode_no s3"
        using r(9) S2(9) by (auto intro: order.trans)
      ultimately have "\<exists>J U. built_node g env m0 s3 k J U j ?n \<and> U \<subseteq> ?NB \<union> spare g (alloc s)
          \<and> (\<forall>x \<in> J. x = j \<or> fs_first_free_inode_no s \<le> x \<and> x < fs_first_free_inode_no s3)" by blast
      then have "child_result g env ps P m m0 s k v W X j ?n s3"
        unfolding child_result_def using U03 F3 m1(6) by (intro conjI) (simp_all add: subdirs_def)
      moreover have "draws (nodes_blocks ch + 2) (nodes_inodes ch) s s3" using draws_trans [OF s2(10) ok(3)] by simp
      ultimately show ?thesis using ok(1) body by (auto simp: child_op_def)
    qed
  qed (use dir m1(1) starved_mono [of s 1 0 "nodes_blocks ch + 2" "nodes_inodes ch"] in \<open>simp add: child_op_def child_body_def gives_up_def\<close>)
qed

subsection \<open>The loop\<close>

inductive_cases node_inE: "node_in g ps R H st n st'"
inductive_cases nodes_in_NilE: "nodes_in g ps R H st [] st'"
inductive_cases nodes_in_ConsE: "nodes_in g ps R H st (n # nodes) st'"

lemma build_children_done:
  "\<not> i < dv_child_count v \<Longrightarrow>
    build_children g env junk ps k i v st s = bind_run (finish_dir g k v s) (\<lambda>s1. Some (Inr (st, s1)))"
  by (simp add: build_children.simps [of g env junk ps k i])

lemma build_children_more:
  "i < dv_child_count v \<Longrightarrow> build_children g env junk ps k i v st s =
    bind_run (place_child g env junk ps k v st s) (\<lambda>c.
      bind_run (child_body g env junk ps k (fst c) (fst (snd c)) (fst (snd (snd (snd c)))) (snd (snd (snd (snd c)))))
        (\<lambda>r. build_children g env junk ps k (i + 1) (fst (snd (snd c))) (fst r) (snd r)))"
  by (subst build_children.simps) (simp add: child_body_def Let_def)

text \<open>No child is left: the directory is finished.\<close>

lemma no_children_op:
  assumes F: "filling g ps P m s k v W X" and i: "\<not> i < dv_child_count v"
    and room: "fst (view_place W v) \<le> unat (max_entries (fs_sb s))" and fs: "0 < mi_fs_start (meta_info g)"
  shows "children_op g env junk ps m0 k i v W X st [] st s"
proof -
  note run = build_children_done [OF i, of g env junk ps k st s]
  from finish_dir_op [OF F room fs] show ?thesis
  proof (elim disjE exE conjE)
    fix s' T
    assume s': "finish_dir g k v s = Some (Inr s')" "uses g {k} (view_pool g W \<union> vw_tree W) s s'" "ready g s' X"
      "closed_dir g s' k T (vw_done W @ [vw_open W]) (vw_lists W @ [map entry_info (vw_entries W)])"
      "T \<subseteq> vw_tree W \<union> spare g (alloc s)"
      "inode_fields g s' k = with_size (word_of_nat (fst (view_place W v) * unat (block_size (fs_sb s)))) (inode_fields g s k)"
      "draws 1 0 s s'"
    let ?bs = "vw_done W @ [vw_open W]"
    have "T \<union> cl_blocks g ?bs \<subseteq> view_owned g W \<union> view_pool g W \<union> spare g (alloc s)"
      using s'(5) by (auto simp: view_owned_def view_pool_def)
    moreover have "inode_fields g s' k = dir_inode s' ?bs [] (inode_fields g s k)"
      using s'(6) by (simp add: dir_inode_def subdirs_def view_place_def uses_same(1) [OF s'(2)])
    moreover have "concat (vw_lists W @ [map entry_info (vw_entries W)]) = view_infos W @ children_infos [] []"
      by (simp add: view_infos_def children_infos_def)
    ultimately have "children_result g env m0 s k W X [] s'"
      unfolding children_result_def using s'(2-4) built_none [of g env m0 s' k]
      by (intro conjI exI [of _ T] exI [of _ ?bs] exI [of _ "[]"] exI [of _ "{}"]
          exI [of _ "vw_lists W @ [map entry_info (vw_entries W)]"]) simp_all
    then show ?thesis using run s'(1,7) by (simp add: children_op_def)
  qed (use run in \<open>simp add: children_op_def gives_up_def\<close>)
qed

text \<open>One child, and then the others.\<close>

lemma children_result_Cons:
  assumes F: "filling g ps P m s k v W X" and F1: "filling g ps P m s1 k v1 W1 X"
    and U1: "uses g {k} (view_pool g W \<union> vw_tree W) s s1"
    and j: "j = fs_first_free_inode_no s" "j < fs_first_free_inode_no s1"
    and infos: "view_infos W1 = view_infos W @ [(j, utf8_name (node_names n))]"
    and sub: "view_owned g W1 \<union> view_pool g W1 \<subseteq> view_owned g W \<union> view_pool g W \<union> spare g (alloc s)"
      "vw_tree W1 \<subseteq> vw_tree W \<union> spare g (alloc s)"
    and fields: "inode_fields g s1 k = inode_fields g s k"
    and child: "child_result g env ps P m m0 s1 k v1 W1 X j n s2"
    and rest: "children_result g env m0 s2 k W1 (X - cl_blocks g (node_clusters n)) nodes s3"
    and N: "nodes_ready g m0 s X (n # nodes)"
  shows "children_result g env m0 s k W X (n # nodes) s3"
proof -
  let ?b = "cl_blocks g (node_clusters n)" and ?r = "cl_blocks g (nodes_clusters nodes)" and ?ff = fs_first_free_inode_no
  note C = nodes_ready_Cons [OF N] and D = fillingD [OF F] and D1 = fillingD [OF F1]
  have c: "uses g {k, j} ?b s1 s2" "filling g ps P m s2 k v1 W1 (X - ?b)"
    "inode_fields g s2 k = (inode_fields g s1 k)\<lparr>i_links_count := i_links_count (inode_fields g s1 k) + word_of_nat (subdirs [n])\<rparr>"
    using child by (simp_all add: child_result_def)
  obtain J1 B1 where b: "built_node g env m0 s2 k J1 B1 j n" "B1 \<subseteq> ?b \<union> spare g (alloc s1)"
    "\<forall>x \<in> J1. x = j \<or> ?ff s1 \<le> x \<and> x < ?ff s2"
    using child unfolding child_result_def by blast
  obtain T bs js J B ess where r: "uses g {k} (view_pool g W1 \<union> vw_tree W1 \<union> ?r) s2 s3" "ready g s3 (X - ?b - ?r)"
    "closed_dir g s3 k T bs ess" "concat ess = view_infos W1 @ children_infos js nodes" "length js = length nodes"
    "inode_fields g s3 k = dir_inode s3 bs nodes (inode_fields g s2 k)"
    "T \<union> cl_blocks g bs \<subseteq> view_owned g W1 \<union> view_pool g W1 \<union> spare g (alloc s2)" "built_nodes g env m0 s3 k J B js nodes"
    "\<forall>x \<in> J. ?ff s2 \<le> x \<and> x < ?ff s3" "B \<subseteq> ?r \<union> spare g (alloc s2)" "(T \<union> cl_blocks g bs) \<inter> B = {}"
    using rest unfolding children_result_def by (elim conjE exE) (rule that)
  note D2 = fillingD [OF c(2)]
  have sp: "spare g (alloc s1) \<subseteq> spare g (alloc s)" "spare g (alloc s2) \<subseteq> spare g (alloc s1)"
    using uses_spare [OF U1] uses_spare [OF c(1)] by simp_all
  have ff: "?ff s \<le> ?ff s1" "?ff s1 \<le> ?ff s2" "?ff s2 \<le> ?ff s3" using uses_same(9) [OF U1] uses_same(9) [OF c(1)] uses_same(9) [OF r(1)] by simp_all
  have kj: "k < ?ff s" using closed_dirD(3) [OF D(1)] .
  have rX: "?r \<subseteq> X - ?b" using nodes_readyD(1) [OF C(1)] C(2) by blast
  have pool1: "view_pool g W1 \<subseteq> view_pool g W \<union> spare g (alloc s)"
  proof -
    have "view_pool g W1 \<inter> view_owned g W = {}"
      using owned_free [OF owned_uses [OF U1 D(11)] D1(9)] by blast
    then show ?thesis using sub(1) by blast
  qed
  let ?N = "view_pool g W \<union> vw_tree W \<union> cl_blocks g (nodes_clusters (n # nodes))"
  have NB: "cl_blocks g (nodes_clusters (n # nodes)) = ?b \<union> ?r" by (simp add: image_Un)
  have U02: "uses g {k} ?N s s2"
    by (rule uses_trans [OF uses_mono [OF U1] c(1)]) (use j(1) in \<open>auto simp: NB\<close>)
  have U03: "uses g {k} ?N s s3"
    by (rule uses_trans [OF U02 r(1)]) (use pool1 sub(2) in \<open>auto simp: NB\<close>)
  have own1: "owned g s2 B1" by (rule built_owned(1) [OF b(1)])
  have free1: "B1 \<inter> (view_pool g W1 \<union> (X - ?b) \<union> spare g (alloc s2)) = {}" by (rule owned_free [OF own1 D2(9)])
  have kept1: "B1 \<inter> view_owned g W1 = {}"
    using owned_free [OF D1(11,9)] b(2) C(3) by blast
  have kJ: "J1 \<inter> {k} = {}" using b(3) j kj ff by (auto dest: order.strict_trans2)
  have nB: "(view_pool g W1 \<union> vw_tree W1 \<union> ?r) \<inter> B1 = {}" using free1 kept1 rX unfolding view_owned_def by blast
  have node: "built_node g env m0 s3 k J1 B1 j n" by (rule built_uses(1) [OF D2(9) r(1) b(1) kJ nB])
  have JJ: "J1 \<inter> J = {}" using b(3) r(9) j(2) ff by (fastforce simp: not_le dest: order.strict_trans2)
  have BB: "B1 \<inter> B = {}" using free1 r(10) rX by blast
  have "built_nodes g env m0 s3 k (J1 \<union> J) (B1 \<union> B) (j # js) (n # nodes)"
    by (rule built_more [OF node r(8) JJ BB])
  moreover have "(T \<union> cl_blocks g bs) \<inter> (B1 \<union> B) = {}" using r(7,11) free1 kept1 by blast
  moreover have "B1 \<union> B \<subseteq> cl_blocks g (nodes_clusters (n # nodes)) \<union> spare g (alloc s)"
    unfolding NB using b(2) r(10) sp by blast
  moreover have "T \<union> cl_blocks g bs \<subseteq> view_owned g W \<union> view_pool g W \<union> spare g (alloc s)" using r(7) sub(1) sp by blast
  moreover have "\<forall>x \<in> J1 \<union> J. ?ff s \<le> x \<and> x < ?ff s3" using b(3) r(9) j ff by (auto dest: order.trans)
  moreover have "concat ess = view_infos W @ children_infos (j # js) (n # nodes)"
    using r(4) infos by (simp add: children_infos_def)
  moreover have "inode_fields g s3 k = dir_inode s3 bs (n # nodes) (inode_fields g s k)"
    using r(6) c(3) fields by (simp add: dir_inode_def subdirs_def with_size_def add.assoc)
  moreover have "ready g s3 (X - cl_blocks g (nodes_clusters (n # nodes)))"
    using r(2) unfolding NB by (simp add: Diff_eq Int_assoc)
  ultimately show ?thesis
    unfolding children_result_def using U03 r(3,5) by (intro conjI exI [of _ T] exI [of _ bs] exI [of _ "j # js"] exI [of _ "J1 \<union> J"]
      exI [of _ "B1 \<union> B"] exI [of _ ess]) (assumption | simp)+
qed

lemma nodes_ready_one: "nodes_ready g m0 s X (n # nodes) \<Longrightarrow> nodes_ready g m0 s X [n]"
  by (auto simp: nodes_ready_def image_Un agree_on_def)

lemma build_children_op:
  assumes junk: "junk_ok junk" and fs: "0 < mi_fs_start (meta_info g)"
  shows "filling g ps P m s k v W X \<Longrightarrow> nodes_ready g m0 s X nodes \<Longrightarrow> good_extents g s = H \<Longrightarrow>
    nodes_in g ps (readers P m) H st nodes st' \<Longrightarrow>
    fst (pack_nodes (unat (block_size (fs_sb s))) nodes (view_place W v)) \<le> unat (max_entries (fs_sb s)) \<Longrightarrow>
    unat i + length nodes = unat (dv_child_count v) \<Longrightarrow>
    children_op g env junk ps m0 k i v W X st nodes st' s"
proof (induction nodes arbitrary: s k v W X st st' i rule: measure_induct_rule [where f = "size_list size"])
  case (less nodes)
  note F = less.prems(1) and N = less.prems(2) and H = less.prems(3) and rd = less.prems(4) and room = less.prems(5)
    and cnt = less.prems(6) and D = fillingD [OF less.prems(1)]
  show ?case
  proof (cases nodes)
    case Nil
    then have "st' = st" using rd by (auto elim: nodes_in_NilE)
    moreover have "\<not> i < dv_child_count v" using cnt Nil by (simp add: word_less_nat_alt)
    moreover have "fst (view_place W v) \<le> unat (max_entries (fs_sb s))" using room Nil by simp
    ultimately show ?thesis using no_children_op [OF F _ _ fs] Nil by simp
  next
    case (Cons n rest)
    obtain d ns cs ch where n: "n = Fat_Node d ns cs ch" by (cases n)
    obtain st1 where st1: "node_in g ps (readers P m) H st n st1" "nodes_in g ps (readers P m) H st1 rest st'"
      using rd Cons by (auto elim: nodes_in_ConsE)
    obtain stx where stx: "entry_in g ps (readers P m) H st d ns cs stx"
      and leaf: "ch = None \<Longrightarrow> count_in g ps (readers P m) stx (- 1) st1"
      and inner: "\<And>kids. ch = Some kids \<Longrightarrow> \<exists>sty. count_in g ps (readers P m) stx (word_of_nat (length kids)) sty
        \<and> nodes_in g ps (readers P m) H sty kids st1"
      using st1(1) unfolding n by (cases rule: node_inE) auto
    obtain a sta as stb es where e: "segment_cells g ps (readers P m) 32 st [a] sta" "\<forall>r \<in> readers P m. load_bytes (mem r) a 32 = d"
      "segment_cells g ps (readers P m) 26 sta as stb" "\<forall>r \<in> readers P m. list_all2 (name_at (mem r)) as ns"
      "stable_segment g ps (readers P m) stb es stx" "H es cs"
      using stx unfolding entry_in_def by blast
    note C = nodes_ready_Cons [OF N [unfolded Cons]]
    have nm: "name_ok ns" using C(7) n by simp
    let ?bs = "unat (block_size (fs_sb s))" and ?limit = "unat (max_entries (fs_sb s))" and ?j = "fs_first_free_inode_no s"
    have more: "i < dv_child_count v" "unat (i + 1) = unat i + 1"
    proof -
      have "unat i < unat (dv_child_count v)" using cnt Cons by simp
      then show "i < dv_child_count v" by (simp add: word_less_nat_alt)
      have "unat i + 1 < 4294967296" using \<open>unat i < unat (dv_child_count v)\<close> unat_u32_bound [of "dv_child_count v"] by linarith
      then show "unat (i + 1) = unat i + 1" by (subst unat_add_no_overflow) simp_all
    qed
    note run = build_children_more [OF more(1), of g env junk ps k st s]
    define b l where "b = node_blocks n - 2" and "l = node_inodes n - 1"
    have cost: "nodes_blocks nodes = 2 + (b + nodes_blocks rest)" "nodes_inodes nodes = 1 + (l + nodes_inodes rest)"
      by (simp_all add: Cons n b_def l_def)
    have one: "fst (pack ?bs (entry_length ns) (view_place W v)) \<le> ?limit"
      using order.trans [OF pack_nodes_mono room [unfolded Cons fold.simps o_def]] n by simp
    from place_child_op [OF F junk e(1-4) nm one, of env] show ?thesis
    proof (elim disjE exE conjE)
      assume full: "gives_up (place_child g env junk ps k v st s)" "\<not> supplies s 2 1"
      have "\<not> supplies s (nodes_blocks nodes + 1) (nodes_inodes nodes)" by (rule starved_mono [OF full(2)]) (simp_all add: cost)
      then show ?thesis using run full(1) by (auto simp: children_op_def gives_up_def)
    next
      fix v1 s1 W1
      assume s1: "place_child g env junk ps k v st s = Some (Inr (?j, a, v1, stb, s1))" "filling g ps P m s1 k v1 W1 X"
        "uses g {k} (view_pool g W \<union> vw_tree W) s s1" "?j < fs_first_free_inode_no s1" "inode_used g s1 ?j"
        "tree_in g s1 ?j {}" "inode_extents g s1 ?j = []" "inode_fields g s1 ?j = dentry_inode env (image d) 0"
        "view_infos W1 = view_infos W @ [(?j, utf8_name ns)]" "view_place W1 v1 = pack ?bs (entry_length ns) (view_place W v)"
        "view_owned g W1 \<union> view_pool g W1 \<subseteq> view_owned g W \<union> view_pool g W \<union> spare g (alloc s)"
        "vw_tree W1 \<subseteq> vw_tree W \<union> spare g (alloc s)" "dv_child_count v1 = dv_child_count v"
        "inode_fields g s1 k = inode_fields g s k" "draws 2 1 s s1"
      have new: "fresh_inode g env s1 ?j d" using s1(4-8) by (simp add: fresh_inode_def)
      have jk: "?j \<noteq> k" using closed_dirD(3) [OF D(1)] by simp
      have ad: "load_bytes (mem s1) a 32 = d" using e(2) s1(2) by (simp add: filling_def)
      have N1: "nodes_ready g m0 s1 X nodes"
      proof (rule nodes_ready_uses [OF N D(9) _ s1(3) _ nodes_readyD(1) [OF N]])
        show "cl_blocks g (nodes_clusters nodes) \<inter> (view_pool g W \<union> vw_tree W) = {}"
          using nodes_readyD(1) [OF N] D(10) owned_free [OF D(11,9)] unfolding view_owned_def by blast
      qed simp
      have H1: "good_extents g s1 = H" using good_extents_uses [OF s1(3)] H by simp
      have seg: "good_extents g s1 es cs" using H1 e(6) by simp
      have body: "child_op g env junk ps P m m0 s1 k v1 W1 X ?j a stb n st1 b l"
      proof (cases ch)
        case None
        from file_child_op [OF s1(2) new jk ad e(5) seg leaf [OF None] nodes_ready_one [OF N1 [unfolded Cons n None]]]
        show ?thesis by (simp add: b_def l_def) (simp add: n None)
      next
        case (Some kids)
        obtain sty where y: "count_in g ps (readers P m) stx (word_of_nat (length kids)) sty" "nodes_in g ps (readers P m) H sty kids st1"
          using inner [OF Some] by blast
        have smaller: "size_list size kids < size_list size nodes" by (simp add: Cons n Some)
        have bl: "b = nodes_blocks kids + 2" "l = nodes_inodes kids" by (simp_all add: b_def l_def n Some)
        have "children_op g env junk ps m0 ?j 0 v W X sty kids st1 s"
          if "filling g ps P m s ?j v W X" "nodes_ready g m0 s X kids" "good_extents g s = H"
            "fst (pack_nodes (unat (block_size (fs_sb s))) kids (view_place W v)) \<le> unat (max_entries (fs_sb s))"
            "length kids = unat (dv_child_count v)" for s v W X
          using less.IH [OF smaller that(1,2,3) y(2) that(4)] that(5) by simp
        from dir_child_op [OF s1(2) new jk ad e(5) seg y(1) nodes_ready_one [OF N1 [unfolded Cons n Some]] junk this H1]
        show ?thesis unfolding bl unfolding n Some .
      qed
      then show ?thesis unfolding child_op_def
      proof (elim disjE exE conjE)
        assume full: "gives_up (child_body g env junk ps k ?j a stb s1)" "\<not> supplies s1 b l"
        have "\<not> supplies s (nodes_blocks nodes + 1) (nodes_inodes nodes)"
          by (rule starved_mono [OF draws_starved [OF s1(15) full(2)]]) (simp_all add: cost)
        then show ?thesis using run s1(1) full(1) by (auto simp: children_op_def gives_up_def)
      next
        fix s2
        assume s2: "child_body g env junk ps k ?j a stb s1 = Some (Inr (st1, s2))" "child_result g env ps P m m0 s1 k v1 W1 X ?j n s2"
          "draws b l s1 s2"
        let ?b = "cl_blocks g (node_clusters n)"
        have c: "uses g {k, ?j} ?b s1 s2" "filling g ps P m s2 k v1 W1 (X - ?b)" using s2(2) by (simp_all add: child_result_def)
        note S = uses_same [OF s1(3)] uses_same [OF c(1)]
        have sb: "fs_sb s2 = fs_sb s" using uses_same(1) [OF s1(3)] uses_same(1) [OF c(1)] by simp
        have H2: "good_extents g s2 = H" using good_extents_uses [OF c(1)] H1 by simp
        have N2: "nodes_ready g m0 s2 (X - ?b) rest"
        proof (rule nodes_ready_uses [OF nodes_ready_Cons(1) [OF N1 [unfolded Cons]] fillingD(9) [OF s1(2)] _ c(1)])
          show "cl_blocks g (nodes_clusters rest) \<inter> ?b = {}" using C(2) by blast
          then show "cl_blocks g (nodes_clusters rest) \<subseteq> X - ?b" using nodes_readyD(1) [OF C(1)] by blast
        qed simp
        have room2: "fst (pack_nodes (unat (block_size (fs_sb s2))) rest (view_place W1 v1)) \<le> unat (max_entries (fs_sb s2))"
          using room s1(10) by (simp add: Cons n sb)
        have cnt2: "unat (i + 1) + length rest = unat (dv_child_count v1)" using cnt s1(13) more(2) by (simp add: Cons)
        have run2: "build_children g env junk ps k i v st s = build_children g env junk ps k (i + 1) v1 st1 s2"
          using run s1(1) s2(1) by simp
        have smaller: "size_list size rest < size_list size nodes" by (simp add: Cons)
        from less.IH [OF smaller c(2) N2 H2 st1(2) room2 cnt2]
        consider (full) "gives_up (build_children g env junk ps k (i + 1) v1 st1 s2)" "\<not> supplies s2 (nodes_blocks rest + 1) (nodes_inodes rest)"
          | (ok) s3 where "build_children g env junk ps k (i + 1) v1 st1 s2 = Some (Inr (st', s3))"
            "children_result g env m0 s2 k W1 (X - ?b) rest s3" "draws (nodes_blocks rest + 1) (nodes_inodes rest) s2 s3"
          unfolding children_op_def by blast
        moreover note used = draws_trans [OF s1(15) s2(3)]
        ultimately show ?thesis
        proof cases
          case full
          have "\<not> supplies s (nodes_blocks nodes + 1) (nodes_inodes nodes)"
            using draws_starved [OF used full(2)] by (simp add: cost add.assoc)
          then show ?thesis using full(1) by (simp add: children_op_def run2)
        next
          case ok
          have infos: "view_infos W1 = view_infos W @ [(?j, utf8_name (node_names n))]" using s1(9) by (simp add: n)
          have "draws (nodes_blocks nodes + 1) (nodes_inodes nodes) s s3"
            using draws_trans [OF used ok(3)] by (simp add: cost add.assoc)
          then have all: "draws (nodes_blocks (n # rest) + 1) (nodes_inodes (n # rest)) s s3" by (simp only: Cons)
          from children_result_Cons [OF F s1(2,3) refl s1(4) infos s1(11,12,14) s2(2) ok(2) N [unfolded Cons]] ok(1)
          show ?thesis unfolding children_op_def run2 Cons using ok(1) all by blast
        qed
      qed
    qed
  qed
qed

end
