(* ===== verification/Ext4_Trees.thy ===== *)
theory Ext4_Trees
  imports Tree_Building
begin

section \<open>The whole ext4 tree\<close>

text \<open>
  \<open>build_ext4_metadata_tree\<close> of tree_builder.cpp from the root on, for a stream that describes a
  whole directory tree.
\<close>

text \<open>
  Before: the clusters of the tree are all different, in range, and free on the ext4 side, the names
  fit and one leaf has room for the blocks of each directory. \<open>P\<close> are the bytes of the stream.
\<close>

definition tree_ready :: "fat_globals \<Rightarrow> ext4_state \<Rightarrow> nat set \<Rightarrow> u32 list \<Rightarrow> fat_node list \<Rightarrow> bool" where
  "tree_ready g s P cs nodes \<longleftrightarrow> ready g s (cl_blocks g (cs @ nodes_clusters nodes))
     \<and> distinct (map (cl_block g) (cs @ nodes_clusters nodes)) \<and> (\<forall>c \<in> set (cs @ nodes_clusters nodes). data_cluster g c)
     \<and> dir_fits (unat (block_size (fs_sb s))) (unat (max_entries (fs_sb s))) nodes
     \<and> (\<forall>n \<in> set nodes. node_fits (unat (block_size (fs_sb s))) (unat (max_entries (fs_sb s))) n)
     \<and> stream_off g s (cl_blocks g (cs @ nodes_clusters nodes)) P"

text \<open>After: the directory \<open>k\<close> and everything below it.\<close>

definition tree_built ::
  "fat_globals \<Rightarrow> environment \<Rightarrow> memory \<Rightarrow> ext4_state \<Rightarrow> u32 \<Rightarrow> u32 \<Rightarrow> fat_node list \<Rightarrow> ext4_inode \<Rightarrow> bool" where
  "tree_built g env m0 s k parent nodes i \<longleftrightarrow> (\<exists>T bs js J U. dir_built g s k parent T bs js nodes i
     \<and> built_nodes g env m0 s k J U js nodes \<and> k \<notin> J \<and> (T \<union> cl_blocks g bs) \<inter> U = {})"

text \<open>
  C1. The ext4 tree is the tree of the stream. For a stream that describes a directory tree of any
  depth, \<open>build_ext4_metadata_tree\<close> returns behind the description, and the inode \<open>k\<close> is a directory
  that lists itself, its parent and the children in their order under their UTF-8 names; each
  child that is a file has an inode with the fields of its FAT entry, its size, and as extents
  exactly its clusters, whose bytes have not changed; each child that is a directory has been
  built in the same way, its link counted in its parent. No inode and no block is used twice, all
  are marked as used, and the invariant of the inodes holds. The program gives up only if there
  are fewer free clusters or inode numbers than the tree needs. The clusters of a node are here those of
  its extents in the stream, after blocked ones have been moved. It takes clusters that are free
  on the ext4 side and pairwise different, names that fit, and directories whose blocks fit into
  one leaf of their extent tree.
\<close>

theorem build_ext4_metadata_tree_correct:
  fixes s :: ext4_state
  assumes junk: "junk_ok junk" and fs: "0 < mi_fs_start (meta_info g)" and R: "tree_ready g s P cs nodes"
    and k: "k < fs_first_free_inode_no s" "tree_in g s k {}" "inode_extents g s k = []"
    and stream: "tree_in_stream g ps (readers P (mem s)) (good_extents g s) st cs nodes st'"
  shows "gives_up (build_ext4_metadata_tree g env junk ps k parent st s)
      \<and> \<not> supplies s (nodes_blocks nodes + 2) (nodes_inodes nodes) \<or>
    (\<exists>s'. build_ext4_metadata_tree g env junk ps k parent st s = Some (Inr (st', s')) \<and> inodes_inv g s'
      \<and> tree_built g env (mem s) s' k parent nodes (inode_fields g s k))"
proof -
  let ?P = "readers P (mem s) :: ext4_state set" and ?b = "cl_blocks g cs" and ?n = "cl_blocks g (nodes_clusters nodes)"
  obtain ss st1 st2 where seg: "stable_segment g ps ?P st ss st1" "good_extents g s ss cs"
    "count_in g ps ?P st1 (word_of_nat (length nodes)) st2" "nodes_in g ps ?P (good_extents g s) st2 nodes st'"
    using stream by (auto simp: tree_in_stream_def children_in_def)
  have Z: "cl_blocks g (cs @ nodes_clusters nodes) = ?b \<union> ?n" by (simp add: image_Un)
  have r: "ready g s (?b \<union> ?n)" "stream_off g s (?b \<union> ?n \<union> {}) P"
    using R unfolding tree_ready_def Z by simp_all
  have d: "distinct (map (cl_block g) cs)" "distinct (map (cl_block g) (nodes_clusters nodes))" "?b \<inter> ?n = {}"
    "\<forall>c \<in> set cs. data_cluster g c" "\<forall>c \<in> set (nodes_clusters nodes). data_cluster g c"
    using R by (auto simp: tree_ready_def)
  have fits: "dir_fits (unat (block_size (fs_sb s))) (unat (max_entries (fs_sb s))) nodes"
    "\<forall>n \<in> set nodes. node_fits (unat (block_size (fs_sb s))) (unat (max_entries (fs_sb s))) n"
    using R by (simp_all add: tree_ready_def)
  have D: "dir_pool g s cs ?n" using r(1) d by (simp add: dir_pool_def)
  have C: "closed_dir g s k {} [] []" using k by (simp add: closed_dir_def)
  have N: "nodes_ready g (mem s) s ?n nodes"
    using d fits(2) by (simp add: nodes_ready_def agree_on_def)
  have same: "agree_on P (mem s) (mem s)" by (simp add: agree_on_def)
  have cs: "clusters_of ss = cs" using seg(2) by (simp add: good_extents_def)
  from start_dir_op [OF D C junk seg(1) cs seg(3) same r(2), of parent] show ?thesis
  proof (elim disjE exE conjE)
    assume full: "start_dir g junk ps k parent st s = Some (Inl Fs_Too_Small)" "\<not> supplies s 1 0"
    have "\<not> supplies s (nodes_blocks nodes + 2) (nodes_inodes nodes)" by (rule starved_mono [OF full(2)]) simp_all
    then show ?thesis using full(1) by (simp add: build_ext4_metadata_tree_def gives_up_def)
  next
    fix v s1 W
    assume s1: "start_dir g junk ps k parent st s = Some (Inr (v, st2, s1))" "filling g ps P (mem s) s1 k v W ?n"
      "uses g {} ?b s s1" "dv_child_count v = word_of_nat (length nodes)" "view_infos W = dot_infos k parent"
      "view_place W v = (1, 24)" "fs_first_free_inode_no s1 = fs_first_free_inode_no s"
      "inode_fields g s1 k = inode_fields g s k" "draws 1 0 s s1"
    note S = uses_same [OF s1(3)]
    have N1: "nodes_ready g (mem s) s1 ?n nodes"
      by (rule nodes_ready_uses [OF N r(1) _ s1(3)]) (use d(3) in auto)
    have H: "good_extents g s1 = good_extents g s" by (rule good_extents_uses [OF s1(3)])
    have room: "fst (pack_nodes (unat (block_size (fs_sb s1))) nodes (view_place W v)) \<le> unat (max_entries (fs_sb s1))"
      using fits(1) by (simp add: dir_fits_def S(1) s1(6))
    have "length nodes < 2 ^ LENGTH(32)" using fits(1) by (simp add: dir_fits_def)
    then have cnt: "unat 0 + length nodes = unat (dv_child_count v)"
      unfolding s1(4) by (simp only: unat_of_nat mod_less unsigned_0 add_0)
    have run: "build_ext4_metadata_tree g env junk ps k parent st s = build_children g env junk ps k 0 v st2 s1"
      by (simp add: build_ext4_metadata_tree_def s1(1))
    from build_children_op [OF junk fs s1(2) N1 H seg(4) room cnt] consider
      (full) "gives_up (build_children g env junk ps k 0 v st2 s1)" "\<not> supplies s1 (nodes_blocks nodes + 1) (nodes_inodes nodes)"
      | (ok) s' where "build_children g env junk ps k 0 v st2 s1 = Some (Inr (st', s'))" "children_result g env (mem s) s1 k W ?n nodes s'"
      unfolding children_op_def by blast
    then show ?thesis
    proof cases
      case full
      then show ?thesis using draws_starved [OF s1(9) full(2)] by (simp add: run)
    next
      case ok
      obtain T bs js J U ess where r: "ready g s' (?n - ?n)" "closed_dir g s' k T bs ess"
        "concat ess = view_infos W @ children_infos js nodes" "length js = length nodes"
        "inode_fields g s' k = dir_inode s' bs nodes (inode_fields g s1 k)" "built_nodes g env (mem s) s' k J U js nodes"
        "\<forall>x \<in> J. fs_first_free_inode_no s1 \<le> x \<and> x < fs_first_free_inode_no s'" "(T \<union> cl_blocks g bs) \<inter> U = {}"
        using ok(2) unfolding children_result_def by (elim conjE exE) (rule that)
      have "dir_built g s' k parent T bs js nodes (inode_fields g s k)"
        using r(2-5) s1(5,8) by (auto simp: dir_built_def)
      moreover have "k \<notin> J" using r(7) k(1) s1(7) by (auto simp: not_le dest: order.strict_trans2)
      ultimately have "tree_built g env (mem s) s' k parent nodes (inode_fields g s k)"
        unfolding tree_built_def using r(6,8) by blast
      then show ?thesis using ok(1) readyD(1) [OF r(1)] run by auto
    qed
  qed
qed

subsection \<open>A sample\<close>

text \<open>
  The root directory in block 731 with the file \<open>A\<close> in the blocks 733 to 737, and the page of the
  stream in block 700: the extent of the root, the number 1, the entry, the name, the extent of the
  file, and the mark of a file, each behind the header of its segment.
\<close>

definition sample_file_entry :: "u8 list" where
  "sample_file_entry = [0x41, 0x20, 0x20, 0x20, 0x20, 0x20, 0x20, 0x20, 0x20, 0x20, 0x20, 0x20, 0, 0, 0, 0,
     0, 0, 0, 0, 0, 0, 0, 0, 0, 0, 0, 0, 0, 0x50, 0, 0]"

definition sample_file_node :: fat_node where
  "sample_file_node = Fat_Node sample_file_entry [[0x41, 0]] [602, 603, 604, 605, 606] None"

definition sample_page_bytes :: "u8 list" where
  "sample_page_bytes = [0, 0, 0, 0, 0, 0, 0, 0,
     1, 0, 0, 0, 0, 0, 0, 0, 0, 0, 0, 0, 1, 0, 0, 0, 0x58, 2, 0, 0,
     1, 0, 0, 0, 0, 0, 0, 0, 1, 0, 0, 0,
     1, 0, 0, 0, 0, 0, 0, 0,
     0x41, 0x20, 0x20, 0x20, 0x20, 0x20, 0x20, 0x20, 0x20, 0x20, 0x20, 0x20, 0, 0, 0, 0,
     0, 0, 0, 0, 0, 0, 0, 0, 0, 0, 0, 0, 0, 0x50, 0, 0,
     1, 0, 0, 0, 0, 0, 0, 0,
     0x41, 0, 0, 0, 0, 0, 0, 0, 0, 0, 0, 0, 0, 0, 0, 0, 0, 0, 0, 0, 0, 0, 0, 0, 0, 0,
     1, 0, 0, 0, 0, 0, 0, 0, 0, 0, 0, 0, 5, 0, 0, 0, 0x5A, 2, 0, 0,
     1, 0, 0, 0, 0, 0, 0, 0, 0xFF, 0xFF, 0xFF, 0xFF]"

abbreviation sample_page_range :: "nat set" where
  "sample_page_range \<equiv> {sample_page..<sample_page + 146}"

definition sample_page_memory :: "memory \<Rightarrow> memory" where
  "sample_page_memory m x = (if x \<in> sample_page_range then sample_page_bytes ! (x - sample_page) else m x)"

definition at_segment :: "nat \<Rightarrow> stream" where
  "at_segment h = \<lparr>st_page = sample_page, st_offset = word_of_nat h + 8, st_index = 0, st_header = sample_page + h\<rparr>"

lemma sample_page_pos: "sample_page \<noteq> 0" "sample_page + h \<noteq> 0"
  by (simp_all add: sample_page_def block_start_def sample_globals_def)

lemma length_sample_page_bytes: "length sample_page_bytes = 146"
  by (simp add: sample_page_bytes_def)

lemma load_le_list:
  "(\<And>i. i < length l \<Longrightarrow> m (a + i) = l ! i) \<Longrightarrow> load_le (length l) m a = foldr (\<lambda>b n. unat b + 256 * n) l 0"
proof (induction l arbitrary: a)
  case (Cons b l)
  have "m a = b" using Cons.prems [of 0] by simp
  moreover have "m (Suc a + i) = l ! i" if "i < length l" for i using Cons.prems [of "Suc i"] that by simp
  then have "load_le (length l) m (Suc a) = foldr (\<lambda>b n. unat b + 256 * n) l 0" by (rule Cons.IH)
  ultimately show ?case by simp
qed simp

lemma sample_page_list:
  assumes "r \<in> readers sample_page_range (sample_page_memory m)" and l: "take k (drop h sample_page_bytes) = l" "h + k \<le> 146"
  shows "load_le k (mem r) (sample_page + h) = foldr (\<lambda>b n. unat b + 256 * n) l 0" and "load_bytes (mem r) (sample_page + h) k = l"
proof -
  have n: "length l = k" using l by (auto simp: length_sample_page_bytes)
  have eq: "mem r (sample_page + h + i) = l ! i" if "i < k" for i
  proof -
    have "sample_page + h + i \<in> sample_page_range" using that l(2) by simp
    then have "mem r (sample_page + h + i) = sample_page_memory m (sample_page + h + i)"
      using assms(1) by (simp add: agree_on_def)
    then show ?thesis
      using that l(2) unfolding l(1) [symmetric] by (simp add: sample_page_memory_def length_sample_page_bytes)
  qed
  have "load_le (length l) (mem r) (sample_page + h) = foldr (\<lambda>b n. unat b + 256 * n) l 0"
    by (rule load_le_list) (simp add: n eq)
  then show "load_le k (mem r) (sample_page + h) = foldr (\<lambda>b n. unat b + 256 * n) l 0" by (simp only: n)
  show "load_bytes (mem r) (sample_page + h) k = l"
    unfolding load_bytes_def by (rule nth_equalityI) (simp_all add: n eq)
qed

lemma sample_page_parts:
  "h \<in> {8, 28, 40, 80, 114, 134} \<Longrightarrow> take 8 (drop h sample_page_bytes) = [1, 0, 0, 0, 0, 0, 0, 0]"
  "take 4 (drop 16 sample_page_bytes) = [0, 0, 0, 0]" "take 2 (drop 20 sample_page_bytes) = [1, 0]"
  "take 4 (drop 24 sample_page_bytes) = [0x58, 2, 0, 0]" "take 4 (drop 36 sample_page_bytes) = [1, 0, 0, 0]"
  "take 2 (drop 88 sample_page_bytes) = [0x41, 0]" "take 2 (drop 90 sample_page_bytes) = [0, 0]"
  "take 4 (drop 122 sample_page_bytes) = [0, 0, 0, 0]" "take 2 (drop 126 sample_page_bytes) = [5, 0]"
  "take 4 (drop 130 sample_page_bytes) = [0x5A, 2, 0, 0]" "take 4 (drop 142 sample_page_bytes) = [0xFF, 0xFF, 0xFF, 0xFF]"
  "take 32 (drop 48 sample_page_bytes) = sample_file_entry"
  by (auto simp: sample_page_bytes_def sample_file_entry_def)

lemma sample_page_fields:
  assumes r: "r \<in> readers sample_page_range (sample_page_memory m)"
  shows "h \<in> {8, 28, 40, 80, 114, 134} \<Longrightarrow> load_u64 (mem r) (sample_page + h) = 1"
    and "load_fat_extent (mem r) (sample_page + 16) = \<lparr>fe_logical_start = 0, fe_length = 1, fe_physical_start = 600\<rparr>"
    and "load_u32 (mem r) (sample_page + 36) = 1" and "load_bytes (mem r) (sample_page + 48) 32 = sample_file_entry"
    and "name_at (mem r) (sample_page + 88) [0x41, 0]" and "load_fat_extent (mem r) (sample_page + 122) = sample_extent"
    and "load_u32 (mem r) (sample_page + 142) = - 1"
proof -
  note L = sample_page_list [OF r] and P = sample_page_parts
  note v = L(1) [OF P(2), simplified] L(1) [OF P(3), simplified] L(1) [OF P(4), simplified] L(1) [OF P(5), simplified]
    L(1) [OF P(6), simplified] L(1) [OF P(7), simplified] L(1) [OF P(8), simplified] L(1) [OF P(9), simplified]
    L(1) [OF P(10), simplified] L(1) [OF P(11), simplified]
  show "load_u64 (mem r) (sample_page + h) = 1" if "h \<in> {8, 28, 40, 80, 114, 134}"
  proof -
    have "h + 8 \<le> 146" using that by auto
    from L(1) [OF P(1) [OF that] this] show ?thesis by (simp add: load_u64_def)
  qed
  show "load_u32 (mem r) (sample_page + 36) = 1" "load_u32 (mem r) (sample_page + 142) = - 1"
    unfolding load_u32_def v by simp_all
  show "load_fat_extent (mem r) (sample_page + 16) = \<lparr>fe_logical_start = 0, fe_length = 1, fe_physical_start = 600\<rparr>"
    "load_fat_extent (mem r) (sample_page + 122) = sample_extent"
    by (simp_all add: load_fat_extent_def load_u32_def load_u16_def sample_extent_def v v [unfolded add.commute [of sample_page]])
  show "name_at (mem r) (sample_page + 88) [0x41, 0]"
    by (simp add: name_at_def load_u16_def v v [unfolded add.commute [of sample_page]])
  show "load_bytes (mem r) (sample_page + 48) 32 = sample_file_entry" by (rule L(2) [OF P(12)]) simp
qed

lemma sample_page_next:
  fixes len h :: nat
  assumes r: "r \<in> readers sample_page_range (sample_page_memory m)" and h: "h \<in> {8, 28, 40, 80, 114, 134}" and len: "len \<le> 32"
  shows "getNext sample_globals 4096 (word_of_nat len) (at_segment h) r =
      Inr (sample_page + h + 8, (at_segment h)\<lparr>st_offset := word_of_nat (h + 8 + len), st_index := 1\<rparr>, r)"
    and "getNext sample_globals 4096 (word_of_nat len) ((at_segment h)\<lparr>st_offset := word_of_nat (h + 8 + len), st_index := 1\<rparr>) r =
      Inr (0, at_segment (h + 8 + len), r)"
proof -
  have b: "h + 16 + len < 4096" using h len by auto
  have u: "unat (word_of_nat h + 8 :: u64) = h + 8" "unat (word_of_nat h + 8 + word_of_nat len :: u64) = h + 8 + len"
    "unat (word_of_nat h + 8 + word_of_nat len + 8 :: u64) = h + 8 + len + 8"
    using b by (simp_all add: unat_add_no_overflow unat_of_nat)
  have f: "\<not> 4096 < (word_of_nat h + 8 + word_of_nat len :: u64)" "\<not> 4096 < (word_of_nat h + 8 + word_of_nat len + 8 :: u64)"
    using u b by (simp_all add: word_less_nat_alt)
  have L: "load_u64 (mem r) (sample_page + h) = 1" by (rule sample_page_fields(1) [OF r h])
  show "getNext sample_globals 4096 (word_of_nat len) (at_segment h) r =
      Inr (sample_page + h + 8, (at_segment h)\<lparr>st_offset := word_of_nat (h + 8 + len), st_index := 1\<rparr>, r)"
    using f u L sample_page_pos
    by (simp add: getNext_def iterateStreamArchiver_def iterate_advance_def at_segment_def add.assoc)
  show "getNext sample_globals 4096 (word_of_nat len) ((at_segment h)\<lparr>st_offset := word_of_nat (h + 8 + len), st_index := 1\<rparr>) r =
      Inr (0, at_segment (h + 8 + len), r)"
    using f u L sample_page_pos
    by (simp add: getNext_def iterateStreamArchiver_def iterate_advance_def at_segment_def sizeof_header_def add.assoc)
qed

lemma sample_page_cell:
  assumes h: "h \<in> {8, 28, 40, 80, 114, 134}" and len: "len \<le> 32" and a: "a = sample_page + h + 8"
  shows "segment_cells sample_globals 4096 (readers sample_page_range (sample_page_memory m)) (word_of_nat len)
    (at_segment h) [a] (at_segment (h + 8 + len))"
  unfolding a using sample_page_next [OF _ h len] sample_page_pos
  by (intro cells_more [where st' = "(at_segment h)\<lparr>st_offset := word_of_nat (h + 8 + len), st_index := 1\<rparr>"] cells_end) auto

lemma sample_page_extent:
  assumes h: "h \<in> {8, 28, 40, 80, 114, 134}"
    and f: "\<And>r. r \<in> readers sample_page_range (sample_page_memory m) \<Longrightarrow> load_fat_extent (mem r) a = f" "a = sample_page + h + 8"
  shows "stable_segment sample_globals 4096 (readers sample_page_range (sample_page_memory m)) (at_segment h) [f] (at_segment (20 + h))"
proof -
  have "sizeof_fat_extent \<le> 32" by (simp add: sizeof_fat_extent_def)
  note n = sample_page_next [OF _ h this]
  show ?thesis
    by (rule stable_extent [where st' = "(at_segment h)\<lparr>st_offset := word_of_nat (h + 8 + sizeof_fat_extent), st_index := 1\<rparr>"], use n(1) f in blast)
     (use n(2) sample_page_pos in \<open>auto intro!: stable_end simp: sizeof_fat_extent_def\<close>)
qed

lemma sample_tree_stream:
  assumes g: "good_extents sample_globals s [\<lparr>fe_logical_start = 0, fe_length = 1, fe_physical_start = 600\<rparr>] [600]"
    "good_extents sample_globals s [sample_extent] [602, 603, 604, 605, 606]"
  shows "tree_in_stream sample_globals 4096 (readers sample_page_range (sample_page_memory m)) (good_extents sample_globals s)
    (at_segment 8) [600] [sample_file_node] (at_segment 146)"
proof -
  let ?R = "readers sample_page_range (sample_page_memory m)" and ?g = sample_globals and ?H = "good_extents sample_globals s"
  note F = sample_page_fields [where m = m]
  have root: "stable_segment ?g 4096 ?R (at_segment 8) [\<lparr>fe_logical_start = 0, fe_length = 1, fe_physical_start = 600\<rparr>] (at_segment 28)"
    using sample_page_extent [OF _ F(2)] by simp
  have "count_in ?g 4096 ?R (at_segment 28) 1 (at_segment 40)"
    unfolding count_in_def using sample_page_cell [of 28 4 "sample_page + 36" m] F(3) by (intro exI [of _ "sample_page + 36"]) simp
  moreover have "entry_in ?g 4096 ?R ?H (at_segment 40) sample_file_entry [[0x41, 0]] [602, 603, 604, 605, 606] (at_segment 134)"
    unfolding entry_in_def
  proof (intro exI conjI)
    show "segment_cells ?g 4096 ?R 32 (at_segment 40) [sample_page + 48] (at_segment 80)"
      using sample_page_cell [of 40 32 "sample_page + 48" m] by simp
    show "segment_cells ?g 4096 ?R 26 (at_segment 80) [sample_page + 88] (at_segment 114)"
      using sample_page_cell [of 80 26 "sample_page + 88" m] by simp
    show "stable_segment ?g 4096 ?R (at_segment 114) [sample_extent] (at_segment 134)"
      using sample_page_extent [OF _ F(6)] by simp
  qed (use F(4,5) g(2) in auto)
  moreover have "count_in ?g 4096 ?R (at_segment 134) (- 1) (at_segment 146)"
    unfolding count_in_def using sample_page_cell [of 134 4 "sample_page + 142" m] F(7) by (intro exI [of _ "sample_page + 142"]) simp
  ultimately have "children_in ?g 4096 ?R ?H (at_segment 28) (Some [sample_file_node]) (at_segment 146)"
    unfolding children_in_def sample_file_node_def by (auto intro: file_in more_nodes no_nodes)
  then show ?thesis unfolding tree_in_stream_def using root g(1) by blast
qed

text \<open>The file system behind \<open>build_root_inode\<close>, with the clusters from 701 to 999 free.\<close>

definition sample_free_alloc :: alloc_state where
  "sample_free_alloc = \<lparr>allocator = \<lparr>index_in_fat = 700, blocked_extent_count = 0,
     blocked_extents = [\<lparr>fe_logical_start = 0, fe_length = 1, fe_physical_start = 1000\<rparr>], blocked_extent_current = 0\<rparr>,
     allocation_bitmap = replicate 125 0\<rparr>"

lemma sample_free_alloc_wf: "alloc_wf sample_free_alloc" "usable sample_free_alloc c \<longleftrightarrow> 700 < c \<and> c < 1000"
proof -
  have "replicate 125 (0 :: u8) ! (c div 8) = 0" if "c < 1000" using that by (intro nth_replicate) simp
  then show "usable sample_free_alloc c \<longleftrightarrow> 700 < c \<and> c < 1000"
    by (auto simp: usable_def sample_free_alloc_def index_def blocked_start_def extent_count_def stepped_over_def cluster_free_def)
  show "alloc_wf sample_free_alloc"
    by (simp add: alloc_wf_def sample_free_alloc_def extent_count_def index_def blocked_start_def extents_ascending_def extent_end_def)
qed

lemma sample_cluster:
  assumes "2 \<le> unat c" "unat c < 1000"
  shows "cl_block sample_globals c = unat c + 131" "data_cluster sample_globals c"
proof -
  show d: "data_cluster sample_globals c" using assms by (simp add: data_cluster_def sample_first_data_block)
  then show "cl_block sample_globals c = unat c + 131"
    using unat_fat_cl_to_e4blk [of c sample_globals] assms by (simp add: data_cluster_def cl_block_def sample_first_data_block)
qed

lemma sample_spare: "spare sample_globals sample_free_alloc = {832..<1131}"
proof -
  have "x \<in> spare sample_globals sample_free_alloc" if "832 \<le> x" "x < 1131" for x
  proof -
    have "x - 131 < 2 ^ LENGTH(32)" using that by simp
    then have "unat (word_of_nat (x - 131) :: u32) = x - 131" by (simp only: unat_of_nat mod_less)
    then show ?thesis using that sample_cluster [of "word_of_nat (x - 131)"]
      by (auto simp: spare_def sample_free_alloc_wf intro!: exI [of _ "word_of_nat (x - 131)"])
  qed
  then show ?thesis using sample_cluster by (auto simp: spare_def sample_free_alloc_wf)
qed

lemma sample_root_inode:
  "\<exists>s. inodes_inv sample_globals s \<and> same_groups sample_globals sample_groups s \<and> fs_first_free_inode_no s = 12
    \<and> valid_inode s 2 \<and> tree_ok sample_globals s 2 \<and> inode_extents sample_globals s 2 = []
    \<and> tree_bytes sample_globals s 2 \<subseteq> inode_slot sample_globals s 2 \<and> fs_sb s = sample_super_block
    \<and> (\<forall>x. valid_block s x \<longrightarrow> block_used sample_globals s x = block_used sample_globals sample_groups x)"
proof -
  let ?g = sample_globals and ?i = "root_inode sample_environment"
  have v: "valid_inode sample_groups 2" using sample_inode_used [of 2] by simp
  obtain s where s: "groups_inv ?g s" "same_groups ?g sample_groups s"
    "fs_first_free_inode_no s = fs_first_free_inode_no sample_groups"
    "\<forall>j. valid_inode sample_groups j \<longrightarrow> inode_used ?g s j = inode_used ?g sample_groups j"
    "load_inode (mem s) (inode_addr ?g sample_groups 2) = ?i"
    "agree_on (- inode_slot ?g sample_groups 2) (mem sample_groups) (mem s)"
    using add_reserved_inode_spec [OF sample_groups_inv v] by blast
  have inv: "inodes_inv ?g s" by (rule inodes_inv_frame [OF sample_inodes_inv s(2,1,3)]) (use s(4) in blast)
  have v': "valid_inode s 2" and r: "tree_root ?g s 2 = inode_addr ?g sample_groups 2 + 40"
    using same_groups_inode [OF s(2) v] by (simp_all add: tree_root_def)
  have sb: "fs_sb s = sample_super_block" using s(2) by (simp add: same_groups_def sample_groups_fields)
  have h: "load_header (mem s) (tree_root ?g s 2) = init_extent_header"
    using arg_cong [OF s(5), of ext_header] unfolding r by (simp add: load_inode_def root_inode_def)
  have "tree_ok ?g s 2"
    by (rule tree_okI_leaf) (simp_all add: h init_extent_header_def sb sample_max_entries)
  moreover have "inode_extents ?g s 2 = []"
    by (simp add: inode_extents_leaf h init_extent_header_def node_extents_def)
  moreover have "tree_bytes ?g s 2 \<subseteq> inode_slot ?g s 2"
    using tree_root_in_slot [of ?g s 2] by (simp add: tree_bytes_def h init_extent_header_def)
  moreover have "block_used ?g s x = block_used ?g sample_groups x" if "valid_block s x" for x
  proof -
    have x: "valid_block sample_groups x" using that same_groups_blocks [OF s(2)] by simp
    show ?thesis
      using block_bitmap_disjoint(1) [OF sample_groups_inv x v]
      by (intro same_groups_block_used [OF sample_groups_inv s(2) x] agree_on_mono [OF s(6)]) auto
  qed
  ultimately show ?thesis using inv s(2,3) v' sb by (auto simp: sample_groups_fields)
qed

lemma sample_tree_ready:
  obtains s m where "tree_ready sample_globals s sample_page_range [600] [sample_file_node]" "mem s = sample_page_memory m"
    "fs_first_free_inode_no s = 12" "tree_in sample_globals s 2 {}" "inode_extents sample_globals s 2 = []"
    "good_extents sample_globals s [\<lparr>fe_logical_start = 0, fe_length = 1, fe_physical_start = 600\<rparr>] [600]"
    "good_extents sample_globals s [sample_extent] [602, 603, 604, 605, 606]" "alloc s = sample_free_alloc"
    "fs_sb s = sample_super_block"
proof -
  let ?g = sample_globals and ?P = sample_page_range and ?al = sample_free_alloc
  obtain t where t: "inodes_inv ?g t" "same_groups ?g sample_groups t" "fs_first_free_inode_no t = 12"
    "valid_inode t 2" "tree_ok ?g t 2" "inode_extents ?g t 2 = []" "tree_bytes ?g t 2 \<subseteq> inode_slot ?g t 2"
    "fs_sb t = sample_super_block" "\<And>x. valid_block t x \<Longrightarrow> block_used ?g t x = block_used ?g sample_groups x"
    using sample_root_inode by blast
  note inv = inodes_invD(1) [OF t(1)]
  let ?m = "sample_page_memory (mem t)"
  let ?u = "t\<lparr>mem := ?m\<rparr>"
  define s where "s = ?u\<lparr>alloc := ?al\<rparr>"
  have blocks: "blocks_inv ?g t"
  proof (rule blocks_inv_frame)
    show "blocks_inv ?g sample_groups"
      using init_blocks_inv [of sample_ext4 ?g] sample_layout_ok by (simp add: sample_groups_def sample_ext4_def)
    show "same_groups ?g (sample_groups\<lparr>alloc := alloc sample_groups\<rparr>) t" using t(2) by simp
    show "block_used ?g t x" if "valid_block sample_groups x" "block_used ?g sample_groups x" for x
      using that t(9) same_groups_blocks [OF t(2)] by simp
  qed
  have v: "valid_block t x" "block_idx t x = x" "block_used ?g t x \<longleftrightarrow> x < 516" if "x < 32768" for x
    using sample_block_used [OF that] same_groups_blocks [OF t(2)] t(9) by auto
  have page: "sample_page = block_addr ?g (fs_sb t) 700"
    using block_start_addr [of 700 ?g sample_super_block] by (simp add: sample_page_def t(8))
  have "?P \<subseteq> block_bytes ?g (fs_sb t) 700"
    unfolding page block_bytes_def by (auto simp: t(8) sample_layout)
  then have off: "?P \<inter> region ?g t X = {}" if "700 \<notin> X" for X
    using region_disjoint [of "{700}" X ?g t] that \<open>?P \<subseteq> _\<close> unfolding region_def by auto
  have "block_bytes ?g (fs_sb t) 700 \<inter> meta_bytes ?g t = {}"
    using blocks v [of 700] by (simp add: blocks_inv_def)
  then have P: "?P \<inter> meta_bytes ?g t = {}" using \<open>?P \<subseteq> _\<close> by blast
  have ag: "agree_on (- ?P) (mem t) ?m" by (auto simp: agree_on_def sample_page_memory_def)
  have "agree_on (bitmap_bytes ?g t) (mem t) ?m"
    using P bitmap_in_meta [of ?g t] by (intro agree_on_mono [OF ag]) blast
  note W = written_elsewhere [OF inv this]
  have fields: "mem s = ?m" "alloc s = ?al" "fs_first_free_inode_no s = 12" "fs_sb s = sample_super_block"
    by (simp_all add: s_def t(3,8))
  have sv: "valid_block s x = valid_block t x" "block_idx s x = block_idx t x" "region ?g s A = region ?g t A"
    "meta_bytes ?g s = meta_bytes ?g t" "inode_slot ?g s 2 = inode_slot ?g t 2" for x A
    by (simp_all add: s_def valid_block_def block_grp_def block_idx_def inode_slot_def inode_addr_def inode_idx_def inode_grp_def)
  have used: "block_used ?g s x \<longleftrightarrow> x < 516" if "x < 32768" for x
    using W(3) v [OF that] by (simp add: s_def)
  have i: "inodes_inv ?g s"
  proof -
    have "inodes_inv ?g ?u" by (rule inodes_inv_frame [OF t(1) W(2,1) _ W(4)]) simp_all
    then show ?thesis by (simp add: s_def)
  qed
  have b: "blocks_inv ?g s"
    using blocks W(3) by (simp add: blocks_inv_def s_def valid_block_def block_grp_def)
  have slot: "inode_slot ?g t 2 \<subseteq> meta_bytes ?g t" using slot_in_meta(1) [OF inv t(4)] .
  have S: "same_groups ?g (t\<lparr>alloc := ?al\<rparr>) s" by (simp add: s_def same_groups_def)
  have "agree_on (tree_bytes ?g t 2) (mem t) (mem s)"
    unfolding fields using P slot t(7) by (intro agree_on_mono [OF ag]) blast
  note T = tree_frame [OF t(4,5) S this]
  have tree: "tree_in ?g s 2 {}"
    using T t(4,7) sv(5) by (simp add: tree_in_def) (simp add: s_def valid_inode_def inode_grp_def)
  let ?X = "cl_blocks ?g ([600] @ nodes_clusters [sample_file_node])"
  have X: "?X = {731, 733, 734, 735, 736, 737}" by (simp add: sample_file_node_def sample_cluster)
  have spare: "spare ?g (alloc s) = {832..<1131}" by (simp add: fields sample_spare)
  have R: "ready ?g s ?X"
  proof -
    have "valid_block s x \<and> \<not> block_used ?g s x" if "x \<in> ?X \<union> spare ?g (alloc s)" for x
    proof -
      have "516 \<le> x" "x < 32768" using that unfolding X spare by auto
      then show ?thesis using used v sv by simp
    qed
    moreover have "?X \<inter> spare ?g (alloc s) = {}" unfolding X spare by auto
    moreover have "data_cluster ?g c" if "usable (alloc s) (unat c)" for c
      using that by (intro sample_cluster) (auto simp: fields sample_free_alloc_wf)
    ultimately show ?thesis
      using i b sample_free_alloc_wf(1) unfolding ready_def
      by (simp add: fields sample_max_entries sample_layout)
  qed
  have pk: "fst (pack_nodes 4096 [sample_file_node] (1, 24)) \<le> 340" "node_fits 4096 340 sample_file_node"
    by (simp add: sample_file_node_def entry_length_def utf8_name_def)
       code_simp
  have ready: "tree_ready ?g s ?P [600] [sample_file_node]"
    unfolding tree_ready_def
  proof (intro conjI)
    show "distinct (map (cl_block ?g) ([600] @ nodes_clusters [sample_file_node]))"
      "\<forall>c \<in> set ([600] @ nodes_clusters [sample_file_node]). data_cluster ?g c"
      by (simp_all add: sample_file_node_def sample_cluster)
    show "stream_off ?g s ?X ?P"
      using P off [of "?X \<union> spare ?g (alloc s)"] unfolding stream_off_def sv X spare by simp
  qed (use R pk in \<open>simp_all add: dir_fits_def fields sample_layout sample_max_entries\<close>)
  have good: "good_extents ?g s [\<lparr>fe_logical_start = 0, fe_length = 1, fe_physical_start = 600\<rparr>] [600]"
    "good_extents ?g s [sample_extent] [602, 603, 604, 605, 606]"
    using v [of 731] v [of 733] sv(1,2)
    by (simp_all add: good_extents_def extent_fits_def sample_cluster fields sample_groups_numbers sample_max_entries
        sample_extent_def extent_cluster_list_def upt_rec)
  have "inode_extents ?g s 2 = []" using T(2) t(6) by simp
  then show ?thesis by (rule that [OF ready fields(1,3) tree _ good fields(2,4)])
qed

lemma sample_supplies:
  assumes "alloc s = sample_free_alloc" and "fs_first_free_inode_no s = 12" and "tree_in sample_globals s 2 {}"
    and "fs_sb s = sample_super_block"
  shows "supplies s 5 1"
proof -
  have "{c. usable (alloc s) c} = {701..<1000}" by (auto simp: assms(1) sample_free_alloc_wf)
  moreover have "valid_inode s j" if "12 \<le> unat j" "unat j < 13" for j
    using that assms(3,4) by (auto simp: tree_in_def valid_inode_def inode_grp_def sample_groups_numbers)
  ultimately show ?thesis using assms(2) by (simp add: supplies_def)
qed

theorem build_ext4_metadata_tree_correct_witness:
  "\<exists>s m s'. build_ext4_metadata_tree sample_globals sample_environment (\<lambda>_ _. replicate 256 7) 4096 2 2 (at_segment 8) s
       = Some (Inr (at_segment 146, s')) \<and> inodes_inv sample_globals s'
     \<and> tree_built sample_globals sample_environment m s' 2 2 [sample_file_node] (inode_fields sample_globals s 2)"
proof -
  obtain s m where s: "tree_ready sample_globals s sample_page_range [600] [sample_file_node]" "mem s = sample_page_memory m"
    "fs_first_free_inode_no s = 12" "tree_in sample_globals s 2 {}" "inode_extents sample_globals s 2 = []"
    "good_extents sample_globals s [\<lparr>fe_logical_start = 0, fe_length = 1, fe_physical_start = 600\<rparr>] [600]"
    "good_extents sample_globals s [sample_extent] [602, 603, 604, 605, 606]" "alloc s = sample_free_alloc"
    "fs_sb s = sample_super_block"
    using sample_tree_ready by blast
  have "junk_ok (\<lambda>_ _. replicate 256 7)" by (simp add: junk_ok_def)
  moreover have "0 < mi_fs_start (meta_info sample_globals)" by (simp add: sample_globals_def)
  moreover have "2 < fs_first_free_inode_no s" by (simp add: s(3))
  moreover have "supplies s (nodes_blocks [sample_file_node] + 2) (nodes_inodes [sample_file_node])"
    using sample_supplies [OF s(8,3,4,9)] by (simp add: sample_file_node_def)
  ultimately show ?thesis
    using build_ext4_metadata_tree_correct [OF _ _ s(1) _ s(4,5) sample_tree_stream [OF s(6,7), of m, folded s(2)]] by blast
qed

end
