(* ===== verification/Main_Steps.thy ===== *)
theory Main_Steps
  imports Preparation Step_Invariants
begin

section \<open>ofs-convert.cpp: the stages of the conversion\<close>

text \<open>
  \<open>main\<close> as a state machine: the points between its calls, with the streams that are still
  needed and the state, and a step for every call. A run that ends early, at one of the calls
  that exit, stays at the point it has reached.
\<close>

datatype main_point =
    Prepared ext4_state
  | Root_Chain_Read stream stream ext4_state
  | Fat_Tree_Read stream ext4_state
  | Groups_Ready stream ext4_state
  | Root_Built stream ext4_state
  | Tree_Built ext4_state
  | Lost_Found_Built ext4_state
  | Finished ext4_state

primrec state_at :: "main_point \<Rightarrow> ext4_state" where
  "state_at (Prepared s) = s"
| "state_at (Root_Chain_Read r w s) = s"
| "state_at (Fat_Tree_Read r s) = s"
| "state_at (Groups_Ready r s) = s"
| "state_at (Root_Built r s) = s"
| "state_at (Tree_Built s) = s"
| "state_at (Lost_Found_Built s) = s"
| "state_at (Finished s) = s"

abbreviation page_size :: "fat_globals \<Rightarrow> u64" where
  "page_size g \<equiv> ucast (mi_cluster_size (meta_info g))"

inductive main_step :: "fat_globals \<Rightarrow> environment \<Rightarrow> junk \<Rightarrow> main_point \<Rightarrow> main_point \<Rightarrow> bool"
  for g env junk where
  root_chain_step: "init_stream_archiver g (mi_cluster_size (meta_info g)) s = Inr (r, s1)
    \<Longrightarrow> aggregate_extents g (page_size g) (bs_root_cluster_no (boot_sector g)) r s1 = Some (Inr (w, s2))
    \<Longrightarrow> main_step g env junk (Prepared s) (Root_Chain_Read r w s2)"
| traverse_step: "traverse g (page_size g) r w s = Some (Inr (w', s'))
    \<Longrightarrow> main_step g env junk (Root_Chain_Read r w s) (Fat_Tree_Read r s')"
| group_descs_step: "main_step g env junk (Fat_Tree_Read r s) (Groups_Ready r (init_ext4_group_descs g s))"
| root_step: "build_ext4_root g env s = Inr s' \<Longrightarrow> main_step g env junk (Groups_Ready r s) (Root_Built r s')"
| tree_step: "build_ext4_metadata_tree g env junk (page_size g) EXT4_ROOT_INODE EXT4_ROOT_INODE r s = Some (Inr (r', s'))
    \<Longrightarrow> main_step g env junk (Root_Built r s) (Tree_Built s')"
| lost_found_step: "build_lost_found g env junk s = Some (Inr s')
    \<Longrightarrow> main_step g env junk (Tree_Built s) (Lost_Found_Built s')"
| finalize_step: "finalize_block_groups_on_disk g s = Some (Inr s')
    \<Longrightarrow> main_step g env junk (Lost_Found_Built s) (Finished s')"

inductive_simps main_step_simps:
  "main_step g env junk (Prepared s) q"
  "main_step g env junk (Root_Chain_Read r w s) q"
  "main_step g env junk (Fat_Tree_Read r s) q"
  "main_step g env junk (Groups_Ready r s) q"
  "main_step g env junk (Root_Built r s) q"
  "main_step g env junk (Tree_Built s) q"
  "main_step g env junk (Lost_Found_Built s) q"
  "main_step g env junk (Finished s) q"

text \<open>One unfolding of the steps from a point to the end.\<close>

lemma steps_to_end:
  "(main_step g env junk)\<^sup>*\<^sup>* p (Finished s') \<longleftrightarrow>
     p = Finished s' \<or> (\<exists>q. main_step g env junk p q \<and> (main_step g env junk)\<^sup>*\<^sup>* q (Finished s'))"
  by (metis converse_rtranclpE converse_rtranclp_into_rtranclp rtranclp.rtrancl_refl)

lemma steps_from_end [simp]: "(main_step g env junk)\<^sup>*\<^sup>* (Finished s) q \<longleftrightarrow> q = Finished s"
  by (auto simp: main_step_simps elim: converse_rtranclpE)

lemma lost_found_to_end [simp]:
  "(main_step g env junk)\<^sup>*\<^sup>* (Lost_Found_Built s) (Finished s') \<longleftrightarrow>
     finalize_block_groups_on_disk g s = Some (Inr s')"
  by (subst steps_to_end) (auto simp: main_step_simps)

lemma tree_built_to_end [simp]:
  "(main_step g env junk)\<^sup>*\<^sup>* (Tree_Built s) (Finished s') \<longleftrightarrow>
     bind_run (build_lost_found g env junk s) (finalize_block_groups_on_disk g) = Some (Inr s')"
  by (subst steps_to_end) (auto simp: main_step_simps bind_run_eq_Inr)

lemma root_built_to_end [simp]:
  "(main_step g env junk)\<^sup>*\<^sup>* (Root_Built r s) (Finished s') \<longleftrightarrow>
     bind_run (build_ext4_metadata_tree g env junk (page_size g) EXT4_ROOT_INODE EXT4_ROOT_INODE r s)
       (\<lambda>(_, s2). bind_run (build_lost_found g env junk s2) (finalize_block_groups_on_disk g)) = Some (Inr s')"
  by (subst steps_to_end) (fastforce simp: main_step_simps bind_run_eq_Inr)

lemma groups_ready_to_end [simp]:
  "(main_step g env junk)\<^sup>*\<^sup>* (Fat_Tree_Read r s) (Finished s') \<longleftrightarrow>
     write_ext4_tree g env junk r s = Some (Inr s')"
proof -
  have "(main_step g env junk)\<^sup>*\<^sup>* (Groups_Ready r t) (Finished s') \<longleftrightarrow>
      bind_run (Some (build_ext4_root g env t)) (\<lambda>s1.
        bind_run (build_ext4_metadata_tree g env junk (page_size g) EXT4_ROOT_INODE EXT4_ROOT_INODE r s1) (\<lambda>(_, s2).
        bind_run (build_lost_found g env junk s2) (finalize_block_groups_on_disk g))) = Some (Inr s')" for t
    by (subst steps_to_end) (auto simp: main_step_simps bind_run_eq_Inr)
  then show ?thesis by (subst steps_to_end) (simp add: main_step_simps write_ext4_tree_def)
qed

lemma prepared_to_end [simp]:
  "(main_step g env junk)\<^sup>*\<^sup>* (Prepared s) (Finished s') \<longleftrightarrow>
     bind_run (read_fat_tree g s) (\<lambda>(r, s1). write_ext4_tree g env junk r s1) = Some (Inr s')"
proof -
  have "(main_step g env junk)\<^sup>*\<^sup>* (Root_Chain_Read r w t) (Finished s') \<longleftrightarrow>
      bind_run (traverse g (page_size g) r w t) (\<lambda>(_, s1). write_ext4_tree g env junk r s1) = Some (Inr s')" for r w t
    by (subst steps_to_end) (fastforce simp: main_step_simps bind_run_eq_Inr)
  then show ?thesis
    by (subst steps_to_end) (fastforce simp: main_step_simps read_fat_tree_def Let_def bind_run_eq_Inr)
qed


subsection \<open>What holds between the stages\<close>

text \<open>A superblock up to the totals that \<open>finalize_block_groups_on_disk\<close> adds up.\<close>

definition layout_of :: "ext4_super_block \<Rightarrow> ext4_super_block" where
  "layout_of sb = sb\<lparr>s_free_blocks_count_lo := 0, s_free_blocks_count_hi := 0, s_free_inodes_count := 0\<rparr>"

lemma layout_of_add_group_counts [simp]: "layout_of (add_group_counts sb d) = layout_of sb"
  by (simp add: layout_of_def add_group_counts_def Let_def split_beta)

lemma layout_of_areas:
  assumes "layout_of sb = layout_of sb'" and "group_places d = group_places d'"
  shows "group_areas g sb d = group_areas g sb' d'"
proof -
  have "s_log_block_size sb = s_log_block_size sb'" "s_inodes_per_group sb = s_inodes_per_group sb'"
    "s_inode_size sb = s_inode_size sb'"
    using arg_cong [OF assms(1), of s_log_block_size] arg_cong [OF assms(1), of s_inodes_per_group]
      arg_cong [OF assms(1), of s_inode_size] by (simp_all add: layout_of_def)
  then have "block_size sb = block_size sb'" "s_inodes_per_group sb = s_inodes_per_group sb'"
    "s_inode_size sb = s_inode_size sb'" by (simp_all add: block_size_def)
  then show ?thesis using assms(2)
    by (simp add: group_areas_def group_places_def block_start_def)
qed

interpretation reading: step_invariant "\<lambda>s :: ext4_state. allocations a0 (alloc s) \<and> fs_sb s = sb0" for a0 sb0
  by unfold_locales (auto intro: next_allocation)

interpretation writing: ext4_invariant "\<lambda>s. allocations a0 (alloc s) \<and> layout_of (fs_sb s) = sb0
    \<and> map group_places (fs_group_descs s) = places" for a0 sb0 places
  by unfold_locales (auto intro: next_allocation)

text \<open>From \<open>init_ext4_group_descs\<close> on the group descriptors exist.\<close>

primrec groups_exist :: "main_point \<Rightarrow> bool" where
  "groups_exist (Prepared s) = False"
| "groups_exist (Root_Chain_Read r w s) = False"
| "groups_exist (Fat_Tree_Read r s) = False"
| "groups_exist (Groups_Ready r s) = True"
| "groups_exist (Root_Built r s) = True"
| "groups_exist (Tree_Built s) = True"
| "groups_exist (Lost_Found_Built s) = True"
| "groups_exist (Finished s) = True"

abbreviation reading_inv :: "ext4_state \<Rightarrow> ext4_state \<Rightarrow> bool" where
  "reading_inv s t \<equiv> allocations (alloc s) (alloc t) \<and> fs_sb t = fs_sb s"

abbreviation writing_inv :: "fat_globals \<Rightarrow> ext4_state \<Rightarrow> ext4_state \<Rightarrow> bool" where
  "writing_inv g s t \<equiv> allocations (alloc s) (alloc t) \<and> layout_of (fs_sb t) = layout_of (fs_sb s)
     \<and> map group_places (fs_group_descs t) = map group_places (fs_group_descs (init_ext4_group_descs g s))"

definition point_ok :: "fat_globals \<Rightarrow> ext4_state \<Rightarrow> main_point \<Rightarrow> bool" where
  "point_ok g s p \<longleftrightarrow> (if groups_exist p then writing_inv g s (state_at p) else reading_inv s (state_at p))"

lemma init_ext4_group_descs_simps [simp]:
  "fs_sb (init_ext4_group_descs g s) = fs_sb s" "alloc (init_ext4_group_descs g s) = alloc s"
  by (simp_all add: init_ext4_group_descs_def Let_def)

lemma init_ext4_group_descs_cong:
  "fs_sb s = fs_sb t \<Longrightarrow> fs_group_descs (init_ext4_group_descs g s) = fs_group_descs (init_ext4_group_descs g t)"
  by (simp add: init_ext4_group_descs_def Let_def)

lemma main_step_ok:
  assumes "main_step g env junk p q" and "point_ok g s p"
  shows "point_ok g s q"
  using assms
proof (induction rule: main_step.induct)
  case (root_chain_step t r s1 w s2)
  have "reading_inv s t" using root_chain_step.prems by (simp add: point_ok_def)
  from yieldsD [OF reading.cutStreamArchiver_step [OF this] root_chain_step.hyps(1) [unfolded init_stream_archiver_def]]
  have "reading_inv s s1" by simp
  from ensuresD [OF reading.aggregate_extents_step [OF this] root_chain_step.hyps(2)]
  show ?case by (simp add: point_ok_def)
next
  case (traverse_step r w t w' t')
  have "reading_inv s t" using traverse_step.prems by (simp add: point_ok_def)
  from ensuresD [OF reading.traverse_step [OF this] traverse_step.hyps]
  show ?case by (simp add: point_ok_def)
next
  case (group_descs_step r t)
  then have "fs_sb t = fs_sb s" "allocations (alloc s) (alloc t)" by (simp_all add: point_ok_def)
  then show ?case using init_ext4_group_descs_cong [of t s g] by (simp add: point_ok_def)
next
  case (root_step t t' r)
  have "writing_inv g s t" using root_step.prems by (simp add: point_ok_def)
  from yieldsD [OF writing.reserved_inode_step(1) [OF this] root_step.hyps [unfolded build_ext4_root_def]]
  show ?case by (simp add: point_ok_def)
next
  case (tree_step r t r' t')
  have "writing_inv g s t" using tree_step.prems by (simp add: point_ok_def)
  from ensuresD [OF writing.build_ext4_metadata_tree_step [OF this] tree_step.hyps]
  show ?case by (simp add: point_ok_def)
next
  case (lost_found_step t t')
  have "writing_inv g s t" using lost_found_step.prems by (simp add: point_ok_def)
  from ensuresD [OF writing.build_lost_found_step [OF this] lost_found_step.hyps]
  show ?case by (simp add: point_ok_def)
next
  case (finalize_step t t')
  have "writing_inv g s t" using finalize_step.prems by (simp add: point_ok_def)
  from ensuresD [OF writing.finalize_step [OF this] finalize_step.hyps]
  show ?case by (simp add: point_ok_def)
qed

lemma reached_point_ok:
  "(main_step g env junk)\<^sup>*\<^sup>* (Prepared s) p \<Longrightarrow> point_ok g s p"
  by (induction rule: rtranclp_induct) (auto simp: point_ok_def [of g s "Prepared s"] no_allocation intro: main_step_ok)

lemma writing_inv_meta_bytes:
  assumes "writing_inv g s t"
  shows "meta_bytes g t = meta_bytes g (init_ext4_group_descs g s)"
proof -
  let ?ds = "fs_group_descs t" and ?es = "fs_group_descs (init_ext4_group_descs g s)"
  have m: "map group_places ?ds = map group_places ?es" using assms by simp
  then have l: "length ?ds = length ?es" by (rule map_eq_imp_length_eq)
  have "group_areas g (fs_sb t) (?ds ! i) = group_areas g (fs_sb s) (?es ! i)" if "i < length ?ds" for i
  proof (rule layout_of_areas)
    show "group_places (?ds ! i) = group_places (?es ! i)"
      using nth_map [of i ?ds group_places] nth_map [of i ?es group_places] m that l by simp
  qed (use assms in simp)
  then show ?thesis by (simp add: meta_bytes_def l)
qed

subsection \<open>The extents handed out\<close>

lemma alloc_all_snoc:
  "alloc_all f (ns @ [n]) s = bind_res (alloc_all f ns s) (\<lambda>r. bind_res (f n (snd r)) (\<lambda>q. Inr (fst r @ [fst q], snd q)))"
  by (induction ns arbitrary: s) (simp_all add: bind_res_assoc)

lemma allocations_list: "allocations a a' \<Longrightarrow> \<exists>ns es. alloc_all allocate_extent ns a = Inr (es, a')"
proof (induction rule: allocations.induct)
  case no_allocation
  have "alloc_all allocate_extent [] a = Inr ([], a)" by simp
  then show ?case by blast
next
  case (next_allocation b n e b')
  then obtain ns es where "alloc_all allocate_extent ns a = Inr (es, b)" by blast
  then have "alloc_all allocate_extent (ns @ [n]) a = Inr (es @ [e], b')"
    using next_allocation.hyps(2) by (simp add: alloc_all_snoc)
  then show ?case by blast
qed

lemma alloc_all_each:
  "alloc_all allocate_extent ns a = Inr (es, a') \<Longrightarrow> allocations a a'
     \<and> (\<forall>e \<in> set es. \<exists>n b b'. allocations a b \<and> allocate_extent n b = Inr (e, b'))"
proof (induction ns arbitrary: es a' rule: rev_induct)
  case (snoc n ns)
  then obtain es1 b e where "alloc_all allocate_extent ns a = Inr (es1, b)" "allocate_extent n b = Inr (e, a')" "es = es1 @ [e]"
    by (auto simp: alloc_all_snoc elim!: bind_resE)
  then show ?case using snoc.IH [of es1 b] by (auto intro: next_allocation)
qed (simp add: no_allocation)

lemma reached_extents:
  assumes run: "(main_step g env junk)\<^sup>*\<^sup>* (Prepared s) p"
    and blocked: "create_block_group_meta_extents g (fs_sb s) (block_group_count (fs_sb s)) = Inr blocked"
    and L: "layout_ok (fs_sb s)" and fits: "layout_fits g (fs_sb s) (block_group_count (fs_sb s))"
    and d: "2 \<le> unat (data_cluster_count g)" "unat (data_cluster_count g) < 2 ^ 31"
      "unat (data_cluster_count g) + unat (first_data_block g) < 2 ^ 32"
    and init: "init_extent_allocator g m blocked (block_group_count (fs_sb s)) a0 = Inr (alloc s)"
  shows "\<exists>ns es. alloc_all allocate_extent ns (alloc s) = Inr (es, alloc (state_at p))
    \<and> sorted_wrt (\<lambda>a b. extent_clusters a \<inter> extent_clusters b = {}) es
    \<and> (\<forall>e \<in> set es. \<forall>c. unat c \<in> extent_clusters e \<longrightarrow>
          2 \<le> c \<and> c < data_cluster_count g \<and> is_free_cluster (load_u32 m (fat_entry g c))
          \<and> (groups_exist p \<longrightarrow> block_bytes g (fs_sb s) (unat (fat_cl_to_e4blk g c)) \<inter> meta_bytes g (state_at p) = {}))"
proof -
  from init_extent_allocator_spec [OF blocked fits d(1,2), of m a0] init
  have a: "alloc_wf (alloc s)" and free: "\<forall>c < unat (data_cluster_count g). cluster_free (alloc s) c \<longleftrightarrow>
      2 \<le> c \<and> is_free_cluster (load_u32 m (fat_entry g (word_of_nat c)))" by auto
  have ok: "point_ok g s p" using run by (rule reached_point_ok)
  then have "allocations (alloc s) (alloc (state_at p))" by (simp add: point_ok_def split: if_splits)
  then obtain ns es where es: "alloc_all allocate_extent ns (alloc s) = Inr (es, alloc (state_at p))"
    using allocations_list by blast
  have "2 \<le> c \<and> c < data_cluster_count g \<and> is_free_cluster (load_u32 m (fat_entry g c))
      \<and> (groups_exist p \<longrightarrow> block_bytes g (fs_sb s) (unat (fat_cl_to_e4blk g c)) \<inter> meta_bytes g (state_at p) = {})"
    if e: "e \<in> set es" and c: "unat c \<in> extent_clusters e" for e c
  proof -
    obtain n b b' where later: "allocations (alloc s) b" "allocate_extent n b = Inr (e, b')"
      using alloc_all_each [OF es] e by blast
    note u = allocated_unblocked [OF blocked fits d(1,2) init later c]
    have "block_bytes g (fs_sb s) (unat (fat_cl_to_e4blk g c)) \<inter> meta_bytes g (init_ext4_group_descs g s) = {}"
      using u(2) d(3) by (intro unblocked_outside_metadata [OF blocked L fits u(1) _ u(3)]) linarith
    moreover have "meta_bytes g (state_at p) = meta_bytes g (init_ext4_group_descs g s)" if "groups_exist p"
      using ok that by (intro writing_inv_meta_bytes) (simp add: point_ok_def)
    moreover have "cluster_free (alloc s) (unat c)" using clusters.alloc_all_free [OF a es] e c by blast
    then have "is_free_cluster (load_u32 m (fat_entry g c))" using free u(2) by auto
    ultimately show ?thesis using u(1,2) by (simp add: word_le_nat_alt word_less_nat_alt)
  qed
  then show ?thesis using es clusters.alloc_all_disjoint [OF a es] by blast
qed


subsection \<open>A sample run\<close>

text \<open>The sample partition with a root directory that has no cluster: its first stage takes one cluster.\<close>

definition sample_rootless :: fat_globals where
  "sample_rootless = sample_globals\<lparr>boot_sector := sample_boot_sector\<lparr>bs_root_cluster_no := 0\<rparr>\<rparr>"

lemma sample_rootless_layout:
  "data_cluster_count sample_rootless = 65925" "first_data_block sample_rootless = 133"
  "fat_entry sample_rootless c = fat_entry sample_globals c"
  "cluster_start sample_rootless c = cluster_start sample_globals c"
  by (simp_all add: sample_rootless_def sample_globals_def sample_boot_sector_def data_cluster_count_def
      sector_count_def first_data_block_def fat_entry_def cluster_start_def FAT_START_INDEX_def)

lemma sample_rootless_fits: "layout_fits sample_rootless sample_super_block 3"
  using sample_layout_fits by (simp add: layout_fits_def sample_rootless_layout sample_layout sample_first_data_block)

lemma sample_rootless_meta_extents:
  "create_block_group_meta_extents sample_rootless sample_super_block 3 = Inr sample_meta_extents"
  by (simp add: create_block_group_meta_extents_def block_group_meta_extent_def sample_layout upt_rec
      e4blk_to_fat_cl_def sample_rootless_layout sample_meta_extents_def FAT_START_INDEX_def)

definition sample_rootless_partition :: memory where
  "sample_rootless_partition = sample_partition(65580 := 0)"

lemma sample_rootless_read: "read_boot_sector sample_rootless_partition 65536 sample_globals = sample_rootless"
proof -
  have "load_boot_sector sample_rootless_partition 65536 = sample_boot_sector\<lparr>bs_root_cluster_no := 0\<rparr>"
    by (simp add: load_boot_sector_def sample_boot_sector_def sample_rootless_partition_def sample_partition_def
        sample_boot_bytes_def load_u8_def load_u16_def load_u32_def load_u64_def load_bytes_def load_le_bytes
        replicate_sample sample_reserved)
  then show ?thesis by (simp add: read_boot_sector_def sample_rootless_def)
qed

lemma sample_rootless_info: "set_meta_info 65536 sample_rootless = Inr sample_rootless"
  using sample_set_meta_info by (auto simp: set_meta_info_def sample_rootless_def sample_globals_def Let_def split: if_splits)

lemma sample_rootless_fields:
  "bs_bytes_per_sector (boot_sector sample_rootless) = bs_bytes_per_sector (boot_sector sample_globals)"
  "bs_sectors_per_cluster (boot_sector sample_rootless) = bs_sectors_per_cluster (boot_sector sample_globals)"
  "sector_count sample_rootless = sector_count sample_globals"
  "mi_sectors_before_data (meta_info sample_rootless) = mi_sectors_before_data (meta_info sample_globals)"
  "read_volume_label sample_rootless = read_volume_label sample_globals"
  by (simp_all add: sector_count_def read_volume_label_def sample_rootless_def sample_globals_def)

lemma sample_rootless_sb: "init_ext4_sb 1000 sample_uuid sample_rootless = Inr sample_super_block"
  using sample_init_ext4_sb by (simp only: init_ext4_sb_def Let_def sample_rootless_fields)

lemma sample_rootless_geometry: "geometry_ok sample_rootless sample_super_block"
  using sample_geometry_ok
  by (simp only: geometry_ok_def bytes_per_block_def partition_blocks_def sample_rootless_fields)

lemma sample_rootless_prepare:
  "\<exists>s. prepare sample_environment sample_uuid 65536 sample_globals sample_alloc sample_rootless_partition = Inr (sample_rootless, s)
     \<and> fs_sb s = sample_super_block \<and> (\<exists>e a. allocate_extent 1 (alloc s) = Inr (e, a))"
proof -
  obtain a1 where a1: "init_extent_allocator sample_rootless sample_rootless_partition sample_meta_extents 3 sample_alloc = Inr a1"
    "alloc_wf a1" "blocked_extents (allocator a1) = sample_meta_extents"
    "blocked_start a1 (extent_count a1) = unat (data_cluster_count sample_rootless)"
    "\<forall>c < unat (data_cluster_count sample_rootless). cluster_free a1 c \<longleftrightarrow>
         2 \<le> c \<and> is_free_cluster (load_u32 sample_rootless_partition (fat_entry sample_rootless (word_of_nat c)))"
    using init_extent_allocator_spec [OF sample_rootless_meta_extents sample_rootless_fits, of sample_rootless_partition sample_alloc]
    by (auto simp: sample_rootless_layout)
  have n: "extent_count a1 = 3" "index a1 = 0"
    using a1(1) by (auto simp: init_extent_allocator_def extent_count_def index_def bind_res_eq_Inr)
  have "load_u32 sample_rootless_partition (fat_entry sample_rootless 400) = 0"
    by (simp add: load_u32_def load_le_bytes sample_rootless_partition_def sample_partition_def fat_entry_def
        sample_rootless_def sample_globals_def)
  then have "cluster_free a1 400" using a1(5) by (simp add: sample_rootless_layout is_free_cluster_def FREE_CLUSTER_def)
  moreover have "\<not> stepped_over a1 400"
    by (simp add: stepped_over_def n a1(3) sample_meta_extents_def extent_end_def)
  ultimately have "usable a1 400" by (simp add: usable_def n(2) a1(4) sample_rootless_layout)
  then have "\<exists>e a. allocate_extent 1 a1 = Inr (e, a)" using allocate_one_iff [OF a1(2)] by blast
  then show ?thesis
    by (simp add: prepare_def sample_rootless_read sample_rootless_info sample_rootless_sb sample_layout
        sample_rootless_meta_extents a1(1) sample_environment_def)
qed

lemma sample_rootless_step:
  assumes "allocate_extent 1 (alloc s) = Inr (e, a)"
  shows "\<exists>r w t. main_step sample_rootless env junk (Prepared s) (Root_Chain_Read r w t) \<and> alloc t = a"
proof -
  have ps: "mi_cluster_size (meta_info sample_rootless) = 4096" and root: "bs_root_cluster_no (boot_sector sample_rootless) = 0"
    by (simp_all add: sample_rootless_def sample_globals_def)
  have "0 < cluster_start sample_rootless c" for c
    by (simp add: cluster_start_def sample_rootless_def sample_globals_def)
  then show ?thesis
    by (simp add: main_step_simps init_stream_archiver_def cutStreamArchiver_def allocatePage_def assms
        iterateStreamArchiver_def iterate_advance_def sizeof_header_def sizeof_page_def aggregate_extents_def
        ps root Let_def)
qed


end
