(* ===== verification/Partition.thy ===== *)
theory Partition
  imports Conversion
begin

section \<open>partition.cpp and ofs-convert.cpp: the mapped partition and the whole program\<close>

text \<open>
  The system calls are the fields of a record \<open>os\<close> over a type \<open>'k\<close> of system states that is left
  open; nothing about them is defined here. Integers are in the widths of the 64-bit Linux
  interface: an \<open>int\<close> descriptor is a \<open>32 word\<close> read as signed, pointers are addresses of
  \<^typ>\<open>memory\<close>. What the program relies on of the calls is collected in \<open>os_laws\<close> and is a hypothesis of
  the theorems that need it.
\<close>

subsection \<open>Data\<close>

record file_stat =
  st_mode :: u32
  st_size :: u64

record partition =
  pt_path :: string
  pt_mmapFlags :: u32
  pt_file :: u32
  pt_fileStat :: file_stat
  pt_ptr :: nat

record 'k os =
  os_open :: "string \<Rightarrow> u32 \<Rightarrow> u32 \<Rightarrow> 'k \<Rightarrow> u32 \<times> 'k"
  os_fstat :: "u32 \<Rightarrow> 'k \<Rightarrow> file_stat option \<times> 'k"
  os_blkgetsize64 :: "u32 \<Rightarrow> 'k \<Rightarrow> u64 option \<times> 'k"
  os_mmap :: "nat \<Rightarrow> u64 \<Rightarrow> u32 \<Rightarrow> u32 \<Rightarrow> u32 \<Rightarrow> u64 \<Rightarrow> 'k \<Rightarrow> nat \<times> 'k"
  os_munmap :: "nat \<Rightarrow> u64 \<Rightarrow> 'k \<Rightarrow> bool \<times> 'k"
  os_close :: "u32 \<Rightarrow> 'k \<Rightarrow> 'k"
  os_message :: "string \<Rightarrow> 'k \<Rightarrow> 'k"
  os_memory :: "'k \<Rightarrow> memory"
  os_store :: "memory \<Rightarrow> 'k \<Rightarrow> 'k"

text \<open>Constants of the system headers.\<close>

definition O_RDWR :: u32 where "O_RDWR = 0x2"
definition O_CREAT :: u32 where "O_CREAT = 0x40"
definition MAP_SHARED :: u32 where "MAP_SHARED = 0x1"
definition MAP_PRIVATE :: u32 where "MAP_PRIVATE = 0x2"
definition MAP_FILE :: u32 where "MAP_FILE = 0"
definition MAP_ANON :: u32 where "MAP_ANON = 0x20"
definition PROT_READ :: u32 where "PROT_READ = 0x1"
definition PROT_WRITE :: u32 where "PROT_WRITE = 0x2"
definition MAP_FAILED :: nat where "MAP_FAILED = 2 ^ 64 - 1"

definition S_ISREG :: "u32 \<Rightarrow> bool" where "S_ISREG mode \<longleftrightarrow> and mode 0xF000 = 0x8000"
definition S_ISBLK :: "u32 \<Rightarrow> bool" where "S_ISBLK mode \<longleftrightarrow> and mode 0xF000 = 0x6000"
definition S_ISCHR :: "u32 \<Rightarrow> bool" where "S_ISCHR mode \<longleftrightarrow> and mode 0xF000 = 0x2000"

subsection \<open>Opening and closing\<close>

text \<open>The end of \<open>openPartition\<close>: mapping the file, whatever it is.\<close>

definition map_partition :: "'k os \<Rightarrow> partition \<Rightarrow> 'k \<Rightarrow> bool \<times> partition \<times> 'k" where
  "map_partition os pt k =
     (let (p, k1) = os_mmap os 0 (st_size (pt_fileStat pt)) (or PROT_READ PROT_WRITE)
            (pt_mmapFlags pt) (pt_file pt) 0 k;
          pt1 = pt\<lparr>pt_ptr := p\<rparr>
      in if p = MAP_FAILED then (False, pt1, os_message os ''mmap'' k1) else (True, pt1, k1))"

text \<open>
  The size of the opened file: that of a regular file is in its status, a device is asked for it.
  \<open>count\<close> stays 1 on Linux.
\<close>

definition partition_size :: "'k os \<Rightarrow> partition \<Rightarrow> 'k \<Rightarrow> bool \<times> partition \<times> 'k" where
  "partition_size os pt k =
     (if S_ISREG (st_mode (pt_fileStat pt)) then (True, pt, k)
      else if S_ISBLK (st_mode (pt_fileStat pt)) \<or> S_ISCHR (st_mode (pt_fileStat pt))
      then (let count = 1 in
            case os_blkgetsize64 os (pt_file pt) k of
              (None, k1) \<Rightarrow> (False, pt, os_message os ''ioctl'' k1)
            | (Some n, k1) \<Rightarrow> (True, pt\<lparr>pt_fileStat := (pt_fileStat pt)\<lparr>st_size := n * count\<rparr>\<rparr>, k1))
      else (False, pt, os_message os ''Path must be /dev/zero, a file or a device.'' k))"

definition open_file :: "'k os \<Rightarrow> partition \<Rightarrow> 'k \<Rightarrow> bool \<times> partition \<times> 'k" where
  "open_file os pt k =
     (let (fd, k1) = os_open os (pt_path pt) (or O_RDWR O_CREAT) 0x1B6 k;
          pt1 = pt\<lparr>pt_mmapFlags := or (pt_mmapFlags pt) (or MAP_SHARED MAP_FILE), pt_file := fd\<rparr>
      in if fd <s 0 then (False, pt1, os_message os ''open'' k1)
         else (case os_fstat os fd k1 of
             (None, k2) \<Rightarrow> (False, pt1, os_message os ''fstat'' k2)
           | (Some st, k2) \<Rightarrow> partition_size os (pt1\<lparr>pt_fileStat := st\<rparr>) k2))"

definition openPartition :: "'k os \<Rightarrow> partition \<Rightarrow> 'k \<Rightarrow> bool \<times> partition \<times> 'k" where
  "openPartition os pt k =
     (if pt_path pt = ''/dev/zero''
      then map_partition os (pt\<lparr>pt_mmapFlags := or (pt_mmapFlags pt) (or MAP_PRIVATE MAP_ANON), pt_file := - 1\<rparr>) k
      else (let (ok, pt1, k1) = open_file os pt k
            in if ok then map_partition os pt1 k1 else (False, pt1, k1)))"

definition closePartition :: "'k os \<Rightarrow> partition \<Rightarrow> 'k \<Rightarrow> partition \<times> 'k" where
  "closePartition os pt k =
     (let (ok, k1) = os_munmap os (pt_ptr pt) (st_size (pt_fileStat pt)) k;
          k2 = (if ok then k1 else os_message os ''munmap'' k1)
      in (pt\<lparr>pt_file := - 1, pt_ptr := 0\<rparr>, os_close os (pt_file pt) k2))"

subsection \<open>main\<close>

text \<open>
  \<open>main\<close> returns a status, or the conversion ends the process with an error. Without an argument
  it exits with status 1. In the build without \<open>VISUALIZER\<close> the last call of \<open>main\<close> does nothing.
\<close>

datatype 'k outcome = Returned nat 'k | Stopped error

definition initial_partition :: "string \<Rightarrow> partition" where
  "initial_partition path =
     \<lparr>pt_path = path, pt_mmapFlags = 0, pt_file = 0, pt_fileStat = \<lparr>st_mode = 0, st_size = 0\<rparr>, pt_ptr = 0\<rparr>"

definition main ::
  "'k os \<Rightarrow> environment \<Rightarrow> junk \<Rightarrow> u8 list \<Rightarrow> fat_globals \<Rightarrow> alloc_state \<Rightarrow> string list \<Rightarrow> 'k \<Rightarrow> 'k outcome option" where
  "main os env junk uuid g0 a0 argv k =
     (if length argv < 2 then Some (Returned 1 (os_message os ''Wrong usage'' k))
      else (let (ok, pt, k1) = openPartition os (initial_partition (argv ! 1)) k
            in if \<not> ok then Some (Returned 1 (os_message os ''Failed to open partition'' k1))
               else (case convert env junk uuid (pt_ptr pt) g0 a0 (os_memory os k1) of
                   None \<Rightarrow> None
                 | Some (Inl e) \<Rightarrow> Some (Stopped e)
                 | Some (Inr s) \<Rightarrow>
                     Some (Returned 0 (snd (closePartition os pt (os_store os (mem s) k1)))))))"

subsection \<open>What the program relies on of the system\<close>

text \<open>
  A view of the system's state: the bytes of the files and devices by name, the files behind the
  open descriptors, and the shared mappings with their address, length and file.
\<close>

record 'k os_view =
  vw_files :: "'k \<Rightarrow> string \<Rightarrow> u8 list"
  vw_open :: "'k \<Rightarrow> u32 \<Rightarrow> string option"
  vw_maps :: "'k \<Rightarrow> (nat \<times> nat \<times> string) set"

definition same_maps :: "'k os \<Rightarrow> 'k os_view \<Rightarrow> 'k \<Rightarrow> 'k \<Rightarrow> bool" where
  "same_maps os v k k' \<longleftrightarrow> vw_files v k' = vw_files v k \<and> vw_maps v k' = vw_maps v k
     \<and> os_memory os k' = os_memory os k"

definition same_system :: "'k os \<Rightarrow> 'k os_view \<Rightarrow> 'k \<Rightarrow> 'k \<Rightarrow> bool" where
  "same_system os v k k' \<longleftrightarrow> same_maps os v k k' \<and> vw_open v k' = vw_open v k"

text \<open>Descriptors: \<open>open\<close> gives a new one or a negative number, \<open>close\<close> gives it back.\<close>

definition descriptor_laws :: "'k os \<Rightarrow> 'k os_view \<Rightarrow> bool" where
  "descriptor_laws os v \<longleftrightarrow>
     (\<forall>path flags mode k fd k'. os_open os path flags mode k = (fd, k') \<longrightarrow>
        same_maps os v k k' \<and>
        (fd <s 0 \<longrightarrow> vw_open v k' = vw_open v k) \<and>
        (\<not> fd <s 0 \<longrightarrow> vw_open v k fd = None \<and> vw_open v k' = (vw_open v k)(fd \<mapsto> path))) \<and>
     (\<forall>fd k. same_maps os v k (os_close os fd k)
        \<and> vw_open v (os_close os fd k) = (vw_open v k)(fd := None))"

text \<open>The status of a regular file and the \<open>ioctl\<close> on a device tell the number of their bytes.\<close>

definition size_laws :: "'k os \<Rightarrow> 'k os_view \<Rightarrow> bool" where
  "size_laws os v \<longleftrightarrow>
     (\<forall>fd k r k'. os_fstat os fd k = (r, k') \<longrightarrow> same_system os v k k' \<and>
        (\<forall>st path. r = Some st \<and> S_ISREG (st_mode st) \<and> vw_open v k fd = Some path \<longrightarrow>
           unat (st_size st) = length (vw_files v k path))) \<and>
     (\<forall>fd k r k'. os_blkgetsize64 os fd k = (r, k') \<longrightarrow> same_system os v k k' \<and>
        (\<forall>n path. r = Some n \<and> vw_open v k fd = Some path \<longrightarrow> unat n = length (vw_files v k path)))"

text \<open>
  A mapping has at least one byte. A shared mapping of a whole file shows its bytes in memory, and
  what is stored in a memory in which it is the only mapping goes to the file. A mapping can be
  removed.
\<close>

definition mapping_laws :: "'k os \<Rightarrow> 'k os_view \<Rightarrow> bool" where
  "mapping_laws os v \<longleftrightarrow>
     (\<forall>n prot flags fd k p k'. os_mmap os 0 n prot flags fd 0 k = (p, k') \<longrightarrow>
        vw_files v k' = vw_files v k \<and> vw_open v k' = vw_open v k \<and>
        (p = MAP_FAILED \<longrightarrow> vw_maps v k' = vw_maps v k) \<and>
        (p \<noteq> MAP_FAILED \<longrightarrow> n \<noteq> 0) \<and>
        (\<forall>path. p \<noteq> MAP_FAILED \<and> flags = MAP_SHARED \<and> prot = or PROT_READ PROT_WRITE
            \<and> vw_open v k fd = Some path \<and> unat n = length (vw_files v k path) \<longrightarrow>
          vw_maps v k' = insert (p, unat n, path) (vw_maps v k) \<and>
          load_bytes (os_memory os k') p (unat n) = vw_files v k path)) \<and>
     (\<forall>p n k ok k'. os_munmap os p n k = (ok, k') \<longrightarrow>
        vw_files v k' = vw_files v k \<and> vw_open v k' = vw_open v k \<and>
        (\<forall>path. (p, unat n, path) \<in> vw_maps v k \<longrightarrow> ok \<and> vw_maps v k' = vw_maps v k - {(p, unat n, path)})) \<and>
     (\<forall>m k. vw_open v (os_store os m k) = vw_open v k \<and> vw_maps v (os_store os m k) = vw_maps v k \<and>
        (\<forall>p n path. vw_maps v k = {(p, n, path)} \<and> n = length (vw_files v k path) \<longrightarrow>
           vw_files v (os_store os m k) = (vw_files v k)(path := load_bytes m p n)))"

definition os_laws :: "'k os \<Rightarrow> 'k os_view \<Rightarrow> bool" where
  "os_laws os v \<longleftrightarrow> descriptor_laws os v \<and> size_laws os v \<and> mapping_laws os v
     \<and> (\<forall>text k. same_system os v k (os_message os text k))"

lemma same_system_refl [simp]: "same_system os v k k" "same_maps os v k k"
  by (simp_all add: same_system_def same_maps_def)

lemma same_system_trans [trans]:
  "same_system os v k k1 \<Longrightarrow> same_system os v k1 k2 \<Longrightarrow> same_system os v k k2"
  by (simp add: same_system_def same_maps_def)

lemma same_maps_trans [trans]:
  "same_maps os v k k1 \<Longrightarrow> same_maps os v k1 k2 \<Longrightarrow> same_maps os v k k2"
  by (simp add: same_maps_def)

lemma same_system_maps: "same_system os v k k' \<Longrightarrow> same_maps os v k k'"
  by (simp add: same_system_def)

lemma os_message_same: "os_laws os v \<Longrightarrow> same_system os v k (os_message os text k)"
  by (simp add: os_laws_def)

lemma os_open_law:
  assumes "os_laws os v" "os_open os path flags mode k = (fd, k')"
  shows "same_maps os v k k'" "\<not> fd <s 0 \<Longrightarrow> vw_open v k fd = None \<and> vw_open v k' = (vw_open v k)(fd \<mapsto> path)"
  using assms unfolding os_laws_def descriptor_laws_def by blast+

lemma os_close_law:
  assumes "os_laws os v"
  shows "same_maps os v k (os_close os fd k)" "vw_open v (os_close os fd k) = (vw_open v k)(fd := None)"
  using assms by (simp_all add: os_laws_def descriptor_laws_def)

lemma os_fstat_law:
  assumes "os_laws os v" "os_fstat os fd k = (r, k')"
  shows "same_system os v k k'"
    "\<lbrakk>r = Some st; S_ISREG (st_mode st); vw_open v k fd = Some path\<rbrakk> \<Longrightarrow> unat (st_size st) = length (vw_files v k path)"
  using assms unfolding os_laws_def size_laws_def by blast+

lemma os_blkgetsize64_law:
  assumes "os_laws os v" "os_blkgetsize64 os fd k = (r, k')"
  shows "same_system os v k k'"
    "\<lbrakk>r = Some n; vw_open v k fd = Some path\<rbrakk> \<Longrightarrow> unat n = length (vw_files v k path)"
  using assms unfolding os_laws_def size_laws_def by blast+

lemma os_mmap_law:
  assumes "os_laws os v" "os_mmap os 0 n prot flags fd 0 k = (p, k')"
  shows "vw_files v k' = vw_files v k" "vw_open v k' = vw_open v k"
    "p = MAP_FAILED \<Longrightarrow> vw_maps v k' = vw_maps v k" "p \<noteq> MAP_FAILED \<Longrightarrow> n \<noteq> 0"
    "\<lbrakk>p \<noteq> MAP_FAILED; flags = MAP_SHARED; prot = or PROT_READ PROT_WRITE; vw_open v k fd = Some path;
      unat n = length (vw_files v k path)\<rbrakk> \<Longrightarrow>
     vw_maps v k' = insert (p, unat n, path) (vw_maps v k) \<and> load_bytes (os_memory os k') p (unat n) = vw_files v k path"
proof -
  have "\<forall>n prot flags fd k p k'. os_mmap os 0 n prot flags fd 0 k = (p, k') \<longrightarrow>
        vw_files v k' = vw_files v k \<and> vw_open v k' = vw_open v k \<and>
        (p = MAP_FAILED \<longrightarrow> vw_maps v k' = vw_maps v k) \<and>
        (p \<noteq> MAP_FAILED \<longrightarrow> n \<noteq> 0) \<and>
        (\<forall>path. p \<noteq> MAP_FAILED \<and> flags = MAP_SHARED \<and> prot = or PROT_READ PROT_WRITE
            \<and> vw_open v k fd = Some path \<and> unat n = length (vw_files v k path) \<longrightarrow>
          vw_maps v k' = insert (p, unat n, path) (vw_maps v k) \<and>
          load_bytes (os_memory os k') p (unat n) = vw_files v k path)"
    using assms(1) unfolding os_laws_def mapping_laws_def by (elim conjE)
  note this [rule_format, OF assms(2)]
  then show "vw_files v k' = vw_files v k" "vw_open v k' = vw_open v k"
    "p = MAP_FAILED \<Longrightarrow> vw_maps v k' = vw_maps v k" "p \<noteq> MAP_FAILED \<Longrightarrow> n \<noteq> 0"
    "\<lbrakk>p \<noteq> MAP_FAILED; flags = MAP_SHARED; prot = or PROT_READ PROT_WRITE; vw_open v k fd = Some path;
      unat n = length (vw_files v k path)\<rbrakk> \<Longrightarrow>
     vw_maps v k' = insert (p, unat n, path) (vw_maps v k) \<and> load_bytes (os_memory os k') p (unat n) = vw_files v k path"
    by blast+
qed

lemma os_munmap_law:
  assumes "os_laws os v" "os_munmap os p n k = (ok, k')"
  shows "vw_files v k' = vw_files v k" "vw_open v k' = vw_open v k"
    "(p, unat n, path) \<in> vw_maps v k \<Longrightarrow> ok \<and> vw_maps v k' = vw_maps v k - {(p, unat n, path)}"
  using assms unfolding os_laws_def mapping_laws_def by blast+

lemma os_store_law:
  assumes "os_laws os v"
  shows "vw_open v (os_store os m k) = vw_open v k" "vw_maps v (os_store os m k) = vw_maps v k"
    "\<lbrakk>vw_maps v k = {(p, n, path)}; n = length (vw_files v k path)\<rbrakk> \<Longrightarrow>
     vw_files v (os_store os m k) = (vw_files v k)(path := load_bytes m p n)"
  using assms unfolding os_laws_def mapping_laws_def by blast+

subsection \<open>What opening and closing do\<close>

text \<open>The whole file is mapped at the address in \<open>pt\<close>, through the descriptor in \<open>pt\<close>.\<close>

definition partition_mapped :: "'k os \<Rightarrow> 'k os_view \<Rightarrow> partition \<Rightarrow> 'k \<Rightarrow> 'k \<Rightarrow> bool" where
  "partition_mapped os v pt k k' \<longleftrightarrow>
     (let file = vw_files v k (pt_path pt); n = length file
      in 0 < n \<and> unat (st_size (pt_fileStat pt)) = n
         \<and> vw_open v k (pt_file pt) = None \<and> vw_open v k' = (vw_open v k)(pt_file pt \<mapsto> pt_path pt)
         \<and> vw_maps v k' = insert (pt_ptr pt, n, pt_path pt) (vw_maps v k)
         \<and> load_bytes (os_memory os k') (pt_ptr pt) n = file)"

definition file_or_device :: "partition \<Rightarrow> bool" where
  "file_or_device pt \<longleftrightarrow> S_ISREG (st_mode (pt_fileStat pt)) \<or> S_ISBLK (st_mode (pt_fileStat pt))
     \<or> S_ISCHR (st_mode (pt_fileStat pt))"

definition file_opened :: "'k os_view \<Rightarrow> 'k \<Rightarrow> partition \<Rightarrow> partition \<Rightarrow> 'k \<Rightarrow> bool" where
  "file_opened v k pt pt' k' \<longleftrightarrow>
     vw_open v k (pt_file pt') = None \<and> vw_open v k' = (vw_open v k)(pt_file pt' \<mapsto> pt_path pt)
     \<and> unat (st_size (pt_fileStat pt')) = length (vw_files v k (pt_path pt))
     \<and> pt_mmapFlags pt' = or (pt_mmapFlags pt) (or MAP_SHARED MAP_FILE) \<and> file_or_device pt'"

lemma partition_size_spec:
  assumes laws: "os_laws os v" and eq: "partition_size os pt k = (ok, pt', k')"
    and path: "vw_open v k (pt_file pt) = Some path"
    and reg: "S_ISREG (st_mode (pt_fileStat pt)) \<Longrightarrow> unat (st_size (pt_fileStat pt)) = length (vw_files v k path)"
  shows "same_system os v k k'" "ok \<Longrightarrow> unat (st_size (pt_fileStat pt')) = length (vw_files v k path)"
    "pt_file pt' = pt_file pt \<and> pt_path pt' = pt_path pt \<and> pt_mmapFlags pt' = pt_mmapFlags pt"
    "ok \<Longrightarrow> file_or_device pt'"
proof -
  obtain r k1 where io: "os_blkgetsize64 os (pt_file pt) k = (r, k1)" by (cases "os_blkgetsize64 os (pt_file pt) k")
  note io_laws = os_blkgetsize64_law [OF laws io]
  show "same_system os v k k'"
    using eq io io_laws(1) same_system_trans [OF _ os_message_same [OF laws]] os_message_same [OF laws]
    by (auto simp: partition_size_def Let_def split: if_splits option.splits)
  show "unat (st_size (pt_fileStat pt')) = length (vw_files v k path)" if ok
    using that eq io io_laws(2) path reg by (auto simp: partition_size_def Let_def split: if_splits option.splits)
  show "pt_file pt' = pt_file pt \<and> pt_path pt' = pt_path pt \<and> pt_mmapFlags pt' = pt_mmapFlags pt"
    using eq io by (auto simp: partition_size_def Let_def split: if_splits option.splits)
  show "file_or_device pt'" if ok
    using that eq io by (auto simp: partition_size_def file_or_device_def Let_def split: if_splits option.splits)
qed

lemma open_file_spec:
  assumes laws: "os_laws os v" and eq: "open_file os pt k = (ok, pt', k')"
  shows "same_maps os v k k'" "pt_path pt' = pt_path pt"
    "ok \<Longrightarrow> file_opened v k pt pt' k'"
proof -
  define pt1 where "pt1 = (\<lambda>fd. pt\<lparr>pt_mmapFlags := or (pt_mmapFlags pt) (or MAP_SHARED MAP_FILE), pt_file := fd\<rparr>)"
  obtain fd k1 where o: "os_open os (pt_path pt) (or O_RDWR O_CREAT) 0x1B6 k = (fd, k1)" by fastforce
  obtain r k2 where st: "os_fstat os fd k1 = (r, k2)" by fastforce
  note ol = os_open_law [OF laws o]
  note sl = os_fstat_law [OF laws st]
  note msg = os_message_same [OF laws]
  have maps2: "same_maps os v k k2" using ol(1) same_system_maps [OF sl(1)] by (rule same_maps_trans)
  have "same_maps os v k k' \<and> pt_path pt' = pt_path pt \<and>
(ok \<longrightarrow> file_opened v k pt pt' k')"
  proof (cases "fd <s 0 \<or> r = None")
    case True
    then have "ok = False" "pt' = pt1 fd" and k': "k' = os_message os ''open'' k1 \<or> k' = os_message os ''fstat'' k2"
      using eq by (auto simp: open_file_def Let_def o st pt1_def split: if_splits)
    moreover have "same_maps os v k (os_message os t k1)" "same_maps os v k (os_message os t k2)" for t
      using same_maps_trans [OF ol(1) same_system_maps [OF msg]] same_maps_trans [OF maps2 same_system_maps [OF msg]] by auto
    ultimately show ?thesis by (auto simp: pt1_def)
  next
    case False
    then obtain stat where r: "r = Some stat" and fd: "\<not> fd <s 0" by auto
    then have ps: "partition_size os ((pt1 fd)\<lparr>pt_fileStat := stat\<rparr>) k2 = (ok, pt', k')"
      using eq by (simp add: open_file_def Let_def o st pt1_def)
    have files: "vw_files v k1 = vw_files v k" "vw_files v k2 = vw_files v k" using ol(1) maps2 by (simp_all add: same_maps_def)
    have opened: "vw_open v k2 = (vw_open v k)(fd \<mapsto> pt_path pt)" using sl(1) ol(2) fd by (simp add: same_system_def)
    have reg: "unat (st_size stat) = length (vw_files v k (pt_path pt))" if "S_ISREG (st_mode stat)"
      using sl(2) [OF r that, of "pt_path pt"] ol(2) fd files by simp
    note pl = partition_size_spec [OF laws ps, of "pt_path pt"]
    have p: "same_system os v k2 k'" "pt_file pt' = fd \<and> pt_path pt' = pt_path pt \<and> pt_mmapFlags pt' = pt_mmapFlags (pt1 fd)"
      using pl(1,3) opened reg files by (simp_all add: pt1_def)
    have "same_maps os v k k'" using maps2 same_system_maps [OF p(1)] by (rule same_maps_trans)
    then show ?thesis
      using p pl(2,4) ol(2) fd opened reg files by (simp add: pt1_def same_system_def file_opened_def)
  qed
  then show "same_maps os v k k'" "pt_path pt' = pt_path pt"
    "ok \<Longrightarrow> file_opened v k pt pt' k'"
    by blast+
qed

lemma map_partition_spec:
  assumes laws: "os_laws os v" and eq: "map_partition os pt k = (ok, pt', k')"
  shows "vw_files v k' = vw_files v k" "vw_open v k' = vw_open v k"
    "\<not> ok \<Longrightarrow> vw_maps v k' = vw_maps v k" "ok \<Longrightarrow> st_size (pt_fileStat pt) \<noteq> 0"
    "\<exists>p. pt' = pt\<lparr>pt_ptr := p\<rparr>"
    "\<lbrakk>ok; pt_mmapFlags pt = MAP_SHARED; vw_open v k (pt_file pt) = Some path;
      unat (st_size (pt_fileStat pt)) = length (vw_files v k path)\<rbrakk> \<Longrightarrow>
     vw_maps v k' = insert (pt_ptr pt', length (vw_files v k path), path) (vw_maps v k)
     \<and> load_bytes (os_memory os k') (pt_ptr pt') (length (vw_files v k path)) = vw_files v k path"
proof -
  obtain p k1 where mm: "os_mmap os 0 (st_size (pt_fileStat pt)) (or PROT_READ PROT_WRITE) (pt_mmapFlags pt) (pt_file pt) 0 k = (p, k1)"
    by fastforce
  note l = os_mmap_law [OF laws mm]
  have msg: "same_system os v k1 (os_message os ''mmap'' k1)" using laws by (rule os_message_same)
  have e: "ok = (p \<noteq> MAP_FAILED)" "pt' = pt\<lparr>pt_ptr := p\<rparr>" "k' = (if ok then k1 else os_message os ''mmap'' k1)"
    using eq by (auto simp: map_partition_def Let_def mm split: if_splits)
  show "vw_files v k' = vw_files v k" "vw_open v k' = vw_open v k"
    "\<not> ok \<Longrightarrow> vw_maps v k' = vw_maps v k" "ok \<Longrightarrow> st_size (pt_fileStat pt) \<noteq> 0" "\<exists>p. pt' = pt\<lparr>pt_ptr := p\<rparr>"
    using l(1-4) msg e by (auto simp: same_system_def same_maps_def)
  show "vw_maps v k' = insert (pt_ptr pt', length (vw_files v k path), path) (vw_maps v k)
     \<and> load_bytes (os_memory os k') (pt_ptr pt') (length (vw_files v k path)) = vw_files v k path"
    if "ok" "pt_mmapFlags pt = MAP_SHARED" "vw_open v k (pt_file pt) = Some path"
      "unat (st_size (pt_fileStat pt)) = length (vw_files v k path)"
    using l(5) [of path] that e by simp
qed

lemma openPartition_spec:
  assumes laws: "os_laws os v" and eq: "openPartition os (initial_partition path) k = (ok, pt, k')"
  shows "vw_files v k' = vw_files v k" "pt_path pt = path" "\<not> ok \<Longrightarrow> vw_maps v k' = vw_maps v k"
    "ok \<Longrightarrow> path \<noteq> ''/dev/zero'' \<and> file_or_device pt \<and> partition_mapped os v pt k k'"
proof -
  let ?pt0 = "initial_partition path"
  have "vw_files v k' = vw_files v k \<and> pt_path pt = path \<and> (\<not> ok \<longrightarrow> vw_maps v k' = vw_maps v k)
    \<and> (ok \<longrightarrow> path \<noteq> ''/dev/zero'' \<and> file_or_device pt \<and> partition_mapped os v pt k k')"
  proof (cases "path = ''/dev/zero''")
    case True
    then have "map_partition os (?pt0\<lparr>pt_mmapFlags := or 0 (or MAP_PRIVATE MAP_ANON), pt_file := - 1\<rparr>) k = (ok, pt, k')"
      using eq by (simp add: openPartition_def initial_partition_def)
    note m = map_partition_spec [OF laws this]
    have "\<not> ok" using m(4) by (auto simp: initial_partition_def)
    then show ?thesis using m(1,3,5) by (auto simp: initial_partition_def)
  next
    case False
    obtain ok1 pt1 k1 where o: "open_file os ?pt0 k = (ok1, pt1, k1)" by (metis prod_cases3)
    note f = open_file_spec [OF laws o]
    have fs: "vw_files v k1 = vw_files v k" "vw_maps v k1 = vw_maps v k" "pt_path pt1 = path"
      using f(1,2) by (simp_all add: same_maps_def initial_partition_def)
    show ?thesis
    proof (cases ok1)
      case False
      then have "ok = False" "pt = pt1" "k' = k1"
        using eq \<open>path \<noteq> _\<close> o by (simp_all add: openPartition_def initial_partition_def)
      then show ?thesis using fs by simp
    next
      case True
      then have mp: "map_partition os pt1 k1 = (ok, pt, k')"
        using eq \<open>path \<noteq> _\<close> o by (simp add: openPartition_def initial_partition_def)
      note m = map_partition_spec [OF laws mp]
      have opened: "file_opened v k ?pt0 pt1 k1" using f(3) True .
      then have shared: "pt_mmapFlags pt1 = MAP_SHARED" and fd: "vw_open v k1 (pt_file pt1) = Some path"
        and sz: "unat (st_size (pt_fileStat pt1)) = length (vw_files v k1 path)"
        using fs by (simp_all add: file_opened_def initial_partition_def MAP_FILE_def)
      note mapped = m(6) [OF _ shared fd sz]
      obtain p where "pt = pt1\<lparr>pt_ptr := p\<rparr>" using m(5) ..
      moreover have "0 < length (vw_files v k path)" if ok
        using m(4) [OF that] sz fs(1) by (metis neq0_conv unat_eq_zero)
      ultimately show ?thesis
        using m(1-3) mapped opened fs \<open>path \<noteq> _\<close>
        by (simp add: partition_mapped_def file_opened_def file_or_device_def initial_partition_def Let_def)
    qed
  qed
  then show "vw_files v k' = vw_files v k" "pt_path pt = path" "\<not> ok \<Longrightarrow> vw_maps v k' = vw_maps v k"
    "ok \<Longrightarrow> path \<noteq> ''/dev/zero'' \<and> file_or_device pt \<and> partition_mapped os v pt k k'" by blast+
qed


lemma closePartition_spec:
  assumes laws: "os_laws os v" and eq: "closePartition os pt k = (pt', k')"
  shows "vw_files v k' = vw_files v k" "vw_open v k' = (vw_open v k)(pt_file pt := None)"
    "(pt_ptr pt, unat (st_size (pt_fileStat pt)), path) \<in> vw_maps v k \<Longrightarrow>
     vw_maps v k' = vw_maps v k - {(pt_ptr pt, unat (st_size (pt_fileStat pt)), path)}"
proof -
  obtain ok k1 where mu: "os_munmap os (pt_ptr pt) (st_size (pt_fileStat pt)) k = (ok, k1)" by fastforce
  note l = os_munmap_law [OF laws mu]
  define k2 where "k2 = (if ok then k1 else os_message os ''munmap'' k1)"
  have k2: "same_system os v k1 k2" using os_message_same [OF laws] by (simp add: k2_def)
  have "k' = os_close os (pt_file pt) k2" using eq by (simp add: closePartition_def Let_def mu k2_def)
  then show "vw_files v k' = vw_files v k" "vw_open v k' = (vw_open v k)(pt_file pt := None)"
    "(pt_ptr pt, unat (st_size (pt_fileStat pt)), path) \<in> vw_maps v k \<Longrightarrow>
     vw_maps v k' = vw_maps v k - {(pt_ptr pt, unat (st_size (pt_fileStat pt)), path)}"
    using l os_close_law [OF laws, where k = k2 and fd = "pt_file pt"] k2 by (auto simp: same_system_def same_maps_def)
qed


subsection \<open>A sample system\<close>

text \<open>One descriptor, one mapping, regular files only.\<close>

record system =
  sys_files :: "string \<Rightarrow> u8 list"
  sys_open :: "u32 \<Rightarrow> string option"
  sys_map :: "(nat \<times> nat \<times> string) option"
  sys_memory :: memory

definition sample_os :: "system os" where
  "sample_os = \<lparr>
     os_open = \<lambda>path flags mode k. if sys_open k 3 = None then (3, k\<lparr>sys_open := (sys_open k)(3 \<mapsto> path)\<rparr>) else (- 1, k),
     os_fstat = \<lambda>fd k. (case sys_open k fd of None \<Rightarrow> (None, k)
       | Some path \<Rightarrow> (if length (sys_files k path) < 2 ^ 64
           then Some \<lparr>st_mode = 0x81A4, st_size = word_of_nat (length (sys_files k path))\<rparr> else None, k)),
     os_blkgetsize64 = \<lambda>fd k. (None, k),
     os_mmap = \<lambda>a n prot flags fd off k. (case sys_open k fd of None \<Rightarrow> (MAP_FAILED, k)
       | Some path \<Rightarrow> if n \<noteq> 0 \<and> unat n = length (sys_files k path) \<and> sys_map k = None
         then (65536, k\<lparr>sys_map := Some (65536, unat n, path), sys_memory := store_bytes (sys_memory k) 65536 (sys_files k path)\<rparr>)
         else (MAP_FAILED, k)),
     os_munmap = \<lambda>p n k. (case sys_map k of None \<Rightarrow> (False, k)
       | Some (q, l, path) \<Rightarrow> if p = q \<and> unat n = l then (True, k\<lparr>sys_map := None\<rparr>) else (False, k)),
     os_close = \<lambda>fd k. k\<lparr>sys_open := (sys_open k)(fd := None)\<rparr>,
     os_message = \<lambda>text k. k,
     os_memory = sys_memory,
     os_store = \<lambda>m k. (case sys_map k of None \<Rightarrow> k\<lparr>sys_memory := m\<rparr>
       | Some (p, n, path) \<Rightarrow> k\<lparr>sys_memory := m, sys_files := (sys_files k)(path := load_bytes m p n)\<rparr>)\<rparr>"

definition sample_view :: "system os_view" where
  "sample_view = \<lparr>vw_files = sys_files, vw_open = sys_open, vw_maps = \<lambda>k. set_option (sys_map k)\<rparr>"

lemma sample_descriptors: "\<not> (3 :: u32) <s 0" "(- 1 :: u32) <s 0"
  by (simp_all add: word_sless_alt)

lemma sample_os_laws: "os_laws sample_os sample_view"
proof -
  have "descriptor_laws sample_os sample_view"
    by (auto simp: descriptor_laws_def sample_descriptors sample_os_def sample_view_def same_maps_def split: if_splits)
  moreover have "size_laws sample_os sample_view"
    by (auto simp: size_laws_def sample_os_def sample_view_def same_system_def same_maps_def unat_of_nat
        split: if_splits option.splits)
  moreover have "mapping_laws sample_os sample_view"
    by (auto simp: mapping_laws_def sample_os_def sample_view_def MAP_FAILED_def load_store_bytes
        split: if_splits option.splits)
  moreover have "same_system sample_os sample_view k (os_message sample_os t k)" for t k
    by (simp add: sample_os_def)
  ultimately show ?thesis by (simp add: os_laws_def)
qed

definition sample_system :: "u8 list \<Rightarrow> system" where
  "sample_system disk = \<lparr>sys_files = (\<lambda>_. [])(''sda1'' := disk), sys_open = \<lambda>_. None, sys_map = None, sys_memory = \<lambda>_. 0\<rparr>"



end
