(* ===== verification/Visualizer.thy ===== *)
theory Visualizer
  imports Fat
begin

section \<open>visualizer.cpp: the record of the layout\<close>

text \<open>
  In a build with \<open>VISUALIZER\<close> the other parts report the ranges of blocks they use, and the
  visualizer keeps them with some counters for its drawing. In the default build its functions
  are empty. The drawing itself, formatted output with floating point coordinates, is not modelled.
\<close>

datatype block_range_type =
    FAT
  | BlockGroupHeader
  | OriginalPayload
  | ResettledPayload
  | Ext4Dir
  | IdxNode
  | StreamArchiverPage

record block_range =
  br_type :: block_range_type
  br_begin :: u64
  br_length :: u64
  br_tag :: u64

text \<open>The global variables; the list linked through \<open>next\<close> is a list with its last range first.\<close>

record visualizer =
  vis_block_range :: "block_range list"
  resettled :: u32
  tag_count :: u32
  fragment_count :: u32
  pages_allocated :: u32
  archiver_pages :: u32
  group_header_pages :: u32

definition initial_visualizer :: visualizer where
  "initial_visualizer = \<lparr>vis_block_range = [], resettled = 0, tag_count = 0, fragment_count = 0,
     pages_allocated = 0, archiver_pages = 0, group_header_pages = 0\<rparr>"

definition visualizer_add_allocated_extent :: "fat_extent \<Rightarrow> visualizer \<Rightarrow> visualizer" where
  "visualizer_add_allocated_extent e v = v\<lparr>pages_allocated := pages_allocated v + ucast (fe_length e)\<rparr>"

definition visualizer_add_tag :: "u64 \<Rightarrow> visualizer \<Rightarrow> visualizer" where
  "visualizer_add_tag tag v = v\<lparr>tag_count := tag_count v + 1\<rparr>"

text \<open>A 32-bit counter raised by a 64-bit length.\<close>

definition add_length :: "u32 \<Rightarrow> u64 \<Rightarrow> u32" where
  "add_length c n = ucast (ucast c + n)"

definition visualizer_add_block_range :: "block_range \<Rightarrow> visualizer \<Rightarrow> visualizer" where
  "visualizer_add_block_range source v =
     (let v1 = v\<lparr>vis_block_range := source # vis_block_range v\<rparr>;
          v2 = (if br_type source = ResettledPayload
                then v1\<lparr>resettled := add_length (resettled v1) (br_length source)\<rparr> else v1)
      in case br_type source of
           StreamArchiverPage \<Rightarrow> v2\<lparr>archiver_pages := add_length (archiver_pages v2) (br_length source)\<rparr>
         | BlockGroupHeader \<Rightarrow> v2\<lparr>group_header_pages := add_length (group_header_pages v2) (br_length source)\<rparr>
         | ResettledPayload \<Rightarrow> v2\<lparr>fragment_count := fragment_count v2 + 1\<rparr>
         | OriginalPayload \<Rightarrow> v2\<lparr>fragment_count := fragment_count v2 + 1\<rparr>
         | _ \<Rightarrow> v2)"

subsection \<open>The counters\<close>

datatype report =
    Allocated fat_extent
  | Tag u64
  | Range block_range

primrec visualize :: "report \<Rightarrow> visualizer \<Rightarrow> visualizer" where
  "visualize (Allocated e) = visualizer_add_allocated_extent e"
| "visualize (Tag t) = visualizer_add_tag t"
| "visualize (Range r) = visualizer_add_block_range r"

fun range_of :: "report \<Rightarrow> block_range option" where
  "range_of (Range r) = Some r"
| "range_of _ = None"

definition ranges :: "report list \<Rightarrow> block_range list" where
  "ranges reports = List.map_filter range_of reports"

text \<open>The blocks of all ranges of a type.\<close>

definition total_length :: "block_range_type \<Rightarrow> block_range list \<Rightarrow> nat" where
  "total_length t rs = (\<Sum>r\<leftarrow>rs. if br_type r = t then unat (br_length r) else 0)"

text \<open>What the drawing says in its last line, computed from the kept ranges.\<close>

definition counters_ok :: "visualizer \<Rightarrow> bool" where
  "counters_ok v \<longleftrightarrow>
     resettled v = word_of_nat (total_length ResettledPayload (vis_block_range v))
     \<and> archiver_pages v = word_of_nat (total_length StreamArchiverPage (vis_block_range v))
     \<and> group_header_pages v = word_of_nat (total_length BlockGroupHeader (vis_block_range v))
     \<and> fragment_count v = word_of_nat (length (filter (\<lambda>r. br_type r \<in> {OriginalPayload, ResettledPayload}) (vis_block_range v)))"

lemma add_length_of_nat: "add_length (word_of_nat k) n = word_of_nat (unat n + k)"
proof -
  have "unat (add_length (word_of_nat k) n) = ((k mod 2 ^ 32 + unat n) mod 2 ^ 64) mod 2 ^ 32"
    by (simp add: add_length_def unsigned_ucast_eq unat_word_ariths take_bit_eq_mod unat_of_nat)
  also have "\<dots> = (k mod 2 ^ 32 + unat n) mod 2 ^ 32" by (rule mod_mod_cancel) (simp add: le_imp_power_dvd)
  also have "\<dots> = (unat n + k) mod 2 ^ 32" by (simp only: mod_add_left_eq add.commute [of k])
  finally show ?thesis by (simp only: word_unat_eq_iff unat_of_nat) simp
qed

lemma visualize_ok: "counters_ok v \<Longrightarrow> counters_ok (visualize r v)"
  by (cases r)
     (auto simp: counters_ok_def total_length_def visualizer_add_allocated_extent_def visualizer_add_tag_def
        visualizer_add_block_range_def add_length_of_nat Let_def add.commute split: block_range_type.splits)

lemma visualize_ranges:
  "vis_block_range (visualize r v) = (case range_of r of None \<Rightarrow> [] | Some b \<Rightarrow> [b]) @ vis_block_range v"
  by (cases r) (simp_all add: visualizer_add_allocated_extent_def visualizer_add_tag_def
      visualizer_add_block_range_def Let_def split: block_range_type.splits)

lemma fold_visualize:
  "counters_ok v \<Longrightarrow> counters_ok (fold visualize reports v)
     \<and> vis_block_range (fold visualize reports v) = rev (ranges reports) @ vis_block_range v"
  by (induction reports arbitrary: v)
     (simp_all add: ranges_def List.map_filter_def visualize_ok visualize_ranges split: option.splits)

text \<open>
  C0. After any sequence of reports the visualizer has kept every reported range, the last one
  first, and its counters are the totals over these ranges, modulo \<open>2 ^ 32\<close>.
\<close>

theorem visualizer_counts:
  "counters_ok (fold visualize reports initial_visualizer)
     \<and> vis_block_range (fold visualize reports initial_visualizer) = rev (ranges reports)"
  using fold_visualize [of initial_visualizer reports]
  by (simp add: counters_ok_def initial_visualizer_def total_length_def)

end
